(* ===== verification/Prelude.thy ===== *)
theory Prelude
  imports Main "HOL-Library.Char_ord" "HOL-Library.List_Lexorder"
begin

text \<open>
  Shared vocabulary of the development: bytes and the C locale's character classes,
  the parts of \<open>std::string\<close> the compiler uses (\<open>find\<close>, \<open>substr\<close>,
  \<open>std::to_string\<close>), splitting at a separator, and errors as values of a sum type.
  A C++ \<open>std::string\<close> is a list of bytes, and so is an Isabelle \<open>string\<close>;
  \<open>List_Lexorder\<close> over \<open>Char_ord\<close> is the order of \<open>std::string::operator<\<close>
  (bytes compared as \<open>unsigned char\<close>).
\<close>

named_theorems cpp_simps \<open>unfolding rules for the small definitions of the model\<close>

subsection \<open>Errors as values\<close>

type_synonym ('e, 'a) result = "'e + 'a"

definition bindE :: "('e, 'a) result \<Rightarrow> ('a \<Rightarrow> ('e, 'b) result) \<Rightarrow> ('e, 'b) result" where
  "bindE r f = (case r of Inl e \<Rightarrow> Inl e | Inr x \<Rightarrow> f x)"

lemma bindE_simps [simp]: "bindE (Inl e) f = Inl e" "bindE (Inr x) f = f x"
  by (simp_all add: bindE_def)

lemma bindE_Inr_iff: "bindE r f = Inr y \<longleftrightarrow> (\<exists>x. r = Inr x \<and> f x = Inr y)"
  by (cases r) simp_all

lemma bindE_Inl_iff: "bindE r f = Inl e \<longleftrightarrow> r = Inl e \<or> (\<exists>x. r = Inr x \<and> f x = Inl e)"
  by (cases r) simp_all

definition is_ok :: "('e, 'a) result \<Rightarrow> bool" where
  "is_ok r = (case r of Inl _ \<Rightarrow> False | Inr _ \<Rightarrow> True)"

lemma is_ok_simps [simp]: "\<not> is_ok (Inl e)" "is_ok (Inr x)"
  by (simp_all add: is_ok_def)

subsection \<open>Bytes and character classes\<close>

abbreviation byte :: "char \<Rightarrow> nat" where
  "byte c \<equiv> of_char c"

definition between :: "char \<Rightarrow> char \<Rightarrow> char \<Rightarrow> bool" where
  "between lo hi c \<longleftrightarrow> lo \<le> c \<and> c \<le> hi"

definition is_digit :: "char \<Rightarrow> bool" where
  "is_digit c \<longleftrightarrow> between (CHR ''0'') (CHR ''9'') c"

definition is_lower :: "char \<Rightarrow> bool" where
  "is_lower c \<longleftrightarrow> between (CHR ''a'') (CHR ''z'') c"

definition is_upper :: "char \<Rightarrow> bool" where
  "is_upper c \<longleftrightarrow> between (CHR ''A'') (CHR ''Z'') c"

definition is_alpha :: "char \<Rightarrow> bool" where
  "is_alpha c \<longleftrightarrow> is_lower c \<or> is_upper c"

definition is_alnum :: "char \<Rightarrow> bool" where
  "is_alnum c \<longleftrightarrow> is_alpha c \<or> is_digit c"

text \<open>\<open>std::isspace\<close> in the C locale: space and the bytes 9 to 13.\<close>

definition is_space :: "char \<Rightarrow> bool" where
  "is_space c \<longleftrightarrow> c = CHR '' '' \<or> between (CHR 0x09) (CHR 0x0D) c"

definition nul :: char where
  "nul = CHR 0x00"

definition newline :: char where
  "newline = CHR 0x0A"

text \<open>ASCII lower-casing, \<open>value - 'A' + 'a'\<close> on upper-case letters.\<close>

definition to_lower :: "char \<Rightarrow> char" where
  "to_lower c = (if is_upper c then char_of (byte c + 32) else c)"

lemmas char_class_defs =
  between_def is_digit_def is_lower_def is_upper_def is_alpha_def is_alnum_def is_space_def

declare nul_def [cpp_simps] newline_def [cpp_simps]

lemma byte_less_256 [simp]: "byte c < 256"
  using range_nat_of_char by (metis atLeastLessThan_iff rangeI)

lemma char_le_iff: "c \<le> d \<longleftrightarrow> byte c \<le> byte d"
  by (simp add: less_eq_char_def)

lemma char_less_iff: "c < d \<longleftrightarrow> byte c < byte d"
  by (simp add: less_char_def)

lemma byte_char_of: "n < 256 \<Longrightarrow> byte (char_of n) = n"
  by simp

lemma char_eq_iff_byte: "c = d \<longleftrightarrow> byte c = byte d"
  by simp

text \<open>The character classes as ranges of byte values.\<close>

lemma is_digit_byte: "is_digit c \<longleftrightarrow> 48 \<le> byte c \<and> byte c \<le> 57"
  by (simp add: is_digit_def between_def char_le_iff)

lemma is_lower_byte: "is_lower c \<longleftrightarrow> 97 \<le> byte c \<and> byte c \<le> 122"
  by (simp add: is_lower_def between_def char_le_iff)

lemma is_upper_byte: "is_upper c \<longleftrightarrow> 65 \<le> byte c \<and> byte c \<le> 90"
  by (simp add: is_upper_def between_def char_le_iff)

lemmas class_bytes = is_digit_byte is_lower_byte is_upper_byte

lemma byte_to_lower: "byte (to_lower c) = (if is_upper c then byte c + 32 else byte c)"
  by (auto simp: to_lower_def is_upper_byte)

lemma is_lower_to_lower [simp]: "is_lower (to_lower c) \<longleftrightarrow> is_alpha c"
  by (auto simp: is_alpha_def is_lower_byte is_upper_byte byte_to_lower)

lemma to_lower_idem [simp]: "to_lower (to_lower c) = to_lower c"
  by (auto simp: char_eq_iff_byte byte_to_lower is_upper_byte)

subsection \<open>Searching and cutting strings\<close>

text \<open>\<open>s.find(c, start)\<close>; \<open>None\<close> is \<open>std::string::npos\<close>.\<close>

definition str_find :: "char \<Rightarrow> string \<Rightarrow> nat \<Rightarrow> nat option" where
  "str_find c s start =
     (let n = length (takeWhile (\<lambda>x. x \<noteq> c) (drop start s))
      in if start + n < length s then Some (start + n) else None)"

text \<open>\<open>s.substr(pos, count)\<close> for \<open>pos \<le> s.size()\<close>, and \<open>s.substr(pos)\<close>.\<close>

definition substr :: "string \<Rightarrow> nat \<Rightarrow> nat \<Rightarrow> string" where
  "substr s pos count = take count (drop pos s)"

definition substr_from :: "string \<Rightarrow> nat \<Rightarrow> string" where
  "substr_from s pos = drop pos s"

text \<open>\<open>s.rfind(prefix, 0) == 0\<close>\<close>

definition starts_with :: "string \<Rightarrow> string \<Rightarrow> bool" where
  "starts_with p s \<longleftrightarrow> take (length p) s = p"

lemma str_find_None: "str_find c s start = None \<longleftrightarrow> c \<notin> set (drop start s)"
proof (cases "start \<le> length s")
  case True
  have "length (takeWhile (\<lambda>x. x \<noteq> c) (drop start s)) < length (drop start s)
        \<longleftrightarrow> c \<in> set (drop start s)"
    by (induction "drop start s") (metis (mono_tags, lifting) takeWhile_eq_all_conv
        length_takeWhile_le le_neq_implies_less less_irrefl takeWhile_eq_take take_all_iff order_refl)+
  with True show ?thesis
    by (auto simp: str_find_def Let_def)
qed (simp add: str_find_def)

lemma str_find_Some:
  assumes "str_find c s start = Some i"
  shows "start \<le> i" "i < length s" "s ! i = c" "c \<notin> set (take (i - start) (drop start s))"
proof -
  let ?t = "takeWhile (\<lambda>x. x \<noteq> c) (drop start s)"
  from assms have i: "i = start + length ?t" "i < length s"
    by (auto simp: str_find_def Let_def split: if_splits)
  then show "start \<le> i" "i < length s" by auto
  have "length ?t < length (drop start s)" using i by simp
  then have "drop start s ! length ?t = c"
    using nth_length_takeWhile [of "\<lambda>x. x \<noteq> c" "drop start s"] by simp
  with i show "s ! i = c" by (simp add: less_imp_le_nat)
  have "take (i - start) (drop start s) = ?t"
    using i by (simp add: takeWhile_eq_take [symmetric])
  then show "c \<notin> set (take (i - start) (drop start s))"
    by (auto dest: set_takeWhileD)
qed

lemma str_find_append_sep [simp]:
  "c \<notin> set p \<Longrightarrow> str_find c (p @ c # r) 0 = Some (length p)"
proof -
  assume "c \<notin> set p"
  then have "takeWhile (\<lambda>x. x \<noteq> c) (p @ c # r) = p"
    by (subst takeWhile_append2) auto
  then show ?thesis by (simp add: str_find_def Let_def)
qed

lemma str_find_absent: "c \<notin> set s \<Longrightarrow> str_find c s 0 = None"
  by (simp add: str_find_None)

subsection \<open>Splitting at a separator, and joining again\<close>

fun split_on :: "char \<Rightarrow> string \<Rightarrow> string list" where
  "split_on c [] = [[]]"
| "split_on c (x # xs) =
     (if x = c then [] # split_on c xs
      else (case split_on c xs of [] \<Rightarrow> [[x]] | p # ps \<Rightarrow> (x # p) # ps))"

fun join_with :: "string \<Rightarrow> string list \<Rightarrow> string" where
  "join_with sep [] = []"
| "join_with sep [p] = p"
| "join_with sep (p # q # ps) = p @ sep @ join_with sep (q # ps)"

lemma split_on_nonempty [simp]: "split_on c s \<noteq> []"
  by (induction s) (auto split: list.splits)

lemma split_on_absent: "c \<notin> set s \<Longrightarrow> split_on c s = [s]"
  by (induction s) auto

lemma split_on_prefix: "c \<notin> set p \<Longrightarrow> split_on c (p @ c # r) = p # split_on c r"
  by (induction p) auto

lemma join_split_on: "join_with [c] (split_on c s) = s"
proof (induction s)
  case (Cons x s)
  then show ?case
    by (cases "split_on c s") (auto split: list.splits, (case_tac list, auto)+)
qed simp

lemma split_on_parts: "p \<in> set (split_on c s) \<Longrightarrow> c \<notin> set p"
  by (induction s arbitrary: p) (auto split: if_splits list.splits)

lemma split_on_join:
  "ps \<noteq> [] \<Longrightarrow> \<forall>p \<in> set ps. c \<notin> set p \<Longrightarrow> split_on c (join_with [c] ps) = ps"
  by (induction "[c]" ps rule: join_with.induct) (auto simp: split_on_absent split_on_prefix)

subsection \<open>Decimal numerals, \<open>std::to_string\<close> on unsigned values\<close>

definition digit_char :: "nat \<Rightarrow> char" where
  "digit_char d = char_of (48 + d)"

fun to_string :: "nat \<Rightarrow> string" where
  "to_string n = (if n < 10 then [digit_char n] else to_string (n div 10) @ [digit_char (n mod 10)])"

declare to_string.simps [simp del]

definition digit_value :: "char \<Rightarrow> nat" where
  "digit_value c = byte c - 48"

definition of_decimal :: "string \<Rightarrow> nat" where
  "of_decimal s = foldl (\<lambda>n c. 10 * n + digit_value c) 0 s"

lemma digit_char_digit [simp]: "d < 10 \<Longrightarrow> is_digit (digit_char d)"
  by (simp add: is_digit_byte digit_char_def)

lemma digit_value_char [simp]: "d < 10 \<Longrightarrow> digit_value (digit_char d) = d"
  by (simp add: digit_value_def digit_char_def)

lemma to_string_digits: "c \<in> set (to_string n) \<Longrightarrow> is_digit c"
proof (induction n rule: to_string.induct)
  case (1 n)
  then show ?case
    by (subst (asm) (2) to_string.simps) (auto split: if_splits)
qed

lemma to_string_nonempty [simp]: "to_string n \<noteq> []"
  by (subst to_string.simps) simp

lemma of_decimal_snoc [simp]: "of_decimal (s @ [c]) = 10 * of_decimal s + digit_value c"
  by (simp add: of_decimal_def)

lemma of_decimal_to_string [simp]: "of_decimal (to_string n) = n"
proof (induction n rule: to_string.induct)
  case (1 n)
  show ?case
  proof (cases "n < 10")
    case True
    then show ?thesis by (subst to_string.simps) (simp add: of_decimal_def)
  next
    case False
    with 1 show ?thesis by (subst to_string.simps) simp
  qed
qed

lemma to_string_inject: "to_string m = to_string n \<longleftrightarrow> m = n"
  by (metis of_decimal_to_string)

end
