(* ===== verification/Tokens.thy ===== *)
theory Tokens
  imports Prelude
begin

text \<open>
  Source positions, diagnostics and tokens
  (\<open>include/cwhip/SourceLocation.hpp\<close>, \<open>include/cwhip/Diagnostic.hpp\<close>,
  \<open>src/Diagnostic.cpp\<close>, \<open>include/cwhip/Token.hpp\<close> and \<open>tokenTypeName\<close> of
  \<open>src/Lexer.cpp\<close>). An exception \<open>DiagnosticError\<close> is a value of type
  \<open>diagnostic\<close>, the left summand of a result.
\<close>

record source_location =
  loc_file :: string
  loc_line :: nat
  loc_column :: nat

text \<open>The default member initialisers of \<open>SourceLocation\<close>.\<close>

definition default_location :: source_location where
  "default_location = \<lparr>loc_file = [], loc_line = 1, loc_column = 1\<rparr>"

record diagnostic =
  diag_location :: source_location
  diag_message :: string

definition DiagnosticError :: "source_location \<Rightarrow> string \<Rightarrow> diagnostic" where
  "DiagnosticError location message = \<lparr>diag_location = location, diag_message = message\<rparr>"

definition formatDiagnostic :: "source_location \<Rightarrow> string \<Rightarrow> string" where
  "formatDiagnostic location message =
     loc_file location @ '':'' @ to_string (loc_line location) @ '':'' @
     to_string (loc_column location) @ '': error: '' @ message"

text \<open>
  \<open>enum class TokenType\<close>. Its 83 enumerators are grouped into type keywords, other
  keywords, punctuators and the rest, so that each datatype stays small; the
  abbreviations below give every enumerator its name \<open>T_...\<close> back.
\<close>

datatype type_keyword =
    TK_Int | TK_Bool | TK_FloatType | TK_Unsigned | TK_StrgType | TK_ListType | TK_DictType
    | TK_BufferType | TK_HandleType | TK_AnyType | TK_TypeType | TK_CallbackType | TK_Void

datatype word_keyword =
    WK_Start | WK_Class | WK_Namespace | WK_Include | WK_Inline | WK_Import | WK_As
    | WK_Public | WK_Protected | WK_Private | WK_Virtual | WK_Super | WK_Null | WK_True
    | WK_False | WK_Return | WK_If | WK_Else | WK_While | WK_Do | WK_For | WK_In | WK_Is
    | WK_Break | WK_Continue | WK_And | WK_Or | WK_Print | WK_Raise | WK_Try | WK_Except
    | WK_Finally | WK_From

datatype punctuator =
    PU_LeftBrace | PU_RightBrace | PU_LeftParen | PU_RightParen | PU_LeftBracket
    | PU_RightBracket | PU_Comma | PU_Dot | PU_Colon | PU_Plus | PU_Minus | PU_Star
    | PU_Slash | PU_Percent | PU_PlusEqual | PU_MinusEqual | PU_StarEqual | PU_SlashEqual
    | PU_PercentEqual | PU_Bang | PU_AndAnd | PU_OrOr | PU_Equal | PU_EqualEqual
    | PU_BangEqual | PU_Less | PU_LessEqual | PU_Greater | PU_GreaterEqual

datatype token_type =
    T_End | T_Identifier | T_Integer | T_UnsignedInteger | T_Float | T_String | T_InlineBody
    | T_Newline | Type_Keyword type_keyword | Word_Keyword word_keyword
    | Punctuator punctuator

abbreviation T_Int :: token_type where "T_Int \<equiv> Type_Keyword TK_Int"
abbreviation T_Bool :: token_type where "T_Bool \<equiv> Type_Keyword TK_Bool"
abbreviation T_FloatType :: token_type where "T_FloatType \<equiv> Type_Keyword TK_FloatType"
abbreviation T_Unsigned :: token_type where "T_Unsigned \<equiv> Type_Keyword TK_Unsigned"
abbreviation T_StrgType :: token_type where "T_StrgType \<equiv> Type_Keyword TK_StrgType"
abbreviation T_ListType :: token_type where "T_ListType \<equiv> Type_Keyword TK_ListType"
abbreviation T_DictType :: token_type where "T_DictType \<equiv> Type_Keyword TK_DictType"
abbreviation T_BufferType :: token_type where "T_BufferType \<equiv> Type_Keyword TK_BufferType"
abbreviation T_HandleType :: token_type where "T_HandleType \<equiv> Type_Keyword TK_HandleType"
abbreviation T_AnyType :: token_type where "T_AnyType \<equiv> Type_Keyword TK_AnyType"
abbreviation T_TypeType :: token_type where "T_TypeType \<equiv> Type_Keyword TK_TypeType"
abbreviation T_CallbackType :: token_type where "T_CallbackType \<equiv> Type_Keyword TK_CallbackType"
abbreviation T_Void :: token_type where "T_Void \<equiv> Type_Keyword TK_Void"
abbreviation T_Start :: token_type where "T_Start \<equiv> Word_Keyword WK_Start"
abbreviation T_Class :: token_type where "T_Class \<equiv> Word_Keyword WK_Class"
abbreviation T_Namespace :: token_type where "T_Namespace \<equiv> Word_Keyword WK_Namespace"
abbreviation T_Include :: token_type where "T_Include \<equiv> Word_Keyword WK_Include"
abbreviation T_Inline :: token_type where "T_Inline \<equiv> Word_Keyword WK_Inline"
abbreviation T_Import :: token_type where "T_Import \<equiv> Word_Keyword WK_Import"
abbreviation T_As :: token_type where "T_As \<equiv> Word_Keyword WK_As"
abbreviation T_Public :: token_type where "T_Public \<equiv> Word_Keyword WK_Public"
abbreviation T_Protected :: token_type where "T_Protected \<equiv> Word_Keyword WK_Protected"
abbreviation T_Private :: token_type where "T_Private \<equiv> Word_Keyword WK_Private"
abbreviation T_Virtual :: token_type where "T_Virtual \<equiv> Word_Keyword WK_Virtual"
abbreviation T_Super :: token_type where "T_Super \<equiv> Word_Keyword WK_Super"
abbreviation T_Null :: token_type where "T_Null \<equiv> Word_Keyword WK_Null"
abbreviation T_True :: token_type where "T_True \<equiv> Word_Keyword WK_True"
abbreviation T_False :: token_type where "T_False \<equiv> Word_Keyword WK_False"
abbreviation T_Return :: token_type where "T_Return \<equiv> Word_Keyword WK_Return"
abbreviation T_If :: token_type where "T_If \<equiv> Word_Keyword WK_If"
abbreviation T_Else :: token_type where "T_Else \<equiv> Word_Keyword WK_Else"
abbreviation T_While :: token_type where "T_While \<equiv> Word_Keyword WK_While"
abbreviation T_Do :: token_type where "T_Do \<equiv> Word_Keyword WK_Do"
abbreviation T_For :: token_type where "T_For \<equiv> Word_Keyword WK_For"
abbreviation T_In :: token_type where "T_In \<equiv> Word_Keyword WK_In"
abbreviation T_Is :: token_type where "T_Is \<equiv> Word_Keyword WK_Is"
abbreviation T_Break :: token_type where "T_Break \<equiv> Word_Keyword WK_Break"
abbreviation T_Continue :: token_type where "T_Continue \<equiv> Word_Keyword WK_Continue"
abbreviation T_And :: token_type where "T_And \<equiv> Word_Keyword WK_And"
abbreviation T_Or :: token_type where "T_Or \<equiv> Word_Keyword WK_Or"
abbreviation T_Print :: token_type where "T_Print \<equiv> Word_Keyword WK_Print"
abbreviation T_Raise :: token_type where "T_Raise \<equiv> Word_Keyword WK_Raise"
abbreviation T_Try :: token_type where "T_Try \<equiv> Word_Keyword WK_Try"
abbreviation T_Except :: token_type where "T_Except \<equiv> Word_Keyword WK_Except"
abbreviation T_Finally :: token_type where "T_Finally \<equiv> Word_Keyword WK_Finally"
abbreviation T_From :: token_type where "T_From \<equiv> Word_Keyword WK_From"
abbreviation T_LeftBrace :: token_type where "T_LeftBrace \<equiv> Punctuator PU_LeftBrace"
abbreviation T_RightBrace :: token_type where "T_RightBrace \<equiv> Punctuator PU_RightBrace"
abbreviation T_LeftParen :: token_type where "T_LeftParen \<equiv> Punctuator PU_LeftParen"
abbreviation T_RightParen :: token_type where "T_RightParen \<equiv> Punctuator PU_RightParen"
abbreviation T_LeftBracket :: token_type where "T_LeftBracket \<equiv> Punctuator PU_LeftBracket"
abbreviation T_RightBracket :: token_type where "T_RightBracket \<equiv> Punctuator PU_RightBracket"
abbreviation T_Comma :: token_type where "T_Comma \<equiv> Punctuator PU_Comma"
abbreviation T_Dot :: token_type where "T_Dot \<equiv> Punctuator PU_Dot"
abbreviation T_Colon :: token_type where "T_Colon \<equiv> Punctuator PU_Colon"
abbreviation T_Plus :: token_type where "T_Plus \<equiv> Punctuator PU_Plus"
abbreviation T_Minus :: token_type where "T_Minus \<equiv> Punctuator PU_Minus"
abbreviation T_Star :: token_type where "T_Star \<equiv> Punctuator PU_Star"
abbreviation T_Slash :: token_type where "T_Slash \<equiv> Punctuator PU_Slash"
abbreviation T_Percent :: token_type where "T_Percent \<equiv> Punctuator PU_Percent"
abbreviation T_PlusEqual :: token_type where "T_PlusEqual \<equiv> Punctuator PU_PlusEqual"
abbreviation T_MinusEqual :: token_type where "T_MinusEqual \<equiv> Punctuator PU_MinusEqual"
abbreviation T_StarEqual :: token_type where "T_StarEqual \<equiv> Punctuator PU_StarEqual"
abbreviation T_SlashEqual :: token_type where "T_SlashEqual \<equiv> Punctuator PU_SlashEqual"
abbreviation T_PercentEqual :: token_type where "T_PercentEqual \<equiv> Punctuator PU_PercentEqual"
abbreviation T_Bang :: token_type where "T_Bang \<equiv> Punctuator PU_Bang"
abbreviation T_AndAnd :: token_type where "T_AndAnd \<equiv> Punctuator PU_AndAnd"
abbreviation T_OrOr :: token_type where "T_OrOr \<equiv> Punctuator PU_OrOr"
abbreviation T_Equal :: token_type where "T_Equal \<equiv> Punctuator PU_Equal"
abbreviation T_EqualEqual :: token_type where "T_EqualEqual \<equiv> Punctuator PU_EqualEqual"
abbreviation T_BangEqual :: token_type where "T_BangEqual \<equiv> Punctuator PU_BangEqual"
abbreviation T_Less :: token_type where "T_Less \<equiv> Punctuator PU_Less"
abbreviation T_LessEqual :: token_type where "T_LessEqual \<equiv> Punctuator PU_LessEqual"
abbreviation T_Greater :: token_type where "T_Greater \<equiv> Punctuator PU_Greater"
abbreviation T_GreaterEqual :: token_type where "T_GreaterEqual \<equiv> Punctuator PU_GreaterEqual"

record token =
  tok_type :: token_type
  tok_text :: string
  tok_location :: source_location
  tok_formatted :: bool

definition default_token :: token where
  "default_token = \<lparr>tok_type = T_End, tok_text = [], tok_location = default_location,
     tok_formatted = False\<rparr>"

text \<open>The C++ string literal \<open>"'x'"\<close>.\<close>

definition quoted :: "string \<Rightarrow> string" where
  "quoted s = CHR 0x27 # s @ [CHR 0x27]"

fun tokenTypeName :: "token_type \<Rightarrow> string" where
  "tokenTypeName T_End = ''end of file''"
| "tokenTypeName T_Identifier = ''identifier''"
| "tokenTypeName T_Integer = ''integer''"
| "tokenTypeName T_UnsignedInteger = ''unsigned integer''"
| "tokenTypeName T_Float = ''float''"
| "tokenTypeName T_String = ''string''"
| "tokenTypeName T_Start = quoted ''start''"
| "tokenTypeName T_Int = quoted ''int''"
| "tokenTypeName T_Bool = quoted ''bool''"
| "tokenTypeName T_FloatType = quoted ''float''"
| "tokenTypeName T_Unsigned = quoted ''unsigned''"
| "tokenTypeName T_StrgType = quoted ''strg''"
| "tokenTypeName T_ListType = quoted ''list''"
| "tokenTypeName T_DictType = quoted ''dict''"
| "tokenTypeName T_BufferType = quoted ''buffer''"
| "tokenTypeName T_HandleType = quoted ''handle''"
| "tokenTypeName T_AnyType = quoted ''any''"
| "tokenTypeName T_TypeType = quoted ''type''"
| "tokenTypeName T_CallbackType = quoted ''callback''"
| "tokenTypeName T_Class = quoted ''class''"
| "tokenTypeName T_Namespace = quoted ''namespace''"
| "tokenTypeName T_Include = quoted ''include''"
| "tokenTypeName T_Inline = quoted ''inline''"
| "tokenTypeName T_InlineBody = ''inline C body''"
| "tokenTypeName T_Import = quoted ''import''"
| "tokenTypeName T_As = quoted ''as''"
| "tokenTypeName T_Public = quoted ''public''"
| "tokenTypeName T_Protected = quoted ''protected''"
| "tokenTypeName T_Private = quoted ''private''"
| "tokenTypeName T_Virtual = quoted ''virtual''"
| "tokenTypeName T_Super = quoted ''super''"
| "tokenTypeName T_Null = quoted ''null''"
| "tokenTypeName T_True = quoted ''true''"
| "tokenTypeName T_False = quoted ''false''"
| "tokenTypeName T_Return = quoted ''return''"
| "tokenTypeName T_Void = quoted ''void''"
| "tokenTypeName T_If = quoted ''if''"
| "tokenTypeName T_Else = quoted ''else''"
| "tokenTypeName T_While = quoted ''while''"
| "tokenTypeName T_Do = quoted ''do''"
| "tokenTypeName T_For = quoted ''for''"
| "tokenTypeName T_In = quoted ''in''"
| "tokenTypeName T_Is = quoted ''is''"
| "tokenTypeName T_Break = quoted ''break''"
| "tokenTypeName T_Continue = quoted ''continue''"
| "tokenTypeName T_And = quoted ''and''"
| "tokenTypeName T_Or = quoted ''or''"
| "tokenTypeName T_Print = quoted ''print''"
| "tokenTypeName T_Raise = quoted ''raise''"
| "tokenTypeName T_Try = quoted ''try''"
| "tokenTypeName T_Except = quoted ''except''"
| "tokenTypeName T_Finally = quoted ''finally''"
| "tokenTypeName T_From = quoted ''from''"
| "tokenTypeName T_LeftBrace = quoted ''{''"
| "tokenTypeName T_RightBrace = quoted ''}''"
| "tokenTypeName T_LeftParen = quoted ''(''"
| "tokenTypeName T_RightParen = quoted '')''"
| "tokenTypeName T_LeftBracket = quoted ''[''"
| "tokenTypeName T_RightBracket = quoted '']''"
| "tokenTypeName T_Comma = quoted '',''"
| "tokenTypeName T_Dot = quoted ''.''"
| "tokenTypeName T_Colon = quoted '':''"
| "tokenTypeName T_Newline = ''newline''"
| "tokenTypeName T_Plus = quoted ''+''"
| "tokenTypeName T_Minus = quoted ''-''"
| "tokenTypeName T_Star = quoted ''*''"
| "tokenTypeName T_Slash = quoted ''/''"
| "tokenTypeName T_Percent = quoted ''%''"
| "tokenTypeName T_PlusEqual = quoted ''+=''"
| "tokenTypeName T_MinusEqual = quoted ''-=''"
| "tokenTypeName T_StarEqual = quoted ''*=''"
| "tokenTypeName T_SlashEqual = quoted ''/=''"
| "tokenTypeName T_PercentEqual = quoted ''%=''"
| "tokenTypeName T_Bang = quoted ''!''"
| "tokenTypeName T_AndAnd = quoted ''&&''"
| "tokenTypeName T_OrOr = quoted ''||''"
| "tokenTypeName T_Equal = quoted ''=''"
| "tokenTypeName T_EqualEqual = quoted ''==''"
| "tokenTypeName T_BangEqual = quoted ''!=''"
| "tokenTypeName T_Less = quoted ''<''"
| "tokenTypeName T_LessEqual = quoted ''<=''"
| "tokenTypeName T_Greater = quoted ''>''"
| "tokenTypeName T_GreaterEqual = quoted ''>=''"

subsection \<open>Order of source positions\<close>

text \<open>Positions within one file, by line and then column.\<close>

definition before :: "source_location \<Rightarrow> source_location \<Rightarrow> bool" where
  "before a b \<longleftrightarrow> loc_line a < loc_line b \<or>
     (loc_line a = loc_line b \<and> loc_column a < loc_column b)"

lemma before_trans: "before a b \<Longrightarrow> before b c \<Longrightarrow> before a c"
  by (auto simp: before_def)

lemma before_irrefl [simp]: "\<not> before a a"
  by (simp add: before_def)

end
