(* ===== verification/Prefix_Code.thy ===== *)
theory Prefix_Code
  imports Prelude
begin

text \<open>
  The interface of a self-delimiting encoding: no code of a valid item is empty or the
  prefix of a text that starts with the code of another. Its client writes codes one
  after the other without separators and relies on reading them back.
\<close>

locale prefix_code =
  fixes valid :: "'a \<Rightarrow> bool" and code :: "'a \<Rightarrow> 'c list"
  assumes code_nonempty: "valid a \<Longrightarrow> code a \<noteq> []"
    and code_prefix_free: "valid a \<Longrightarrow> valid b \<Longrightarrow> code a @ x = code b @ y \<Longrightarrow> a = b"
begin

lemma code_inject: "valid a \<Longrightarrow> valid b \<Longrightarrow> code a = code b \<longleftrightarrow> a = b"
  using code_prefix_free [of a b "[]" "[]"] by auto

lemma codes_inject:
  "list_all valid as \<Longrightarrow> list_all valid bs \<Longrightarrow>
     concat (map code as) = concat (map code bs) \<longleftrightarrow> as = bs"
proof (induction as arbitrary: bs)
  case Nil
  then show ?case by (cases bs) (auto dest: code_nonempty)
next
  case (Cons a as)
  show ?case
  proof (cases bs)
    case Nil
    with Cons.prems show ?thesis by (auto dest: code_nonempty)
  next
    case (Cons b bs')
    have "a = b \<and> as = bs'" if "code a @ concat (map code as) = code b @ concat (map code bs')"
    proof -
      from that have ab: "a = b" using Cons Cons.prems by (auto dest: code_prefix_free)
      with that have "concat (map code as) = concat (map code bs')" by simp
      with ab Cons Cons.prems Cons.IH [of bs'] show ?thesis by simp
    qed
    with Cons show ?thesis by auto
  qed
qed

end

end
