(* ===== verification/Utf8.thy ===== *)
theory Utf8
  imports Prefix_Code
begin

text \<open>
  The UTF-8 check of the lexer (\<open>isValidUtf8\<close> of \<open>src/Lexer.cpp\<close>), and an
  independent specification: a byte string is valid exactly if it is the concatenation
  of the encodings (RFC 3629) of Unicode scalar values.
\<close>

subsection \<open>The check, as the lexer computes it\<close>

text \<open>
  The body of the loop for a lead byte above 0x7f: the length of the sequence and the
  range of its second byte, or \<open>None\<close> for the \<open>return false\<close> of the last branch.
\<close>

definition utf8_lead :: "nat \<Rightarrow> (nat \<times> nat \<times> nat) option" where
  "utf8_lead lead =
     (if 0xc2 \<le> lead \<and> lead \<le> 0xdf then Some (2, 0x80, 0xbf)
      else if 0xe0 \<le> lead \<and> lead \<le> 0xef then
        Some (3, if lead = 0xe0 then 0xa0 else 0x80, if lead = 0xed then 0x9f else 0xbf)
      else if 0xf0 \<le> lead \<and> lead \<le> 0xf4 then
        Some (4, if lead = 0xf0 then 0x90 else 0x80, if lead = 0xf4 then 0x8f else 0xbf)
      else None)"

text \<open>The inner loop over the offsets \<open>2 .. length - 1\<close>.\<close>

definition utf8_continuations :: "string \<Rightarrow> nat \<Rightarrow> nat \<Rightarrow> bool" where
  "utf8_continuations str index len \<longleftrightarrow>
     (\<forall>offset \<in> set [2..<len].
        let continuation = byte (str ! (index + offset))
        in \<not> (continuation < 0x80 \<or> continuation > 0xbf))"

lemma utf8_lead_positive: "utf8_lead n = Some (len, lo, hi) \<Longrightarrow> 0 < len"
  by (auto simp: utf8_lead_def split: if_splits)

function utf8_loop :: "string \<Rightarrow> nat \<Rightarrow> bool" where
  "utf8_loop str index =
     (if index < length str then
        let lead = byte (str ! index) in
        if lead \<le> 0x7f then utf8_loop str (index + 1)
        else
          (case utf8_lead lead of
             None \<Rightarrow> False
           | Some (len, secondMinimum, secondMaximum) \<Rightarrow>
               if index + len > length str then False
               else
                 let second = byte (str ! (index + 1)) in
                 if second < secondMinimum \<or> second > secondMaximum then False
                 else if \<not> utf8_continuations str index len then False
                 else utf8_loop str (index + len))
      else True)"
  by pat_completeness auto
termination
  by (relation "measure (\<lambda>(str, index). length str - index)")
     (auto dest: utf8_lead_positive)

declare utf8_loop.simps [simp del]

definition isValidUtf8 :: "string \<Rightarrow> bool" where
  "isValidUtf8 str = utf8_loop str 0"

subsection \<open>The specification\<close>

definition scalar_value :: "nat \<Rightarrow> bool" where
  "scalar_value cp \<longleftrightarrow> cp < 0x110000 \<and> \<not> (0xD800 \<le> cp \<and> cp \<le> 0xDFFF)"

definition utf8_encode :: "nat \<Rightarrow> nat list" where
  "utf8_encode cp =
     (if cp < 0x80 then [cp]
      else if cp < 0x800 then [0xC0 + cp div 64, 0x80 + cp mod 64]
      else if cp < 0x10000 then
        [0xE0 + cp div 4096, 0x80 + cp div 64 mod 64, 0x80 + cp mod 64]
      else
        [0xF0 + cp div 262144, 0x80 + cp div 4096 mod 64,
         0x80 + cp div 64 mod 64, 0x80 + cp mod 64])"

definition utf8_text :: "nat list \<Rightarrow> bool" where
  "utf8_text bs \<longleftrightarrow> (\<exists>cps. (\<forall>cp \<in> set cps. scalar_value cp) \<and> bs = concat (map utf8_encode cps))"

lemma utf8_text_Nil [simp]: "utf8_text []"
  by (auto simp: utf8_text_def intro: exI [of _ "[]"])

lemma utf8_text_Cons_iff:
  "bs \<noteq> [] \<Longrightarrow> utf8_text bs \<longleftrightarrow>
     (\<exists>cp rest. scalar_value cp \<and> bs = utf8_encode cp @ rest \<and> utf8_text rest)"
proof
  assume "bs \<noteq> []" "utf8_text bs"
  then obtain cps where cps: "\<forall>cp \<in> set cps. scalar_value cp" "bs = concat (map utf8_encode cps)"
    by (auto simp: utf8_text_def)
  with \<open>bs \<noteq> []\<close> obtain c cs where "cps = c # cs" by (cases cps) auto
  with cps show "\<exists>cp rest. scalar_value cp \<and> bs = utf8_encode cp @ rest \<and> utf8_text rest"
    by (auto simp: utf8_text_def)
next
  assume "\<exists>cp rest. scalar_value cp \<and> bs = utf8_encode cp @ rest \<and> utf8_text rest"
  then obtain cp cps where "scalar_value cp" "\<forall>cp \<in> set cps. scalar_value cp"
    "bs = utf8_encode cp @ concat (map utf8_encode cps)"
    by (auto simp: utf8_text_def)
  then show "utf8_text bs"
    unfolding utf8_text_def by (intro exI [of _ "cp # cps"]) auto
qed

subsection \<open>One sequence\<close>

text \<open>
  The shape test one iteration makes on the bytes from the current index, as a function
  of those bytes only: the number of bytes consumed.
\<close>

definition utf8_sequence :: "nat list \<Rightarrow> nat option" where
  "utf8_sequence bs =
     (case bs of
        [] \<Rightarrow> None
      | lead # more \<Rightarrow>
          if lead \<le> 0x7f then Some 1
          else (case utf8_lead lead of
                  None \<Rightarrow> None
                | Some (len, lo, hi) \<Rightarrow>
                    if len \<le> length bs \<and> lo \<le> more ! 0 \<and> more ! 0 \<le> hi \<and>
                       (\<forall>offset \<in> {2..<len}. 0x80 \<le> bs ! offset \<and> bs ! offset \<le> 0xbf)
                    then Some len else None))"

text \<open>The three multi-byte shapes accepted, in terms of the payload bits.\<close>

lemma utf8_sequence_2:
  assumes "2 \<le> a" "a < 32" "b < 64"
  shows "utf8_sequence ([0xC0 + a, 0x80 + b] @ rest) = Some 2"
proof -
  have "utf8_lead (0xC0 + a) = Some (2, 0x80, 0xbf)"
    using assms by (simp add: utf8_lead_def)
  then show ?thesis using assms by (simp add: utf8_sequence_def)
qed

lemma utf8_sequence_3:
  assumes "a < 16" "b < 64" "c < 64" "a = 0 \<longrightarrow> 32 \<le> b" "a = 13 \<longrightarrow> b \<le> 31"
  shows "utf8_sequence ([0xE0 + a, 0x80 + b, 0x80 + c] @ rest) = Some 3"
proof -
  have up: "{2..<3::nat} = {2}" by auto
  have "utf8_lead (0xE0 + a)
      = Some (3, if a = 0 then 0xa0 else 0x80, if a = 13 then 0x9f else 0xbf)"
    using assms(1) by (simp add: utf8_lead_def)
  then show ?thesis using assms by (simp add: utf8_sequence_def up)
qed

lemma utf8_sequence_4:
  assumes "a < 5" "b < 64" "c < 64" "d < 64" "a = 0 \<longrightarrow> 16 \<le> b" "a = 4 \<longrightarrow> b \<le> 15"
  shows "utf8_sequence ([0xF0 + a, 0x80 + b, 0x80 + c, 0x80 + d] @ rest) = Some 4"
proof -
  have up: "{2..<4::nat} = {2, 3}" by auto
  have "utf8_lead (0xF0 + a)
      = Some (4, if a = 0 then 0x90 else 0x80, if a = 4 then 0x8f else 0xbf)"
    using assms(1) by (simp add: utf8_lead_def)
  then show ?thesis using assms by (simp add: utf8_sequence_def up)
qed

lemma utf8_sequence_encode:
  assumes "scalar_value cp"
  shows "utf8_sequence (utf8_encode cp @ rest) = Some (length (utf8_encode cp))"
proof -
  from assms have cp: "cp < 0x110000" "\<not> (0xD800 \<le> cp \<and> cp \<le> 0xDFFF)"
    by (auto simp: scalar_value_def)
  consider "cp < 0x80" | "0x80 \<le> cp" "cp < 0x800" | "0x800 \<le> cp" "cp < 0x10000"
    | "0x10000 \<le> cp" by linarith
  then show ?thesis
  proof cases
    case 1
    then show ?thesis by (simp add: utf8_sequence_def utf8_encode_def)
  next
    case 2
    then have "2 \<le> cp div 64" "cp div 64 < 32" by simp_all
    then show ?thesis using 2 utf8_sequence_2 [of "cp div 64" "cp mod 64" rest]
      by (simp add: utf8_encode_def)
  next
    case 3
    define q where "q = cp div 64"
    have q: "32 \<le> q" "q < 1024" "\<not> (864 \<le> q \<and> q \<le> 895)" using 3 cp by (auto simp: q_def)
    have "q div 64 < 16" "q div 64 = 0 \<longrightarrow> 32 \<le> q mod 64" "q div 64 = 13 \<longrightarrow> q mod 64 \<le> 31"
    proof -
      have "q div 64 * 64 + q mod 64 = q" "q mod 64 < 64" by simp_all
      then show "q div 64 < 16" "q div 64 = 0 \<longrightarrow> 32 \<le> q mod 64"
        "q div 64 = 13 \<longrightarrow> q mod 64 \<le> 31" using q by linarith+
    qed
    moreover have "cp div 4096 = q div 64" by (simp add: q_def div_mult2_eq [symmetric])
    ultimately have "cp div 4096 < 16" "cp div 4096 = 0 \<longrightarrow> 32 \<le> cp div 64 mod 64"
      "cp div 4096 = 13 \<longrightarrow> cp div 64 mod 64 \<le> 31"
      by (simp_all add: q_def)
    then show ?thesis
      using 3 utf8_sequence_3 [of "cp div 4096" "cp div 64 mod 64" "cp mod 64" rest]
      by (simp add: utf8_encode_def)
  next
    case 4
    define q where "q = cp div 4096"
    have q: "16 \<le> q" "q < 272" using 4 cp by (auto simp: q_def)
    have "q div 64 < 5" "q div 64 = 0 \<longrightarrow> 16 \<le> q mod 64" "q div 64 = 4 \<longrightarrow> q mod 64 \<le> 15"
    proof -
      have "q div 64 * 64 + q mod 64 = q" "q mod 64 < 64" by simp_all
      then show "q div 64 < 5" "q div 64 = 0 \<longrightarrow> 16 \<le> q mod 64"
        "q div 64 = 4 \<longrightarrow> q mod 64 \<le> 15" using q by linarith+
    qed
    moreover have "cp div 262144 = q div 64" by (simp add: q_def div_mult2_eq [symmetric])
    ultimately have "cp div 262144 < 5" "cp div 262144 = 0 \<longrightarrow> 16 \<le> cp div 4096 mod 64"
      "cp div 262144 = 4 \<longrightarrow> cp div 4096 mod 64 \<le> 15"
      by (simp_all add: q_def)
    then show ?thesis
      using 4 utf8_sequence_4 [of "cp div 262144" "cp div 4096 mod 64" "cp div 64 mod 64"
          "cp mod 64" rest]
      by (simp add: utf8_encode_def)
  qed
qed

text \<open>The encodings can be told apart: they meet the contract of a prefix code.\<close>

definition utf8_decode :: "nat list \<Rightarrow> nat" where
  "utf8_decode bs =
     (case bs of
        [a, b] \<Rightarrow> 64 * (a - 0xC0) + (b - 0x80)
      | [a, b, c] \<Rightarrow> 4096 * (a - 0xE0) + 64 * (b - 0x80) + (c - 0x80)
      | [a, b, c, d] \<Rightarrow> 262144 * (a - 0xF0) + 4096 * (b - 0x80) + 64 * (c - 0x80) + (d - 0x80)
      | _ \<Rightarrow> hd bs)"

lemma utf8_decode_encode: "utf8_decode (utf8_encode cp) = cp"
proof -
  have 1: "64 * (cp div 64) + cp mod 64 = cp" by simp
  have 2: "64 * (cp div 4096) + cp div 64 mod 64 = cp div 64"
    using div_mult_mod_eq [of "cp div 64" 64] by (simp add: div_mult2_eq [symmetric])
  have 3: "64 * (cp div 262144) + cp div 4096 mod 64 = cp div 4096"
    using div_mult_mod_eq [of "cp div 4096" 64] by (simp add: div_mult2_eq [symmetric])
  have "4096 * (cp div 4096) + 64 * (cp div 64 mod 64) + cp mod 64 = cp"
    using 1 2 by linarith
  moreover have "262144 * (cp div 262144) + 4096 * (cp div 4096 mod 64) +
      64 * (cp div 64 mod 64) + cp mod 64 = cp"
    using 1 2 3 by linarith
  ultimately show ?thesis by (simp add: utf8_decode_def utf8_encode_def)
qed

interpretation utf8_code: prefix_code scalar_value utf8_encode
proof unfold_locales
  fix a b x y assume a: "scalar_value a" "scalar_value b" "utf8_encode a @ x = utf8_encode b @ y"
  then have "length (utf8_encode a) = length (utf8_encode b)"
    using utf8_sequence_encode [of a x] utf8_sequence_encode [of b y] by simp
  with a(3) have "utf8_encode a = utf8_encode b" by simp
  then show "a = b" by (metis utf8_decode_encode)
qed (simp add: utf8_encode_def)

text \<open>Conversely, an accepted sequence of bytes is the encoding of a scalar str.\<close>

lemma base64_div_mod: "r < 64 \<Longrightarrow> (64 * a + r) div 64 = a" "r < 64 \<Longrightarrow> (64 * a + r) mod 64 = (r::nat)"
  by simp_all

lemma utf8_sequence_decode:
  assumes "utf8_sequence bs = Some len" "\<forall>b \<in> set bs. b < 256"
  shows "\<exists>cp rest. scalar_value cp \<and> bs = utf8_encode cp @ rest \<and> len = length (utf8_encode cp)"
proof -
  from assms(1) obtain lead more where bs: "bs = lead # more"
    by (auto simp: utf8_sequence_def split: list.splits)
  show ?thesis
  proof (cases "lead \<le> 0x7f")
    case True
    with assms(1) bs have "len = 1" by (simp add: utf8_sequence_def)
    with True bs show ?thesis
      by (intro exI [of _ lead] exI [of _ more]) (simp add: scalar_value_def utf8_encode_def)
  next
    case False
    with assms(1) bs obtain lo hi where lead: "utf8_lead lead = Some (len, lo, hi)"
      and fits: "len \<le> length bs" "lo \<le> more ! 0" "more ! 0 \<le> hi"
      and cont: "\<forall>offset \<in> {2..<len}. 0x80 \<le> bs ! offset \<and> bs ! offset \<le> 0xbf"
      by (auto simp: utf8_sequence_def split: option.splits if_splits)
    from lead consider "len = 2" | "len = 3" | "len = 4"
      by (auto simp: utf8_lead_def split: if_splits)
    then show ?thesis
    proof cases
      case 1
      with fits bs obtain x rest where more: "more = x # rest" by (cases more) auto
      have b: "2 \<le> lead - 0xC0" "lead - 0xC0 < 32" "0xC0 \<le> lead" "0x80 \<le> x" "x \<le> 0xbf"
        using lead fits more 1 by (auto simp: utf8_lead_def split: if_splits)
      define p q where "p = lead - 0xC0" and "q = x - 0x80"
      have pq: "2 \<le> p" "p < 32" "q < 64" "lead = 0xC0 + p" "x = 0x80 + q"
        using b by (auto simp: p_def q_def)
      define cp where "cp = p * 64 + q"
      have "cp div 64 = p" "cp mod 64 = q" "0x80 \<le> cp" "cp < 0x800"
        using pq(1-3) by (auto simp: cp_def)
      with pq 1 bs more show ?thesis
        by (intro exI [of _ cp] exI [of _ rest]) (simp add: scalar_value_def utf8_encode_def)
    next
      case 2
      with fits bs obtain x y rest where more: "more = x # y # rest"
        by (cases more; cases "tl more") auto
      have b: "lead - 0xE0 < 16" "0xE0 \<le> lead" "0x80 \<le> x" "x \<le> 0xbf" "0x80 \<le> y" "y \<le> 0xbf"
        "lead = 0xE0 \<Longrightarrow> 0xa0 \<le> x" "lead = 0xed \<Longrightarrow> x \<le> 0x9f"
        using lead fits more 2 cont bs by (auto simp: utf8_lead_def split: if_splits)
      define p q r where "p = lead - 0xE0" and "q = x - 0x80" and "r = y - 0x80"
      have pq: "p < 16" "q < 64" "r < 64" "p = 0 \<Longrightarrow> 32 \<le> q" "p = 13 \<Longrightarrow> q < 32"
        "lead = 0xE0 + p" "x = 0x80 + q" "y = 0x80 + r"
        using b unfolding p_def q_def r_def by linarith+
      define cp where "cp = p * 4096 + q * 64 + r"
      have "cp div 4096 = p" "cp div 64 mod 64 = q" "cp mod 64 = r" "0x800 \<le> cp" "cp < 0x10000"
        "\<not> (0xD800 \<le> cp \<and> cp \<le> 0xDFFF)"
      proof -
        have c: "cp = 64 * (64 * p + q) + r" by (simp add: cp_def)
        then have d: "cp div 64 = 64 * p + q" "cp mod 64 = r"
          using pq(3) base64_div_mod [of r "64 * p + q"] by simp_all
        then show "cp div 4096 = p" "cp div 64 mod 64 = q" "cp mod 64 = r"
          using pq(2) base64_div_mod [of q p] div_mult2_eq [of cp 64 64] by simp_all
        show "0x800 \<le> cp" "cp < 0x10000" using pq(1-5) unfolding cp_def by linarith+
        consider "p \<le> 12" | "p = 13" | "14 \<le> p" by linarith
        then show "\<not> (0xD800 \<le> cp \<and> cp \<le> 0xDFFF)"
          using pq(1-5) by cases (auto simp: cp_def)
      qed
      with pq 2 bs more show ?thesis
        by (intro exI [of _ cp] exI [of _ rest]) (simp add: scalar_value_def utf8_encode_def)
    next
      case 3
      with fits bs obtain x y z rest where more: "more = x # y # z # rest"
        by (cases more; cases "tl more"; cases "tl (tl more)") auto
      have up: "{2..<4::nat} = {2, 3}" by auto
      have b: "lead - 0xF0 < 5" "0xF0 \<le> lead" "0x80 \<le> x" "x \<le> 0xbf" "0x80 \<le> y" "y \<le> 0xbf"
        "0x80 \<le> z" "z \<le> 0xbf" "lead = 0xF0 \<Longrightarrow> 0x90 \<le> x" "lead = 0xF4 \<Longrightarrow> x \<le> 0x8f"
        using lead fits more 3 cont bs up by (auto simp: utf8_lead_def split: if_splits)
      define p q r s where "p = lead - 0xF0" and "q = x - 0x80" and "r = y - 0x80"
        and "s = z - 0x80"
      have pq: "p < 5" "q < 64" "r < 64" "s < 64" "p = 0 \<Longrightarrow> 16 \<le> q" "p = 4 \<Longrightarrow> q < 16"
        "lead = 0xF0 + p" "x = 0x80 + q" "y = 0x80 + r" "z = 0x80 + s"
        using b unfolding p_def q_def r_def s_def by linarith+
      define cp where "cp = p * 262144 + q * 4096 + r * 64 + s"
      have "cp div 262144 = p" "cp div 4096 mod 64 = q" "cp div 64 mod 64 = r" "cp mod 64 = s"
        "0x10000 \<le> cp" "cp < 0x110000"
      proof -
        have "cp = 64 * (64 * (64 * p + q) + r) + s" by (simp add: cp_def)
        then have c: "cp div 64 = 64 * (64 * p + q) + r" "cp mod 64 = s"
          using pq(4) base64_div_mod [of s "64 * (64 * p + q) + r"] by simp_all
        then have d: "cp div 4096 = 64 * p + q"
          using pq(3) base64_div_mod [of r "64 * p + q"] div_mult2_eq [of cp 64 64] by simp
        then show "cp div 262144 = p" "cp div 4096 mod 64 = q"
          using pq(2) base64_div_mod [of q p] div_mult2_eq [of cp 4096 64] by simp_all
        show "cp div 64 mod 64 = r" "cp mod 64 = s"
          using c pq(3) base64_div_mod [of r "64 * p + q"] by simp_all
        show "0x10000 \<le> cp" "cp < 0x110000"
          using pq(1-6) unfolding cp_def by linarith+
      qed
      with pq 3 bs more show ?thesis
        by (intro exI [of _ cp] exI [of _ rest]) (simp add: scalar_value_def utf8_encode_def)
    qed
  qed
qed

subsection \<open>The loop\<close>

lemma utf8_loop_step:
  assumes "index < length str"
  shows "utf8_loop str index =
    (case utf8_sequence (map of_char (drop index str)) of
       None \<Rightarrow> False
     | Some len \<Rightarrow> utf8_loop str (index + len))"
proof -
  let ?bs = "map of_char (drop index str) :: nat list"
  have bs: "?bs = byte (str ! index) # map of_char (drop (Suc index) str)"
    using assms by (metis Cons_nth_drop_Suc list.simps(9))
  have nth: "?bs ! k = byte (str ! (index + k))" if "index + k < length str" for k
    using that by simp
  show ?thesis
  proof (cases "byte (str ! index) \<le> 0x7f")
    case True
    then show ?thesis
      using assms by (subst utf8_loop.simps) (simp add: bs utf8_sequence_def)
  next
    case False
    show ?thesis
    proof (cases "utf8_lead (byte (str ! index))")
      case None
      with False assms show ?thesis
        by (subst utf8_loop.simps) (simp add: bs utf8_sequence_def Let_def)
    next
      case (Some t)
      obtain len lo hi where t: "t = (len, lo, hi)" by (cases t)
      have two: "2 \<le> len" using Some t by (auto simp: utf8_lead_def split: if_splits)
      have seq: "utf8_sequence ?bs =
          (if len \<le> length ?bs \<and> lo \<le> ?bs ! 1 \<and> ?bs ! 1 \<le> hi \<and>
             (\<forall>offset \<in> {2..<len}. 0x80 \<le> ?bs ! offset \<and> ?bs ! offset \<le> 0xbf)
           then Some len else None)"
        using False Some t by (simp add: utf8_sequence_def bs)
      show ?thesis
      proof (cases "index + len > length str")
        case True
        then have "\<not> len \<le> length ?bs" using assms by simp
        then have "utf8_sequence ?bs = None" unfolding seq by simp
        with True False Some t assms show ?thesis
          by (subst utf8_loop.simps) (simp add: Let_def)
      next
        case fits: False
        then have n1: "?bs ! 1 = byte (str ! (index + 1))" using two nth [of 1] by simp
        have cont: "(\<forall>offset \<in> {2..<len}. 0x80 \<le> ?bs ! offset \<and> ?bs ! offset \<le> 0xbf)
            \<longleftrightarrow> utf8_continuations str index len"
          using fits by (force simp: utf8_continuations_def Let_def not_less nth)
        show ?thesis
          using False Some t assms fits
          by (subst utf8_loop.simps) (auto simp: Let_def seq n1 [unfolded One_nat_def] cont not_less)
      qed
    qed
  qed
qed

text \<open>
  The specification at one step: a text starts with an accepted sequence, and what
  follows that sequence is a text again.
\<close>

lemma utf8_text_step:
  assumes "\<forall>b \<in> set bs. b < 256" "bs \<noteq> []"
  shows "utf8_text bs \<longleftrightarrow>
    (case utf8_sequence bs of None \<Rightarrow> False | Some len \<Rightarrow> utf8_text (drop len bs))"
proof (cases "utf8_sequence bs")
  case None
  then show ?thesis
    using assms(2) by (auto simp: utf8_text_Cons_iff utf8_sequence_encode)
next
  case (Some len)
  then obtain cp rest where *: "scalar_value cp" "bs = utf8_encode cp @ rest"
      "len = length (utf8_encode cp)"
    using utf8_sequence_decode assms(1) by blast
  have unique: "rest' = rest" if "scalar_value cp'" "bs = utf8_encode cp' @ rest'" for cp' rest'
  proof -
    have "len = length (utf8_encode cp')"
      using that Some utf8_sequence_encode [of cp' rest'] by simp
    with * that show ?thesis by (metis append_eq_append_conv)
  qed
  have "utf8_text bs \<longleftrightarrow> utf8_text rest"
    using assms(2) *(1,2) unique by (metis utf8_text_Cons_iff)
  with Some * show ?thesis by simp
qed

lemma utf8_sequence_positive: "utf8_sequence bs = Some len \<Longrightarrow> 0 < len"
  by (auto simp: utf8_sequence_def dest: utf8_lead_positive
      split: list.splits if_splits option.splits)

lemma utf8_loop_text:
  "index \<le> length str \<Longrightarrow>
     utf8_loop str index \<longleftrightarrow> utf8_text (map of_char (drop index str))"
proof (induction "length str - index" arbitrary: index rule: less_induct)
  case less
  show ?case
  proof (cases "index < length str")
    case False
    with less.prems show ?thesis by (subst utf8_loop.simps) simp
  next
    case True
    let ?bs = "map of_char (drop index str) :: nat list"
    have small: "\<forall>b \<in> set ?bs. b < 256" and ne: "?bs \<noteq> []" using True by auto
    show ?thesis
    proof (cases "utf8_sequence ?bs")
      case None
      with True small ne show ?thesis by (simp add: utf8_loop_step utf8_text_step)
    next
      case (Some len)
      have "0 < len" using Some by (rule utf8_sequence_positive)
      moreover have "len \<le> length ?bs"
        using utf8_sequence_decode [OF Some small] by (metis le_add1 length_append)
      ultimately have "utf8_loop str (index + len)
          \<longleftrightarrow> utf8_text (map of_char (drop (index + len) str))"
        using True by (intro less.hyps) auto
      with True small ne Some show ?thesis
        by (simp add: utf8_loop_step utf8_text_step drop_map add.commute)
    qed
  qed
qed

text \<open>
  C24: the lexer's UTF-8 check accepts exactly the byte strings that encode a sequence
  of Unicode scalar values: no overlong forms, no surrogates, nothing above U+10FFFF.
  The sequence is then unique.
\<close>

theorem isValidUtf8_correct:
  "isValidUtf8 str \<longleftrightarrow>
     (\<exists>!cps. list_all scalar_value cps \<and> map of_char str = concat (map utf8_encode cps))"
proof -
  have "isValidUtf8 str \<longleftrightarrow>
      (\<exists>cps. list_all scalar_value cps \<and> map of_char str = concat (map utf8_encode cps))"
    using utf8_loop_text [of 0 str] by (simp add: isValidUtf8_def utf8_text_def list_all_iff)
  then show ?thesis using utf8_code.codes_inject by auto
qed

end
