(* ===== verification/Lexer.thy ===== *)
theory Lexer
  imports Tokens Utf8
begin

text \<open>
  The lexer (\<open>src/Lexer.cpp\<close>, \<open>include/cwhip/Lexer.hpp\<close>): the class
  \<open>Lexer\<close> is the record \<open>lexer\<close>, and every member function maps a state to a
  result and the state it leaves. A function that throws returns \<open>Inl\<close> of the
  diagnostic and the state at the throw. \<open>lx_fault\<close> is a ghost field: it records a
  read of \<open>source_\<close> past its end, undefined behaviour in the C++.
  The positions are \<open>std::size_t\<close> values bounded by the size of the source (lines and
  columns by one more), so they do not wrap and are natural numbers here.
\<close>

record lexer =
  lx_source :: string
  lx_file :: string
  lx_position :: nat
  lx_line :: nat
  lx_column :: nat
  lx_inline :: bool
  lx_fault :: bool

type_synonym 'a lex = "(diagnostic \<times> lexer, 'a \<times> lexer) result"

definition new_lexer :: "string \<Rightarrow> string \<Rightarrow> lexer" where
  "new_lexer source fileName =
     \<lparr>lx_source = source, lx_file = fileName, lx_position = 0, lx_line = 1, lx_column = 1,
      lx_inline = False, lx_fault = False\<rparr>"

subsection \<open>Characters\<close>

definition isIdentifierStart :: "char \<Rightarrow> bool" where
  "isIdentifierStart c \<longleftrightarrow> is_lower c \<or> is_upper c \<or> c = CHR ''_''"

definition isIdentifierPart :: "char \<Rightarrow> bool" where
  "isIdentifierPart c \<longleftrightarrow> isIdentifierStart c \<or> is_digit c"

definition isHexDigit :: "char \<Rightarrow> bool" where
  "isHexDigit c \<longleftrightarrow> is_digit c \<or> between (CHR ''a'') (CHR ''f'') c \<or>
     between (CHR ''A'') (CHR ''F'') c"

definition atEnd :: "lexer \<Rightarrow> bool" where
  "atEnd s \<longleftrightarrow> lx_position s \<ge> length (lx_source s)"

definition peek :: "lexer \<Rightarrow> nat \<Rightarrow> char" where
  "peek s offset =
     (let index = lx_position s + offset
      in if index < length (lx_source s) then lx_source s ! index else nul)"

definition advance :: "lexer \<Rightarrow> char \<times> lexer" where
  "advance s =
     (if lx_position s < length (lx_source s) then
        let c = lx_source s ! lx_position s;
            s' = s\<lparr>lx_position := lx_position s + 1\<rparr>
        in (c, if c = newline then s'\<lparr>lx_line := lx_line s + 1, lx_column := 1\<rparr>
               else s'\<lparr>lx_column := lx_column s + 1\<rparr>)
      else (nul, s\<lparr>lx_fault := True\<rparr>))"

abbreviation skip :: "lexer \<Rightarrow> lexer" where
  "skip s \<equiv> snd (advance s)"

definition currentLocation :: "lexer \<Rightarrow> source_location" where
  "currentLocation s =
     \<lparr>loc_file = lx_file s, loc_line = lx_line s, loc_column = lx_column s\<rparr>"

definition makeToken :: "token_type \<Rightarrow> string \<Rightarrow> source_location \<Rightarrow> bool \<Rightarrow> token" where
  "makeToken type text location formattedString =
     \<lparr>tok_type = type, tok_text = text, tok_location = location,
      tok_formatted = formattedString\<rparr>"

definition throw_at ::
  "source_location \<Rightarrow> string \<Rightarrow> lexer \<Rightarrow> (diagnostic \<times> lexer, 'a) result" where
  "throw_at location message s = Inl (DiagnosticError location message, s)"

text \<open>The unread part of the source bounds every loop.\<close>

definition unread :: "lexer \<Rightarrow> nat" where
  "unread s = length (lx_source s) - lx_position s"

lemma advance_unread: "\<not> atEnd s \<Longrightarrow> unread (skip s) < unread s"
  by (auto simp: atEnd_def unread_def advance_def Let_def)

subsection \<open>Loops that consume characters\<close>

text \<open>
  \<open>while (condition(peek())) text.push_back(advance())\<close>. Where the source tests
  \<open>peek()\<close> alone, the condition is false for the \<open>'\0'\<close> that \<open>peek\<close> returns
  at the end, so the test for the end changes nothing.
\<close>

function lex_while :: "(char \<Rightarrow> bool) \<Rightarrow> lexer \<Rightarrow> string \<times> lexer" where
  "lex_while condition s =
     (if \<not> atEnd s \<and> condition (peek s 0) then
        let (cs, s') = lex_while condition (skip s) in (fst (advance s) # cs, s')
      else ([], s))"
  by pat_completeness auto
termination
  by (relation "measure (\<lambda>(c, s). unread s)") (auto intro: advance_unread)

declare lex_while.simps [simp del]

subsection \<open>Trivia: white space and comments\<close>

definition newlineToken :: "source_location \<Rightarrow> token" where
  "newlineToken location = makeToken T_Newline [newline] location False"

text \<open>The loop of a block comment, from behind \<open>/*\<close> to behind \<open>*/\<close>.\<close>

function block_comment ::
  "source_location \<Rightarrow> nat \<Rightarrow> token list \<Rightarrow> lexer \<Rightarrow> token list lex" where
  "block_comment commentLocation parenthesisDepth tokens s =
     (if \<not> atEnd s then
        if peek s 0 = CHR ''*'' \<and> peek s 1 = CHR ''/'' then
          Inr (tokens, skip (skip s))
        else if peek s 0 = newline then
          block_comment commentLocation parenthesisDepth
            (if parenthesisDepth = 0 then tokens @ [newlineToken (currentLocation s)]
             else tokens)
            (skip s)
        else block_comment commentLocation parenthesisDepth tokens (skip s)
      else throw_at commentLocation ''unterminated block comment'' s)"
  by pat_completeness auto
termination
  by (relation "measure (\<lambda>(l, d, t, s). unread s)") (auto intro: advance_unread)

declare block_comment.simps [simp del]

subsection \<open>The invariant of the lexer state\<close>

text \<open>The line and the column of an offset, computed from the source alone.\<close>

definition line_at :: "string \<Rightarrow> nat \<Rightarrow> nat" where
  "line_at src n = 1 + count_list (take n src) newline"

definition column_at :: "string \<Rightarrow> nat \<Rightarrow> nat" where
  "column_at src n = 1 + length (takeWhile (\<lambda>c. c \<noteq> newline) (rev (take n src)))"

definition lx_ok :: "lexer \<Rightarrow> bool" where
  "lx_ok s \<longleftrightarrow> \<not> lx_fault s \<and> lx_position s \<le> length (lx_source s) \<and>
     lx_line s = line_at (lx_source s) (lx_position s) \<and>
     lx_column s = column_at (lx_source s) (lx_position s)"

text \<open>What every operation keeps: the source, its name and the invariant; it never goes back.\<close>

definition lexes :: "lexer \<Rightarrow> lexer \<Rightarrow> bool" where
  "lexes s s' \<longleftrightarrow> lx_source s' = lx_source s \<and> lx_file s' = lx_file s \<and>
     lx_position s \<le> lx_position s' \<and> (lx_ok s \<longrightarrow> lx_ok s')"

named_theorems lexes_intros \<open>operations that keep the lexer's invariant\<close>

lemma lexes_refl [simp, lexes_intros]: "lexes s s"
  by (simp add: lexes_def)

lemma lexes_trans: "lexes s t \<Longrightarrow> lexes t u \<Longrightarrow> lexes s u"
  by (auto simp: lexes_def)

lemma line_at_Suc:
  "n < length src \<Longrightarrow> line_at src (Suc n) = line_at src n + (if src ! n = newline then 1 else 0)"
  by (simp add: line_at_def take_Suc_conv_app_nth)

lemma column_at_Suc:
  "n < length src \<Longrightarrow> column_at src (Suc n) = (if src ! n = newline then 1 else column_at src n + 1)"
  by (simp add: column_at_def take_Suc_conv_app_nth)

lemma advance_position: "\<not> atEnd s \<Longrightarrow> lx_position (skip s) = Suc (lx_position s)"
  by (auto simp: atEnd_def advance_def Let_def)

lemma advance_char: "\<not> atEnd s \<Longrightarrow> fst (advance s) = peek s 0"
  by (auto simp: atEnd_def advance_def Let_def peek_def)

lemma lexes_advance [lexes_intros]: "\<not> atEnd s \<Longrightarrow> lexes s (skip s)"
  by (auto simp: lexes_def lx_ok_def atEnd_def advance_def Let_def line_at_Suc column_at_Suc
      split: if_splits)

lemma lexes_inline [simp]: "lexes s (s\<lparr>lx_inline := b\<rparr>)"
  by (simp add: lexes_def lx_ok_def)

lemma peek_not_end: "peek s 0 = c \<Longrightarrow> c \<noteq> nul \<Longrightarrow> \<not> atEnd s"
  by (auto simp: peek_def atEnd_def Let_def)

lemma peek_1: "\<not> atEnd s \<Longrightarrow> peek (skip s) 0 = peek s 1"
  by (auto simp: atEnd_def advance_def Let_def peek_def)

lemma lexes_lex_while [lexes_intros]: "lexes s (snd (lex_while condition s))"
proof (induction condition s rule: lex_while.induct)
  case (1 condition s)
  then show ?case
    by (subst lex_while.simps)
      (auto simp: split_beta Let_def intro: lexes_trans lexes_advance)
qed

lemma lex_while_progress:
  assumes "\<not> atEnd s" "condition (peek s 0)"
  shows "lx_position s < lx_position (snd (lex_while condition s))"
proof -
  have "lx_position s < lx_position (skip s)"
    using assms by (simp add: advance_position)
  also have "\<dots> \<le> lx_position (snd (lex_while condition (skip s)))"
    using lexes_lex_while [of "skip s" condition] by (simp add: lexes_def)
  finally show ?thesis
    using assms by (subst lex_while.simps) (simp add: split_beta Let_def)
qed

lemma lex_while_all: "list_all condition (fst (lex_while condition s))"
proof (induction condition s rule: lex_while.induct)
  case (1 condition s)
  then show ?case
    by (subst lex_while.simps) (auto simp: split_beta Let_def advance_char)
qed

lemma lex_while_stop:
  "atEnd (snd (lex_while condition s)) \<or> \<not> condition (peek (snd (lex_while condition s)) 0)"
proof (induction condition s rule: lex_while.induct)
  case (1 condition s)
  show ?case
  proof (cases "\<not> atEnd s \<and> condition (peek s 0)")
    case True
    then have "snd (lex_while condition s) = snd (lex_while condition (skip s))"
      by (subst lex_while.simps) (simp add: split_beta Let_def)
    with True 1 show ?thesis by simp
  next
    case False
    then have "snd (lex_while condition s) = s"
      by (subst lex_while.simps) auto
    with False show ?thesis by auto
  qed
qed

text \<open>Operations that also consume at least one character.\<close>

definition consumes :: "lexer \<Rightarrow> lexer \<Rightarrow> bool" where
  "consumes s s' \<longleftrightarrow> lexes s s' \<and> \<not> atEnd s \<and> lx_position s < lx_position s'"

lemma consumes_lexes: "consumes s s' \<Longrightarrow> lexes s s'"
  by (simp add: consumes_def)

lemma consumes_advance [lexes_intros]: "\<not> atEnd s \<Longrightarrow> consumes s (skip s)"
  by (simp add: consumes_def lexes_advance advance_position)

lemma consumes_trans1: "consumes s t \<Longrightarrow> lexes t u \<Longrightarrow> consumes s u"
  by (auto simp: consumes_def lexes_def)

lemma consumes_trans2: "lexes s t \<Longrightarrow> consumes t u \<Longrightarrow> consumes s u"
  by (auto simp: consumes_def lexes_def atEnd_def)

lemma consumes_unread: "consumes s s' \<Longrightarrow> unread s' < unread s"
  by (auto simp: consumes_def lexes_def unread_def atEnd_def)

lemma consumes_two:
  "\<not> atEnd s \<Longrightarrow> peek s 1 \<noteq> nul \<Longrightarrow> consumes s (skip (skip s))"
  using peek_not_end [of "skip s" "peek s 1"]
  by (auto simp: peek_1 intro: consumes_trans1 consumes_advance lexes_advance)

lemma lexes_step: "\<not> atEnd s \<Longrightarrow> lexes (skip s) t \<Longrightarrow> lexes s t"
  by (rule lexes_trans [OF lexes_advance])

lemma consumes_step: "\<not> atEnd s \<Longrightarrow> lexes (skip s) t \<Longrightarrow> consumes s t"
  by (rule consumes_trans1 [OF consumes_advance])

lemma consumes_step2:
  "\<not> atEnd s \<Longrightarrow> peek s 1 \<noteq> nul \<Longrightarrow> lexes (skip (skip s)) t \<Longrightarrow> consumes s t"
  by (rule consumes_trans1 [OF consumes_two])

lemma lexes_two_steps: "\<not> atEnd s \<Longrightarrow> \<not> atEnd (skip s) \<Longrightarrow> lexes (skip (skip s)) t \<Longrightarrow> lexes s t"
  by (blast intro: lexes_step)

lemmas lexes_step2 = consumes_step2 [THEN consumes_lexes]

lemma consumes_lex_while:
  "\<not> atEnd s \<Longrightarrow> condition (peek s 0) \<Longrightarrow> consumes s (snd (lex_while condition s))"
  by (simp add: consumes_def lexes_lex_while lex_while_progress)

lemma advance_lexes: "advance s = (c, s') \<Longrightarrow> \<not> atEnd s \<Longrightarrow> consumes s s'"
  using consumes_advance [of s] by simp

text \<open>The state a result leaves, whichever way it ends.\<close>

definition end_state :: "'a lex \<Rightarrow> lexer" where
  "end_state r = (case r of Inl (_, s) \<Rightarrow> s | Inr (_, s) \<Rightarrow> s)"

lemma end_state_simps [simp]:
  "end_state (Inl (e, s)) = s" "end_state (Inr (x, s)) = s" "end_state (throw_at l m s) = s"
  by (simp_all add: end_state_def throw_at_def)

lemma throw_at_not_Inr [simp]: "throw_at l m s \<noteq> Inr x" "Inr x \<noteq> throw_at l m s"
  by (simp_all add: throw_at_def)

lemma lexes_block_comment [lexes_intros]:
  "lexes s (end_state (block_comment l d toks s))"
proof (induction l d toks s rule: block_comment.induct)
  case (1 l d toks s)
  have "lexes s (skip (skip s))" if "\<not> atEnd s" "peek s 1 = CHR ''/''"
    using that consumes_two [of s] by (simp add: nul_def consumes_lexes)
  with 1 show ?case
    by (subst block_comment.simps) (auto intro: lexes_trans lexes_advance)
qed

function skipTrivia :: "token list \<Rightarrow> nat \<Rightarrow> lexer \<Rightarrow> token list lex" where
  "skipTrivia tokens parenthesisDepth s0 =
     (let s = snd (lex_while (\<lambda>c. c \<noteq> newline \<and> is_space c) s0) in
      if peek s 0 = CHR '';'' \<or> peek s 0 = CHR ''#'' then
        skipTrivia tokens parenthesisDepth (snd (lex_while (\<lambda>c. c \<noteq> newline) s))
      else if peek s 0 = CHR ''/'' \<and> peek s 1 = CHR ''/'' then
        skipTrivia tokens parenthesisDepth (snd (lex_while (\<lambda>c. c \<noteq> newline) s))
      else if peek s 0 = CHR ''/'' \<and> peek s 1 = CHR ''*'' then
        (case block_comment (currentLocation s) parenthesisDepth tokens (skip (skip s)) of
           Inl e \<Rightarrow> Inl e
         | Inr (tokens', s') \<Rightarrow> skipTrivia tokens' parenthesisDepth s')
      else Inr (tokens, s))"
  by pat_completeness auto
termination
proof (relation "measure (\<lambda>(t, d, s). unread s)", goal_cases)
  case 1 show ?case by simp
next
  case (2 tokens d s0 s)
  then show ?case
    using lexes_lex_while [of s0 "\<lambda>c. c \<noteq> newline \<and> is_space c"]
      lex_while_progress [of s "\<lambda>c. c \<noteq> newline"] lexes_lex_while [of s "\<lambda>c. c \<noteq> newline"]
      peek_not_end [of s "CHR '';''"] peek_not_end [of s "CHR ''#''"]
    by (auto simp: unread_def lexes_def atEnd_def newline_def nul_def)
next
  case (3 tokens d s0 s)
  then show ?case
    using lexes_lex_while [of s0 "\<lambda>c. c \<noteq> newline \<and> is_space c"]
      lex_while_progress [of s "\<lambda>c. c \<noteq> newline"] lexes_lex_while [of s "\<lambda>c. c \<noteq> newline"]
      peek_not_end [of s "CHR ''/''"]
    by (auto simp: unread_def lexes_def atEnd_def newline_def nul_def)
next
  case (4 tokens d s0 s r tokens' s')
  have "\<not> atEnd s" using 4 by (intro peek_not_end) (auto simp: nul_def)
  then have "consumes s (skip (skip s))"
    using 4 by (intro consumes_two) (auto simp: nul_def)
  moreover have "lexes (skip (skip s)) s'"
    using 4 lexes_block_comment [of "skip (skip s)" "currentLocation s" d tokens]
    by (simp add: end_state_def split: prod.splits)
  moreover have "lexes s0 s" using 4 by (simp add: lexes_lex_while)
  ultimately show ?case
    by (auto intro: consumes_unread consumes_trans1 consumes_trans2)
qed

declare skipTrivia.simps [simp del]

subsection \<open>Numbers and words\<close>

text \<open>
  \<open>text\<close> and the lexer advance together: \<open>text.push_back(advance())\<close>, once, under a
  condition on \<open>peek()\<close>, or in a loop.
\<close>

type_synonym scan = "string \<times> lexer"

abbreviation look :: "scan \<Rightarrow> char" where
  "look p \<equiv> peek (snd p) 0"

definition append1 :: "scan \<Rightarrow> scan" where
  "append1 p = (fst p @ [fst (advance (snd p))], skip (snd p))"

definition append_if :: "(char \<Rightarrow> bool) \<Rightarrow> scan \<Rightarrow> scan" where
  "append_if condition p = (if condition (look p) then append1 p else p)"

definition append_while :: "(char \<Rightarrow> bool) \<Rightarrow> scan \<Rightarrow> scan" where
  "append_while condition p =
     (fst p @ fst (lex_while condition (snd p)), snd (lex_while condition (snd p)))"

lemma peek_atEnd [simp]: "atEnd s \<Longrightarrow> peek s k = nul"
  by (simp add: atEnd_def peek_def)

lemma lexes_append1 [lexes_intros]: "look p \<noteq> nul \<Longrightarrow> lexes (snd p) (snd (append1 p))"
  by (auto simp: append1_def intro: lexes_advance)

lemma consumes_append1: "look p \<noteq> nul \<Longrightarrow> consumes (snd p) (snd (append1 p))"
  by (auto simp: append1_def intro: consumes_advance)

lemma lexes_append_if [lexes_intros]:
  "\<not> condition nul \<Longrightarrow> lexes (snd p) (snd (append_if condition p))"
  by (auto simp: append_if_def intro: lexes_append1)

lemma lexes_append_while [lexes_intros]: "lexes (snd p) (snd (append_while condition p))"
  by (simp add: append_while_def lexes_lex_while)

definition isUnsignedSuffix :: "char \<Rightarrow> bool" where
  "isUnsignedSuffix c \<longleftrightarrow> c = CHR ''u'' \<or> c = CHR ''U''"

definition isExponent :: "char \<Rightarrow> bool" where
  "isExponent c \<longleftrightarrow> c = CHR ''e'' \<or> c = CHR ''E''"

definition isSign :: "char \<Rightarrow> bool" where
  "isSign c \<longleftrightarrow> c = CHR ''+'' \<or> c = CHR ''-''"

definition hexMessage :: string where
  "hexMessage = ''malformed hexadecimal integer literal''"

text \<open>The hexadecimal branch of \<open>scanIdentifierOrInteger\<close>.\<close>

definition scanHexadecimal :: "source_location \<Rightarrow> lexer \<Rightarrow> token lex" where
  "scanHexadecimal location s =
     (let p2 = append1 (append1 ([], s));
          p3 = append_while isHexDigit p2
      in if length (fst p3) = length (fst p2) then throw_at location hexMessage (snd p3)
         else
           let p4 = append_if isUnsignedSuffix p3
           in if isIdentifierPart (look p4) then
                throw_at location hexMessage (snd (append_while isIdentifierPart p4))
              else Inr (makeToken (if isUnsignedSuffix (last (fst p4))
                                   then T_UnsignedInteger else T_Integer)
                          (fst p4) location False, snd p4))"

text \<open>The trailing dot with its digits, and the exponent: the flag \<open>floating\<close> and the scan.\<close>

definition scanFraction :: "bool \<Rightarrow> scan \<Rightarrow> bool \<times> scan" where
  "scanFraction leadingDot p =
     (if \<not> leadingDot \<and> look p = CHR ''.'' then (True, append_while is_digit (append1 p))
      else (leadingDot, p))"

definition scanExponent ::
  "source_location \<Rightarrow> bool \<Rightarrow> scan \<Rightarrow> (diagnostic \<times> lexer, bool \<times> scan) result" where
  "scanExponent location floating p =
     (if isExponent (look p) then
        let p2 = append_if isSign (append1 p)
        in if \<not> is_digit (look p2) then
             throw_at location ''malformed floating-point literal'' (snd p2)
           else Inr (True, append_while is_digit p2)
      else Inr (floating, p))"

definition scanNumber :: "lexer \<Rightarrow> token lex" where
  "scanNumber s =
     (let location = currentLocation s;
          leadingDot = (peek s 0 = CHR ''.'');
          hexadecimal = (\<not> leadingDot \<and> peek s 0 = CHR ''0'' \<and>
                         (peek s 1 = CHR ''x'' \<or> peek s 1 = CHR ''X''))
      in if hexadecimal then scanHexadecimal location s
         else
           let p1 = append_while is_digit (if leadingDot then append1 ([], s) else ([], s));
               p2 = scanFraction leadingDot p1
           in bindE (scanExponent location (fst p2) (snd p2)) (\<lambda>(floating, p3).
                if \<not> floating \<and> isUnsignedSuffix (look p3) then
                  let p4 = append1 p3
                  in Inr (makeToken T_UnsignedInteger (fst p4) location False, snd p4)
                else Inr (makeToken (if floating then T_Float else T_Integer)
                            (fst p3) location False, snd p3)))"

definition keyword_table :: "(string \<times> token_type) list" where
  "keyword_table =
    [(''start'', T_Start), (''int'', T_Int), (''bool'', T_Bool), (''float'', T_FloatType),
     (''unsigned'', T_Unsigned), (''strg'', T_StrgType), (''list'', T_ListType),
     (''dict'', T_DictType), (''buffer'', T_BufferType), (''handle'', T_HandleType),
     (''any'', T_AnyType), (''type'', T_TypeType), (''callback'', T_CallbackType),
     (''if'', T_If), (''else'', T_Else), (''while'', T_While), (''do'', T_Do),
     (''for'', T_For), (''in'', T_In), (''is'', T_Is), (''break'', T_Break),
     (''continue'', T_Continue), (''and'', T_And), (''or'', T_Or), (''not'', T_Bang),
     (''print'', T_Print), (''raise'', T_Raise), (''try'', T_Try), (''except'', T_Except),
     (''finally'', T_Finally), (''class'', T_Class), (''namespace'', T_Namespace),
     (''include'', T_Include), (''inline'', T_Inline), (''import'', T_Import),
     (''as'', T_As), (''from'', T_From), (''public'', T_Public),
     (''protected'', T_Protected), (''private'', T_Private), (''virtual'', T_Virtual),
     (''super'', T_Super), (''null'', T_Null), (''true'', T_True), (''false'', T_False),
     (''return'', T_Return), (''void'', T_Void)]"

text \<open>The type of a word: \<open>String\<close> stays an identifier, keywords ignore case.\<close>

definition word_type :: "string \<Rightarrow> token_type" where
  "word_type text =
     (if text = ''String'' then T_Identifier
      else (case map_of keyword_table (map to_lower text) of
              None \<Rightarrow> T_Identifier | Some type \<Rightarrow> type))"

definition scanWord :: "lexer \<Rightarrow> token lex" where
  "scanWord s =
     (let p = append_while isIdentifierPart ([], s);
          type = word_type (fst p)
      in Inr (makeToken type (fst p) (currentLocation s) False,
              if type = T_Inline then (snd p)\<lparr>lx_inline := True\<rparr> else snd p))"

definition scanIdentifierOrInteger :: "lexer \<Rightarrow> token lex" where
  "scanIdentifierOrInteger s =
     (if peek s 0 = CHR ''.'' \<or> is_digit (peek s 0) then scanNumber s else scanWord s)"

subsection \<open>Inline C bodies\<close>

text \<open>The lambda \<open>append\<close>: \<open>body.push_back(advance())\<close>; the state becomes \<open>skip s\<close>.\<close>

definition push :: "string \<Rightarrow> lexer \<Rightarrow> string" where
  "push body s = body @ [fst (advance s)]"

text \<open>The inner loop over a C string or character literal: whether it was closed.\<close>

function inline_literal :: "char \<Rightarrow> string \<Rightarrow> lexer \<Rightarrow> bool \<times> string \<times> lexer" where
  "inline_literal quote body s =
     (if \<not> atEnd s then
        if peek s 0 = CHR 0x5C \<and> \<not> atEnd (skip s) then
          inline_literal quote (push (push body s) (skip s)) (skip (skip s))
        else if peek s 0 = quote then (True, push body s, skip s)
        else inline_literal quote (push body s) (skip s)
      else (False, body, s))"
  by pat_completeness auto
termination
  by (relation "measure (\<lambda>(q, b, s). unread s)")
    (auto intro!: consumes_unread intro: consumes_advance consumes_trans1 lexes_advance)

declare inline_literal.simps [simp del]

text \<open>The inner loop over a C block comment, behind its opening.\<close>

function inline_comment :: "string \<Rightarrow> lexer \<Rightarrow> bool \<times> string \<times> lexer" where
  "inline_comment body s =
     (if \<not> atEnd s then
        if peek s 0 = CHR ''*'' \<and> peek s 1 = CHR ''/'' then
          (True, push (push body s) (skip s), skip (skip s))
        else inline_comment (push body s) (skip s)
      else (False, body, s))"
  by pat_completeness auto
termination
  by (relation "measure (\<lambda>(b, s). unread s)") (auto intro: advance_unread)

declare inline_comment.simps [simp del]

lemma lexes_inline_literal [lexes_intros]: "lexes s (snd (snd (inline_literal quote body s)))"
proof (induction quote body s rule: inline_literal.induct)
  case (1 quote body s)
  then show ?case
    by (subst inline_literal.simps) (auto intro: lexes_step lexes_advance lexes_two_steps)
qed

lemma lexes_inline_comment [lexes_intros]: "lexes s (snd (snd (inline_comment body s)))"
proof (induction body s rule: inline_comment.induct)
  case (1 body s)
  then show ?case
    using lexes_step2 [of s "skip (skip s)"]
    by (subst inline_comment.simps) (auto simp: nul_def intro: lexes_step)
qed

lemma inline_literal_consumes:
  "(b, t, s') = inline_literal quote body (skip s) \<Longrightarrow> \<not> atEnd s \<Longrightarrow> consumes s s'"
  using lexes_inline_literal [of "skip s" quote body] by (metis consumes_step snd_conv)

lemma inline_comment_consumes:
  "(b, t, s') = inline_comment body (skip (skip s)) \<Longrightarrow> \<not> atEnd s \<Longrightarrow> peek s 1 = CHR ''*''
    \<Longrightarrow> consumes s s'"
  using lexes_inline_comment [of "skip (skip s)" body] consumes_step2 [of s s']
  by (simp add: nul_def) (metis snd_conv)

text \<open>The main loop; \<open>braceDepth\<close> starts at 1 and the body ends where it reaches 0.\<close>

function inline_body ::
  "source_location \<Rightarrow> nat \<Rightarrow> string \<Rightarrow> lexer \<Rightarrow> token lex" where
  "inline_body location braceDepth body s =
     (if atEnd s then throw_at location ''unterminated inline C block'' s
      else if peek s 0 = CHR 0x22 \<or> peek s 0 = CHR 0x27 then
        (case inline_literal (peek s 0) (push body s) (skip s) of (closed, body2, s2) \<Rightarrow>
           if \<not> closed then throw_at location ''unterminated string in inline C block'' s2
           else inline_body location braceDepth body2 s2)
      else if peek s 0 = CHR ''/'' \<and> peek s 1 = CHR ''/'' then
        (case append_while (\<lambda>c. c \<noteq> newline) (push (push body s) (skip s), skip (skip s)) of
           (body3, s3) \<Rightarrow> inline_body location braceDepth body3 s3)
      else if peek s 0 = CHR ''/'' \<and> peek s 1 = CHR ''*'' then
        (case inline_comment (push (push body s) (skip s)) (skip (skip s)) of
           (closed, body3, s3) \<Rightarrow>
             if \<not> closed then throw_at location ''unterminated comment in inline C block'' s3
             else inline_body location braceDepth body3 s3)
      else if peek s 0 = CHR ''{'' then
        inline_body location (braceDepth + 1) (push body s) (skip s)
      else if peek s 0 = CHR ''}'' then
        if braceDepth - 1 = 0 then
          Inr (makeToken T_InlineBody body location False, (skip s)\<lparr>lx_inline := False\<rparr>)
        else inline_body location (braceDepth - 1) (body @ [CHR ''}'']) (skip s)
      else inline_body location braceDepth (push body s) (skip s))"
  by pat_completeness auto
termination
proof (relation "measure (\<lambda>(l, d, b, s). unread s)", goal_cases)
  case (2 l d body s closed r body2 s2)
  then have "consumes s s2" by (auto intro: inline_literal_consumes)
  then show ?case by (auto intro: consumes_unread)
next
  case (3 l d body s body3 s3)
  then have "consumes s s3"
    by (auto simp: append_while_def nul_def intro: consumes_step2 lexes_lex_while)
  then show ?case by (auto intro: consumes_unread)
next
  case (4 l d body s closed r body3 s3)
  then have "consumes s s3" by (auto intro: inline_comment_consumes)
  then show ?case by (auto intro: consumes_unread)
qed (auto intro: advance_unread)

declare inline_body.simps [simp del]

lemma inline_body_atEnd: "atEnd s \<Longrightarrow> end_state (inline_body location d body s) = s"
  by (subst inline_body.simps) simp

text \<open>
  One step of the loop: it throws, finishes, or goes on from a state behind this one.
\<close>

lemma inline_body_step:
  assumes s: "\<not> atEnd s"
    and throw: "\<And>m s'. consumes s s' \<Longrightarrow> inline_body l d body s = throw_at l m s' \<Longrightarrow> P"
    and finish: "\<And>s'. consumes s s' \<Longrightarrow>
       inline_body l d body s = Inr (makeToken T_InlineBody body l False, s') \<Longrightarrow> P"
    and step: "\<And>d' body' t. consumes s t \<Longrightarrow>
       inline_body l d body s = inline_body l d' body' t \<Longrightarrow> P"
  shows P
proof -
  note one = consumes_advance [OF s]
  consider (quote) "peek s 0 = CHR 0x22 \<or> peek s 0 = CHR 0x27"
    | (line) "peek s 0 = CHR ''/''" "peek s 1 = CHR ''/''"
    | (block) "peek s 0 = CHR ''/''" "peek s 1 = CHR ''*''"
    | (other) "\<not> (peek s 0 = CHR 0x22 \<or> peek s 0 = CHR 0x27)"
        "\<not> (peek s 0 = CHR ''/'' \<and> peek s 1 = CHR ''/'')"
        "\<not> (peek s 0 = CHR ''/'' \<and> peek s 1 = CHR ''*'')"
    by blast
  then show P
  proof cases
    case quote
    obtain c b2 s2 where r: "inline_literal (peek s 0) (push body s) (skip s) = (c, b2, s2)"
      by (metis prod_cases3)
    then have 2: "consumes s s2" using s by (metis inline_literal_consumes)
    have "inline_body l d body s = (if c then inline_body l d b2 s2
        else throw_at l ''unterminated string in inline C block'' s2)"
      using quote r s by (subst inline_body.simps) simp
    with 2 show P using throw step by (cases c) auto
  next
    case line
    obtain b3 s3 where r: "append_while (\<lambda>c. c \<noteq> newline)
        (push (push body s) (skip s), skip (skip s)) = (b3, s3)" by fastforce
    then have "consumes s s3" using s line
      by (auto simp: append_while_def nul_def intro: consumes_step2 lexes_lex_while)
    moreover have "inline_body l d body s = inline_body l d b3 s3"
      using line r s by (subst inline_body.simps) simp
    ultimately show P by (rule step)
  next
    case block
    obtain c b3 s3 where r: "inline_comment (push (push body s) (skip s)) (skip (skip s)) = (c, b3, s3)"
      by (metis prod_cases3)
    then have 3: "consumes s s3" using s block by (metis inline_comment_consumes)
    have "inline_body l d body s = (if c then inline_body l d b3 s3
        else throw_at l ''unterminated comment in inline C block'' s3)"
      using block r s by (subst inline_body.simps) simp
    with 3 show P using throw step by (cases c) auto
  next
    case other
    have "inline_body l d body s =
        (if peek s 0 = CHR ''{'' then inline_body l (d + 1) (push body s) (skip s)
         else if peek s 0 = CHR ''}'' then
           if d - 1 = 0 then Inr (makeToken T_InlineBody body l False, (skip s)\<lparr>lx_inline := False\<rparr>)
           else inline_body l (d - 1) (body @ [CHR ''}'']) (skip s)
         else inline_body l d (push body s) (skip s))"
      using other s by (subst inline_body.simps) (simp only: if_False if_True simp_thms)
    moreover have "consumes s ((skip s)\<lparr>lx_inline := False\<rparr>)"
      by (rule consumes_trans1 [OF one lexes_inline])
    ultimately show P using step [OF one] finish by (metis (full_types))
  qed
qed

lemma consumes_inline_body:
  "\<not> atEnd s \<Longrightarrow> consumes s (end_state (inline_body location d body s))"
proof (induction "unread s" arbitrary: d body s rule: less_induct)
  case less
  have IH: "consumes s (end_state (inline_body location d' body' t))" if "consumes s t" for d' body' t
  proof (cases "atEnd t")
    case True
    with that show ?thesis by (simp add: inline_body_atEnd)
  next
    case False
    then have "consumes t (end_state (inline_body location d' body' t))"
      using that by (intro less.hyps consumes_unread)
    with that show ?thesis by (blast intro: consumes_trans1 consumes_lexes)
  qed
  show ?case
    by (rule inline_body_step [OF less.prems, of location d body]) (auto intro: IH)
qed

definition scanInlineBody :: "source_location \<Rightarrow> lexer \<Rightarrow> token lex" where
  "scanInlineBody location s = inline_body location 1 [] (skip s)"

subsection \<open>String literals\<close>

definition escape_char :: "char \<Rightarrow> char option" where
  "escape_char c =
     (if c = CHR ''e'' then Some (CHR 0x1B) else if c = CHR ''n'' then Some (CHR 0x0A)
      else if c = CHR ''r'' then Some (CHR 0x0D) else if c = CHR ''t'' then Some (CHR 0x09)
      else if c = CHR 0x5C then Some (CHR 0x5C) else if c = CHR 0x22 then Some (CHR 0x22)
      else None)"

text \<open>The loop up to the closing quote; \<open>escaped\<close> is the character read behind the backslash.\<close>

function string_body ::
  "char \<Rightarrow> source_location \<Rightarrow> string \<Rightarrow> lexer \<Rightarrow> string lex" where
  "string_body quote location text s =
     (if \<not> atEnd s \<and> peek s 0 \<noteq> quote then
        if peek s 0 = newline \<or> peek s 0 = CHR 0x0D then
          throw_at (currentLocation s) ''newline in string literal'' s
        else if quote = CHR 0x22 \<and> peek s 0 = CHR 0x5C then
          if atEnd (skip s) then
            throw_at location ''unterminated escape sequence'' (skip s)
          else
            (case escape_char (fst (advance (skip s))) of
               None \<Rightarrow> throw_at (currentLocation (skip (skip s)))
                         ''unsupported string escape'' (skip (skip s))
             | Some c \<Rightarrow> string_body quote location (text @ [c]) (skip (skip s)))
        else string_body quote location (push text s) (skip s)
      else Inr (text, s))"
  by pat_completeness auto
termination
  by (relation "measure (\<lambda>(q, l, t, s). unread s)")
    (auto intro!: consumes_unread intro: consumes_advance consumes_step lexes_advance)

declare string_body.simps [simp del]

lemma lexes_string_body: "lexes s (end_state (string_body quote location text s))"
proof (induction quote location "text" s rule: string_body.induct)
  case (1 quote location str s)
  then show ?case
    by (subst string_body.simps)
      (auto intro: lexes_step lexes_advance lexes_two_steps split: option.splits)
qed

definition scanString :: "char \<Rightarrow> source_location \<Rightarrow> lexer \<Rightarrow> token lex" where
  "scanString quote location s =
     bindE (string_body quote location [] (skip s)) (\<lambda>(text, s1).
       if atEnd s1 then throw_at location ''unterminated string literal'' s1
       else
         let s2 = skip s1
         in if \<not> isValidUtf8 text then
              throw_at location ''string literal is not valid UTF-8'' s2
            else Inr (makeToken T_String text location (quote = CHR 0x22), s2))"

end
