(* ===== verification/Tokenizer.thy ===== *)
theory Tokenizer
  imports Lexer
begin

text \<open>
  The main loop of the lexer (\<open>Lexer::tokenize\<close> of \<open>src/Lexer.cpp\<close>), the state
  machine of the states it passes through, and the properties of the token list.
\<close>

subsection \<open>Punctuators\<close>

definition with_suffix :: "char \<Rightarrow> punctuator \<Rightarrow> punctuator \<Rightarrow> lexer \<Rightarrow> token_type lex" where
  "with_suffix c long short s =
     (if peek s 0 = c then Inr (Punctuator long, skip s) else Inr (Punctuator short, s))"

text \<open>The \<open>switch\<close>, after the character \<open>c\<close> was consumed.\<close>

definition scanPunctuator :: "source_location \<Rightarrow> char \<Rightarrow> lexer \<Rightarrow> token_type lex" where
  "scanPunctuator location c s =
     (if c = CHR ''{'' then Inr (T_LeftBrace, s)
      else if c = CHR ''}'' then Inr (T_RightBrace, s)
      else if c = CHR ''('' then Inr (T_LeftParen, s)
      else if c = CHR '')'' then Inr (T_RightParen, s)
      else if c = CHR ''['' then Inr (T_LeftBracket, s)
      else if c = CHR '']'' then Inr (T_RightBracket, s)
      else if c = CHR '','' then Inr (T_Comma, s)
      else if c = CHR ''.'' then Inr (T_Dot, s)
      else if c = CHR '':'' then Inr (T_Colon, s)
      else if c = CHR ''+'' then with_suffix (CHR ''='') PU_PlusEqual PU_Plus s
      else if c = CHR ''-'' then with_suffix (CHR ''='') PU_MinusEqual PU_Minus s
      else if c = CHR ''*'' then with_suffix (CHR ''='') PU_StarEqual PU_Star s
      else if c = CHR ''/'' then with_suffix (CHR ''='') PU_SlashEqual PU_Slash s
      else if c = CHR ''%'' then with_suffix (CHR ''='') PU_PercentEqual PU_Percent s
      else if c = CHR ''&'' then
        if peek s 0 \<noteq> CHR ''&'' then throw_at location ''unexpected character'' s
        else Inr (T_AndAnd, skip s)
      else if c = CHR ''|'' then
        if peek s 0 \<noteq> CHR ''|'' then throw_at location ''unexpected character'' s
        else Inr (T_OrOr, skip s)
      else if c = CHR ''!'' then with_suffix (CHR ''='') PU_BangEqual PU_Bang s
      else if c = CHR ''='' then with_suffix (CHR ''='') PU_EqualEqual PU_Equal s
      else if c = CHR ''<'' then with_suffix (CHR ''='') PU_LessEqual PU_Less s
      else if c = CHR ''>'' then with_suffix (CHR ''='') PU_GreaterEqual PU_Greater s
      else throw_at location ''unexpected character'' s)"

text \<open>The text of the token, computed from its type and the character that was switched on.\<close>

definition punctuator_text :: "token_type \<Rightarrow> char \<Rightarrow> string" where
  "punctuator_text type c =
     (if type \<in> {T_PlusEqual, T_MinusEqual, T_StarEqual, T_SlashEqual, T_PercentEqual} then
        [c, CHR ''='']
      else if type \<in> {T_BangEqual, T_EqualEqual, T_LessEqual, T_GreaterEqual, T_AndAnd, T_OrOr} then
        if type = T_AndAnd \<or> type = T_OrOr then [c, c] else [c, CHR ''='']
      else [c])"

text \<open>The nesting of parentheses and brackets after a token.\<close>

definition depth_after :: "token_type \<Rightarrow> nat \<Rightarrow> nat" where
  "depth_after type parenthesisDepth =
     (if type = T_LeftParen \<or> type = T_LeftBracket then parenthesisDepth + 1
      else if (type = T_RightParen \<or> type = T_RightBracket) \<and> parenthesisDepth > 0
      then parenthesisDepth - 1 else parenthesisDepth)"

definition scanPunctuation :: "source_location \<Rightarrow> char \<Rightarrow> lexer \<Rightarrow> token lex" where
  "scanPunctuation location c s =
     bindE (scanPunctuator location c (skip s)) (\<lambda>(type, s').
       Inr (makeToken type (punctuator_text type c) location False, s'))"

subsection \<open>What one scan returns\<close>

text \<open>A result that consumed characters and yields a token at the current location.\<close>

definition scans :: "lexer \<Rightarrow> token lex \<Rightarrow> bool" where
  "scans s r \<longleftrightarrow> lexes s (end_state r) \<and>
     (case r of
        Inl (e, _) \<Rightarrow> (\<exists>t. lexes s t \<and> diag_location e = currentLocation t)
      | Inr (t, s') \<Rightarrow> consumes s s' \<and> tok_location t = currentLocation s \<and>
          tok_type t \<noteq> T_Newline \<and> tok_type t \<noteq> T_End)"

lemma scans_throw:
  "lexes s s' \<Longrightarrow> lexes s t \<Longrightarrow> l = currentLocation t \<Longrightarrow> scans s (throw_at l m s')"
  by (auto simp: scans_def throw_at_def DiagnosticError_def)

lemma scans_throw_here: "lexes s s' \<Longrightarrow> scans s (throw_at (currentLocation s) m s')"
  by (rule scans_throw [OF _ lexes_refl]) simp_all

lemma scans_error:
  "lexes s s' \<Longrightarrow> diag_location e = currentLocation s \<Longrightarrow> scans s (Inl (e, s'))"
  by (auto simp: scans_def intro!: exI [of _ s])

lemma scans_token:
  "consumes s s' \<Longrightarrow> type \<noteq> T_Newline \<Longrightarrow> type \<noteq> T_End
    \<Longrightarrow> scans s (Inr (makeToken type txt (currentLocation s) b, s'))"
  by (auto simp: scans_def makeToken_def consumes_lexes)

lemma lex_while_first:
  "\<not> atEnd s \<Longrightarrow> condition (peek s 0)
    \<Longrightarrow> fst (lex_while condition s) = peek s 0 # fst (lex_while condition (skip s))"
  by (subst lex_while.simps) (simp add: split_beta Let_def advance_char)

text \<open>Chains of scans from one state.\<close>

lemma scan_chain:
  "lexes s (snd p) \<Longrightarrow> lexes s (snd (append_while condition p))"
  "lexes s (snd p) \<Longrightarrow> \<not> condition nul \<Longrightarrow> lexes s (snd (append_if condition p))"
  "lexes s (snd p) \<Longrightarrow> look p \<noteq> nul \<Longrightarrow> lexes s (snd (append1 p))"
  by (blast intro: lexes_trans lexes_intros)+

lemma scan_chain_consumes:
  "consumes s (snd p) \<Longrightarrow> consumes s (snd (append_while condition p))"
  "consumes s (snd p) \<Longrightarrow> \<not> condition nul \<Longrightarrow> consumes s (snd (append_if condition p))"
  "consumes s (snd p) \<Longrightarrow> look p \<noteq> nul \<Longrightarrow> consumes s (snd (append1 p))"
  by (blast intro: consumes_trans1 lexes_intros)+

lemmas scan_class_defs =
  isUnsignedSuffix_def isExponent_def isSign_def nul_def

lemma not_class_nul [simp]:
  "\<not> isUnsignedSuffix nul" "\<not> isExponent nul" "\<not> isSign nul" "\<not> is_digit nul"
  "\<not> isHexDigit nul" "\<not> isIdentifierPart nul" "\<not> is_space nul"
  by (simp_all add: scan_class_defs isHexDigit_def isIdentifierPart_def isIdentifierStart_def
      char_class_defs)

lemmas not_class_zero [simp] = not_class_nul [unfolded nul_def]

lemma scans_hexadecimal:
  assumes "\<not> atEnd s" "peek s 1 = CHR ''x'' \<or> peek s 1 = CHR ''X''"
  shows "scans s (scanHexadecimal (currentLocation s) s)"
proof -
  let ?p2 = "append1 (append1 ([], s))"
  have 2: "consumes s (snd ?p2)"
    using assms by (auto simp: append1_def nul_def intro: consumes_two)
  note 3 = scan_chain_consumes(1) [OF 2, of isHexDigit]
  note 4 = scan_chain_consumes(2) [OF 3, of isUnsignedSuffix, simplified]
  note 5 = scan_chain_consumes(1) [OF 4, of isIdentifierPart]
  show ?thesis
    using 3 4 5
    by (auto simp: scanHexadecimal_def Let_def intro!: scans_throw_here scans_token consumes_lexes)
qed

lemma lexes_scanFraction: "lexes (snd p) (snd (snd (scanFraction leadingDot p)))"
  by (auto simp: scanFraction_def nul_def intro!: scan_chain)

lemma scanExponent_result:
  "case scanExponent location floating p of
     Inl (e, s') \<Rightarrow> diag_location e = location \<and> lexes (snd p) s'
   | Inr (f, p') \<Rightarrow> lexes (snd p) (snd p')"
proof -
  have 1: "lexes (snd p) (snd (append_if isSign (append1 p)))" if "isExponent (look p)"
    using that by (intro scan_chain lexes_refl) auto
  then show ?thesis
    by (auto simp: scanExponent_def Let_def throw_at_def DiagnosticError_def intro: scan_chain)
qed

lemma scans_number:
  assumes "is_digit (peek s 0) \<or> (peek s 0 = CHR ''.'' \<and> is_digit (peek s 1))"
  shows "scans s (scanNumber s)"
proof (cases "peek s 0 \<noteq> CHR ''.'' \<and> peek s 0 = CHR ''0'' \<and> (peek s 1 = CHR ''x'' \<or> peek s 1 = CHR ''X'')")
  case True
  have s: "\<not> atEnd s" using assms by (auto simp: nul_def)
  from True show ?thesis
    by (auto simp: scanNumber_def Let_def intro: scans_hexadecimal [OF s])
next
  case False
  have s: "\<not> atEnd s" using assms by (auto simp: nul_def)
  let ?dot = "peek s 0 = CHR ''.''"
  let ?p1 = "append_while is_digit (if ?dot then append1 ([], s) else ([], s))"
  let ?p2 = "scanFraction ?dot ?p1"
  have 1: "consumes s (snd ?p1)"
  proof (cases ?dot)
    case True
    have "consumes s (snd (append1 ([], s)))"
      using s by (simp add: append1_def consumes_advance)
    with True show ?thesis by (simp add: scan_chain_consumes)
  next
    case False
    with s assms show ?thesis by (simp add: append_while_def consumes_lex_while)
  qed
  have 2: "consumes s (snd (snd ?p2))"
    by (rule consumes_trans1 [OF 1 lexes_scanFraction])
  have 3: "consumes s (snd p')"
    if "scanExponent (currentLocation s) (fst ?p2) (snd ?p2) = Inr (f, p')" for f p'
    using that scanExponent_result
        [where location = "currentLocation s" and floating = "fst ?p2" and p = "snd ?p2"]
    by (auto intro: consumes_trans1 [OF 2])
  have 4: "diag_location e = currentLocation s \<and> lexes s s'"
    if "scanExponent (currentLocation s) (fst ?p2) (snd ?p2) = Inl (e, s')" for e s'
    using that scanExponent_result
        [where location = "currentLocation s" and floating = "fst ?p2" and p = "snd ?p2"]
    by (auto intro: lexes_trans [OF consumes_lexes [OF 2]])
  show ?thesis
  proof (cases "scanExponent (currentLocation s) (fst ?p2) (snd ?p2)")
    case (Inl a)
    then show ?thesis
      using False 4 [of "fst a" "snd a"]
      by (cases a) (auto simp: scanNumber_def Let_def intro!: scans_error)
  next
    case (Inr b)
    obtain f p' where b: "b = (f, p')" by (cases b)
    have c: "consumes s (snd p')" using 3 Inr b by simp
    have d: "consumes s (snd (append1 p'))" if "isUnsignedSuffix (look p')"
      using that by (intro scan_chain_consumes c) auto
    from Inr b c d False show ?thesis
      by (auto simp: scanNumber_def Let_def intro!: scans_token)
  qed
qed

lemma word_type_not_newline [simp]: "word_type str \<noteq> T_Newline" "word_type str \<noteq> T_End"
  by (auto simp: word_type_def keyword_table_def split: option.splits if_splits dest!: map_of_SomeD)

lemma consumes_inline_flag: "consumes s t \<Longrightarrow> consumes s (t\<lparr>lx_inline := b\<rparr>)"
  by (blast intro: consumes_trans1 lexes_inline)

lemma scans_word:
  assumes "isIdentifierStart (peek s 0)"
  shows "scans s (scanWord s)"
proof -
  have "\<not> atEnd s" using assms by (auto simp: isIdentifierStart_def nul_def char_class_defs)
  then have "consumes s (snd (append_while isIdentifierPart ([], s)))"
    using assms by (auto simp: append_while_def isIdentifierPart_def intro: consumes_lex_while)
  then show ?thesis
    by (auto simp: scanWord_def Let_def intro!: scans_token consumes_inline_flag)
qed

lemma scans_identifier_or_integer:
  assumes "isIdentifierStart (peek s 0) \<or> is_digit (peek s 0) \<or>
    (peek s 0 = CHR ''.'' \<and> is_digit (peek s 1))"
  shows "scans s (scanIdentifierOrInteger s)"
  using assms scans_number [of s] scans_word [of s]
  by (auto simp: scanIdentifierOrInteger_def isIdentifierStart_def char_class_defs)


text \<open>The result of an inline body: a diagnostic or the token, at the given location.\<close>

definition located :: "token_type \<Rightarrow> source_location \<Rightarrow> token lex \<Rightarrow> bool" where
  "located type l r \<longleftrightarrow>
     (case r of Inl (e, _) \<Rightarrow> diag_location e = l
      | Inr (t, _) \<Rightarrow> tok_location t = l \<and> tok_type t = type)"

lemma located_intros [simp]:
  "located type l (throw_at l m s)" "located type l (Inr (makeToken type txt l b, s))"
  by (simp_all add: located_def throw_at_def DiagnosticError_def makeToken_def)

lemma located_inline_body: "located T_InlineBody l (inline_body l d body s)"
proof (induction "unread s" arbitrary: d body s rule: less_induct)
  case less
  show ?case
  proof (cases "atEnd s")
    case True
    then show ?thesis by (subst inline_body.simps) simp
  next
    case False
    then show ?thesis
      by (rule inline_body_step [of s l d body]) (auto intro: less.hyps consumes_unread)
  qed
qed

lemma scans_inline_body:
  assumes "\<not> atEnd s"
  shows "scans s (scanInlineBody (currentLocation s) s)"
proof -
  let ?r = "inline_body (currentLocation s) 1 [] (skip s)"
  have "consumes s (end_state ?r)"
    using assms consumes_inline_body [of "skip s" "currentLocation s" 1 "[]"]
      inline_body_atEnd [of "skip s"]
    by (cases "atEnd (skip s)") (auto intro: consumes_step consumes_lexes consumes_advance)
  moreover have "located T_InlineBody (currentLocation s) ?r"
    by (rule located_inline_body)
  ultimately show ?thesis
    by (auto simp: scans_def scanInlineBody_def located_def consumes_lexes
        split: sum.splits prod.splits intro!: exI [of _ s])
qed

lemma string_body_location:
  "string_body quote (currentLocation s0) str s = Inl (e, s') \<Longrightarrow> lexes s0 s
    \<Longrightarrow> \<exists>t. lexes s0 t \<and> diag_location e = currentLocation t"
proof (induction quote "currentLocation s0" str s rule: string_body.induct)
  case (1 quote str s)
  have here: "\<exists>t. lexes s0 t \<and> currentLocation s0 = currentLocation t"
    using lexes_refl by blast
  have two: "lexes s0 (skip (skip s))" if "\<not> atEnd s" "\<not> atEnd (skip s)"
    using that "1.prems"(2) by (blast intro: lexes_trans lexes_advance)
  show ?case
  proof (cases "\<not> atEnd s \<and> peek s 0 \<noteq> quote")
    case True
    show ?thesis
    proof (cases "peek s 0 = newline \<or> peek s 0 = CHR 0x0D")
      case c: True
      with True "1.prems" show ?thesis
        by (subst (asm) string_body.simps) (auto simp: throw_at_def DiagnosticError_def)
    next
      case c: False
      show ?thesis
      proof (cases "quote = CHR 0x22 \<and> peek s 0 = CHR 0x5C")
        case e: True
        with True c "1.prems" two here "1.hyps"(1) [OF True c e] show ?thesis
          by (subst (asm) string_body.simps)
            (auto simp: throw_at_def DiagnosticError_def split: if_splits option.splits)
      next
        case e: False
        from True have "lexes s0 (skip s)"
          using "1.prems"(2) by (blast intro: lexes_trans lexes_advance)
        with True c e "1.prems" "1.hyps"(2) [OF True c e] show ?thesis
          by (subst (asm) string_body.simps) auto
      qed
    qed
  next
    case False
    with "1.prems" show ?thesis by (subst (asm) string_body.simps) auto
  qed
qed

lemma scans_string:
  assumes "\<not> atEnd s"
  shows "scans s (scanString quote (currentLocation s) s)"
proof (cases "string_body quote (currentLocation s) [] (skip s)")
  case (Inl a)
  obtain e s' where a: "a = (e, s')" by (cases a)
  have "\<exists>t. lexes s t \<and> diag_location e = currentLocation t"
    using Inl a assms by (intro string_body_location) (auto intro: lexes_advance)
  moreover have "lexes s s'"
    using Inl a lexes_string_body [of "skip s" quote "currentLocation s" "[]"] assms
    by (auto intro: lexes_step)
  ultimately show ?thesis using Inl a by (auto simp: scans_def scanString_def)
next
  case (Inr b)
  obtain str s1 where b: "b = (str, s1)" by (cases b)
  have 1: "consumes s s1"
    using Inr b lexes_string_body [of "skip s" quote "currentLocation s" "[]"] assms
    by (auto intro: consumes_step)
  have 2: "consumes s (skip s1)" if "\<not> atEnd s1"
    using that by (blast intro: consumes_trans1 [OF 1] lexes_advance)
  show ?thesis
    using Inr b 1 2
    by (auto simp: scanString_def Let_def intro!: scans_throw_here scans_token consumes_lexes)
qed

definition punctuates :: "source_location \<Rightarrow> lexer \<Rightarrow> token_type lex \<Rightarrow> bool" where
  "punctuates l s0 r \<longleftrightarrow> lexes s0 (end_state r) \<and>
     (case r of Inl (e, _) \<Rightarrow> diag_location e = l | Inr (type, _) \<Rightarrow> \<exists>p. type = Punctuator p)"

lemma punctuates_if [intro]:
  "punctuates l s0 a \<Longrightarrow> punctuates l s0 b \<Longrightarrow> punctuates l s0 (if c then a else b)"
  by simp

lemma punctuates_simps [simp]:
  "punctuates l s0 (Inr (Punctuator p, s)) \<longleftrightarrow> lexes s0 s"
  "punctuates l s0 (throw_at l m s) \<longleftrightarrow> lexes s0 s"
  by (auto simp: punctuates_def throw_at_def DiagnosticError_def)

lemma lexes_skip_after: "lexes s0 s \<Longrightarrow> peek s 0 \<noteq> nul \<Longrightarrow> lexes s0 (skip s)"
  by (metis lexes_trans lexes_advance peek_atEnd)

lemma punctuates_with_suffix:
  "lexes s0 s \<Longrightarrow> c \<noteq> nul \<Longrightarrow> punctuates l s0 (with_suffix c long short s)"
  by (auto simp: with_suffix_def intro: lexes_skip_after)

lemma punctuates_doubled:
  "lexes s0 s \<Longrightarrow> c \<noteq> nul
    \<Longrightarrow> punctuates l s0 (if peek s 0 \<noteq> c then throw_at l m s else Inr (Punctuator p, skip s))"
  by (auto intro: lexes_skip_after)

lemma scanPunctuator_result: "lexes s0 s \<Longrightarrow> punctuates l s0 (scanPunctuator l c s)"
  unfolding scanPunctuator_def
  by (intro punctuates_if punctuates_doubled punctuates_with_suffix) (simp_all add: nul_def)

lemma scans_punctuation:
  assumes "\<not> atEnd s"
  shows "scans s (scanPunctuation (currentLocation s) c s)"
proof -
  have p: "punctuates (currentLocation s) (skip s)
      (scanPunctuator (currentLocation s) c (skip s))"
    by (intro scanPunctuator_result) simp
  show ?thesis
  proof (cases "scanPunctuator (currentLocation s) c (skip s)")
    case (Inl a)
    with p assms show ?thesis
      by (cases a) (auto simp: scanPunctuation_def punctuates_def intro!: scans_error lexes_step)
  next
    case (Inr b)
    with p assms show ?thesis
      by (cases b)
        (auto simp: scanPunctuation_def punctuates_def intro!: scans_token consumes_step)
  qed
qed

subsection \<open>The main loop\<close>

lemma lexes_unread_le: "lexes s s' \<Longrightarrow> unread s' \<le> unread s"
  by (auto simp: lexes_def unread_def)

lemma scans_unread: "scans s (Inr (t, s')) \<Longrightarrow> unread s' < unread s"
  by (auto simp: scans_def intro: consumes_unread)

lemma skipTrivia_unfold:
  assumes "s = snd (lex_while (\<lambda>c. c \<noteq> newline \<and> is_space c) s0)"
  shows "skipTrivia tokens d s0 =
     (if peek s 0 = CHR '';'' \<or> peek s 0 = CHR ''#'' then
        skipTrivia tokens d (snd (lex_while (\<lambda>c. c \<noteq> newline) s))
      else if peek s 0 = CHR ''/'' \<and> peek s 1 = CHR ''/'' then
        skipTrivia tokens d (snd (lex_while (\<lambda>c. c \<noteq> newline) s))
      else if peek s 0 = CHR ''/'' \<and> peek s 1 = CHR ''*'' then
        (case block_comment (currentLocation s) d tokens (skip (skip s)) of
           Inl e \<Rightarrow> Inl e
         | Inr (tokens', s') \<Rightarrow> skipTrivia tokens' d s')
      else Inr (tokens, s))"
  unfolding assms by (subst skipTrivia.simps) (rule Let_def [THEN meta_eq_to_obj_eq])

text \<open>
  One round of the loop: it stops, throws, or goes on from a state behind the white
  space, possibly with the newlines of a block comment added.
\<close>

lemma skipTrivia_cases:
  assumes stop: "\<And>s. lexes s0 s \<Longrightarrow> skipTrivia tokens d s0 = Inr (tokens, s) \<Longrightarrow> P"
    and comment: "\<And>s. consumes s0 s \<Longrightarrow> skipTrivia tokens d s0 = skipTrivia tokens d s \<Longrightarrow> P"
    and throw: "\<And>s e. lexes s0 s \<Longrightarrow> consumes s (skip (skip s)) \<Longrightarrow>
      block_comment (currentLocation s) d tokens (skip (skip s)) = Inl e \<Longrightarrow>
      skipTrivia tokens d s0 = Inl e \<Longrightarrow> P"
    and block: "\<And>s tokens' s'. lexes s0 s \<Longrightarrow> consumes s (skip (skip s)) \<Longrightarrow>
      block_comment (currentLocation s) d tokens (skip (skip s)) = Inr (tokens', s') \<Longrightarrow>
      skipTrivia tokens d s0 = skipTrivia tokens' d s' \<Longrightarrow> P"
  shows P
proof -
  define s where s: "s = snd (lex_while (\<lambda>c. c \<noteq> newline \<and> is_space c) s0)"
  have 0: "lexes s0 s" unfolding s by (rule lexes_lex_while)
  note unfold = skipTrivia_unfold [OF s, of tokens d]
  consider (line) "peek s 0 = CHR '';'' \<or> peek s 0 = CHR ''#'' \<or>
        (peek s 0 = CHR ''/'' \<and> peek s 1 = CHR ''/'')"
    | (block) "peek s 0 = CHR ''/''" "peek s 1 = CHR ''*''"
    | (stop) "\<not> (peek s 0 = CHR '';'' \<or> peek s 0 = CHR ''#'')"
        "\<not> (peek s 0 = CHR ''/'' \<and> peek s 1 = CHR ''/'')"
        "\<not> (peek s 0 = CHR ''/'' \<and> peek s 1 = CHR ''*'')"
    by blast
  then show P
  proof cases
    case line
    then have "consumes s (snd (lex_while (\<lambda>c. c \<noteq> newline) s))"
      by (intro consumes_lex_while) (auto simp: nul_def newline_def)
    then have "consumes s0 (snd (lex_while (\<lambda>c. c \<noteq> newline) s))"
      by (rule consumes_trans2 [OF 0])
    then show P by (rule comment) (use line unfold in auto)
  next
    case block
    then have 2: "consumes s (skip (skip s))"
      by (intro consumes_two) (auto simp: nul_def)
    show P
    proof (cases "block_comment (currentLocation s) d tokens (skip (skip s))")
      case (Inl e)
      with 0 2 show P by (rule throw) (use block unfold Inl in simp)
    next
      case (Inr b)
      obtain ts' s' where b: "b = (ts', s')" by (cases b)
      with Inr have "block_comment (currentLocation s) d tokens (skip (skip s)) = Inr (ts', s')"
        by simp
      with 0 2 show P by (rule assms(4)) (use block unfold Inr b in simp)
    qed
  next
    case stop
    with unfold have "skipTrivia tokens d s0 = Inr (tokens, s)" by (simp only: if_False)
    with 0 show P by (rule assms(1))
  qed
qed

lemma block_comment_lexes:
  "block_comment l d tokens s = Inr (tokens', s') \<Longrightarrow> lexes s s'"
  "block_comment l d tokens s = Inl (e, s') \<Longrightarrow> lexes s s'"
  using lexes_block_comment [of s l d tokens] by simp_all

lemma lexes_skipTrivia: "lexes s0 (end_state (skipTrivia tokens d s0))"
proof (induction "unread s0" arbitrary: tokens s0 rule: less_induct)
  case less
  have IH: "lexes s0 (end_state (skipTrivia ts d t))" if "consumes s0 t" for ts t
    using less.hyps [OF consumes_unread [OF that]] consumes_lexes [OF that]
    by (rule lexes_trans [rotated])
  show ?case
  proof (rule skipTrivia_cases [of s0 tokens d])
    fix s e assume a: "lexes s0 s" "consumes s (skip (skip s))"
      "block_comment (currentLocation s) d tokens (skip (skip s)) = Inl e"
      "skipTrivia tokens d s0 = Inl e"
    then have "lexes s0 (snd e)"
      using lexes_trans [OF a(1) lexes_trans [OF consumes_lexes [OF a(2)]]]
      by (cases e) (auto dest!: block_comment_lexes)
    with a(4) show ?thesis by (cases e) simp
  next
    fix s tokens' s' assume a: "lexes s0 s" "consumes s (skip (skip s))"
      "block_comment (currentLocation s) d tokens (skip (skip s)) = Inr (tokens', s')"
      "skipTrivia tokens d s0 = skipTrivia tokens' d s'"
    then have "consumes s0 s'"
      by (blast intro: consumes_trans1 consumes_trans2 dest: block_comment_lexes)
    with a(4) IH show ?thesis by simp
  qed (use IH in simp_all)
qed

lemma skipTrivia_lexes: "skipTrivia tokens d s = Inr (tokens', s') \<Longrightarrow> lexes s s'"
  using lexes_skipTrivia [of s tokens d] by simp

function tokenize_loop :: "token list \<Rightarrow> nat \<Rightarrow> lexer \<Rightarrow> token list lex" where
  "tokenize_loop tokens parenthesisDepth s0 =
     (if atEnd s0 then Inr (tokens, s0)
      else case skipTrivia tokens parenthesisDepth s0 of
        Inl e \<Rightarrow> Inl e
      | Inr (tokens', s) \<Rightarrow>
          if atEnd s then Inr (tokens', s)
          else if lx_inline s \<and> peek s 0 = CHR ''{'' then
            (case scanInlineBody (currentLocation s) s of
               Inl e \<Rightarrow> Inl e
             | Inr (t, s') \<Rightarrow> tokenize_loop (tokens' @ [t]) parenthesisDepth s')
          else if peek s 0 = newline then
            tokenize_loop
              (if parenthesisDepth = 0 then tokens' @ [newlineToken (currentLocation s)]
               else tokens')
              parenthesisDepth (skip s)
          else if isIdentifierStart (peek s 0) \<or> is_digit (peek s 0) \<or>
                  (peek s 0 = CHR ''.'' \<and> is_digit (peek s 1)) then
            (case scanIdentifierOrInteger s of
               Inl e \<Rightarrow> Inl e
             | Inr (t, s') \<Rightarrow> tokenize_loop (tokens' @ [t]) parenthesisDepth s')
          else if peek s 0 = CHR 0x22 \<or> peek s 0 = CHR 0x27 then
            (case scanString (peek s 0) (currentLocation s) s of
               Inl e \<Rightarrow> Inl e
             | Inr (t, s') \<Rightarrow> tokenize_loop (tokens' @ [t]) parenthesisDepth s')
          else
            (case scanPunctuation (currentLocation s) (peek s 0) s of
               Inl e \<Rightarrow> Inl e
             | Inr (t, s') \<Rightarrow>
                 tokenize_loop (tokens' @ [t]) (depth_after (tok_type t) parenthesisDepth) s'))"
  by pat_completeness auto
termination
proof (relation "measure (\<lambda>(t, d, s). unread s)", goal_cases)
  case (2 tokens d s0 r tokens' s x t s')
  then have "scans s (Inr (t, s'))" using scans_inline_body [of s] by simp
  with 2 show ?case
    using lexes_unread_le [OF skipTrivia_lexes] by (fastforce dest: scans_unread)
next
  case (3 tokens d s0 r tokens' s)
  then show ?case
    using lexes_unread_le [OF skipTrivia_lexes] advance_unread [of s] by fastforce
next
  case (4 tokens d s0 r tokens' s x t s')
  then have "scans s (Inr (t, s'))" using scans_identifier_or_integer [of s] by simp
  with 4 show ?case
    using lexes_unread_le [OF skipTrivia_lexes] by (fastforce dest: scans_unread)
next
  case (5 tokens d s0 r tokens' s x t s')
  then have "scans s (Inr (t, s'))" using scans_string [of s "peek s 0"] by simp
  with 5 show ?case
    using lexes_unread_le [OF skipTrivia_lexes] by (fastforce dest: scans_unread)
next
  case (6 tokens d s0 r tokens' s x t s')
  then have "scans s (Inr (t, s'))" using scans_punctuation [of s "peek s 0"] by simp
  with 6 show ?case
    using lexes_unread_le [OF skipTrivia_lexes] by (fastforce dest: scans_unread)
qed simp

declare tokenize_loop.simps [simp del]

definition tokenize_run :: "string \<Rightarrow> string \<Rightarrow> token list lex" where
  "tokenize_run source fileName =
     bindE (tokenize_loop [] 0 (new_lexer source fileName)) (\<lambda>(tokens, s).
       Inr (tokens @ [makeToken T_End [] (currentLocation s) False], s))"

definition tokenize :: "string \<Rightarrow> string \<Rightarrow> (diagnostic, token list) result" where
  "tokenize source fileName =
     (case tokenize_run source fileName of Inl (e, _) \<Rightarrow> Inl e | Inr (tokens, _) \<Rightarrow> Inr tokens)"

end
