(* ===== verification/Token_Stream.thy ===== *)
theory Token_Stream
  imports Tokenizer
begin

text \<open>
  What the tokenizer promises its client, the parser: which texts a token carries, where it
  is located, and that the token list is one the parser can walk (it ends in one \<open>End\<close>).
\<close>

subsection \<open>What a token carries\<close>

definition identifier_text :: "string \<Rightarrow> bool" where
  "identifier_text w \<longleftrightarrow> w \<noteq> [] \<and> isIdentifierStart (hd w) \<and> list_all isIdentifierPart w"

definition integer_text :: "string \<Rightarrow> bool" where
  "integer_text w \<longleftrightarrow> (w \<noteq> [] \<and> list_all is_digit w) \<or>
     (\<exists>x ds. w = [CHR ''0'', x] @ ds \<and> (x = CHR ''x'' \<or> x = CHR ''X'') \<and>
        ds \<noteq> [] \<and> list_all isHexDigit ds)"

text \<open>A decimal part, an optional fraction and an optional exponent, not all absent.\<close>

definition float_text :: "string \<Rightarrow> bool" where
  "float_text w \<longleftrightarrow> (\<exists>i f e. w = i @ f @ e \<and> list_all is_digit i \<and>
     (f = [] \<or> (\<exists>ds. f = CHR ''.'' # ds \<and> list_all is_digit ds)) \<and>
     (e = [] \<or> (\<exists>c sign ds. e = c # sign @ ds \<and> isExponent c \<and>
        (sign = [] \<or> (\<exists>g. sign = [g] \<and> isSign g)) \<and> ds \<noteq> [] \<and> list_all is_digit ds)) \<and>
     (f \<noteq> [] \<or> e \<noteq> []) \<and> (\<exists>c \<in> set (i @ f). is_digit c))"

definition token_ok :: "token \<Rightarrow> bool" where
  "token_ok t =
     (case tok_type t of
        T_End \<Rightarrow> tok_text t = []
      | T_Newline \<Rightarrow> tok_text t = [newline]
      | T_Identifier \<Rightarrow> identifier_text (tok_text t) \<and> word_type (tok_text t) = T_Identifier
      | T_Integer \<Rightarrow> integer_text (tok_text t)
      | T_UnsignedInteger \<Rightarrow>
          (\<exists>n u. tok_text t = n @ [u] \<and> integer_text n \<and> isUnsignedSuffix u)
      | T_Float \<Rightarrow> float_text (tok_text t)
      | T_String \<Rightarrow> isValidUtf8 (tok_text t)
      | T_InlineBody \<Rightarrow> True
      | Type_Keyword k \<Rightarrow> identifier_text (tok_text t) \<and> word_type (tok_text t) = Type_Keyword k
      | Word_Keyword k \<Rightarrow> identifier_text (tok_text t) \<and> word_type (tok_text t) = Word_Keyword k
      | Punctuator p \<Rightarrow> quoted (tok_text t) = tokenTypeName (Punctuator p) \<or>
          (p = PU_Bang \<and> map to_lower (tok_text t) = ''not''))"

lemma keyword_table_types:
  "(k, t) \<in> set keyword_table \<Longrightarrow>
     (\<exists>x. t = Type_Keyword x) \<or> (\<exists>x. t = Word_Keyword x) \<or> (t = T_Bang \<and> k = ''not'')"
  by (auto simp: keyword_table_def)

lemma word_type_cases:
  obtains "word_type w = T_Identifier"
  | (type_word) x where "word_type w = Type_Keyword x"
  | (word) x where "word_type w = Word_Keyword x"
  | (bang) "word_type w = T_Bang" "map to_lower w = ''not''"
proof (cases "word_type w = T_Identifier")
  case False
  then have "(map to_lower w, word_type w) \<in> set keyword_table"
    by (auto simp: word_type_def dest!: map_of_SomeD split: if_splits option.splits)
  then show thesis using keyword_table_types that by metis
qed (use that in blast)

lemma token_ok_word:
  assumes "identifier_text w"
  shows "token_ok (makeToken (word_type w) w l b)"
  by (rule word_type_cases [of w]) (use assms in \<open>simp_all add: token_ok_def makeToken_def\<close>)

lemma scanWord_ok:
  assumes "isIdentifierStart (peek s 0)" "scanWord s = Inr (t, s')"
  shows "token_ok t"
proof -
  have "\<not> atEnd s" using assms(1) by (auto simp: isIdentifierStart_def char_class_defs nul_def)
  then have "identifier_text (fst (append_while isIdentifierPart ([], s)))"
    using assms(1) lex_while_all [of isIdentifierPart s]
    by (simp add: append_while_def identifier_text_def lex_while_first isIdentifierPart_def)
  with assms(2) token_ok_word show ?thesis by (auto simp: scanWord_def Let_def)
qed

lemma fst_append1: "\<not> atEnd (snd p) \<Longrightarrow> fst (append1 p) = fst p @ [look p]"
  by (simp add: append1_def advance_char)

lemma snd_append1 [simp]: "snd (append1 p) = skip (snd p)"
  by (simp add: append1_def)

lemma scanHexadecimal_ok:
  assumes "\<not> atEnd s" "peek s 0 = CHR ''0''" "peek s 1 = CHR ''x'' \<or> peek s 1 = CHR ''X''"
    and "scanHexadecimal l s = Inr (t, s')"
  shows "token_ok t"
proof -
  let ?p2 = "append1 (append1 ([], s))"
  define p3 where "p3 = append_while isHexDigit ?p2"
  have "\<not> atEnd (skip s)" using assms by (intro peek_not_end) (auto simp: peek_1 nul_def)
  then have "fst ?p2 = [CHR ''0'', peek s 1]"
    using assms by (simp add: fst_append1 peek_1)
  then obtain ds where ds: "fst p3 = [CHR ''0'', peek s 1] @ ds" "list_all isHexDigit ds"
      "ds = [] \<longleftrightarrow> length (fst p3) = length (fst ?p2)"
    using lex_while_all by (simp add: p3_def append_while_def)
  show ?thesis
  proof (cases "isUnsignedSuffix (look p3)")
    case True
    then have "fst (append_if isUnsignedSuffix p3) = fst p3 @ [look p3]"
      by (auto simp: append_if_def nul_def isUnsignedSuffix_def intro!: fst_append1)
    with assms ds True show ?thesis
      by (auto simp: scanHexadecimal_def Let_def p3_def [symmetric] token_ok_def makeToken_def
          integer_text_def split: if_splits)
  next
    case False
    have hex: "\<not> isUnsignedSuffix (last (fst p3))" if "ds \<noteq> []"
    proof -
      have "isHexDigit (last ds)" using ds(2) that by (simp add: list_all_iff)
      then show ?thesis using ds(1) that
        by (auto simp: isUnsignedSuffix_def isHexDigit_def char_class_defs)
    qed
    have "append_if isUnsignedSuffix p3 = p3" using False by (simp add: append_if_def)
    with assms ds hex show ?thesis
      by (auto simp: scanHexadecimal_def Let_def p3_def [symmetric] token_ok_def makeToken_def
          integer_text_def split: if_splits)
  qed
qed

lemma append_while_ok: "\<exists>ds. fst (append_while condition p) = fst p @ ds \<and> list_all condition ds"
  using lex_while_all by (auto simp: append_while_def)

lemma append_while_some:
  assumes "condition (look p)" "\<not> atEnd (snd p)"
  shows "\<exists>ds. fst (append_while condition p) = fst p @ ds \<and> ds \<noteq> [] \<and> list_all condition ds"
proof -
  have "fst (lex_while condition (snd p)) \<noteq> []" using assms by (simp add: lex_while_first)
  then show ?thesis using lex_while_all by (auto simp: append_while_def)
qed

definition mantissa :: "string \<Rightarrow> string \<Rightarrow> bool" where
  "mantissa i f \<longleftrightarrow> list_all is_digit i \<and> (f = [] \<or> (\<exists>ds. f = CHR ''.'' # ds \<and> list_all is_digit ds)) \<and>
     (\<exists>c \<in> set (i @ f). is_digit c)"

lemma scanFraction_ok:
  assumes "is_digit (peek s 0) \<or> (peek s 0 = CHR ''.'' \<and> is_digit (peek s 1))"
    and "q = scanFraction (peek s 0 = CHR ''.'')
       (append_while is_digit (if peek s 0 = CHR ''.'' then append1 ([], s) else ([], s)))"
  shows "\<exists>i f. fst (snd q) = i @ f \<and> mantissa i f \<and> fst q = (f \<noteq> [])"
proof (cases "peek s 0 = CHR ''.''")
  case True
  have s: "\<not> atEnd s" using True by (auto simp: nul_def)
  with True assms have "is_digit (look (append1 ([], s)))" by (simp add: peek_1 is_digit_def between_def)
  moreover from this have "\<not> atEnd (skip s)" by auto
  ultimately obtain ds where "fst (append_while is_digit (append1 ([], s))) = ''.'' @ ds"
      "ds \<noteq> []" "list_all is_digit ds"
    using append_while_some [of is_digit "append1 ([], s)"] s True by (auto simp: fst_append1)
  with True assms(2) show ?thesis
    by (intro exI [of _ "[]"] exI [of _ "''.'' @ ds"])
      (auto simp: scanFraction_def mantissa_def list_all_iff neq_Nil_conv)
next
  case False
  then have d: "is_digit (peek s 0)" using assms by simp
  then have s: "\<not> atEnd s" by auto
  obtain ds where ds: "fst (append_while is_digit ([], s)) = ds" "ds \<noteq> []" "list_all is_digit ds"
    using append_while_some [of is_digit "([], s)"] d s by auto
  let ?p = "append_while is_digit ([], s)"
  obtain es where es: "fst (append_while is_digit (append1 ?p)) = fst (append1 ?p) @ es"
      "list_all is_digit es"
    using append_while_ok by blast
  have one: "fst (append1 ?p) = ds @ ''.''" if "look ?p = CHR ''.''"
    using that ds by (subst fst_append1) (auto simp: nul_def)
  show ?thesis
  proof (cases "look ?p = CHR ''.''")
    case True
    with False ds es one assms(2) show ?thesis
      by (intro exI [of _ ds] exI [of _ "''.'' @ es"])
        (auto simp: scanFraction_def mantissa_def list_all_iff neq_Nil_conv)
  next
    case n: False
    with False ds assms(2) show ?thesis
      by (intro exI [of _ ds] exI [of _ "[]"])
        (auto simp: scanFraction_def mantissa_def list_all_iff neq_Nil_conv)
  qed
qed

definition exponent_text :: "string \<Rightarrow> bool" where
  "exponent_text e \<longleftrightarrow> (\<exists>c sign ds. e = c # sign @ ds \<and> isExponent c \<and>
     (sign = [] \<or> (\<exists>g. sign = [g] \<and> isSign g)) \<and> ds \<noteq> [] \<and> list_all is_digit ds)"

lemma scanExponent_ok:
  assumes "scanExponent l floating p = Inr (floating', p')"
  shows "(floating' = floating \<and> p' = p) \<or>
    (floating' \<and> (\<exists>e. fst p' = fst p @ e \<and> exponent_text e))"
proof (cases "isExponent (look p)")
  case True
  let ?p2 = "append_if isSign (append1 p)"
  have "\<not> atEnd (snd p)" using True by auto
  then have 1: "fst (append1 p) = fst p @ [look p]" by (rule fst_append1)
  have 2: "\<exists>sign. fst ?p2 = fst p @ look p # sign \<and> (sign = [] \<or> (\<exists>g. sign = [g] \<and> isSign g))"
  proof (cases "isSign (look (append1 p))")
    case True
    then have "\<not> atEnd (snd (append1 p))" by auto
    with 1 True show ?thesis by (auto simp: append_if_def fst_append1)
  next
    case False
    with 1 show ?thesis by (simp add: append_if_def)
  qed
  have 3: "is_digit (look ?p2)" "floating'" "p' = append_while is_digit ?p2"
    using assms True by (auto simp: scanExponent_def Let_def split: if_splits)
  then have "\<not> atEnd (snd ?p2)" by auto
  with append_while_some [of is_digit ?p2, OF 3(1)] obtain ds where
      "fst p' = fst ?p2 @ ds" "ds \<noteq> []" "list_all is_digit ds"
    using 3 by auto
  moreover obtain sign where
      "fst ?p2 = fst p @ look p # sign" "sign = [] \<or> (\<exists>g. sign = [g] \<and> isSign g)"
    using 2 by blast
  moreover from this \<open>ds \<noteq> []\<close> \<open>list_all is_digit ds\<close> have "exponent_text (look p # sign @ ds)"
    using True unfolding exponent_text_def by blast
  ultimately show ?thesis using 3 by auto
next
  case False
  with assms show ?thesis by (simp add: scanExponent_def)
qed

lemma float_text_intro:
  "mantissa i f \<Longrightarrow> w = i @ f @ e \<Longrightarrow> e = [] \<or> exponent_text e \<Longrightarrow> f \<noteq> [] \<or> e \<noteq> []
    \<Longrightarrow> float_text w"
  unfolding mantissa_def exponent_text_def float_text_def by blast

lemma exponent_text_Nil [simp]: "\<not> exponent_text []"
  by (simp add: exponent_text_def)

lemma mantissa_integer: "mantissa i [] \<Longrightarrow> integer_text i"
  by (auto simp: mantissa_def integer_text_def)

lemma scanNumber_ok:
  assumes "is_digit (peek s 0) \<or> (peek s 0 = CHR ''.'' \<and> is_digit (peek s 1))"
    and "scanNumber s = Inr (t, s')"
  shows "token_ok t"
proof (cases "peek s 0 \<noteq> CHR ''.'' \<and> peek s 0 = CHR ''0'' \<and> (peek s 1 = CHR ''x'' \<or> peek s 1 = CHR ''X'')")
  case True
  moreover from True have "\<not> atEnd s" by (auto simp: nul_def)
  ultimately show ?thesis
    using scanHexadecimal_ok [of s "currentLocation s" t s'] assms(2)
    by (auto simp: scanNumber_def Let_def)
next
  case False
  define q where "q = scanFraction (peek s 0 = CHR ''.'')
       (append_while is_digit (if peek s 0 = CHR ''.'' then append1 ([], s) else ([], s)))"
  obtain i f where q: "fst (snd q) = i @ f" "mantissa i f" "fst q = (f \<noteq> [])"
    using scanFraction_ok [OF assms(1) q_def] by blast
  obtain floating p3 where e: "scanExponent (currentLocation s) (fst q) (snd q) = Inr (floating, p3)"
    and t: "t = (if \<not> floating \<and> isUnsignedSuffix (look p3)
      then makeToken T_UnsignedInteger (fst (append1 p3)) (currentLocation s) False
      else makeToken (if floating then T_Float else T_Integer) (fst p3) (currentLocation s) False)"
    using assms(2) False
    by (auto simp: scanNumber_def Let_def q_def [symmetric] bindE_Inr_iff split: if_splits)
  from scanExponent_ok [OF e] q have
    "floating \<and> float_text (fst p3) \<or> \<not> floating \<and> integer_text (fst p3)"
    using float_text_intro [OF q(2), of "fst p3"] mantissa_integer by (cases "f = []") force+
  moreover have "fst (append1 p3) = fst p3 @ [look p3]" if "isUnsignedSuffix (look p3)"
    using that by (intro fst_append1) auto
  ultimately show ?thesis using t by (auto simp: token_ok_def makeToken_def)
qed

lemma scanString_ok: "scanString quote l s = Inr (t, s') \<Longrightarrow> token_ok t"
  by (auto simp: scanString_def Let_def token_ok_def makeToken_def bindE_Inr_iff split: if_splits)

lemma scanInlineBody_ok: "scanInlineBody l s = Inr (t, s') \<Longrightarrow> token_ok t"
  using located_inline_body [of l 1 "[]" "skip s"]
  by (simp add: scanInlineBody_def located_def token_ok_def)

text \<open>The text rebuilt from the token type spells the punctuator that was read.\<close>

definition spells :: "char \<Rightarrow> token_type lex \<Rightarrow> bool" where
  "spells c r \<longleftrightarrow> (case r of Inl _ \<Rightarrow> True
     | Inr (ty, _) \<Rightarrow> (\<exists>p. ty = Punctuator p) \<and> quoted (punctuator_text ty c) = tokenTypeName ty)"

lemma spells_if: "(b \<Longrightarrow> spells c r1) \<Longrightarrow> (\<not> b \<Longrightarrow> spells c r2) \<Longrightarrow> spells c (if b then r1 else r2)"
  by simp

lemma spells_leaf:
  "spells c (throw_at l m s)"
  "spells c (Inr (Punctuator p, s)) \<longleftrightarrow>
     quoted (punctuator_text (Punctuator p) c) = tokenTypeName (Punctuator p)"
  "spells c (with_suffix d long short s) \<longleftrightarrow>
     (if peek s 0 = d then quoted (punctuator_text (Punctuator long) c) = tokenTypeName (Punctuator long)
      else quoted (punctuator_text (Punctuator short) c) = tokenTypeName (Punctuator short))"
  by (simp_all add: spells_def throw_at_def with_suffix_def)

lemma scanPunctuator_text: "spells c (scanPunctuator l c s)"
  unfolding scanPunctuator_def
  by (intro spells_if) (simp_all add: spells_leaf punctuator_text_def quoted_def)

lemma scanPunctuation_ok: "scanPunctuation l c s = Inr (t, s') \<Longrightarrow> token_ok t"
  using scanPunctuator_text [of c l "skip s"]
  by (auto simp: scanPunctuation_def bindE_Inr_iff spells_def token_ok_def makeToken_def)

end
