(* ===== verification/Lexed.thy ===== *)
theory Lexed
  imports Token_Stream
begin

text \<open>
  The state machine of the tokenizer's main loop, its invariants by rule induction, the
  properties C2 to C6 of every run that follow from them, and the texts that are read
  back as the token they were written for (C7, C8).
\<close>

subsection \<open>The states the tokenizer passes through\<close>

text \<open>
  One rule per way in which \<open>tokenize\<close> goes on: it passes over characters, adds a newline
  outside parentheses and brackets, or adds a token that one of the scanners returned.
\<close>

inductive lexed :: "string \<Rightarrow> string \<Rightarrow> token list \<Rightarrow> nat \<Rightarrow> lexer \<Rightarrow> bool"
  for src :: string and "file" :: string where
  lexed_start: "lexed src file [] 0 (new_lexer src file)"
| lexed_pass: "lexed src file ts d s \<Longrightarrow> lexes s s' \<Longrightarrow> lexed src file ts d s'"
| lexed_newline: "lexed src file ts 0 s \<Longrightarrow> \<not> atEnd s \<Longrightarrow> t = newlineToken (currentLocation s)
    \<Longrightarrow> lexed src file (ts @ [t]) 0 (skip s)"
| lexed_token: "lexed src file ts d s \<Longrightarrow> scans s (Inr (t, s')) \<Longrightarrow> token_ok t
    \<Longrightarrow> d' = depth_after (tok_type t) d \<Longrightarrow> lexed src file (ts @ [t]) d' s'"

lemma lexed_skip_newline:
  "lexed src file ts d s \<Longrightarrow> \<not> atEnd s \<Longrightarrow>
     lexed src file (if d = 0 then ts @ [newlineToken (currentLocation s)] else ts) d (skip s)"
  by (auto intro: lexed_newline lexed_pass lexes_advance)

text \<open>How a run ends: in a reached state, or thrown behind one, at a position of the source.\<close>

definition ends_lexed :: "string \<Rightarrow> string \<Rightarrow> nat \<Rightarrow> token list lex \<Rightarrow> bool" where
  "ends_lexed src file d r \<longleftrightarrow>
     (case r of
        Inl (e, s') \<Rightarrow> (\<exists>ts d0 s t. lexed src file ts d0 s \<and> lexes s s' \<and> lexes s t \<and>
          diag_location e = currentLocation t)
      | Inr (ts, s') \<Rightarrow> lexed src file ts d s')"

lemma ends_lexed_Inr [simp]: "ends_lexed src file d (Inr (ts, s)) \<longleftrightarrow> lexed src file ts d s"
  by (simp add: ends_lexed_def)

lemma ends_lexed_throw:
  "lexed src file ts d0 s \<Longrightarrow> lexes s s' \<Longrightarrow> lexes s t \<Longrightarrow> diag_location e = currentLocation t
    \<Longrightarrow> ends_lexed src file d (Inl (e, s'))"
  by (auto simp: ends_lexed_def)

lemma ends_lexed_throw_at:
  "lexed src file ts d0 s \<Longrightarrow> lexes s s' \<Longrightarrow> lexes s t
    \<Longrightarrow> ends_lexed src file d (throw_at (currentLocation t) m s')"
  unfolding throw_at_def by (rule ends_lexed_throw) (auto simp: DiagnosticError_def)

lemma block_comment_lexed:
  "lexed src file ts0 d0 s0 \<Longrightarrow> lexes s0 s \<Longrightarrow> lexed src file ts d s \<Longrightarrow>
     ends_lexed src file d (block_comment (currentLocation s0) d ts s)"
proof (induction "currentLocation s0" d ts s rule: block_comment.induct)
  case (1 d ts s)
  have one: "lexes s0 (skip s)" if "\<not> atEnd s"
    using that 1 by (blast intro: lexes_trans lexes_advance)
  have two: "lexed src file ts d (skip (skip s))" if "\<not> atEnd s" "peek s 1 = CHR ''/''"
    using that 1 consumes_two [of s] by (auto simp: nul_def intro: lexed_pass consumes_lexes)
  show ?case
    using 1 one two lexed_skip_newline [OF "1.prems"(3)]
    by (subst block_comment.simps)
      (auto intro: lexed_pass lexes_advance ends_lexed_throw_at split: if_splits)
qed

lemma skipTrivia_lexed: "lexed src file ts d s0 \<Longrightarrow> ends_lexed src file d (skipTrivia ts d s0)"
proof (induction "unread s0" arbitrary: ts s0 rule: less_induct)
  case less
  note IH = less.hyps [OF consumes_unread]
  show ?case
  proof (rule skipTrivia_cases [of s0 ts d])
    fix s assume "lexes s0 s" "skipTrivia ts d s0 = Inr (ts, s)"
    with less.prems show ?thesis by (auto intro: lexed_pass)
  next
    fix s assume "consumes s0 s" "skipTrivia ts d s0 = skipTrivia ts d s"
    with less.prems show ?thesis by (auto intro: IH lexed_pass consumes_lexes)
  next
    fix s e assume a: "lexes s0 s" "consumes s (skip (skip s))"
      "block_comment (currentLocation s) d ts (skip (skip s)) = Inl e"
      "skipTrivia ts d s0 = Inl e"
    have 1: "lexed src file ts d s" using less.prems a by (blast intro: lexed_pass)
    with a(2) have "lexed src file ts d (skip (skip s))" by (blast intro: lexed_pass consumes_lexes)
    from block_comment_lexed [OF 1 consumes_lexes [OF a(2)] this] a show ?thesis by simp
  next
    fix s ts' s' assume a: "lexes s0 s" "consumes s (skip (skip s))"
      "block_comment (currentLocation s) d ts (skip (skip s)) = Inr (ts', s')"
      "skipTrivia ts d s0 = skipTrivia ts' d s'"
    have 1: "lexed src file ts d s" using less.prems a by (blast intro: lexed_pass)
    with a(2) have "lexed src file ts d (skip (skip s))" by (blast intro: lexed_pass consumes_lexes)
    from block_comment_lexed [OF 1 consumes_lexes [OF a(2)] this] a(3)
    have "lexed src file ts' d s'" by simp
    moreover from a have "consumes s0 s'"
      by (blast intro: consumes_trans1 consumes_trans2 dest: block_comment_lexes)
    ultimately show ?thesis using a(4) IH by simp
  qed
qed

lemma depth_after_word [simp]: "depth_after (word_type w) d = d"
proof -
  have "word_type w \<notin> {T_LeftParen, T_LeftBracket, T_RightParen, T_RightBracket}"
    by (auto simp: word_type_def keyword_table_def split: option.splits if_splits
        dest!: map_of_SomeD)
  then show ?thesis by (simp add: depth_after_def)
qed

lemma depth_after_literal [simp]:
  "depth_after T_Integer d = d" "depth_after T_UnsignedInteger d = d" "depth_after T_Float d = d"
  "depth_after T_String d = d" "depth_after T_InlineBody d = d" "depth_after T_End d = d"
  "depth_after T_Newline d = d"
  by (simp_all add: depth_after_def)

lemma scan_keeps_depth:
  "scanIdentifierOrInteger s = Inr (t, s') \<Longrightarrow> depth_after (tok_type t) d = d"
  "scanString q l s = Inr (t, s') \<Longrightarrow> depth_after (tok_type t) d = d"
  "scanInlineBody l s = Inr (t, s') \<Longrightarrow> depth_after (tok_type t) d = d"
proof -
  show "scanString q l s = Inr (t, s') \<Longrightarrow> depth_after (tok_type t) d = d"
    by (auto simp: scanString_def Let_def makeToken_def bindE_Inr_iff split: if_splits)
  show "scanInlineBody l s = Inr (t, s') \<Longrightarrow> depth_after (tok_type t) d = d"
    using located_inline_body [of l 1 "[]" "skip s"] by (simp add: scanInlineBody_def located_def)
  have "scanNumber s = Inr (t, s') \<Longrightarrow> depth_after (tok_type t) d = d"
    by (auto simp: scanNumber_def scanHexadecimal_def Let_def makeToken_def bindE_Inr_iff
        split: if_splits)
  moreover have "scanWord s = Inr (t, s') \<Longrightarrow> depth_after (tok_type t) d = d"
    by (auto simp: scanWord_def Let_def makeToken_def)
  ultimately show "scanIdentifierOrInteger s = Inr (t, s') \<Longrightarrow> depth_after (tok_type t) d = d"
    by (simp add: scanIdentifierOrInteger_def split: if_splits)
qed

lemma scanIdentifierOrInteger_ok:
  assumes "isIdentifierStart (peek s 0) \<or> is_digit (peek s 0) \<or>
    (peek s 0 = CHR ''.'' \<and> is_digit (peek s 1))"
    and "scanIdentifierOrInteger s = Inr (t, s')"
  shows "token_ok t"
  using assms scanNumber_ok [of s t s'] scanWord_ok [of s t s']
  by (auto simp: scanIdentifierOrInteger_def isIdentifierStart_def char_class_defs split: if_splits)

lemma lexed_scan_cases:
  assumes "lexed src file ts d s" "scans s r" "\<And>t s'. r = Inr (t, s') \<Longrightarrow> token_ok t"
    and k: "\<And>t s'. r = Inr (t, s') \<Longrightarrow> unread s' < unread s \<Longrightarrow>
      lexed src file (ts @ [t]) (depth_after (tok_type t) d) s' \<Longrightarrow>
      \<exists>d'. ends_lexed src file d' (k t s')"
  shows "\<exists>d'. ends_lexed src file d' (case r of Inl e \<Rightarrow> Inl e | Inr (t, s') \<Rightarrow> k t s')"
proof (cases r)
  case (Inl a)
  with assms(1,2) show ?thesis by (cases a) (auto simp: scans_def intro: ends_lexed_throw)
next
  case (Inr b)
  obtain t s' where b: "b = (t, s')" by (cases b)
  have "\<exists>d'. ends_lexed src file d' (k t s')"
    using assms(1-3) Inr b
    by (intro k) (auto simp: scans_unread intro: lexed_token)
  then show ?thesis using Inr b by simp
qed

lemma tokenize_loop_lexed:
  "lexed src file ts d s0 \<Longrightarrow> \<exists>d'. ends_lexed src file d' (tokenize_loop ts d s0)"
proof (induction "unread s0" arbitrary: ts d s0 rule: less_induct)
  case less
  show ?case
  proof (cases "atEnd s0")
    case True
    with less.prems show ?thesis by (subst tokenize_loop.simps) auto
  next
    case start: False
    note trivia = skipTrivia_lexed [OF less.prems]
    show ?thesis
    proof (cases "skipTrivia ts d s0")
      case (Inl a)
      with trivia start show ?thesis
        by (subst tokenize_loop.simps) auto
    next
      case (Inr b)
      obtain ts' s where b: "b = (ts', s)" by (cases b)
      from trivia Inr b have l: "lexed src file ts' d s" by simp
      have le: "unread s \<le> unread s0" using Inr b by (simp add: lexes_unread_le skipTrivia_lexes)
      have IH: "\<exists>d'. ends_lexed src file d' (tokenize_loop ts2 d2 s2)"
        if "unread s2 < unread s" "lexed src file ts2 d2 s2" for ts2 d2 s2
        using that le by (intro less.hyps) auto
      show ?thesis
      proof (cases "atEnd s")
        case True
        with l start Inr b show ?thesis by (subst tokenize_loop.simps) auto
      next
        case False
        note inl = lexed_scan_cases [OF l scans_inline_body [OF False] scanInlineBody_ok]
        note str = lexed_scan_cases [OF l scans_string [OF False] scanString_ok]
        note pct = lexed_scan_cases [OF l scans_punctuation [OF False] scanPunctuation_ok]
        note idn = lexed_scan_cases [OF l scans_identifier_or_integer scanIdentifierOrInteger_ok]
        have new: "\<exists>d'. ends_lexed src file d' (tokenize_loop
            (if d = 0 then ts' @ [newlineToken (currentLocation s)] else ts') d (skip s))"
          using IH [OF advance_unread [OF False] lexed_skip_newline [OF l False]] .
        let ?word = "isIdentifierStart (peek s 0) \<or> is_digit (peek s 0) \<or>
                  (peek s 0 = CHR ''.'' \<and> is_digit (peek s 1))"
        have "tokenize_loop ts d s0 =
          (if lx_inline s \<and> peek s 0 = CHR ''{'' then
            (case scanInlineBody (currentLocation s) s of Inl e \<Rightarrow> Inl e
             | Inr (t, s') \<Rightarrow> tokenize_loop (ts' @ [t]) d s')
          else if peek s 0 = newline then
            tokenize_loop (if d = 0 then ts' @ [newlineToken (currentLocation s)] else ts')
              d (skip s)
          else if ?word then
            (case scanIdentifierOrInteger s of Inl e \<Rightarrow> Inl e
             | Inr (t, s') \<Rightarrow> tokenize_loop (ts' @ [t]) d s')
          else if peek s 0 = CHR 0x22 \<or> peek s 0 = CHR 0x27 then
            (case scanString (peek s 0) (currentLocation s) s of Inl e \<Rightarrow> Inl e
             | Inr (t, s') \<Rightarrow> tokenize_loop (ts' @ [t]) d s')
          else
            (case scanPunctuation (currentLocation s) (peek s 0) s of Inl e \<Rightarrow> Inl e
             | Inr (t, s') \<Rightarrow> tokenize_loop (ts' @ [t]) (depth_after (tok_type t) d) s'))"
          using start Inr b False by (subst tokenize_loop.simps) simp
        moreover have "\<exists>d'. ends_lexed src file d'
            (case scanInlineBody (currentLocation s) s of Inl e \<Rightarrow> Inl e
             | Inr (t, s') \<Rightarrow> tokenize_loop (ts' @ [t]) d s')"
          by (rule inl) (auto simp: scan_keeps_depth intro: IH)
        moreover have "\<exists>d'. ends_lexed src file d'
            (case scanIdentifierOrInteger s of Inl e \<Rightarrow> Inl e
             | Inr (t, s') \<Rightarrow> tokenize_loop (ts' @ [t]) d s')" if ?word
          by (rule idn) (use that in \<open>auto simp: scan_keeps_depth intro: IH\<close>)
        moreover have "\<exists>d'. ends_lexed src file d'
            (case scanString (peek s 0) (currentLocation s) s of Inl e \<Rightarrow> Inl e
             | Inr (t, s') \<Rightarrow> tokenize_loop (ts' @ [t]) d s')"
          by (rule str) (auto simp: scan_keeps_depth intro: IH)
        moreover have "\<exists>d'. ends_lexed src file d'
            (case scanPunctuation (currentLocation s) (peek s 0) s of Inl e \<Rightarrow> Inl e
             | Inr (t, s') \<Rightarrow> tokenize_loop (ts' @ [t]) (depth_after (tok_type t) d) s')"
          by (rule pct) (auto intro: IH)
        ultimately show ?thesis using new by presburger
      qed
    qed
  qed
qed

subsection \<open>Invariants of the reached states\<close>

definition location_at :: "string \<Rightarrow> string \<Rightarrow> nat \<Rightarrow> source_location" where
  "location_at src file n =
     \<lparr>loc_file = file, loc_line = line_at src n, loc_column = column_at src n\<rparr>"

lemma before_location_at:
  "m < n \<Longrightarrow> n \<le> length src \<Longrightarrow> before (location_at src file m) (location_at src file n)"
proof (induction n rule: less_Suc_induct)
  case (1 i)
  then show ?case
    by (simp add: location_at_def before_def line_at_Suc column_at_Suc)
next
  case (2 i j k)
  then show ?case by (meson before_trans less_imp_le_nat order.trans)
qed

lemma lexes_location:
  "lexes (new_lexer src file) s \<Longrightarrow> currentLocation s = location_at src file (lx_position s)"
  "lexes (new_lexer src file) s \<Longrightarrow> lx_ok s \<and> lx_position s \<le> length src"
proof -
  have "lx_ok (new_lexer src file)"
    by (simp add: lx_ok_def new_lexer_def line_at_def column_at_def)
  then show "lexes (new_lexer src file) s \<Longrightarrow> currentLocation s = location_at src file (lx_position s)"
    "lexes (new_lexer src file) s \<Longrightarrow> lx_ok s \<and> lx_position s \<le> length src"
    by (auto simp: lexes_def lx_ok_def currentLocation_def location_at_def new_lexer_def)
qed

lemma lexed_lexes: "lexed src file ts d s \<Longrightarrow> lexes (new_lexer src file) s"
  by (induction rule: lexed.induct)
    (auto simp: scans_def intro: lexes_trans lexes_advance)

definition located_before :: "string \<Rightarrow> string \<Rightarrow> nat \<Rightarrow> token list \<Rightarrow> bool" where
  "located_before src file p ts \<longleftrightarrow> sorted_wrt before (map tok_location ts) \<and>
     (\<forall>t \<in> set ts. \<exists>n < p. tok_location t = location_at src file n)"

lemma located_before_mono: "located_before src file p ts \<Longrightarrow> p \<le> q \<Longrightarrow> located_before src file q ts"
  unfolding located_before_def by (meson order_less_le_trans)

lemma located_before_snoc:
  assumes "located_before src file p ts" "tok_location t = location_at src file p" "p < q"
    and "p \<le> length src"
  shows "located_before src file q (ts @ [t])"
proof -
  have "before (tok_location t') (tok_location t)" if "t' \<in> set ts" for t'
    using that assms before_location_at [of _ p src "file"] by (force simp: located_before_def)
  moreover have "\<forall>t' \<in> set ts. \<exists>n < q. tok_location t' = location_at src file n"
    using assms(1,3) unfolding located_before_def by (meson order_less_trans)
  ultimately show ?thesis
    using assms by (auto simp: located_before_def sorted_wrt_append)
qed

lemma lexed_located: "lexed src file ts d s \<Longrightarrow> located_before src file (lx_position s) ts"
proof (induction rule: lexed.induct)
  case lexed_start
  show ?case by (simp add: located_before_def)
next
  case (lexed_pass ts d s s')
  then show ?case by (auto simp: lexes_def intro: located_before_mono)
next
  case (lexed_newline ts s t)
  note l = lexed_lexes [OF lexed_newline.hyps(1)]
  show ?case
    using lexed_newline lexes_location [OF l]
    by (intro located_before_snoc) (auto simp: newlineToken_def makeToken_def advance_position)
next
  case (lexed_token ts d s t s' d')
  note l = lexed_lexes [OF lexed_token.hyps(1)]
  show ?case
    using lexed_token lexes_location [OF l]
    by (intro located_before_snoc) (auto simp: scans_def consumes_def)
qed

definition inner_token :: "token \<Rightarrow> bool" where
  "inner_token t \<longleftrightarrow> token_ok t \<and> tok_type t \<noteq> T_End"

lemma lexed_inner: "lexed src file ts d s \<Longrightarrow> list_all inner_token ts"
  by (induction rule: lexed.induct)
    (auto simp: inner_token_def scans_def newlineToken_def makeToken_def token_ok_def)

lemma token_ok_End: "token_ok (makeToken T_End [] l b)"
  by (simp add: token_ok_def makeToken_def)

text \<open>The nesting after a list of tokens; every \<open>Newline\<close> stands at nesting 0.\<close>

definition nesting :: "token list \<Rightarrow> nat" where
  "nesting ts = fold (\<lambda>t. depth_after (tok_type t)) ts 0"

definition newlines_outside :: "token list \<Rightarrow> bool" where
  "newlines_outside ts \<longleftrightarrow>
     (\<forall>i < length ts. tok_type (ts ! i) = T_Newline \<longrightarrow> nesting (take i ts) = 0)"

lemma newlines_outside_snoc:
  "newlines_outside (ts @ [t]) \<longleftrightarrow>
     newlines_outside ts \<and> (tok_type t = T_Newline \<longrightarrow> nesting ts = 0)"
  by (auto simp: newlines_outside_def nth_append less_Suc_eq)

lemma lexed_nesting: "lexed src file ts d s \<Longrightarrow> nesting ts = d \<and> newlines_outside ts"
proof (induction rule: lexed.induct)
  case (lexed_newline ts s t)
  then show ?case
    by (simp add: newlines_outside_snoc nesting_def newlineToken_def makeToken_def)
next
  case (lexed_token ts d s t s' d')
  then show ?case by (auto simp: newlines_outside_snoc nesting_def scans_def)
qed (simp_all add: newlines_outside_def nesting_def)

lemma tokenize_Inr:
  assumes "tokenize src file = Inr toks"
  obtains ts d s where "lexed src file ts d s"
    "toks = ts @ [makeToken T_End [] (currentLocation s) False]"
  using assms tokenize_loop_lexed [OF lexed_start, of src "file"]
  by (fastforce simp: tokenize_def tokenize_run_def bindE_def
      split: sum.splits prod.splits)

lemma tokenize_Inl:
  assumes "tokenize src file = Inl e"
  obtains s where "lexes (new_lexer src file) s" "diag_location e = currentLocation s"
proof -
  obtain s' where "tokenize_loop [] 0 (new_lexer src file) = Inl (e, s')"
    using assms by (auto simp: tokenize_def tokenize_run_def bindE_def
        split: sum.splits prod.splits)
  then obtain ts d s t where "lexed src file ts d s" "lexes s t" "diag_location e = currentLocation t"
    using tokenize_loop_lexed [OF lexed_start, of src "file"] by (auto simp: ends_lexed_def)
  with that lexed_lexes lexes_trans show thesis by blast
qed

subsection \<open>Properties\<close>

text \<open>C25: on every source, whether it is accepted or rejected, the tokenizer never reads
  past the end of the source, and the position it stops at is one of the source.\<close>

theorem tokenize_in_bounds:
  "\<not> lx_fault (end_state (tokenize_run src fileName)) \<and>
   lx_position (end_state (tokenize_run src fileName)) \<le> length src"
proof -
  let ?r = "tokenize_loop [] 0 (new_lexer src fileName)"
  have "lexes (new_lexer src fileName) (end_state ?r)"
    using tokenize_loop_lexed [OF lexed_start, of src fileName]
    by (cases ?r) (auto simp: ends_lexed_def dest!: lexed_lexes intro: lexes_trans)
  moreover have "end_state (tokenize_run src fileName) = end_state ?r"
    by (cases ?r) (auto simp: tokenize_run_def)
  ultimately show ?thesis
    using lexes_location(2) [of src fileName] by (auto simp: lx_ok_def)
qed

text \<open>C26: an accepted source yields a token list that ends in one \<open>End\<close> token, the only
  one, and every token has a text of the shape its type promises: identifiers are no
  keywords, integers are digits or a hexadecimal literal, strings are valid UTF-8,
  punctuators spell their name.\<close>

theorem tokenize_tokens:
  assumes "tokenize src fileName = Inr toks"
  shows "\<exists>ts e. toks = ts @ [e] \<and> tok_type e = T_End \<and>
     list_all (\<lambda>t. tok_type t \<noteq> T_End) ts \<and> list_all token_ok toks"
  using assms
  by (rule tokenize_Inr)
    (auto dest!: lexed_inner simp: list_all_iff inner_token_def token_ok_End,
      simp add: makeToken_def)

text \<open>C27: the location of every token is the line and column of an offset of the source, and
  the locations strictly increase along the list.\<close>

theorem tokenize_locations:
  assumes "tokenize src fileName = Inr toks"
  shows "sorted_wrt before (map tok_location toks) \<and>
     (\<forall>t \<in> set toks. \<exists>n \<le> length src. tok_location t = location_at src fileName n)"
proof (rule tokenize_Inr [OF assms])
  fix ts d s assume l: "lexed src fileName ts d s"
    and t: "toks = ts @ [makeToken T_End [] (currentLocation s) False]"
  note s = lexes_location [OF lexed_lexes [OF l]]
  have "located_before src fileName (Suc (lx_position s)) toks"
    unfolding t using lexed_located [OF l] s
    by (intro located_before_snoc) (auto simp: makeToken_def)
  with s show ?thesis unfolding located_before_def by (meson less_Suc_eq_le order.trans)
qed

text \<open>The diagnostic of a rejected source points into the source.\<close>

theorem tokenize_error_location:
  assumes "tokenize src fileName = Inl e"
  shows "\<exists>n \<le> length src. diag_location e = location_at src fileName n"
proof (rule tokenize_Inl [OF assms])
  fix s assume l: "lexes (new_lexer src fileName) s" "diag_location e = currentLocation s"
  then show ?thesis using lexes_location [OF l(1)] by auto
qed

text \<open>A \<open>Newline\<close> token only ever stands outside all parentheses and brackets.\<close>

theorem tokenize_newlines:
  assumes "tokenize src fileName = Inr toks"
  shows "newlines_outside toks"
  using assms
  by (rule tokenize_Inr) (auto dest!: lexed_nesting simp: newlines_outside_snoc makeToken_def)

subsection \<open>Literals and words are read back\<close>

text \<open>What is still to be read.\<close>

definition rest :: "lexer \<Rightarrow> string" where
  "rest s = drop (lx_position s) (lx_source s)"

lemma rest_Cons:
  assumes "rest s = c # cs"
  shows "\<not> atEnd s" "peek s 0 = c" "fst (advance s) = c" "rest (skip s) = cs"
proof -
  have p: "lx_position s < length (lx_source s)"
    using assms by (cases "lx_position s < length (lx_source s)") (auto simp: rest_def)
  then show "\<not> atEnd s" by (simp add: atEnd_def)
  moreover have "drop (lx_position s) (lx_source s) =
      lx_source s ! lx_position s # drop (Suc (lx_position s)) (lx_source s)"
    using p by (simp add: Cons_nth_drop_Suc)
  ultimately show "peek s 0 = c" "fst (advance s) = c" "rest (skip s) = cs"
    using assms p by (auto simp: rest_def peek_def advance_def Let_def)
qed

lemma rest_Nil: "rest s = [] \<longleftrightarrow> atEnd s"
  by (simp add: rest_def atEnd_def)

lemma skip_inline [simp]: "lx_inline (skip s) = lx_inline s"
  by (simp add: advance_def Let_def)

lemma rest_new [simp]: "rest (new_lexer src file) = src" "lx_inline (new_lexer src file) = False"
  by (simp_all add: rest_def new_lexer_def)

lemma lex_while_rest:
  "rest s = w @ v \<Longrightarrow> list_all condition w \<Longrightarrow> v = [] \<or> \<not> condition (hd v) \<Longrightarrow>
     fst (lex_while condition s) = w \<and> rest (snd (lex_while condition s)) = v \<and>
     lx_inline (snd (lex_while condition s)) = lx_inline s"
proof (induction w arbitrary: s)
  case Nil
  then have "atEnd s \<or> \<not> condition (peek s 0)"
    by (cases v) (auto simp: rest_Nil dest: rest_Cons)
  with Nil show ?case by (subst (1 2 3) lex_while.simps) auto
next
  case (Cons c w)
  then have r: "rest s = c # (w @ v)" by simp
  with Cons.IH [of "skip s"] Cons.prems rest_Cons [OF r] show ?case
    by (subst (1 2 3) lex_while.simps) (auto simp: split_beta Let_def)
qed

lemma skipTrivia_none:
  assumes "rest s = c # cs" "c = newline \<or> \<not> is_space c" "c \<notin> {CHR '';'', CHR ''#'', CHR ''/''}"
  shows "skipTrivia ts d s = Inr (ts, s)"
proof -
  have s: "s = snd (lex_while (\<lambda>c. c \<noteq> newline \<and> is_space c) s)"
    using assms(2) rest_Cons [OF assms(1)] by (subst lex_while.simps) auto
  show ?thesis
    by (subst skipTrivia_unfold [OF s]) (use assms(3) rest_Cons [OF assms(1)] in auto)
qed

text \<open>How a text is written between double quotes.\<close>

definition escape :: "char \<Rightarrow> string" where
  "escape c =
     (if c = newline then [CHR 0x5C, CHR ''n''] else if c = CHR 0x0D then [CHR 0x5C, CHR ''r'']
      else if c = CHR 0x22 then [CHR 0x5C, c] else if c = CHR 0x5C then [CHR 0x5C, c] else [c])"

definition string_literal :: "string \<Rightarrow> string" where
  "string_literal w = [CHR 0x22] @ concat (map escape w) @ [CHR 0x22]"

lemma string_body_read:
  "rest s = concat (map escape w) @ CHR 0x22 # v \<Longrightarrow>
     \<exists>s'. string_body (CHR 0x22) l txt0 s = Inr (txt0 @ w, s') \<and> rest s' = CHR 0x22 # v \<and>
       lx_inline s' = lx_inline s"
proof (induction w arbitrary: txt0 s)
  case Nil
  then have "rest s = CHR 0x22 # v" by simp
  then show ?case by (subst string_body.simps) (auto dest: rest_Cons)
next
  case (Cons c w)
  let ?more = "concat (map escape w) @ CHR 0x22 # v"
  show ?case
  proof (cases "escape c = [c]")
    case True
    then have c: "c \<notin> {newline, CHR 0x0D, CHR 0x22, CHR 0x5C}"
      by (auto simp: escape_def split: if_splits)
    from True Cons.prems have r: "rest s = c # ?more" by simp
    obtain s' where "string_body (CHR 0x22) l (txt0 @ [c]) (skip s) = Inr (txt0 @ c # w, s')"
        "rest s' = CHR 0x22 # v" "lx_inline s' = lx_inline s"
      using Cons.IH [of "skip s" "txt0 @ [c]"] rest_Cons(4) [OF r] by auto
    moreover have "string_body (CHR 0x22) l txt0 s = string_body (CHR 0x22) l (txt0 @ [c]) (skip s)"
      using c rest_Cons [OF r] by (subst string_body.simps) (auto simp: push_def)
    ultimately show ?thesis by auto
  next
    case False
    then obtain e where e: "escape c = [CHR 0x5C, e]" "escape_char e = Some c"
      by (auto simp: escape_def escape_char_def newline_def split: if_splits)
    with Cons.prems have r: "rest s = CHR 0x5C # e # ?more" by simp
    note 1 = rest_Cons [OF r] and 2 = rest_Cons [OF rest_Cons(4) [OF r]]
    obtain s' where "string_body (CHR 0x22) l (txt0 @ [c]) (skip (skip s)) = Inr (txt0 @ c # w, s')"
        "rest s' = CHR 0x22 # v" "lx_inline s' = lx_inline s"
      using Cons.IH [of "skip (skip s)" "txt0 @ [c]"] 2(4) by auto
    moreover have "string_body (CHR 0x22) l txt0 s =
        string_body (CHR 0x22) l (txt0 @ [c]) (skip (skip s))"
      using 1 2 e by (subst string_body.simps) (auto simp: newline_def)
    ultimately show ?thesis by auto
  qed
qed

lemma start_not_digit:
  "isIdentifierStart c \<Longrightarrow> \<not> is_digit c \<and> \<not> is_space c \<and>
     c \<notin> {CHR ''.'', newline, CHR '';'', CHR ''#'', CHR ''/''}"
  by (auto simp: isIdentifierStart_def char_class_defs newline_def less_eq_char_def)

lemma tokenize_one:
  assumes "rest s0 = c # cs" "c \<noteq> newline" "\<not> is_space c" "c \<notin> {CHR '';'', CHR ''#'', CHR ''/''}"
    and "\<not> lx_inline s0" "s0 = new_lexer src file"
    and "isIdentifierStart c \<Longrightarrow> scanIdentifierOrInteger s0 = Inr (t, s')"
    and "\<not> isIdentifierStart c \<Longrightarrow> c = CHR 0x22 \<and> scanString c (currentLocation s0) s0 = Inr (t, s')"
    and "atEnd s'"
  shows "\<exists>e. tokenize src file = Inr [t, e] \<and> tok_type e = T_End"
proof -
  note c = rest_Cons [OF assms(1)]
  have end_s': "tokenize_loop [t] 0 s' = Inr ([t], s')"
    using assms(9) by (subst tokenize_loop.simps) simp
  have trivia: "skipTrivia [] 0 s0 = Inr ([], s0)"
    using assms(3,4) by (intro skipTrivia_none [OF assms(1)]) auto
  have "tokenize_loop [] 0 s0 = Inr ([t], s')"
  proof (cases "isIdentifierStart c")
    case True
    with c assms(2,5,7) end_s' trivia show ?thesis by (subst tokenize_loop.simps) simp
  next
    case False
    then have "c = CHR 0x22" "scanString (CHR 0x22) (currentLocation s0) s0 = Inr (t, s')"
      using assms(8) by blast+
    with False c assms(2,5) end_s' trivia show ?thesis
      by (subst tokenize_loop.simps) (simp add: is_digit_def between_def)
  qed
  with assms(6) show ?thesis by (simp add: tokenize_def tokenize_run_def makeToken_def)
qed

text \<open>A valid UTF-8 text, written between double quotes with its control characters,
  quotes and backslashes escaped, is read back as one formatted string token with that text.\<close>

theorem tokenize_string_literal:
  assumes "isValidUtf8 w"
  shows "\<exists>t e. tokenize (string_literal w) fileName = Inr [t, e] \<and>
     tok_type t = T_String \<and> tok_text t = w \<and> tok_formatted t \<and> tok_type e = T_End"
proof -
  let ?s = "new_lexer (string_literal w) fileName"
  have r: "rest ?s = CHR 0x22 # concat (map escape w) @ [CHR 0x22]"
    by (simp add: string_literal_def)
  obtain s' where s': "string_body (CHR 0x22) (currentLocation ?s) [] (skip ?s) = Inr (w, s')"
      "rest s' = [CHR 0x22]"
    using string_body_read [of "skip ?s" w "[]" "currentLocation ?s" "[]"] rest_Cons(4) [OF r] by auto
  let ?t = "makeToken T_String w (currentLocation ?s) True"
  have "\<exists>e. tokenize (string_literal w) fileName = Inr [?t, e] \<and> tok_type e = T_End"
    by (rule tokenize_one [OF r _ _ _ _ refl, where s' = "skip s'"])
      (use s' assms rest_Cons [OF s'(2)] in \<open>auto simp: scanString_def Let_def newline_def rest_Nil
        char_class_defs isIdentifierStart_def\<close>)
  then show ?thesis by (auto simp: makeToken_def)
qed

text \<open>A word of the language is read back as one token whose type is its keyword,
  whatever its case, and an identifier when it is no keyword.\<close>

theorem tokenize_word:
  assumes "identifier_text w"
  shows "\<exists>t e. tokenize w fileName = Inr [t, e] \<and>
     tok_type t = word_type w \<and> tok_text t = w \<and> tok_type e = T_End"
proof -
  let ?s = "new_lexer w fileName"
  obtain c cs where w: "w = c # cs" "isIdentifierStart c" "list_all isIdentifierPart w"
    using assms by (cases w) (auto simp: identifier_text_def)
  then have r: "rest ?s = c # cs" by simp
  note p = lex_while_rest [of ?s w "[]" isIdentifierPart, simplified, OF w(3)]
  let ?t = "makeToken (word_type w) w (currentLocation ?s) False"
  have "\<exists>s'. scanIdentifierOrInteger ?s = Inr (?t, s') \<and> atEnd s'"
    using w(1) start_not_digit [OF w(2)] p rest_Cons [OF r]
    by (auto simp: scanIdentifierOrInteger_def scanWord_def append_while_def Let_def rest_Nil
        atEnd_def)
  then obtain s' where "scanIdentifierOrInteger ?s = Inr (?t, s')" "atEnd s'" by blast
  then have "\<exists>e. tokenize w fileName = Inr [?t, e] \<and> tok_type e = T_End"
    by (intro tokenize_one [OF r _ _ _ _ refl])
      (use w start_not_digit [OF w(2)] in auto)
  then show ?thesis by (auto simp: makeToken_def)
qed

subsection \<open>Instances\<close>

lemma sample_accepted: "is_ok (tokenize ''x=(1) //'' ''a'')"
  by code_simp

lemma sample_rejected: "\<not> is_ok (tokenize ''x &'' ''a'')"
  by code_simp

theorem tokenize_tokens_witness:
  "\<exists>toks. tokenize ''x=(1) //'' ''a'' = Inr toks \<and> list_all token_ok toks"
  using sample_accepted tokenize_tokens [of "''x=(1) //''" "''a''"] by (auto simp: is_ok_def split: sum.splits)

theorem tokenize_locations_witness:
  "\<exists>toks. tokenize ''x=(1) //'' ''a'' = Inr toks \<and> sorted_wrt before (map tok_location toks)"
  using sample_accepted tokenize_locations [of "''x=(1) //''" "''a''"]
  by (auto simp: is_ok_def split: sum.splits)

theorem tokenize_error_location_witness:
  "\<exists>e n. tokenize ''x &'' ''a'' = Inl e \<and> n \<le> length ''x &'' \<and>
     diag_location e = location_at ''x &'' ''a'' n"
proof -
  obtain e where "tokenize ''x &'' ''a'' = Inl e"
    using sample_rejected by (cases "tokenize ''x &'' ''a''") auto
  with tokenize_error_location [OF this] show ?thesis by blast
qed

theorem tokenize_newlines_witness:
  "\<exists>toks. tokenize ''x=(1) //'' ''a'' = Inr toks \<and> newlines_outside toks"
  using sample_accepted tokenize_newlines [of "''x=(1) //''" "''a''"]
  by (auto simp: is_ok_def split: sum.splits)

theorem tokenize_string_literal_witness:
  "\<exists>t e. tokenize (string_literal [CHR ''a'', newline, CHR 0x22]) ''a'' = Inr [t, e] \<and>
     tok_text t = [CHR ''a'', newline, CHR 0x22]"
proof -
  have "isValidUtf8 [CHR ''a'', newline, CHR 0x22]" by code_simp
  with tokenize_string_literal [of "[CHR ''a'', newline, CHR 0x22]" "''a''"] show ?thesis by auto
qed

theorem tokenize_word_witness: "\<exists>t e. tokenize ''While'' ''a'' = Inr [t, e] \<and> tok_type t = T_While"
proof -
  have "identifier_text ''While''" "word_type ''While'' = T_While" by code_simp+
  with tokenize_word [of "''While''" "''a''"] show ?thesis by auto
qed

end
