(* ===== verification/Ast.thy ===== *)
theory Ast
  imports Tokens "HOL-Library.Word"
begin

text \<open>
  The syntax tree (\<open>include/cwhip/Ast.hpp\<close>, \<open>src/Ast.cpp\<close>): each struct is a
  record of its flat fields, and a datatype joins the record with the children. A
  \<open>unique_ptr\<close> that may be null is an option. \<open>dumpAst\<close> returns what the C++
  writes to its stream.
\<close>

subsection \<open>Expressions\<close>

datatype expression_kind =
    EK_Integer | EK_Unsigned | EK_Float | EK_Boolean | EK_String | EK_FormatString
  | EK_Identifier | EK_ImplicitThis | EK_Unary | EK_Binary | EK_Member | EK_EnumConstant
  | EK_Call | EK_ConstructorCall | EK_BufferConstructor | EK_Null | EK_ArrayLiteral
  | EK_MapLiteral | EK_Index | EK_Slice | EK_Cast | EK_ObjectCast | EK_TypeTest | EK_TypeOf
  | EK_TypeName | EK_BufferLiteral | EK_BoundMethod | EK_CallbackCall

record format_spec =
  fs_type :: char
  fs_alignment :: char
  fs_zeroPad :: bool
  fs_width :: nat

definition default_format_spec :: format_spec where
  "default_format_spec = \<lparr>fs_type = nul, fs_alignment = nul, fs_zeroPad = False, fs_width = 0\<rparr>"

record expression_info =
  ex_kind :: expression_kind
  ex_location :: source_location
  ex_typeLocation :: source_location
  ex_value :: string
  ex_sliceHasStart :: bool
  ex_sliceHasEnd :: bool
  ex_sliceHasStep :: bool
  ex_resolvedSignature :: string
  ex_resolvedType :: string
  ex_argumentNames :: "string list"
  ex_argumentNameLocations :: "source_location list"
  ex_formatSegments :: "string list"
  ex_formatArgumentIndices :: "nat list"
  ex_formatSpecs :: "format_spec list"

datatype expression =
  Expression (ex_info: expression_info) (ex_left: "expression option")
    (ex_right: "expression option") (ex_arguments: "expression list")

definition default_expression_info :: expression_info where
  "default_expression_info =
     \<lparr>ex_kind = EK_Integer, ex_location = default_location, ex_typeLocation = default_location,
      ex_value = [], ex_sliceHasStart = True, ex_sliceHasEnd = True, ex_sliceHasStep = False,
      ex_resolvedSignature = [], ex_resolvedType = [], ex_argumentNames = [],
      ex_argumentNameLocations = [], ex_formatSegments = [], ex_formatArgumentIndices = [],
      ex_formatSpecs = []\<rparr>"

text \<open>A fresh node of a kind at a location, with a value.\<close>

definition node_info :: "expression_kind \<Rightarrow> source_location \<Rightarrow> string \<Rightarrow> expression_info" where
  "node_info kind location value' =
     default_expression_info\<lparr>ex_kind := kind, ex_location := location, ex_value := value'\<rparr>"

abbreviation kind_of :: "expression \<Rightarrow> expression_kind" where
  "kind_of e \<equiv> ex_kind (ex_info e)"

abbreviation location_of :: "expression \<Rightarrow> source_location" where
  "location_of e \<equiv> ex_location (ex_info e)"

abbreviation value_of :: "expression \<Rightarrow> string" where
  "value_of e \<equiv> ex_value (ex_info e)"

fun cloneExpression :: "expression \<Rightarrow> expression" where
  "cloneExpression (Expression i l r args) =
     Expression
       \<lparr>ex_kind = ex_kind i, ex_location = ex_location i, ex_typeLocation = ex_typeLocation i,
        ex_value = ex_value i, ex_sliceHasStart = ex_sliceHasStart i,
        ex_sliceHasEnd = ex_sliceHasEnd i, ex_sliceHasStep = ex_sliceHasStep i,
        ex_resolvedSignature = ex_resolvedSignature i, ex_resolvedType = ex_resolvedType i,
        ex_argumentNames = ex_argumentNames i,
        ex_argumentNameLocations = ex_argumentNameLocations i,
        ex_formatSegments = ex_formatSegments i,
        ex_formatArgumentIndices = ex_formatArgumentIndices i,
        ex_formatSpecs = ex_formatSpecs i\<rparr>
       (map_option cloneExpression l) (map_option cloneExpression r) (map cloneExpression args)"

text \<open>The depth of a tree, counted in nodes.\<close>

fun tree_depth :: "expression \<Rightarrow> nat" where
  "tree_depth (Expression i l r args) =
     Suc (fold max (map tree_depth args)
       (max (case l of None \<Rightarrow> 0 | Some e \<Rightarrow> tree_depth e)
            (case r of None \<Rightarrow> 0 | Some e \<Rightarrow> tree_depth e)))"

definition children :: "expression \<Rightarrow> expression list" where
  "children e = (case ex_left e of None \<Rightarrow> [] | Some l \<Rightarrow> [l]) @
     (case ex_right e of None \<Rightarrow> [] | Some r \<Rightarrow> [r]) @ ex_arguments e"

lemma fold_max_le: "fold max ns (m::nat) \<le> k \<longleftrightarrow> m \<le> k \<and> (\<forall>n \<in> set ns. n \<le> k)"
  by (induction ns arbitrary: m) auto

lemma tree_depth_le: "tree_depth e \<le> Suc k \<longleftrightarrow> (\<forall>c \<in> set (children e). tree_depth c \<le> k)"
  by (cases e) (auto simp: fold_max_le children_def split: option.splits)

lemma tree_depth_positive: "0 < tree_depth e"
  by (cases e) simp

subsection \<open>Statements\<close>

datatype statement_kind =
    SK_Declaration | SK_Assignment | SK_Print | SK_If | SK_While | SK_DoWhile | SK_Block
  | SK_Return | SK_Expression | SK_SuperConstructorCall | SK_Raise | SK_Try | SK_ForEach
  | SK_Break | SK_Continue | SK_InlineC

record inline_capture =
  ic_type :: string
  ic_name :: string
  ic_location :: source_location
  ic_target :: "expression option"

record statement_info =
  st_kind :: statement_kind
  st_location :: source_location
  st_name :: string
  st_keyName :: string
  st_rethrowsException :: bool
  st_assignmentOperator :: string
  st_assignmentOperatorLocation :: source_location
  st_declaredType :: string
  st_inlineSource :: string
  st_inlineCaptures :: "inline_capture list"
  st_target :: "expression option"
  st_expressions :: "expression list"
  st_virtualBaseInitializer :: bool
  st_protectedConstructorInitialization :: bool
  st_hasAlternate :: bool
  st_hasCleanup :: bool
  st_resolvedSignature :: string

record handler_info =
  eh_location :: source_location
  eh_exceptionType :: string
  eh_name :: string
  eh_hasBinding :: bool

datatype statement =
  Statement (st_info: statement_info) (st_body: "statement list")
    (st_alternate: "statement list") (st_cleanup: "statement list")
    (st_handlers: "exception_handler list")
and exception_handler = ExceptionHandler (eh_info: handler_info) (eh_body: "statement list")

definition default_statement_info :: statement_info where
  "default_statement_info =
     \<lparr>st_kind = SK_Block, st_location = default_location, st_name = [], st_keyName = [],
      st_rethrowsException = False, st_assignmentOperator = ''='',
      st_assignmentOperatorLocation = default_location, st_declaredType = [],
      st_inlineSource = [], st_inlineCaptures = [], st_target = None, st_expressions = [],
      st_virtualBaseInitializer = False, st_protectedConstructorInitialization = False,
      st_hasAlternate = False, st_hasCleanup = False, st_resolvedSignature = []\<rparr>"

text \<open>A statement without nested statements.\<close>

abbreviation simple_statement :: "statement_info \<Rightarrow> statement" where
  "simple_statement i \<equiv> Statement i [] [] [] []"

definition statement_at :: "statement_kind \<Rightarrow> source_location \<Rightarrow> statement_info" where
  "statement_at kind location = default_statement_info\<lparr>st_kind := kind, st_location := location\<rparr>"

subsection \<open>Declarations\<close>

record parameter =
  pa_type :: string
  pa_name :: string
  pa_location :: source_location

datatype access_level = Public | Protected | Private

record field_declaration =
  fd_type :: string
  fd_name :: string
  fd_location :: source_location
  fd_access :: access_level

record enum_member_declaration =
  em_name :: string
  em_location :: source_location
  em_access :: access_level
  em_blockIndex :: nat
  em_initializer :: "expression option"
  em_value :: "64 word option"
  em_resolving :: bool

record method_declaration =
  me_name :: string
  me_returnType :: string
  me_location :: source_location
  me_parameters :: "parameter list"
  me_body :: "statement list"
  me_constructor :: bool
  me_destructor :: bool
  me_declarationOnly :: bool
  me_externalBinding :: bool
  me_externalSymbol :: string
  me_access :: access_level

record class_declaration =
  cl_name :: string
  cl_moduleName :: string
  cl_importedModule :: bool
  cl_builtin :: bool
  cl_namespacePath :: "string list"
  cl_baseClassName :: string
  cl_location :: source_location
  cl_baseLocation :: source_location
  cl_baseClassNames :: "string list"
  cl_baseLocations :: "source_location list"
  cl_baseAccess :: "access_level list"
  cl_baseVirtual :: "bool list"
  cl_fields :: "field_declaration list"
  cl_enumMembers :: "enum_member_declaration list"
  cl_enumBlockCount :: nat
  cl_methods :: "method_declaration list"

record out_of_line_method =
  ol_className :: string
  ol_moduleName :: string
  ol_namespacePath :: "string list"
  ol_method :: method_declaration
  ol_location :: source_location

record namespace_declaration =
  ns_path :: "string list"
  ns_moduleName :: string
  ns_location :: source_location

record import_declaration =
  im_moduleName :: string
  im_alias :: string
  im_importerModule :: string
  im_exportedName :: string
  im_exportsNamespace :: bool
  im_location :: source_location

record program =
  pr_location :: source_location
  pr_hasStart :: bool
  pr_imports :: "import_declaration list"
  pr_namespaces :: "namespace_declaration list"
  pr_classes :: "class_declaration list"
  pr_outOfLineMethods :: "out_of_line_method list"
  pr_statements :: "statement list"

definition default_method :: method_declaration where
  "default_method =
     \<lparr>me_name = [], me_returnType = [], me_location = default_location, me_parameters = [],
      me_body = [], me_constructor = False, me_destructor = False, me_declarationOnly = False,
      me_externalBinding = False, me_externalSymbol = [], me_access = Public\<rparr>"

definition default_class :: class_declaration where
  "default_class =
     \<lparr>cl_name = [], cl_moduleName = [], cl_importedModule = False, cl_builtin = False,
      cl_namespacePath = [], cl_baseClassName = [], cl_location = default_location,
      cl_baseLocation = default_location, cl_baseClassNames = [], cl_baseLocations = [],
      cl_baseAccess = [], cl_baseVirtual = [], cl_fields = [], cl_enumMembers = [],
      cl_enumBlockCount = 0, cl_methods = []\<rparr>"

definition empty_program :: program where
  "empty_program =
     \<lparr>pr_location = default_location, pr_hasStart = False, pr_imports = [], pr_namespaces = [],
      pr_classes = [], pr_outOfLineMethods = [], pr_statements = []\<rparr>"

end
