(* ===== verification/Ast_Dump.thy ===== *)
theory Ast_Dump
  imports Ast
begin

text \<open>
  The functions of \<open>src/Ast.cpp\<close>: the copy of an expression, the predeclared class
  \<open>Exception\<close> and the printer of the syntax tree.
\<close>

definition makeBuiltinExceptionClass :: class_declaration where
  "makeBuiltinExceptionClass =
     (let loc = \<lparr>loc_file = ''<builtin>'', loc_line = 1, loc_column = 1\<rparr>;
          target = Expression (node_info EK_Identifier loc ''message'') None None [];
          val = Expression (node_info EK_Identifier loc ''text'') None None [];
          assignment = simple_statement ((statement_at SK_Assignment loc)
            \<lparr>st_target := Some target, st_expressions := [val]\<rparr>);
          constructor = default_method
            \<lparr>me_name := ''Exception'', me_returnType := ''void'', me_location := loc,
             me_constructor := True,
             me_parameters := [\<lparr>pa_type = ''String'', pa_name = ''text'', pa_location = loc\<rparr>],
             me_body := [assignment]\<rparr>
      in default_class
           \<lparr>cl_name := ''Exception'', cl_builtin := True, cl_location := loc,
            cl_fields :=
              [\<lparr>fd_type = ''String'', fd_name = ''message'', fd_location = loc, fd_access = Public\<rparr>,
               \<lparr>fd_type = ''bool'', fd_name = ''runtime_owns_message'', fd_location = loc,
                fd_access = Private\<rparr>],
            cl_methods := [constructor]\<rparr>)"

definition indent :: "nat \<Rightarrow> string" where
  "indent depth = concat (replicate depth ''  '')"

fun expressionName :: "expression_kind \<Rightarrow> string" where
  "expressionName EK_BoundMethod = ''BoundMethod''"
| "expressionName EK_CallbackCall = ''CallbackCall''"
| "expressionName EK_Integer = ''Integer''"
| "expressionName EK_Unsigned = ''Unsigned''"
| "expressionName EK_Float = ''Float''"
| "expressionName EK_Boolean = ''Boolean''"
| "expressionName EK_String = ''String''"
| "expressionName EK_FormatString = ''FormatString''"
| "expressionName EK_Identifier = ''Identifier''"
| "expressionName EK_ImplicitThis = ''ImplicitThis''"
| "expressionName EK_Unary = ''Unary''"
| "expressionName EK_Binary = ''Binary''"
| "expressionName EK_Member = ''Member''"
| "expressionName EK_EnumConstant = ''EnumConstant''"
| "expressionName EK_Call = ''Call''"
| "expressionName EK_ConstructorCall = ''ConstructorCall''"
| "expressionName EK_BufferConstructor = ''BufferConstructor''"
| "expressionName EK_BufferLiteral = ''BufferLiteral''"
| "expressionName EK_Null = ''Null''"
| "expressionName EK_ArrayLiteral = ''ArrayLiteral''"
| "expressionName EK_MapLiteral = ''MapLiteral''"
| "expressionName EK_Index = ''Index''"
| "expressionName EK_Slice = ''Slice''"
| "expressionName EK_Cast = ''Cast''"
| "expressionName EK_ObjectCast = ''ObjectCast''"
| "expressionName EK_TypeTest = ''TypeTest''"
| "expressionName EK_TypeOf = ''TypeOf''"
| "expressionName EK_TypeName = ''TypeName''"

text \<open>The line of one node.\<close>

definition expression_line :: "expression_info \<Rightarrow> nat \<Rightarrow> string" where
  "expression_line i depth =
     indent depth @ expressionName (ex_kind i) @
     (if ex_value i \<noteq> [] then '' ['' @ ex_value i @ '']'' else []) @ [newline]"

fun dumpExpression :: "nat \<Rightarrow> expression \<Rightarrow> string" where
  "dumpExpression depth (Expression i l r args) =
     expression_line i depth @
     (case l of None \<Rightarrow> [] | Some e \<Rightarrow> dumpExpression (depth + 1) e) @
     (case r of None \<Rightarrow> [] | Some e \<Rightarrow> dumpExpression (depth + 1) e) @
     concat (map (dumpExpression (depth + 1)) args)"

text \<open>The \<open>switch\<close> of \<open>dumpStatement\<close>.\<close>

definition statement_line :: "statement_info \<Rightarrow> string" where
  "statement_line i =
     (case st_kind i of
        SK_Declaration \<Rightarrow> ''Declaration ['' @ st_declaredType i @ '' '' @ st_name i @ '']''
      | SK_Assignment \<Rightarrow> ''Assignment'' @
          (if st_assignmentOperator i \<noteq> ''='' then '' ['' @ st_assignmentOperator i @ '']'' else [])
      | SK_Print \<Rightarrow> ''Print'' | SK_If \<Rightarrow> ''If'' | SK_While \<Rightarrow> ''While''
      | SK_DoWhile \<Rightarrow> ''Do while'' | SK_Break \<Rightarrow> ''Break'' | SK_Continue \<Rightarrow> ''Continue''
      | SK_ForEach \<Rightarrow>
          (if st_keyName i = [] then ''For each ['' @ st_name i @ '']''
           else ''For each ['' @ st_keyName i @ '', '' @ st_name i @ '']'')
      | SK_Block \<Rightarrow> ''Block'' | SK_Return \<Rightarrow> ''Return''
      | SK_Expression \<Rightarrow> ''Expression statement''
      | SK_SuperConstructorCall \<Rightarrow>
          (if st_virtualBaseInitializer i then ''Super virtual constructor [''
           else ''Super constructor ['') @ st_name i @ '']''
      | SK_Raise \<Rightarrow> ''Raise'' | SK_Try \<Rightarrow> ''Try'' | SK_InlineC \<Rightarrow> ''Inline C'') @ [newline]"

definition handler_line :: "handler_info \<Rightarrow> string" where
  "handler_line h = ''Except'' @
     (if eh_exceptionType h \<noteq> [] then '' ['' @ eh_exceptionType h @ '']'' else []) @
     (if eh_hasBinding h then '' as ['' @ eh_name h @ '']'' else []) @ [newline]"

fun dumpStatement :: "nat \<Rightarrow> statement \<Rightarrow> string"
  and dumpHandler :: "nat \<Rightarrow> exception_handler \<Rightarrow> string" where
  "dumpStatement depth (Statement i b a c hs) =
     indent depth @ statement_line i @
     (case st_target i of None \<Rightarrow> [] | Some e \<Rightarrow> dumpExpression (depth + 1) e) @
     concat (map (dumpExpression (depth + 1)) (st_expressions i)) @
     concat (map (dumpStatement (depth + 1)) b) @
     (if st_kind i = SK_Try then concat (map (dumpHandler depth) hs)
      else if st_hasAlternate i then
        indent (depth + 1) @ ''Else'' @ [newline] @ concat (map (dumpStatement (depth + 2)) a)
      else []) @
     (if st_hasCleanup i then
        indent (depth + 1) @ ''Finally'' @ [newline] @ concat (map (dumpStatement (depth + 2)) c)
      else [])"
| "dumpHandler depth (ExceptionHandler h b) =
     indent (depth + 1) @ handler_line h @ concat (map (dumpStatement (depth + 2)) b)"

definition dumpStatements :: "statement list \<Rightarrow> nat \<Rightarrow> string" where
  "dumpStatements statements depth = concat (map (dumpStatement depth) statements)"

definition dump_import :: "import_declaration \<Rightarrow> string" where
  "dump_import i = indent 1 @ ''Import ['' @ im_moduleName i @
     (if im_alias i \<noteq> [] then '' as '' @ im_alias i else []) @ '']'' @ [newline]"

definition dump_namespace :: "namespace_declaration \<Rightarrow> string" where
  "dump_namespace n = indent 1 @ ''Namespace ['' @ join_with ''.'' (ns_path n) @ '']'' @ [newline]"

definition dump_out_of_line :: "out_of_line_method \<Rightarrow> string" where
  "dump_out_of_line d = indent 1 @ ''Out-of-line method ['' @ ol_className d @ ''.'' @
     me_returnType (ol_method d) @ '' '' @ me_name (ol_method d) @ ''('' @
     join_with '', '' (map (\<lambda>p. pa_type p @ '' '' @ pa_name p) (me_parameters (ol_method d))) @ '')'' @
     (if me_externalBinding (ol_method d)
      then '' from '' @ [CHR 0x22] @ me_externalSymbol (ol_method d) @ [CHR 0x22] else []) @
     '']'' @ [newline]"

fun access_word :: "access_level \<Rightarrow> string" where
  "access_word Public = ''public ''"
| "access_word Protected = ''protected ''"
| "access_word Private = ''private ''"

text \<open>\<open>operator<<\<close> on \<open>std::int64_t\<close>.\<close>

definition print_int64 :: "64 word \<Rightarrow> string" where
  "print_int64 w = (if sint w < 0 then ''-'' @ to_string (nat (- sint w)) else to_string (nat (sint w)))"

definition dump_class :: "class_declaration \<Rightarrow> string" where
  "dump_class d = (if cl_builtin d then [] else
     indent 1 @ ''Class ['' @ cl_name d @
     (if cl_baseClassNames d \<noteq> [] then '' : '' @
        join_with '', '' (map (\<lambda>index. access_word (cl_baseAccess d ! index) @
          (if cl_baseVirtual d ! index then ''virtual '' else []) @ cl_baseClassNames d ! index)
          [0..<length (cl_baseClassNames d)])
      else []) @ '']'' @ [newline] @
     concat (map (\<lambda>f. indent 2 @ ''Field ['' @ fd_type f @ '' '' @ fd_name f @ '']'' @ [newline])
       (cl_fields d)) @
     concat (map (\<lambda>m. indent 2 @ ''Enum member ['' @ em_name m @
         (case em_value m of None \<Rightarrow> [] | Some v \<Rightarrow> '' = '' @ print_int64 v) @ '']'' @ [newline])
       (cl_enumMembers d)) @
     concat (map (\<lambda>m. indent 2 @
         (if me_constructor m then ''Constructor [''
          else if me_declarationOnly m then ''Method declaration ['' else ''Method ['') @
         me_returnType m @ '' '' @ me_name m @ '']'' @ [newline] @ dumpStatements (me_body m) 3)
       (cl_methods d)))"

definition dumpAst :: "program \<Rightarrow> string" where
  "dumpAst p = ''Program'' @ [newline] @
     concat (map dump_import (pr_imports p)) @ concat (map dump_namespace (pr_namespaces p)) @
     concat (map dump_out_of_line (pr_outOfLineMethods p)) @
     concat (map dump_class (pr_classes p)) @ dumpStatements (pr_statements p) 1"

subsection \<open>Properties\<close>

text \<open>The copy of an expression equals it, in every field and every child.\<close>

theorem cloneExpression_identity: "cloneExpression e = e"
proof (induction e)
  case (Expression i l r args)
  have "map_option cloneExpression l = l" using Expression(1) by (cases l) auto
  moreover have "map_option cloneExpression r = r" using Expression(2) by (cases r) auto
  moreover have "map cloneExpression args = args" using Expression(3) by (simp add: map_idI)
  ultimately show ?case by simp
qed

text \<open>The nodes of a tree with their depths, a parent before its children.\<close>

fun preorder :: "nat \<Rightarrow> expression \<Rightarrow> (expression_info \<times> nat) list" where
  "preorder d (Expression i l r args) =
     (i, d) # (case l of None \<Rightarrow> [] | Some e \<Rightarrow> preorder (d + 1) e) @
       (case r of None \<Rightarrow> [] | Some e \<Rightarrow> preorder (d + 1) e) @ concat (map (preorder (d + 1)) args)"

lemma concat_map_concat: "concat (map f (concat xss)) = concat (map (\<lambda>xs. concat (map f xs)) xss)"
  by (induction xss) auto

text \<open>The dump of an expression is one line per node, in preorder, each indented by its
  depth in the tree.\<close>

theorem dumpExpression_preorder:
  "dumpExpression d e = concat (map (\<lambda>(i, k). expression_line i k) (preorder d e))"
proof (induction d e rule: dumpExpression.induct)
  case (1 d i l r args)
  then have "map (dumpExpression (d + 1)) args =
      map (\<lambda>a. concat (map (\<lambda>(i, k). expression_line i k) (preorder (d + 1) a))) args"
    by simp
  then have "concat (map (dumpExpression (d + 1)) args) =
      concat (map (\<lambda>(i, k). expression_line i k) (concat (map (preorder (d + 1)) args)))"
    by (simp only: concat_map_concat map_map comp_def)
  with 1 show ?case by (auto split: option.splits)
qed

end
