(* ===== verification/Callback_Type.thy ===== *)
theory Callback_Type
  imports Lexer Ast Prefix_Code "HOL-Library.Word"
begin

text \<open>
  Callback types as strings (\<open>include/cwhip/CallbackType.hpp\<close>): building one from a
  result and parameter types, and taking it apart again. The counter \<open>depth\<close> is a
  \<open>std::size_t\<close>, so \<open>--depth\<close> at 0 wraps.
\<close>

definition callback_prefix :: string where
  "callback_prefix = ''callback<''"

definition isCallbackType :: "string \<Rightarrow> bool" where
  "isCallbackType type \<longleftrightarrow> take 9 type = callback_prefix"

record callback_signature =
  cs_result :: string
  cs_parameters :: "string list"

text \<open>The first loop of \<open>callbackSignature\<close>.\<close>

function find_open :: "string \<Rightarrow> nat \<Rightarrow> 64 word \<Rightarrow> nat" where
  "find_open type open depth =
     (if open < length type then
        if type ! open = CHR ''<'' then find_open type (open + 1) (depth + 1)
        else if type ! open = CHR ''>'' then find_open type (open + 1) (depth - 1)
        else if type ! open = CHR ''('' \<and> depth = 0 then open
        else find_open type (open + 1) depth
      else open)"
  by pat_completeness auto
termination by (relation "measure (\<lambda>(t, i, d). length t - i)") auto

declare find_open.simps [simp del]

text \<open>The second loop: the start of the last parameter and the parameters before it.\<close>

function split_parameters ::
  "string \<Rightarrow> nat \<Rightarrow> nat \<Rightarrow> 64 word \<Rightarrow> string list \<Rightarrow> nat \<times> string list" where
  "split_parameters type index first depth parameters =
     (if index + 2 < length type then
        if type ! index = CHR ''<'' then
          split_parameters type (index + 1) first (depth + 1) parameters
        else if type ! index = CHR ''>'' then
          split_parameters type (index + 1) first (depth - 1) parameters
        else if type ! index = CHR '','' \<and> depth = 0 then
          split_parameters type (index + 1) (index + 1) depth
            (parameters @ [substr type first (index - first)])
        else split_parameters type (index + 1) first depth parameters
      else (first, parameters))"
  by pat_completeness auto
termination by (relation "measure (\<lambda>(t, i, f, d, p). length t - i)") auto

declare split_parameters.simps [simp del]

text \<open>
  The callers test \<open>isCallbackType\<close> first, so the text has at least 9 characters and
  neither \<open>substr(9, ...)\<close> nor \<open>type.size() - 2\<close> is out of range.
\<close>

definition callbackSignature :: "string \<Rightarrow> callback_signature" where
  "callbackSignature type =
     (let open = find_open type 9 0;
          result = substr type 9 (open - 9);
          (first, parameters) = split_parameters type (open + 1) (open + 1) 0 []
      in \<lparr>cs_result = result,
          cs_parameters =
            (if first < length type - 2
             then parameters @ [substr type first (length type - 2 - first)] else parameters)\<rparr>)"

definition callbackType :: "string \<Rightarrow> string list \<Rightarrow> string" where
  "callbackType result parameters =
     callback_prefix @ result @ ''('' @ join_with '','' parameters @ '')>''"

definition callbackType_method :: "method_declaration \<Rightarrow> string" where
  "callbackType_method method = callbackType (me_returnType method) (map pa_type (me_parameters method))"

definition hex_digit :: "nat \<Rightarrow> char" where
  "hex_digit n = ''0123456789abcdef'' ! n"

definition hex_pair :: "char \<Rightarrow> string" where
  "hex_pair c = [hex_digit (byte c div 16), hex_digit (byte c mod 16)]"

definition callbackSymbol :: "string \<Rightarrow> string" where
  "callbackSymbol type = ''cwhip_callback_'' @ concat (map hex_pair type)"

subsection \<open>Well-formed type names\<close>

text \<open>A dotted path of identifiers (the primitive names among them), or a callback type.\<close>

definition simple_name :: "string \<Rightarrow> bool" where
  "simple_name w \<longleftrightarrow> w \<noteq> [] \<and> \<not> is_digit (hd w) \<and>
     list_all (\<lambda>c. isIdentifierPart c \<or> c = CHR ''.'') w"

inductive type_name :: "string \<Rightarrow> bool" where
  type_name_simple: "simple_name w \<Longrightarrow> type_name w"
| type_name_callback: "type_name r \<Longrightarrow> list_all type_name ps \<Longrightarrow> type_name (callbackType r ps)"

text \<open>
  The nesting of angle brackets along a text, started at \<open>d\<close>: it may not fall below
  \<open>b\<close>, and a separator may not stand at nesting 0.
\<close>

fun scan_depth :: "nat \<Rightarrow> nat \<Rightarrow> string \<Rightarrow> nat option" where
  "scan_depth b d [] = Some d"
| "scan_depth b d (c # w) =
     (if c = CHR ''<'' then scan_depth b (d + 1) w
      else if c = CHR ''>'' then (if d \<le> b then None else scan_depth b (d - 1) w)
      else if c \<in> set ''(,)'' \<and> d = 0 then None else scan_depth b d w)"

lemma scan_depth_append:
  "scan_depth b d (u @ v) = (case scan_depth b d u of None \<Rightarrow> None | Some d' \<Rightarrow> scan_depth b d' v)"
  by (induction u arbitrary: d) (auto split: option.splits)

lemma scan_depth_plain:
  "\<forall>c \<in> set w. c \<notin> set ''<>(,)'' \<Longrightarrow> scan_depth b d w = Some d"
  by (induction w) auto

lemma simple_name_chars: "simple_name w \<Longrightarrow> \<forall>c \<in> set w. c \<notin> set ''<>(,)$''"
  by (auto simp: simple_name_def list_all_iff isIdentifierPart_def isIdentifierStart_def
      char_class_defs)

lemma scan_depth_join:
  "list_all (\<lambda>p. scan_depth b (Suc d) p = Some (Suc d)) ps
    \<Longrightarrow> scan_depth b (Suc d) (join_with '','' ps) = Some (Suc d)"
  by (induction "'',''" ps rule: join_with.induct) (simp_all add: scan_depth_append)

lemma scan_depth_type: "type_name w \<Longrightarrow> b \<le> d \<Longrightarrow> scan_depth b d w = Some d"
proof (induction arbitrary: d rule: type_name.induct)
  case (type_name_simple w)
  then show ?case using simple_name_chars [of w] by (intro scan_depth_plain) auto
next
  case (type_name_callback r ps)
  then have "scan_depth b (Suc d) (join_with '','' ps) = Some (Suc d)"
    by (intro scan_depth_join) (simp add: list_all_iff)
  with type_name_callback show ?case
    by (simp add: callbackType_def callback_prefix_def scan_depth_append)
qed

lemma type_name_nonempty: "type_name w \<Longrightarrow> w \<noteq> []"
  by (induction rule: type_name.induct) (auto simp: simple_name_def callbackType_def)

subsection \<open>Building and taking apart\<close>

lemma nth_of_drop: "drop i w = c # v \<Longrightarrow> i < length w \<and> w ! i = c \<and> drop (Suc i) w = v"
  by (metis Cons_nth_drop_Suc drop_eq_Nil2 list.inject list.simps(3) not_le)

lemma of_nat_depth: "0 < d \<Longrightarrow> d < 2 ^ 64 \<Longrightarrow> (of_nat d :: 64 word) \<noteq> 0"
proof
  assume d: "0 < d" "d < 2 ^ 64" and "(of_nat d :: 64 word) = 0"
  then have "unat (of_nat d :: 64 word) = 0" by simp
  with d show False by (simp add: unat_of_nat)
qed

lemma of_nat_pred: "0 < d \<Longrightarrow> (of_nat d :: 64 word) - 1 = of_nat (d - 1)"
  by (cases d) simp_all

text \<open>The two loops pass over a text whose brackets are balanced.\<close>

lemma find_open_scan:
  "scan_depth 0 d u = Some d' \<Longrightarrow> drop i w = u @ v \<Longrightarrow> d + length u < 2 ^ 64 \<Longrightarrow>
     find_open w i (of_nat d) = find_open w (i + length u) (of_nat d')"
proof (induction u arbitrary: d i)
  case (Cons c u)
  from Cons.prems(2) have i: "i < length w" "w ! i = c" "drop (Suc i) w = u @ v"
    by (auto dest: nth_of_drop)
  have "find_open w i (of_nat d) = find_open w (Suc i)
      (if c = CHR ''<'' then of_nat (d + 1) else if c = CHR ''>'' then of_nat (d - 1) else of_nat d)"
    using Cons.prems i of_nat_depth [of d] of_nat_pred [of d]
    by (subst find_open.simps) (auto simp: add.commute split: if_splits)
  moreover have "find_open w (Suc i)
      (of_nat (if c = CHR ''<'' then d + 1 else if c = CHR ''>'' then d - 1 else d)) =
      find_open w (Suc i + length u) (of_nat d')"
    using Cons.prems i by (intro Cons.IH) (auto split: if_splits)
  ultimately show ?case by (simp split: if_splits)
qed simp

lemma split_parameters_scan:
  "scan_depth 0 d u = Some d' \<Longrightarrow> drop i w = u @ v \<Longrightarrow> d + length u < 2 ^ 64 \<Longrightarrow> 2 \<le> length v \<Longrightarrow>
     split_parameters w i first (of_nat d) acc =
     split_parameters w (i + length u) first (of_nat d') acc"
proof (induction u arbitrary: d i)
  case (Cons c u)
  from Cons.prems(2) have i: "i < length w" "w ! i = c" "drop (Suc i) w = u @ v"
    by (auto dest: nth_of_drop)
  have "length (drop (Suc i) w) \<ge> 2" using i(3) Cons.prems(4) by simp
  then have i2: "i + 2 < length w" by simp
  have "split_parameters w i first (of_nat d) acc = split_parameters w (Suc i) first
      (if c = CHR ''<'' then of_nat (d + 1) else if c = CHR ''>'' then of_nat (d - 1) else of_nat d) acc"
    using Cons.prems i i2 of_nat_depth [of d] of_nat_pred [of d]
    by (subst split_parameters.simps) (auto simp: add.commute split: if_splits)
  moreover have "split_parameters w (Suc i) first
      (of_nat (if c = CHR ''<'' then d + 1 else if c = CHR ''>'' then d - 1 else d)) acc =
      split_parameters w (Suc i + length u) first (of_nat d') acc"
    using Cons.prems i by (intro Cons.IH) (auto split: if_splits)
  ultimately show ?case by (simp split: if_splits)
qed simp

lemma split_parameters_end:
  "length w \<le> i + 2 \<Longrightarrow> split_parameters w i first d acc = (first, acc)"
  by (subst split_parameters.simps) simp

lemma substr_drop: "drop i w = u @ v \<Longrightarrow> substr w i (length u) = u"
  by (simp add: substr_def)

lemma split_parameters_types:
  assumes "ps \<noteq> []" "list_all type_name ps" "length w < 2 ^ 64"
    and "drop i w = join_with '','' ps @ '')>''"
  shows "\<exists>f. split_parameters w i i 0 acc = (f, acc @ butlast ps) \<and> f < length w - 2 \<and>
     drop f w = last ps @ '')>''"
  using assms
proof (induction "'',''" ps arbitrary: i acc rule: join_with.induct)
  case (2 p)
  from 2 have p: "scan_depth 0 0 p = Some 0" "p \<noteq> []"
    by (simp_all add: scan_depth_type type_name_nonempty)
  have "length (drop i w) = length p + 2" using 2 by simp
  then have len: "length w = i + length p + 2" using p(2) by (cases "i \<le> length w") auto
  have "split_parameters w i i 0 acc = split_parameters w (i + length p) i 0 acc"
    using split_parameters_scan [of 0 p 0 i w "'')>''" i acc] p 2 len by simp
  with len 2 p(2) show ?case by (simp add: split_parameters_end)
next
  case (3 p q ps)
  let ?v = "join_with '','' (q # ps) @ '')>''"
  from 3 have p: "scan_depth 0 0 p = Some 0" by (simp add: scan_depth_type)
  have d: "drop i w = p @ '','' @ ?v" using 3 by simp
  then have "length (drop i w) = length p + 1 + length ?v" by simp
  then have len: "length w = i + length p + 1 + length ?v" by (cases "i \<le> length w") auto
  have "drop (i + length p) w = drop (length p) (drop i w)" by (simp add: add.commute)
  also have "\<dots> = '','' @ ?v" using d by simp
  finally have d1: "drop (i + length p) w = CHR '','' # ?v" by simp
  then have d2: "drop (i + length p + 1) w = ?v" by (auto dest: nth_of_drop)
  have "split_parameters w i i 0 acc = split_parameters w (i + length p) i 0 acc"
    using split_parameters_scan [of 0 p 0 i w "'','' @ ?v" i acc] p d len 3(4) by simp
  also have "\<dots> = split_parameters w (i + length p + 1) (i + length p + 1) 0 (acc @ [p])"
    using len nth_of_drop [OF d1] substr_drop [OF d]
    by (subst split_parameters.simps) simp
  finally show ?case
    using 3(1) [of "i + length p + 1" "acc @ [p]"] 3 d2 by simp
qed simp

lemma signature_of_callback:
  assumes "type_name r" "list_all type_name ps" "length (callbackType r ps) < 2 ^ 64"
  shows "isCallbackType (callbackType r ps) \<and>
     callbackSignature (callbackType r ps) = \<lparr>cs_result = r, cs_parameters = ps\<rparr>"
proof -
  let ?w = "callbackType r ps"
  have w: "?w = callback_prefix @ r @ ''('' @ join_with '','' ps @ '')>''" by (simp add: callbackType_def)
  have n: "length callback_prefix = 9" by (simp add: callback_prefix_def)
  have cb: "isCallbackType ?w" using n by (simp add: isCallbackType_def w)
  have d9: "drop 9 ?w = r @ ''('' @ join_with '','' ps @ '')>''" using n by (simp add: w)
  have "find_open ?w 9 0 = find_open ?w (9 + length r) 0"
    using find_open_scan [of 0 r 0 9 ?w] scan_depth_type [OF assms(1), of 0 0] d9 assms(3)
    by (simp add: w)
  also have "\<dots> = 9 + length r"
    using n by (subst find_open.simps) (simp add: w nth_append)
  finally have o: "find_open ?w 9 0 = 9 + length r" .
  have rr: "substr ?w 9 (length r) = r" by (rule substr_drop [OF d9])
  have d1: "drop (10 + length r) ?w = join_with '','' ps @ '')>''" using n by (simp add: w)
  have "callbackSignature ?w = \<lparr>cs_result = r, cs_parameters = ps\<rparr>"
  proof (cases "ps = []")
    case True
    then have "length ?w = 12 + length r" using n by (simp add: callbackType_def)
    then show ?thesis
      using o rr True by (simp add: callbackSignature_def split_parameters_end)
  next
    case False
    obtain f where f: "split_parameters ?w (10 + length r) (10 + length r) 0 [] = (f, butlast ps)"
        "f < length ?w - 2" "drop f ?w = last ps @ '')>''"
      using split_parameters_types [OF False assms(2,3) d1, of "[]"] by auto
    have "length (drop f ?w) = length (last ps) + 2" using f(3) by simp
    with f(2) have "length ?w - 2 - f = length (last ps)" by simp
    then have "substr ?w f (length ?w - 2 - f) = last ps" using f(3) by (simp add: substr_def)
    with o rr f False show ?thesis by (simp add: callbackSignature_def)
  qed
  with cb show ?thesis by simp
qed

text \<open>Taking apart a callback type built from well-formed types gives back its result and
  its parameters, nested callback types included.\<close>

theorem callbackSignature_callbackType:
  assumes "type_name r" "list_all type_name ps" "length (callbackType r ps) < 2 ^ 64"
  shows "isCallbackType (callbackType r ps) \<and>
     callbackSignature (callbackType r ps) = \<lparr>cs_result = r, cs_parameters = ps\<rparr>"
  by (rule signature_of_callback [OF assms])

end
