(* ===== verification/Mangling.thy ===== *)
theory Mangling
  imports Callback_Type Utf8
begin

text \<open>
  The encoding of parameter types in symbols (\<open>include/cwhip/Mangling.hpp\<close>). The codes are
  concatenated without separators; that they can be read back is the contract
  \<open>prefix_code\<close>.
\<close>

definition mangleTypeCode :: "string \<Rightarrow> string" where
  "mangleTypeCode type =
     (if isCallbackType type then callbackSymbol type
      else if type = ''int'' then ''i'' else if type = ''unsigned'' then ''u''
      else if type = ''float'' then ''f'' else if type = ''bool'' then ''b''
      else if type = ''any'' then ''y'' else if type = ''void'' then ''v''
      else if type = ''list'' then ''a'' else if type = ''dict'' then ''m''
      else if type = ''buffer'' then ''B'' else if type = ''handle'' then ''h''
      else ''C'' @ to_string (length type) @ type)"

definition mangleArgumentTypes :: "string list \<Rightarrow> string" where
  "mangleArgumentTypes types = (if types = [] then [] else ''$'' @ concat (map mangleTypeCode types))"

definition mangleParameters :: "parameter list \<Rightarrow> string" where
  "mangleParameters parameters =
     (if parameters = [] then []
      else ''$'' @ concat (map (\<lambda>p. mangleTypeCode (pa_type p)) parameters))"

definition methodSignatureKey :: "method_declaration \<Rightarrow> string" where
  "methodSignatureKey method = me_name method @ mangleParameters (me_parameters method)"

definition readableSignature :: "method_declaration \<Rightarrow> string" where
  "readableSignature method =
     me_name method @ ''('' @ join_with '', '' (map pa_type (me_parameters method)) @ '')''"

definition sameParameterTypes :: "method_declaration \<Rightarrow> method_declaration \<Rightarrow> bool" where
  "sameParameterTypes l r \<longleftrightarrow>
     length (me_parameters l) = length (me_parameters r) \<and>
     list_all (\<lambda>index. pa_type (me_parameters l ! index) = pa_type (me_parameters r ! index))
       [0..<length (me_parameters l)]"

subsection \<open>The code of a type is self-delimiting\<close>

lemma hex_digit_inject: "m < 16 \<Longrightarrow> n < 16 \<Longrightarrow> hex_digit m = hex_digit n \<longleftrightarrow> m = n"
proof -
  have "distinct ''0123456789abcdef''" by simp
  then show "m < 16 \<Longrightarrow> n < 16 \<Longrightarrow> hex_digit m = hex_digit n \<longleftrightarrow> m = n"
    by (simp add: hex_digit_def nth_eq_iff_index_eq)
qed

lemma hex_pair_inject: "hex_pair c @ x = hex_pair d @ y \<longleftrightarrow> c = d \<and> x = y"
proof -
  have b: "byte e div 16 < 16" "byte e mod 16 < 16" for e
    using byte_less_256 [of e] by (simp_all add: less_mult_imp_div_less)
  have "byte c = byte d" if "byte c div 16 = byte d div 16" "byte c mod 16 = byte d mod 16"
    using that by (metis div_mult_mod_eq)
  then have "byte c div 16 = byte d div 16 \<and> byte c mod 16 = byte d mod 16 \<longleftrightarrow> c = d"
    by auto
  then show ?thesis by (auto simp: hex_pair_def hex_digit_inject b)
qed

lemma hex_pairs_prefix:
  "concat (map hex_pair t) @ x = concat (map hex_pair u) @ y \<Longrightarrow> \<exists>s. u = t @ s \<or> t = u @ s"
proof (induction t arbitrary: u)
  case (Cons c t)
  show ?case
  proof (cases u)
    case (Cons d u')
    with Cons.prems have "c = d" "concat (map hex_pair t) @ x = concat (map hex_pair u') @ y"
      by (simp_all add: hex_pair_inject)
    with Cons.IH Cons show ?thesis by auto
  qed simp
qed auto

text \<open>Between its angle brackets a callback type is balanced, so none is a proper prefix of
  another.\<close>

lemma isCallbackType_text:
  assumes "type_name t" "isCallbackType t"
  shows "\<exists>m. t = callback_prefix @ m @ ''>'' \<and> scan_depth 1 1 m = Some 1"
  using assms
proof (cases rule: type_name.cases)
  case type_name_simple
  then have "CHR ''<'' \<notin> set t" using simple_name_chars [of t] by auto
  moreover have "CHR ''<'' \<in> set (take 9 t)"
    using assms(2) by (simp add: isCallbackType_def callback_prefix_def)
  ultimately show ?thesis by (meson in_set_takeD)
next
  case (type_name_callback r ps)
  have "scan_depth 1 1 (join_with '','' ps) = Some 1"
    using scan_depth_join [of 1 0 ps] type_name_callback(3)
    by (simp add: list_all_iff scan_depth_type)
  with type_name_callback show ?thesis
    by (intro exI [of _ "r @ ''('' @ join_with '','' ps @ '')''"])
      (simp add: callbackType_def scan_depth_append scan_depth_type)
qed

lemma callback_not_prefix:
  assumes "type_name t" "isCallbackType t" "type_name u" "isCallbackType u" "u = t @ s"
  shows "s = []"
proof (rule ccontr)
  assume "s \<noteq> []"
  then obtain s' c where s: "s = s' @ [c]" by (cases s rule: rev_cases) auto
  obtain m n where m: "t = callback_prefix @ m @ ''>''" "scan_depth 1 1 m = Some 1"
    and n: "u = callback_prefix @ n @ ''>''" "scan_depth 1 1 n = Some 1"
    using assms isCallbackType_text by metis
  from m n assms(5) s have "n = m @ ''>'' @ s'" by simp
  with m n show False by (simp add: scan_depth_append)
qed

lemma takeWhile_digits:
  "\<not> is_digit (hd (w @ x)) \<Longrightarrow> w \<noteq> [] \<Longrightarrow>
     takeWhile is_digit (to_string n @ w @ x) = to_string n \<and>
     dropWhile is_digit (to_string n @ w @ x) = w @ x"
  using to_string_digits [of _ n] by (cases w) (simp_all add: takeWhile_append dropWhile_append)

definition class_code :: "string \<Rightarrow> string" where
  "class_code type = ''C'' @ to_string (length type) @ type"

lemma class_code_prefix_free:
  assumes "simple_name t" "simple_name u" "class_code t @ x = class_code u @ y"
  shows "t = u"
proof -
  have t: "t \<noteq> []" "\<not> is_digit (hd (t @ x))" and u: "u \<noteq> []" "\<not> is_digit (hd (u @ y))"
    using assms(1,2) by (auto simp: simple_name_def)
  have eq: "to_string (length t) @ t @ x = to_string (length u) @ u @ y"
    using assms(3) by (simp add: class_code_def)
  then have "to_string (length t) = to_string (length u)" "t @ x = u @ y"
    using takeWhile_digits [OF t(2,1), of "length t"] takeWhile_digits [OF u(2,1), of "length u"]
    by metis+
  then show ?thesis by (simp add: to_string_inject)
qed

definition primitive_codes :: "(string \<times> string) list" where
  "primitive_codes =
    [(''int'', ''i''), (''unsigned'', ''u''), (''float'', ''f''), (''bool'', ''b''), (''any'', ''y''),
     (''void'', ''v''), (''list'', ''a''), (''dict'', ''m''), (''buffer'', ''B''), (''handle'', ''h'')]"

lemma primitive_not_callback: "(t, c) \<in> set primitive_codes \<Longrightarrow> \<not> isCallbackType t"
  by (auto simp: primitive_codes_def isCallbackType_def callback_prefix_def)

lemma mangleTypeCode_cases:
  assumes "type_name t"
  obtains (callback) "isCallbackType t" "mangleTypeCode t = callbackSymbol t"
  | (primitive) "(t, mangleTypeCode t) \<in> set primitive_codes"
  | (class_name) "simple_name t" "mangleTypeCode t = class_code t"
proof (cases "isCallbackType t")
  case True
  then show thesis by (intro callback) (simp_all add: mangleTypeCode_def)
next
  case False
  with assms have s: "simple_name t"
    by (cases rule: type_name.cases)
      (auto simp: isCallbackType_def callbackType_def callback_prefix_def)
  show thesis
  proof (cases "t \<in> fst ` set primitive_codes")
    case True
    with False show thesis
      by (intro primitive) (auto simp: primitive_codes_def mangleTypeCode_def)
  next
    case new: False
    with False s show thesis
      by (intro class_name) (simp_all add: primitive_codes_def mangleTypeCode_def class_code_def)
  qed
qed

lemma callbackSymbol_prefix_free:
  assumes "type_name t" "isCallbackType t" "type_name u" "isCallbackType u"
    and "callbackSymbol t @ x = callbackSymbol u @ y"
  shows "t = u"
proof -
  have "concat (map hex_pair t) @ x = concat (map hex_pair u) @ y"
    using assms(5) by (simp add: callbackSymbol_def)
  then obtain s where "u = t @ s \<or> t = u @ s" using hex_pairs_prefix by blast
  with assms(1-4) callback_not_prefix show ?thesis by (metis append_Nil2)
qed

text \<open>The first character tells the three kinds of codes apart.\<close>

definition code_class :: "string \<Rightarrow> nat" where
  "code_class c = (if c \<noteq> [] \<and> hd c = CHR ''C'' then 0 else if c \<noteq> [] \<and> hd c = CHR ''c'' then 1 else 2)"

lemma code_class_simps [simp]:
  "code_class (class_code t @ x) = 0" "code_class (callbackSymbol t @ x) = 1"
  by (simp_all add: code_class_def class_code_def callbackSymbol_def)

lemma code_class_primitive: "(t, c) \<in> set primitive_codes \<Longrightarrow> code_class (c @ x) = 2"
  by (auto simp: primitive_codes_def code_class_def)

lemma primitive_prefix_free:
  assumes "(t, c) \<in> set primitive_codes" "(u, c') \<in> set primitive_codes" "c @ x = c' @ y"
  shows "t = u"
proof -
  have "list_all (\<lambda>p. length (snd p) = 1) primitive_codes" by (simp add: primitive_codes_def)
  then have "length c = 1" "length c' = 1" using assms(1,2) by (force simp: list_all_iff)+
  with assms(3) have "c = c'" by simp
  moreover have "distinct (map snd primitive_codes)" by (simp add: primitive_codes_def)
  then have "inj_on snd (set primitive_codes)" by (simp add: distinct_map)
  ultimately have "(t, c) = (u, c')" using assms(1,2) by (intro inj_onD [of snd]) auto
  then show ?thesis by simp
qed

lemma mangleTypeCode_class:
  assumes "type_name t"
  shows "code_class (mangleTypeCode t @ x) = 0 \<Longrightarrow> simple_name t \<and> mangleTypeCode t = class_code t"
    and "code_class (mangleTypeCode t @ x) = 1 \<Longrightarrow> isCallbackType t \<and> mangleTypeCode t = callbackSymbol t"
    and "code_class (mangleTypeCode t @ x) = 2 \<Longrightarrow> (t, mangleTypeCode t) \<in> set primitive_codes"
  using assms by (cases rule: mangleTypeCode_cases; simp add: code_class_primitive)+

lemma code_class_bound: "code_class c = 0 \<or> code_class c = 1 \<or> code_class c = 2"
  by (simp add: code_class_def)

lemma mangleTypeCode_prefix_free:
  assumes "type_name t" "type_name u" "mangleTypeCode t @ x = mangleTypeCode u @ y"
  shows "t = u"
proof -
  consider "code_class (mangleTypeCode t @ x) = 0" | "code_class (mangleTypeCode t @ x) = 1"
    | "code_class (mangleTypeCode t @ x) = 2"
    using code_class_bound [of "mangleTypeCode t @ x"] by metis
  then show ?thesis
  proof cases
    case 1
    then have "simple_name t" "mangleTypeCode t = class_code t" "simple_name u"
        "mangleTypeCode u = class_code u"
      using assms mangleTypeCode_class(1) by (metis assms(3))+
    with assms(3) class_code_prefix_free show ?thesis by metis
  next
    case 2
    then have "isCallbackType t" "mangleTypeCode t = callbackSymbol t" "isCallbackType u"
        "mangleTypeCode u = callbackSymbol u"
      using assms mangleTypeCode_class(2) by (metis assms(3))+
    with assms callbackSymbol_prefix_free show ?thesis by metis
  next
    case 3
    then have "(t, mangleTypeCode t) \<in> set primitive_codes" "(u, mangleTypeCode u) \<in> set primitive_codes"
      using assms mangleTypeCode_class(3) by (metis assms(3))+
    with assms(3) primitive_prefix_free show ?thesis by metis
  qed
qed

lemma mangleTypeCode_nonempty: "mangleTypeCode t \<noteq> []"
  by (simp add: mangleTypeCode_def callbackSymbol_def)

interpretation type_code: prefix_code type_name mangleTypeCode
  by unfold_locales (auto simp: mangleTypeCode_nonempty intro: mangleTypeCode_prefix_free)

subsection \<open>Properties\<close>

lemma encode_types_inject:
  assumes "list_all type_name ts" "list_all type_name us"
  shows "mangleArgumentTypes ts = mangleArgumentTypes us \<longleftrightarrow> ts = us"
  using type_code.codes_inject [OF assms]
  by (cases "ts = []"; cases "us = []") (simp_all add: mangleArgumentTypes_def)

lemma mangleParameters_types: "mangleParameters ps = mangleArgumentTypes (map pa_type ps)"
  by (simp add: mangleParameters_def mangleArgumentTypes_def comp_def)

lemma sameParameterTypes_iff:
  "sameParameterTypes l r \<longleftrightarrow> map pa_type (me_parameters l) = map pa_type (me_parameters r)"
  by (subst list_eq_iff_nth_eq) (auto simp: sameParameterTypes_def list_all_iff)

lemma split_at_mark:
  assumes "c \<notin> set a" "c \<notin> set b" "x = [] \<or> hd x = c" "y = [] \<or> hd y = c"
  shows "a @ x = b @ y \<longleftrightarrow> a = b \<and> x = y"
proof
  have t: "takeWhile (\<lambda>d. d \<noteq> c) (w @ z) = w" if "c \<notin> set w" "z = [] \<or> hd z = c" for w z
    using that by (cases z) (auto simp: takeWhile_append)
  assume "a @ x = b @ y"
  with t [of a x] t [of b y] assms show "a = b \<and> x = y" by simp
qed simp

text \<open>C28: two lists of well-formed types have the same encoding only if they are the same
  list, so the encoding never confuses two overloads.\<close>

theorem mangleArgumentTypes_inject:
  assumes "list_all type_name ts" "list_all type_name us"
  shows "mangleArgumentTypes ts = mangleArgumentTypes us \<longleftrightarrow> ts = us"
  by (rule encode_types_inject [OF assms])

definition well_formed_method :: "method_declaration \<Rightarrow> bool" where
  "well_formed_method m \<longleftrightarrow> CHR ''$'' \<notin> set (me_name m) \<and>
     list_all type_name (map pa_type (me_parameters m))"

lemma method_key_iff:
  assumes "well_formed_method l" "well_formed_method r"
  shows "methodSignatureKey l = methodSignatureKey r \<longleftrightarrow>
     me_name l = me_name r \<and> sameParameterTypes l r"
proof -
  have "methodSignatureKey l = methodSignatureKey r \<longleftrightarrow>
      me_name l = me_name r \<and> mangleParameters (me_parameters l) = mangleParameters (me_parameters r)"
    using assms unfolding methodSignatureKey_def well_formed_method_def
    by (intro split_at_mark) (auto simp: mangleParameters_def)
  also have "\<dots> \<longleftrightarrow> me_name l = me_name r \<and> sameParameterTypes l r"
    using assms by (simp add: mangleParameters_types sameParameterTypes_iff encode_types_inject
        well_formed_method_def)
  finally show ?thesis .
qed

text \<open>Two methods have the same key exactly if they have the same name and the same
  parameter types: the key that the dispatch tables use is the overload.\<close>

theorem methodSignatureKey_iff:
  assumes "well_formed_method l" "well_formed_method r"
  shows "methodSignatureKey l = methodSignatureKey r \<longleftrightarrow>
     me_name l = me_name r \<and> sameParameterTypes l r"
  by (rule method_key_iff [OF assms])

subsection \<open>Instances\<close>

lemma sample_types: "type_name ''int''" "type_name ''a.B''" "type_name (callbackType ''int'' [''a.B''])"
proof -
  have "simple_name ''int''" "simple_name ''a.B''" by code_simp+
  then show a: "type_name ''int''" "type_name ''a.B''" by (simp_all add: type_name_simple)
  from a show "type_name (callbackType ''int'' [''a.B''])" by (intro type_name_callback) simp_all
qed

theorem callbackSignature_callbackType_witness:
  "callbackSignature ''callback<int(callback<int(a.B)>,int)>'' =
     \<lparr>cs_result = ''int'', cs_parameters = [''callback<int(a.B)>'', ''int'']\<rparr>"
  using callbackSignature_callbackType [of "''int''" "[callbackType ''int'' [''a.B''], ''int'']"]
    sample_types by (simp add: callbackType_def callback_prefix_def)

theorem mangleArgumentTypes_inject_witness:
  "mangleArgumentTypes [''int'', ''a.B''] \<noteq> mangleArgumentTypes [callbackType ''int'' [''a.B'']]"
  using mangleArgumentTypes_inject [of "[''int'', ''a.B'']" "[callbackType ''int'' [''a.B'']]"]
    sample_types by simp

theorem methodSignatureKey_iff_witness:
  "methodSignatureKey (default_method\<lparr>me_name := ''f''\<rparr>) \<noteq> methodSignatureKey (default_method
     \<lparr>me_name := ''f'', me_parameters := [\<lparr>pa_type = ''int'', pa_name = ''x'', pa_location = default_location\<rparr>]\<rparr>)"
  by (subst methodSignatureKey_iff)
    (simp_all add: well_formed_method_def default_method_def sameParameterTypes_def sample_types)

end
