(* ===== verification/Format_String.thy ===== *)
theory Format_String
  imports Lexer Ast
begin

text \<open>
  The two checks on finished expressions of \<open>src/Parser.cpp\<close>: the depth of the tree
  (\<open>validateExpressionDepth\<close>) and format strings (\<open>validateFormatString\<close>), which
  splits the template into text segments and placeholders and binds each placeholder to an
  argument.
\<close>

subsection \<open>The depth of an expression tree\<close>

definition maximumNesting :: nat where
  "maximumNesting = 128"

fun first_error :: "('e, unit) result list \<Rightarrow> ('e, unit) result" where
  "first_error [] = Inr ()"
| "first_error (Inl e # rs) = Inl e"
| "first_error (Inr u # rs) = first_error rs"

fun validateExpressionDepth :: "nat \<Rightarrow> expression \<Rightarrow> (diagnostic, unit) result" where
  "validateExpressionDepth depth (Expression i l r args) =
     (if depth > maximumNesting then
        Inl (DiagnosticError (ex_location i) ''expression tree depth exceeds 128'')
      else first_error
        ((case l of None \<Rightarrow> [] | Some e \<Rightarrow> [validateExpressionDepth (depth + 1) e]) @
         (case r of None \<Rightarrow> [] | Some e \<Rightarrow> [validateExpressionDepth (depth + 1) e]) @
         map (validateExpressionDepth (depth + 1)) args))"

declare validateExpressionDepth.simps [simp del]

lemma first_error_Inr: "first_error rs = Inr () \<longleftrightarrow> (\<forall>r \<in> set rs. r = Inr ())"
  by (induction rs rule: first_error.induct) auto

lemma validateExpressionDepth_iff:
  "validateExpressionDepth d e = Inr () \<longleftrightarrow> d + tree_depth e \<le> Suc maximumNesting"
proof (induction d e rule: validateExpressionDepth.induct)
  case (1 d i l r args)
  let ?e = "Expression i l r args"
  show ?case
  proof (cases "d > maximumNesting")
    case True
    then show ?thesis
      using tree_depth_positive [of ?e] by (simp add: validateExpressionDepth.simps)
  next
    case False
    then have "validateExpressionDepth d ?e = Inr () \<longleftrightarrow>
        (\<forall>c \<in> set (children ?e). validateExpressionDepth (d + 1) c = Inr ())"
      by (auto simp: validateExpressionDepth.simps first_error_Inr children_def split: option.splits)
    also have "\<dots> \<longleftrightarrow> (\<forall>c \<in> set (children ?e). d + 1 + tree_depth c \<le> Suc maximumNesting)"
      using 1 False by (intro ball_cong) (auto simp: children_def split: option.splits)
    also have "\<dots> \<longleftrightarrow> tree_depth ?e \<le> Suc (maximumNesting - d)"
      unfolding tree_depth_le using False by (intro ball_cong) auto
    finally show ?thesis using False by auto
  qed
qed

subsection \<open>Placeholders\<close>

text \<open>The loop over the digits of the width: the cursor and the width behind it.\<close>

function width_loop ::
  "source_location \<Rightarrow> string \<Rightarrow> nat \<Rightarrow> nat \<Rightarrow> nat \<Rightarrow> (diagnostic, nat \<times> nat) result" where
  "width_loop location val end' cursor width =
     (if cursor < end' \<and> is_digit (val ! cursor) then
        if width * 10 + digit_value (val ! cursor) > 1000000 then
          Inl (DiagnosticError location ''format width exceeds 1000000'')
        else width_loop location val end' (cursor + 1) (width * 10 + digit_value (val ! cursor))
      else Inr (cursor, width))"
  by pat_completeness auto
termination by (relation "measure (\<lambda>(l, v, e, c, w). e - c)") auto

declare width_loop.simps [simp del]

definition isAlignment :: "char \<Rightarrow> bool" where
  "isAlignment c \<longleftrightarrow> c = CHR ''<'' \<or> c = CHR ''>'' \<or> c = CHR ''^''"

definition isFormatType :: "char \<Rightarrow> bool" where
  "isFormatType c \<longleftrightarrow> c = CHR ''d'' \<or> c = CHR ''x'' \<or> c = CHR ''X'' \<or> c = CHR ''c''"

text \<open>\<open>if (cursor < end && ...) x = value[cursor++]\<close>: the character or \<open>'\0'\<close>, and the cursor.\<close>

definition optional_char :: "(char \<Rightarrow> bool) \<Rightarrow> string \<Rightarrow> nat \<Rightarrow> nat \<Rightarrow> char \<times> nat" where
  "optional_char P val end' cursor =
     (if cursor < end' \<and> P (val ! cursor) then (val ! cursor, cursor + 1) else (nul, cursor))"

definition scan_format_spec ::
  "source_location \<Rightarrow> string \<Rightarrow> nat \<Rightarrow> nat \<Rightarrow> (diagnostic, format_spec) result" where
  "scan_format_spec location val colon end' =
     (case optional_char isAlignment val end' (colon + 1) of (alignment, c1) \<Rightarrow>
        let zeroPad = (c1 < end' \<and> val ! c1 = CHR ''0'')
        in bindE (width_loop location val end' c1 0) (\<lambda>(c2, width).
             case optional_char isFormatType val end' c2 of (type, c3) \<Rightarrow>
               if c3 \<noteq> end' \<or> (zeroPad \<and> (alignment \<noteq> nul \<or> type = CHR ''c'')) then
                 Inl (DiagnosticError location ''invalid format specifier'')
               else Inr \<lparr>fs_type = type, fs_alignment = alignment, fs_zeroPad = zeroPad,
                         fs_width = width\<rparr>))"

text \<open>The name and the specifier between the brace at \<open>index\<close> and the one at \<open>end'\<close>.\<close>

definition scan_placeholder ::
  "source_location \<Rightarrow> string \<Rightarrow> nat \<Rightarrow> nat \<Rightarrow> (diagnostic, string \<times> format_spec) result" where
  "scan_placeholder location val index end' =
     (let colon = (case str_find (CHR '':'') val (index + 1) of None \<Rightarrow> end' | Some c \<Rightarrow> c);
          nameEnd = (if colon < end' then colon else end')
      in if nameEnd \<noteq> index + 1 \<and>
            (\<not> isIdentifierStart (val ! (index + 1)) \<or>
             \<not> list_all isIdentifierPart (substr val (index + 2) (nameEnd - (index + 2)))) then
           Inl (DiagnosticError location ''malformed placeholder name in formatted string'')
         else
           let name = substr val (index + 1) (nameEnd - index - 1)
           in if colon < end' then
                bindE (scan_format_spec location val colon end') (\<lambda>spec. Inr (name, spec))
              else Inr (name, default_format_spec))"

definition closing_brace :: "string \<Rightarrow> nat \<Rightarrow> nat" where
  "closing_brace val index =
     index + 1 + length (takeWhile (\<lambda>c. c \<noteq> CHR ''}'') (drop (index + 1) val))"

record format_parts =
  fp_segments :: "string list"
  fp_specs :: "format_spec list"
  fp_names :: "string list"

function format_scan ::
  "source_location \<Rightarrow> string \<Rightarrow> nat \<Rightarrow> string \<Rightarrow> format_parts \<Rightarrow> (diagnostic, format_parts) result" where
  "format_scan location val index segment parts =
     (if index < length val then
        if val ! index = CHR ''{'' then
          if index + 1 < length val \<and> val ! (index + 1) = CHR ''{'' then
            format_scan location val (index + 2) (segment @ ''{'') parts
          else if closing_brace val index = length val then
            Inl (DiagnosticError location ''unmatched '{' in formatted string'')
          else (case scan_placeholder location val index (closing_brace val index) of
              Inl e \<Rightarrow> Inl e
            | Inr p \<Rightarrow>
                format_scan location val (closing_brace val index + 1) []
                  \<lparr>fp_segments = fp_segments parts @ [segment],
                   fp_specs = fp_specs parts @ [snd p], fp_names = fp_names parts @ [fst p]\<rparr>)
        else if val ! index = CHR ''}'' then
          if index + 1 < length val \<and> val ! (index + 1) = CHR ''}'' then
            format_scan location val (index + 2) (segment @ ''}'') parts
          else Inl (DiagnosticError location ''unmatched '}' in formatted string'')
        else format_scan location val (index + 1) (segment @ [val ! index]) parts
      else Inr (parts\<lparr>fp_segments := fp_segments parts @ [segment]\<rparr>))"
  by pat_completeness auto
termination
  by (relation "measure (\<lambda>(l, v, i, g, p). length v - i)") (auto simp: closing_brace_def)

declare format_scan.simps [simp del]

subsection \<open>Binding placeholders to arguments\<close>

definition find_index :: "'a \<Rightarrow> 'a list \<Rightarrow> nat" where
  "find_index x xs = length (takeWhile (\<lambda>y. y \<noteq> x) xs)"

definition mixedArguments :: string where
  "mixedArguments = ''named and positional format arguments cannot be mixed''"

text \<open>The named case: every argument is used and every placeholder has an argument.\<close>

fun named_indices :: "source_location \<Rightarrow> string list \<Rightarrow> string list \<Rightarrow> (diagnostic, nat list) result" where
  "named_indices location argumentNames [] = Inr []"
| "named_indices location argumentNames (name # names) =
     (if name \<notin> set argumentNames then
        Inl (DiagnosticError location (''missing named format argument '' @ quoted name))
      else bindE (named_indices location argumentNames names)
             (\<lambda>is. Inr (find_index name argumentNames # is)))"

definition bind_named ::
  "expression_info \<Rightarrow> string list \<Rightarrow> (diagnostic, nat list) result" where
  "bind_named i placeholderNames =
     (case find (\<lambda>k. ex_argumentNames i ! k \<notin> set placeholderNames)
             [0..<length (ex_argumentNames i)] of
        Some k \<Rightarrow>
          Inl (DiagnosticError (ex_argumentNameLocations i ! k)
                (''unused named format argument '' @ quoted (ex_argumentNames i ! k)))
      | None \<Rightarrow> named_indices (ex_location i) (ex_argumentNames i) placeholderNames)"

text \<open>
  The second half of \<open>validateFormatString\<close>. A placeholder is named or positional by whether
  its name is empty, which is how the two flags of the code are set.
\<close>

definition bind_placeholders ::
  "expression_info \<Rightarrow> nat \<Rightarrow> string list \<Rightarrow> (diagnostic, nat list) result" where
  "bind_placeholders i argumentCount placeholderNames =
     (let hasPositionalPlaceholder = list_ex (\<lambda>n. n = []) placeholderNames;
          hasNamedPlaceholder = list_ex (\<lambda>n. n \<noteq> []) placeholderNames;
          hasNamedArgument = list_ex (\<lambda>n. n \<noteq> []) (ex_argumentNames i);
          hasPositionalArgument = list_ex (\<lambda>n. n = []) (ex_argumentNames i);
          fail = (\<lambda>l m. Inl (DiagnosticError l m))
      in if hasPositionalPlaceholder \<and> hasNamedPlaceholder then
           fail (ex_location i) ''named and positional placeholders cannot be mixed''
         else if length (ex_argumentNames i) \<noteq> argumentCount \<or>
                 length (ex_argumentNameLocations i) \<noteq> argumentCount then
           fail (ex_location i) ''invalid format argument metadata''
         else if hasNamedArgument \<and> hasPositionalArgument then fail (ex_location i) mixedArguments
         else if hasNamedPlaceholder then
           if hasPositionalArgument then fail (ex_location i) mixedArguments
           else bind_named i placeholderNames
         else if hasNamedArgument then
           let k = length (takeWhile (\<lambda>n. n = []) (ex_argumentNames i))
           in if placeholderNames = [] then
                fail (ex_argumentNameLocations i ! k)
                  (''unused named format argument '' @ quoted (ex_argumentNames i ! k))
              else fail (ex_argumentNameLocations i ! k) mixedArguments
         else if length placeholderNames \<noteq> argumentCount then
           fail (ex_location i) ''formatted string must have one '{}' placeholder per argument''
         else Inr [0..<length placeholderNames])"

definition no_parts :: format_parts where
  "no_parts = \<lparr>fp_segments = [], fp_specs = [], fp_names = []\<rparr>"

fun validateFormatString :: "expression \<Rightarrow> (diagnostic, expression) result" where
  "validateFormatString (Expression i l r args) =
     bindE (format_scan (ex_location i) (ex_value i) 0 [] no_parts) (\<lambda>parts.
     bindE (bind_placeholders i (length args) (fp_names parts)) (\<lambda>indices.
       Inr (Expression
         (i\<lparr>ex_formatSegments := ex_formatSegments i @ fp_segments parts,
            ex_formatSpecs := ex_formatSpecs i @ fp_specs parts,
            ex_formatArgumentIndices := ex_formatArgumentIndices i @ indices\<rparr>) l r args)))"

subsection \<open>What a checked format string promises\<close>

definition spec_ok :: "format_spec \<Rightarrow> bool" where
  "spec_ok spec \<longleftrightarrow> fs_width spec \<le> 1000000 \<and>
     (fs_type spec = nul \<or> isFormatType (fs_type spec)) \<and>
     (fs_alignment spec = nul \<or> isAlignment (fs_alignment spec)) \<and>
     \<not> (fs_zeroPad spec \<and> (fs_alignment spec \<noteq> nul \<or> fs_type spec = CHR ''c''))"

lemma width_loop_bound:
  "width_loop l v e c w = Inr (c', w') \<Longrightarrow> w \<le> 1000000 \<Longrightarrow> w' \<le> 1000000"
proof (induction l v e c w rule: width_loop.induct)
  case (1 l v e c w)
  then show ?case by (subst (asm) (2) width_loop.simps) (auto split: if_splits)
qed

lemma default_spec_ok [simp]: "spec_ok default_format_spec"
  by (simp add: spec_ok_def default_format_spec_def)

lemma optional_char_result: "optional_char P v e c = (x, c') \<Longrightarrow> x = nul \<or> P x"
  by (auto simp: optional_char_def split: if_splits)

lemma scan_format_spec_ok:
  assumes "scan_format_spec l v c e = Inr spec"
  shows "spec_ok spec"
proof -
  obtain a c1 where a: "optional_char isAlignment v e (c + 1) = (a, c1)" by fastforce
  with assms obtain c2 w where w: "width_loop l v e c1 0 = Inr (c2, w)"
    by (cases "width_loop l v e c1 0") (auto simp: scan_format_spec_def Let_def)
  obtain t c3 where t: "optional_char isFormatType v e c2 = (t, c3)" by fastforce
  have "w \<le> 1000000" using width_loop_bound [OF w] by simp
  with assms a w t optional_char_result [OF a] optional_char_result [OF t] show ?thesis
    by (auto simp: scan_format_spec_def Let_def spec_ok_def split: if_splits)
qed

lemma scan_placeholder_ok: "scan_placeholder l v i e = Inr (n, spec) \<Longrightarrow> spec_ok spec"
  by (auto simp: scan_placeholder_def Let_def bindE_Inr_iff dest: scan_format_spec_ok
      split: if_splits)

definition parts_ok :: "format_parts \<Rightarrow> bool" where
  "parts_ok p \<longleftrightarrow> length (fp_specs p) = length (fp_names p) \<and> list_all spec_ok (fp_specs p)"

lemma format_scan_ok:
  "format_scan l v i seg p = Inr p' \<Longrightarrow> parts_ok p \<Longrightarrow> length (fp_segments p) = length (fp_names p) \<Longrightarrow>
     parts_ok p' \<and> length (fp_segments p') = Suc (length (fp_names p'))"
proof (induction l v i seg p rule: format_scan.induct)
  case (1 l v i seg p)
  let ?r = "format_scan l v i seg p"
  consider (stop) "\<not> i < length v"
    | (doubled) "i < length v" "v ! i = CHR ''{''" "i + 1 < length v \<and> v ! (i + 1) = CHR ''{''"
    | (hole) "i < length v" "v ! i = CHR ''{''" "\<not> (i + 1 < length v \<and> v ! (i + 1) = CHR ''{'')"
    | (closing) "i < length v" "v ! i \<noteq> CHR ''{''" "v ! i = CHR ''}''"
    | (other) "i < length v" "v ! i \<noteq> CHR ''{''" "v ! i \<noteq> CHR ''}''"
    by blast
  then show ?case
  proof cases
    case stop
    then have "?r = Inr (p\<lparr>fp_segments := fp_segments p @ [seg]\<rparr>)"
      by (subst format_scan.simps) simp
    with 1(5-7) show ?thesis by (auto simp: parts_ok_def)
  next
    case doubled
    then have "?r = format_scan l v (i + 2) (seg @ ''{'') p"
      by (subst format_scan.simps) (simp only: if_True simp_thms)
    with 1(1) [OF doubled] 1(5-7) show ?thesis by simp
  next
    case hole
    then have r: "?r = (if closing_brace v i = length v then
          Inl (DiagnosticError l ''unmatched '{' in formatted string'')
        else (case scan_placeholder l v i (closing_brace v i) of Inl e \<Rightarrow> Inl e
          | Inr q \<Rightarrow> format_scan l v (closing_brace v i + 1) []
              \<lparr>fp_segments = fp_segments p @ [seg], fp_specs = fp_specs p @ [snd q],
               fp_names = fp_names p @ [fst q]\<rparr>))"
      by (subst format_scan.simps) (simp only: if_True if_False simp_thms)
    with 1(5) have c: "closing_brace v i \<noteq> length v" by auto
    show ?thesis
    proof (cases "scan_placeholder l v i (closing_brace v i)")
      case (Inl e)
      with r c 1(5) show ?thesis by simp
    next
      case (Inr q)
      then have "spec_ok (snd q)" using scan_placeholder_ok [of l v i _ "fst q" "snd q"] by simp
      with Inr r c 1(2) [OF hole c Inr] 1(5-7) show ?thesis by (simp add: parts_ok_def)
    qed
  next
    case closing
    then have "?r = (if i + 1 < length v \<and> v ! (i + 1) = CHR ''}'' then
          format_scan l v (i + 2) (seg @ ''}'') p
        else Inl (DiagnosticError l ''unmatched '}' in formatted string''))"
      by (subst format_scan.simps) simp
    with 1(3) [OF closing] 1(5-7) show ?thesis
      by (cases "i + 1 < length v \<and> v ! (i + 1) = CHR ''}''") auto
  next
    case other
    then have "?r = format_scan l v (i + 1) (seg @ [v ! i]) p"
      by (subst format_scan.simps) (simp only: if_True if_False simp_thms)
    with 1(4) [OF other] 1(5-7) show ?thesis by simp
  qed
qed

lemma find_index_less: "x \<in> set xs \<Longrightarrow> find_index x xs < length xs"
  by (induction xs) (auto simp: find_index_def)

lemma find_index_nth: "distinct xs \<Longrightarrow> k < length xs \<Longrightarrow> find_index (xs ! k) xs = k"
  by (induction xs arbitrary: k) (auto simp: find_index_def nth_Cons split: nat.splits)

lemma named_indices_Inr:
  "named_indices l as ns = Inr ks \<Longrightarrow> ks = map (\<lambda>n. find_index n as) ns \<and> set ns \<subseteq> set as"
  by (induction ns arbitrary: ks) (auto simp: bindE_Inr_iff split: if_splits)

lemma bind_placeholders_Inr:
  assumes "bind_placeholders i n names = Inr ks"
  shows "length ks = length names \<and> (\<forall>k \<in> set ks. k < n) \<and>
    (distinct (filter (\<lambda>n. n \<noteq> []) (ex_argumentNames i)) \<longrightarrow> {..<n} \<subseteq> set ks)"
proof (cases "list_ex (\<lambda>n. n \<noteq> []) names")
  case True
  let ?as = "ex_argumentNames i"
  from assms True have 1: "length ?as = n" "bind_named i names = Inr ks"
      "\<not> list_ex (\<lambda>n. n = []) ?as"
    by (auto simp: bind_placeholders_def Let_def split: if_splits)
  then have used: "\<forall>k < n. ?as ! k \<in> set names" and "named_indices (ex_location i) ?as names = Inr ks"
    by (auto simp: bind_named_def find_None_iff split: option.splits)
  then have ks: "ks = map (\<lambda>n. find_index n ?as) names" "set names \<subseteq> set ?as"
    by (auto dest: named_indices_Inr)
  have "filter (\<lambda>n. n \<noteq> []) ?as = ?as" using 1(3) by (auto simp: list_ex_iff filter_id_conv)
  then have "{..<n} \<subseteq> set ks" if "distinct (filter (\<lambda>n. n \<noteq> []) ?as)"
    using that used ks 1(1) by (force simp: find_index_nth image_iff)
  with ks 1(1) show ?thesis by (auto simp: subset_iff intro!: find_index_less)
next
  case False
  with assms have "ks = [0..<length names]" "length names = n"
    by (auto simp: bind_placeholders_def Let_def split: if_splits)
  then show ?thesis by auto
qed

text \<open>The binding a checked format string carries.\<close>

definition format_ok :: "expression_info \<Rightarrow> nat \<Rightarrow> bool" where
  "format_ok i n \<longleftrightarrow>
     length (ex_formatSegments i) = Suc (length (ex_formatSpecs i)) \<and>
     length (ex_formatArgumentIndices i) = length (ex_formatSpecs i) \<and>
     list_all spec_ok (ex_formatSpecs i) \<and>
     list_all (\<lambda>k. k < n) (ex_formatArgumentIndices i)"

definition all_used :: "expression_info \<Rightarrow> nat \<Rightarrow> bool" where
  "all_used i n \<longleftrightarrow> list_all (\<lambda>k. k \<in> set (ex_formatArgumentIndices i)) [0..<n]"

definition fresh_format :: "expression_info \<Rightarrow> bool" where
  "fresh_format i \<longleftrightarrow> ex_formatSegments i = [] \<and> ex_formatSpecs i = [] \<and>
     ex_formatArgumentIndices i = [] \<and> distinct (filter (\<lambda>n. n \<noteq> []) (ex_argumentNames i))"

lemma validateFormatString_result:
  assumes "validateFormatString (Expression i l r args) = Inr e" "fresh_format i"
  shows "\<exists>i'. e = Expression i' l r args \<and> ex_kind i' = ex_kind i \<and>
     format_ok i' (length args) \<and> all_used i' (length args)"
proof -
  obtain parts indices where p: "format_scan (ex_location i) (ex_value i) 0 [] no_parts = Inr parts"
      "bind_placeholders i (length args) (fp_names parts) = Inr indices"
    and e: "e = Expression (i\<lparr>ex_formatSegments := ex_formatSegments i @ fp_segments parts,
            ex_formatSpecs := ex_formatSpecs i @ fp_specs parts,
            ex_formatArgumentIndices := ex_formatArgumentIndices i @ indices\<rparr>) l r args"
    using assms(1) by (auto simp: bindE_Inr_iff)
  from p(1) have "parts_ok parts \<and> length (fp_segments parts) = Suc (length (fp_names parts))"
    by (rule format_scan_ok) (simp_all add: no_parts_def parts_ok_def)
  with bind_placeholders_Inr [OF p(2)] e assms(2) show ?thesis
    by (auto simp: format_ok_def all_used_def parts_ok_def list_all_iff fresh_format_def)
qed

subsection \<open>Properties\<close>

text \<open>A format string that passes the check has one more text segment than placeholders,
  one argument index per placeholder, each the index of an existing argument, every
  argument bound to some placeholder, and specifiers that are consistent.\<close>

theorem validateFormatString_binds:
  assumes "validateFormatString (Expression i l r args) = Inr e" "fresh_format i"
  shows "format_ok (ex_info e) (length (ex_arguments e)) \<and> all_used (ex_info e) (length (ex_arguments e)) \<and>
     ex_arguments e = args"
  using validateFormatString_result [OF assms] by auto

text \<open>The depth check passes exactly the trees of depth at most 128.\<close>

theorem validateExpressionDepth_bound:
  "validateExpressionDepth 1 e = Inr () \<longleftrightarrow> tree_depth e \<le> 128"
  by (simp add: validateExpressionDepth_iff maximumNesting_def)

text \<open>Texts as they are written in a template, and templates of positional placeholders.\<close>

definition double_brace :: "char \<Rightarrow> string" where
  "double_brace c = (if c = CHR ''{'' \<or> c = CHR ''}'' then [c, c] else [c])"

definition template :: "string list \<Rightarrow> string" where
  "template segments = join_with ''{}'' (map (\<lambda>s. concat (map double_brace s)) segments)"

lemma nth_drop_Cons: "drop i w = c # v \<Longrightarrow> i < length w \<and> w ! i = c \<and> drop (Suc i) w = v"
  by (metis Cons_nth_drop_Suc drop_eq_Nil2 list.inject list.simps(3) not_le)

lemma format_scan_text:
  "drop i val = concat (map double_brace w) @ v \<Longrightarrow>
     \<exists>j. drop j val = v \<and> format_scan l val i seg p = format_scan l val j (seg @ w) p"
proof (induction w arbitrary: i seg)
  case (Cons c w)
  show ?case
  proof (cases "c = CHR ''{'' \<or> c = CHR ''}''")
    case True
    then have "double_brace c = [c, c]" by (simp add: double_brace_def)
    with Cons.prems have "drop i val = c # c # concat (map double_brace w) @ v" by simp
    then have i: "i < length val" "val ! i = c" "Suc i < length val" "val ! Suc i = c"
        "drop (Suc (Suc i)) val = concat (map double_brace w) @ v"
      by (auto dest!: nth_drop_Cons)
    have "format_scan l val i seg p = format_scan l val (Suc (Suc i)) (seg @ [c]) p"
      using True i by (subst format_scan.simps) auto
    with Cons.IH [OF i(5), of "seg @ [c]"] show ?thesis by simp
  next
    case False
    then have "double_brace c = [c]" by (simp add: double_brace_def)
    with Cons.prems have "drop i val = c # concat (map double_brace w) @ v" by simp
    then have i: "i < length val" "val ! i = c" "drop (Suc i) val = concat (map double_brace w) @ v"
      by (auto dest!: nth_drop_Cons)
    have "format_scan l val i seg p = format_scan l val (Suc i) (seg @ [c]) p"
      using False i by (subst format_scan.simps) auto
    with Cons.IH [OF i(3), of "seg @ [c]"] show ?thesis by simp
  qed
qed auto

lemma format_scan_hole:
  assumes "drop i val = ''{}'' @ v"
  shows "drop (i + 2) val = v \<and> format_scan l val i seg p = format_scan l val (i + 2) []
    \<lparr>fp_segments = fp_segments p @ [seg], fp_specs = fp_specs p @ [default_format_spec],
     fp_names = fp_names p @ [[]]\<rparr>"
proof -
  have i: "i < length val" "val ! i = CHR ''{''" "Suc i < length val" "val ! Suc i = CHR ''}''"
      "drop (Suc (Suc i)) val = v" "drop (Suc i) val = CHR ''}'' # v"
    using assms by (auto dest!: nth_drop_Cons)
  have c: "closing_brace val i = Suc i" using i(6) by (simp add: closing_brace_def)
  have "Suc i \<le> k" if "str_find (CHR '':'') val (Suc i) = Some k" for k
    using str_find_Some(1) [OF that] .
  then have "scan_placeholder l val i (Suc i) = Inr ([], default_format_spec)"
    by (auto simp: scan_placeholder_def Let_def substr_def not_less split: option.splits)
  with i c show ?thesis by (subst format_scan.simps) simp
qed

lemma format_scan_template:
  "segs \<noteq> [] \<Longrightarrow> drop i val = template segs \<Longrightarrow>
     format_scan l val i [] p = Inr
       \<lparr>fp_segments = fp_segments p @ segs,
        fp_specs = fp_specs p @ replicate (length segs - 1) default_format_spec,
        fp_names = fp_names p @ replicate (length segs - 1) []\<rparr>"
proof (induction segs arbitrary: i p rule: induct_list012)
  case (2 s)
  then have "drop i val = concat (map double_brace s) @ []" by (simp add: template_def)
  from format_scan_text [OF this, of l "[]" p] obtain j where
    "drop j val = []" "format_scan l val i [] p = format_scan l val j s p" by auto
  then show ?case by (simp add: format_scan.simps [of l val j])
next
  case (3 s t segs)
  then have "drop i val = concat (map double_brace s) @ ''{}'' @ template (t # segs)"
    by (simp add: template_def)
  from format_scan_text [OF this, of l "[]" p] obtain j where
    j: "drop j val = ''{}'' @ template (t # segs)" "format_scan l val i [] p = format_scan l val j s p"
    by auto
  with format_scan_hole [OF j(1), of l s p] 3(2)
  show ?case by simp
qed simp

text \<open>A template of texts with doubled braces and \<open>{}\<close> between them is split into
  exactly these texts, with one default placeholder per gap.\<close>

theorem format_scan_splits_template:
  assumes "segs \<noteq> []"
  shows "format_scan l (template segs) 0 [] no_parts = Inr
       \<lparr>fp_segments = segs, fp_specs = replicate (length segs - 1) default_format_spec,
        fp_names = replicate (length segs - 1) []\<rparr>"
  using format_scan_template [of segs 0 "template segs" l no_parts] assms by (simp add: no_parts_def)

subsection \<open>Instances\<close>

definition sample_format :: expression_info where
  "sample_format = (node_info EK_FormatString default_location ''a{x:>d} {{'')
     \<lparr>ex_argumentNames := [''x''], ex_argumentNameLocations := [default_location]\<rparr>"

definition sample_argument :: expression where
  "sample_argument = Expression (node_info EK_Integer default_location ''7'') None None []"

theorem validateFormatString_binds_witness:
  "\<exists>e. validateFormatString (Expression sample_format None None [sample_argument]) = Inr e \<and>
     format_ok (ex_info e) 1 \<and> ex_arguments e = [sample_argument]"
proof -
  have "is_ok (validateFormatString (Expression sample_format None None [sample_argument]))"
    by code_simp
  then obtain e where e: "validateFormatString (Expression sample_format None None [sample_argument]) = Inr e"
    by (cases "validateFormatString (Expression sample_format None None [sample_argument])") auto
  moreover have "fresh_format sample_format" by code_simp
  ultimately show ?thesis using validateFormatString_binds [OF e] by auto
qed

theorem format_scan_splits_template_witness:
  "format_scan default_location ''a{{{}b'' 0 [] no_parts = Inr
     \<lparr>fp_segments = [''a{'', ''b''], fp_specs = [default_format_spec], fp_names = [[]]\<rparr>"
  using format_scan_splits_template [of "[''a{'', ''b'']" default_location]
  by (simp add: template_def double_brace_def)

end
