(* ===== verification/Parser_State.thy ===== *)
theory Parser_State
  imports Token_Stream Ast
begin

text \<open>
  The parser's state and its token-level operations (\<open>class Parser\<close> of
  \<open>include/cwhip/Parser.hpp\<close>, the first functions of \<open>src/Parser.cpp\<close>). An operation
  maps the state to an error or a value and the next state. The errors are the
  diagnostics the code throws, \<open>OutOfRange\<close> for a read of \<open>tokens_\<close> past its end
  (undefined behaviour in the C++) and \<open>OutOfFuel\<close> for a loop that goes round more
  often than there are tokens left. \<open>nestingDepth_\<close> is the argument \<open>d\<close> of the
  operations: the guard object restores it on every exit. The optional trace is not modelled.
\<close>

record parser_state =
  p_tokens :: "token list"
  p_current :: nat
  p_namespacePath :: "string list"
  p_pending :: "statement list"

datatype parse_error = Diagnosed diagnostic | OutOfRange | OutOfFuel

type_synonym 'a parser = "parser_state \<Rightarrow> (parse_error, 'a \<times> parser_state) result"

definition new_parser :: "token list \<Rightarrow> parser_state" where
  "new_parser tokens =
     \<lparr>p_tokens = tokens, p_current = 0, p_namespacePath = [], p_pending = []\<rparr>"

definition ret :: "'a \<Rightarrow> 'a parser" where
  "ret x s = Inr (x, s)"

definition bind :: "'a parser \<Rightarrow> ('a \<Rightarrow> 'b parser) \<Rightarrow> 'b parser" where
  "bind p f s = (case p s of Inl e \<Rightarrow> Inl e | Inr (x, s') \<Rightarrow> f x s')"

text \<open>The two commands in sequence.\<close>

definition andThen :: "'a parser \<Rightarrow> 'b parser \<Rightarrow> 'b parser" where
  "andThen p q = bind p (\<lambda>_. q)"

definition throw :: "diagnostic \<Rightarrow> 'a parser" where
  "throw e s = Inl (Diagnosed e)"

definition error_at :: "token \<Rightarrow> string \<Rightarrow> 'a parser" where
  "error_at token message = throw (DiagnosticError (tok_location token) message)"

definition token_at :: "nat \<Rightarrow> token parser" where
  "token_at index s = (if index < length (p_tokens s) then Inr (p_tokens s ! index, s) else Inl OutOfRange)"

definition current :: "token parser" where
  "current s = token_at (p_current s) s"

definition previous :: "token parser" where
  "previous s = (if p_current s = 0 then Inl OutOfRange else token_at (p_current s - 1) s)"

definition check :: "token_type \<Rightarrow> bool parser" where
  "check type = bind current (\<lambda>t. ret (tok_type t = type))"

text \<open>A disjunction of such checks.\<close>

definition check_any :: "token_type list \<Rightarrow> bool parser" where
  "check_any types = bind current (\<lambda>t. ret (tok_type t \<in> set types))"

text \<open>\<open>++current_\<close>\<close>

definition step :: "unit parser" where
  "step s = Inr ((), s\<lparr>p_current := p_current s + 1\<rparr>)"

text \<open>\<open>tokens_[current_++]\<close>\<close>

definition take_token :: "token parser" where
  "take_token = bind current (\<lambda>t. andThen step (ret t))"

definition match :: "token_type \<Rightarrow> bool parser" where
  "match type = bind (check type) (\<lambda>b. if b then andThen step (ret True) else ret False)"

definition cond :: "bool parser \<Rightarrow> 'a parser \<Rightarrow> 'a parser \<Rightarrow> 'a parser" where
  "cond c p q = bind c (\<lambda>b. if b then p else q)"

definition error_current :: "string \<Rightarrow> 'a parser" where
  "error_current message = bind current (\<lambda>t. error_at t message)"

definition consume :: "token_type \<Rightarrow> string \<Rightarrow> token parser" where
  "consume type expectation =
     bind (check type) (\<lambda>b.
       if b then take_token
       else bind current (\<lambda>t.
         error_at t (''expected '' @ expectation @ '', found '' @ tokenTypeName (tok_type t))))"

text \<open>\<open>current_ + 1 < tokens_.size() && tokens_[current_ + 1].type ...\<close>\<close>

definition next_token :: "(token_type \<Rightarrow> bool) \<Rightarrow> bool parser" where
  "next_token P s =
     Inr (p_current s + 1 < length (p_tokens s) \<and> P (tok_type (p_tokens s ! (p_current s + 1))), s)"

subsection \<open>Loops\<close>

text \<open>
  A body continues with \<open>Inl\<close> or leaves the loop with \<open>Inr\<close>. The fuel allows one round per
  token left and one more; that the loops of the parser never use it up is proved.
\<close>

fun loop_fuel :: "nat \<Rightarrow> ('a \<Rightarrow> ('a + 'b) parser) \<Rightarrow> 'a \<Rightarrow> 'b parser" where
  "loop_fuel 0 body x s = Inl OutOfFuel"
| "loop_fuel (Suc n) body x s =
     (case body x s of
        Inl e \<Rightarrow> Inl e
      | Inr (Inl y, s') \<Rightarrow> loop_fuel n body y s'
      | Inr (Inr z, s') \<Rightarrow> Inr (z, s'))"

definition loop :: "('a \<Rightarrow> ('a + 'b) parser) \<Rightarrow> 'a \<Rightarrow> 'b parser" where
  "loop body x s = loop_fuel (Suc (length (p_tokens s) - p_current s)) body x s"

abbreviation again :: "'a \<Rightarrow> ('a + 'b) parser" where
  "again x \<equiv> ret (Inl x)"

abbreviation leave :: "'b \<Rightarrow> ('a + 'b) parser" where
  "leave x \<equiv> ret (Inr x)"

definition skipNewlines :: "unit parser" where
  "skipNewlines = loop (\<lambda>_. cond (match T_Newline) (again ()) (leave ())) ()"

text \<open>\<open>do xs.push_back(p()); while (match(TokenType::Comma));\<close>\<close>

definition comma_list :: "'a parser \<Rightarrow> 'a list parser" where
  "comma_list p =
     loop (\<lambda>xs. bind p (\<lambda>x. cond (match T_Comma) (again (xs @ [x])) (leave (xs @ [x])))) []"

text \<open>The same list unless the closing token comes first.\<close>

definition comma_list_until :: "token_type \<Rightarrow> 'a parser \<Rightarrow> 'a list parser" where
  "comma_list_until close p = cond (check close) (ret []) (comma_list p)"

definition consumeStatementTerminator :: "unit parser" where
  "consumeStatementTerminator =
     cond (match T_Newline) skipNewlines
       (bind (check_any [T_RightBrace, T_End]) (\<lambda>b.
          if b then ret () else error_current ''expected newline after statement''))"

definition parseQualifiedIdentifier :: "string \<Rightarrow> string parser" where
  "parseQualifiedIdentifier expectation =
     bind (consume T_Identifier expectation) (\<lambda>t.
       loop (\<lambda>name. cond (match T_Dot)
           (bind (consume T_Identifier expectation) (\<lambda>t. again (name @ ''.'' @ tok_text t)))
           (leave name)) (tok_text t))"

subsection \<open>The invariant of the state\<close>

definition p_ok :: "parser_state \<Rightarrow> bool" where
  "p_ok s \<longleftrightarrow> p_current s < length (p_tokens s) \<and> tok_type (last (p_tokens s)) = T_End \<and>
     list_all token_ok (p_tokens s)"

abbreviation tok :: "parser_state \<Rightarrow> token" where
  "tok s \<equiv> p_tokens s ! p_current s"

text \<open>What every operation keeps; expression parsers also leave the rest of the state alone.\<close>

definition moves :: "parser_state \<Rightarrow> parser_state \<Rightarrow> bool" where
  "moves s s' \<longleftrightarrow> p_ok s' \<and> p_tokens s' = p_tokens s \<and> p_current s \<le> p_current s' \<and>
     p_namespacePath s' = p_namespacePath s"

definition reaches :: "parser_state \<Rightarrow> parser_state \<Rightarrow> bool" where
  "reaches s s' \<longleftrightarrow> moves s s' \<and> p_pending s' = p_pending s"

lemma moves_refl [simp]: "p_ok s \<Longrightarrow> moves s s"
  by (simp add: moves_def)

lemma reaches_refl [simp]: "p_ok s \<Longrightarrow> reaches s s"
  by (simp add: reaches_def)

lemma moves_trans [trans]: "moves s t \<Longrightarrow> moves t u \<Longrightarrow> moves s u"
  by (auto simp: moves_def)

lemma reaches_trans [trans]: "reaches s t \<Longrightarrow> reaches t u \<Longrightarrow> reaches s u"
  by (auto simp: reaches_def intro: moves_trans)

lemma reaches_moves: "reaches s t \<Longrightarrow> moves s t"
  by (simp add: reaches_def)

lemma reaches_ok: "reaches s t \<Longrightarrow> p_ok t"
  by (simp add: reaches_def moves_def)

lemma moves_ok: "moves s t \<Longrightarrow> p_ok t"
  by (simp add: moves_def)

text \<open>The run ends with a diagnostic, or with a value and a state that satisfy \<open>R\<close>.\<close>

definition runs :: "parser_state \<Rightarrow> 'a parser \<Rightarrow> ('a \<Rightarrow> parser_state \<Rightarrow> bool) \<Rightarrow> bool" where
  "runs s p R \<longleftrightarrow> (case p s of Inl e \<Rightarrow> (\<exists>d. e = Diagnosed d) | Inr (x, s') \<Rightarrow> R x s')"

named_theorems runs_intro \<open>how the operations of the parser run\<close>

lemma runs_mono: "runs s p R \<Longrightarrow> (\<And>x s'. R x s' \<Longrightarrow> R' x s') \<Longrightarrow> runs s p R'"
  by (auto simp: runs_def split: sum.splits)

lemma runs_ret [runs_intro]: "R x s \<Longrightarrow> runs s (ret x) R"
  by (simp add: runs_def ret_def)

lemma runs_bind [runs_intro]: "runs s p (\<lambda>x s'. runs s' (f x) R) \<Longrightarrow> runs s (bind p f) R"
  by (auto simp: runs_def bind_def split: sum.splits)

lemma runs_andThen [runs_intro]: "runs s p (\<lambda>_ s'. runs s' q R) \<Longrightarrow> runs s (andThen p q) R"
  unfolding andThen_def by (rule runs_bind)

lemma runs_throw [runs_intro]: "runs s (throw e) R"
  by (simp add: runs_def throw_def)

lemma runs_error_at [runs_intro]: "runs s (error_at t m) R"
  unfolding error_at_def by (rule runs_throw)

lemma runs_if [runs_intro]:
  "(b \<Longrightarrow> runs s p R) \<Longrightarrow> (\<not> b \<Longrightarrow> runs s q R) \<Longrightarrow> runs s (if b then p else q) R"
  by simp

lemma runs_current [runs_intro]:
  "p_ok s \<Longrightarrow> (token_ok (tok s) \<Longrightarrow> R (tok s) s) \<Longrightarrow> runs s current R"
  by (simp add: runs_def current_def token_at_def p_ok_def list_all_length)

lemma runs_error_current [runs_intro]: "p_ok s \<Longrightarrow> runs s (error_current m) R"
  unfolding error_current_def by (intro runs_intro)

lemma runs_check [runs_intro]: "p_ok s \<Longrightarrow> R (tok_type (tok s) = type) s \<Longrightarrow> runs s (check type) R"
  unfolding check_def by (intro runs_intro)

lemma runs_check_any [runs_intro]:
  "p_ok s \<Longrightarrow> R (tok_type (tok s) \<in> set types) s \<Longrightarrow> runs s (check_any types) R"
  unfolding check_any_def by (intro runs_intro)

lemma runs_next_token [runs_intro]: "(\<And>b. R b s) \<Longrightarrow> runs s (next_token P) R"
  by (simp add: runs_def next_token_def)

text \<open>One token further; the last token, \<open>End\<close>, is never passed.\<close>

lemma reaches_step:
  assumes "p_ok s" "tok_type (tok s) \<noteq> T_End"
  shows "reaches s (s\<lparr>p_current := Suc (p_current s)\<rparr>)"
proof -
  have "p_tokens s \<noteq> []" using assms by (auto simp: p_ok_def)
  then have "p_current s \<noteq> length (p_tokens s) - 1"
    using assms last_conv_nth [of "p_tokens s"] by (auto simp: p_ok_def)
  with assms show ?thesis by (auto simp: reaches_def moves_def p_ok_def)
qed

lemma runs_step [runs_intro]:
  assumes "p_ok s" "tok_type (tok s) \<noteq> T_End"
    and "\<And>s'. reaches s s' \<Longrightarrow> p_current s' = Suc (p_current s) \<Longrightarrow> R () s'"
  shows "runs s step R"
  using assms reaches_step by (simp add: runs_def step_def)

lemma runs_take_token [runs_intro]:
  assumes "p_ok s" "tok_type (tok s) \<noteq> T_End"
    and "\<And>s'. token_ok (tok s) \<Longrightarrow> reaches s s' \<Longrightarrow> p_current s' = Suc (p_current s) \<Longrightarrow> R (tok s) s'"
  shows "runs s take_token R"
  unfolding take_token_def using assms by (intro runs_intro)

lemma runs_match [runs_intro]:
  assumes "p_ok s" "type \<noteq> T_End"
    and "\<And>s'. tok_type (tok s) = type \<Longrightarrow> reaches s s' \<Longrightarrow> p_current s' = Suc (p_current s) \<Longrightarrow> R True s'"
    and "tok_type (tok s) \<noteq> type \<Longrightarrow> R False s"
  shows "runs s (match type) R"
  unfolding match_def using assms by (auto intro!: runs_intro)

lemma runs_consume [runs_intro]:
  assumes "p_ok s" "type \<noteq> T_End"
    and "\<And>t s'. token_ok t \<Longrightarrow> tok_type t = type \<Longrightarrow> reaches s s' \<Longrightarrow>
      p_current s' = Suc (p_current s) \<Longrightarrow> R t s'"
  shows "runs s (consume type m) R"
  unfolding consume_def using assms by (auto intro!: runs_intro)

lemma runs_cond_check [runs_intro]:
  "p_ok s \<Longrightarrow> (tok_type (tok s) = type \<Longrightarrow> runs s p R) \<Longrightarrow> (tok_type (tok s) \<noteq> type \<Longrightarrow> runs s q R)
    \<Longrightarrow> runs s (cond (check type) p q) R"
  unfolding cond_def by (auto intro!: runs_intro)

lemma runs_cond_check_any [runs_intro]:
  "p_ok s \<Longrightarrow> (tok_type (tok s) \<in> set types \<Longrightarrow> runs s p R) \<Longrightarrow>
     (tok_type (tok s) \<notin> set types \<Longrightarrow> runs s q R) \<Longrightarrow> runs s (cond (check_any types) p q) R"
  unfolding cond_def by (auto intro!: runs_intro)

lemma runs_cond_match [runs_intro]:
  assumes "p_ok s" "type \<noteq> T_End"
    and "\<And>s'. reaches s s' \<Longrightarrow> p_current s' = Suc (p_current s) \<Longrightarrow> runs s' p R"
    and "tok_type (tok s) \<noteq> type \<Longrightarrow> runs s q R"
  shows "runs s (cond (match type) p q) R"
  unfolding cond_def using assms by (auto intro!: runs_intro)

text \<open>A loop whose every further round consumes a token ends before its fuel does.\<close>

lemma runs_loop_moves:
  assumes "p_ok s" "I x s"
    and body: "\<And>x t. moves s t \<Longrightarrow> I x t \<Longrightarrow> runs t (body x) (\<lambda>r t'. moves t t' \<and>
       (case r of Inl y \<Rightarrow> p_current t < p_current t' \<and> I y t' | Inr z \<Rightarrow> R z t'))"
  shows "runs s (loop body x) R"
proof -
  have "runs t (loop_fuel n body x) R"
    if "moves s t" "I x t" "length (p_tokens t) - p_current t < n" for n x t
    using that
  proof (induction n arbitrary: x t)
    case (Suc n)
    show ?case
    proof (cases "body x t")
      case (Inl e)
      with body [OF Suc.prems(1,2)] show ?thesis by (simp add: runs_def)
    next
      case (Inr b)
      obtain r t' where b: "b = (r, t')" by (cases b)
      with Inr body [OF Suc.prems(1,2)] have r: "moves t t'"
          "case r of Inl y \<Rightarrow> p_current t < p_current t' \<and> I y t' | Inr z \<Rightarrow> R z t'"
        by (simp_all add: runs_def)
      show ?thesis
      proof (cases r)
        case (Inl y)
        have "length (p_tokens t') - p_current t' < n"
          using Suc.prems r Inl by (auto simp: moves_def p_ok_def)
        then have "runs t' (loop_fuel n body y) R"
          using Suc.IH r Inl moves_trans [OF Suc.prems(1) r(1)] by simp
        with Inr b Inl show ?thesis by (simp add: runs_def)
      next
        case (Inr z)
        with r b \<open>body x t = Inr b\<close> show ?thesis by (simp add: runs_def)
      qed
    qed
  qed simp
  from this [of s x "Suc (length (p_tokens s) - p_current s)"] assms(1,2) show ?thesis
    by (simp add: loop_def runs_def del: loop_fuel.simps)
qed

lemma runs_loop:
  assumes "p_ok s" "I x"
    and body: "\<And>x t. reaches s t \<Longrightarrow> p_ok t \<Longrightarrow> I x \<Longrightarrow> runs t (body x) (\<lambda>r t'. reaches t t' \<and>
       (case r of Inl y \<Rightarrow> p_current t < p_current t' \<and> I y | Inr z \<Rightarrow> reaches s t' \<longrightarrow> R z t'))"
  shows "runs s (loop body x) R"
proof (rule runs_loop_moves [where I = "\<lambda>x t. reaches s t \<and> I x"])
  fix x t assume t: "moves s t" "reaches s t \<and> I x"
  then show "runs t (body x) (\<lambda>r t'. moves t t' \<and> (case r of
      Inl y \<Rightarrow> p_current t < p_current t' \<and> reaches s t' \<and> I y | Inr z \<Rightarrow> R z t'))"
    by (intro runs_mono [OF body])
      (auto simp: reaches_ok reaches_moves split: sum.splits intro: reaches_trans)
qed (use assms in auto)

lemma reaches_iff:
  "reaches s s' \<longleftrightarrow> p_ok s' \<and> p_tokens s' = p_tokens s \<and> p_current s \<le> p_current s' \<and>
     p_namespacePath s' = p_namespacePath s \<and> p_pending s' = p_pending s"
  by (auto simp: reaches_def moves_def)

text \<open>A parser that consumes at least one token and returns a value with a property.\<close>

definition yields :: "('a \<Rightarrow> bool) \<Rightarrow> 'a parser \<Rightarrow> bool" where
  "yields Q p \<longleftrightarrow> (\<forall>s. p_ok s \<longrightarrow>
     runs s p (\<lambda>x s'. reaches s s' \<and> p_current s < p_current s' \<and> Q x))"

lemma yieldsI:
  "(\<And>s. p_ok s \<Longrightarrow> runs s p (\<lambda>x s'. reaches s s' \<and> p_current s < p_current s' \<and> Q x)) \<Longrightarrow> yields Q p"
  by (simp add: yields_def)

lemma runs_yields:
  assumes "yields Q p" "p_ok s"
    and "\<And>x s'. reaches s s' \<Longrightarrow> p_current s < p_current s' \<Longrightarrow> Q x \<Longrightarrow> R x s'"
  shows "runs s p R"
  using assms(1,2) by (auto simp: yields_def intro: runs_mono assms(3))

lemma runs_comma_list:
  assumes "yields Q p" "p_ok s"
    and "\<And>xs s'. reaches s s' \<Longrightarrow> p_current s < p_current s' \<Longrightarrow> list_all Q xs \<Longrightarrow> R xs s'"
  shows "runs s (comma_list p) R"
  unfolding comma_list_def
proof (rule runs_loop_moves [where I = "\<lambda>xs t. reaches s t \<and> list_all Q xs"])
  fix xs t assume t: "moves s t" "reaches s t \<and> list_all Q xs"
  show "runs t (bind p (\<lambda>x. cond (match T_Comma) (again (xs @ [x])) (leave (xs @ [x]))))
     (\<lambda>r t'. moves t t' \<and> (case r of
        Inl y \<Rightarrow> p_current t < p_current t' \<and> reaches s t' \<and> list_all Q y | Inr z \<Rightarrow> R z t'))"
    using t by (intro runs_intro runs_yields [OF assms(1)])
      (auto simp: reaches_iff moves_def intro: assms(3))
qed (use assms(2) in auto)

lemma runs_comma_list_until:
  assumes "yields Q p" "p_ok s"
    and "\<And>xs s'. reaches s s' \<Longrightarrow> list_all Q xs \<Longrightarrow> R xs s'"
  shows "runs s (comma_list_until close p) R"
  unfolding comma_list_until_def
  by (intro runs_intro runs_comma_list [OF assms(1)] assms) (use assms(2) in auto)

text \<open>The operations of this theory that loop.\<close>

lemma runs_skipNewlines [runs_intro]:
  assumes "p_ok s" "\<And>s'. reaches s s' \<Longrightarrow> tok_type (tok s') \<noteq> T_Newline \<Longrightarrow> R () s'"
  shows "runs s skipNewlines R"
  unfolding skipNewlines_def
proof (rule runs_loop [where I = "\<lambda>_. True"])
  fix x t assume t: "reaches s t" "p_ok t"
  show "runs t (cond (match T_Newline) (again ()) (leave ()))
     (\<lambda>r t'. reaches t t' \<and> (case r of Inl y \<Rightarrow> p_current t < p_current t' \<and> True
        | Inr z \<Rightarrow> reaches s t' \<longrightarrow> R z t'))"
    using t by (intro runs_intro) (auto simp: reaches_iff intro!: assms(2))
qed (use assms(1) in auto)

lemma runs_consumeStatementTerminator [runs_intro]:
  assumes "p_ok s" "\<And>s'. reaches s s' \<Longrightarrow> R () s'"
  shows "runs s consumeStatementTerminator R"
  unfolding consumeStatementTerminator_def
  by (intro runs_intro) (use assms in \<open>auto simp: reaches_iff intro!: runs_intro\<close>)

end
