(* ===== verification/Parser_Expr.thy ===== *)
theory Parser_Expr
  imports Parser_State Format_String
begin

text \<open>
  The expression parser (\<open>parseExpression\<close> to \<open>parseFormatArguments\<close> of
  \<open>src/Parser.cpp\<close>). The functions call each other in a cycle; each body is first a
  definition with its callees as arguments, and one recursive definition over the nesting
  depth ties them together. The depth grows on every cycle through \<open>NestingGuard\<close>, or the
  call is to a function of higher precedence.
\<close>

subsection \<open>Building nodes\<close>

definition validated :: "expression \<Rightarrow> expression parser" where
  "validated e s =
     (case validateExpressionDepth 1 e of Inl d \<Rightarrow> Inl (Diagnosed d) | Inr _ \<Rightarrow> Inr (e, s))"

definition leaf :: "expression_kind \<Rightarrow> token \<Rightarrow> string \<Rightarrow> expression" where
  "leaf kind token value' = Expression (node_info kind (tok_location token) value') None None []"

definition unary_node :: "token \<Rightarrow> string \<Rightarrow> expression \<Rightarrow> expression" where
  "unary_node operation value' operand =
     Expression (node_info EK_Unary (tok_location operation) value') (Some operand) None []"

definition binary_node :: "token \<Rightarrow> string \<Rightarrow> expression \<Rightarrow> expression \<Rightarrow> expression" where
  "binary_node operation value' l r =
     Expression (node_info EK_Binary (tok_location operation) value') (Some l) (Some r) []"

text \<open>\<open>const NestingGuard nesting(*this);\<close> at depth \<open>d\<close>.\<close>

definition guard :: "nat \<Rightarrow> 'a parser \<Rightarrow> 'a parser" where
  "guard d p = (if d \<ge> maximumNesting then error_current ''parser nesting exceeds 128'' else p)"

lemma guard_cong [fundef_cong]:
  "d = d' \<Longrightarrow> (d' < maximumNesting \<Longrightarrow> p = p') \<Longrightarrow> guard d p = guard d' p'"
  by (simp add: guard_def)

subsection \<open>The bodies\<close>

text \<open>
  The loop of the left-associative binary operators: \<open>parseOr\<close>, \<open>parseAnd\<close>,
  \<open>parseComparison\<close>, \<open>parseAddition\<close> and \<open>parseMultiplication\<close> differ in the operators,
  the operand and the text of the node.
\<close>

definition binary_chain ::
  "token_type list \<Rightarrow> (token \<Rightarrow> string) \<Rightarrow> expression parser \<Rightarrow> expression parser" where
  "binary_chain operators text_of operand =
     bind operand (loop (\<lambda>e.
       cond (check_any operators)
         (bind take_token (\<lambda>operation. bind operand (\<lambda>r.
            bind (validated (binary_node operation (text_of operation) e r)) again)))
         (leave e)))"

definition type_words :: "(token_type \<times> string) list" where
  "type_words =
     [(T_Int, ''int''), (T_Unsigned, ''unsigned''), (T_FloatType, ''float''), (T_Bool, ''bool''),
      (T_StrgType, ''String''), (T_ListType, ''list''), (T_DictType, ''dict''),
      (T_BufferType, ''buffer''), (T_HandleType, ''handle''), (T_AnyType, ''any''),
      (T_TypeType, ''type'')]"

definition expected_type_name :: "string \<Rightarrow> string parser" where
  "expected_type_name operatorName = bind current (\<lambda>t.
     error_at t (''expected type name after '' @ operatorName @ '', found '' @
       tokenTypeName (tok_type t)))"

definition parseTypeTestName :: "string \<Rightarrow> string parser" where
  "parseTypeTestName operatorName = bind current (\<lambda>t.
     if tok_type t = T_CallbackType then
       error_at t ''callback type tests and casts are not supported; use a typed declaration''
     else if tok_type t = T_Identifier then parseQualifiedIdentifier (''type name after '' @ quoted ''is'')
     else case map_of type_words (tok_type t) of
       Some word \<Rightarrow> andThen step (ret word)
     | None \<Rightarrow>
         if tok_type t = T_Null then
           if operatorName = quoted ''as'' then andThen step (ret ''null'')
           else expected_type_name operatorName
         else if tok_type t = T_Void then andThen step (ret ''void'')
         else expected_type_name operatorName)"

definition relational_operators :: "token_type list" where
  "relational_operators = [T_Is, T_Less, T_LessEqual, T_Greater, T_GreaterEqual]"

definition relational_chain :: "expression parser \<Rightarrow> expression parser" where
  "relational_chain operand =
     bind operand (loop (\<lambda>e.
       cond (check_any relational_operators)
         (bind take_token (\<lambda>operation.
            if tok_type operation = T_Is then
              bind current (\<lambda>t. bind (parseTypeTestName (quoted ''is'')) (\<lambda>name.
                bind (validated (Expression
                    ((node_info EK_TypeTest (tok_location operation) name)
                       \<lparr>ex_typeLocation := tok_location t\<rparr>) (Some e) None [])) again))
            else bind operand (\<lambda>r.
                bind (validated (binary_node operation (tok_text operation) e r)) again)))
         (leave e)))"

definition parseTypeName :: "token \<Rightarrow> string \<Rightarrow> expression" where
  "parseTypeName token name =
     Expression ((node_info EK_TypeName (tok_location token) name)
       \<lparr>ex_typeLocation := tok_location token\<rparr>) None None []"

definition with_arguments :: "expression_kind \<Rightarrow> token \<Rightarrow> string \<Rightarrow> expression list \<Rightarrow> expression" where
  "with_arguments kind token value' args =
     Expression (node_info kind (tok_location token) value') None None args"

text \<open>A bracketed list of expressions, behind its opening bracket.\<close>

definition list_node ::
  "expression parser \<Rightarrow> expression_kind \<Rightarrow> token \<Rightarrow> token_type \<Rightarrow> string \<Rightarrow> expression parser" where
  "list_node parseExpr kind token close expectation =
     bind (comma_list_until close parseExpr) (\<lambda>args.
       andThen (consume close expectation) (ret (with_arguments kind token [] args)))"

definition typeof_node :: "expression parser \<Rightarrow> token \<Rightarrow> expression parser" where
  "typeof_node parseExpr token =
     andThen (consume T_LeftParen (quoted ''('' @ '' after '' @ quoted ''type'')) (bind parseExpr (\<lambda>e.
       andThen (consume T_RightParen (quoted '')'' @ '' after type operand''))
         (ret (Expression (node_info EK_TypeOf (tok_location token) []) (Some e) None []))))"

text \<open>The primitive types that name a type unless a parenthesis follows, and those that always do.\<close>

definition bare_type_words :: "(token_type \<times> string) list" where
  "bare_type_words =
     [(T_Int, ''int''), (T_Bool, ''bool''), (T_FloatType, ''float''), (T_Unsigned, ''unsigned'')]"

definition plain_type_words :: "(token_type \<times> string) list" where
  "plain_type_words = [(T_StrgType, ''String''), (T_ListType, ''list''), (T_DictType, ''dict'')]"

definition named_type :: "token \<Rightarrow> string \<Rightarrow> expression parser" where
  "named_type token word = andThen step (ret (parseTypeName token word))"

definition cast_node :: "expression parser \<Rightarrow> token \<Rightarrow> string \<Rightarrow> expression parser" where
  "cast_node parseExpr token word =
     andThen step (andThen (consume T_LeftParen (quoted ''('' @ '' after explicit cast type name''))
       (bind parseExpr (\<lambda>e. andThen (consume T_RightParen (quoted '')'' @ '' after cast operand''))
         (ret (with_arguments EK_Cast token word [e])))))"

text \<open>\<open>buffer\<close>: a literal, a type name or a constructor by the token behind it.\<close>

definition buffer_node :: "expression parser \<Rightarrow> token \<Rightarrow> expression parser" where
  "buffer_node parseExpr token =
     bind (next_token (\<lambda>t. t = T_LeftBracket)) (\<lambda>bracket.
     bind (next_token (\<lambda>t. t \<noteq> T_LeftParen)) (\<lambda>bare.
       if bracket then
         andThen step (andThen (consume T_LeftBracket (quoted ''['' @ '' after buffer''))
           (list_node parseExpr EK_BufferLiteral token T_RightBracket
              (quoted '']'' @ '' after buffer elements'')))
       else if bare then named_type token ''buffer''
       else
         andThen step (andThen (consume T_LeftParen (quoted ''('' @ '' after buffer''))
           (list_node parseExpr EK_BufferConstructor token T_RightParen
              (quoted '')'' @ '' after buffer length'')))))"

text \<open>The entries of a dict: keys and values alternate in the arguments.\<close>

definition dict_entries :: "expression parser \<Rightarrow> expression list parser" where
  "dict_entries parseExpr =
     loop (\<lambda>args.
       bind parseExpr (\<lambda>k.
       andThen (consume T_Colon (quoted '':'' @ '' between dict key and value''))
         (bind parseExpr (\<lambda>v.
            cond (match T_Comma) (again (args @ [k, v])) (leave (args @ [k, v])))))) []"

definition dict_node :: "expression parser \<Rightarrow> token \<Rightarrow> expression parser" where
  "dict_node parseExpr token =
     bind (cond (check T_RightBrace) (ret []) (dict_entries parseExpr)) (\<lambda>args.
       andThen (consume T_RightBrace (quoted ''}'' @ '' after dict entries''))
         (ret (with_arguments EK_MapLiteral token [] args)))"

definition grouped :: "expression parser \<Rightarrow> expression parser" where
  "grouped parseExpr =
     andThen step (bind parseExpr (\<lambda>e.
       andThen (consume T_RightParen (quoted '')'' @ '' after expression'')) (ret e)))"

text \<open>A token that is an expression on its own.\<close>

definition literal :: "token \<Rightarrow> expression option" where
  "literal token =
     (case tok_type token of
        T_UnsignedInteger \<Rightarrow> Some (leaf EK_Unsigned token (tok_text token))
      | T_Float \<Rightarrow> Some (leaf EK_Float token (tok_text token))
      | T_Integer \<Rightarrow> Some (leaf EK_Integer token (tok_text token))
      | T_True \<Rightarrow> Some (leaf EK_Boolean token ''true'')
      | T_False \<Rightarrow> Some (leaf EK_Boolean token ''false'')
      | T_String \<Rightarrow> Some (leaf EK_String token (tok_text token))
      | T_Identifier \<Rightarrow> Some (leaf EK_Identifier token (tok_text token))
      | T_Null \<Rightarrow> Some (leaf EK_Null token [])
      | _ \<Rightarrow> None)"

text \<open>
  \<open>parsePrimary\<close>. The tests of the code are on the type of one token, so their order only
  matters among the tests for the same type.
\<close>

definition primary_body :: "expression parser \<Rightarrow> expression parser" where
  "primary_body parseExpr = bind current (\<lambda>token.
     if tok_type token = T_TypeType then andThen step (typeof_node parseExpr token)
     else case map_of bare_type_words (tok_type token) of
       Some word \<Rightarrow> bind (next_token (\<lambda>t. t \<noteq> T_LeftParen)) (\<lambda>bare.
         if bare then named_type token word else cast_node parseExpr token word)
     | None \<Rightarrow>
     case map_of plain_type_words (tok_type token) of Some word \<Rightarrow> named_type token word
     | None \<Rightarrow>
     if tok_type token = T_BufferType then buffer_node parseExpr token
     else if tok_type token = T_HandleType then named_type token ''handle''
     else if tok_type token = T_AnyType then named_type token ''any''
     else case literal token of Some e \<Rightarrow> andThen step (ret e)
     | None \<Rightarrow>
     if tok_type token = T_LeftParen then grouped parseExpr
     else if tok_type token = T_LeftBracket then
       andThen step (list_node parseExpr EK_ArrayLiteral token T_RightBracket
         (quoted '']'' @ '' after list elements''))
     else if tok_type token = T_LeftBrace then andThen step (dict_node parseExpr token)
     else error_at token (''expected expression, found '' @ tokenTypeName (tok_type token)))"

subsection \<open>Postfix operators\<close>

text \<open>One named or positional format argument is added to the format expression.\<close>

definition add_format_argument ::
  "string \<Rightarrow> source_location \<Rightarrow> expression \<Rightarrow> expression \<Rightarrow> expression" where
  "add_format_argument name location argument format =
     Expression
       ((ex_info format)
          \<lparr>ex_argumentNames := ex_argumentNames (ex_info format) @ [name],
           ex_argumentNameLocations := ex_argumentNameLocations (ex_info format) @ [location]\<rparr>)
       (ex_left format) (ex_right format) (ex_arguments format @ [argument])"

definition format_argument_name :: "expression \<Rightarrow> string parser" where
  "format_argument_name format =
     bind (check T_Identifier) (\<lambda>identifier. bind (next_token (\<lambda>t. t = T_Equal)) (\<lambda>equal.
       if identifier \<and> equal then
         bind (consume T_Identifier ''named format argument'') (\<lambda>token.
           if tok_text token \<in> set (ex_argumentNames (ex_info format)) then
             error_at token (''duplicate named format argument '' @ quoted (tok_text token))
           else andThen (consume T_Equal (quoted ''='' @ '' after named format argument''))
             (ret (tok_text token)))
       else ret []))"

definition format_arguments :: "expression parser \<Rightarrow> expression \<Rightarrow> expression parser" where
  "format_arguments parseExpr = loop (\<lambda>format.
     bind current (\<lambda>t. bind (format_argument_name format) (\<lambda>name.
     bind parseExpr (\<lambda>argument.
       let format' = add_format_argument name (tok_location t) argument format
       in cond (match T_Comma) (again format') (leave format')))))"

definition format_validated :: "expression \<Rightarrow> expression parser" where
  "format_validated e s =
     (case validateFormatString e of Inl d \<Rightarrow> Inl (Diagnosed d) | Inr e' \<Rightarrow> Inr (e', s))"

definition with_kind :: "expression_kind \<Rightarrow> expression \<Rightarrow> expression" where
  "with_kind kind e =
     Expression ((ex_info e)\<lparr>ex_kind := kind\<rparr>) (ex_left e) (ex_right e) (ex_arguments e)"

definition with_location :: "source_location \<Rightarrow> expression \<Rightarrow> expression" where
  "with_location location e =
     Expression ((ex_info e)\<lparr>ex_location := location\<rparr>) (ex_left e) (ex_right e) (ex_arguments e)"

text \<open>The call \<open>format(template, ...)\<close>, at its opening parenthesis.\<close>

definition format_call :: "expression parser \<Rightarrow> source_location \<Rightarrow> expression parser" where
  "format_call parseExpr location =
     andThen step (bind parseExpr (\<lambda>template.
       if kind_of template \<noteq> EK_String then
         throw (DiagnosticError location ''format requires a string literal template'')
       else
         let format = with_location location (with_kind EK_FormatString template)
         in bind (cond (match T_Comma) (format_arguments parseExpr format) (ret format)) (\<lambda>format'.
              andThen (consume T_RightParen (quoted '')'' @ '' after format arguments''))
                (format_validated format'))))"

text \<open>Index and slice, behind the opening bracket.\<close>

definition omitted_value :: "source_location \<Rightarrow> string \<Rightarrow> expression" where
  "omitted_value location value' = Expression (node_info EK_Integer location value') None None []"

definition slice_rest ::
  "expression parser \<Rightarrow> source_location \<Rightarrow> expression \<Rightarrow> bool \<Rightarrow> expression \<Rightarrow> expression parser" where
  "slice_rest parseExpr location e hasStart start =
     bind (check_any [T_Colon, T_RightBracket]) (\<lambda>noEnd.
     bind (if noEnd then ret (omitted_value location ''0'') else parseExpr) (\<lambda>stop.
     bind (match T_Colon) (\<lambda>hasStep.
     bind (check T_RightBracket) (\<lambda>closed.
     bind (if hasStep \<and> \<not> closed then parseExpr else ret (omitted_value location ''1'')) (\<lambda>by'.
       ret (Expression
         ((node_info EK_Slice location [])
            \<lparr>ex_sliceHasStart := hasStart, ex_sliceHasEnd := \<not> noEnd, ex_sliceHasStep := hasStep\<rparr>)
         (Some e) None [start, stop, by']))))))"

definition access_node :: "expression parser \<Rightarrow> expression \<Rightarrow> expression parser" where
  "access_node parseExpr e =
     bind previous (\<lambda>bracket.
     bind (cond (match T_Colon)
         (slice_rest parseExpr (tok_location bracket) e False
            (omitted_value (tok_location bracket) ''0''))
         (bind parseExpr (\<lambda>start.
            cond (match T_Colon) (slice_rest parseExpr (tok_location bracket) e True start)
              (ret (Expression (node_info EK_Index (tok_location bracket) []) (Some e) None [start])))))
       (\<lambda>access. andThen (consume T_RightBracket (quoted '']'' @ '' after index or slice''))
          (ret access)))"

definition call_node :: "expression parser \<Rightarrow> expression \<Rightarrow> expression parser" where
  "call_node parseExpr e =
     andThen step (bind (comma_list_until T_RightParen parseExpr) (\<lambda>args.
       andThen (consume T_RightParen (quoted '')'' @ '' after call arguments''))
         (ret (if kind_of e = EK_Identifier
               then Expression (node_info EK_ConstructorCall (location_of e) (value_of e)) None None args
               else Expression (node_info EK_Call (location_of e) []) (Some e) None args))))"

definition object_cast :: "expression \<Rightarrow> expression parser" where
  "object_cast e =
     bind previous (\<lambda>keyword. bind current (\<lambda>t. bind (parseTypeTestName (quoted ''as'')) (\<lambda>name.
       ret (Expression ((node_info EK_ObjectCast (tok_location keyword) name)
              \<lparr>ex_typeLocation := tok_location t\<rparr>) (Some e) None []))))"

definition postfix_body :: "expression parser \<Rightarrow> expression \<Rightarrow> expression parser" where
  "postfix_body parseExpr = loop (\<lambda>e0.
     bind (validated e0) (\<lambda>e.
     cond (match T_As) (bind (object_cast e) again)
     (cond (match T_LeftBracket) (bind (access_node parseExpr e) again)
     (cond (match T_Dot)
        (bind (consume T_Identifier (''member name after '' @ quoted ''.'')) (\<lambda>member.
           again (Expression (node_info EK_Member (tok_location member) (tok_text member))
             (Some e) None [])))
     (cond (check T_LeftParen)
        (if kind_of e = EK_String then
           error_current ''string-literal calls were removed; use format(template, values...)''
         else if kind_of e = EK_Identifier \<and> value_of e = ''format'' then
           bind (format_call parseExpr (location_of e)) again
         else bind (call_node parseExpr e) again)
        (leave e))))))"

subsection \<open>The recursive descent\<close>

definition nested_unary ::
  "nat \<Rightarrow> (token \<Rightarrow> string) \<Rightarrow> expression parser \<Rightarrow> expression parser" where
  "nested_unary d text_of operand =
     guard d (bind take_token (\<lambda>operation. bind operand (\<lambda>e.
       validated (unary_node operation (text_of operation) e))))"

lemma nested_unary_cong [fundef_cong]:
  "d = d' \<Longrightarrow> f = f' \<Longrightarrow> (d' < maximumNesting \<Longrightarrow> p = p') \<Longrightarrow> nested_unary d f p = nested_unary d' f' p'"
  by (simp add: nested_unary_def guard_def)

function (sequential)
  parseExpression :: "nat \<Rightarrow> expression parser" and parseOr :: "nat \<Rightarrow> expression parser" and
  parseAnd :: "nat \<Rightarrow> expression parser" and parseNot :: "nat \<Rightarrow> expression parser" and
  parseComparison :: "nat \<Rightarrow> expression parser" and
  parseRelational :: "nat \<Rightarrow> expression parser" and
  parseAddition :: "nat \<Rightarrow> expression parser" and
  parseMultiplication :: "nat \<Rightarrow> expression parser" and
  parseUnary :: "nat \<Rightarrow> expression parser" and parsePrimary :: "nat \<Rightarrow> expression parser" and
  parsePostfix :: "nat \<Rightarrow> expression \<Rightarrow> expression parser" where
  "parseExpression d s = guard d (bind (parseOr (d + 1)) validated) s"
| "parseOr d s = binary_chain [T_Or, T_OrOr] (\<lambda>_. ''||'') (parseAnd d) s"
| "parseAnd d s = binary_chain [T_And, T_AndAnd] (\<lambda>_. ''&&'') (parseNot d) s"
| "parseNot d s =
     cond (check T_Bang) (nested_unary d (\<lambda>_. ''!'') (parseNot (d + 1))) (parseComparison d) s"
| "parseComparison d s = binary_chain [T_EqualEqual, T_BangEqual] tok_text (parseRelational d) s"
| "parseRelational d s = relational_chain (parseAddition d) s"
| "parseAddition d s = binary_chain [T_Plus, T_Minus] tok_text (parseMultiplication d) s"
| "parseMultiplication d s =
     binary_chain [T_Star, T_Slash, T_Percent] tok_text (parseUnary d) s"
| "parseUnary d s =
     cond (check_any [T_Minus, T_Plus]) (nested_unary d tok_text (parseUnary (d + 1)))
       (bind (parsePrimary d) (parsePostfix d)) s"
| "parsePrimary d s = primary_body (parseExpression d) s"
| "parsePostfix d e s = postfix_body (parseExpression d) e s"
  by pat_completeness auto
termination
proof -
  let ?f = "\<lambda>(n::nat) (d, s::parser_state). (d, n)"
  let ?m = "case_sum
    (case_sum (case_sum (?f 0) (?f 9)) (case_sum (?f 8) (case_sum (?f 7) (?f 6))))
    (case_sum (case_sum (?f 5) (case_sum (?f 4) (?f 3)))
      (case_sum (?f 2) (case_sum (?f 1) (\<lambda>(d, e::expression, s::parser_state). (d, 1)))))"
  show ?thesis
    by (relation "measures [\<lambda>x. maximumNesting - fst (?m x), \<lambda>x. snd (?m x)]") auto
qed

declare parseExpression.simps [simp del] parseOr.simps [simp del] parseAnd.simps [simp del]
  parseNot.simps [simp del] parseComparison.simps [simp del] parseRelational.simps [simp del]
  parseAddition.simps [simp del] parseMultiplication.simps [simp del] parseUnary.simps [simp del]
  parsePrimary.simps [simp del] parsePostfix.simps [simp del]

end
