(* ===== verification/Parser_Stmt.thy ===== *)
theory Parser_Stmt
  imports Parser_Expr
begin

text \<open>
  Types, parameters and statements (\<open>parseType\<close> and \<open>parseParameters\<close> of
  \<open>src/ParserClass.cpp\<close>, \<open>parseBlock\<close> to \<open>parseTry\<close> of \<open>src/Parser.cpp\<close>). A statement
  body takes the depth \<open>d\<close> at which it runs and the parser of the blocks below it.
\<close>

subsection \<open>Types\<close>

text \<open>\<open>if (type.back() != '(') type += ","; type += parseType();\<close> over the parameters.\<close>

definition append_parameter :: "string \<Rightarrow> string \<Rightarrow> string" where
  "append_parameter type parameter =
     (if last type \<noteq> CHR ''('' then type @ '','' else type) @ parameter"

definition callback_text :: "string \<Rightarrow> string list \<Rightarrow> string" where
  "callback_text result parameters =
     foldl append_parameter (''callback<'' @ result @ ''('') parameters @ '')>''"

definition type_body :: "(bool \<Rightarrow> string parser) \<Rightarrow> bool \<Rightarrow> string parser" where
  "type_body parseTyp allowVoid = bind current (\<lambda>t.
     if tok_type t = T_CallbackType then
       andThen step (andThen (consume T_Less (quoted ''<'' @ '' after callback''))
         (bind (parseTyp True) (\<lambda>result.
         andThen (consume T_LeftParen (quoted ''('' @ '' before callback parameter types''))
         (bind (comma_list_until T_RightParen (parseTyp False)) (\<lambda>parameters.
         andThen (consume T_RightParen (quoted '')'' @ '' after callback parameter types''))
         (andThen (consume T_Greater (quoted ''>'' @ '' after callback signature''))
           (ret (callback_text result parameters))))))))
     else case map_of type_words (tok_type t) of
       Some word \<Rightarrow> andThen step (ret word)
     | None \<Rightarrow>
         if allowVoid \<and> tok_type t = T_Void then andThen step (ret ''void'')
         else if tok_type t = T_Identifier then
           andThen step (loop (\<lambda>type. cond (match T_Dot)
               (bind (consume T_Identifier ''type name component'') (\<lambda>component.
                  again (type @ ''.'' @ tok_text component)))
               (leave type)) (tok_text t))
         else error_at t ''expected type name'')"

function parseType :: "nat \<Rightarrow> bool \<Rightarrow> string parser" where
  "parseType d allowVoid s = guard d (type_body (parseType (d + 1)) allowVoid) s"
  by pat_completeness auto
termination by (relation "measure (\<lambda>(d, v, s). maximumNesting - d)") auto

declare parseType.simps [simp del]

definition parseParameter :: "nat \<Rightarrow> parameter parser" where
  "parseParameter d =
     bind current (\<lambda>t. bind (parseType d False) (\<lambda>type.
     bind (consume T_Identifier ''parameter name'') (\<lambda>name.
       ret \<lparr>pa_type = type, pa_name = tok_text name, pa_location = tok_location t\<rparr>)))"

definition parseParameters :: "nat \<Rightarrow> parameter list parser" where
  "parseParameters d =
     andThen (consume T_LeftParen (quoted ''('' @ '' before parameters''))
       (bind (comma_list_until T_RightParen (parseParameter d)) (\<lambda>parameters.
          andThen (consume T_RightParen (quoted '')'' @ '' after parameters'')) (ret parameters)))"

subsection \<open>Inline C\<close>

definition member_node :: "token \<Rightarrow> expression \<Rightarrow> expression" where
  "member_node name target =
     Expression (node_info EK_Member (tok_location name) (tok_text name)) (Some target) None []"

definition parseCapture :: "nat \<Rightarrow> inline_capture parser" where
  "parseCapture d =
     bind current (\<lambda>t. bind (parseType d True) (\<lambda>type. bind (match T_Dot) (\<lambda>dot.
     bind (consume T_Identifier ''capture name'') (\<lambda>name.
     bind (loop (\<lambda>target. cond (match T_Dot)
            (bind (consume T_Identifier (''capture field after '' @ quoted ''.'')) (\<lambda>field.
               bind (validated (member_node field target)) again))
            (leave target))
          (if dot then member_node name
                         (Expression (node_info EK_ImplicitThis (tok_location t) []) None None [])
           else leaf EK_Identifier name (tok_text name)))
       (\<lambda>target. ret \<lparr>ic_type = type, ic_name = value_of target, ic_location = tok_location t,
                     ic_target = Some target\<rparr>)))))"

definition parseInlineC :: "nat \<Rightarrow> statement parser" where
  "parseInlineC d =
     bind (consume T_Inline (quoted ''inline'')) (\<lambda>keyword.
     bind (cond (match T_LeftParen)
         (bind (comma_list_until T_RightParen (parseCapture d)) (\<lambda>captures.
            andThen (consume T_RightParen (quoted '')'' @ '' after inline capture list''))
              (ret captures)))
         (ret [])) (\<lambda>captures.
     bind (consume T_InlineBody ''inline C block body'') (\<lambda>source.
     andThen consumeStatementTerminator
       (ret (simple_statement ((statement_at SK_InlineC (tok_location keyword))
          \<lparr>st_inlineSource := tok_text source, st_inlineCaptures := captures\<rparr>))))))"

subsection \<open>Simple statements\<close>

definition push_pending :: "statement \<Rightarrow> unit parser" where
  "push_pending statement s = Inr ((), s\<lparr>p_pending := p_pending s @ [statement]\<rparr>)"

definition take_pending :: "statement list parser" where
  "take_pending s = Inr (p_pending s, s\<lparr>p_pending := []\<rparr>)"

text \<open>The inline statement behind a declaration also captures the declared variable.\<close>

definition add_capture :: "inline_capture \<Rightarrow> statement \<Rightarrow> statement" where
  "add_capture capture statement =
     (case statement of Statement i b a c h \<Rightarrow>
        Statement (i\<lparr>st_inlineCaptures := st_inlineCaptures i @ [capture]\<rparr>) b a c h)"

definition declaration_value :: "nat \<Rightarrow> token \<Rightarrow> string \<Rightarrow> expression list parser" where
  "declaration_value d type typeName =
     cond (match T_Equal) (bind (parseExpression d) (\<lambda>e. ret [e]))
       (bind (if tok_type type = T_Identifier then match T_LeftParen else ret False) (\<lambda>constructs.
          if constructs then
            bind (comma_list_until T_RightParen (parseExpression d)) (\<lambda>args.
            andThen (consume T_RightParen (quoted '')'' @ '' after constructor arguments''))
            (bind (validated (with_arguments EK_ConstructorCall type typeName args)) (\<lambda>e.
              ret [e])))
          else ret []))"

definition parseDeclaration :: "nat \<Rightarrow> statement parser" where
  "parseDeclaration d =
     bind current (\<lambda>type. bind (parseType d False) (\<lambda>typeName.
     bind (consume T_Identifier ''identifier (keywords are reserved)'') (\<lambda>name.
     bind (declaration_value d type typeName) (\<lambda>values.
       let statement = simple_statement ((statement_at SK_Declaration (tok_location type))
             \<lparr>st_name := tok_text name, st_declaredType := typeName, st_expressions := values\<rparr>)
       in cond (check T_Inline)
            (if values \<noteq> [] then
               error_current ''inline capture declaration cannot have an initializer''
             else bind (parseInlineC d) (\<lambda>inline.
               andThen (push_pending (add_capture
                   \<lparr>ic_type = typeName, ic_name = tok_text name, ic_location = tok_location type,
                    ic_target = None\<rparr> inline))
                 (ret statement)))
            (andThen consumeStatementTerminator (ret statement))))))"

text \<open>The index behind a dotted path of identifiers.\<close>

function dotted_end :: "token list \<Rightarrow> nat \<Rightarrow> nat" where
  "dotted_end tokens lookahead =
     (if lookahead + 1 < length tokens \<and> tok_type (tokens ! lookahead) = T_Dot \<and>
         tok_type (tokens ! (lookahead + 1)) = T_Identifier
      then dotted_end tokens (lookahead + 2) else lookahead)"
  by pat_completeness auto
termination by (relation "measure (\<lambda>(ts, i). length ts - i)") auto

declare dotted_end.simps [simp del]

definition startsDeclaration :: "bool parser" where
  "startsDeclaration = bind current (\<lambda>t s.
     let lookahead = (if tok_type t = T_Identifier then dotted_end (p_tokens s) (p_current s + 1)
                      else p_current s)
     in Inr (lookahead < length (p_tokens s) \<and>
             tok_type (p_tokens s ! lookahead) = T_Identifier, s))"

definition assignment_operators :: "token_type list" where
  "assignment_operators =
     [T_Equal, T_PlusEqual, T_MinusEqual, T_StarEqual, T_SlashEqual, T_PercentEqual]"

definition parseExpressionStatement :: "nat \<Rightarrow> statement parser" where
  "parseExpressionStatement d =
     cond startsDeclaration (parseDeclaration d)
       (bind (parseExpression d) (\<lambda>e.
          cond (check_any assignment_operators)
            (bind take_token (\<lambda>operator. bind (parseExpression d) (\<lambda>val.
             andThen consumeStatementTerminator
               (ret (simple_statement ((statement_at SK_Assignment (location_of e))
                  \<lparr>st_assignmentOperator := tok_text operator,
                   st_assignmentOperatorLocation := tok_location operator,
                   st_target := Some e, st_expressions := [val]\<rparr>))))))
            (if kind_of e \<noteq> EK_Call \<and> kind_of e \<noteq> EK_ConstructorCall then
               error_current ''only method calls may be used as expression statements''
             else andThen consumeStatementTerminator
               (ret (simple_statement ((statement_at SK_Expression (location_of e))
                  \<lparr>st_expressions := [e]\<rparr>))))))"

definition parseReturn :: "nat \<Rightarrow> statement parser" where
  "parseReturn d =
     bind (consume T_Return (quoted ''return'')) (\<lambda>keyword.
     bind (check T_LeftParen) (\<lambda>open'. bind (next_token (\<lambda>t. t = T_RightParen)) (\<lambda>close.
       if open' \<and> close then
         andThen (match T_LeftParen) (andThen (match T_RightParen)
           (andThen consumeStatementTerminator
             (ret (simple_statement (statement_at SK_Return (tok_location keyword))))))
       else
         bind (cond (check_any [T_Newline, T_RightBrace, T_End]) (ret [])
            (bind (parseExpression d) (\<lambda>e. ret [e]))) (\<lambda>values.
         andThen consumeStatementTerminator
           (ret (simple_statement ((statement_at SK_Return (tok_location keyword))
              \<lparr>st_expressions := values\<rparr>)))))))"

definition parseSuperConstructorCall :: "nat \<Rightarrow> statement parser" where
  "parseSuperConstructorCall d =
     bind current (\<lambda>keyword.
     bind (cond (match T_Super) (match T_Virtual)
         (andThen (consume T_Virtual (quoted ''virtual''))
            (andThen (consume T_Super (quoted ''super'' @ '' after virtual'')) (ret True))))
       (\<lambda>isVirtual.
     bind (consume T_Identifier ''base class name after super'') (\<lambda>name.
     andThen (consume T_LeftParen (quoted ''('' @ '' after base class name''))
       (bind (comma_list_until T_RightParen (parseExpression d)) (\<lambda>args.
        andThen (consume T_RightParen (quoted '')'' @ '' after base constructor arguments''))
        (andThen consumeStatementTerminator
          (ret (simple_statement ((statement_at SK_SuperConstructorCall (tok_location keyword))
             \<lparr>st_name := tok_text name, st_virtualBaseInitializer := isVirtual,
              st_expressions := args\<rparr>)))))))))"

definition print_format :: "nat \<Rightarrow> token \<Rightarrow> expression \<Rightarrow> expression parser" where
  "print_format d keyword e =
     (if kind_of e \<noteq> EK_String then
        error_at keyword ''formatted print requires a string literal template''
      else bind (format_arguments (parseExpression d) (with_kind EK_FormatString e)) format_validated)"

definition parsePrint :: "nat \<Rightarrow> statement parser" where
  "parsePrint d =
     bind (consume T_Print (quoted ''print'')) (\<lambda>keyword.
     andThen (consume T_LeftParen (quoted ''('' @ '' after print''))
       (bind (cond (check T_RightParen) (ret [])
           (bind (parseExpression d) (\<lambda>e.
              cond (match T_Comma) (bind (print_format d keyword e) (\<lambda>f. ret [f])) (ret [e]))))
         (\<lambda>values.
        andThen (consume T_RightParen (quoted '')'' @ '' after print arguments''))
        (andThen consumeStatementTerminator
          (ret (simple_statement ((statement_at SK_Print (tok_location keyword))
             \<lparr>st_expressions := values\<rparr>)))))))"

definition parseLoopControl :: "statement parser" where
  "parseLoopControl =
     bind take_token (\<lambda>keyword.
     andThen consumeStatementTerminator
       (ret (simple_statement (statement_at
          (if tok_type keyword = T_Break then SK_Break else SK_Continue) (tok_location keyword)))))"

definition parseRaise :: "nat \<Rightarrow> statement parser" where
  "parseRaise d =
     bind (consume T_Raise (quoted ''raise'')) (\<lambda>keyword.
     andThen (consume T_LeftParen (quoted ''('' @ '' after raise''))
       (bind (cond (match T_RightParen) (ret [])
           (bind (parseExpression d) (\<lambda>e.
              andThen (consume T_RightParen (quoted '')'' @ '' after raised expression''))
                (ret [e])))) (\<lambda>values.
        andThen consumeStatementTerminator
          (ret (simple_statement ((statement_at SK_Raise (tok_location keyword))
             \<lparr>st_rethrowsException := (values = []), st_expressions := values\<rparr>))))))"

subsection \<open>Compound statements\<close>

type_synonym block_parser = "statement list parser"

definition condition :: "nat \<Rightarrow> string \<Rightarrow> string \<Rightarrow> expression parser" where
  "condition d before_it after_it =
     andThen (consume T_LeftParen before_it) (bind (parseExpression d) (\<lambda>e.
       andThen (consume T_RightParen after_it) (ret e)))"

definition parseIf :: "nat \<Rightarrow> block_parser \<Rightarrow> statement parser" where
  "parseIf d parseBlk =
     bind (consume T_If (quoted ''if'')) (\<lambda>keyword.
     bind (condition d (quoted ''('' @ '' after if'') (quoted '')'' @ '' after if condition'')) (\<lambda>e.
     andThen skipNewlines (bind parseBlk (\<lambda>body. andThen skipNewlines
       (cond (match T_Else)
          (cond (check T_LeftParen)
             (error_current (''unconditional '' @ quoted ''else'' @ '' cannot have a condition''))
             (bind parseBlk (\<lambda>alternate.
                ret (Statement ((statement_at SK_If (tok_location keyword))
                   \<lparr>st_expressions := [e], st_hasAlternate := True\<rparr>) body alternate [] []))))
          (ret (Statement ((statement_at SK_If (tok_location keyword))
             \<lparr>st_expressions := [e]\<rparr>) body [] [] [])))))))"

definition parseWhile :: "nat \<Rightarrow> block_parser \<Rightarrow> statement parser" where
  "parseWhile d parseBlk =
     bind (consume T_While (quoted ''while'')) (\<lambda>keyword.
     bind (condition d (quoted ''('' @ '' after while'') (quoted '')'' @ '' after while condition'')) (\<lambda>e.
     andThen skipNewlines (bind parseBlk (\<lambda>body.
       ret (Statement ((statement_at SK_While (tok_location keyword))\<lparr>st_expressions := [e]\<rparr>)
         body [] [] [])))))"

definition parseDoWhile :: "nat \<Rightarrow> block_parser \<Rightarrow> statement parser" where
  "parseDoWhile d parseBlk =
     bind (consume T_Do (quoted ''do'')) (\<lambda>keyword.
     andThen skipNewlines (bind parseBlk (\<lambda>body.
     andThen skipNewlines (andThen (consume T_While (quoted ''while'' @ '' after do-while body''))
       (bind (condition d (quoted ''('' @ '' after while'')
                (quoted '')'' @ '' after do-while condition'')) (\<lambda>e.
          ret (Statement ((statement_at SK_DoWhile (tok_location keyword))\<lparr>st_expressions := [e]\<rparr>)
            body [] [] [])))))))"

definition parseForEach :: "nat \<Rightarrow> block_parser \<Rightarrow> statement parser" where
  "parseForEach d parseBlk =
     bind (consume T_For (quoted ''for'')) (\<lambda>keyword.
     andThen (consume T_LeftParen (quoted ''('' @ '' after for''))
     (bind (consume T_Identifier ''iteration variable'') (\<lambda>first.
      bind (cond (match T_Comma)
          (bind (consume T_Identifier ''value iteration variable'') (\<lambda>second.
             ret (tok_text first, tok_text second)))
          (ret ([], tok_text first))) (\<lambda>names.
      andThen (consume T_In (quoted ''in'' @ '' after iteration variable''))
      (bind (parseExpression d) (\<lambda>e.
       andThen (consume T_RightParen (quoted '')'' @ '' after collection expression''))
       (andThen skipNewlines (bind parseBlk (\<lambda>body.
          ret (Statement ((statement_at SK_ForEach (tok_location keyword))
             \<lparr>st_keyName := fst names, st_name := snd names, st_expressions := [e]\<rparr>)
             body [] [] []))))))))))"

definition parseHandler :: "block_parser \<Rightarrow> exception_handler parser" where
  "parseHandler parseBlk =
     bind previous (\<lambda>keyword.
     andThen (consume T_LeftParen (quoted ''('' @ '' after except''))
     (bind (cond (check T_RightParen) (ret []) (parseQualifiedIdentifier ''exception class name''))
        (\<lambda>type.
      andThen (consume T_RightParen (quoted '')'' @ '' after exception class name''))
      (bind (cond (match T_As)
          (bind (consume T_Identifier ''exception binding name'') (\<lambda>t. ret (Some (tok_text t))))
          (ret None)) (\<lambda>name.
       andThen skipNewlines (bind parseBlk (\<lambda>body.
         ret (ExceptionHandler
           \<lparr>eh_location = tok_location keyword, eh_exceptionType = type,
            eh_name = (case name of None \<Rightarrow> [] | Some n \<Rightarrow> n), eh_hasBinding = (name \<noteq> None)\<rparr>
           body)))))))) "

definition parseTry :: "block_parser \<Rightarrow> statement parser" where
  "parseTry parseBlk =
     bind (consume T_Try (quoted ''try'')) (\<lambda>keyword.
     andThen skipNewlines (bind parseBlk (\<lambda>body. andThen skipNewlines
     (bind (loop (\<lambda>handlers. cond (match T_Except)
             (bind (parseHandler parseBlk) (\<lambda>h. andThen skipNewlines (again (handlers @ [h]))))
             (leave handlers)) []) (\<lambda>handlers.
      bind (cond (match T_Finally)
          (andThen skipNewlines (bind parseBlk (\<lambda>cleanup.
             andThen skipNewlines (ret (Some cleanup)))))
          (ret None)) (\<lambda>cleanup.
      if handlers = [] \<and> cleanup = None then
        error_current (quoted ''try'' @ '' requires an '' @ quoted ''except'' @ '' or '' @
          quoted ''finally'' @ '' block'')
      else ret (Statement ((statement_at SK_Try (tok_location keyword))
             \<lparr>st_hasCleanup := (cleanup \<noteq> None)\<rparr>)
             body [] (case cleanup of None \<Rightarrow> [] | Some c \<Rightarrow> c) handlers)))))))"

subsection \<open>Statements and blocks\<close>

definition declaration_starts :: "token_type list" where
  "declaration_starts =
     [T_Int, T_Bool, T_FloatType, T_Unsigned, T_StrgType, T_ListType, T_DictType, T_BufferType,
      T_HandleType, T_AnyType, T_TypeType, T_CallbackType, T_Void]"

definition only_top_level :: "string \<Rightarrow> 'a parser" where
  "only_top_level word = error_current (quoted word @ '' is only allowed at top level'')"

definition parseStatement :: "nat \<Rightarrow> block_parser \<Rightarrow> statement parser" where
  "parseStatement d parseBlk =
     cond (check T_Import) (only_top_level ''import'')
     (cond (check T_Include) (only_top_level ''include'')
     (cond (check T_Inline) (parseInlineC d)
     (cond (check_any declaration_starts) (parseDeclaration d)
     (cond (check_any [T_Identifier, T_LeftParen]) (parseExpressionStatement d)
     (cond (check T_Print) (parsePrint d)
     (cond (check T_If) (parseIf d parseBlk)
     (cond (check T_While) (parseWhile d parseBlk)
     (cond (check T_Do) (parseDoWhile d parseBlk)
     (cond (check T_For) (parseForEach d parseBlk)
     (cond (check_any [T_Break, T_Continue]) parseLoopControl
     (cond (check T_Raise) (parseRaise d)
     (cond (check T_Try) (parseTry parseBlk)
     (cond (check T_LeftBrace)
        (bind current (\<lambda>t. bind parseBlk (\<lambda>body.
           ret (Statement (statement_at SK_Block (tok_location t)) body [] [] []))))
     (cond (check T_Return) (parseReturn d)
     (cond (check_any [T_Super, T_Virtual]) (parseSuperConstructorCall d)
        (bind current (\<lambda>t.
           error_at t (''expected statement, found '' @ tokenTypeName (tok_type t)))))))))))))))))))"

definition block_ends :: "token_type list" where
  "block_ends = [T_RightBrace, T_End]"

definition block_body :: "statement parser \<Rightarrow> block_parser" where
  "block_body parseStmt =
     andThen skipNewlines (andThen (consume T_LeftBrace (quoted ''{''))
     (bind (loop (\<lambda>statements. cond (check_any block_ends) (leave statements)
          (andThen skipNewlines
            (cond (check_any block_ends) (leave statements)
              (bind parseStmt (\<lambda>statement. bind take_pending (\<lambda>pending.
                 again (statements @ [statement] @ pending))))))) [])
       (\<lambda>statements. andThen (consume T_RightBrace (quoted ''}'')) (ret statements))))"

function parseBlock :: "nat \<Rightarrow> block_parser" where
  "parseBlock d s = guard d (block_body (parseStatement (d + 1) (parseBlock (d + 1)))) s"
  by pat_completeness auto
termination by (relation "measure (\<lambda>(d, s). maximumNesting - d)") auto

declare parseBlock.simps [simp del]

end
