(* ===== verification/Parser_Expr_Spec.thy ===== *)
theory Parser_Expr_Spec
  imports Parser_Expr Callback_Type
begin

text \<open>
  What the expression parser promises the later phases: which children every node has, so
  that no absent child is ever followed, and a bounded depth. The proof runs every body
  through the rules of \<open>Parser_State\<close> under the promise of its callees.
\<close>

subsection \<open>The shape of a node\<close>

definition plain :: "expression_info \<Rightarrow> bool" where
  "plain i \<longleftrightarrow> ex_formatSegments i = [] \<and> ex_formatSpecs i = [] \<and> ex_formatArgumentIndices i = [] \<and>
     ex_argumentNames i = [] \<and> ex_argumentNameLocations i = []"

definition leaf_kinds :: "expression_kind list" where
  "leaf_kinds =
     [EK_Integer, EK_Unsigned, EK_Float, EK_Boolean, EK_String, EK_Identifier, EK_Null, EK_TypeName]"

text \<open>The children that a node of a kind has: left, right and the number of arguments.\<close>

definition shape_ok :: "expression_info \<Rightarrow> bool \<Rightarrow> bool \<Rightarrow> nat \<Rightarrow> bool" where
  "shape_ok i l r n \<longleftrightarrow>
     (if ex_kind i = EK_FormatString then \<not> l \<and> \<not> r \<and> format_ok i n \<and> all_used i n
      else plain i \<and>
        (case ex_kind i of
           EK_Unary \<Rightarrow> l \<and> \<not> r \<and> n = 0
         | EK_Binary \<Rightarrow> l \<and> r \<and> n = 0
         | EK_Member \<Rightarrow> l \<and> \<not> r \<and> n = 0
         | EK_ObjectCast \<Rightarrow> l \<and> \<not> r \<and> n = 0
         | EK_TypeTest \<Rightarrow> l \<and> \<not> r \<and> n = 0
         | EK_TypeOf \<Rightarrow> l \<and> \<not> r \<and> n = 0
         | EK_Call \<Rightarrow> l \<and> \<not> r
         | EK_ConstructorCall \<Rightarrow> \<not> l \<and> \<not> r
         | EK_BufferConstructor \<Rightarrow> \<not> l \<and> \<not> r
         | EK_BufferLiteral \<Rightarrow> \<not> l \<and> \<not> r
         | EK_ArrayLiteral \<Rightarrow> \<not> l \<and> \<not> r
         | EK_MapLiteral \<Rightarrow> \<not> l \<and> \<not> r \<and> even n
         | EK_Index \<Rightarrow> l \<and> \<not> r \<and> n = 1
         | EK_Slice \<Rightarrow> l \<and> \<not> r \<and> n = 3
         | EK_Cast \<Rightarrow> \<not> l \<and> \<not> r \<and> n = 1
         | kind \<Rightarrow> kind \<in> set leaf_kinds \<and> \<not> l \<and> \<not> r \<and> n = 0))"

fun well_shaped :: "expression \<Rightarrow> bool" where
  "well_shaped (Expression i l r args) \<longleftrightarrow>
     shape_ok i (l \<noteq> None) (r \<noteq> None) (length args) \<and>
     (case l of None \<Rightarrow> True | Some e \<Rightarrow> well_shaped e) \<and>
     (case r of None \<Rightarrow> True | Some e \<Rightarrow> well_shaped e) \<and> list_all well_shaped args"

definition expr_ok :: "expression \<Rightarrow> bool" where
  "expr_ok e \<longleftrightarrow> well_shaped e \<and> tree_depth e \<le> maximumNesting"

lemma expr_ok_shaped: "expr_ok e \<Longrightarrow> well_shaped e"
  by (simp add: expr_ok_def)

lemma expr_ok_list: "list_all expr_ok es \<Longrightarrow> list_all well_shaped es"
  by (auto simp: list_all_iff expr_ok_def)

lemmas node_defs = node_info_def default_expression_info_def leaf_def unary_node_def binary_node_def
  with_arguments_def parseTypeName_def omitted_value_def

lemma shaped_nodes:
  "well_shaped e \<Longrightarrow> well_shaped (unary_node t w e)"
  "well_shaped l \<Longrightarrow> well_shaped r \<Longrightarrow> well_shaped (binary_node t w l r)"
  "kind \<in> set leaf_kinds \<Longrightarrow> well_shaped (leaf kind t w)"
  "well_shaped (parseTypeName t w)" "well_shaped (omitted_value loc w)"
  by (auto simp: shape_ok_def node_defs plain_def leaf_kinds_def)

subsection \<open>Names\<close>

lemma identifier_simple_name: "identifier_text w \<Longrightarrow> simple_name w"
  by (cases w) (auto simp: identifier_text_def simple_name_def list_all_iff isIdentifierStart_def
      isIdentifierPart_def char_class_defs less_eq_char_def)

lemma simple_name_dot:
  "simple_name v \<Longrightarrow> simple_name w \<Longrightarrow> simple_name (v @ CHR ''.'' # w)"
  by (simp add: simple_name_def)

lemma token_ok_identifier: "token_ok t \<Longrightarrow> tok_type t = T_Identifier \<Longrightarrow> simple_name (tok_text t)"
  by (auto simp: token_ok_def intro: identifier_simple_name)

lemma yields_parseQualifiedIdentifier: "yields simple_name (parseQualifiedIdentifier m)"
  unfolding parseQualifiedIdentifier_def
proof (intro yieldsI runs_intro)
  fix s t s' assume s: "p_ok s" "reaches s s'" "p_current s' = Suc (p_current s)"
    and t: "token_ok t" "tok_type t = T_Identifier"
  show "runs s' (loop (\<lambda>name. cond (match T_Dot)
           (bind (consume T_Identifier m) (\<lambda>t. again (name @ ''.'' @ tok_text t)))
           (leave name)) (tok_text t)) (\<lambda>x u. reaches s u \<and> p_current s < p_current u \<and> simple_name x)"
  proof (rule runs_loop [where I = simple_name])
    fix x u assume "reaches s' u" "p_ok u" "simple_name x"
    then show "runs u (cond (match T_Dot)
           (bind (consume T_Identifier m) (\<lambda>t. again (x @ ''.'' @ tok_text t))) (leave x))
         (\<lambda>r v. reaches u v \<and> (case r of Inl y \<Rightarrow> p_current u < p_current v \<and> simple_name y
           | Inr z \<Rightarrow> reaches s' v \<longrightarrow> reaches s v \<and> p_current s < p_current v \<and> simple_name z))"
      using s by (intro runs_intro)
        (auto simp: reaches_iff intro: simple_name_dot token_ok_identifier)
  qed (use s t in \<open>auto simp: reaches_iff intro: token_ok_identifier\<close>)
qed simp_all

subsection \<open>The bodies keep the promise\<close>

lemma runs_validated [runs_intro]:
  assumes "p_ok s" "tree_depth e \<le> maximumNesting \<Longrightarrow> R e s"
  shows "runs s (validated e) R"
  using assms validateExpressionDepth_iff [of 1 e]
  by (auto simp: validated_def runs_def split: sum.splits)

lemma runs_guard [runs_intro]:
  "p_ok s \<Longrightarrow> (d < maximumNesting \<Longrightarrow> runs s p R) \<Longrightarrow> runs s (guard d p) R"
  unfolding guard_def by (auto intro!: runs_intro)

lemma expr_okI: "well_shaped e \<Longrightarrow> tree_depth e \<le> maximumNesting \<Longrightarrow> expr_ok e"
  by (simp add: expr_ok_def)

lemma runs_parseTypeTestName [runs_intro]:
  assumes "p_ok s" "\<And>w s'. reaches s s' \<Longrightarrow> p_current s < p_current s' \<Longrightarrow> R w s'"
  shows "runs s (parseTypeTestName m) R"
proof -
  have words: "tok_type (tok s) \<noteq> T_End" if "map_of type_words (tok_type (tok s)) = Some w" for w
    using that by (auto simp: type_words_def split: if_splits)
  show ?thesis
    unfolding parseTypeTestName_def expected_type_name_def
    by (rule runs_bind, rule runs_current [OF assms(1)])
      (use assms in \<open>auto split: option.splits dest: words
        intro!: runs_intro runs_yields [OF yields_parseQualifiedIdentifier]\<close>)
qed

lemma yields_binary_chain:
  assumes "yields expr_ok operand" "T_End \<notin> set operators"
  shows "yields expr_ok (binary_chain operators f operand)"
  unfolding binary_chain_def
proof (intro yieldsI runs_intro runs_yields [OF assms(1)])
  fix s e s' assume s: "p_ok s" "reaches s s'" "p_current s < p_current s'" "expr_ok e"
  show "runs s' (loop (\<lambda>e. cond (check_any operators)
         (bind take_token (\<lambda>t. bind operand (\<lambda>r. bind (validated (binary_node t (f t) e r)) again)))
         (leave e)) e) (\<lambda>x u. reaches s u \<and> p_current s < p_current u \<and> expr_ok x)"
  proof (rule runs_loop [where I = expr_ok])
    fix x u assume "reaches s' u" "p_ok u" "expr_ok x"
    then show "runs u (cond (check_any operators)
         (bind take_token (\<lambda>t. bind operand (\<lambda>r. bind (validated (binary_node t (f t) x r)) again)))
         (leave x))
       (\<lambda>r v. reaches u v \<and> (case r of Inl y \<Rightarrow> p_current u < p_current v \<and> expr_ok y
         | Inr z \<Rightarrow> reaches s' v \<longrightarrow> reaches s v \<and> p_current s < p_current v \<and> expr_ok z))"
      using s assms(2) by (intro runs_intro runs_yields [OF assms(1)])
        (auto simp: reaches_iff intro: expr_okI shaped_nodes expr_ok_shaped)
  qed (use s in \<open>auto simp: reaches_iff\<close>)
qed

lemma yields_relational_chain:
  assumes "yields expr_ok operand"
  shows "yields expr_ok (relational_chain operand)"
  unfolding relational_chain_def
proof (intro yieldsI runs_intro runs_yields [OF assms])
  let ?body = "\<lambda>e. cond (check_any relational_operators)
         (bind take_token (\<lambda>operation.
            if tok_type operation = T_Is then
              bind current (\<lambda>t. bind (parseTypeTestName (quoted ''is'')) (\<lambda>name.
                bind (validated (Expression
                    ((node_info EK_TypeTest (tok_location operation) name)
                       \<lparr>ex_typeLocation := tok_location t\<rparr>) (Some e) None [])) again))
            else bind operand (\<lambda>r.
                bind (validated (binary_node operation (tok_text operation) e r)) again)))
         (leave e)"
  fix s e s' assume s: "p_ok s" "reaches s s'" "p_current s < p_current s'" "expr_ok e"
  show "runs s' (loop ?body e) (\<lambda>x u. reaches s u \<and> p_current s < p_current u \<and> expr_ok x)"
  proof (rule runs_loop [where I = expr_ok])
    fix x u assume u: "reaches s' u" "p_ok u" "expr_ok x"
    have "well_shaped (Expression ((node_info EK_TypeTest l w)\<lparr>ex_typeLocation := k\<rparr>) (Some x) None [])"
      for l w k using u by (simp add: shape_ok_def node_defs plain_def expr_ok_def)
    then show "runs u (?body x)
       (\<lambda>r v. reaches u v \<and> (case r of Inl y \<Rightarrow> p_current u < p_current v \<and> expr_ok y
         | Inr z \<Rightarrow> reaches s' v \<longrightarrow> reaches s v \<and> p_current s < p_current v \<and> expr_ok z))"
      using s u by (intro runs_intro runs_yields [OF assms])
        (auto simp: reaches_iff relational_operators_def
          intro: expr_okI shaped_nodes expr_ok_shaped)
  qed (use s in \<open>auto simp: reaches_iff\<close>)
qed

lemma yields_nested_unary:
  assumes "d < maximumNesting \<Longrightarrow> yields expr_ok operand" "p_ok s" "tok_type (tok s) \<noteq> T_End"
    and "\<And>x s'. reaches s s' \<Longrightarrow> p_current s < p_current s' \<Longrightarrow> expr_ok x \<Longrightarrow> R x s'"
  shows "runs s (nested_unary d f operand) R"
  unfolding nested_unary_def
  by (intro runs_intro runs_yields [OF assms(1)])
    (use assms(2,3) in \<open>auto simp: reaches_iff intro!: assms(4)
      intro: expr_okI shaped_nodes expr_ok_shaped\<close>)

lemma runs_option [runs_intro]:
  "(x = None \<Longrightarrow> runs s p R) \<Longrightarrow> (\<And>y. x = Some y \<Longrightarrow> runs s (q y) R)
    \<Longrightarrow> runs s (case x of None \<Rightarrow> p | Some y \<Rightarrow> q y) R"
  by (cases x) simp_all

lemma runs_named_type [runs_intro]:
  assumes "p_ok s" "tok_type (tok s) \<noteq> T_End"
    and "\<And>e s'. reaches s s' \<Longrightarrow> p_current s < p_current s' \<Longrightarrow> well_shaped e \<Longrightarrow> R e s'"
  shows "runs s (named_type t w) R"
  unfolding named_type_def using assms(1,2) by (auto intro!: runs_intro shaped_nodes assms(3))

lemma shaped_arguments:
  "list_all expr_ok es \<Longrightarrow>
     kind \<in> {EK_BufferLiteral, EK_BufferConstructor, EK_ArrayLiteral, EK_ConstructorCall} \<Longrightarrow>
     well_shaped (with_arguments kind t w es)"
  "list_all expr_ok es \<Longrightarrow> even (length es) \<Longrightarrow> well_shaped (with_arguments EK_MapLiteral t w es)"
  "expr_ok e \<Longrightarrow> well_shaped (with_arguments EK_Cast t w [e])"
  "expr_ok e \<Longrightarrow> well_shaped (Expression (node_info EK_TypeOf loc w) (Some e) None [])"
  by (auto simp: shape_ok_def node_defs plain_def expr_ok_list expr_ok_shaped)

lemma runs_list_node [runs_intro]:
  assumes "yields expr_ok pe" "p_ok s" "close \<noteq> T_End"
    and "kind \<in> {EK_BufferLiteral, EK_BufferConstructor, EK_ArrayLiteral, EK_ConstructorCall}"
    and "\<And>e s'. reaches s s' \<Longrightarrow> well_shaped e \<Longrightarrow> R e s'"
  shows "runs s (list_node pe kind t close m) R"
  unfolding list_node_def
  by (intro runs_intro runs_comma_list_until [OF assms(1)])
    (use assms(2-4) in \<open>auto simp: reaches_iff intro!: assms(5) shaped_arguments\<close>)

lemma runs_typeof_node [runs_intro]:
  assumes "yields expr_ok pe" "p_ok s"
    and "\<And>e s'. reaches s s' \<Longrightarrow> well_shaped e \<Longrightarrow> R e s'"
  shows "runs s (typeof_node pe t) R"
  unfolding typeof_node_def
  by (intro runs_intro runs_yields [OF assms(1)])
    (use assms(2) in \<open>auto simp: reaches_iff intro!: assms(3) shaped_arguments(4)\<close>)

lemma runs_cast_node [runs_intro]:
  assumes "yields expr_ok pe" "p_ok s" "tok_type (tok s) \<noteq> T_End"
    and "\<And>e s'. reaches s s' \<Longrightarrow> p_current s < p_current s' \<Longrightarrow> well_shaped e \<Longrightarrow> R e s'"
  shows "runs s (cast_node pe t w) R"
  unfolding cast_node_def
  by (intro runs_intro runs_yields [OF assms(1)])
    (use assms(2,3) in \<open>auto simp: reaches_iff intro!: assms(4) shaped_arguments(3)\<close>)

lemma runs_buffer_node [runs_intro]:
  assumes "yields expr_ok pe" "p_ok s" "tok_type (tok s) \<noteq> T_End"
    and "\<And>e s'. reaches s s' \<Longrightarrow> p_current s < p_current s' \<Longrightarrow> well_shaped e \<Longrightarrow> R e s'"
  shows "runs s (buffer_node pe t) R"
  unfolding buffer_node_def
  by (intro runs_intro assms(1)) (use assms(2,3) in \<open>auto simp: reaches_iff intro!: assms(4)\<close>)

lemma runs_dict_entries:
  assumes "yields expr_ok pe" "p_ok s"
    and "\<And>es s'. reaches s s' \<Longrightarrow> list_all expr_ok es \<Longrightarrow> even (length es) \<Longrightarrow> R es s'"
  shows "runs s (dict_entries pe) R"
  unfolding dict_entries_def
proof (rule runs_loop [where I = "\<lambda>es. list_all expr_ok es \<and> even (length es)"])
  fix es u assume "reaches s u" "p_ok u" "list_all expr_ok es \<and> even (length es)"
  then show "runs u (bind pe (\<lambda>k. andThen (consume T_Colon (quoted '':'' @ '' between dict key and value''))
         (bind pe (\<lambda>v. cond (match T_Comma) (again (es @ [k, v])) (leave (es @ [k, v]))))))
       (\<lambda>r v. reaches u v \<and> (case r of
          Inl y \<Rightarrow> p_current u < p_current v \<and> (list_all expr_ok y \<and> even (length y))
        | Inr z \<Rightarrow> reaches s v \<longrightarrow> R z v))"
    by (intro runs_intro runs_yields [OF assms(1)]) (auto simp: reaches_iff intro!: assms(3))
qed (use assms(2) in auto)

lemma runs_dict_node [runs_intro]:
  assumes "yields expr_ok pe" "p_ok s"
    and "\<And>e s'. reaches s s' \<Longrightarrow> well_shaped e \<Longrightarrow> R e s'"
  shows "runs s (dict_node pe t) R"
  unfolding dict_node_def
  by (intro runs_intro runs_dict_entries [OF assms(1)])
    (use assms(2) in \<open>auto simp: reaches_iff intro!: assms(3) shaped_arguments(2)\<close>)

lemma runs_grouped [runs_intro]:
  assumes "yields expr_ok pe" "p_ok s" "tok_type (tok s) \<noteq> T_End"
    and "\<And>e s'. reaches s s' \<Longrightarrow> p_current s < p_current s' \<Longrightarrow> well_shaped e \<Longrightarrow> R e s'"
  shows "runs s (grouped pe) R"
  unfolding grouped_def
  by (intro runs_intro runs_yields [OF assms(1)])
    (use assms(2,3) in \<open>auto simp: reaches_iff intro!: assms(4) expr_ok_shaped\<close>)

lemma literal_shaped: "literal t = Some e \<Longrightarrow> well_shaped e \<and> tok_type t \<noteq> T_End"
  by (auto simp: literal_def leaf_kinds_def intro!: shaped_nodes
      split: token_type.splits type_keyword.splits word_keyword.splits)

lemma yields_primary_body:
  assumes "yields expr_ok pe"
  shows "yields well_shaped (primary_body pe)"
proof (rule yieldsI)
  fix s assume s: "p_ok s"
  have bare: "tok_type (tok s) \<noteq> T_End" if "map_of bare_type_words (tok_type (tok s)) = Some w" for w
    using that by (auto simp: bare_type_words_def split: if_splits)
  have plain: "tok_type (tok s) \<noteq> T_End" if "map_of plain_type_words (tok_type (tok s)) = Some w" for w
    using that by (auto simp: plain_type_words_def split: if_splits)
  show "runs s (primary_body pe) (\<lambda>x s'. reaches s s' \<and> p_current s < p_current s' \<and> well_shaped x)"
    unfolding primary_body_def
    by (intro runs_intro assms s)
      (use s in \<open>auto dest: bare plain literal_shaped simp: reaches_iff\<close>)
qed

subsection \<open>Format calls\<close>

text \<open>A format expression whose arguments are still being read.\<close>

definition open_format :: "expression \<Rightarrow> bool" where
  "open_format e \<longleftrightarrow> kind_of e = EK_FormatString \<and> ex_left e = None \<and> ex_right e = None \<and>
     fresh_format (ex_info e) \<and> list_all expr_ok (ex_arguments e)"

lemma open_format_start:
  "well_shaped e \<Longrightarrow> kind_of e = EK_String \<Longrightarrow> open_format (with_kind EK_FormatString e)"
  "open_format e \<Longrightarrow> open_format (with_location l e)"
  by (cases e; auto simp: open_format_def with_kind_def with_location_def shape_ok_def plain_def
      fresh_format_def leaf_kinds_def)+

lemma open_format_add:
  "open_format e \<Longrightarrow> expr_ok a \<Longrightarrow> n = [] \<or> n \<notin> set (ex_argumentNames (ex_info e)) \<Longrightarrow>
     open_format (add_format_argument n l a e)"
  by (auto simp: open_format_def add_format_argument_def fresh_format_def expr_ok_def)

lemma open_format_validated:
  assumes "open_format e" "validateFormatString e = Inr e'"
  shows "well_shaped e' \<and> tree_depth e' \<le> Suc maximumNesting"
proof -
  obtain i args where e: "e = Expression i None None args" "fresh_format i"
      "ex_kind i = EK_FormatString" "list_all expr_ok args"
    using assms(1) by (cases e) (auto simp: open_format_def)
  then obtain i' where e': "e' = Expression i' None None args" "ex_kind i' = EK_FormatString"
      "format_ok i' (length args)" "all_used i' (length args)"
    using validateFormatString_result [of i None None args e'] assms(2) by auto
  then have "well_shaped e'" using e(4) by (simp add: shape_ok_def expr_ok_list)
  moreover have "tree_depth e' \<le> Suc maximumNesting"
    unfolding tree_depth_le using e(4) e'(1) by (auto simp: children_def list_all_iff expr_ok_def)
  ultimately show ?thesis by simp
qed

lemma runs_format_validated [runs_intro]:
  assumes "p_ok s" "open_format e"
    and "\<And>e'. well_shaped e' \<Longrightarrow> tree_depth e' \<le> Suc maximumNesting \<Longrightarrow> R e' s"
  shows "runs s (format_validated e) R"
  using assms open_format_validated
  by (auto simp: format_validated_def runs_def split: sum.splits)

lemma runs_format_argument_name [runs_intro]:
  assumes "p_ok s"
    and "\<And>n s'. reaches s s' \<Longrightarrow> n = [] \<or> n \<notin> set (ex_argumentNames (ex_info e)) \<Longrightarrow> R n s'"
  shows "runs s (format_argument_name e) R"
  unfolding format_argument_name_def
  by (intro runs_intro) (use assms(1) in \<open>auto simp: reaches_iff intro!: assms(2)\<close>)

lemma runs_format_arguments:
  assumes "yields expr_ok pe" "p_ok s" "open_format e"
    and "\<And>e' s'. reaches s s' \<Longrightarrow> open_format e' \<Longrightarrow> R e' s'"
  shows "runs s (format_arguments pe e) R"
  unfolding format_arguments_def
proof (rule runs_loop [where I = open_format])
  fix x t assume "reaches s t" "p_ok t" "open_format x"
  then show "runs t
        (bind current (\<lambda>ta. bind (format_argument_name x) (\<lambda>name. bind pe (\<lambda>argument.
           let format' = add_format_argument name (tok_location ta) argument x
           in cond (match T_Comma) (again format') (leave format')))))
        (\<lambda>r t'. reaches t t' \<and> (case r of Inl y \<Rightarrow> p_current t < p_current t' \<and> open_format y
           | Inr z \<Rightarrow> reaches s t' \<longrightarrow> R z t'))"
    unfolding Let_def
    by (intro runs_intro runs_yields [OF assms(1)])
      (auto simp: reaches_iff intro!: assms(4) open_format_add)
qed (use assms in auto)

lemma runs_format_call [runs_intro]:
  assumes "yields expr_ok pe" "p_ok s" "tok_type (tok s) \<noteq> T_End"
    and "\<And>e s'. reaches s s' \<Longrightarrow> p_current s < p_current s' \<Longrightarrow> well_shaped e \<Longrightarrow> R e s'"
  shows "runs s (format_call pe l) R"
  unfolding format_call_def Let_def
  by (intro runs_intro runs_yields [OF assms(1)] runs_format_arguments [OF assms(1)])
    (use assms(2,3) in \<open>auto simp: reaches_iff
      intro!: assms(4) open_format_start expr_ok_shaped\<close>)

subsection \<open>Postfix operators\<close>

lemma runs_previous [runs_intro]:
  assumes "p_ok s" "0 < p_current s" "R (p_tokens s ! (p_current s - 1)) s"
  shows "runs s previous R"
  using assms by (auto simp: previous_def token_at_def runs_def p_ok_def)

lemma runs_slice_rest [runs_intro]:
  assumes "yields expr_ok pe" "p_ok s" "well_shaped e" "well_shaped start"
    and "\<And>x s'. reaches s s' \<Longrightarrow> well_shaped x \<Longrightarrow> R x s'"
  shows "runs s (slice_rest pe l e b start) R"
proof -
  have slice: "well_shaped (Expression ((node_info EK_Slice l [])\<lparr>ex_sliceHasStart := b,
      ex_sliceHasEnd := c, ex_sliceHasStep := d\<rparr>) (Some e) None [start, x, y])"
    if "well_shaped x" "well_shaped y" for c d x y
    using that assms(3,4) by (simp add: shape_ok_def node_defs plain_def)
  show ?thesis
    unfolding slice_rest_def
    by (intro runs_intro runs_yields [OF assms(1)])
      (use assms(2) in \<open>auto simp: reaches_iff simp del: well_shaped.simps
        intro!: assms(5) slice shaped_nodes dest: expr_ok_shaped\<close>)
qed

lemma runs_access_node [runs_intro]:
  assumes "yields expr_ok pe" "p_ok s" "0 < p_current s" "well_shaped e"
    and "\<And>x s'. reaches s s' \<Longrightarrow> well_shaped x \<Longrightarrow> R x s'"
  shows "runs s (access_node pe e) R"
proof -
  have index: "well_shaped (Expression (node_info EK_Index l []) (Some e) None [x])" if "expr_ok x" for l x
    using that assms(4) by (simp add: shape_ok_def node_defs plain_def expr_ok_def)
  show ?thesis
    unfolding access_node_def
    by (intro runs_intro runs_yields [OF assms(1)] assms(1))
      (use assms(2-4) in \<open>auto simp: reaches_iff simp del: well_shaped.simps
        intro!: assms(5) index shaped_nodes dest: expr_ok_shaped\<close>)
qed

lemma runs_call_node [runs_intro]:
  assumes "yields expr_ok pe" "p_ok s" "tok_type (tok s) \<noteq> T_End" "well_shaped e"
    and "\<And>x s'. reaches s s' \<Longrightarrow> p_current s < p_current s' \<Longrightarrow> well_shaped x \<Longrightarrow> R x s'"
  shows "runs s (call_node pe e) R"
proof -
  have "well_shaped (if kind_of e = EK_Identifier
        then Expression (node_info EK_ConstructorCall (location_of e) (value_of e)) None None xs
        else Expression (node_info EK_Call (location_of e) []) (Some e) None xs)"
    if "list_all expr_ok xs" for xs
    using that assms(4) by (auto simp: shape_ok_def node_defs plain_def expr_ok_list)
  then show ?thesis
    unfolding call_node_def
    by (intro runs_intro runs_comma_list_until [OF assms(1)])
      (use assms(2,3) in \<open>auto simp: reaches_iff intro!: assms(5)\<close>)
qed

lemma runs_object_cast [runs_intro]:
  assumes "p_ok s" "0 < p_current s" "well_shaped e"
    and "\<And>x s'. reaches s s' \<Longrightarrow> well_shaped x \<Longrightarrow> R x s'"
  shows "runs s (object_cast e) R"
proof -
  have "well_shaped (Expression ((node_info EK_ObjectCast l w)\<lparr>ex_typeLocation := k\<rparr>) (Some e) None [])"
    for l w k using assms(3) by (simp add: shape_ok_def node_defs plain_def)
  then show ?thesis
    unfolding object_cast_def
    by (intro runs_intro) (use assms(1,2) in \<open>auto simp: reaches_iff intro!: assms(4)\<close>)
qed

lemma runs_postfix_body:
  assumes "yields expr_ok pe" "p_ok s" "well_shaped e"
    and "\<And>x s'. reaches s s' \<Longrightarrow> expr_ok x \<Longrightarrow> R x s'"
  shows "runs s (postfix_body pe e) R"
  unfolding postfix_body_def
proof (rule runs_loop [where I = well_shaped])
  fix e t assume t: "reaches s t" "p_ok t" "well_shaped e"
  have "well_shaped (Expression (node_info EK_Member l w) (Some e) None [])" for l w
    using t by (simp add: shape_ok_def node_defs plain_def)
  then show "runs t
     (bind (validated e) (\<lambda>e.
     cond (match T_As) (bind (object_cast e) again)
     (cond (match T_LeftBracket) (bind (access_node pe e) again)
     (cond (match T_Dot)
        (bind (consume T_Identifier (''member name after '' @ quoted ''.'')) (\<lambda>member.
           again (Expression (node_info EK_Member (tok_location member) (tok_text member))
             (Some e) None [])))
     (cond (check T_LeftParen)
        (if kind_of e = EK_String then
           error_current ''string-literal calls were removed; use format(template, values...)''
         else if kind_of e = EK_Identifier \<and> value_of e = ''format'' then
           bind (format_call pe (location_of e)) again
         else bind (call_node pe e) again)
        (leave e))))))
     (\<lambda>r t'. reaches t t' \<and> (case r of Inl y \<Rightarrow> p_current t < p_current t' \<and> well_shaped y
        | Inr z \<Rightarrow> reaches s t' \<longrightarrow> R z t'))"
    using t by (intro runs_intro assms(1))
      (auto simp: reaches_iff intro!: assms(4) expr_okI)
qed (use assms(2,3) in auto)

subsection \<open>The recursive descent\<close>

lemma parse_unfold:
  "parseExpression d = guard d (bind (parseOr (d + 1)) validated)"
  "parseOr d = binary_chain [T_Or, T_OrOr] (\<lambda>_. ''||'') (parseAnd d)"
  "parseAnd d = binary_chain [T_And, T_AndAnd] (\<lambda>_. ''&&'') (parseNot d)"
  "parseNot d =
     cond (check T_Bang) (nested_unary d (\<lambda>_. ''!'') (parseNot (d + 1))) (parseComparison d)"
  "parseComparison d = binary_chain [T_EqualEqual, T_BangEqual] tok_text (parseRelational d)"
  "parseRelational d = relational_chain (parseAddition d)"
  "parseAddition d = binary_chain [T_Plus, T_Minus] tok_text (parseMultiplication d)"
  "parseMultiplication d = binary_chain [T_Star, T_Slash, T_Percent] tok_text (parseUnary d)"
  "parseUnary d =
     cond (check_any [T_Minus, T_Plus]) (nested_unary d tok_text (parseUnary (d + 1)))
       (bind (parsePrimary d) (parsePostfix d))"
  "parsePrimary d = primary_body (parseExpression d)"
  "parsePostfix d e = postfix_body (parseExpression d) e"
  by (rule ext, subst parseExpression.simps parseOr.simps parseAnd.simps parseNot.simps
      parseComparison.simps parseRelational.simps parseAddition.simps parseMultiplication.simps
      parseUnary.simps parsePrimary.simps parsePostfix.simps, rule refl)+

lemma yields_descent:
  "yields expr_ok (parseExpression d) \<and> yields expr_ok (parseOr d) \<and> yields expr_ok (parseAnd d) \<and>
   yields expr_ok (parseNot d) \<and> yields expr_ok (parseRelational d) \<and>
   yields expr_ok (parseMultiplication d) \<and> yields expr_ok (parseUnary d)"
proof (induction "maximumNesting - d" arbitrary: d rule: less_induct)
  case less
  have next_depth: "yields expr_ok (parseOr (d + 1))" "yields expr_ok (parseNot (d + 1))"
    "yields expr_ok (parseUnary (d + 1))" if "d < maximumNesting"
    using less.hyps [of "d + 1"] that by auto
  have expression: "yields expr_ok (parseExpression d)"
  proof (rule yieldsI)
    fix s assume s: "p_ok s"
    show "runs s (parseExpression d) (\<lambda>x s'. reaches s s' \<and> p_current s < p_current s' \<and> expr_ok x)"
      unfolding parse_unfold(1)
      by (intro runs_intro runs_yields [OF next_depth(1)] s)
        (use s in \<open>auto simp: reaches_iff intro: expr_okI dest: expr_ok_shaped\<close>)
  qed
  have unary: "yields expr_ok (parseUnary d)"
  proof (rule yieldsI)
    fix s assume s: "p_ok s"
    show "runs s (parseUnary d) (\<lambda>x s'. reaches s s' \<and> p_current s < p_current s' \<and> expr_ok x)"
      by (subst parse_unfold(9), subst parse_unfold(10), subst parse_unfold(11) [THEN ext])
        (intro runs_intro yields_nested_unary [OF next_depth(3)] s
          runs_yields [OF yields_primary_body [OF expression]] runs_postfix_body [OF expression];
          use s in \<open>auto simp: reaches_iff\<close>)
  qed
  then have multiplication: "yields expr_ok (parseMultiplication d)"
    unfolding parse_unfold(8) by (rule yields_binary_chain) simp
  then have "yields expr_ok (parseAddition d)"
    unfolding parse_unfold(7) by (rule yields_binary_chain) simp
  then have relational: "yields expr_ok (parseRelational d)"
    unfolding parse_unfold(6) by (rule yields_relational_chain)
  then have comparison: "yields expr_ok (parseComparison d)"
    unfolding parse_unfold(5) by (rule yields_binary_chain) simp
  have negation: "yields expr_ok (parseNot d)"
  proof (rule yieldsI)
    fix s assume s: "p_ok s"
    show "runs s (parseNot d) (\<lambda>x s'. reaches s s' \<and> p_current s < p_current s' \<and> expr_ok x)"
      by (subst parse_unfold(4))
        (intro runs_intro yields_nested_unary [OF next_depth(2)] runs_yields [OF comparison] s;
          use s in auto)
  qed
  then have conjunction: "yields expr_ok (parseAnd d)"
    unfolding parse_unfold(3) by (rule yields_binary_chain) simp
  then have "yields expr_ok (parseOr d)"
    unfolding parse_unfold(2) by (rule yields_binary_chain) simp
  with expression unary multiplication relational negation conjunction show ?case by blast
qed

lemma yields_parseExpression: "yields expr_ok (parseExpression d)"
  using yields_descent by blast

end
