(* ===== verification/Parser_Stmt_Spec.thy ===== *)
theory Parser_Stmt_Spec
  imports Parser_Stmt Parser_Expr_Spec
begin

text \<open>
  What the parsers of types and statements promise: type names that the callback functions
  can take apart again, and statements with the expressions and blocks their kind needs.
\<close>

subsection \<open>Types\<close>

lemma type_name_last: "type_name w \<Longrightarrow> last w \<noteq> CHR ''(''"
proof (cases rule: type_name.cases)
  assume "type_name w" "simple_name w"
  then show ?thesis using simple_name_chars [of w] last_in_set [of w] by (auto simp: simple_name_def)
next
  fix r ps assume "w = callbackType r ps"
  then show ?thesis by (simp add: callbackType_def)
qed

lemma foldl_append_parameter:
  "list_all type_name ps \<Longrightarrow> v \<noteq> [] \<Longrightarrow> last v \<noteq> CHR ''('' \<Longrightarrow>
     foldl append_parameter v ps = v @ concat (map (\<lambda>p. '','' @ p) ps)"
proof (induction ps arbitrary: v)
  case (Cons p ps)
  then have "last (append_parameter v p) \<noteq> CHR ''(''"
    using type_name_nonempty [of p] type_name_last [of p] by (simp add: append_parameter_def)
  with Cons show ?case by (simp add: append_parameter_def)
qed simp

lemma join_commas: "join_with '','' (p # ps) = p @ concat (map (\<lambda>q. '','' @ q) ps)"
  by (induction ps arbitrary: p) simp_all

lemma callback_text_type:
  assumes "list_all type_name ps"
  shows "callback_text r ps = callbackType r ps"
proof (cases ps)
  case Nil
  then show ?thesis by (simp add: callback_text_def callbackType_def callback_prefix_def)
next
  case (Cons p qs)
  let ?v = "''callback<'' @ r @ ''('' @ p"
  have "foldl append_parameter ?v qs = ?v @ concat (map (\<lambda>q. '','' @ q) qs)"
    using assms Cons type_name_nonempty [of p] type_name_last [of p]
    by (intro foldl_append_parameter) auto
  moreover have "append_parameter (''callback<'' @ r @ ''('') p = ?v"
    by (simp add: append_parameter_def)
  ultimately show ?thesis
    using Cons by (simp add: callback_text_def callbackType_def callback_prefix_def join_commas)
qed

lemma type_words_simple: "map_of type_words t = Some w \<Longrightarrow> simple_name w \<and> t \<noteq> T_End"
proof -
  have "list_all (\<lambda>(t, w). simple_name w \<and> t \<noteq> T_End) type_words" by code_simp
  then show "map_of type_words t = Some w \<Longrightarrow> simple_name w \<and> t \<noteq> T_End"
    by (auto simp: list_all_iff dest!: map_of_SomeD)
qed

lemma runs_dotted_loop:
  assumes "p_ok s" "simple_name w" "\<And>x s'. reaches s s' \<Longrightarrow> simple_name x \<Longrightarrow> R x s'"
  shows "runs s (loop (\<lambda>type. cond (match T_Dot)
      (bind (consume T_Identifier m) (\<lambda>component. again (type @ ''.'' @ tok_text component)))
      (leave type)) w) R"
proof (rule runs_loop [where I = simple_name])
  fix x u assume "reaches s u" "p_ok u" "simple_name x"
  then show "runs u (cond (match T_Dot)
      (bind (consume T_Identifier m) (\<lambda>component. again (x @ ''.'' @ tok_text component))) (leave x))
      (\<lambda>r v. reaches u v \<and> (case r of Inl y \<Rightarrow> p_current u < p_current v \<and> simple_name y
         | Inr z \<Rightarrow> reaches s v \<longrightarrow> R z v))"
    by (intro runs_intro)
      (auto simp: reaches_iff intro: simple_name_dot token_ok_identifier intro!: assms(3))
qed (use assms in auto)

lemma yields_type_body:
  assumes rec: "\<And>v. yields type_name (rec v)"
  shows "yields type_name (type_body rec v)"
proof (rule yieldsI)
  fix s assume s: "p_ok s"
  have void: "type_name ''void''"
    by (rule type_name_simple) code_simp
  show "runs s (type_body rec v) (\<lambda>x s'. reaches s s' \<and> p_current s < p_current s' \<and> type_name x)"
    unfolding type_body_def
    by (intro runs_intro runs_yields [OF rec] runs_comma_list_until [OF rec] runs_dotted_loop s)
      (use s in \<open>auto simp: reaches_iff callback_text_type dest!: type_words_simple
        intro: type_name_callback type_name_simple token_ok_identifier void\<close>)
qed

lemma yields_parseType: "yields type_name (parseType d v)"
proof (induction "maximumNesting - d" arbitrary: d v rule: less_induct)
  case less
  have "yields type_name (guard d (type_body (parseType (d + 1)) v))"
  proof (cases "d < maximumNesting")
    case True
    then have "yields type_name (type_body (parseType (d + 1)) v)"
      by (intro yields_type_body less.hyps) simp
    with True show ?thesis by (simp add: guard_def)
  next
    case False
    then show ?thesis by (auto simp: guard_def intro!: yieldsI runs_intro)
  qed
  moreover have "parseType d v = guard d (type_body (parseType (d + 1)) v)"
    by (rule ext, subst parseType.simps) (rule refl)
  ultimately show ?case by simp
qed

definition parameter_ok :: "parameter \<Rightarrow> bool" where
  "parameter_ok p \<longleftrightarrow> type_name (pa_type p) \<and> identifier_text (pa_name p)"

lemma token_identifier: "token_ok t \<Longrightarrow> tok_type t = T_Identifier \<Longrightarrow> identifier_text (tok_text t)"
  by (simp add: token_ok_def)

lemma yields_parseParameter: "yields parameter_ok (parseParameter d)"
  unfolding parseParameter_def
  by (rule yieldsI, intro runs_intro runs_yields [OF yields_parseType])
    (auto simp: reaches_iff parameter_ok_def token_identifier)

lemma yields_parseParameters: "yields (list_all parameter_ok) (parseParameters d)"
  unfolding parseParameters_def
  by (rule yieldsI, intro runs_intro runs_comma_list_until [OF yields_parseParameter])
    (auto simp: reaches_iff)

subsection \<open>The shape of a statement\<close>

text \<open>
  How many expressions a statement of a kind carries. The arguments of a formatted print are
  below a node that is not checked again, so its tree may be one deeper.
\<close>

definition values_ok :: "statement_info \<Rightarrow> bool" where
  "values_ok i \<longleftrightarrow>
     (case st_kind i of
        SK_Declaration \<Rightarrow> length (st_expressions i) \<le> 1
      | SK_Assignment \<Rightarrow> length (st_expressions i) = 1
      | SK_Print \<Rightarrow> length (st_expressions i) \<le> 1
      | SK_If \<Rightarrow> length (st_expressions i) = 1
      | SK_While \<Rightarrow> length (st_expressions i) = 1
      | SK_DoWhile \<Rightarrow> length (st_expressions i) = 1
      | SK_ForEach \<Rightarrow> length (st_expressions i) = 1
      | SK_Return \<Rightarrow> length (st_expressions i) \<le> 1
      | SK_Expression \<Rightarrow> length (st_expressions i) = 1
      | SK_SuperConstructorCall \<Rightarrow> True
      | SK_Raise \<Rightarrow> length (st_expressions i) = (if st_rethrowsException i then 0 else 1)
      | _ \<Rightarrow> st_expressions i = []) \<and>
     list_all (\<lambda>e. well_shaped e \<and>
       tree_depth e \<le> (if st_kind i = SK_Print then Suc maximumNesting else maximumNesting))
       (st_expressions i) \<and>
     (case st_target i of None \<Rightarrow> st_kind i \<noteq> SK_Assignment
      | Some e \<Rightarrow> st_kind i = SK_Assignment \<and> expr_ok e)"

fun stmt_ok :: "statement \<Rightarrow> bool" and handler_ok :: "exception_handler \<Rightarrow> bool" where
  "stmt_ok (Statement i b a c hs) \<longleftrightarrow>
     values_ok i \<and> list_all stmt_ok b \<and> list_all stmt_ok a \<and> list_all stmt_ok c \<and>
     list_all handler_ok hs \<and>
     (b \<noteq> [] \<longrightarrow> st_kind i \<in> {SK_If, SK_While, SK_DoWhile, SK_ForEach, SK_Try, SK_Block}) \<and>
     (a \<noteq> [] \<longrightarrow> st_kind i = SK_If \<and> st_hasAlternate i) \<and>
     (c \<noteq> [] \<longrightarrow> st_kind i = SK_Try \<and> st_hasCleanup i) \<and>
     (hs \<noteq> [] \<longrightarrow> st_kind i = SK_Try) \<and>
     (st_kind i = SK_Try \<longrightarrow> hs \<noteq> [] \<or> st_hasCleanup i)"
| "handler_ok (ExceptionHandler h b) \<longleftrightarrow>
     list_all stmt_ok b \<and> (eh_exceptionType h = [] \<or> simple_name (eh_exceptionType h))"

definition pending_ok :: "parser_state \<Rightarrow> bool" where
  "pending_ok s \<longleftrightarrow> list_all stmt_ok (p_pending s)"

definition gives :: "('a \<Rightarrow> bool) \<Rightarrow> 'a parser \<Rightarrow> bool" where
  "gives Q p \<longleftrightarrow> (\<forall>s. p_ok s \<longrightarrow> pending_ok s \<longrightarrow>
     runs s p (\<lambda>x s'. moves s s' \<and> p_current s < p_current s' \<and> pending_ok s' \<and> Q x))"

lemma givesI:
  "(\<And>s. p_ok s \<Longrightarrow> pending_ok s \<Longrightarrow>
     runs s p (\<lambda>x s'. moves s s' \<and> p_current s < p_current s' \<and> pending_ok s' \<and> Q x)) \<Longrightarrow> gives Q p"
  by (simp add: gives_def)

lemma runs_gives:
  assumes "gives Q p" "p_ok s" "pending_ok s"
    and "\<And>x s'. moves s s' \<Longrightarrow> p_current s < p_current s' \<Longrightarrow> pending_ok s' \<Longrightarrow> Q x \<Longrightarrow> R x s'"
  shows "runs s p R"
  using assms(1-3) by (auto simp: gives_def intro: runs_mono assms(4))

lemma pending_ok_eq: "p_pending s' = p_pending s \<Longrightarrow> pending_ok s' = pending_ok s"
  by (simp add: pending_ok_def)

lemmas frame_simps = reaches_iff moves_def pending_ok_def

lemma kind_statement_at [simp]:
  "st_kind (statement_at k l) = k" "st_expressions (statement_at k l) = []"
  "st_target (statement_at k l) = None" "st_hasAlternate (statement_at k l) = False"
  "st_hasCleanup (statement_at k l) = False" "st_rethrowsException (statement_at k l) = False"
  by (simp_all add: statement_at_def default_statement_info_def)

lemma yields_gives: "yields Q p \<Longrightarrow> gives Q p"
  unfolding gives_def by (auto intro!: runs_yields simp: reaches_iff moves_def pending_ok_def)

lemma expr_ok_parts: "expr_ok e \<Longrightarrow> well_shaped e \<and> tree_depth e \<le> maximumNesting"
  by (simp add: expr_ok_def)

subsection \<open>Simple statements\<close>

lemma yields_parseCapture: "yields (\<lambda>_. True) (parseCapture d)"
proof (rule yieldsI)
  fix s assume s: "p_ok s"
  have loop: "runs t (loop (\<lambda>target. cond (match T_Dot)
            (bind (consume T_Identifier (''capture field after '' @ quoted ''.'')) (\<lambda>field.
               bind (validated (member_node field target)) again)) (leave target)) e) R"
    if "p_ok t" "\<And>x t'. reaches t t' \<Longrightarrow> R x t'" for t e R
  proof (rule runs_loop [where I = "\<lambda>_. True"])
    fix x u assume "reaches t u" "p_ok u"
    then show "runs u (cond (match T_Dot)
            (bind (consume T_Identifier (''capture field after '' @ quoted ''.'')) (\<lambda>field.
               bind (validated (member_node field x)) again)) (leave x))
            (\<lambda>r v. reaches u v \<and> (case r of Inl y \<Rightarrow> p_current u < p_current v \<and> True
               | Inr z \<Rightarrow> reaches t v \<longrightarrow> R z v))"
      by (intro runs_intro) (auto simp: reaches_iff intro!: that(2))
  qed (use that in auto)
  show "runs s (parseCapture d) (\<lambda>x s'. reaches s s' \<and> p_current s < p_current s' \<and> True)"
    unfolding parseCapture_def
    by (intro runs_intro runs_yields [OF yields_parseType] loop s) (use s in \<open>auto simp: reaches_iff\<close>)
qed

definition inline_ok :: "statement \<Rightarrow> bool" where
  "inline_ok st \<longleftrightarrow> (\<exists>i. st = simple_statement i \<and> st_kind i = SK_InlineC \<and>
     st_expressions i = [] \<and> st_target i = None)"

lemma inline_ok_stmt: "inline_ok st \<Longrightarrow> stmt_ok st" "inline_ok st \<Longrightarrow> stmt_ok (add_capture c st)"
  by (auto simp: inline_ok_def values_ok_def add_capture_def)

lemma yields_parseInlineC: "yields inline_ok (parseInlineC d)"
  unfolding parseInlineC_def
  by (rule yieldsI, intro runs_intro runs_comma_list_until [OF yields_parseCapture])
    (auto simp: reaches_iff inline_ok_def)

lemma runs_declaration_value [runs_intro]:
  assumes "p_ok s"
    and "\<And>es s'. reaches s s' \<Longrightarrow> list_all expr_ok es \<Longrightarrow> length es \<le> 1 \<Longrightarrow> R es s'"
  shows "runs s (declaration_value d t w) R"
  unfolding declaration_value_def
  by (intro runs_intro runs_yields [OF yields_parseExpression]
      runs_comma_list_until [OF yields_parseExpression])
    (use assms(1) in \<open>auto simp: reaches_iff intro!: assms(2) expr_okI shaped_arguments(1)\<close>)

lemma runs_push_pending [runs_intro]:
  "R () (s\<lparr>p_pending := p_pending s @ [st]\<rparr>) \<Longrightarrow> runs s (push_pending st) R"
  by (simp add: runs_def push_pending_def)

lemma runs_take_pending [runs_intro]:
  "R (p_pending s) (s\<lparr>p_pending := []\<rparr>) \<Longrightarrow> runs s take_pending R"
  by (simp add: runs_def take_pending_def)

lemma p_ok_pending [simp]: "p_ok (s\<lparr>p_pending := ps\<rparr>) = p_ok s"
  by (simp add: p_ok_def)

lemma expr_ok_values:
  "list_all expr_ok es \<Longrightarrow> list_all (\<lambda>e. well_shaped e \<and> tree_depth e \<le> maximumNesting) es"
  by (simp add: list_all_iff expr_ok_def)

lemma gives_parseDeclaration: "gives stmt_ok (parseDeclaration d)"
  unfolding parseDeclaration_def Let_def
  by (rule givesI, intro runs_intro runs_yields [OF yields_parseType]
      runs_yields [OF yields_parseInlineC])
    (auto simp: frame_simps values_ok_def expr_ok_values intro: inline_ok_stmt)

lemma runs_startsDeclaration [runs_intro]:
  "p_ok s \<Longrightarrow> (\<And>b. R b s) \<Longrightarrow> runs s startsDeclaration R"
  by (auto simp: startsDeclaration_def bind_def current_def token_at_def runs_def p_ok_def Let_def)

lemma assignment_operators_not_End: "t \<in> set assignment_operators \<Longrightarrow> t \<noteq> T_End"
  by (auto simp: assignment_operators_def)

lemma runs_cond [runs_intro]:
  "runs s c (\<lambda>b s'. runs s' (if b then p else q) R) \<Longrightarrow> runs s (cond c p q) R"
  unfolding cond_def by (rule runs_bind)

lemma gives_parseExpressionStatement: "gives stmt_ok (parseExpressionStatement d)"
  unfolding parseExpressionStatement_def
  by (rule givesI, intro runs_intro runs_gives [OF gives_parseDeclaration]
      runs_yields [OF yields_parseExpression])
    (auto simp: frame_simps values_ok_def assignment_operators_not_End expr_ok_parts)

lemma gives_parseReturn: "gives stmt_ok (parseReturn d)"
  unfolding parseReturn_def
  by (rule givesI, intro runs_intro runs_yields [OF yields_parseExpression])
    (auto simp: frame_simps values_ok_def expr_ok_parts)

lemma gives_parseSuperConstructorCall: "gives stmt_ok (parseSuperConstructorCall d)"
  unfolding parseSuperConstructorCall_def
  by (rule givesI, intro runs_intro runs_comma_list_until [OF yields_parseExpression])
    (auto simp: frame_simps values_ok_def expr_ok_values)

lemma runs_print_format [runs_intro]:
  assumes "p_ok s" "expr_ok e"
    and "\<And>e' s'. reaches s s' \<Longrightarrow> well_shaped e' \<Longrightarrow> tree_depth e' \<le> Suc maximumNesting \<Longrightarrow> R e' s'"
  shows "runs s (print_format d t e) R"
  unfolding print_format_def
  by (intro runs_intro runs_format_arguments [OF yields_parseExpression])
    (use assms(1,2) in \<open>auto simp: reaches_iff intro!: assms(3) open_format_start expr_ok_shaped\<close>)

lemma expr_ok_loose: "expr_ok e \<Longrightarrow> well_shaped e \<and> tree_depth e \<le> Suc maximumNesting"
  by (simp add: expr_ok_def)

lemma gives_parsePrint: "gives stmt_ok (parsePrint d)"
  unfolding parsePrint_def
  by (rule givesI, intro runs_intro runs_yields [OF yields_parseExpression])
    (auto simp: frame_simps values_ok_def expr_ok_loose)

lemma runs_parseLoopControl:
  assumes "p_ok s" "pending_ok s" "tok_type (tok s) \<noteq> T_End"
    and "\<And>x s'. moves s s' \<Longrightarrow> p_current s < p_current s' \<Longrightarrow> pending_ok s' \<Longrightarrow> stmt_ok x \<Longrightarrow> R x s'"
  shows "runs s parseLoopControl R"
  unfolding parseLoopControl_def
  by (intro runs_intro) (use assms(1-3) in \<open>auto simp: frame_simps values_ok_def intro!: assms(4)\<close>)

lemma gives_parseRaise: "gives stmt_ok (parseRaise d)"
  unfolding parseRaise_def
  by (rule givesI, intro runs_intro runs_yields [OF yields_parseExpression])
    (auto simp: frame_simps values_ok_def expr_ok_parts)

subsection \<open>Compound statements and blocks\<close>

lemma runs_condition [runs_intro]:
  assumes "p_ok s" "\<And>e s'. reaches s s' \<Longrightarrow> p_current s < p_current s' \<Longrightarrow> expr_ok e \<Longrightarrow> R e s'"
  shows "runs s (condition d m n) R"
  unfolding condition_def
  by (intro runs_intro runs_yields [OF yields_parseExpression])
    (use assms(1) in \<open>auto simp: reaches_iff intro!: assms(2)\<close>)

lemma gives_parseIf:
  assumes "gives (list_all stmt_ok) pb"
  shows "gives stmt_ok (parseIf d pb)"
  unfolding parseIf_def
  by (rule givesI, intro runs_intro runs_gives [OF assms])
    (auto simp: frame_simps values_ok_def expr_ok_parts)

lemma gives_parseWhile:
  assumes "gives (list_all stmt_ok) pb"
  shows "gives stmt_ok (parseWhile d pb)"
  unfolding parseWhile_def
  by (rule givesI, intro runs_intro runs_gives [OF assms])
    (auto simp: frame_simps values_ok_def expr_ok_parts)

lemma gives_parseDoWhile:
  assumes "gives (list_all stmt_ok) pb"
  shows "gives stmt_ok (parseDoWhile d pb)"
  unfolding parseDoWhile_def
  by (rule givesI, intro runs_intro runs_gives [OF assms])
    (auto simp: frame_simps values_ok_def expr_ok_parts)

lemma gives_parseForEach:
  assumes "gives (list_all stmt_ok) pb"
  shows "gives stmt_ok (parseForEach d pb)"
  unfolding parseForEach_def
  by (rule givesI, intro runs_intro runs_gives [OF assms] runs_yields [OF yields_parseExpression])
    (auto simp: frame_simps values_ok_def expr_ok_parts)

lemma runs_parseHandler:
  assumes "gives (list_all stmt_ok) pb" "p_ok s" "pending_ok s" "0 < p_current s"
    and "\<And>x s'. moves s s' \<Longrightarrow> p_current s < p_current s' \<Longrightarrow> pending_ok s' \<Longrightarrow> handler_ok x \<Longrightarrow> R x s'"
  shows "runs s (parseHandler pb) R"
  unfolding parseHandler_def
  by (intro runs_intro runs_gives [OF assms(1)] runs_yields [OF yields_parseQualifiedIdentifier])
    (use assms(2-4) in \<open>auto simp: frame_simps intro!: assms(5)\<close>)

lemma gives_parseTry:
  assumes "gives (list_all stmt_ok) pb"
  shows "gives stmt_ok (parseTry pb)"
proof (rule givesI)
  fix s assume s: "p_ok s" "pending_ok s"
  have loop: "runs t (loop (\<lambda>handlers. cond (match T_Except)
             (bind (parseHandler pb) (\<lambda>h. andThen skipNewlines (again (handlers @ [h]))))
             (leave handlers)) []) R"
    if "p_ok t" "pending_ok t"
      "\<And>hs t'. moves t t' \<Longrightarrow> pending_ok t' \<Longrightarrow> list_all handler_ok hs \<Longrightarrow> R hs t'" for t R
  proof (rule runs_loop_moves [where I = "\<lambda>hs u. moves t u \<and> pending_ok u \<and> list_all handler_ok hs"])
    fix hs u assume "moves t u" "moves t u \<and> pending_ok u \<and> list_all handler_ok hs"
    then show "runs u (cond (match T_Except)
             (bind (parseHandler pb) (\<lambda>h. andThen skipNewlines (again (hs @ [h])))) (leave hs))
             (\<lambda>r v. moves u v \<and> (case r of Inl y \<Rightarrow> p_current u < p_current v \<and>
                (moves t v \<and> pending_ok v \<and> list_all handler_ok y) | Inr z \<Rightarrow> R z v))"
      by (intro runs_intro runs_parseHandler [OF assms]) (auto simp: frame_simps intro!: that(3))
  qed (use that in auto)
  show "runs s (parseTry pb) (\<lambda>x s'. moves s s' \<and> p_current s < p_current s' \<and> pending_ok s' \<and> stmt_ok x)"
    unfolding parseTry_def
    by (intro runs_intro runs_gives [OF assms] loop) (use s in \<open>auto simp: frame_simps values_ok_def\<close>)
qed

lemma gives_parseStatement:
  assumes "gives (list_all stmt_ok) pb"
  shows "gives stmt_ok (parseStatement d pb)"
  unfolding parseStatement_def only_top_level_def
  by (rule givesI, intro runs_intro
      runs_gives [OF gives_parseDeclaration] runs_gives [OF gives_parseExpressionStatement]
      runs_gives [OF gives_parsePrint] runs_gives [OF gives_parseIf [OF assms]]
      runs_gives [OF gives_parseWhile [OF assms]] runs_gives [OF gives_parseDoWhile [OF assms]]
      runs_gives [OF gives_parseForEach [OF assms]] runs_gives [OF gives_parseRaise]
      runs_gives [OF gives_parseTry [OF assms]] runs_gives [OF assms]
      runs_gives [OF gives_parseReturn] runs_gives [OF gives_parseSuperConstructorCall]
      runs_yields [OF yields_parseInlineC] runs_parseLoopControl)
    (auto simp: frame_simps values_ok_def inline_ok_stmt)

lemma gives_block_body:
  assumes "gives stmt_ok ps"
  shows "gives (list_all stmt_ok) (block_body ps)"
proof (rule givesI)
  fix s assume s: "p_ok s" "pending_ok s"
  have loop: "runs t (loop (\<lambda>statements. cond (check_any block_ends) (leave statements)
          (andThen skipNewlines
            (cond (check_any block_ends) (leave statements)
              (bind ps (\<lambda>statement. bind take_pending (\<lambda>pending.
                 again (statements @ [statement] @ pending))))))) []) R"
    if "p_ok t" "pending_ok t"
      "\<And>sts t'. moves t t' \<Longrightarrow> pending_ok t' \<Longrightarrow> list_all stmt_ok sts \<Longrightarrow> R sts t'" for t R
  proof (rule runs_loop_moves [where I = "\<lambda>sts u. moves t u \<and> pending_ok u \<and> list_all stmt_ok sts"])
    fix sts u assume "moves t u" "moves t u \<and> pending_ok u \<and> list_all stmt_ok sts"
    then show "runs u (cond (check_any block_ends) (leave sts)
          (andThen skipNewlines
            (cond (check_any block_ends) (leave sts)
              (bind ps (\<lambda>statement. bind take_pending (\<lambda>pending.
                 again (sts @ [statement] @ pending)))))))
          (\<lambda>r v. moves u v \<and> (case r of Inl y \<Rightarrow> p_current u < p_current v \<and>
                (moves t v \<and> pending_ok v \<and> list_all stmt_ok y) | Inr z \<Rightarrow> R z v))"
      by (intro runs_intro runs_gives [OF assms]) (auto simp: frame_simps intro!: that(3))
  qed (use that in auto)
  show "runs s (block_body ps)
      (\<lambda>x s'. moves s s' \<and> p_current s < p_current s' \<and> pending_ok s' \<and> list_all stmt_ok x)"
    unfolding block_body_def by (intro runs_intro loop) (use s in \<open>auto simp: frame_simps\<close>)
qed

lemma gives_parseBlock: "gives (list_all stmt_ok) (parseBlock d)"
proof (induction "maximumNesting - d" arbitrary: d rule: less_induct)
  case less
  have "gives (list_all stmt_ok) (guard d (block_body (parseStatement (d + 1) (parseBlock (d + 1)))))"
  proof (cases "d < maximumNesting")
    case True
    then have "gives (list_all stmt_ok) (block_body (parseStatement (d + 1) (parseBlock (d + 1))))"
      by (intro gives_block_body gives_parseStatement less.hyps) simp
    with True show ?thesis by (simp add: guard_def)
  next
    case False
    then show ?thesis by (auto simp: guard_def intro!: givesI runs_intro)
  qed
  moreover have "parseBlock d = guard d (block_body (parseStatement (d + 1) (parseBlock (d + 1))))"
    by (rule ext, subst parseBlock.simps) (rule refl)
  ultimately show ?case by simp
qed

end
