(* ===== verification/Parser_Decl.thy ===== *)
theory Parser_Decl
  imports Parser_Stmt
begin

text \<open>
  Classes, namespaces, imports and whole programs (\<open>src/ParserClass.cpp\<close>;
  \<open>startsOutOfLineDefinition\<close> and \<open>parseProgram\<close> to \<open>parseNamespace\<close> of
  \<open>src/Parser.cpp\<close>).
\<close>

subsection \<open>Methods\<close>

definition parseMethod ::
  "nat \<Rightarrow> token \<Rightarrow> token \<Rightarrow> bool \<Rightarrow> string \<Rightarrow> method_declaration parser" where
  "parseMethod d typeOrName methodName isConstructor returnType =
     bind (parseParameters d) (\<lambda>parameters.
       let method = default_method
             \<lparr>me_name := tok_text methodName,
              me_returnType :=
                (if isConstructor then ''void''
                 else if returnType \<noteq> [] then returnType
                 else if tok_type typeOrName = T_Int then ''int''
                 else if tok_type typeOrName = T_Bool then ''bool''
                 else if tok_type typeOrName = T_FloatType then ''float''
                 else if tok_type typeOrName = T_Unsigned then ''unsigned''
                 else if tok_type typeOrName = T_StrgType then ''String''
                 else if tok_type typeOrName = T_Void then ''void'' else tok_text typeOrName),
              me_location := tok_location typeOrName, me_constructor := isConstructor,
              me_parameters := parameters\<rparr>
       in cond (check T_LeftBrace)
            (bind (parseBlock d) (\<lambda>body. ret (method\<lparr>me_body := body\<rparr>)))
            (andThen consumeStatementTerminator (ret (method\<lparr>me_declarationOnly := True\<rparr>))))"

subsection \<open>Base classes\<close>

type_synonym base = "string \<times> source_location \<times> access_level \<times> bool"

definition base_modifiers :: "(access_level \<times> bool) parser" where
  "base_modifiers = loop (\<lambda>m.
     cond (match T_Public) (again (Public, snd m))
     (cond (match T_Protected) (again (Protected, snd m))
     (cond (match T_Private) (again (Private, snd m))
     (cond (match T_Virtual)
        (if snd m then bind previous (\<lambda>t. error_at t ''duplicate 'virtual' base modifier'')
         else again (fst m, True))
        (leave m))))) (Public, False)"

definition parse_base :: "base parser" where
  "parse_base = bind base_modifiers (\<lambda>m. bind current (\<lambda>t.
     bind (parseQualifiedIdentifier ''base class name'') (\<lambda>name.
       ret (name, tok_location t, fst m, snd m))))"

definition add_base :: "class_declaration \<Rightarrow> base \<Rightarrow> class_declaration" where
  "add_base c b =
     (case b of (name, location, access, isVirtual) \<Rightarrow>
        let c' = c\<lparr>cl_baseClassNames := cl_baseClassNames c @ [name],
                  cl_baseLocations := cl_baseLocations c @ [location],
                  cl_baseAccess := cl_baseAccess c @ [access],
                  cl_baseVirtual := cl_baseVirtual c @ [isVirtual]\<rparr>
        in if length (cl_baseClassNames c') = 1
           then c'\<lparr>cl_baseClassName := name, cl_baseLocation := location\<rparr> else c')"

subsection \<open>Members\<close>

definition isEnumKeyword :: "token \<Rightarrow> bool" where
  "isEnumKeyword token \<longleftrightarrow>
     tok_type token = T_Identifier \<and> length (tok_text token) = 4 \<and>
     map to_lower (tok_text token) = ''enum''"

definition enum_member :: "nat \<Rightarrow> access_level \<Rightarrow> nat \<Rightarrow> enum_member_declaration parser" where
  "enum_member d access blockIndex =
     bind (consume T_Identifier ''enum member name'') (\<lambda>name.
     bind (cond (match T_Equal) (bind (parseExpression d) (\<lambda>e. ret (Some e))) (ret None))
       (\<lambda>initializer.
          ret \<lparr>em_name = tok_text name, em_location = tok_location name, em_access = access,
               em_blockIndex = blockIndex, em_initializer = initializer, em_value = None,
               em_resolving = False\<rparr>))"

definition parseEnumMembers :: "nat \<Rightarrow> class_declaration \<Rightarrow> access_level \<Rightarrow> class_declaration parser" where
  "parseEnumMembers d declaration access =
     (let blockIndex = cl_enumBlockCount declaration in
      andThen (consume T_LeftBrace (quoted ''{'' @ '' after '' @ quoted ''enum''))
      (andThen skipNewlines
        (bind (loop (\<lambda>members.
           cond (check_any block_ends) (leave members)
             (bind (enum_member d access blockIndex) (\<lambda>m.
                let members' = members @ [m] in
                cond (match T_Comma)
                  (andThen skipNewlines
                     (cond (check T_RightBrace) (leave members') (again members')))
                  (cond (check T_RightBrace) (leave members')
                    (cond (check T_Newline) (andThen skipNewlines (again members'))
                      (error_current (''expected '' @ quoted '','' @ '' or newline after enum member'')))))))
           []) (\<lambda>members.
         andThen (consume T_RightBrace (quoted ''}'' @ '' after enum members''))
           (ret (declaration\<lparr>cl_enumBlockCount := blockIndex + 1,
                  cl_enumMembers := cl_enumMembers declaration @ members\<rparr>))))))"

definition access_of :: "token_type \<Rightarrow> access_level" where
  "access_of type =
     (if type = T_Public then Public else if type = T_Protected then Protected else Private)"

definition add_method :: "method_declaration \<Rightarrow> class_declaration \<Rightarrow> class_declaration" where
  "add_method m c = c\<lparr>cl_methods := cl_methods c @ [m]\<rparr>"

definition destructor_syntax :: "token \<Rightarrow> 'a parser" where
  "destructor_syntax token = error_at token ''destructors use 'destroy { ... }' syntax''"

definition parse_destructor ::
  "nat \<Rightarrow> class_declaration \<Rightarrow> access_level \<Rightarrow> class_declaration parser" where
  "parse_destructor d declaration access = bind current (\<lambda>name.
     bind (next_token (\<lambda>t. t \<noteq> T_LeftBrace)) (\<lambda>bad.
       if bad then destructor_syntax name
       else andThen step (bind (parseBlock d) (\<lambda>body.
         ret (add_method (default_method
             \<lparr>me_name := tok_text name, me_returnType := ''void'', me_location := tok_location name,
              me_destructor := True, me_access := access, me_body := body\<rparr>) declaration)))))"

definition constructor_return_type :: "token \<Rightarrow> string \<Rightarrow> 'a parser" where
  "constructor_return_type member typeName =
     error_at member (''constructor '' @ quoted (tok_text member) @
       '' must omit the return type; write '' @ quoted (tok_text member @ ''(...)'') @
       '' instead of '' @ quoted (typeName @ '' '' @ tok_text member @ ''(...)''))"

definition parse_typed_member ::
  "nat \<Rightarrow> class_declaration \<Rightarrow> access_level \<Rightarrow> class_declaration parser" where
  "parse_typed_member d declaration access =
     bind current (\<lambda>type. bind (parseType d True) (\<lambda>typeName. bind (check T_LeftParen) (\<lambda>call.
       if tok_type type = T_Identifier \<and> typeName = cl_name declaration \<and> call then
         bind (parseMethod d type type True []) (\<lambda>m.
           ret (add_method (m\<lparr>me_access := access\<rparr>) declaration))
       else
         bind (consume T_Identifier ''field or method name'') (\<lambda>member.
         cond (check T_LeftParen)
           (if tok_text member = ''destroy'' then destructor_syntax member
            else if tok_text member = cl_name declaration then
              constructor_return_type member typeName
            else bind (parseMethod d type member False typeName) (\<lambda>m.
              ret (add_method (m\<lparr>me_access := access\<rparr>) declaration)))
           (if typeName = ''void'' then error_at type ''fields cannot have type void''
            else andThen consumeStatementTerminator
              (ret (declaration\<lparr>cl_fields := cl_fields declaration @
                 [\<lparr>fd_type = typeName, fd_name = tok_text member,
                   fd_location = tok_location type, fd_access = access\<rparr>]\<rparr>)))))))"

definition inline_only_in_body :: "'a parser" where
  "inline_only_in_body =
     error_current (quoted ''inline'' @ '' is only allowed inside a function or method body'')"

definition parse_member ::
  "nat \<Rightarrow> class_declaration \<times> access_level \<Rightarrow> (class_declaration \<times> access_level) parser" where
  "parse_member d m =
     cond (check T_Import) (only_top_level ''import'')
     (cond (check T_Include) (only_top_level ''include'')
     (cond (check T_Inline) inline_only_in_body
     (bind current (\<lambda>t.
      bind (next_token (\<lambda>n. n = T_LeftBrace)) (\<lambda>brace.
      bind (next_token (\<lambda>n. n = T_Colon)) (\<lambda>colon.
      bind (next_token (\<lambda>n. n = T_LeftBrace \<or> n = T_LeftParen)) (\<lambda>open'.
        if isEnumKeyword t \<and> brace then
          andThen step (bind (parseEnumMembers d (fst m) (snd m)) (\<lambda>c. ret (c, snd m)))
        else if tok_type t \<in> {T_Public, T_Protected, T_Private} \<and> colon then
          andThen step (andThen (consume T_Colon (quoted '':'' @ '' after access section''))
            (ret (fst m, access_of (tok_type t))))
        else if tok_type t = T_Identifier \<and> tok_text t = ''destroy'' \<and> open' then
          bind (parse_destructor d (fst m) (snd m)) (\<lambda>c. ret (c, snd m))
        else bind (parse_typed_member d (fst m) (snd m)) (\<lambda>c. ret (c, snd m)))))))))"

definition get_namespacePath :: "string list parser" where
  "get_namespacePath s = Inr (p_namespacePath s, s)"

definition class_members :: "nat \<Rightarrow> class_declaration \<Rightarrow> class_declaration parser" where
  "class_members d c = loop (\<lambda>m. cond (check_any block_ends) (leave (fst m))
     (andThen skipNewlines (cond (check_any block_ends) (leave (fst m))
       (bind (parse_member d m) again)))) (c, Public)"

definition parseClass :: "nat \<Rightarrow> class_declaration parser" where
  "parseClass d =
     bind (consume T_Class (quoted ''class'')) (\<lambda>keyword.
     bind (consume T_Identifier ''class name'') (\<lambda>name.
     bind get_namespacePath (\<lambda>path.
     bind (cond (match T_Colon) (comma_list parse_base) (ret [])) (\<lambda>bases.
     andThen (consume T_LeftBrace (quoted ''{'' @ '' after class name''))
     (bind (class_members d (foldl add_base
          (default_class\<lparr>cl_name := tok_text name, cl_namespacePath := path,
             cl_location := tok_location keyword\<rparr>) bases)) (\<lambda>c.
      andThen (consume T_RightBrace (quoted ''}'' @ '' after class body'')) (ret c)))))))"

subsection \<open>Methods outside their class\<close>

text \<open>The name behind the last dot.\<close>

definition leaf_name :: "string \<Rightarrow> string" where
  "leaf_name path = rev (takeWhile (\<lambda>c. c \<noteq> CHR ''.'') (rev path))"

definition method_path :: "string \<Rightarrow> token \<Rightarrow> (string \<times> token) parser" where
  "method_path className member = loop (\<lambda>p. cond (match T_Dot)
     (bind (consume T_Identifier ''method name'') (\<lambda>member.
        again (fst p @ ''.'' @ tok_text (snd p), member)))
     (leave p)) (className, member)"

definition method_definition_body ::
  "nat \<Rightarrow> method_declaration \<Rightarrow> method_declaration parser" where
  "method_definition_body d method =
     andThen skipNewlines
     (cond (match T_From)
        (bind (consume T_String ''external symbol string literal'') (\<lambda>symbol.
         andThen consumeStatementTerminator
           (ret (method\<lparr>me_externalBinding := True, me_externalSymbol := tok_text symbol\<rparr>))))
        (cond (check T_LeftBrace) (bind (parseBlock d) (\<lambda>body. ret (method\<lparr>me_body := body\<rparr>)))
          (error_current (''expected method body or '' @
             quoted (''from '' @ [CHR 0x22] @ ''<symbol>'' @ [CHR 0x22])))))"

definition parseOutOfLineMethodDefinition :: "nat \<Rightarrow> out_of_line_method parser" where
  "parseOutOfLineMethodDefinition d =
     bind current (\<lambda>returnType. bind (parseType d True) (\<lambda>returnTypeName.
     bind (consume T_Identifier (''class name before '' @ quoted ''.'')) (\<lambda>class.
     andThen (consume T_Dot (quoted ''.'' @ '' between class and method name''))
     (bind (consume T_Identifier ''method name'') (\<lambda>first.
      bind (method_path (tok_text class) first) (\<lambda>p.
       let isConstructor = (tok_text (snd p) = leaf_name (fst p))
       in if isConstructor \<and> leaf_name returnTypeName \<noteq> leaf_name (fst p) then
            error_at (snd p) ''out-of-line constructor declaration must use its class type''
          else if tok_text (snd p) = ''destroy'' then
            error_at (snd p) ''destructors cannot be defined out-of-line''
          else
            bind get_namespacePath (\<lambda>path.
            bind (parseParameters d) (\<lambda>parameters.
            bind (method_definition_body d (default_method
                \<lparr>me_name := tok_text (snd p),
                 me_returnType := (if isConstructor then ''void'' else returnTypeName),
                 me_location := tok_location returnType, me_constructor := isConstructor,
                 me_parameters := parameters\<rparr>)) (\<lambda>method.
              ret \<lparr>ol_className = fst p, ol_moduleName = [], ol_namespacePath = path,
                   ol_method = method, ol_location = tok_location returnType\<rparr>)))))))))"

subsection \<open>What starts a definition outside a class\<close>

text \<open>The index behind the closing \<open>>\<close> of a callback type; \<open>--depth\<close> wraps at 0.\<close>

function callback_end :: "token list \<Rightarrow> nat \<Rightarrow> 64 word \<Rightarrow> nat" where
  "callback_end tokens afterType depth =
     (if afterType < length tokens then
        if tok_type (tokens ! afterType) = T_Greater then
          if depth - 1 = 0 then afterType + 1 else callback_end tokens (afterType + 1) (depth - 1)
        else callback_end tokens (afterType + 1)
               (if tok_type (tokens ! afterType) = T_Less then depth + 1 else depth)
      else afterType)"
  by pat_completeness auto
termination by (relation "measure (\<lambda>(ts, i, d). length ts - i)") auto

declare callback_end.simps [simp del]

definition plain_types :: "token_type list" where
  "plain_types =
     [T_Int, T_Bool, T_FloatType, T_Unsigned, T_StrgType, T_ListType, T_DictType, T_BufferType,
      T_HandleType, T_AnyType, T_TypeType, T_Void]"

definition after_type :: "token list \<Rightarrow> nat \<Rightarrow> nat option" where
  "after_type tokens index =
     (let type = tok_type (tokens ! index)
      in if type = T_CallbackType then Some (callback_end tokens (index + 1) 0)
         else if type = T_Identifier then Some (dotted_end tokens (index + 1))
         else if type \<in> set plain_types then Some (index + 1) else None)"

definition startsOutOfLineDefinition :: "bool parser" where
  "startsOutOfLineDefinition = bind current (\<lambda>_ s.
     case after_type (p_tokens s) (p_current s) of
       None \<Rightarrow> Inr (False, s)
     | Some i \<Rightarrow> Inr (i + 2 < length (p_tokens s) \<and>
           tok_type (p_tokens s ! i) = T_Identifier \<and>
           tok_type (p_tokens s ! (i + 1)) = T_Dot \<and>
           tok_type (p_tokens s ! (i + 2)) = T_Identifier, s))"

subsection \<open>Programs\<close>

definition parseImport :: "import_declaration parser" where
  "parseImport =
     bind (consume T_Import (quoted ''import'')) (\<lambda>keyword.
     bind (consume T_Identifier ''module name'') (\<lambda>module.
     bind (cond (match T_As)
         (bind (consume T_Identifier ''import alias'') (\<lambda>t. ret (tok_text t))) (ret []))
       (\<lambda>alias.
     andThen consumeStatementTerminator
       (ret \<lparr>im_moduleName = tok_text module, im_alias = alias, im_importerModule = [],
             im_exportedName = [], im_exportsNamespace = False,
             im_location = tok_location keyword\<rparr>))))"

definition add_import :: "import_declaration \<Rightarrow> program \<Rightarrow> program" where
  "add_import i p = p\<lparr>pr_imports := pr_imports p @ [i]\<rparr>"

definition add_class :: "class_declaration \<Rightarrow> program \<Rightarrow> program" where
  "add_class c p = p\<lparr>pr_classes := pr_classes p @ [c]\<rparr>"

definition add_out_of_line :: "out_of_line_method \<Rightarrow> program \<Rightarrow> program" where
  "add_out_of_line m p = p\<lparr>pr_outOfLineMethods := pr_outOfLineMethods p @ [m]\<rparr>"

definition push_namespace :: "string \<Rightarrow> unit parser" where
  "push_namespace name s = Inr ((), s\<lparr>p_namespacePath := p_namespacePath s @ [name]\<rparr>)"

text \<open>\<open>namespacePath_.resize(oldDepth)\<close>\<close>

definition pop_namespace :: "nat \<Rightarrow> unit parser" where
  "pop_namespace oldDepth s = Inr ((), s\<lparr>p_namespacePath := take oldDepth (p_namespacePath s)\<rparr>)"

definition namespace_member ::
  "nat \<Rightarrow> (program \<Rightarrow> program parser) \<Rightarrow> program \<Rightarrow> program parser" where
  "namespace_member d nested p =
     cond (check T_Namespace) (nested p)
     (cond (check T_Class) (bind (parseClass d) (\<lambda>c. ret (add_class c p)))
     (cond (check T_Start) (error_current (quoted ''start'' @ '' cannot be declared inside a namespace''))
     (cond (check T_Inline) inline_only_in_body
     (cond (check T_Include) (only_top_level ''include'')
     (cond (check T_Import) (only_top_level ''import'')
     (cond startsOutOfLineDefinition
        (bind (parseOutOfLineMethodDefinition d) (\<lambda>m. ret (add_out_of_line m p)))
        (error_current ''namespace body may contain only namespace and class declarations'')))))))"

definition namespace_body ::
  "nat \<Rightarrow> (program \<Rightarrow> program parser) \<Rightarrow> program \<Rightarrow> program parser" where
  "namespace_body d nested p =
     bind (consume T_Namespace (quoted ''namespace'')) (\<lambda>keyword.
     bind (consume T_Identifier ''namespace name'') (\<lambda>name.
     andThen skipNewlines (andThen (consume T_LeftBrace (quoted ''{'' @ '' after namespace name''))
     (bind get_namespacePath (\<lambda>path. andThen (push_namespace (tok_text name))
       (bind (loop (\<lambda>q. cond (check_any block_ends) (leave q)
           (andThen skipNewlines (cond (check_any block_ends) (leave q)
             (bind (namespace_member d nested q) (\<lambda>q'. andThen skipNewlines (again q'))))))
           (p\<lparr>pr_namespaces := pr_namespaces p @
               [\<lparr>ns_path = path @ [tok_text name], ns_moduleName = [],
                 ns_location = tok_location keyword\<rparr>]\<rparr>)) (\<lambda>q.
        andThen (consume T_RightBrace (quoted ''}'' @ '' after namespace body''))
          (andThen (pop_namespace (length path)) (ret q)))))))))"

function parseNamespace :: "nat \<Rightarrow> program \<Rightarrow> program parser" where
  "parseNamespace d p s = guard d (namespace_body (d + 1) (parseNamespace (d + 1)) p) s"
  by pat_completeness auto
termination by (relation "measure (\<lambda>(d, p, s). maximumNesting - d)") auto

declare parseNamespace.simps [simp del]

definition declarations_start :: "token_type list" where
  "declarations_start = [T_Import, T_Include, T_Class, T_Namespace]"

text \<open>The declarations in front of the \<open>start\<close> block.\<close>

definition parse_declaration :: "program \<Rightarrow> program parser" where
  "parse_declaration p =
     cond (check T_Import) (bind parseImport (\<lambda>i. ret (add_import i p)))
     (cond (check T_Include) (error_current (quoted ''include'' @ '' must be expanded before parsing''))
     (cond (check T_Class) (bind (parseClass 0) (\<lambda>c. ret (add_class c p)))
     (cond (check T_Namespace) (parseNamespace 0 p)
       (bind (parseOutOfLineMethodDefinition 0) (\<lambda>m. ret (add_out_of_line m p))))))"

definition parse_declarations :: "program parser" where
  "parse_declarations = loop (\<lambda>p.
     bind (check_any declarations_start) (\<lambda>b.
     bind (if b then ret True else startsOutOfLineDefinition) (\<lambda>more.
       if more then bind (parse_declaration p) (\<lambda>q. andThen skipNewlines (again q))
       else leave p))) empty_program"

definition one_start_block :: "'a parser" where
  "one_start_block =
     error_current (''only one top-level '' @ quoted ''start'' @ '' block is allowed'')"

definition after_start :: "program \<Rightarrow> program parser" where
  "after_start p =
     andThen skipNewlines
     (cond (check T_Start)
        (error_current (''program contains more than one top-level '' @ quoted ''start'' @ '' block''))
        (cond (check T_End) (ret p) (cond (check T_Inline) inline_only_in_body one_start_block)))"

definition parseProgram :: "bool \<Rightarrow> program parser" where
  "parseProgram requireStart =
     andThen skipNewlines (bind parse_declarations (\<lambda>p.
     cond (check T_Inline) inline_only_in_body
     (bind current (\<lambda>start.
        if tok_type start \<noteq> T_Start then
          if \<not> requireStart \<and> tok_type start = T_End then ret p
          else error_at start (''program must contain exactly one top-level '' @ quoted ''start'' @
                 '' block'')
        else andThen step (bind (parseBlock 0) (\<lambda>statements.
          after_start (p\<lparr>pr_location := tok_location start, pr_hasStart := True,
                         pr_statements := statements\<rparr>)))))))"

definition module_declaration :: "program \<Rightarrow> program parser" where
  "module_declaration p =
     cond (check T_Import) (bind parseImport (\<lambda>i. ret (add_import i p)))
     (cond (check T_Class) (bind (parseClass 0) (\<lambda>c. ret (add_class c p)))
     (cond (check T_Namespace) (parseNamespace 0 p)
     (cond startsOutOfLineDefinition
        (bind (parseOutOfLineMethodDefinition 0) (\<lambda>m. ret (add_out_of_line m p)))
     (cond (check T_Start)
        (error_current (''imported module source cannot declare '' @ quoted ''start''))
     (cond (check T_Inline) inline_only_in_body
        (error_current ''module source may contain only imports and declarations''))))))"

definition parseModule :: "program parser" where
  "parseModule =
     andThen skipNewlines (loop (\<lambda>p. cond (check T_End) (leave p)
       (bind (module_declaration p) (\<lambda>q. andThen skipNewlines (again q)))) empty_program)"

end
