(* ===== verification/Parser_Decl_Spec.thy ===== *)
theory Parser_Decl_Spec
  imports Parser_Stmt_Spec Parser_Decl
begin

text \<open>
  What the parsers of declarations promise: methods and classes whose parts are well formed,
  base-class lists that agree in length, and programs built from them.
\<close>

subsection \<open>Methods\<close>

definition method_ok :: "method_declaration \<Rightarrow> bool" where
  "method_ok m \<longleftrightarrow> identifier_text (me_name m) \<and> type_name (me_returnType m) \<and>
     list_all parameter_ok (me_parameters m) \<and> list_all stmt_ok (me_body m) \<and>
     (me_constructor m \<or> me_destructor m \<longrightarrow> me_returnType m = ''void'') \<and>
     \<not> (me_constructor m \<and> me_destructor m) \<and>
     (me_declarationOnly m \<or> me_externalBinding m \<longrightarrow> me_body m = [])"

lemma type_name_void [simp]: "type_name ''void''"
  by (rule type_name_simple) code_simp

lemma runs_parseMethod:
  assumes "p_ok s" "pending_ok s" "identifier_text (tok_text name)"
    and "isC \<or> type_name r"
    and "\<And>m s'. moves s s' \<Longrightarrow> p_current s < p_current s' \<Longrightarrow> pending_ok s' \<Longrightarrow> method_ok m \<Longrightarrow>
      me_constructor m = isC \<Longrightarrow> \<not> me_destructor m \<Longrightarrow> \<not> me_externalBinding m \<Longrightarrow>
      me_name m = tok_text name \<Longrightarrow> R m s'"
  shows "runs s (parseMethod d t name isC r) R"
proof -
  have r: "r \<noteq> []" if "\<not> isC" using assms(4) type_name_nonempty [of r] that by auto
  show ?thesis
    unfolding parseMethod_def Let_def
    by (intro runs_intro runs_yields [OF yields_parseParameters] runs_gives [OF gives_parseBlock])
      (use assms(1-4) r in \<open>auto simp: frame_simps default_method_def method_ok_def intro!: assms(5)\<close>)
qed

subsection \<open>Base classes\<close>

lemma runs_base_modifiers [runs_intro]:
  assumes "p_ok s" "\<And>m s'. reaches s s' \<Longrightarrow> R m s'"
  shows "runs s base_modifiers R"
  unfolding base_modifiers_def
proof (rule runs_loop [where I = "\<lambda>_. True"])
  fix m t assume "reaches s t" "p_ok t"
  then show "runs t (cond (match T_Public) (again (Public, snd m))
     (cond (match T_Protected) (again (Protected, snd m))
     (cond (match T_Private) (again (Private, snd m))
     (cond (match T_Virtual)
        (if snd m then bind previous (\<lambda>t. error_at t ''duplicate 'virtual' base modifier'')
         else again (fst m, True))
        (leave m)))))
     (\<lambda>r v. reaches t v \<and> (case r of Inl y \<Rightarrow> p_current t < p_current v \<and> True
        | Inr z \<Rightarrow> reaches s v \<longrightarrow> R z v))"
    by (intro runs_intro) (auto simp: reaches_iff intro!: assms(2))
qed (use assms(1) in auto)

lemma yields_parse_base: "yields (\<lambda>b. simple_name (fst b)) parse_base"
  unfolding parse_base_def
  by (rule yieldsI, intro runs_intro runs_yields [OF yields_parseQualifiedIdentifier])
    (auto simp: reaches_iff)

text \<open>The four vectors of base classes agree, and the first entry is the old single base.\<close>

definition bases_ok :: "class_declaration \<Rightarrow> bool" where
  "bases_ok c \<longleftrightarrow> length (cl_baseLocations c) = length (cl_baseClassNames c) \<and>
     length (cl_baseAccess c) = length (cl_baseClassNames c) \<and>
     length (cl_baseVirtual c) = length (cl_baseClassNames c) \<and>
     list_all simple_name (cl_baseClassNames c) \<and>
     (case cl_baseClassNames c of [] \<Rightarrow> cl_baseClassName c = []
      | n # _ \<Rightarrow> cl_baseClassName c = n \<and> cl_baseLocation c = hd (cl_baseLocations c))"

lemma bases_ok_updates [simp]:
  "bases_ok (c\<lparr>cl_fields := fs\<rparr>) = bases_ok c" "bases_ok (c\<lparr>cl_methods := ms\<rparr>) = bases_ok c"
  "bases_ok (c\<lparr>cl_enumMembers := es\<rparr>) = bases_ok c"
  "bases_ok (c\<lparr>cl_enumBlockCount := n\<rparr>) = bases_ok c"
  by (simp_all add: bases_ok_def cong: list.case_cong)

lemma add_base_ok: "bases_ok c \<Longrightarrow> simple_name (fst b) \<Longrightarrow> bases_ok (add_base c b)"
  by (cases "cl_baseClassNames c"; cases "cl_baseLocations c"; cases b)
    (auto simp: bases_ok_def add_base_def Let_def)

lemma add_base_fields [simp]:
  "cl_name (add_base c b) = cl_name c" "cl_fields (add_base c b) = cl_fields c"
  "cl_methods (add_base c b) = cl_methods c" "cl_enumMembers (add_base c b) = cl_enumMembers c"
  "cl_enumBlockCount (add_base c b) = cl_enumBlockCount c"
  "cl_namespacePath (add_base c b) = cl_namespacePath c"
  by (cases b; simp add: add_base_def Let_def)+

subsection \<open>Classes\<close>

definition field_ok :: "field_declaration \<Rightarrow> bool" where
  "field_ok f \<longleftrightarrow> type_name (fd_type f) \<and> fd_type f \<noteq> ''void'' \<and> identifier_text (fd_name f)"

definition enum_member_ok :: "nat \<Rightarrow> enum_member_declaration \<Rightarrow> bool" where
  "enum_member_ok blocks m \<longleftrightarrow> identifier_text (em_name m) \<and> em_blockIndex m < blocks \<and>
     em_value m = None \<and> (case em_initializer m of None \<Rightarrow> True | Some e \<Rightarrow> expr_ok e)"

text \<open>A method named like its class is a constructor, and a constructor is named like its class.\<close>

definition member_ok :: "string \<Rightarrow> method_declaration \<Rightarrow> bool" where
  "member_ok class m \<longleftrightarrow> method_ok m \<and> \<not> me_externalBinding m \<and>
     (me_destructor m \<longrightarrow> me_name m = ''destroy'') \<and>
     (me_constructor m \<longrightarrow> me_name m = class) \<and>
     (me_name m = class \<or> me_name m = ''destroy'' \<longrightarrow> me_constructor m \<or> me_destructor m)"

definition class_ok :: "class_declaration \<Rightarrow> bool" where
  "class_ok c \<longleftrightarrow> identifier_text (cl_name c) \<and> bases_ok c \<and> list_all field_ok (cl_fields c) \<and>
     list_all (enum_member_ok (cl_enumBlockCount c)) (cl_enumMembers c) \<and>
     list_all (member_ok (cl_name c)) (cl_methods c)"

text \<open>A class declaration to which members were added.\<close>

definition extends :: "class_declaration \<Rightarrow> class_declaration \<Rightarrow> bool" where
  "extends c c' \<longleftrightarrow> class_ok c' \<and> cl_name c' = cl_name c \<and> cl_namespacePath c' = cl_namespacePath c"

lemma extends_refl: "class_ok c \<Longrightarrow> extends c c"
  by (simp add: extends_def)

lemma extends_trans: "extends a b \<Longrightarrow> extends b c \<Longrightarrow> extends a c"
  by (simp add: extends_def)

lemma extends_ok: "extends a b \<Longrightarrow> class_ok b"
  by (simp add: extends_def)

lemma class_ok_bases:
  "class_ok c \<Longrightarrow> list_all (\<lambda>b. simple_name (fst b)) bs \<Longrightarrow> extends c (foldl add_base c bs)"
proof (induction bs arbitrary: c)
  case (Cons b bs)
  then have "extends c (add_base c b)" by (simp add: class_ok_def add_base_ok extends_def)
  with Cons extends_trans [OF this] show ?case by (simp add: extends_ok)
qed (simp add: extends_refl)


lemma runs_conj: "runs s p R \<Longrightarrow> runs s p R' \<Longrightarrow> runs s p (\<lambda>x s'. R x s' \<and> R' x s')"
  by (auto simp: runs_def split: sum.splits)

lemma identifier_no_dot: "identifier_text w \<Longrightarrow> CHR ''.'' \<notin> set w"
proof -
  have "\<not> isIdentifierPart CHR ''.''" by code_simp
  then show "identifier_text w \<Longrightarrow> CHR ''.'' \<notin> set w"
    by (auto simp: identifier_text_def list_all_iff)
qed

text \<open>A type that starts with an identifier is this identifier or has a dot.\<close>

lemma runs_parseType_word:
  assumes "p_ok s" "tok_type (tok s) = T_Identifier"
  shows "runs s (parseType d v) (\<lambda>x _. x = tok_text (tok s) \<or> CHR ''.'' \<in> set x)"
proof -
  have loop: "runs t (loop (\<lambda>type. cond (match T_Dot)
      (bind (consume T_Identifier m) (\<lambda>component. again (type @ ''.'' @ tok_text component)))
      (leave type)) w) (\<lambda>x _. x = w \<or> CHR ''.'' \<in> set x)" if "p_ok t" for t w m
  proof (rule runs_loop [where I = "\<lambda>x. x = w \<or> CHR ''.'' \<in> set x"])
    fix x u assume "reaches t u" "p_ok u" "x = w \<or> CHR ''.'' \<in> set x"
    then show "runs u (cond (match T_Dot)
      (bind (consume T_Identifier m) (\<lambda>component. again (x @ ''.'' @ tok_text component))) (leave x))
      (\<lambda>r v. reaches u v \<and> (case r of Inl y \<Rightarrow> p_current u < p_current v \<and>
            (y = w \<or> CHR ''.'' \<in> set y)
         | Inr z \<Rightarrow> reaches t v \<longrightarrow> z = w \<or> CHR ''.'' \<in> set z))"
      by (intro runs_intro) (auto simp: reaches_iff)
  qed (use that in auto)
  have "parseType d v s = guard d (type_body (parseType (d + 1)) v) s"
    by (subst parseType.simps) (rule refl)
  moreover have "runs s (guard d (type_body (parseType (d + 1)) v))
      (\<lambda>x _. x = tok_text (tok s) \<or> CHR ''.'' \<in> set x)"
    unfolding type_body_def
    by (intro runs_intro runs_mono [OF loop]) (use assms in \<open>auto simp: reaches_iff type_words_def\<close>)
  ultimately show ?thesis by (simp add: runs_def)
qed

text \<open>Both specifications of a type at once.\<close>

lemma runs_parseType:
  assumes "p_ok s"
    and "\<And>x s'. reaches s s' \<Longrightarrow> p_current s < p_current s' \<Longrightarrow> type_name x \<Longrightarrow>
      (tok_type (tok s) = T_Identifier \<Longrightarrow> x = tok_text (tok s) \<or> CHR ''.'' \<in> set x) \<Longrightarrow> R x s'"
  shows "runs s (parseType d v) R"
proof -
  have "runs s (parseType d v) (\<lambda>x s'. (reaches s s' \<and> p_current s < p_current s' \<and> type_name x) \<and>
      (tok_type (tok s) = T_Identifier \<longrightarrow> x = tok_text (tok s) \<or> CHR ''.'' \<in> set x))"
  proof (rule runs_conj)
    show "runs s (parseType d v) (\<lambda>x s'. reaches s s' \<and> p_current s < p_current s' \<and> type_name x)"
      using yields_parseType assms(1) by (simp add: yields_def)
    then show "runs s (parseType d v) (\<lambda>x s'. tok_type (tok s) = T_Identifier \<longrightarrow>
        x = tok_text (tok s) \<or> CHR ''.'' \<in> set x)"
      using runs_parseType_word [OF assms(1)]
      by (cases "tok_type (tok s) = T_Identifier") (auto elim: runs_mono)
  qed
  then show ?thesis by (rule runs_mono) (auto intro: assms(2))
qed

lemma runs_get_namespacePath [runs_intro]: "R (p_namespacePath s) s \<Longrightarrow> runs s get_namespacePath R"
  by (simp add: runs_def get_namespacePath_def)

lemma yields_enum_member:
  "gives (\<lambda>m. enum_member_ok (Suc b) m) (enum_member d a b)"
  unfolding enum_member_def
  by (rule givesI, intro runs_intro runs_yields [OF yields_parseExpression])
    (auto simp: frame_simps enum_member_ok_def token_identifier)

lemma enum_member_ok_mono: "enum_member_ok b m \<Longrightarrow> b \<le> c \<Longrightarrow> enum_member_ok c m"
  by (auto simp: enum_member_ok_def)

lemma runs_parseEnumMembers:
  assumes "p_ok s" "pending_ok s" "class_ok c"
    and "\<And>c' s'. moves s s' \<Longrightarrow> p_current s < p_current s' \<Longrightarrow> pending_ok s' \<Longrightarrow> extends c c' \<Longrightarrow>
      R c' s'"
  shows "runs s (parseEnumMembers d c a) R"
proof -
  let ?ok = "enum_member_ok (Suc (cl_enumBlockCount c))"
  have loop: "runs t (loop (\<lambda>members.
           cond (check_any block_ends) (leave members)
             (bind (enum_member d a (cl_enumBlockCount c)) (\<lambda>m.
                cond (match T_Comma)
                  (andThen skipNewlines
                     (cond (check T_RightBrace) (leave (members @ [m])) (again (members @ [m]))))
                  (cond (check T_RightBrace) (leave (members @ [m]))
                    (cond (check T_Newline) (andThen skipNewlines (again (members @ [m])))
                      (error_current (''expected '' @ quoted '','' @ '' or newline after enum member'')))))))
           []) Q"
    if "p_ok t" "pending_ok t"
      "\<And>ms t'. moves t t' \<Longrightarrow> pending_ok t' \<Longrightarrow> list_all ?ok ms \<Longrightarrow> Q ms t'" for t Q
  proof (rule runs_loop_moves [where I = "\<lambda>ms u. moves t u \<and> pending_ok u \<and> list_all ?ok ms"])
    fix ms u assume "moves t u" "moves t u \<and> pending_ok u \<and> list_all ?ok ms"
    then show "runs u (cond (check_any block_ends) (leave ms)
             (bind (enum_member d a (cl_enumBlockCount c)) (\<lambda>m.
                cond (match T_Comma)
                  (andThen skipNewlines
                     (cond (check T_RightBrace) (leave (ms @ [m])) (again (ms @ [m]))))
                  (cond (check T_RightBrace) (leave (ms @ [m]))
                    (cond (check T_Newline) (andThen skipNewlines (again (ms @ [m])))
                      (error_current (''expected '' @ quoted '','' @ '' or newline after enum member'')))))))
          (\<lambda>r v. moves u v \<and> (case r of Inl y \<Rightarrow> p_current u < p_current v \<and>
                (moves t v \<and> pending_ok v \<and> list_all ?ok y) | Inr z \<Rightarrow> Q z v))"
      by (intro runs_intro runs_gives [OF yields_enum_member]) (auto simp: frame_simps intro!: that(3))
  qed (use that in auto)
  have "extends c (c\<lparr>cl_enumBlockCount := cl_enumBlockCount c + 1,
                  cl_enumMembers := cl_enumMembers c @ ms\<rparr>)" if "list_all ?ok ms" for ms
    using assms(3) that by (auto simp: extends_def class_ok_def list_all_iff intro: enum_member_ok_mono)
  then show ?thesis
    unfolding parseEnumMembers_def Let_def
    by (intro runs_intro loop) (use assms(1-2) in \<open>auto simp: frame_simps intro!: assms(4)\<close>)
qed


lemma class_ok_add_method:
  "class_ok c \<Longrightarrow> member_ok (cl_name c) m \<Longrightarrow> extends c (add_method m c)"
  by (simp add: class_ok_def add_method_def extends_def)

lemma runs_parse_destructor:
  assumes "p_ok s" "pending_ok s" "class_ok c" "tok_type (tok s) = T_Identifier"
    "tok_text (tok s) = ''destroy''"
    and "\<And>c' s'. moves s s' \<Longrightarrow> p_current s < p_current s' \<Longrightarrow> pending_ok s' \<Longrightarrow> extends c c' \<Longrightarrow>
      R c' s'"
  shows "runs s (parse_destructor d c a) R"
proof -
  have id: "identifier_text ''destroy''" by code_simp
  show ?thesis
    unfolding parse_destructor_def destructor_syntax_def
    by (intro runs_intro runs_gives [OF gives_parseBlock])
      (use assms(1-5) id in \<open>auto simp: frame_simps default_method_def member_ok_def method_ok_def
        intro!: assms(6) class_ok_add_method\<close>)
qed

lemma class_name_ok: "class_ok c \<Longrightarrow> identifier_text (cl_name c)"
  by (simp add: class_ok_def)

lemma runs_parse_typed_member:
  assumes "p_ok s" "pending_ok s" "class_ok c"
    and "\<And>c' s'. moves s s' \<Longrightarrow> p_current s < p_current s' \<Longrightarrow> pending_ok s' \<Longrightarrow> extends c c' \<Longrightarrow>
      R c' s'"
  shows "runs s (parse_typed_member d c a) R"
proof -
  have field: "extends c (c\<lparr>cl_fields := cl_fields c @ [f]\<rparr>)" if "field_ok f" for f
    using assms(3) that by (simp add: class_ok_def extends_def)
  have method_added: "extends c (add_method (m\<lparr>me_access := a\<rparr>) c)"
    if "method_ok m" "me_constructor m \<longleftrightarrow> me_name m = cl_name c" "\<not> me_destructor m"
      "me_name m \<noteq> ''destroy'' \<or> me_constructor m" "\<not> me_externalBinding m" for m
    using that assms(3) by (auto intro!: class_ok_add_method simp: member_ok_def method_ok_def)
  note dot = identifier_no_dot [OF class_name_ok [OF assms(3)]]
  show ?thesis
    unfolding parse_typed_member_def destructor_syntax_def constructor_return_type_def
    by (intro runs_intro runs_parseType runs_parseMethod)
      (use assms(1-2) dot in \<open>auto simp: frame_simps token_identifier field_ok_def
        intro!: assms(4) field method_added\<close>)
qed


lemma runs_parse_member:
  assumes "p_ok s" "pending_ok s" "class_ok c"
    and "\<And>m' s'. moves s s' \<Longrightarrow> p_current s < p_current s' \<Longrightarrow> pending_ok s' \<Longrightarrow>
      extends c (fst m') \<Longrightarrow> R m' s'"
  shows "runs s (parse_member d (c, a)) R"
proof -
  have enum: "tok_type t \<noteq> T_End" if "isEnumKeyword t" for t
    using that by (simp add: isEnumKeyword_def)
  show ?thesis
    unfolding parse_member_def only_top_level_def inline_only_in_body_def fst_conv snd_conv
    by (intro runs_intro runs_parseEnumMembers runs_parse_destructor runs_parse_typed_member assms(3))
      (use assms(1-3) enum in \<open>auto simp: frame_simps intro!: assms(4) extends_refl\<close>)
qed

lemma runs_class_members:
  assumes "p_ok s" "pending_ok s" "class_ok c"
    and "\<And>c' s'. moves s s' \<Longrightarrow> pending_ok s' \<Longrightarrow> extends c c' \<Longrightarrow> R c' s'"
  shows "runs s (class_members d c) R"
  unfolding class_members_def
proof (rule runs_loop_moves [where I = "\<lambda>m t. moves s t \<and> pending_ok t \<and> extends c (fst m)"])
  fix m :: "class_declaration \<times> access_level" and t
  assume t: "moves s t" "moves s t \<and> pending_ok t \<and> extends c (fst m)"
  obtain c' a where m: "m = (c', a)" by (cases m)
  show "runs t (cond (check_any block_ends) (leave (fst m))
     (andThen skipNewlines (cond (check_any block_ends) (leave (fst m))
       (bind (parse_member d m) again))))
     (\<lambda>r v. moves t v \<and> (case r of Inl y \<Rightarrow> p_current t < p_current v \<and>
          (moves s v \<and> pending_ok v \<and> extends c (fst y)) | Inr z \<Rightarrow> R z v))"
    unfolding m
    by (intro runs_intro runs_parse_member)
      (use t m extends_trans in \<open>auto simp: frame_simps extends_ok intro!: assms(4)\<close>)
qed (use assms in \<open>auto simp: extends_refl\<close>)

lemma runs_parseClass:
  assumes "p_ok s" "pending_ok s"
    and "\<And>c s'. moves s s' \<Longrightarrow> p_current s < p_current s' \<Longrightarrow> pending_ok s' \<Longrightarrow> class_ok c \<Longrightarrow>
      cl_namespacePath c = p_namespacePath s \<Longrightarrow> R c s'"
  shows "runs s (parseClass d) R"
proof -
  have new: "class_ok (default_class\<lparr>cl_name := w, cl_namespacePath := p, cl_location := l\<rparr>)"
    if "identifier_text w" for w p l
    using that by (simp add: class_ok_def bases_ok_def default_class_def)
  have bases: "class_ok (foldl add_base (default_class\<lparr>cl_name := w, cl_namespacePath := p,
      cl_location := l\<rparr>) bs) \<and> cl_namespacePath (foldl add_base (default_class\<lparr>cl_name := w,
      cl_namespacePath := p, cl_location := l\<rparr>) bs) = p"
    if "identifier_text w" "list_all (\<lambda>b. simple_name (fst b)) bs" for w p l bs
    using class_ok_bases [OF new [OF that(1)] that(2), of l p] by (simp add: extends_def)
  show ?thesis
    unfolding parseClass_def
    by (intro runs_intro runs_comma_list [OF yields_parse_base] runs_class_members)
      (use assms(1,2) new bases in \<open>auto simp: frame_simps token_identifier extends_def intro!: assms(3)\<close>)
qed


subsection \<open>Methods outside their class\<close>

definition out_of_line_ok :: "out_of_line_method \<Rightarrow> bool" where
  "out_of_line_ok m \<longleftrightarrow> simple_name (ol_className m) \<and> method_ok (ol_method m) \<and>
     (me_constructor (ol_method m) \<longleftrightarrow> me_name (ol_method m) = leaf_name (ol_className m)) \<and>
     \<not> me_destructor (ol_method m) \<and> me_name (ol_method m) \<noteq> ''destroy'' \<and>
     ol_moduleName m = []"

lemma runs_method_path [runs_intro]:
  assumes "p_ok s" "simple_name c" "token_ok m" "tok_type m = T_Identifier"
    and "\<And>c' m' s'. reaches s s' \<Longrightarrow> simple_name c' \<Longrightarrow> identifier_text (tok_text m') \<Longrightarrow> R (c', m') s'"
  shows "runs s (method_path c m) R"
  unfolding method_path_def
proof (rule runs_loop [where I = "\<lambda>(c, m). simple_name c \<and> token_ok m \<and> tok_type m = T_Identifier"])
  fix x t assume x: "reaches s t" "p_ok t" "case x of (c, m) \<Rightarrow> simple_name c \<and> token_ok m \<and> tok_type m = T_Identifier"
  obtain c m where "x = (c, m)" by (cases x)
  with x show "runs t (cond (match T_Dot)
     (bind (consume T_Identifier ''method name'') (\<lambda>member.
        again (fst x @ ''.'' @ tok_text (snd x), member)))
     (leave x)) (\<lambda>r v. reaches t v \<and> (case r of Inl y \<Rightarrow> p_current t < p_current v \<and>
            (case y of (c, m) \<Rightarrow> simple_name c \<and> token_ok m \<and> tok_type m = T_Identifier)
         | Inr z \<Rightarrow> reaches s v \<longrightarrow> R z v))"
    by (intro runs_intro)
      (auto simp: reaches_iff token_identifier intro: simple_name_dot token_ok_identifier intro!: assms(5))
qed (use assms in auto)

lemma runs_method_definition_body:
  assumes "p_ok s" "pending_ok s" "method_ok m" "me_body m = []" "\<not> me_destructor m"
    "\<not> me_declarationOnly m" "\<not> me_externalBinding m"
    and "\<And>m' s'. moves s s' \<Longrightarrow> pending_ok s' \<Longrightarrow> method_ok m' \<Longrightarrow>
      me_name m' = me_name m \<Longrightarrow> me_constructor m' = me_constructor m \<Longrightarrow>
      \<not> me_destructor m' \<Longrightarrow> R m' s'"
  shows "runs s (method_definition_body d m) R"
  unfolding method_definition_body_def
  by (intro runs_intro runs_gives [OF gives_parseBlock])
    (use assms(1-7) in \<open>auto simp: frame_simps method_ok_def intro!: assms(8)\<close>)

lemma runs_parseOutOfLineMethodDefinition:
  assumes "p_ok s" "pending_ok s"
    and "\<And>m s'. moves s s' \<Longrightarrow> p_current s < p_current s' \<Longrightarrow> pending_ok s' \<Longrightarrow> out_of_line_ok m \<Longrightarrow>
      ol_namespacePath m = p_namespacePath s \<Longrightarrow> R m s'"
  shows "runs s (parseOutOfLineMethodDefinition d) R"
proof -
  let ?m = "\<lambda>n b r l ps. default_method
     \<lparr>me_name := n, me_returnType := (if b then ''void'' else r), me_location := l,
      me_constructor := b, me_parameters := ps\<rparr>"
  have fresh: "me_body (?m n b r l ps) = []" "\<not> me_destructor (?m n b r l ps)"
    "\<not> me_declarationOnly (?m n b r l ps)" "\<not> me_externalBinding (?m n b r l ps)"
    "me_name (?m n b r l ps) = n" "me_constructor (?m n b r l ps) = b" for n b r l ps
    by (simp_all add: default_method_def)
  have ok: "method_ok (?m n b r l ps)"
    if "identifier_text n" "type_name r" "list_all parameter_ok ps" for n b r l ps
    using that by (simp add: default_method_def method_ok_def)
  show ?thesis
    unfolding parseOutOfLineMethodDefinition_def Let_def
    by (intro runs_intro runs_yields [OF yields_parseType] runs_yields [OF yields_parseParameters]
        runs_method_definition_body; (rule ok fresh | simp add: frame_simps token_ok_identifier)?)
      (use assms(1,2) in \<open>auto simp: frame_simps token_ok_identifier fresh
        out_of_line_ok_def intro!: assms(3)\<close>)
qed

lemma runs_startsOutOfLineDefinition [runs_intro]:
  "p_ok s \<Longrightarrow> (\<And>b. R b s) \<Longrightarrow> runs s startsOutOfLineDefinition R"
  by (auto simp: startsOutOfLineDefinition_def bind_def current_def token_at_def runs_def p_ok_def
      split: option.splits)

definition import_ok :: "import_declaration \<Rightarrow> bool" where
  "import_ok i \<longleftrightarrow> identifier_text (im_moduleName i) \<and>
     (im_alias i = [] \<or> identifier_text (im_alias i))"

lemma yields_parseImport: "yields import_ok parseImport"
  unfolding parseImport_def
  by (rule yieldsI, intro runs_intro) (auto simp: reaches_iff import_ok_def token_identifier)


subsection \<open>Namespaces and programs\<close>

text \<open>
  Every namespace path in use is declared, with its parents; \<open>program_ok\<close> collects what the
  parser promises of a translation unit.
\<close>

definition declared :: "program \<Rightarrow> string list \<Rightarrow> bool" where
  "declared p path \<longleftrightarrow> path = [] \<or> path \<in> ns_path ` set (pr_namespaces p)"

definition program_ok :: "program \<Rightarrow> bool" where
  "program_ok p \<longleftrightarrow>
     list_all import_ok (pr_imports p) \<and>
     list_all (\<lambda>n. ns_path n \<noteq> [] \<and> list_all identifier_text (ns_path n) \<and>
       declared p (butlast (ns_path n))) (pr_namespaces p) \<and>
     list_all (\<lambda>c. class_ok c \<and> declared p (cl_namespacePath c)) (pr_classes p) \<and>
     list_all (\<lambda>m. out_of_line_ok m \<and> declared p (ol_namespacePath m)) (pr_outOfLineMethods p) \<and>
     list_all stmt_ok (pr_statements p)"

definition grows :: "program \<Rightarrow> program \<Rightarrow> bool" where
  "grows p q \<longleftrightarrow> set (pr_namespaces p) \<subseteq> set (pr_namespaces q) \<and> program_ok q \<and>
     pr_statements q = pr_statements p \<and> pr_hasStart q = pr_hasStart p"

lemma grows_refl: "program_ok p \<Longrightarrow> grows p p"
  by (simp add: grows_def)

lemma grows_trans: "grows p q \<Longrightarrow> grows q r \<Longrightarrow> grows p r"
  by (auto simp: grows_def)

lemma grows_declared: "grows p q \<Longrightarrow> declared p path \<Longrightarrow> declared q path"
  by (auto simp: grows_def declared_def)

lemma grows_ok: "grows p q \<Longrightarrow> program_ok q"
  by (simp add: grows_def)

lemma declared_add [simp]:
  "declared (add_import i p) path = declared p path" "declared (add_class c p) path = declared p path"
  "declared (add_out_of_line m p) path = declared p path"
  by (simp_all add: declared_def add_import_def add_class_def add_out_of_line_def)

lemma grows_add:
  "program_ok p \<Longrightarrow> import_ok i \<Longrightarrow> grows p (add_import i p)"
  "program_ok p \<Longrightarrow> class_ok c \<Longrightarrow> declared p (cl_namespacePath c) \<Longrightarrow> grows p (add_class c p)"
  "program_ok p \<Longrightarrow> out_of_line_ok m \<Longrightarrow> declared p (ol_namespacePath m) \<Longrightarrow>
     grows p (add_out_of_line m p)"
  unfolding grows_def program_ok_def declared_add
  by (simp_all add: add_import_def add_class_def add_out_of_line_def declared_def)

abbreviation with_namespace :: "namespace_declaration \<Rightarrow> program \<Rightarrow> program" where
  "with_namespace n p \<equiv> p\<lparr>pr_namespaces := pr_namespaces p @ [n]\<rparr>"

lemma declared_namespace [simp]:
  "declared (with_namespace n p) path \<longleftrightarrow> declared p path \<or> path = ns_path n"
  by (auto simp: declared_def)

lemma grows_namespace:
  assumes "program_ok p" "declared p path" "identifier_text w"
  shows "grows p (with_namespace \<lparr>ns_path = path @ [w], ns_moduleName = m, ns_location = l\<rparr> p)"
proof -
  have "list_all identifier_text path"
    using assms(1,2) by (auto simp: program_ok_def declared_def list_all_iff)
  with assms show ?thesis by (simp add: grows_def program_ok_def list_all_iff subset_insertI)
qed

lemma grows_inside:
  "grows (with_namespace \<lparr>ns_path = path @ [w], ns_moduleName = m, ns_location = l\<rparr> p) q \<Longrightarrow>
     program_ok p \<Longrightarrow> declared p path \<Longrightarrow> identifier_text w \<Longrightarrow> grows p q"
  by (rule grows_trans [OF grows_namespace])

text \<open>An operation that adds declarations to a program, in the scope of the state.\<close>

definition adds :: "(program \<Rightarrow> program parser) \<Rightarrow> bool" where
  "adds f \<longleftrightarrow> (\<forall>s p. p_ok s \<longrightarrow> pending_ok s \<longrightarrow> program_ok p \<longrightarrow> declared p (p_namespacePath s) \<longrightarrow>
     runs s (f p) (\<lambda>q s'. moves s s' \<and> p_current s < p_current s' \<and> pending_ok s' \<and> grows p q))"

lemma addsI:
  "(\<And>s p. p_ok s \<Longrightarrow> pending_ok s \<Longrightarrow> program_ok p \<Longrightarrow> declared p (p_namespacePath s) \<Longrightarrow>
     runs s (f p) (\<lambda>q s'. moves s s' \<and> p_current s < p_current s' \<and> pending_ok s' \<and> grows p q)) \<Longrightarrow>
   adds f"
  by (simp add: adds_def)

lemma runs_adds:
  assumes "adds f" "p_ok s" "pending_ok s" "program_ok p" "declared p (p_namespacePath s)"
    and "\<And>q s'. moves s s' \<Longrightarrow> p_current s < p_current s' \<Longrightarrow> pending_ok s' \<Longrightarrow> grows p q \<Longrightarrow> R q s'"
  shows "runs s (f p) R"
  using assms(1-5) by (auto simp: adds_def intro: runs_mono assms(6))

lemma adds_namespace_member: "adds nested \<Longrightarrow> adds (namespace_member d nested)"
  unfolding namespace_member_def only_top_level_def inline_only_in_body_def
  by (rule addsI, intro runs_intro runs_parseClass runs_parseOutOfLineMethodDefinition runs_adds)
    (auto simp: frame_simps intro!: grows_add)

lemma runs_push_namespace [runs_intro]:
  "R () (s\<lparr>p_namespacePath := p_namespacePath s @ [w]\<rparr>) \<Longrightarrow> runs s (push_namespace w) R"
  by (simp add: runs_def push_namespace_def)

lemma runs_pop_namespace [runs_intro]:
  "R () (s\<lparr>p_namespacePath := take n (p_namespacePath s)\<rparr>) \<Longrightarrow> runs s (pop_namespace n) R"
  by (simp add: runs_def pop_namespace_def)

lemma p_ok_namespace [simp]: "p_ok (s\<lparr>p_namespacePath := path\<rparr>) = p_ok s"
  by (simp add: p_ok_def)

lemma adds_namespace_body:
  assumes "adds nested"
  shows "adds (namespace_body d nested)"
proof (rule addsI)
  fix s p assume s: "p_ok s" "pending_ok s" "program_ok p" "declared p (p_namespacePath s)"
  have loop: "runs t (loop (\<lambda>q. cond (check_any block_ends) (leave q)
           (andThen skipNewlines (cond (check_any block_ends) (leave q)
             (bind (namespace_member d nested q) (\<lambda>q'. andThen skipNewlines (again q')))))) p) R"
    if t: "p_ok t" "pending_ok t" "program_ok p" "declared p (p_namespacePath t)"
      "\<And>q t'. moves t t' \<Longrightarrow> pending_ok t' \<Longrightarrow> grows p q \<Longrightarrow> R q t'" for t p R
  proof (rule runs_loop_moves [where I = "\<lambda>q u. moves t u \<and> pending_ok u \<and> grows p q"])
    fix q u assume u: "moves t u" "moves t u \<and> pending_ok u \<and> grows p q"
    show "runs u (cond (check_any block_ends) (leave q)
           (andThen skipNewlines (cond (check_any block_ends) (leave q)
             (bind (namespace_member d nested q) (\<lambda>q'. andThen skipNewlines (again q'))))))
          (\<lambda>r v. moves u v \<and> (case r of Inl y \<Rightarrow> p_current u < p_current v \<and>
                (moves t v \<and> pending_ok v \<and> grows p y) | Inr z \<Rightarrow> R z v))"
      by (intro runs_intro runs_adds [OF adds_namespace_member [OF assms]])
        (use u t(4) in \<open>auto simp: frame_simps grows_ok intro: grows_declared grows_trans intro!: t(5)\<close>)
  qed (use t in \<open>auto simp: grows_refl\<close>)
  show "runs s (namespace_body d nested p)
      (\<lambda>q s'. moves s s' \<and> p_current s < p_current s' \<and> pending_ok s' \<and> grows p q)"
    unfolding namespace_body_def
    by (intro runs_intro loop)
      (use s in \<open>auto simp: frame_simps token_identifier
        intro!: grows_ok [OF grows_namespace] elim: grows_inside\<close>)
qed

lemma adds_parseNamespace: "adds (parseNamespace d)"
proof (induction "maximumNesting - d" arbitrary: d rule: less_induct)
  case less
  have "runs s (guard d (namespace_body (d + 1) (parseNamespace (d + 1)) p))
      (\<lambda>q s'. moves s s' \<and> p_current s < p_current s' \<and> pending_ok s' \<and> grows p q)"
    if "p_ok s" "pending_ok s" "program_ok p" "declared p (p_namespacePath s)" for s p
    by (intro runs_intro runs_adds [OF adds_namespace_body [OF less.hyps]]) (use that in auto)
  then show ?case
    by (intro addsI, subst runs_def, subst parseNamespace.simps) (simp add: runs_def)
qed

lemma adds_parse_declaration: "adds parse_declaration"
  unfolding parse_declaration_def
  by (rule addsI, intro runs_intro runs_parseClass runs_parseOutOfLineMethodDefinition
      runs_yields [OF yields_parseImport] runs_adds [OF adds_parseNamespace])
    (auto simp: frame_simps intro!: grows_add)

lemma adds_module_declaration: "adds module_declaration"
  unfolding module_declaration_def inline_only_in_body_def
  by (rule addsI, intro runs_intro runs_parseClass runs_parseOutOfLineMethodDefinition
      runs_yields [OF yields_parseImport] runs_adds [OF adds_parseNamespace])
    (auto simp: frame_simps intro!: grows_add)

lemma program_ok_empty: "program_ok empty_program"
  by (simp add: program_ok_def empty_program_def)

lemma runs_parse_declarations:
  assumes "p_ok s" "pending_ok s" "p_namespacePath s = []"
    and "\<And>q s'. moves s s' \<Longrightarrow> pending_ok s' \<Longrightarrow> grows empty_program q \<Longrightarrow> R q s'"
  shows "runs s parse_declarations R"
  unfolding parse_declarations_def
proof (rule runs_loop_moves [where I = "\<lambda>q t. moves s t \<and> pending_ok t \<and> grows empty_program q"])
  fix q t assume t: "moves s t" "moves s t \<and> pending_ok t \<and> grows empty_program q"
  show "runs t (bind (check_any declarations_start) (\<lambda>b.
     bind (if b then ret True else startsOutOfLineDefinition) (\<lambda>more.
       if more then bind (parse_declaration q) (\<lambda>q'. andThen skipNewlines (again q')) else leave q)))
       (\<lambda>r v. moves t v \<and> (case r of Inl y \<Rightarrow> p_current t < p_current v \<and>
                (moves s v \<and> pending_ok v \<and> grows empty_program y) | Inr z \<Rightarrow> R z v))"
    by (intro runs_intro runs_adds [OF adds_parse_declaration])
      (use t assms(3) in \<open>auto simp: frame_simps grows_ok declared_def intro: grows_trans
        intro!: assms(4)\<close>)
qed (use assms in \<open>auto simp: grows_refl program_ok_empty\<close>)

text \<open>A whole program ends at the end of the tokens.\<close>

definition unit_ok :: "program \<Rightarrow> parser_state \<Rightarrow> bool" where
  "unit_ok p s \<longleftrightarrow> p_ok s \<and> tok_type (tok s) = T_End \<and> p_namespacePath s = [] \<and> program_ok p \<and>
     (pr_statements p \<noteq> [] \<longrightarrow> pr_hasStart p)"

lemma runs_parseProgram:
  assumes "p_ok s" "pending_ok s" "p_namespacePath s = []"
  shows "runs s (parseProgram b) (\<lambda>p s'. unit_ok p s' \<and> p_tokens s' = p_tokens s \<and> (b \<longrightarrow> pr_hasStart p))"
proof -
  have start: "program_ok (p\<lparr>pr_location := l, pr_hasStart := True, pr_statements := sts\<rparr>)"
    if "grows empty_program p" "list_all stmt_ok sts" for p l sts
    using that by (simp add: grows_def program_ok_def declared_def)
  have none: "pr_statements p = []" if "grows empty_program p" for p
    using that by (simp add: grows_def empty_program_def)
  show ?thesis
    unfolding parseProgram_def after_start_def inline_only_in_body_def one_start_block_def
    by (intro runs_intro runs_parse_declarations runs_gives [OF gives_parseBlock])
      (use assms start none in \<open>auto simp: frame_simps unit_ok_def grows_ok\<close>)
qed

lemma runs_parseModule:
  assumes "p_ok s" "pending_ok s" "p_namespacePath s = []"
  shows "runs s parseModule (\<lambda>p s'. unit_ok p s' \<and> p_tokens s' = p_tokens s \<and> \<not> pr_hasStart p)"
proof -
  have loop: "runs t (loop (\<lambda>p. cond (check T_End) (leave p)
       (bind (module_declaration p) (\<lambda>q. andThen skipNewlines (again q)))) empty_program) R"
    if t: "p_ok t" "pending_ok t" "p_namespacePath t = []"
      "\<And>q t'. moves t t' \<Longrightarrow> tok_type (tok t') = T_End \<Longrightarrow> grows empty_program q \<Longrightarrow> R q t'" for t R
  proof (rule runs_loop_moves [where I = "\<lambda>q u. moves t u \<and> pending_ok u \<and> grows empty_program q"])
    fix q u assume u: "moves t u" "moves t u \<and> pending_ok u \<and> grows empty_program q"
    show "runs u (cond (check T_End) (leave q)
       (bind (module_declaration q) (\<lambda>q'. andThen skipNewlines (again q'))))
       (\<lambda>r v. moves u v \<and> (case r of Inl y \<Rightarrow> p_current u < p_current v \<and>
                (moves t v \<and> pending_ok v \<and> grows empty_program y) | Inr z \<Rightarrow> R z v))"
      by (intro runs_intro runs_adds [OF adds_module_declaration])
        (use u t(3) in \<open>auto simp: frame_simps grows_ok declared_def intro: grows_trans intro!: t(4)\<close>)
  qed (use t in \<open>auto simp: grows_refl program_ok_empty\<close>)
  show ?thesis
    unfolding parseModule_def
    by (intro runs_intro loop)
      (use assms in \<open>auto simp: frame_simps unit_ok_def grows_def empty_program_def\<close>)
qed

end
