(* ===== verification/Parser_Grammar.thy ===== *)
theory Parser_Grammar
  imports Parser_Expr_Spec
begin

text \<open>
  The grammar of the binary operators: what the precedence levels of the parser accept, as a
  relation over token positions, and that the loops of the parser build its left-associative
  trees.
\<close>

text \<open>
  \<open>left_assoc ops name operand s e s'\<close>: from the position of \<open>s\<close> to that of \<open>s'\<close> stands a
  sequence of operands with operators of \<open>ops\<close> between them, and \<open>e\<close> is its tree, grouped to
  the left and nowhere deeper than the parser allows.
\<close>

inductive left_assoc ::
  "token_type list \<Rightarrow> (token \<Rightarrow> string) \<Rightarrow> expression parser \<Rightarrow>
     parser_state \<Rightarrow> expression \<Rightarrow> parser_state \<Rightarrow> bool"
  for ops name operand s where
  left_assoc_one: "operand s = Inr (e, t) \<Longrightarrow> left_assoc ops name operand s e t"
| left_assoc_more:
    "left_assoc ops name operand s l t \<Longrightarrow> tok_type (tok t) \<in> set ops \<Longrightarrow>
     operand (t\<lparr>p_current := Suc (p_current t)\<rparr>) = Inr (r, u) \<Longrightarrow>
     tree_depth (binary_node (tok t) (name (tok t)) l r) \<le> maximumNesting \<Longrightarrow>
     left_assoc ops name operand s (binary_node (tok t) (name (tok t)) l r) u"

lemma left_assoc_next:
  assumes "left_assoc ops f operand s l t" "p_tokens t = ts" "tok_type (ts ! p_current t) \<in> set ops"
    and "operand (t\<lparr>p_current := Suc (p_current t)\<rparr>) = Inr (r, u)"
    and "tree_depth (binary_node (ts ! p_current t) (f (ts ! p_current t)) l r) \<le> maximumNesting"
  shows "left_assoc ops f operand s (binary_node (ts ! p_current t) (f (ts ! p_current t)) l r) u"
  using assms left_assoc_more by fastforce

lemma runs_self: "runs s p R \<Longrightarrow> runs s p (\<lambda>x s'. R x s' \<and> p s = Inr (x, s'))"
  by (auto simp: runs_def split: sum.splits)

lemma runs_yields_self:
  assumes "yields Q p" "p_ok s"
    and "\<And>x s'. reaches s s' \<Longrightarrow> p_current s < p_current s' \<Longrightarrow> p s = Inr (x, s') \<Longrightarrow> R x s'"
  shows "runs s p R"
proof -
  have "runs s p (\<lambda>x s'. reaches s s' \<and> p_current s < p_current s')"
    by (rule runs_yields [OF assms(1,2)]) simp
  then show ?thesis by (rule runs_mono [OF runs_self]) (auto intro: assms(3))
qed

lemma runs_take_token_exact:
  assumes "p_ok s" "tok_type (tok s) \<noteq> T_End"
    and "reaches s (s\<lparr>p_current := Suc (p_current s)\<rparr>) \<Longrightarrow> R (tok s) (s\<lparr>p_current := Suc (p_current s)\<rparr>)"
  shows "runs s take_token R"
  unfolding take_token_def step_def andThen_def bind_def
  using assms reaches_step [OF assms(1,2)]
  by (simp add: runs_def current_def token_at_def p_ok_def ret_def)

lemma runs_left_assoc:
  assumes "yields expr_ok operand" "T_End \<notin> set ops" "p_ok s"
  shows "runs s (binary_chain ops f operand)
    (\<lambda>e s'. left_assoc ops f operand s e s' \<and> tok_type (tok s') \<notin> set ops)"
  unfolding binary_chain_def
proof (rule runs_bind, rule runs_yields_self [OF assms(1,3)])
  fix e s' assume e: "reaches s s'" "p_current s < p_current s'" "operand s = Inr (e, s')"
  show "runs s' (loop (\<lambda>e. cond (check_any ops)
         (bind take_token (\<lambda>t. bind operand (\<lambda>r. bind (validated (binary_node t (f t) e r)) again)))
         (leave e)) e) (\<lambda>e s'. left_assoc ops f operand s e s' \<and> tok_type (tok s') \<notin> set ops)"
  proof (rule runs_loop_moves [where I = "\<lambda>x u. left_assoc ops f operand s x u"])
    fix x u assume u: "moves s' u" "left_assoc ops f operand s x u"
    then show "runs u (cond (check_any ops)
         (bind take_token (\<lambda>t. bind operand (\<lambda>r. bind (validated (binary_node t (f t) x r)) again)))
         (leave x))
       (\<lambda>r v. moves u v \<and> (case r of
            Inl y \<Rightarrow> p_current u < p_current v \<and> left_assoc ops f operand s y v
          | Inr z \<Rightarrow> left_assoc ops f operand s z v \<and> tok_type (tok v) \<notin> set ops))"
      using assms(2)
      by (intro runs_cond_check_any runs_bind runs_take_token_exact runs_yields_self [OF assms(1)]
          runs_intro)
        (auto simp: reaches_iff moves_def intro: left_assoc_next)
  qed (use e in \<open>auto simp: reaches_iff intro: left_assoc_one\<close>)
qed


text \<open>
  The relational level: besides its operators it has the type test, whose right side is the name
  of a type. \<open>comparison_chain operand s e s'\<close> is as \<open>left_assoc\<close>.
\<close>

definition type_test_node :: "token \<Rightarrow> source_location \<Rightarrow> expression \<Rightarrow> string \<Rightarrow> expression" where
  "type_test_node operation typeLocation e name =
     Expression ((node_info EK_TypeTest (tok_location operation) name)\<lparr>ex_typeLocation := typeLocation\<rparr>) (Some e) None []"

inductive comparison_chain ::
  "expression parser \<Rightarrow> parser_state \<Rightarrow> expression \<Rightarrow> parser_state \<Rightarrow> bool"
  for operand s where
  comparison_one: "operand s = Inr (e, t) \<Longrightarrow> comparison_chain operand s e t"
| comparison_more:
    "comparison_chain operand s l t \<Longrightarrow> tok_type (tok t) \<in> {T_Less, T_LessEqual, T_Greater, T_GreaterEqual} \<Longrightarrow>
     operand (t\<lparr>p_current := Suc (p_current t)\<rparr>) = Inr (r, u) \<Longrightarrow>
     tree_depth (binary_node (tok t) (tok_text (tok t)) l r) \<le> maximumNesting \<Longrightarrow>
     comparison_chain operand s (binary_node (tok t) (tok_text (tok t)) l r) u"
| comparison_type:
    "comparison_chain operand s l t \<Longrightarrow> tok_type (tok t) = T_Is \<Longrightarrow> t' = t\<lparr>p_current := Suc (p_current t)\<rparr> \<Longrightarrow>
     parseTypeTestName (quoted ''is'') t' = Inr (name, u) \<Longrightarrow>
     tree_depth (type_test_node (tok t) (tok_location (tok t')) l name) \<le> maximumNesting \<Longrightarrow>
     comparison_chain operand s (type_test_node (tok t) (tok_location (tok t')) l name) u"

lemma left_assoc_level:
  assumes "p_ok s" "p = binary_chain ops f operand" "yields expr_ok operand" "T_End \<notin> set ops"
    and "p s = Inr (e, s')"
  shows "left_assoc ops f operand s e s' \<and> tok_type (tok s') \<notin> set ops"
  using runs_left_assoc [OF assms(3,4,1), of f] assms(2,5) by (simp add: runs_def)

lemma runs_type_name_self:
  assumes "p_ok s"
    and "\<And>w s'. reaches s s' \<Longrightarrow> p_current s < p_current s' \<Longrightarrow> parseTypeTestName m s = Inr (w, s') \<Longrightarrow> R w s'"
  shows "runs s (parseTypeTestName m) R"
proof -
  have "runs s (parseTypeTestName m) (\<lambda>w s'. reaches s s' \<and> p_current s < p_current s')"
    using assms(1) by (rule runs_parseTypeTestName) simp
  then show ?thesis by (rule runs_mono [OF runs_self]) (auto intro: assms(2))
qed

lemma comparison_next:
  assumes "comparison_chain operand s l t" "p_tokens t = ts"
    and "tok_type (ts ! p_current t) \<in> {T_Less, T_LessEqual, T_Greater, T_GreaterEqual}"
    and "operand (t\<lparr>p_current := Suc (p_current t)\<rparr>) = Inr (r, u)"
    and "tree_depth (binary_node (ts ! p_current t) (tok_text (ts ! p_current t)) l r) \<le> maximumNesting"
  shows "comparison_chain operand s (binary_node (ts ! p_current t) (tok_text (ts ! p_current t)) l r) u"
  using assms comparison_more by fastforce

lemma comparison_type_next:
  assumes "comparison_chain operand s l t" "p_tokens t = ts" "tok_type (ts ! p_current t) = T_Is"
    and "parseTypeTestName (quoted ''is'') (t\<lparr>p_current := Suc (p_current t)\<rparr>) = Inr (name, u)"
    and "tree_depth (type_test_node (ts ! p_current t) (tok_location (ts ! Suc (p_current t))) l name) \<le> maximumNesting"
  shows "comparison_chain operand s (type_test_node (ts ! p_current t) (tok_location (ts ! Suc (p_current t))) l name) u"
  using comparison_type [OF assms(1) _ refl assms(4)] assms(2,3,5) by simp

lemma runs_comparison:
  assumes "yields expr_ok operand" "p_ok s"
  shows "runs s (relational_chain operand)
    (\<lambda>e s'. comparison_chain operand s e s' \<and> tok_type (tok s') \<notin> set relational_operators)"
  unfolding relational_chain_def
proof (rule runs_bind, rule runs_yields_self [OF assms])
  let ?body = "\<lambda>e. cond (check_any relational_operators)
         (bind take_token (\<lambda>operation.
            if tok_type operation = T_Is then
              bind current (\<lambda>t. bind (parseTypeTestName (quoted ''is'')) (\<lambda>name.
                bind (validated (Expression
                    ((node_info EK_TypeTest (tok_location operation) name)
                       \<lparr>ex_typeLocation := tok_location t\<rparr>) (Some e) None [])) again))
            else bind operand (\<lambda>r.
                bind (validated (binary_node operation (tok_text operation) e r)) again)))
         (leave e)"
  fix e s' assume e: "reaches s s'" "p_current s < p_current s'" "operand s = Inr (e, s')"
  show "runs s' (loop ?body e)
    (\<lambda>e s'. comparison_chain operand s e s' \<and> tok_type (tok s') \<notin> set relational_operators)"
  proof (rule runs_loop_moves [where I = "\<lambda>x u. comparison_chain operand s x u"])
    fix x u assume u: "moves s' u" "comparison_chain operand s x u"
    then show "runs u (?body x)
       (\<lambda>r v. moves u v \<and> (case r of
            Inl y \<Rightarrow> p_current u < p_current v \<and> comparison_chain operand s y v
          | Inr z \<Rightarrow> comparison_chain operand s z v \<and> tok_type (tok v) \<notin> set relational_operators))"
      by (intro runs_cond_check_any runs_bind runs_take_token_exact runs_if runs_current runs_type_name_self
          runs_yields_self [OF assms(1)] runs_intro)
        (auto simp: reaches_iff moves_def relational_operators_def type_test_node_def [symmetric]
          intro: comparison_next comparison_type_next)
  qed (use e in \<open>auto simp: reaches_iff intro: comparison_one\<close>)
qed

text \<open>C17: each precedence level of the binary operators reads a sequence of operands of the
  next tighter level with its operators between them, or type tests at the relational level,
  builds the tree grouped to the left, and stops only in front of a token that is not one of its operators.\<close>

theorem precedence_levels:
  assumes "p_ok s"
  shows
    "(parseOr d s = Inr (e, s') \<longrightarrow>
       left_assoc [T_Or, T_OrOr] (\<lambda>_. ''||'') (parseAnd d) s e s' \<and>
       tok_type (tok s') \<notin> set [T_Or, T_OrOr]) \<and>
     (parseAnd d s = Inr (e, s') \<longrightarrow>
       left_assoc [T_And, T_AndAnd] (\<lambda>_. ''&&'') (parseNot d) s e s' \<and>
       tok_type (tok s') \<notin> set [T_And, T_AndAnd]) \<and>
     (parseComparison d s = Inr (e, s') \<longrightarrow>
       left_assoc [T_EqualEqual, T_BangEqual] tok_text (parseRelational d) s e s' \<and>
       tok_type (tok s') \<notin> set [T_EqualEqual, T_BangEqual]) \<and>
     (parseRelational d s = Inr (e, s') \<longrightarrow>
       comparison_chain (parseAddition d) s e s' \<and>
       tok_type (tok s') \<notin> {T_Is, T_Less, T_LessEqual, T_Greater, T_GreaterEqual}) \<and>
     (parseAddition d s = Inr (e, s') \<longrightarrow>
       left_assoc [T_Plus, T_Minus] tok_text (parseMultiplication d) s e s' \<and>
       tok_type (tok s') \<notin> set [T_Plus, T_Minus]) \<and>
     (parseMultiplication d s = Inr (e, s') \<longrightarrow>
       left_assoc [T_Star, T_Slash, T_Percent] tok_text (parseUnary d) s e s' \<and>
       tok_type (tok s') \<notin> set [T_Star, T_Slash, T_Percent])"
proof -
  note level = left_assoc_level [OF assms]
  have y: "yields expr_ok (parseAnd d)" "yields expr_ok (parseNot d)"
    "yields expr_ok (parseRelational d)" "yields expr_ok (parseMultiplication d)"
    "yields expr_ok (parseUnary d)"
    using yields_descent [of d] by blast+
  have addition: "yields expr_ok (parseAddition d)"
    unfolding parse_unfold(7) by (rule yields_binary_chain [OF y(4)]) simp
  have relational: "parseRelational d s = Inr (e, s') \<Longrightarrow> comparison_chain (parseAddition d) s e s' \<and>
      tok_type (tok s') \<notin> {T_Is, T_Less, T_LessEqual, T_Greater, T_GreaterEqual}"
    using runs_comparison [OF addition assms] by (simp add: runs_def parse_unfold(6) relational_operators_def)
  show ?thesis
    by (intro conjI [OF impI [OF level [OF parse_unfold(2) y(1)]]
        conjI [OF impI [OF level [OF parse_unfold(3) y(2)]]
        conjI [OF impI [OF level [OF parse_unfold(5) y(3)]]
        conjI [OF impI [OF relational]
        conjI [OF impI [OF level [OF parse_unfold(7) y(4)]]
          impI [OF level [OF parse_unfold(8) y(5)]]]]]]]) simp_all
qed

end
