(* ===== verification/Parser_Safety.thy ===== *)
theory Parser_Safety
  imports Parser_Decl_Spec Parser_Grammar Lexed Mangling
begin

text \<open>
  The tokenizer and the parser together: on the tokens of an accepted source the parser
  ends, stays inside the token list, and either diagnoses or builds a well-formed program.
\<close>

lemma new_parser_ok:
  assumes "tokenize src fileName = Inr toks"
  shows "p_ok (new_parser toks)" "pending_ok (new_parser toks)"
    "p_namespacePath (new_parser toks) = []" "p_tokens (new_parser toks) = toks"
proof -
  show "p_ok (new_parser toks)"
    using assms
    by (rule tokenize_Inr)
      (auto dest!: lexed_inner simp: p_ok_def new_parser_def list_all_iff inner_token_def token_ok_End,
        simp add: makeToken_def)
qed (simp_all add: new_parser_def pending_ok_def)

text \<open>An outcome the parser may have: no read outside the tokens, no loop without end.\<close>

definition proper :: "('a \<times> parser_state \<Rightarrow> bool) \<Rightarrow> (parse_error, 'a \<times> parser_state) result \<Rightarrow> bool" where
  "proper Q r \<longleftrightarrow> (case r of Inl e \<Rightarrow> (\<exists>d. e = Diagnosed d) | Inr x \<Rightarrow> Q x)"

lemma proper_runs: "proper Q (p s) = runs s p (\<lambda>x s'. Q (x, s'))"
  by (simp add: proper_def runs_def split: sum.splits prod.splits)

lemma proper_mono: "proper Q r \<Longrightarrow> (\<And>x. Q x \<Longrightarrow> Q' x) \<Longrightarrow> proper Q' r"
  by (auto simp: proper_def split: sum.splits)

lemma End_is_last:
  assumes "tokenize src fileName = Inr toks" "i < length toks" "tok_type (toks ! i) = T_End"
  shows "i = length toks - 1"
proof (rule tokenize_Inr [OF assms(1)])
  fix ts d s assume "lexed src fileName ts d s"
    and t: "toks = ts @ [makeToken T_End [] (currentLocation s) False]"
  then have "tok_type (ts ! j) \<noteq> T_End" if "j < length ts" for j
    using that lexed_inner by (auto simp: list_all_length inner_token_def)
  with assms(2,3) t show "i = length toks - 1" by (cases "i < length ts") (auto simp: nth_append)
qed

text \<open>C1: on the tokens of every accepted source, the parser of programs ends without a read
  past the tokens and without an endless loop; it gives a diagnostic, or it has come to the
  last token, closed every namespace and found the \<open>start\<close> block if one is required.\<close>

theorem parseProgram_safe:
  assumes "tokenize src fileName = Inr toks"
  shows "proper (\<lambda>(p, s). p_tokens s = toks \<and> p_current s = length toks - 1 \<and>
     p_namespacePath s = [] \<and> (requireStart \<longrightarrow> pr_hasStart p))
     (parseProgram requireStart (new_parser toks))"
  using runs_parseProgram [OF new_parser_ok(1-3) [OF assms], of requireStart]
    new_parser_ok(4) [OF assms] End_is_last [OF assms]
  by (fastforce simp: proper_runs unit_ok_def p_ok_def elim: runs_mono)

text \<open>The same for a module, which never has a \<open>start\<close> block.\<close>

theorem parseModule_safe:
  assumes "tokenize src fileName = Inr toks"
  shows "proper (\<lambda>(p, s). p_tokens s = toks \<and> p_current s = length toks - 1 \<and>
     p_namespacePath s = [] \<and> \<not> pr_hasStart p \<and> pr_statements p = [])
     (parseModule (new_parser toks))"
  using runs_parseModule [OF new_parser_ok(1-3) [OF assms]]
    new_parser_ok(4) [OF assms] End_is_last [OF assms]
  by (fastforce simp: proper_runs unit_ok_def p_ok_def elim: runs_mono)

text \<open>C9: a parsed program is well formed: every expression has the children its kind needs
  and at most 128 levels, every statement the parts its kind needs; base-class lists agree in
  length; a method is a constructor exactly if it is named like its class; fields are not
  \<open>void\<close>; and every namespace a declaration stands in was declared, with its parents.\<close>

theorem parseProgram_well_formed:
  assumes "tokenize src fileName = Inr toks"
    and "parseProgram requireStart (new_parser toks) = Inr (p, s)"
  shows "program_ok p \<and> (pr_statements p \<noteq> [] \<longrightarrow> pr_hasStart p)"
  using runs_parseProgram [OF new_parser_ok(1-3) [OF assms(1)], of requireStart] assms(2)
  by (simp add: runs_def unit_ok_def)

text \<open>C29: an expression the parser builds has the children its kind needs at every node and
  at most 128 levels; the parser consumed at least one token and left the rest of its state.\<close>

theorem parseExpression_bounded:
  assumes "p_ok s"
  shows "proper (\<lambda>(e, s'). well_shaped e \<and> tree_depth e \<le> 128 \<and> p_current s < p_current s' \<and>
     p_current s' < length (p_tokens s) \<and> s' = s\<lparr>p_current := p_current s'\<rparr>) (parseExpression d s)"
  unfolding proper_runs
  by (rule runs_yields [OF yields_parseExpression assms])
    (auto simp: reaches_iff expr_ok_def p_ok_def maximumNesting_def)

lemma callback_of_type_name:
  assumes "type_name w" "isCallbackType w"
  obtains r ps where "w = callbackType r ps" "type_name r" "list_all type_name ps"
  using assms(1)
proof (cases rule: type_name.cases)
  assume "simple_name w"
  then have "CHR ''<'' \<notin> set w" using simple_name_chars by (fastforce simp: simple_name_def)
  with assms(2) show ?thesis
    by (auto simp: isCallbackType_def callback_prefix_def) (metis in_set_takeD list.set_intros)
qed (use that in auto)

text \<open>The text the parser makes of a type is a well-formed type name, and a callback type
  shorter than \<open>2^64\<close> is taken apart into well-formed types that build the same text again.\<close>

theorem parseType_callback:
  assumes "p_ok s" "parseType d allowVoid s = Inr (w, s')"
  shows "type_name w \<and> (isCallbackType w \<and> length w < 2 ^ 64 \<longrightarrow>
     (let c = callbackSignature w in callbackType (cs_result c) (cs_parameters c) = w \<and>
        type_name (cs_result c) \<and> list_all type_name (cs_parameters c)))"
    (is "_ \<and> (_ \<longrightarrow> ?callback)")
proof -
  have "runs s (parseType d allowVoid) (\<lambda>x _. type_name x)"
    by (rule runs_yields [OF yields_parseType assms(1)])
  then have w: "type_name w" using assms(2) by (simp add: runs_def)
  have "?callback" if cb: "isCallbackType w" "length w < 2 ^ 64"
  proof -
    obtain r ps where "w = callbackType r ps" "type_name r" "list_all type_name ps"
      using callback_of_type_name [OF w cb(1)] .
    with signature_of_callback [of r ps] cb(2) show ?thesis by (simp add: Let_def)
  qed
  with w show ?thesis by blast
qed

lemma parsed_method: "method_ok m \<Longrightarrow> well_formed_method m"
proof -
  have "\<not> isIdentifierPart CHR ''$''" by code_simp
  then show "method_ok m \<Longrightarrow> well_formed_method m"
    by (auto simp: method_ok_def well_formed_method_def identifier_text_def list_all_iff
        parameter_ok_def)
qed

text \<open>In a parsed program, two methods of one class have the same signature key exactly if
  they have the same name and the same parameter types.\<close>

theorem parsed_overloads:
  assumes "tokenize src fileName = Inr toks"
    and "parseProgram requireStart (new_parser toks) = Inr (p, s)"
    and "c \<in> set (pr_classes p)" "m \<in> set (cl_methods c)" "n \<in> set (cl_methods c)"
  shows "methodSignatureKey m = methodSignatureKey n \<longleftrightarrow> me_name m = me_name n \<and> sameParameterTypes m n"
proof -
  have "program_ok p"
    using runs_parseProgram [OF new_parser_ok(1-3) [OF assms(1)], of requireStart] assms(2)
    by (simp add: runs_def unit_ok_def)
  then have "method_ok m" "method_ok n"
    using assms(3-5) by (auto simp: program_ok_def class_ok_def member_ok_def list_all_iff)
  then show ?thesis by (intro method_key_iff parsed_method)
qed


subsection \<open>Instances\<close>

definition tokens_of :: "string \<Rightarrow> token list" where
  "tokens_of src = (case tokenize src ''a'' of Inl e \<Rightarrow> [] | Inr toks \<Rightarrow> toks)"

definition class_source :: string where
  "class_source = ''class A{int x'' @ [newline] @ ''A(){}}'' @ [newline] @ ''start{}''"

definition module_source :: string where
  "module_source = ''namespace n{class A{}}''"

lemma tokenized: "is_ok (tokenize src ''a'') \<Longrightarrow> tokenize src ''a'' = Inr (tokens_of src)"
  by (simp add: tokens_of_def is_ok_def split: sum.splits)

lemma sample_tokenized:
  "tokenize class_source ''a'' = Inr (tokens_of class_source)"
  "tokenize module_source ''a'' = Inr (tokens_of module_source)"
  "tokenize ''1+2*x'' ''a'' = Inr (tokens_of ''1+2*x'')"
  "tokenize ''callback<void(int)>'' ''a'' = Inr (tokens_of ''callback<void(int)>'')"
  by (rule tokenized, code_simp)+

theorem parseProgram_safe_witness:
  "proper (\<lambda>(p, s). p_current s = length (tokens_of class_source) - 1 \<and> pr_hasStart p)
     (parseProgram True (new_parser (tokens_of class_source)))"
  by (rule proper_mono, rule parseProgram_safe [OF sample_tokenized(1), of True]) auto

theorem parseModule_safe_witness:
  "proper (\<lambda>(p, s). p_current s = length (tokens_of module_source) - 1 \<and> \<not> pr_hasStart p)
     (parseModule (new_parser (tokens_of module_source)))"
  by (rule proper_mono, rule parseModule_safe [OF sample_tokenized(2)]) auto

lemma sample_parsed:
  "case parseProgram True (new_parser (tokens_of class_source)) of Inl e \<Rightarrow> False
   | Inr (p, s) \<Rightarrow> map (\<lambda>c. map me_name (cl_methods c)) (pr_classes p) = [[''A'']]"
  by code_simp

theorem parseProgram_well_formed_witness:
  "\<exists>p s. parseProgram True (new_parser (tokens_of class_source)) = Inr (p, s) \<and> program_ok p"
  using sample_parsed parseProgram_well_formed [OF sample_tokenized(1), of True]
  by (auto split: sum.splits)

theorem parsed_overloads_witness:
  "\<exists>p s c m. parseProgram True (new_parser (tokens_of class_source)) = Inr (p, s) \<and>
     c \<in> set (pr_classes p) \<and> m \<in> set (cl_methods c) \<and> sameParameterTypes m m"
proof -
  obtain p s where p: "parseProgram True (new_parser (tokens_of class_source)) = Inr (p, s)"
      "map (\<lambda>c. map me_name (cl_methods c)) (pr_classes p) = [[''A'']]"
    using sample_parsed by (auto split: sum.splits)
  then obtain c m where "c \<in> set (pr_classes p)" "m \<in> set (cl_methods c)" by auto
  with p parsed_overloads [OF sample_tokenized(1) p(1), of c m m] show ?thesis by blast
qed

lemma expression_parsed: "is_ok (parseExpression 0 (new_parser (tokens_of ''1+2*x'')))"
  by code_simp

theorem parseExpression_bounded_witness:
  "\<exists>e s. parseExpression 0 (new_parser (tokens_of ''1+2*x'')) = Inr (e, s) \<and>
     well_shaped e \<and> tree_depth e \<le> 128"
  using expression_parsed parseExpression_bounded [OF new_parser_ok(1) [OF sample_tokenized(3)], of 0]
  by (auto simp: proper_def is_ok_def split: sum.splits)

lemma callback_parsed:
  "case parseType 0 True (new_parser (tokens_of ''callback<void(int)>'')) of Inl e \<Rightarrow> False
   | Inr (w, s) \<Rightarrow> w = ''callback<void(int)>''"
  by code_simp

theorem parseType_callback_witness: "type_name ''callback<void(int)>''"
proof -
  obtain s where "parseType 0 True (new_parser (tokens_of ''callback<void(int)>'')) =
      Inr (''callback<void(int)>'', s)"
    using callback_parsed by (auto split: sum.splits)
  with parseType_callback [OF new_parser_ok(1) [OF sample_tokenized(4)]] show ?thesis by blast
qed

lemma sum_parsed: "is_ok (parseAddition 0 (new_parser (tokens_of ''1+2*x'')))"
  by code_simp

theorem precedence_levels_witness:
  "\<exists>e s. left_assoc [T_Plus, T_Minus] tok_text (parseMultiplication 0)
     (new_parser (tokens_of ''1+2*x'')) e s"
  using sum_parsed precedence_levels [OF new_parser_ok(1) [OF sample_tokenized(3)], of 0]
  by (auto simp: is_ok_def split: sum.splits)

end
