(* ===== verification/Sha256.thy ===== *)
theory Sha256
  imports Prelude "HOL-Library.Word"
begin

text \<open>
  The hash object of \<open>src/PackageIntegrity.cpp\<close>: its state, the compression of a block, the
  absorption of data and the padding of the last blocks. Words are 32 bit and wrap; the
  length of the data is a 64-bit counter.
\<close>

unbundle bit_operations_syntax

record sha256 =
  sh_state :: "32 word list"
  sh_block :: "8 word list"
  sh_used :: nat
  sh_bytes :: "64 word"

definition initial_state :: "32 word list" where
  "initial_state =
     [0x6a09e667, 0xbb67ae85, 0x3c6ef372, 0xa54ff53a,
      0x510e527f, 0x9b05688c, 0x1f83d9ab, 0x5be0cd19]"

definition new_sha256 :: sha256 where
  "new_sha256 =
     \<lparr>sh_state = initial_state, sh_block = replicate 64 0, sh_used = 0, sh_bytes = 0\<rparr>"

subsection \<open>Compression\<close>

definition rotate :: "32 word \<Rightarrow> nat \<Rightarrow> 32 word" where
  "rotate value' count' = drop_bit count' value' OR push_bit (32 - count') value'"

definition round_constants :: "32 word list" where
  "round_constants =
     [0x428a2f98, 0x71374491, 0xb5c0fbcf, 0xe9b5dba5, 0x3956c25b, 0x59f111f1,
      0x923f82a4, 0xab1c5ed5, 0xd807aa98, 0x12835b01, 0x243185be, 0x550c7dc3,
      0x72be5d74, 0x80deb1fe, 0x9bdc06a7, 0xc19bf174, 0xe49b69c1, 0xefbe4786,
      0x0fc19dc6, 0x240ca1cc, 0x2de92c6f, 0x4a7484aa, 0x5cb0a9dc, 0x76f988da,
      0x983e5152, 0xa831c66d, 0xb00327c8, 0xbf597fc7, 0xc6e00bf3, 0xd5a79147,
      0x06ca6351, 0x14292967, 0x27b70a85, 0x2e1b2138, 0x4d2c6dfc, 0x53380d13,
      0x650a7354, 0x766a0abb, 0x81c2c92e, 0x92722c85, 0xa2bfe8a1, 0xa81a664b,
      0xc24b8b70, 0xc76c51a3, 0xd192e819, 0xd6990624, 0xf40e3585, 0x106aa070,
      0x19a4c116, 0x1e376c08, 0x2748774c, 0x34b0bcb5, 0x391c0cb3, 0x4ed8aa4a,
      0x5b9cca4f, 0x682e6ff3, 0x748f82ee, 0x78a5636f, 0x84c87814, 0x8cc70208,
      0x90befffa, 0xa4506ceb, 0xbef9a3f7, 0xc67178f2]"

text \<open>Four bytes of the block, \<open>words[index] = (words[index] << 8) | byte\<close> in turn.\<close>

definition load_word :: "8 word list \<Rightarrow> nat \<Rightarrow> 32 word" where
  "load_word block index =
     foldl (\<lambda>word b. push_bit 8 word OR ucast (block ! (index * 4 + b))) 0 [0..<4]"

definition extend_word :: "32 word list \<Rightarrow> 32 word" where
  "extend_word words =
     (let index = length words; l = words ! (index - 15); r = words ! (index - 2)
      in words ! (index - 16) + (rotate l 7 XOR rotate l 18 XOR drop_bit 3 l) +
         words ! (index - 7) + (rotate r 17 XOR rotate r 19 XOR drop_bit 10 r))"

definition schedule :: "8 word list \<Rightarrow> 32 word list" where
  "schedule block =
     ((\<lambda>words. words @ [extend_word words]) ^^ 48) (map (load_word block) [0..<16])"

definition hash_round :: "32 word list \<Rightarrow> 32 word list \<Rightarrow> nat \<Rightarrow> 32 word list" where
  "hash_round words work index =
     (let first = work ! 7 + (rotate (work ! 4) 6 XOR rotate (work ! 4) 11 XOR rotate (work ! 4) 25) +
            ((work ! 4 AND work ! 5) XOR (NOT (work ! 4) AND work ! 6)) +
            round_constants ! index + words ! index;
          second = (rotate (work ! 0) 2 XOR rotate (work ! 0) 13 XOR rotate (work ! 0) 22) +
            ((work ! 0 AND work ! 1) XOR (work ! 0 AND work ! 2) XOR (work ! 1 AND work ! 2));
          shifted = work ! 0 # butlast work
      in shifted[4 := shifted ! 4 + first, 0 := first + second])"

definition compress :: "sha256 \<Rightarrow> sha256" where
  "compress h =
     (let words = schedule (sh_block h); work = foldl (hash_round words) (sh_state h) [0..<64]
      in h\<lparr>sh_state := map2 (+) (sh_state h) work\<rparr>)"

subsection \<open>Absorbing data\<close>

definition put_byte :: "8 word \<Rightarrow> sha256 \<Rightarrow> sha256" where
  "put_byte b h =
     (let h' = h\<lparr>sh_block := (sh_block h)[sh_used h := b], sh_used := sh_used h + 1\<rparr>
      in if sh_used h' = 64 then (compress h')\<lparr>sh_used := 0\<rparr> else h')"

definition update :: "8 word list \<Rightarrow> sha256 \<Rightarrow> sha256" where
  "update data h = fold put_byte data (h\<lparr>sh_bytes := sh_bytes h + of_nat (length data)\<rparr>)"

subsection \<open>The digest\<close>

text \<open>\<open>std::fill\<close> of the block from one index up to another.\<close>

definition fill_zero :: "nat \<Rightarrow> nat \<Rightarrow> sha256 \<Rightarrow> sha256" where
  "fill_zero start limit h =
     h\<lparr>sh_block := take start (sh_block h) @ replicate (limit - start) 0 @ drop limit (sh_block h)\<rparr>"

definition put_length :: "64 word \<Rightarrow> sha256 \<Rightarrow> sha256" where
  "put_length bits h =
     h\<lparr>sh_block := foldl (\<lambda>block index. block[63 - index := ucast (drop_bit (index * 8) bits)])
         (sh_block h) [0..<8]\<rparr>"

definition hex_char :: "nat \<Rightarrow> char" where
  "hex_char n = ''0123456789abcdef'' ! n"

definition hex_word :: "32 word \<Rightarrow> string" where
  "hex_word w = map (\<lambda>i. hex_char (unat (drop_bit (28 - 4 * i) w AND 15))) [0..<8]"

definition pad :: "sha256 \<Rightarrow> sha256" where
  "pad h =
     (let bits = sh_bytes h * 8;
          h1 = h\<lparr>sh_block := (sh_block h)[sh_used h := 0x80], sh_used := sh_used h + 1\<rparr>;
          h2 = (if sh_used h1 > 56 then (compress (fill_zero (sh_used h1) 64 h1))\<lparr>sh_used := 0\<rparr> else h1);
          h3 = fill_zero (sh_used h2) 56 h2
      in compress (put_length bits h3))"

definition finish :: "sha256 \<Rightarrow> string" where
  "finish h = concat (map hex_word (sh_state (pad h)))"

subsection \<open>The invariant\<close>

definition sha_ok :: "sha256 \<Rightarrow> bool" where
  "sha_ok h \<longleftrightarrow> length (sh_state h) = 8 \<and> length (sh_block h) = 64 \<and> sh_used h < 64"

lemma sha_ok_new [simp]: "sha_ok new_sha256"
  by (simp add: sha_ok_def new_sha256_def initial_state_def)

lemma length_hash_round [simp]: "length work = 8 \<Longrightarrow> length (hash_round words work i) = 8"
  by (simp add: hash_round_def Let_def)

lemma length_rounds [simp]: "length work = 8 \<Longrightarrow> length (foldl (hash_round words) work is) = 8"
  by (induction "is" arbitrary: work) simp_all

lemma compress_fields [simp]:
  "sh_block (compress h) = sh_block h" "sh_used (compress h) = sh_used h"
  "sh_bytes (compress h) = sh_bytes h"
  "length (sh_state h) = 8 \<Longrightarrow> length (sh_state (compress h)) = 8"
  by (simp_all add: compress_def Let_def)

lemma sha_ok_put [simp]: "sha_ok h \<Longrightarrow> sha_ok (put_byte b h)"
  by (auto simp: sha_ok_def put_byte_def Let_def)

lemma sha_ok_puts: "sha_ok h \<Longrightarrow> sha_ok (fold put_byte data h)"
  by (induction data arbitrary: h) simp_all

lemma sha_ok_update [simp]: "sha_ok h \<Longrightarrow> sha_ok (update data h)"
  unfolding update_def by (rule sha_ok_puts) (simp add: sha_ok_def)

lemma put_byte_bytes: "(put_byte b h)\<lparr>sh_bytes := n\<rparr> = put_byte b (h\<lparr>sh_bytes := n\<rparr>)"
  by (simp add: put_byte_def compress_def Let_def)

lemma put_bytes_bytes: "(fold put_byte data h)\<lparr>sh_bytes := n\<rparr> = fold put_byte data (h\<lparr>sh_bytes := n\<rparr>)"
  by (induction data arbitrary: h) (simp_all add: put_byte_bytes)

lemma bytes_put [simp]: "sh_bytes (put_byte b h) = sh_bytes h"
  by (simp add: put_byte_def Let_def)

lemma bytes_puts [simp]: "sh_bytes (fold put_byte data h) = sh_bytes h"
  by (induction data arbitrary: h) simp_all

lemma update_Nil [simp]: "update [] h = h"
  by (simp add: update_def)

lemma update_append: "update (xs @ ys) h = update ys (update xs h)"
  by (simp add: update_def put_bytes_bytes add.assoc)

end
