(* ===== verification/Hash_Stream.thy ===== *)
theory Hash_Stream
  imports Prelude
begin

text \<open>
  The interface of an incremental hash: data may be absorbed in pieces, and the digest of an
  absorbed message of a bounded length is a function of the message. Its clients hash files
  piece by piece and rely on the result being independent of the pieces.
\<close>

locale hash_stream =
  fixes start :: 's and absorb :: "'b list \<Rightarrow> 's \<Rightarrow> 's"
  assumes absorb_Nil: "absorb [] s = s"
    and absorb_append: "absorb (xs @ ys) s = absorb ys (absorb xs s)"
begin

lemma absorb_pieces: "fold absorb pieces s = absorb (concat pieces) s"
  by (induction pieces arbitrary: s) (simp_all add: absorb_Nil absorb_append)

end

locale hash_function = hash_stream start absorb
  for start :: 's and absorb :: "'b list \<Rightarrow> 's \<Rightarrow> 's" +
  fixes digest :: "'s \<Rightarrow> 'd" and bound :: nat and reference :: "'b list \<Rightarrow> 'd"
  assumes digest_absorb: "length m < bound \<Longrightarrow> digest (absorb m start) = reference m"
begin

lemma digest_pieces:
  "length (concat pieces) < bound \<Longrightarrow> digest (fold absorb pieces start) = reference (concat pieces)"
  by (simp only: absorb_pieces digest_absorb)

end

end
