(* ===== verification/Sha256_Standard.thy ===== *)
theory Sha256_Standard
  imports Sha256 Hash_Stream
begin

text \<open>
  SHA-256 as FIPS 180-4 defines it, on whole messages, and the proof that the hash object of
  the code computes it however the message is cut into pieces.
\<close>

unbundle bit_operations_syntax

subsection \<open>The standard\<close>

definition Sigma0 :: "32 word \<Rightarrow> 32 word" where
  "Sigma0 x = word_rotr 2 x XOR word_rotr 13 x XOR word_rotr 22 x"

definition Sigma1 :: "32 word \<Rightarrow> 32 word" where
  "Sigma1 x = word_rotr 6 x XOR word_rotr 11 x XOR word_rotr 25 x"

definition sigma0 :: "32 word \<Rightarrow> 32 word" where
  "sigma0 x = word_rotr 7 x XOR word_rotr 18 x XOR drop_bit 3 x"

definition sigma1 :: "32 word \<Rightarrow> 32 word" where
  "sigma1 x = word_rotr 17 x XOR word_rotr 19 x XOR drop_bit 10 x"

definition Ch :: "32 word \<Rightarrow> 32 word \<Rightarrow> 32 word \<Rightarrow> 32 word" where
  "Ch x y z = (x AND y) XOR (NOT x AND z)"

definition Maj :: "32 word \<Rightarrow> 32 word \<Rightarrow> 32 word \<Rightarrow> 32 word" where
  "Maj x y z = (x AND y) XOR (x AND z) XOR (y AND z)"

definition big_endian :: "8 word list \<Rightarrow> 32 word" where
  "big_endian bs = foldl (\<lambda>w b. 256 * w + ucast b) 0 bs"

function message_word :: "8 word list \<Rightarrow> nat \<Rightarrow> 32 word" where
  "message_word block t =
     (if t < 16 then big_endian (take 4 (drop (4 * t) block))
      else sigma1 (message_word block (t - 2)) + message_word block (t - 7) +
           sigma0 (message_word block (t - 15)) + message_word block (t - 16))"
  by pat_completeness auto
termination by (relation "measure snd") auto

declare message_word.simps [simp del]

definition standard_round :: "8 word list \<Rightarrow> 32 word list \<Rightarrow> nat \<Rightarrow> 32 word list" where
  "standard_round block v t =
     (case v of [a, b, c, d, e, f, g, h] \<Rightarrow>
        let T1 = h + Sigma1 e + Ch e f g + round_constants ! t + message_word block t;
            T2 = Sigma0 a + Maj a b c
        in [T1 + T2, a, b, c, d + T1, e, f, g])"

definition compress_block :: "32 word list \<Rightarrow> 8 word list \<Rightarrow> 32 word list" where
  "compress_block hash block = map2 (+) hash (foldl (standard_round block) hash [0..<64])"

function hash_blocks :: "32 word list \<Rightarrow> 8 word list \<Rightarrow> 32 word list" where
  "hash_blocks hash m =
     (if length m < 64 then hash else hash_blocks (compress_block hash (take 64 m)) (drop 64 m))"
  by pat_completeness auto
termination by (relation "measure (length \<circ> snd)") auto

declare hash_blocks.simps [simp del]

text \<open>The length in bits as eight bytes, and the padding to a multiple of 64 bytes.\<close>

definition length_bytes :: "nat \<Rightarrow> 8 word list" where
  "length_bytes n = map (\<lambda>i. of_nat (n div 256 ^ (7 - i))) [0..<8]"

definition padded :: "8 word list \<Rightarrow> 8 word list" where
  "padded m =
     m @ 0x80 # replicate ((119 - length m mod 64) mod 64) 0 @ length_bytes (8 * length m)"

definition sha256_standard :: "8 word list \<Rightarrow> string" where
  "sha256_standard m = concat (map hex_word (hash_blocks initial_state (padded m)))"

subsection \<open>The compression of a block\<close>

lemma rotate_rotr:
  assumes "0 < n" "n < 32"
  shows "rotate x n = word_rotr n x"
proof (rule bit_word_eqI)
  fix m assume m: "m < LENGTH(32)"
  show "bit (rotate x n) m = bit (word_rotr n x) m"
  proof (cases "n + m < 32")
    case True
    with m assms show ?thesis by (auto simp: rotate_def bit_word_rotr_iff bit_simps add.commute)
  next
    case False
    then have "(n + m) mod 32 = m - (32 - n)" "\<not> bit x (n + m)"
      using m assms by (auto simp: mod_if dest: bit_imp_le_length)
    with False m assms show ?thesis by (auto simp: rotate_def bit_word_rotr_iff bit_simps add.commute)
  qed
qed

lemma shift_in_byte: "push_bit 8 w OR ucast (b :: 8 word) = 256 * w + (ucast b :: 32 word)"
proof -
  have "push_bit 8 w + (ucast b :: 32 word) = push_bit 8 w OR ucast b"
    by (rule disjunctive_add) (auto simp: bit_simps dest: bit_imp_le_length)
  then show ?thesis by (simp add: push_bit_eq_mult mult.commute)
qed

lemma load_word_standard:
  assumes "length block = 64" "t < 16"
  shows "load_word block t = big_endian (take 4 (drop (4 * t) block))"
proof -
  have "take 4 (drop (4 * t) block) = map (\<lambda>b. block ! (t * 4 + b)) [0..<4]"
    using assms by (intro nth_equalityI) (auto simp: mult.commute)
  then show ?thesis by (simp add: load_word_def big_endian_def shift_in_byte foldl_map)
qed

lemma schedule_standard:
  assumes "length block = 64"
  shows "schedule block = map (message_word block) [0..<64]"
proof -
  have "((\<lambda>words. words @ [extend_word words]) ^^ n) (map (load_word block) [0..<16]) =
      map (message_word block) [0..<n + 16]" for n
  proof (induction n)
    case 0
    show ?case by (simp add: message_word.simps load_word_standard [OF assms])
  next
    case (Suc n)
    have "extend_word (map (message_word block) [0..<n + 16]) = message_word block (n + 16)"
      by (subst message_word.simps)
        (simp add: extend_word_def Let_def rotate_rotr sigma0_def sigma1_def algebra_simps)
    moreover have "[0..<Suc n + 16] = [0..<n + 16] @ [n + 16]"
      unfolding add_Suc by (rule upt_Suc_append) simp
    ultimately show ?case using Suc.IH by (simp only: funpow.simps o_apply list.simps map_append)
  qed
  from this [of 48] show ?thesis by (simp add: schedule_def)
qed


lemma eight_words:
  assumes "length v = 8"
  obtains a b c d e f g h where "v = [a, b, c, d, e, f, g, h]"
proof -
  have "length v = Suc (Suc (Suc (Suc (Suc (Suc (Suc (Suc 0)))))))" using assms by simp
  then show thesis using that by (auto simp: length_Suc_conv)
qed

lemma list_update_numeral: "(x # xs)[numeral k := y] = x # xs[pred_numeral k := y]"
  by (simp add: numeral_eq_Suc)

lemma standard_round_eq:
  assumes "length v = 8" "length block = 64" "t < 64"
  shows "hash_round (schedule block) v t = standard_round block v t"
proof -
  obtain a b c d e f g h where v: "v = [a, b, c, d, e, f, g, h]"
    using assms(1) by (rule eight_words)
  have w: "schedule block ! t = message_word block t"
    using assms(2,3) by (simp add: schedule_standard)
  show ?thesis
    unfolding v hash_round_def standard_round_def w Let_def
    by (simp add: rotate_rotr Sigma0_def Sigma1_def Ch_def Maj_def list_update_numeral add.commute)
qed

lemma standard_rounds:
  assumes "length v = 8" "length block = 64" "\<forall>t \<in> set ts. t < 64"
  shows "foldl (hash_round (schedule block)) v ts = foldl (standard_round block) v ts"
  using assms(1,3)
proof (induction ts arbitrary: v)
  case (Cons t ts)
  then have "hash_round (schedule block) v t = standard_round block v t"
    using assms(2) by (intro standard_round_eq) auto
  moreover have "length (hash_round (schedule block) v t) = 8" using Cons.prems(1) by simp
  ultimately show ?case using Cons by (simp del: length_hash_round)
qed simp

lemma standard_rounds_length:
  assumes "length v = 8" "length block = 64" "\<forall>t \<in> set ts. t < 64"
  shows "length (foldl (standard_round block) v ts) = 8"
  using assms by (simp flip: standard_rounds)

lemma compress_standard:
  "length (sh_state h) = 8 \<Longrightarrow> length (sh_block h) = 64 \<Longrightarrow>
     compress h = h\<lparr>sh_state := compress_block (sh_state h) (sh_block h)\<rparr>"
  by (simp add: compress_def compress_block_def Let_def standard_rounds)

subsection \<open>Absorbing\<close>

text \<open>The hash object after the message \<open>m\<close>.\<close>

definition absorbed :: "8 word list \<Rightarrow> sha256 \<Rightarrow> bool" where
  "absorbed m h \<longleftrightarrow> sha_ok h \<and> sh_used h = length m mod 64 \<and>
     (\<exists>k. length k = 64 * (length m div 64) \<and> m = k @ take (sh_used h) (sh_block h) \<and>
        sh_state h = hash_blocks initial_state k)"

lemma hash_blocks_append:
  "64 dvd length k \<Longrightarrow> hash_blocks v (k @ m) = hash_blocks (hash_blocks v k) m"
proof (induction v k rule: hash_blocks.induct)
  case (1 v k)
  show ?case
  proof (cases "length k < 64")
    case True
    then have "k = []" using 1(2) by (auto dest: nat_dvd_not_less)
    then show ?thesis by (simp add: hash_blocks.simps [of v "[]"])
  next
    case False
    with 1 show ?thesis
      by (subst (1 2) hash_blocks.simps) (auto simp: dvd_minus_self)
  qed
qed

lemma hash_blocks_one: "length b = 64 \<Longrightarrow> hash_blocks v b = compress_block v b"
  by (simp add: hash_blocks.simps [of v b] hash_blocks.simps [of _ "[]"])

lemma absorbed_new: "absorbed [] new_sha256"
  by (simp add: absorbed_def) (simp add: new_sha256_def hash_blocks.simps)


lemma full_block: "n mod 64 = 63 \<Longrightarrow> Suc n mod 64 = 0 \<and> Suc n div 64 = Suc (n div 64)"
  by (simp add: mod_Suc div_Suc)

lemma absorbed_put:
  assumes "absorbed m h"
  shows "absorbed (m @ [b]) (put_byte b h)"
proof -
  let ?u = "sh_used h" and ?b = "(sh_block h)[sh_used h := b]"
  obtain k where k: "length k = 64 * (length m div 64)" "m = k @ take ?u (sh_block h)"
      "sh_state h = hash_blocks initial_state k"
    and h: "length (sh_state h) = 8" "length (sh_block h) = 64" "?u < 64" "?u = length m mod 64"
    using assms unfolding absorbed_def sha_ok_def by blast
  have taken: "take (Suc ?u) ?b = take ?u (sh_block h) @ [b]"
    using h(2,3) by (simp add: take_Suc_conv_app_nth)
  show ?thesis
  proof (cases "?u = 63")
    case True
    then have b: "?b = take 63 (sh_block h) @ [b]" using taken h(2) by simp
    have len: "Suc (length m) mod 64 = 0" "64 * (Suc (length m) div 64) = length k + 64"
      using full_block [of "length m"] True k(1) h(4) by simp_all
    have "hash_blocks initial_state (k @ ?b) = compress_block (sh_state h) ?b"
      using k(1,3) h(2) by (simp add: hash_blocks_append hash_blocks_one)
    then have put: "put_byte b h = h\<lparr>sh_block := ?b, sh_used := 0,
        sh_state := hash_blocks initial_state (k @ ?b)\<rparr>"
      using True h(1,2) by (simp add: put_byte_def compress_standard Let_def)
    have "m @ [b] = k @ ?b" using k(2) b True by simp
    moreover have "length k mod 64 = 0" "length k + 64 = 64 * ((length k + 64) div 64)"
      using k(1) by simp_all
    ultimately show ?thesis
      using h(1,2) len k(3) \<open>hash_blocks initial_state (k @ ?b) = _\<close>
      unfolding absorbed_def put
      by (intro conjI exI [of _ "k @ ?b"]) (simp_all add: sha_ok_def compress_block_def standard_rounds_length)
  next
    case False
    then have len: "Suc (length m) mod 64 = Suc ?u" "Suc (length m) div 64 = length m div 64"
      using h(3,4) by (auto simp: mod_Suc div_Suc)
    have put: "put_byte b h = h\<lparr>sh_block := ?b, sh_used := Suc ?u\<rparr>"
      using False by (simp add: put_byte_def Let_def)
    have "m @ [b] = k @ take (Suc ?u) ?b" using taken k(2) by simp
    with len k(1,3) h(1,2,3) False show ?thesis
      unfolding absorbed_def put by (intro conjI exI [of _ k]) (simp_all add: sha_ok_def)
  qed
qed

lemma absorbed_puts: "absorbed m h \<Longrightarrow> absorbed (m @ data) (fold put_byte data h)"
proof (induction data arbitrary: m h)
  case (Cons b data)
  from Cons.IH [OF absorbed_put [OF Cons.prems], of b] show ?case by simp
qed simp

lemma absorbed_bytes [simp]: "absorbed m (h\<lparr>sh_bytes := n\<rparr>) = absorbed m h"
  by (simp add: absorbed_def sha_ok_def)

lemma absorbed_update: "absorbed m h \<Longrightarrow> absorbed (m @ data) (update data h)"
  by (simp add: update_def absorbed_puts)

subsection \<open>Padding\<close>

lemma put_length_block:
  assumes "length block = 56"
  shows "sh_block (put_length bits (h\<lparr>sh_block := block @ rest\<rparr>)) =
    block @ foldl (\<lambda>r i. r[7 - i := ucast (drop_bit (i * 8) bits)]) rest [0..<8]"
  using assms by (simp add: put_length_def upt_rec list_update_append)

lemma length_bytes_word:
  assumes "8 * n < 2 ^ 64" "length rest = 8"
  shows "foldl (\<lambda>r i. r[7 - i := ucast (drop_bit (i * 8) (of_nat n * 8 :: 64 word))]) rest [0..<8] =
    length_bytes (8 * n)"
proof -
  have "(of_nat n * 8 :: 64 word) = of_nat (8 * n)" by simp
  moreover have "unat (of_nat (8 * n) :: 64 word) = 8 * n"
    using assms(1) by (simp add: unsigned_of_nat take_bit_nat_eq_self del: of_nat_mult)
  ultimately have bits: "unat (of_nat n * 8 :: 64 word) = 8 * n" by metis
  have byte: "ucast (drop_bit (i * 8) (of_nat n * 8 :: 64 word)) =
      (of_nat (8 * n div 256 ^ i) :: 8 word)" for i
  proof -
    have "(2::nat) ^ (i * 8) = 256 ^ i" by (simp add: mult.commute [of i] power_mult)
    moreover have "unat (drop_bit (i * 8) (of_nat n * 8 :: 64 word)) = drop_bit (i * 8) (8 * n)"
      by (simp only: unat_drop_bit_eq bits)
    ultimately have "unat (drop_bit (i * 8) (of_nat n * 8 :: 64 word)) = 8 * n div 256 ^ i"
      by (simp only: drop_bit_eq_div [of _ "8 * n"])
    then show ?thesis by (metis of_nat_unat)
  qed
  obtain a b c d e f g h where "rest = [a, b, c, d, e, f, g, h]"
    using assms(2) by (rule eight_words)
  then show ?thesis
    unfolding byte length_bytes_def by (simp add: upt_rec list_update_numeral)
qed


lemma compress_fill:
  assumes "length (sh_state h) = 8" "length block = 64" "64 dvd length k"
    and "sh_state h = hash_blocks initial_state k"
  shows "sh_state (compress (h\<lparr>sh_block := block\<rparr>)) = hash_blocks initial_state (k @ block)"
  using assms by (simp add: compress_standard hash_blocks_append hash_blocks_one)

text \<open>The last block: any 56 bytes and the length.\<close>

lemma last_block:
  assumes "length (sh_state h) = 8" "length k = 64 * j" "sh_state h = hash_blocks initial_state k"
    and "length b = 56" "length rest = 8" "sh_block h = b @ rest" "8 * n < 2 ^ 64"
  shows "sh_state (compress (put_length (of_nat n * 8) h)) =
    hash_blocks initial_state (k @ b @ length_bytes (8 * n))"
proof -
  have "put_length (of_nat n * 8) h = h\<lparr>sh_block := b @ length_bytes (8 * n)\<rparr>"
    using put_length_block [OF assms(4), where bits = "of_nat n * 8" and h = h and rest = rest]
      length_bytes_word [OF assms(7,5)] assms(6)
    by (simp add: put_length_def)
  then show ?thesis
    using assms by (simp add: compress_fill length_bytes_def)
qed

lemma pad_standard:
  assumes "absorbed m h" "sh_bytes h = of_nat (length m)" "8 * length m < 2 ^ 64"
  shows "sh_state (pad h) = hash_blocks initial_state (padded m)"
proof -
  let ?u = "sh_used h" and ?c = "take (sh_used h) (sh_block h) @ [0x80]"
  let ?b = "(sh_block h)[sh_used h := 0x80]"
  obtain k where k: "length k = 64 * (length m div 64)" "m = k @ take ?u (sh_block h)"
      "sh_state h = hash_blocks initial_state k"
    and h: "length (sh_state h) = 8" "length (sh_block h) = 64" "?u < 64" "?u = length m mod 64"
    using assms(1) unfolding absorbed_def sha_ok_def by blast
  have c: "take (Suc ?u) ?b = ?c" "length ?c = Suc ?u"
    using h(2,3) by (simp_all add: take_Suc_conv_app_nth)
  have padded: "padded m = k @ ?c @ replicate ((119 - ?u) mod 64) 0 @ length_bytes (8 * length m)"
    unfolding padded_def using k(2) h(4) by simp
  show ?thesis
  proof (cases "Suc ?u > 56")
    case False
    then have n: "(119 - ?u) mod 64 = 55 - ?u" by (simp add: mod_if)
    let ?h = "fill_zero (Suc ?u) 56 (h\<lparr>sh_block := ?b, sh_used := Suc ?u\<rparr>)"
    have "sh_block ?h = (?c @ replicate (55 - ?u) 0) @ drop 56 ?b"
      using c by (simp add: fill_zero_def)
    then have "sh_state (compress (put_length (of_nat (length m) * 8) ?h)) =
        hash_blocks initial_state (k @ (?c @ replicate (55 - ?u) 0) @ length_bytes (8 * length m))"
      using False k(1,3) h(1,2) assms(3) c(2)
      by (intro last_block) (auto simp: fill_zero_def)
    then show ?thesis using False padded n assms(2) by (simp add: pad_def Let_def fill_zero_def)
  next
    case True
    then have n: "(119 - ?u) mod 64 = (63 - ?u) + 56" using h(3) by simp
    let ?d = "?c @ replicate (63 - ?u) 0"
    let ?h1 = "fill_zero (Suc ?u) 64 (h\<lparr>sh_block := ?b, sh_used := Suc ?u\<rparr>)"
    let ?h = "fill_zero 0 56 ((compress ?h1)\<lparr>sh_used := 0\<rparr>)"
    have d: "length ?d = 64" using c(2) h(3) by simp
    have h1: "?h1 = h\<lparr>sh_used := Suc ?u, sh_block := ?d\<rparr>"
      using c h(2) by (simp add: fill_zero_def)
    have state: "sh_state ?h = hash_blocks initial_state (k @ ?d)"
      unfolding h1 using compress_fill [of "h\<lparr>sh_used := Suc ?u\<rparr>" ?d k] h(1) k(1,3) d
      by (simp add: fill_zero_def)
    have "sh_state (compress (put_length (of_nat (length m) * 8) ?h)) =
        hash_blocks initial_state ((k @ ?d) @ replicate 56 0 @ length_bytes (8 * length m))"
    proof (rule last_block)
      show "sh_block ?h = replicate 56 0 @ drop 56 ?d" unfolding h1 by (simp add: fill_zero_def)
      show "length (sh_state ?h) = 8" unfolding h1 using h(1) by (simp add: fill_zero_def)
      show "length (k @ ?d) = 64 * Suc (length m div 64)" using d k(1) by simp
      show "sh_state ?h = hash_blocks initial_state (k @ ?d)" by (rule state)
      show "length (drop 56 ?d) = 8" using d by simp
      show "8 * length m < 2 ^ 64" by (rule assms(3))
    qed simp
    moreover have "pad h = compress (put_length (of_nat (length m) * 8) ?h)"
    proof -
      have "sh_bytes (compress ?h1) = of_nat (length m)" using assms(2) by (simp add: fill_zero_def)
      then show ?thesis using True assms(2) unfolding pad_def Let_def by simp
    qed
    moreover have "padded m = (k @ ?d) @ replicate 56 0 @ length_bytes (8 * length m)"
      unfolding padded n by (simp add: replicate_add)
    ultimately show ?thesis by simp
  qed
qed


lemma bytes_update: "sh_bytes (update data h) = sh_bytes h + of_nat (length data)"
  by (simp add: update_def)

lemma finish_standard:
  assumes "8 * length m < 2 ^ 64"
  shows "finish (update m new_sha256) = sha256_standard m"
proof -
  have "absorbed m (update m new_sha256)" using absorbed_update [OF absorbed_new, of m] by simp
  then show ?thesis
    using assms by (simp add: finish_def sha256_standard_def pad_standard bytes_update new_sha256_def)
qed

interpretation sha: hash_function new_sha256 update finish "2 ^ 61" sha256_standard
  by unfold_locales (simp_all add: update_append finish_standard)

text \<open>C10: however a message shorter than \<open>2^61\<close> bytes is cut into pieces, absorbing the pieces
  one after the other and finishing gives the SHA-256 digest of FIPS 180-4 of the message.\<close>

theorem sha256_refines_standard:
  assumes "length (concat pieces) < 2 ^ 61"
  shows "finish (fold update pieces new_sha256) = sha256_standard (concat pieces)"
  by (rule sha.digest_pieces [OF assms])

text \<open>The hash object never leaves its arrays: the index of the next byte stays below 64 and
  the block and the state keep their lengths, whatever is absorbed.\<close>

theorem sha256_in_bounds:
  shows "sha_ok (fold update pieces new_sha256)"
proof -
  have "sha_ok h \<Longrightarrow> sha_ok (fold update pieces h)" for h
    by (induction pieces arbitrary: h) simp_all
  then show ?thesis by simp
qed

theorem sha256_refines_standard_witness:
  "finish (fold update [[0x61], [0x62, 0x63]] new_sha256) = sha256_standard [0x61, 0x62, 0x63]"
  using sha256_refines_standard [of "[[0x61], [0x62, 0x63]]"] by simp

end
