(* ===== verification/Package_Integrity.thy ===== *)
theory Package_Integrity
  imports Sha256_Standard Prefix_Code "HOL-Library.Multiset"
begin

text \<open>
  The digests of package files and package trees (\<open>packageFileSha256\<close> and
  \<open>packageTreeSha256\<close> of \<open>src/PackageIntegrity.cpp\<close>). The file system is an argument: a
  tree of directories in the order the iterator lists them, whose files can be opened, can be
  opened and fail while being read, or cannot be opened. A result is the text of the thrown
  \<open>std::runtime_error\<close> or the digest.
\<close>

datatype file_data = Content "8 word list" | Broken "8 word list" | Unreadable

datatype node =
    Regular file_data
  | Directory "(string \<times> node) list"
  | Special

definition string_bytes :: "string \<Rightarrow> 8 word list" where
  "string_bytes s = map (\<lambda>c. of_nat (byte c)) s"

text \<open>\<open>root / relative\<close> as text.\<close>

definition below :: "string \<Rightarrow> string \<Rightarrow> string" where
  "below root relative =
     (if root = [] \<or> last root = CHR ''/'' then root @ relative else root @ ''/'' @ relative)"

subsection \<open>Files\<close>

text \<open>The pieces a buffer of 8192 bytes reads.\<close>

function read_pieces :: "8 word list \<Rightarrow> 8 word list list" where
  "read_pieces data = (if data = [] then [] else take 8192 data # read_pieces (drop 8192 data))"
  by pat_completeness auto
termination by (relation "measure length") auto

declare read_pieces.simps [simp del]

definition hashFile :: "sha256 \<Rightarrow> string \<Rightarrow> file_data \<Rightarrow> (string, sha256) result" where
  "hashFile hash path data =
     (case data of
        Unreadable \<Rightarrow> Inl (''cannot read package integrity input: '' @ path)
      | Broken _ \<Rightarrow> Inl (''cannot hash package file: '' @ path)
      | Content bytes \<Rightarrow> Inr (fold update (read_pieces bytes) hash))"

definition packageFileSha256 :: "string \<Rightarrow> file_data \<Rightarrow> (string, string) result" where
  "packageFileSha256 path data = bindE (hashFile new_sha256 path data) (\<lambda>hash. Inr (finish hash))"

subsection \<open>Trees\<close>

text \<open>
  The loop of the recursive directory iterator below \<open>prefix\<close>: a \<open>.git\<close> of the root is
  passed over, directories are entered, anything but a regular file is rejected.
\<close>

fun tree_files ::
  "string \<Rightarrow> string \<Rightarrow> (string \<times> node) list \<Rightarrow> (string, (string \<times> file_data) list) result" where
  "tree_files root prefix [] = Inr []"
| "tree_files root prefix ((name, entry) # entries) =
     (if prefix = [] \<and> name = ''.git'' then tree_files root prefix entries
      else bindE (case entry of
              Directory nested \<Rightarrow> tree_files root (prefix @ name @ ''/'') nested
            | Special \<Rightarrow> Inl (''package integrity rejects symlinks and special files: '' @
                below root (prefix @ name))
            | Regular data \<Rightarrow> Inr [(prefix @ name, data)])
         (\<lambda>files. bindE (tree_files root prefix entries) (\<lambda>rest. Inr (files @ rest))))"

fun hash_files :: "string \<Rightarrow> (string \<times> file_data) list \<Rightarrow> sha256 \<Rightarrow> (string, sha256) result" where
  "hash_files root [] hash = Inr hash"
| "hash_files root ((file, data) # files) hash =
     bindE (hashFile (update [0] (update (string_bytes file) hash)) (below root file) data)
       (\<lambda>hash. hash_files root files (update [0] hash))"

definition packageTreeSha256 :: "string \<Rightarrow> node \<Rightarrow> (string, string) result" where
  "packageTreeSha256 root tree =
     (case tree of
        Directory entries \<Rightarrow>
          bindE (tree_files root [] entries) (\<lambda>files.
          bindE (hash_files root (sort_key fst files) new_sha256) (\<lambda>hash. Inr (finish hash)))
      | _ \<Rightarrow> Inl (''package integrity root must be a real directory: '' @ root))"

subsection \<open>What is hashed\<close>

lemma concat_read_pieces: "concat (read_pieces data) = data"
proof (induction data rule: read_pieces.induct)
  case (1 data)
  then show ?case by (cases "data = []") (simp_all add: read_pieces.simps [of data] read_pieces.simps [of "[]"])
qed

lemma hashFile_Content: "hashFile hash path (Content bytes) = Inr (update bytes hash)"
  by (simp add: hashFile_def sha.absorb_pieces concat_read_pieces)

definition contents :: "file_data \<Rightarrow> 8 word list" where
  "contents data = (case data of Content bytes \<Rightarrow> bytes | Broken bytes \<Rightarrow> bytes | Unreadable \<Rightarrow> [])"

definition readable :: "file_data \<Rightarrow> bool" where
  "readable data = (case data of Content _ \<Rightarrow> True | _ \<Rightarrow> False)"

definition file_code :: "string \<times> file_data \<Rightarrow> 8 word list" where
  "file_code f = string_bytes (fst f) @ [0] @ contents (snd f) @ [0]"

lemma hash_files_bytes:
  "list_all (readable \<circ> snd) files \<Longrightarrow>
     hash_files root files hash = Inr (update (concat (map file_code files)) hash)"
proof (induction root files hash rule: hash_files.induct)
  case (2 root "file" data files hash)
  then obtain bytes where "data = Content bytes" by (cases data) (auto simp: readable_def)
  with 2 show ?case
    by (simp add: hashFile_Content file_code_def contents_def update_append [symmetric])
qed simp

text \<open>The digest of a package tree is the SHA-256 digest of the names and contents of its
  files in the order of their names, each followed by a zero byte.\<close>

theorem packageTreeSha256_bytes:
  assumes "tree_files root [] entries = Inr files" "list_all (readable \<circ> snd) files"
    and "length (concat (map file_code (sort_key fst files))) < 2 ^ 61"
  shows "packageTreeSha256 root (Directory entries) =
    Inr (sha256_standard (concat (map file_code (sort_key fst files))))"
proof -
  have "list_all (readable \<circ> snd) (sort_key fst files)"
    using assms(2) by (simp add: list_all_iff)
  with assms show ?thesis
    by (simp add: packageTreeSha256_def hash_files_bytes finish_standard)
qed

text \<open>The digest does not depend on the order in which the file system lists directories.\<close>

theorem packageTreeSha256_order:
  assumes "tree_files root [] entries = Inr files" "tree_files root [] entries' = Inr files'"
    and "mset files = mset files'" "distinct (map fst files)"
  shows "packageTreeSha256 root (Directory entries) = packageTreeSha256 root (Directory entries')"
proof -
  have "set files = set files'" using assms(3) by (rule mset_eq_setD)
  moreover have "distinct (map fst files')"
    using assms(3,4) by (metis mset_map mset_eq_imp_distinct_iff)
  ultimately have "sort_key fst files = sort_key fst files'"
    using assms(4) by (intro map_sorted_distinct_set_unique [of fst])
      (auto simp: distinct_map inj_on_def)
  with assms(1,2) show ?thesis by (simp add: packageTreeSha256_def)
qed


subsection \<open>When the digest tells trees apart\<close>

text \<open>A file whose name and contents are free of zero bytes.\<close>

definition plain_file :: "string \<times> file_data \<Rightarrow> bool" where
  "plain_file f \<longleftrightarrow> 0 \<notin> set (string_bytes (fst f)) \<and> 0 \<notin> set (contents (snd f)) \<and> readable (snd f)"

lemma string_bytes_inject: "string_bytes s = string_bytes t \<longleftrightarrow> s = t"
proof -
  have "inj (\<lambda>c. of_nat (byte c) :: 8 word)"
  proof
    fix c d assume "(of_nat (byte c) :: 8 word) = of_nat (byte d)"
    then have "unat (of_nat (byte c) :: 8 word) = unat (of_nat (byte d) :: 8 word)" by (rule arg_cong)
    then have "byte c = byte d"
      using byte_less_256 [of c] byte_less_256 [of d] by (simp add: unsigned_of_nat take_bit_nat_eq_self)
    then show "c = d" by simp
  qed
  then show ?thesis by (simp add: string_bytes_def inj_map_eq_map)
qed

lemma append_zero_inject:
  "0 \<notin> set xs \<Longrightarrow> 0 \<notin> set ys \<Longrightarrow> xs @ 0 # r = ys @ 0 # s \<longleftrightarrow> xs = ys \<and> r = s"
  by (induction xs arbitrary: ys) (case_tac ys; auto)+

interpretation file_codes: prefix_code plain_file file_code
proof
  fix a :: "string \<times> file_data"
  show "plain_file a \<Longrightarrow> file_code a \<noteq> []" by (simp add: file_code_def)
next
  fix a b :: "string \<times> file_data" and x y
  assume ab: "plain_file a" "plain_file b" "file_code a @ x = file_code b @ y"
  then have "string_bytes (fst a) = string_bytes (fst b)" "contents (snd a) = contents (snd b)"
    by (auto simp: plain_file_def file_code_def append_zero_inject)
  with ab show "a = b"
    by (cases a; cases b; cases "snd a"; cases "snd b")
      (auto simp: plain_file_def readable_def contents_def string_bytes_inject)
qed

text \<open>For packages of text files, the bytes that are hashed determine the files: two
  trees with different files are hashed from different messages.\<close>

theorem tree_message_inject:
  assumes "list_all plain_file files" "list_all plain_file files'"
  shows "concat (map file_code files) = concat (map file_code files') \<longleftrightarrow> files = files'"
  by (rule file_codes.codes_inject [OF assms])

text \<open>For other files they do not: a file whose contents hold a zero byte, a name and
  another zero byte has the digest of two files.\<close>

theorem packageTreeSha256_ambiguous:
  "packageTreeSha256 root (Directory [(''a'', Regular (Content [1])), (''b'', Regular (Content [2]))]) =
   packageTreeSha256 root (Directory [(''a'', Regular (Content [1, 0, 0x62, 0, 2]))])"
  by (simp add: packageTreeSha256_def hashFile_Content string_bytes_def update_append [symmetric])


subsection \<open>Instances\<close>

definition sample_tree :: "(string \<times> node) list" where
  "sample_tree = [(''m'', Directory [(''b'', Regular (Content [2]))]), (''a'', Regular (Content [1]))]"

lemma sample_files:
  "tree_files ''/p'' [] sample_tree = Inr [(''m/b'', Content [2]), (''a'', Content [1])]"
  "tree_files ''/p'' [] (rev sample_tree) = Inr [(''a'', Content [1]), (''m/b'', Content [2])]"
  by (simp_all add: sample_tree_def)

theorem packageTreeSha256_bytes_witness:
  "\<exists>m. packageTreeSha256 ''/p'' (Directory sample_tree) = Inr (sha256_standard m)"
proof -
  have "length (concat (map file_code (sort_key fst [(''m/b'', Content [2]), (''a'', Content [1])]))) < 2 ^ 61"
    by (simp add: file_code_def contents_def string_bytes_def)
  with packageTreeSha256_bytes [OF sample_files(1)] show ?thesis by (auto simp: readable_def)
qed

theorem packageTreeSha256_order_witness:
  "packageTreeSha256 ''/p'' (Directory sample_tree) = packageTreeSha256 ''/p'' (Directory (rev sample_tree))"
  by (rule packageTreeSha256_order [OF sample_files]) simp_all

theorem tree_message_inject_witness:
  "concat (map file_code [(''a'', Content [1])]) \<noteq> concat (map file_code [(''b'', Content [1])])"
  using tree_message_inject [of "[(''a'', Content [1])]" "[(''b'', Content [1])]"]
  by (simp add: plain_file_def readable_def contents_def string_bytes_def)

end
