(* ===== verification/Package_Version.thy ===== *)
theory Package_Version
  imports Prelude "HOL-Library.Product_Lexorder"
begin

text \<open>
  Package versions (\<open>parseVersion\<close> to \<open>compareVersion\<close> of \<open>src/PackageRegistry.cpp\<close>) and
  the precedence of Semantic Versioning that the comparison implements. The loops over the
  parts of a text are recursions on the rest of the text behind the last separator.
\<close>

record version =
  vn_major :: string
  vn_minor :: string
  vn_patch :: string
  vn_prerelease :: string
  vn_build :: string

definition validCoreNumber :: "string \<Rightarrow> bool" where
  "validCoreNumber value' \<longleftrightarrow>
     value' \<noteq> [] \<and> (length value' = 1 \<or> hd value' \<noteq> CHR ''0'') \<and> list_all is_digit value'"

definition part_ok :: "bool \<Rightarrow> string \<Rightarrow> bool" where
  "part_ok rejectLeadingZero part \<longleftrightarrow>
     part \<noteq> [] \<and> list_all (\<lambda>c. is_alnum c \<or> c = CHR ''-'') part \<and>
     \<not> (rejectLeadingZero \<and> list_all is_digit part \<and> length part > 1 \<and> hd part = CHR ''0'')"

function valid_parts :: "bool \<Rightarrow> string \<Rightarrow> bool" where
  "valid_parts strict rest =
     (case str_find (CHR ''.'') rest 0 of
        None \<Rightarrow> part_ok strict rest
      | Some i \<Rightarrow> part_ok strict (take i rest) \<and> valid_parts strict (drop (i + 1) rest))"
  by pat_completeness auto
termination by (relation "measure (length \<circ> snd)") (auto dest: str_find_Some(2))

declare valid_parts.simps [simp del]

definition validIdentifiers :: "string \<Rightarrow> bool \<Rightarrow> bool" where
  "validIdentifiers value' rejectLeadingZero \<longleftrightarrow> value' \<noteq> [] \<and> valid_parts rejectLeadingZero value'"

text \<open>The text before the first \<open>c\<close>, and the text behind it if there is one.\<close>

definition cut :: "char \<Rightarrow> string \<Rightarrow> string \<times> string option" where
  "cut c text' =
     (case str_find c text' 0 of
        None \<Rightarrow> (text', None)
      | Some i \<Rightarrow> (take i text', Some (drop (i + 1) text')))"

definition optional_text :: "string option \<Rightarrow> string" where
  "optional_text t = (case t of None \<Rightarrow> [] | Some s \<Rightarrow> s)"

definition parse_core :: "string \<Rightarrow> (string \<times> string \<times> string) option" where
  "parse_core core =
     (case str_find (CHR ''.'') core 0 of
        None \<Rightarrow> None
      | Some first \<Rightarrow> (case str_find (CHR ''.'') core (first + 1) of
          None \<Rightarrow> None
        | Some second \<Rightarrow>
            if str_find (CHR ''.'') core (second + 1) \<noteq> None \<or>
               \<not> validCoreNumber (take first core) \<or>
               \<not> validCoreNumber (substr core (first + 1) (second - first - 1)) \<or>
               \<not> validCoreNumber (drop (second + 1) core)
            then None
            else Some (take first core, substr core (first + 1) (second - first - 1),
                       drop (second + 1) core)))"

definition parseVersion :: "string \<Rightarrow> version option" where
  "parseVersion text' =
     (let (withoutBuild, build) = cut (CHR ''+'') text';
          (core, prerelease) = cut (CHR ''-'') withoutBuild
      in if (build \<noteq> None \<and> \<not> validIdentifiers (optional_text build) False) \<or>
            (prerelease \<noteq> None \<and> \<not> validIdentifiers (optional_text prerelease) True)
         then None
         else case parse_core core of
           None \<Rightarrow> None
         | Some (major, minor, patch) \<Rightarrow>
             Some \<lparr>vn_major = major, vn_minor = minor, vn_patch = patch,
                   vn_prerelease = optional_text prerelease, vn_build = optional_text build\<rparr>)"

subsection \<open>Comparison\<close>

definition compare_text :: "string \<Rightarrow> string \<Rightarrow> int" where
  "compare_text l r = (if l \<noteq> r then if l < r then -1 else 1 else 0)"

definition compareNumeric :: "string \<Rightarrow> string \<Rightarrow> int" where
  "compareNumeric l r =
     (if length l \<noteq> length r then if length l < length r then -1 else 1 else compare_text l r)"

text \<open>The comparison of one pair of identifiers; 0 goes on to the next pair.\<close>

definition compare_part :: "string \<Rightarrow> string \<Rightarrow> int" where
  "compare_part l r =
     (if list_all is_digit l \<and> list_all is_digit r then compareNumeric l r
      else if list_all is_digit l \<noteq> list_all is_digit r then if list_all is_digit l then -1 else 1
      else compare_text l r)"

function compare_parts :: "string \<Rightarrow> string \<Rightarrow> int" where
  "compare_parts l r =
     (let (lhs, leftRest) = cut (CHR ''.'') l; (rhs, rightRest) = cut (CHR ''.'') r;
          result = compare_part lhs rhs
      in if result \<noteq> 0 then result
         else case (leftRest, rightRest) of
           (None, None) \<Rightarrow> 0
         | (None, Some _) \<Rightarrow> -1
         | (Some _, None) \<Rightarrow> 1
         | (Some l', Some r') \<Rightarrow> compare_parts l' r')"
  by pat_completeness auto
termination
  by (relation "measure (length \<circ> fst)")
    (auto simp: cut_def split: option.splits dest: str_find_Some(2))

declare compare_parts.simps [simp del]

definition comparePrerelease :: "string \<Rightarrow> string \<Rightarrow> int" where
  "comparePrerelease l r =
     (if l = [] then if r = [] then 0 else 1
      else if r = [] then -1 else compare_parts l r)"

definition compareVersion :: "version \<Rightarrow> version \<Rightarrow> int" where
  "compareVersion l r =
     (let major = compareNumeric (vn_major l) (vn_major r);
          minor = compareNumeric (vn_minor l) (vn_minor r);
          patch = compareNumeric (vn_patch l) (vn_patch r)
      in if major \<noteq> 0 then major else if minor \<noteq> 0 then minor else if patch \<noteq> 0 then patch
         else comparePrerelease (vn_prerelease l) (vn_prerelease r))"

end
