(* ===== verification/Package_Toml.thy ===== *)
theory Package_Toml
  imports Prelude Tokens
begin

text \<open>
  The texts of package files: identifiers, keys, repositories and relative paths, and the
  subset of TOML that manifests and locks use (\<open>identifier\<close> to \<open>trim\<close> and
  \<open>parseQuotedString\<close> to \<open>uncomment\<close> of \<open>src/PackageRegistry.cpp\<close>). A position in a text
  is the rest of the text behind it. Errors are the texts of the thrown exceptions.
\<close>

definition package_keywords :: "string list" where
  "package_keywords =
     [''start'', ''int'', ''bool'', ''float'', ''unsigned'', ''strg'', ''list'',
      ''dict'', ''buffer'', ''handle'', ''any'', ''type'', ''if'',
      ''else'', ''while'', ''do'', ''for'', ''in'', ''is'', ''break'', ''continue'',
      ''and'', ''or'', ''not'', ''print'', ''raise'', ''try'', ''except'', ''finally'',
      ''class'', ''namespace'', ''include'', ''inline'', ''import'', ''as'', ''from'',
      ''public'', ''protected'', ''private'', ''virtual'', ''super'', ''null'',
      ''true'', ''false'', ''return'', ''void'']"

definition package_identifier :: "string \<Rightarrow> bool" where
  "package_identifier value' \<longleftrightarrow>
     value' \<noteq> [] \<and> (is_alpha (hd value') \<or> hd value' = CHR ''_'') \<and>
     list_all (\<lambda>c. is_alnum c \<or> c = CHR ''_'') (tl value') \<and>
     map to_lower value' \<notin> set package_keywords"

definition bareKey :: "string \<Rightarrow> bool" where
  "bareKey value' \<longleftrightarrow>
     value' \<noteq> [] \<and> (is_alpha (hd value') \<or> hd value' = CHR ''_'') \<and>
     list_all (\<lambda>c. is_alnum c \<or> c = CHR ''_'' \<or> c = CHR ''-'') (tl value')"

text \<open>The expression \<open>[A-Za-z0-9_.-]+/[A-Za-z0-9_.-]+\<close>: one slash between two names.\<close>

definition repository_char :: "char \<Rightarrow> bool" where
  "repository_char c \<longleftrightarrow> is_alnum c \<or> c \<in> {CHR ''_'', CHR ''.'', CHR ''-''}"

definition githubRepository :: "string \<Rightarrow> bool" where
  "githubRepository value' \<longleftrightarrow>
     (case split_on (CHR ''/'') value' of
        [owner, repository] \<Rightarrow>
          owner \<noteq> [] \<and> list_all repository_char owner \<and>
          repository \<noteq> [] \<and> list_all repository_char repository \<and>
          owner \<notin> {''.'', ''..''} \<and> repository \<notin> {''.'', ''..''}
      | _ \<Rightarrow> False)"

definition isPackageRelativePath :: "string \<Rightarrow> bool" where
  "isPackageRelativePath path \<longleftrightarrow>
     path \<noteq> [] \<and> hd path \<noteq> CHR ''/'' \<and> ''..'' \<notin> set (split_on (CHR ''/'') path)"

definition blank :: "char \<Rightarrow> bool" where
  "blank c \<longleftrightarrow> c = CHR '' '' \<or> c = CHR 0x09"

definition trimmed_char :: "char \<Rightarrow> bool" where
  "trimmed_char c \<longleftrightarrow> blank c \<or> c = CHR 0x0D \<or> c = CHR 0x0A"

definition trim :: "string \<Rightarrow> string" where
  "trim value' = rev (dropWhile trimmed_char (rev (dropWhile trimmed_char value')))"

definition at_line :: "string \<Rightarrow> nat \<Rightarrow> string \<Rightarrow> string" where
  "at_line path lineNumber message = path @ '':'' @ to_string lineNumber @ '': '' @ message"

subsection \<open>Quoted strings\<close>

definition quote :: char where
  "quote = CHR 0x22"

definition backslash :: char where
  "backslash = CHR 0x5C"

definition toml_escape :: "char \<Rightarrow> char option" where
  "toml_escape c =
     (if c = quote then Some quote else if c = backslash then Some backslash
      else if c = CHR ''b'' then Some (CHR 0x08) else if c = CHR ''t'' then Some (CHR 0x09)
      else if c = CHR ''n'' then Some (CHR 0x0A) else if c = CHR ''f'' then Some (CHR 0x0C)
      else if c = CHR ''r'' then Some (CHR 0x0D) else None)"

text \<open>The characters between the quotes.\<close>

fun quoted_body :: "string \<Rightarrow> (string, string) result" where
  "quoted_body [] = Inr []"
| "quoted_body (c # cs) =
     (if c \<noteq> backslash then
        if c = quote \<or> byte c < 0x20 then Inl ''invalid character in quoted string''
        else bindE (quoted_body cs) (\<lambda>s. Inr (c # s))
      else case cs of
        [] \<Rightarrow> Inl ''incomplete string escape''
      | e # cs' \<Rightarrow> (case toml_escape e of
            None \<Rightarrow> Inl ''unsupported string escape''
          | Some x \<Rightarrow> bindE (quoted_body cs') (\<lambda>s. Inr (x # s))))"

definition map_error :: "('e \<Rightarrow> 'f) \<Rightarrow> ('e, 'a) result \<Rightarrow> ('f, 'a) result" where
  "map_error f r = (case r of Inl e \<Rightarrow> Inl (f e) | Inr x \<Rightarrow> Inr x)"

definition parseQuotedString :: "string \<Rightarrow> string \<Rightarrow> nat \<Rightarrow> (string, string) result" where
  "parseQuotedString value' path lineNumber =
     map_error (at_line path lineNumber)
       (if length value' < 2 \<or> hd value' \<noteq> quote \<or> last value' \<noteq> quote
        then Inl ''expected a quoted TOML string''
        else quoted_body (butlast (tl value')))"

subsection \<open>Arrays of strings\<close>

fun skip_blanks :: "string \<Rightarrow> string" where
  "skip_blanks (c # d # cs) = (if blank c then skip_blanks (d # cs) else c # d # cs)"
| "skip_blanks cs = cs"

text \<open>
  The item behind its opening quote, which is in \<open>item\<close>; the last character of the value is
  never part of an item.
\<close>

fun array_item :: "bool \<Rightarrow> string \<Rightarrow> string \<Rightarrow> (string \<times> string) option" where
  "array_item escaped item (c # d # cs) =
     (if escaped then array_item False (item @ [c]) (d # cs)
      else if c = backslash then array_item True (item @ [c]) (d # cs)
      else if c = quote then Some (item @ [c], d # cs)
      else array_item False (item @ [c]) (d # cs))"
| "array_item escaped item cs = None"

lemma array_item_length: "array_item b item cs = Some (w, rest) \<Longrightarrow> length rest < length cs"
  by (induction b item cs rule: array_item.induct) (auto split: if_splits)

lemma skip_blanks_length: "length (skip_blanks cs) \<le> length cs"
  by (induction cs rule: skip_blanks.induct) auto

lemma array_rest_length:
  "array_item b q (tl rest) = Some (item, rest1) \<Longrightarrow>
     length (skip_blanks (tl (skip_blanks rest1))) < length rest"
  using array_item_length [of b q "tl rest" item rest1] skip_blanks_length [of rest1]
    skip_blanks_length [of "tl (skip_blanks rest1)"] by simp

text \<open>The loop over the items and the rest at which it stops.\<close>

function array_items ::
  "string \<Rightarrow> nat \<Rightarrow> string list \<Rightarrow> string \<Rightarrow> (string, string list \<times> string) result" where
  "array_items path lineNumber items rest =
     (if length rest \<le> 1 \<or> hd rest = CHR '']'' then Inr (items, rest)
      else if hd rest \<noteq> quote then Inl (at_line path lineNumber ''expected a quoted string in array'')
      else case array_item False [quote] (tl rest) of
        None \<Rightarrow> Inl (at_line path lineNumber ''unterminated string in array'')
      | Some (item, rest1) \<Rightarrow>
          bindE (parseQuotedString item path lineNumber) (\<lambda>w.
            let rest2 = skip_blanks rest1
            in if hd rest2 = CHR '']'' then Inr (items @ [w], rest2)
               else if hd rest2 \<noteq> CHR '',''
               then Inl (at_line path lineNumber ''expected ',' or ']' after array value'')
               else let rest3 = skip_blanks (tl rest2)
                    in if hd rest3 = CHR '']'' then Inr (items @ [w], rest3)
                       else array_items path lineNumber (items @ [w]) rest3))"
  by pat_completeness auto
termination
  by (relation "measure (\<lambda>(path, n, items, rest). length rest)") (auto dest: array_rest_length)

declare array_items.simps [simp del]

definition parseStringArray :: "string \<Rightarrow> string \<Rightarrow> nat \<Rightarrow> (string, string list) result" where
  "parseStringArray value' path lineNumber =
     (if length value' < 2 \<or> hd value' \<noteq> CHR ''['' \<or> last value' \<noteq> CHR '']''
      then Inl (at_line path lineNumber ''expected an array of quoted strings'')
      else bindE (array_items path lineNumber [] (skip_blanks (tl value')))
           (\<lambda>(items, rest).
              if length rest \<noteq> 1 \<or> hd rest \<noteq> CHR '']''
              then Inl (at_line path lineNumber ''unexpected content after string array'')
              else Inr items))"

subsection \<open>Lines\<close>

fun uncomment_from :: "bool \<Rightarrow> bool \<Rightarrow> string \<Rightarrow> string" where
  "uncomment_from quoted' escaped [] = []"
| "uncomment_from quoted' escaped (c # cs) =
     (if quoted' then
        if escaped then c # uncomment_from True False cs
        else if c = backslash then c # uncomment_from True True cs
        else c # uncomment_from (c \<noteq> quote) False cs
      else if c = quote then c # uncomment_from True escaped cs
      else if c = CHR ''#'' then []
      else c # uncomment_from False escaped cs)"

definition uncomment :: "string \<Rightarrow> string" where
  "uncomment line = uncomment_from False False line"


subsection \<open>Writing and reading\<close>

text \<open>A text as a quoted string, and a list of texts as an array.\<close>

definition toml_char :: "char \<Rightarrow> string" where
  "toml_char c = (if c = quote \<or> c = backslash then [backslash, c] else [c])"

definition toml_string :: "string \<Rightarrow> string" where
  "toml_string s = quote # concat (map toml_char s) @ [quote]"

definition toml_array :: "string list \<Rightarrow> string" where
  "toml_array items = ''['' @ join_with '', '' (map toml_string items) @ '']''"

definition writable :: "string \<Rightarrow> bool" where
  "writable s \<longleftrightarrow> list_all (\<lambda>c. \<not> byte c < 0x20) s"

lemma quote_chars [simp]: "quote \<noteq> backslash" "backslash \<noteq> quote" "toml_escape quote = Some quote"
  "toml_escape backslash = Some backslash" "\<not> blank quote" "quote \<noteq> CHR '']''"
  by code_simp+

lemma quoted_body_chars: "writable s \<Longrightarrow> quoted_body (concat (map toml_char s)) = Inr s"
  by (induction s) (auto simp: toml_char_def writable_def)

lemma parseQuotedString_toml: "writable s \<Longrightarrow> parseQuotedString (toml_string s) path n = Inr s"
  by (simp add: parseQuotedString_def toml_string_def quoted_body_chars map_error_def butlast_append)

lemma array_item_chars:
  "array_item False item (concat (map toml_char s) @ quote # c # cs) =
     Some (item @ concat (map toml_char s) @ [quote], c # cs)"
proof (induction s arbitrary: item)
  case (Cons x s)
  obtain y ys where y: "concat (map toml_char s) @ quote # c # cs = y # ys"
    by (cases "concat (map toml_char s)") auto
  note step = Cons.IH [of "item @ toml_char x"]
  show ?case
  proof (cases "x = quote \<or> x = backslash")
    case True
    then have "toml_char x = [backslash, x]" by (simp add: toml_char_def)
    with step y show ?thesis by simp
  next
    case False
    then have "toml_char x = [x]" by (simp add: toml_char_def)
    with step y False show ?thesis by simp
  qed
qed simp

lemma skip_blanks_quote [simp]: "skip_blanks (quote # cs) = quote # cs"
  by (cases cs) simp_all

lemma array_item_toml:
  "array_item False [quote] (tl (toml_string s) @ c # cs) = Some (toml_string s, c # cs)"
  using array_item_chars [of "[quote]" s c cs] by (simp add: toml_string_def)

lemma array_items_toml:
  "list_all writable (s # items) \<Longrightarrow>
     array_items path n acc (join_with '', '' (map toml_string (s # items)) @ '']'') =
       Inr (acc @ s # items, '']'')"
proof (induction items arbitrary: s acc)
  case Nil
  have "array_items path n acc (toml_string s @ '']'') = Inr (acc @ [s], '']'')"
    using Nil parseQuotedString_toml [of s path n] array_item_toml [of s "CHR '']''" "[]"]
    by (subst array_items.simps) (simp add: toml_string_def)
  then show ?case by simp
next
  case (Cons t items)
  let ?r = "join_with '', '' (map toml_string (t # items)) @ '']''"
  have r: "skip_blanks (CHR '' '' # ?r) = ?r" "hd ?r = quote"
  proof -
    obtain cs where "?r = quote # cs" by (cases items) (simp_all add: toml_string_def)
    then show "skip_blanks (CHR '' '' # ?r) = ?r" "hd ?r = quote" by (simp_all add: blank_def)
  qed
  have "array_items path n acc (toml_string s @ '', '' @ ?r) = array_items path n (acc @ [s]) ?r"
    using Cons.prems parseQuotedString_toml [of s path n] array_item_toml [of s "CHR '',''" "CHR '' '' # ?r"] r
    by (subst array_items.simps) (simp add: toml_string_def blank_def quote_def)
  with Cons.IH [of t "acc @ [s]"] Cons.prems show ?case by simp
qed


lemma uncomment_chars:
  "uncomment_from True False (concat (map toml_char s) @ quote # r) =
     concat (map toml_char s) @ quote # uncomment_from False False r"
  by (induction s) (auto simp: toml_char_def)

lemma uncomment_string:
  "uncomment_from False False (toml_string s @ r) = toml_string s @ uncomment_from False False r"
  by (simp add: toml_string_def uncomment_chars)

lemma uncomment_strings:
  "uncomment_from False False (join_with '', '' (map toml_string items) @ r) =
     join_with '', '' (map toml_string items) @ uncomment_from False False r"
proof (induction "'', ''" "map toml_string items" arbitrary: items rule: join_with.induct)
  case (2 p)
  then obtain s where "items = [s]" by auto
  then show ?case by (simp add: uncomment_string)
next
  case (3 p q ps)
  then obtain s t items' where i: "items = s # t # items'" by (cases items; cases "tl items") auto
  with 3(1) [of "t # items'"] 3(2) show ?case by (simp add: uncomment_string quote_def)
qed simp

lemma trim_id: "s \<noteq> [] \<Longrightarrow> \<not> trimmed_char (hd s) \<Longrightarrow> \<not> trimmed_char (last s) \<Longrightarrow>
    list_all trimmed_char a \<Longrightarrow> list_all trimmed_char b \<Longrightarrow> trim (a @ s @ b) = s"
proof -
  assume s: "s \<noteq> []" "\<not> trimmed_char (hd s)" "\<not> trimmed_char (last s)"
    and ab: "list_all trimmed_char a" "list_all trimmed_char b"
  have drop: "dropWhile trimmed_char (x @ y) = y"
    if "list_all trimmed_char x" "y \<noteq> []" "\<not> trimmed_char (hd y)" for x y
    using that by (cases y) (auto simp: list_all_iff dropWhile_append2)
  have "dropWhile trimmed_char (a @ s @ b) = s @ b" using s ab by (intro drop) auto
  moreover have "dropWhile trimmed_char (rev b @ rev s) = rev s"
    using s ab by (intro drop) (auto simp: hd_rev)
  ultimately show "trim (a @ s @ b) = s" by (simp add: trim_def)
qed

text \<open>A list of texts without control characters, written as an array with quotes and
  backslashes escaped, is read back from its line, whatever comment stands behind it.\<close>

theorem parseStringArray_toml:
  assumes "list_all writable items"
  shows "parseStringArray (trim (uncomment ('' '' @ toml_array items @ '' #'' @ comment))) path lineNumber =
    Inr items"
proof -
  have "uncomment ('' '' @ toml_array items @ '' #'' @ comment) = '' '' @ toml_array items @ '' ''"
    using uncomment_strings [of items "'']'' @ '' #'' @ comment"]
    by (simp add: uncomment_def toml_array_def quote_def)
  moreover have "\<not> trimmed_char CHR ''[''" "\<not> trimmed_char CHR '']''" "list_all trimmed_char '' ''"
    by code_simp+
  then have "trim ('' '' @ toml_array items @ '' '') = toml_array items"
    by (intro trim_id) (simp_all add: toml_array_def)
  ultimately have t: "trim (uncomment ('' '' @ toml_array items @ '' #'' @ comment)) = toml_array items"
    by simp
  show ?thesis
  proof (cases items)
    case Nil
    then show ?thesis
      unfolding t by (simp add: parseStringArray_def toml_array_def array_items.simps)
  next
    case (Cons s rest)
    obtain cs where cs: "join_with '', '' (map toml_string items) @ '']'' = quote # cs"
      using Cons by (cases rest) (simp_all add: toml_string_def)
    then have "skip_blanks (tl (toml_array items)) = join_with '', '' (map toml_string items) @ '']''"
      by (simp add: toml_array_def)
    moreover have "array_items path lineNumber [] (join_with '', '' (map toml_string items) @ '']'') =
        Inr (items, '']'')"
      using array_items_toml [of s rest path lineNumber "[]"] assms Cons by simp
    ultimately show ?thesis
      unfolding t by (simp add: parseStringArray_def toml_array_def Suc_le_eq)
  qed
qed

theorem parseStringArray_toml_witness:
  "parseStringArray (trim (uncomment ('' '' @ toml_array [''a#b'', [quote]] @ '' #'' @ ''c''))) ''f'' 1 =
     Inr [''a#b'', [quote]]"
proof (rule parseStringArray_toml)
  show "list_all writable [''a#b'', [quote]]" by code_simp
qed

end
