(* ===== verification/Package_Manifest.thy ===== *)
theory Package_Manifest
  imports Package_Version Package_Toml Package_Integrity
begin

text \<open>
  Package manifests (\<open>readManifest\<close> of \<open>src/PackageRegistry.cpp\<close>). The text of the file is
  an argument, \<open>None\<close> if it cannot be opened. A \<open>std::map\<close> is an association list that is
  kept sorted by its keys, so a loop over the map is a loop over the list.
\<close>

record package_dependency =
  pd_name :: string
  pd_version :: string

record resolved_package =
  rp_name :: string
  rp_version :: string
  rp_packageRoot :: string
  rp_sourcePath :: string
  rp_exportKind :: string
  rp_exportName :: string
  rp_dependencies :: "package_dependency list"
  rp_libraries :: "string list"
  rp_libraryPaths :: "string list"

record package_manifest = resolved_package +
  pm_signature :: string

type_synonym 'a outcome = "(string, 'a) result"

text \<open>\<open>map[key] = value\<close> and \<open>map.emplace(key, value)\<close> for a new key.\<close>

definition map_put :: "string \<Rightarrow> 'a \<Rightarrow> (string \<times> 'a) list \<Rightarrow> (string \<times> 'a) list" where
  "map_put key value' entries = insort_key fst (key, value') (filter (\<lambda>e. fst e \<noteq> key) entries)"

text \<open>\<open>check\<close>: an error if the condition holds.\<close>

definition reject :: "bool \<Rightarrow> string \<Rightarrow> unit outcome" where
  "reject bad message = (if bad then Inl message else Inr ())"

abbreviation afterE :: "unit outcome \<Rightarrow> 'a outcome \<Rightarrow> 'a outcome" where
  "afterE r s \<equiv> bindE r (\<lambda>_. s)"

text \<open>A loop over a list that may throw.\<close>

fun foldE :: "('a \<Rightarrow> 's \<Rightarrow> 's outcome) \<Rightarrow> 'a list \<Rightarrow> 's \<Rightarrow> 's outcome" where
  "foldE f [] s = Inr s"
| "foldE f (x # xs) s = bindE (f x s) (foldE f xs)"

subsection \<open>The lines of a manifest\<close>

record manifest_state =
  ms_section :: string
  ms_sections :: "string list"
  ms_seen :: "string list"
  ms_scalars :: "(string \<times> string) list"
  ms_libraries :: "string list"
  ms_libraryPaths :: "string list"

definition empty_manifest_state :: manifest_state where
  "empty_manifest_state =
     \<lparr>ms_section = [], ms_sections = [], ms_seen = [], ms_scalars = [], ms_libraries = [],
      ms_libraryPaths = []\<rparr>"

text \<open>A non-empty line with its number, comments and blanks removed.\<close>

definition text_lines :: "string \<Rightarrow> (nat \<times> string) list" where
  "text_lines text' =
     filter (\<lambda>(n, line). line \<noteq> [])
       (map (\<lambda>(n, line). (n, trim (uncomment line))) (enumerate 1 (split_on newline text')))"

definition manifest_table ::
  "string \<Rightarrow> nat \<Rightarrow> string \<Rightarrow> manifest_state \<Rightarrow> manifest_state outcome" where
  "manifest_table path number line s =
     (let section = substr line 1 (length line - 2)
      in afterE (reject (section \<notin> {''package'', ''dependencies'', ''link'', ''sources''})
             (at_line path number (''unknown table '' @ quoted section)))
         (afterE (reject (section \<in> set (ms_sections s))
             (at_line path number (''duplicate table ['' @ section @ '']'')))
         (Inr (s\<lparr>ms_section := section, ms_sections := section # ms_sections s\<rparr>))))"

definition library_path :: "string \<Rightarrow> nat \<Rightarrow> string \<Rightarrow> string \<Rightarrow> string list \<Rightarrow> string list outcome" where
  "library_path path number packageRoot item paths =
     afterE (reject (\<not> isPackageRelativePath item) (at_line path number ''library paths must be relative''))
       (Inr (paths @ [below packageRoot item]))"

definition manifest_value ::
  "string \<Rightarrow> string \<Rightarrow> nat \<Rightarrow> string \<Rightarrow> string \<Rightarrow> manifest_state \<Rightarrow> manifest_state outcome" where
  "manifest_value path packageRoot number key value' s =
     (let section = ms_section s
      in if section \<in> {''package'', ''dependencies'', ''sources''} then
           bindE (parseQuotedString value' path number) (\<lambda>v.
             Inr (s\<lparr>ms_scalars := map_put (section @ ''.'' @ key) v (ms_scalars s)\<rparr>))
         else if section = ''link'' \<and> key = ''libraries'' then
           bindE (parseStringArray value' path number) (\<lambda>v. Inr (s\<lparr>ms_libraries := v\<rparr>))
         else if section = ''link'' \<and> key = ''library-paths'' then
           bindE (parseStringArray value' path number) (\<lambda>items.
           bindE (foldE (library_path path number packageRoot) items (ms_libraryPaths s)) (\<lambda>paths.
             Inr (s\<lparr>ms_libraryPaths := paths\<rparr>)))
         else Inl (at_line path number (''unknown key '' @ quoted key @ '' in ['' @ section @ '']'')))"

definition manifest_entry ::
  "string \<Rightarrow> string \<Rightarrow> nat \<Rightarrow> string \<Rightarrow> manifest_state \<Rightarrow> manifest_state outcome" where
  "manifest_entry path packageRoot number line s =
     (case str_find (CHR ''='') line 0 of
        None \<Rightarrow> Inl (at_line path number ''expected key = value inside a known table'')
      | Some equals \<Rightarrow>
          if ms_section s = [] then
            Inl (at_line path number ''expected key = value inside a known table'')
          else
            let key = trim (take equals line); value' = trim (drop (equals + 1) line);
                uniqueKey = ms_section s @ ''.'' @ key
            in afterE (reject (\<not> bareKey key) (at_line path number (''invalid bare key '' @ quoted key)))
               (afterE (reject (uniqueKey \<in> set (ms_seen s))
                   (at_line path number (''duplicate key '' @ quoted key)))
               (afterE (reject (ms_section s = ''package'' \<and>
                     key \<notin> {''name'', ''version'', ''source'', ''export''})
                   (at_line path number (''unknown key '' @ quoted key @ '' in [package]'')))
               (manifest_value path packageRoot number key value'
                  (s\<lparr>ms_seen := uniqueKey # ms_seen s\<rparr>)))))"

definition manifest_line ::
  "string \<Rightarrow> string \<Rightarrow> nat \<times> string \<Rightarrow> manifest_state \<Rightarrow> manifest_state outcome" where
  "manifest_line path packageRoot numbered s =
     (case numbered of (number, line) \<Rightarrow>
        if hd line = CHR ''['' \<and> last line = CHR '']'' then manifest_table path number line s
        else manifest_entry path packageRoot number line s)"


subsection \<open>The manifest\<close>

definition required :: "string \<Rightarrow> (string \<times> string) list \<Rightarrow> string \<Rightarrow> string outcome" where
  "required path scalars key =
     (case map_of scalars (''package.'' @ key) of
        None \<Rightarrow> Inl (path @ '': missing [package] '' @ key)
      | Some v \<Rightarrow> if v = [] then Inl (path @ '': missing [package] '' @ key) else Inr v)"

text \<open>The kind and the name of an export \<open>class:Name\<close> or \<open>namespace:Name\<close>.\<close>

definition parse_export :: "string \<Rightarrow> (string \<times> string) option" where
  "parse_export exported =
     (case str_find (CHR '':'') exported 0 of
        None \<Rightarrow> None
      | Some colon \<Rightarrow>
          if str_find (CHR '':'') exported (colon + 1) \<noteq> None \<or>
             take colon exported \<notin> {''class'', ''namespace''} \<or>
             \<not> package_identifier (drop (colon + 1) exported)
          then None
          else Some (take colon exported, drop (colon + 1) exported))"

definition manifest_dependency ::
  "string \<Rightarrow> string \<times> string \<Rightarrow> package_dependency list \<Rightarrow> package_dependency list outcome" where
  "manifest_dependency path scalar ds =
     (case scalar of (key, value') \<Rightarrow>
        if \<not> starts_with ''dependencies.'' key then Inr ds
        else
          let name = drop (length ''dependencies.'') key; versionText = tl value'
          in afterE (reject (\<not> package_identifier name \<or> length value' < 2 \<or> hd value' \<noteq> CHR ''='')
                 (path @ '': package dependencies must use exact =VERSION pins''))
             (afterE (reject (parseVersion versionText = None)
                 (path @ '': invalid dependency version '' @ quoted value'))
             (Inr (ds @ [\<lparr>pd_name = name, pd_version = versionText\<rparr>]))))"

definition manifest_source ::
  "string \<Rightarrow> (string \<times> string) list \<Rightarrow> string \<times> string \<Rightarrow> string \<Rightarrow> string outcome" where
  "manifest_source path scalars scalar signature =
     (case scalar of (key, value') \<Rightarrow>
        if \<not> starts_with ''sources.'' key then Inr signature
        else
          let name = drop 8 key
          in afterE (reject (\<not> package_identifier name \<or> \<not> githubRepository value' \<or>
                 map_of scalars (''dependencies.'' @ name) = None)
                 (path @ '': [sources] must map declared dependencies to OWNER/REPO''))
             (Inr (signature @ [newline] @ ''repo:'' @ name @ ''='' @ value')))"

definition library_ok :: "string \<Rightarrow> bool" where
  "library_ok library \<longleftrightarrow>
     library \<noteq> [] \<and> hd library \<noteq> CHR ''-'' \<and>
     list_all (\<lambda>c. is_alnum c \<or> c \<in> {CHR ''_'', CHR ''-'', CHR ''.'', CHR ''+''}) library"

definition manifest_library :: "string \<Rightarrow> string \<Rightarrow> string \<Rightarrow> string outcome" where
  "manifest_library path library signature =
     afterE (reject (\<not> library_ok library)
        (path @ '': native library names must not include a -l prefix''))
       (Inr (signature @ [newline] @ ''l:'' @ library))"

text \<open>
  \<open>libraryPath.lexically_relative(packageRoot).string()\<close>: the names behind the root, without
  repeated slashes.
\<close>

definition relative_text :: "string \<Rightarrow> string \<Rightarrow> string" where
  "relative_text packageRoot libraryPath =
     (let names = split_on (CHR ''/'') (drop (length (below packageRoot [])) libraryPath)
      in join_with ''/'' (filter (\<lambda>n. n \<noteq> []) (butlast names) @ [last names]))"

definition finish_manifest :: "string \<Rightarrow> string \<Rightarrow> manifest_state \<Rightarrow> package_manifest outcome" where
  "finish_manifest path packageRoot s =
     (let scalars = ms_scalars s in
      bindE (required path scalars ''name'') (\<lambda>name.
      bindE (required path scalars ''version'') (\<lambda>version.
      bindE (required path scalars ''source'') (\<lambda>source.
      bindE (required path scalars ''export'') (\<lambda>exported.
      afterE (reject (\<not> package_identifier name) (path @ '': package name must be a Cwhip identifier''))
      (afterE (reject (parseVersion version = None)
         (path @ '': invalid SemVer package version '' @ quoted version))
      (afterE (reject (\<not> isPackageRelativePath source) (path @ '': package source must be relative''))
      (case parse_export exported of
         None \<Rightarrow> Inl (path @ '': export must be class:Name or namespace:Name'')
       | Some (kind, exportName) \<Rightarrow>
           bindE (foldE (manifest_dependency path) scalars []) (\<lambda>ds.
           bindE (foldE (manifest_source path scalars) scalars
               (name @ [newline] @ version @ [newline] @ source @ [newline] @ kind @ '':'' @ exportName))
             (\<lambda>signature1.
           let dependencies = sort_key pd_name ds;
               signature2 = signature1 @
                 concat (map (\<lambda>d. [newline] @ pd_name d @ ''='' @ pd_version d) dependencies)
           in bindE (foldE (manifest_library path) (ms_libraries s) signature2) (\<lambda>signature3.
              Inr \<lparr>rp_name = name, rp_version = version, rp_packageRoot = packageRoot,
                   rp_sourcePath = below packageRoot source, rp_exportKind = kind,
                   rp_exportName = exportName, rp_dependencies = dependencies,
                   rp_libraries = ms_libraries s, rp_libraryPaths = ms_libraryPaths s,
                   pm_signature = signature3 @
                     concat (map (\<lambda>p. [newline] @ ''L:'' @ relative_text packageRoot p)
                       (ms_libraryPaths s))\<rparr>)))))))))))"

definition readManifest :: "string \<Rightarrow> string \<Rightarrow> string option \<Rightarrow> package_manifest outcome" where
  "readManifest path packageRoot input =
     (case input of
        None \<Rightarrow> Inl (''cannot open package manifest: '' @ path)
      | Some text' \<Rightarrow>
          bindE (foldE (manifest_line path packageRoot) (text_lines text') empty_manifest_state)
            (finish_manifest path packageRoot))"

subsection \<open>What a manifest promises\<close>

definition dependency_ok :: "package_dependency \<Rightarrow> bool" where
  "dependency_ok d \<longleftrightarrow> package_identifier (pd_name d) \<and> parseVersion (pd_version d) \<noteq> None"

definition manifest_ok :: "package_manifest \<Rightarrow> bool" where
  "manifest_ok m \<longleftrightarrow>
     package_identifier (rp_name m) \<and> parseVersion (rp_version m) \<noteq> None \<and>
     rp_exportKind m \<in> {''class'', ''namespace''} \<and> package_identifier (rp_exportName m) \<and>
     (\<exists>source. isPackageRelativePath source \<and> rp_sourcePath m = below (rp_packageRoot m) source) \<and>
     list_all dependency_ok (rp_dependencies m) \<and>
     sorted (map pd_name (rp_dependencies m)) \<and> distinct (map pd_name (rp_dependencies m)) \<and>
     list_all library_ok (rp_libraries m) \<and>
     list_all (\<lambda>p. \<exists>item. isPackageRelativePath item \<and> p = below (rp_packageRoot m) item)
       (rp_libraryPaths m)"

lemma reject_Inr [simp]: "reject b e = Inr u \<longleftrightarrow> \<not> b"
  by (simp add: reject_def)

lemma foldE_invariant:
  assumes "foldE f xs s = Inr s'" "I s"
    and "\<And>x s s'. x \<in> set xs \<Longrightarrow> I s \<Longrightarrow> f x s = Inr s' \<Longrightarrow> I s'"
  shows "I s'"
  using assms
proof (induction xs arbitrary: s)
  case (Cons x xs)
  then obtain t where "f x s = Inr t" "foldE f xs t = Inr s'" by (auto simp: bindE_Inr_iff)
  with Cons show ?case by auto
qed simp


lemma map_put_keys:
  assumes "sorted (map fst es)" "distinct (map fst es)"
  shows "sorted (map fst (map_put k v es))" "distinct (map fst (map_put k v es))"
proof -
  have "distinct (map fst (filter P es))" "sorted (map fst (filter P es))" for P
    using assms by (simp_all add: distinct_map_filter sorted_filter)
  then show "sorted (map fst (map_put k v es))" "distinct (map fst (map_put k v es))"
    by (auto simp: map_put_def sorted_insort_key distinct_map inj_on_def set_insort_key
        distinct_insort)
qed

definition below_root :: "string \<Rightarrow> string \<Rightarrow> bool" where
  "below_root root p \<longleftrightarrow> (\<exists>item. isPackageRelativePath item \<and> p = below root item)"

definition state_ok :: "string \<Rightarrow> manifest_state \<Rightarrow> bool" where
  "state_ok root s \<longleftrightarrow> distinct (map fst (ms_scalars s)) \<and> sorted (map fst (ms_scalars s)) \<and>
     list_all (below_root root) (ms_libraryPaths s)"

lemma library_paths_ok:
  assumes "foldE (library_path path n root) items ps = Inr ps'" "list_all (below_root root) ps"
  shows "list_all (below_root root) ps'"
  using assms by (rule foldE_invariant) (auto simp: library_path_def bindE_Inr_iff below_root_def)

lemma manifest_value_ok:
  assumes "manifest_value path root n k v s = Inr s'" "state_ok root s"
  shows "state_ok root s'"
  using assms
  by (auto simp: manifest_value_def Let_def bindE_Inr_iff state_ok_def map_put_keys
      split: if_splits intro: library_paths_ok)

lemma manifest_line_ok:
  assumes "manifest_line path root numbered s = Inr s'" "state_ok root s"
  shows "state_ok root s'"
proof (cases numbered)
  case (Pair number line)
  show ?thesis
  proof (cases "hd line = CHR ''['' \<and> last line = CHR '']''")
    case True
    with assms Pair show ?thesis
      by (auto simp: manifest_line_def manifest_table_def Let_def bindE_Inr_iff state_ok_def)
  next
    case False
    with assms Pair obtain k v u where "manifest_value path root number k v
        (s\<lparr>ms_seen := u # ms_seen s\<rparr>) = Inr s'"
      by (auto simp: manifest_line_def manifest_entry_def Let_def bindE_Inr_iff
          split: option.splits if_splits)
    moreover have "state_ok root (s\<lparr>ms_seen := u # ms_seen s\<rparr>)"
      using assms(2) by (simp add: state_ok_def)
    ultimately show ?thesis by (rule manifest_value_ok)
  qed
qed

text \<open>The dependencies are the entries of the table in the order of their keys.\<close>

definition dependency_entries :: "(string \<times> string) list \<Rightarrow> (string \<times> string) list" where
  "dependency_entries scalars = filter (\<lambda>e. starts_with ''dependencies.'' (fst e)) scalars"

definition to_dependency :: "string \<times> string \<Rightarrow> package_dependency" where
  "to_dependency e = \<lparr>pd_name = drop (length ''dependencies.'') (fst e), pd_version = tl (snd e)\<rparr>"

lemma manifest_dependencies:
  "foldE (manifest_dependency path) scalars acc = Inr ds \<Longrightarrow>
     ds = acc @ map to_dependency (dependency_entries scalars) \<and>
     list_all dependency_ok (map to_dependency (dependency_entries scalars))"
proof (induction scalars arbitrary: acc)
  case (Cons e scalars)
  obtain k v where e: "e = (k, v)" by (cases e)
  from Cons.prems obtain acc' where acc': "manifest_dependency path e acc = Inr acc'"
      "foldE (manifest_dependency path) scalars acc' = Inr ds"
    by (auto simp: bindE_Inr_iff)
  from Cons.IH [OF acc'(2)] acc'(1) e show ?case
    by (auto simp: manifest_dependency_def dependency_entries_def to_dependency_def bindE_Inr_iff
        Let_def dependency_ok_def split: if_splits)
qed (simp add: dependency_entries_def)

lemma dependency_names_distinct:
  assumes "distinct (map fst scalars)"
  shows "distinct (map pd_name (map to_dependency (dependency_entries scalars)))"
proof -
  let ?p = "''dependencies.''"
  have "inj_on (\<lambda>e. pd_name (to_dependency e)) (set (dependency_entries scalars))"
  proof (rule inj_onI)
    fix x y assume xy: "x \<in> set (dependency_entries scalars)" "y \<in> set (dependency_entries scalars)"
      "pd_name (to_dependency x) = pd_name (to_dependency y)"
    then have "fst x = ?p @ drop (length ?p) (fst x)" "fst y = ?p @ drop (length ?p) (fst y)"
      unfolding dependency_entries_def starts_with_def
      by (auto simp del: append.simps drop_append) (metis append_take_drop_id)+
    then have "fst x = fst y" using xy(3) by (simp only: to_dependency_def package_dependency.simps)
    then show "x = y"
      using xy assms by (auto simp: dependency_entries_def distinct_map inj_on_def)
  qed
  moreover have "distinct (dependency_entries scalars)"
    using assms by (simp add: dependency_entries_def distinct_map)
  ultimately show ?thesis by (simp add: distinct_map comp_def)
qed

lemma manifest_libraries:
  "foldE (manifest_library path) libraries sg = Inr sg' \<Longrightarrow> list_all library_ok libraries"
  by (induction libraries arbitrary: sg) (auto simp: bindE_Inr_iff manifest_library_def)


lemma manifest_read:
  assumes "readManifest path root (Some text') = Inr m"
  shows "manifest_ok m \<and> rp_packageRoot m = root"
proof -
  obtain s where s: "foldE (manifest_line path root) (text_lines text') empty_manifest_state = Inr s"
      "finish_manifest path root s = Inr m"
    using assms by (auto simp: readManifest_def bindE_Inr_iff)
  have "state_ok root s"
    using s(1)
  proof (rule foldE_invariant)
    show "state_ok root empty_manifest_state" by (simp add: state_ok_def empty_manifest_state_def)
  qed (rule manifest_line_ok)
  then have ok: "distinct (map fst (ms_scalars s))" "list_all (below_root root) (ms_libraryPaths s)"
    by (simp_all add: state_ok_def)
  obtain name version source exported kind en ds sg sg' where m:
      "package_identifier name" "parseVersion version \<noteq> None" "isPackageRelativePath source"
      "parse_export exported = Some (kind, en)"
      "foldE (manifest_dependency path) (ms_scalars s) [] = Inr ds"
      "foldE (manifest_library path) (ms_libraries s) sg = Inr sg'"
      "rp_name m = name" "rp_version m = version" "rp_packageRoot m = root"
      "rp_sourcePath m = below root source" "rp_exportKind m = kind" "rp_exportName m = en"
      "rp_dependencies m = sort_key pd_name ds" "rp_libraries m = ms_libraries s"
      "rp_libraryPaths m = ms_libraryPaths s"
    using s(2) by (auto simp: finish_manifest_def Let_def bindE_Inr_iff split: option.splits) blast
  have "kind \<in> {''class'', ''namespace''}" "package_identifier en"
    using m(4) by (auto simp: parse_export_def split: option.splits if_splits)
  moreover have "list_all dependency_ok ds" "distinct (map pd_name ds)"
    using manifest_dependencies [OF m(5)] dependency_names_distinct [OF ok(1)] by auto
  then have "list_all dependency_ok (sort_key pd_name ds)" "distinct (map pd_name (sort_key pd_name ds))"
    by (simp_all add: list_all_iff distinct_map)
  moreover have "list_all library_ok (ms_libraries s)" using m(6) by (rule manifest_libraries)
  ultimately show ?thesis
    using m ok(2) by (auto simp: manifest_ok_def below_root_def [abs_def])
qed

text \<open>C19: a manifest that is read has a name and an export that are identifiers, an exact
  version, a source and library directories inside the package, native library names that
  are no options, and dependencies with exact versions, sorted and without duplicates.\<close>

theorem readManifest_ok:
  assumes "readManifest path root (Some text') = Inr m"
  shows "manifest_ok m \<and> rp_packageRoot m = root"
  using assms by (rule manifest_read)

definition sample_manifest :: string where
  "sample_manifest =
     ''[package]'' @ [newline] @ ''name = '' @ toml_string ''p'' @ [newline] @
     ''version = '' @ toml_string ''1.0.0'' @ [newline] @ ''source = '' @ toml_string ''p.cw'' @ [newline] @
     ''export = '' @ toml_string ''class:P'' @ [newline] @ ''[dependencies]'' @ [newline] @
     ''q = '' @ toml_string ''=2.0.0'' @ [newline]"

lemma sample_manifest_read: "is_ok (readManifest ''m'' ''/p'' (Some sample_manifest))"
  by code_simp

theorem readManifest_ok_witness:
  "\<exists>m. readManifest ''m'' ''/p'' (Some sample_manifest) = Inr m \<and> manifest_ok m"
  using sample_manifest_read readManifest_ok by (auto simp: is_ok_def split: sum.splits)

end
