(* ===== verification/Package_Lock.thy ===== *)
theory Package_Lock
  imports Package_Manifest
begin

text \<open>
  The lock file of a project (\<open>readLockedPolicy\<close> and \<open>readModuleVersionPolicy\<close> of
  \<open>src/PackageRegistry.cpp\<close>): its tables, the consistency checks on the locked packages and
  the depth-first search for cyclic dependencies.
\<close>

record module_version_policy =
  mp_path :: string
  mp_versions :: "(string \<times> string list) list"
  mp_lockedPackages :: "(string \<times> (string \<times> string) list) list"
  mp_lockedDependencies :: "(string \<times> string list) list"

definition lock_message :: "string \<Rightarrow> string \<Rightarrow> string" where
  "lock_message path message =
     path @ '': '' @ message @ ''; run 'cwhip-pkg install' to verify or regenerate the lock''"

definition fail_if :: "bool \<Rightarrow> string \<Rightarrow> string \<Rightarrow> unit outcome" where
  "fail_if bad path message = reject bad (lock_message path message)"

definition lookup :: "'a \<Rightarrow> (string \<times> 'a) list \<Rightarrow> string \<Rightarrow> 'a" where
  "lookup default' entries key = (case map_of entries key of None \<Rightarrow> default' | Some v \<Rightarrow> v)"

subsection \<open>The lines\<close>

record lock_state =
  ls_section :: string
  ls_sections :: "string list"
  ls_keys :: "string list"
  ls_metadata :: "(string \<times> string) list"
  ls_policy :: module_version_policy

definition lock_table :: "string \<Rightarrow> string \<Rightarrow> lock_state \<Rightarrow> lock_state outcome" where
  "lock_table path line s =
     (let section = trim (substr line 1 (length line - 2))
      in afterE (fail_if (section \<noteq> ''modules'' \<and>
             \<not> (starts_with ''packages.'' section \<and> package_identifier (drop 9 section)))
             path (''unsupported lock table ['' @ section @ '']''))
         (afterE (fail_if (section \<in> set (ls_sections s)) path (''duplicate lock table ['' @ section @ '']''))
         (Inr (s\<lparr>ls_section := section, ls_sections := section # ls_sections s\<rparr>))))"

definition lock_metadata :: "string \<Rightarrow> nat \<Rightarrow> string \<Rightarrow> string \<Rightarrow> lock_state \<Rightarrow> lock_state outcome" where
  "lock_metadata path number key value' s =
     (if key = ''schema'' then
        afterE (fail_if (value' \<noteq> ''1'') path ''unsupported lock schema'')
          (Inr (s\<lparr>ls_metadata := map_put key value' (ls_metadata s)\<rparr>))
      else if key = ''manifest-sha256'' then
        bindE (parseQuotedString value' path number) (\<lambda>v.
          Inr (s\<lparr>ls_metadata := map_put key v (ls_metadata s)\<rparr>))
      else Inl (lock_message path (''unknown lock metadata '' @ quoted key)))"

definition lock_module ::
  "string \<Rightarrow> nat \<Rightarrow> string \<Rightarrow> string \<Rightarrow> module_version_policy \<Rightarrow> module_version_policy outcome" where
  "lock_module path number key value' p =
     afterE (fail_if (\<not> package_identifier key) path ''invalid module identifier'')
     (bindE (parseStringArray value' path number) (\<lambda>versions.
      afterE (fail_if (length versions \<noteq> 1 \<or> parseVersion (hd versions) = None) path
          ''locked modules require exactly one exact SemVer version'')
        (Inr (p\<lparr>mp_versions := map_put key versions (mp_versions p)\<rparr>))))"

definition lock_package ::
  "string \<Rightarrow> nat \<Rightarrow> string \<Rightarrow> string \<Rightarrow> string \<Rightarrow> module_version_policy \<Rightarrow> module_version_policy outcome" where
  "lock_package path number name key value' p =
     (if key = ''dependencies'' then
        bindE (parseStringArray value' path number) (\<lambda>v.
          Inr (p\<lparr>mp_lockedDependencies := map_put name v (mp_lockedDependencies p)\<rparr>))
      else if key \<in> {''repo'', ''version'', ''ref'', ''commit'', ''sha256''} then
        bindE (parseQuotedString value' path number) (\<lambda>v.
          Inr (p\<lparr>mp_lockedPackages :=
            map_put name (map_put key v (lookup [] (mp_lockedPackages p) name)) (mp_lockedPackages p)\<rparr>))
      else Inl (lock_message path (''unknown locked package key '' @ quoted key)))"

definition with_policy ::
  "lock_state \<Rightarrow> (module_version_policy \<Rightarrow> module_version_policy outcome) \<Rightarrow> lock_state outcome" where
  "with_policy s f = bindE (f (ls_policy s)) (\<lambda>p. Inr (s\<lparr>ls_policy := p\<rparr>))"

definition lock_entry :: "string \<Rightarrow> nat \<Rightarrow> string \<Rightarrow> lock_state \<Rightarrow> lock_state outcome" where
  "lock_entry path number line s =
     (case str_find (CHR ''='') line 0 of
        None \<Rightarrow> Inl (lock_message path ''expected key = value'')
      | Some equals \<Rightarrow>
          let key = trim (take equals line); value' = trim (drop (equals + 1) line);
              section = ls_section s; unique = section @ ''.'' @ key
          in afterE (fail_if (\<not> bareKey key \<or> unique \<in> set (ls_keys s)) path
                 (''invalid or duplicate key '' @ quoted key))
             (let s = s\<lparr>ls_keys := unique # ls_keys s\<rparr>
              in if section = [] then lock_metadata path number key value' s
                 else if section = ''modules'' then with_policy s (lock_module path number key value')
                 else with_policy s (lock_package path number (drop 9 section) key value')))"

definition lock_line :: "string \<Rightarrow> nat \<times> string \<Rightarrow> lock_state \<Rightarrow> lock_state outcome" where
  "lock_line path numbered s =
     (case numbered of (number, line) \<Rightarrow>
        if hd line = CHR ''['' \<and> last line = CHR '']'' then lock_table path line s
        else lock_entry path number line s)"

subsection \<open>The checks\<close>

text \<open>The expressions \<open>[0-9a-f]{64}\<close> and \<open>[0-9a-f]{40}|[0-9a-f]{64}\<close>.\<close>

definition lower_hex :: "char \<Rightarrow> bool" where
  "lower_hex c \<longleftrightarrow> is_digit c \<or> between (CHR ''a'') (CHR ''f'') c"

definition hash_text :: "string \<Rightarrow> bool" where
  "hash_text s \<longleftrightarrow> length s = 64 \<and> list_all lower_hex s"

definition commit_text :: "string \<Rightarrow> bool" where
  "commit_text s \<longleftrightarrow> (length s = 40 \<or> length s = 64) \<and> list_all lower_hex s"

definition check_entry ::
  "string \<Rightarrow> string \<Rightarrow> string list \<Rightarrow> (string \<times> string) list \<Rightarrow> unit outcome" where
  "check_entry path name versions entry =
     afterE (fail_if (length entry \<noteq> 5 \<or> map_of entry ''repo'' = None \<or> map_of entry ''ref'' = None \<or>
         map_of entry ''commit'' = None \<or> map_of entry ''sha256'' = None \<or>
         map_of entry ''version'' \<noteq> Some (hd versions) \<or> \<not> hash_text (lookup [] entry ''sha256''))
         path (''invalid locked package '' @ quoted name))
     (if lookup [] entry ''repo'' = ''builtin'' then
        fail_if (lookup [] entry ''ref'' \<noteq> ''builtin'' \<or> lookup [] entry ''commit'' \<noteq> ''builtin'') path
          ''invalid builtin package identity''
      else fail_if (\<not> githubRepository (lookup [] entry ''repo'') \<or>
           \<not> commit_text (lookup [] entry ''commit'') \<or>
           lookup [] entry ''ref'' \<noteq> ''refs/tags/'' @ hd versions) path
         (''invalid repository, ref, or commit for '' @ quoted name))"

definition dependency_name :: "string \<Rightarrow> string" where
  "dependency_name dependency =
     (case str_find (CHR ''='') dependency 0 of None \<Rightarrow> dependency | Some equal \<Rightarrow> take equal dependency)"

definition check_dependency ::
  "string \<Rightarrow> (string \<times> string list) list \<Rightarrow> string \<Rightarrow> string list \<Rightarrow> string list outcome" where
  "check_dependency path versions dependency unique =
     (let target = map_of versions (dependency_name dependency)
      in afterE (fail_if (case str_find (CHR ''='') dependency 0 of
             None \<Rightarrow> True
           | Some equal \<Rightarrow> (case target of
               None \<Rightarrow> True
             | Some vs \<Rightarrow> hd vs \<noteq> drop (equal + 1) dependency \<or> dependency_name dependency \<in> set unique))
           path (''invalid or conflicting locked dependency '' @ quoted dependency))
         (Inr (dependency_name dependency # unique)))"

definition check_module ::
  "string \<Rightarrow> module_version_policy \<Rightarrow> string \<times> string list \<Rightarrow> unit \<Rightarrow> unit outcome" where
  "check_module path p module _ =
     (case module of (name, versions) \<Rightarrow>
        (case map_of (mp_lockedPackages p) name of
           None \<Rightarrow> Inl (lock_message path (''missing locked package '' @ quoted name))
         | Some entry \<Rightarrow> afterE (check_entry path name versions entry)
             (case map_of (mp_lockedDependencies p) name of
                None \<Rightarrow> Inl (lock_message path (''missing dependency list for '' @ quoted name))
              | Some deps \<Rightarrow>
                  bindE (foldE (check_dependency path (mp_versions p)) deps []) (\<lambda>_. Inr ()))))"

subsection \<open>The search for cycles\<close>

text \<open>
  \<open>states[name]\<close> is 0 for a name that was not met, 1 while its dependencies are visited and 2
  afterwards. The fuel bounds the depth of the recursion; \<open>Deep\<close> is never the outcome when it
  exceeds the number of names, as is proved below.
\<close>

datatype search_error = Cyclic string | Deep

type_synonym states = "string \<Rightarrow> nat"

fun visit :: "(string \<Rightarrow> string list) \<Rightarrow> nat \<Rightarrow> string \<Rightarrow> states \<Rightarrow> (search_error, states) result"
  and visit_all :: "(string \<Rightarrow> string list) \<Rightarrow> nat \<Rightarrow> string list \<Rightarrow> states \<Rightarrow> (search_error, states) result"
  where
  "visit deps 0 name states = Inl Deep"
| "visit deps (Suc fuel) name states =
     (if states name = 1 then Inl (Cyclic name)
      else if states name = 2 then Inr states
      else bindE (visit_all deps fuel (deps name) (states(name := 1))) (\<lambda>states. Inr (states(name := 2))))"
| "visit_all deps fuel [] states = Inr states"
| "visit_all deps fuel (name # names) states =
     bindE (visit deps fuel name states) (visit_all deps fuel names)"

definition locked_names :: "module_version_policy \<Rightarrow> string \<Rightarrow> string list" where
  "locked_names p name = map dependency_name (lookup [] (mp_lockedDependencies p) name)"

definition search_message :: "string \<Rightarrow> search_error \<Rightarrow> string" where
  "search_message path e =
     (case e of Cyclic name \<Rightarrow> lock_message path (''cyclic locked dependency involving '' @ quoted name)
      | Deep \<Rightarrow> [])"

definition check_cycles :: "string \<Rightarrow> module_version_policy \<Rightarrow> unit outcome" where
  "check_cycles path p =
     (case visit_all (locked_names p) (length (mp_versions p) + 1) (map fst (mp_versions p)) (\<lambda>_. 0) of
        Inl e \<Rightarrow> Inl (search_message path e) | Inr _ \<Rightarrow> Inr ())"


subsection \<open>The lock\<close>

definition empty_policy :: "string \<Rightarrow> module_version_policy" where
  "empty_policy path =
     \<lparr>mp_path = path, mp_versions = [], mp_lockedPackages = [], mp_lockedDependencies = []\<rparr>"

definition empty_lock_state :: "string \<Rightarrow> lock_state" where
  "empty_lock_state path =
     \<lparr>ls_section = [], ls_sections = [], ls_keys = [], ls_metadata = [], ls_policy = empty_policy path\<rparr>"

definition check_lock :: "string \<Rightarrow> (string, string) result \<Rightarrow> lock_state \<Rightarrow> module_version_policy outcome"
  where
  "check_lock path manifestDigest s =
     (let p = ls_policy s in
      afterE (fail_if (lookup [] (ls_metadata s) ''schema'' \<noteq> ''1'' \<or>
          \<not> hash_text (lookup [] (ls_metadata s) ''manifest-sha256'') \<or>
          ''modules'' \<notin> set (ls_sections s)) path ''missing or invalid lock metadata'')
      (bindE manifestDigest (\<lambda>digest.
      afterE (fail_if (digest \<noteq> lookup [] (ls_metadata s) ''manifest-sha256'') path
          ''stale lockfile: cwhip-pkg.toml has changed'')
      (afterE (fail_if (length (mp_lockedPackages p) \<noteq> length (mp_versions p) \<or>
          length (mp_lockedDependencies p) \<noteq> length (mp_versions p)) path
          ''lock package graph does not match [modules]'')
      (afterE (foldE (check_module path p) (mp_versions p) ())
      (afterE (check_cycles path p) (Inr p)))))))"

text \<open>The text of a lock, checked against the digest of the manifest beside it.\<close>

definition read_lock :: "string \<Rightarrow> string \<Rightarrow> (string, string) result \<Rightarrow> module_version_policy outcome" where
  "read_lock path text' digest =
     bindE (foldE (lock_line path) (text_lines text') (empty_lock_state path)) (check_lock path digest)"

text \<open>
  The lock file and the manifest beside it: the text of the lock (\<open>None\<close> if it cannot be
  opened) and the data of \<open>cwhip-pkg.toml\<close>.
\<close>

definition readLockedPolicy ::
  "string \<Rightarrow> string option \<Rightarrow> string \<Rightarrow> file_data \<Rightarrow> module_version_policy outcome" where
  "readLockedPolicy path input manifestPath manifest =
     (case input of
        None \<Rightarrow> Inl (lock_message path ''cannot open lockfile'')
      | Some text' \<Rightarrow>
          read_lock path text' (packageFileSha256 manifestPath manifest))"

datatype lock_file = Missing | Uninspectable string | NotRegular | LockText "string option"

definition filename :: "string \<Rightarrow> string" where
  "filename path = last (split_on (CHR ''/'') path)"

definition readModuleVersionPolicy ::
  "string \<Rightarrow> lock_file \<Rightarrow> string \<Rightarrow> file_data \<Rightarrow> module_version_policy option outcome" where
  "readModuleVersionPolicy path lock manifestPath manifest =
     (case lock of
        Missing \<Rightarrow> Inr None
      | Uninspectable message \<Rightarrow>
          Inl (''cannot inspect project lock '' @ quoted path @ '': '' @ message)
      | NotRegular \<Rightarrow> Inl (''project lock is not a regular file: '' @ path)
      | LockText input \<Rightarrow>
          if filename path \<noteq> ''cwhip-pkg.lock'' then
            Inl (path @ '': legacy modules.toml package policies are no longer '' @
              ''supported; use cwhip-pkg.toml and cwhip-pkg.lock'')
          else bindE (readLockedPolicy path input manifestPath manifest) (\<lambda>p. Inr (Some p)))"

subsection \<open>Correctness of the search\<close>

text \<open>
  The names the search has finished are closed under dependencies and free of cycles.
\<close>

definition edges :: "(string \<Rightarrow> string list) \<Rightarrow> string set \<Rightarrow> (string \<times> string) set" where
  "edges deps names = {(x, y). x \<in> names \<and> y \<in> set (deps x)}"

definition finished :: "states \<Rightarrow> string set" where
  "finished states = {n. states n = 2}"

definition search_ok :: "(string \<Rightarrow> string list) \<Rightarrow> states \<Rightarrow> bool" where
  "search_ok deps states \<longleftrightarrow>
     edges deps (finished states) `` finished states \<subseteq> finished states \<and>
     acyclic (edges deps (finished states)) \<and> (\<forall>n. states n \<le> 2)"

text \<open>What a visit keeps: names in progress stay so and finished names stay finished.\<close>

definition extends_search :: "states \<Rightarrow> states \<Rightarrow> bool" where
  "extends_search s s' \<longleftrightarrow> (\<forall>n. s n \<noteq> 0 \<longrightarrow> s' n = s n) \<and> (\<forall>n. s n = 0 \<longrightarrow> s' n \<noteq> 1)"

lemma acyclic_insert_node:
  assumes "acyclic (edges deps D)" "edges deps D `` D \<subseteq> D" "n \<notin> D" "set (deps n) \<subseteq> D"
  shows "acyclic (edges deps (insert n D))"
proof -
  have in_D: "b \<in> D" if "(a, b) \<in> (edges deps (insert n D))\<^sup>+" for a b
    using that by (induction rule: trancl.induct) (use assms(2,4) in \<open>auto simp: edges_def\<close>)
  have "(a, b) \<in> (edges deps D)\<^sup>+" if "(a, b) \<in> (edges deps (insert n D))\<^sup>+" "a \<in> D" for a b
    using that
  proof (induction rule: trancl.induct)
    case (r_into_trancl a b)
    then show ?case by (auto simp: edges_def)
  next
    case (trancl_into_trancl a b c)
    then have "b \<in> D" using in_D by blast
    with trancl_into_trancl have "(b, c) \<in> edges deps D" by (auto simp: edges_def)
    with trancl_into_trancl show ?case by (meson trancl.trancl_into_trancl)
  qed
  with in_D assms(1) show ?thesis by (metis acyclic_def)
qed

lemma search_ok_start: "search_ok deps s \<Longrightarrow> s n = 0 \<Longrightarrow> search_ok deps (s(n := 1))"
proof -
  assume "s n = 0"
  then have "finished (s(n := 1)) = finished s" by (auto simp: finished_def)
  then show "search_ok deps s \<Longrightarrow> search_ok deps (s(n := 1))" by (auto simp: search_ok_def)
qed

lemma search_ok_finish:
  assumes "search_ok deps s" "s n \<noteq> 2" "set (deps n) \<subseteq> finished s"
  shows "search_ok deps (s(n := 2))"
proof -
  have f: "finished (s(n := 2)) = insert n (finished s)" by (auto simp: finished_def)
  have "n \<notin> finished s" using assms(2) by (simp add: finished_def)
  with assms have "acyclic (edges deps (insert n (finished s)))"
    by (intro acyclic_insert_node) (auto simp: search_ok_def)
  with assms(1,3) show ?thesis unfolding search_ok_def f by (auto simp: edges_def)
qed

lemma extends_search_trans: "extends_search s t \<Longrightarrow> extends_search t u \<Longrightarrow> extends_search s u"
  unfolding extends_search_def by metis

lemma visit_correct:
  "visit deps fuel name s = Inr s' \<Longrightarrow> search_ok deps s \<Longrightarrow>
     search_ok deps s' \<and> extends_search s s' \<and> s' name = 2"
  "visit_all deps fuel names s = Inr s' \<Longrightarrow> search_ok deps s \<Longrightarrow>
     search_ok deps s' \<and> extends_search s s' \<and> (\<forall>n \<in> set names. s' n = 2)"
proof (induction deps fuel name s and deps fuel names s arbitrary: s' and s' rule: visit_visit_all.induct)
  case (2 deps fuel name s)
  show ?case
  proof (cases "s name = 2")
    case True
    with 2 show ?thesis by (auto simp: extends_search_def)
  next
    case False
    with 2(2) obtain t where t: "s name \<noteq> 1" "visit_all deps fuel (deps name) (s(name := 1)) = Inr t"
        "s' = t(name := 2)"
      by (auto simp: bindE_Inr_iff split: if_splits)
    moreover have "s name \<le> 2" using 2(3) by (simp add: search_ok_def)
    ultimately have n: "s name = 0" using False by linarith
    have "search_ok deps (s(name := 1))" using 2(3) n by (rule search_ok_start)
    from 2(1) [OF t(1) False t(2) this]
    have t': "search_ok deps t" "extends_search (s(name := 1)) t" "\<forall>n \<in> set (deps name). t n = 2"
      by blast+
    then have "t name = 1" by (auto simp: extends_search_def)
    with t' have "search_ok deps s'"
      unfolding t(3) by (intro search_ok_finish) (auto simp: finished_def)
    moreover have "extends_search s s'"
      using t'(2) n t(3) by (auto simp: extends_search_def split: if_splits)
    moreover have "s' name = 2" using t(3) by simp
    ultimately show ?thesis by blast
  qed
next
  case (4 deps fuel name names s)
  then obtain t where t: "visit deps fuel name s = Inr t" "visit_all deps fuel names t = Inr s'"
    by (auto simp: bindE_Inr_iff)
  with 4(1,2,4) have "search_ok deps t \<and> extends_search s t \<and> t name = 2"
    "search_ok deps s' \<and> extends_search t s' \<and> (\<forall>n \<in> set names. s' n = 2)" by auto
  moreover from this have "s' name = 2" by (auto simp: extends_search_def)
  ultimately show ?case using extends_search_trans by auto
qed (auto simp: extends_search_def)

text \<open>The fuel: every visit that goes on turns a name that was not met into one in progress.\<close>

definition unmet :: "string set \<Rightarrow> states \<Rightarrow> nat" where
  "unmet names s = card {n \<in> names. s n = 0}"

definition in_range :: "states \<Rightarrow> bool" where
  "in_range s \<longleftrightarrow> (\<forall>n. s n \<le> 2)"

lemma in_range_upd: "in_range s \<Longrightarrow> k \<le> 2 \<Longrightarrow> in_range (s(n := k))"
  by (simp add: in_range_def)

lemma visit_extends:
  "visit deps fuel name s = Inr s' \<Longrightarrow> in_range s \<Longrightarrow> in_range s' \<and> extends_search s s'"
  "visit_all deps fuel names s = Inr s' \<Longrightarrow> in_range s \<Longrightarrow> in_range s' \<and> extends_search s s'"
proof (induction deps fuel name s and deps fuel names s arbitrary: s' and s' rule: visit_visit_all.induct)
  case (2 deps fuel name s)
  show ?case
  proof (cases "s name = 2")
    case True
    with 2 show ?thesis by (auto simp: extends_search_def)
  next
    case False
    with 2(2) obtain t where t: "s name \<noteq> 1" "visit_all deps fuel (deps name) (s(name := 1)) = Inr t"
        "s' = t(name := 2)"
      by (auto simp: bindE_Inr_iff split: if_splits)
    moreover have "s name \<le> 2" using 2(3) by (simp add: in_range_def)
    ultimately have n: "s name = 0" using False by linarith
    have "in_range (s(name := 1))" using 2(3) by (rule in_range_upd) simp
    from 2(1) [OF t(1) False t(2) this]
    have t': "in_range t" "extends_search (s(name := 1)) t" by blast+
    then have "in_range s'" unfolding t(3) by (intro in_range_upd) auto
    moreover have "extends_search s s'"
      using t'(2) n t(3) by (auto simp: extends_search_def split: if_splits)
    ultimately show ?thesis by blast
  qed
next
  case (4 deps fuel name names s)
  then obtain t where t: "visit deps fuel name s = Inr t" "visit_all deps fuel names t = Inr s'"
    by (auto simp: bindE_Inr_iff)
  with 4(1,2,4) show ?case using extends_search_trans by blast
qed (auto simp: extends_search_def)

lemma unmet_le: "finite names \<Longrightarrow> extends_search s s' \<Longrightarrow> unmet names s' \<le> unmet names s"
  unfolding unmet_def extends_search_def by (intro card_mono) auto

lemma unmet_start: "finite names \<Longrightarrow> n \<in> names \<Longrightarrow> s n = 0 \<Longrightarrow> unmet names (s(n := 1)) < unmet names s"
  unfolding unmet_def by (intro psubset_card_mono) auto

text \<open>With fuel for every name, a search ends with all names finished or with a cycle.\<close>

lemma visit_not_deep:
  "finite U \<Longrightarrow> (\<And>n. n \<in> U \<Longrightarrow> set (deps n) \<subseteq> U) \<Longrightarrow> name \<in> U \<Longrightarrow> in_range s \<Longrightarrow>
     unmet U s < fuel \<Longrightarrow> visit deps fuel name s \<noteq> Inl Deep"
  "finite U \<Longrightarrow> (\<And>n. n \<in> U \<Longrightarrow> set (deps n) \<subseteq> U) \<Longrightarrow> set names \<subseteq> U \<Longrightarrow> in_range s \<Longrightarrow>
     unmet U s < fuel \<or> names = [] \<Longrightarrow> visit_all deps fuel names s \<noteq> Inl Deep"
proof (induction deps fuel name s and deps fuel names s rule: visit_visit_all.induct)
  case (2 deps fuel name s)
  show ?case
  proof (cases "s name = 1 \<or> s name = 2")
    case False
    then have "s name = 0" using 2(5) by (auto simp: in_range_def le_Suc_eq numeral_2_eq_2)
    with 2(2,4,6) have "unmet U (s(name := 1)) < fuel" using unmet_start [of U name s] by simp
    moreover have "in_range (s(name := 1))" using 2(5) by (rule in_range_upd) simp
    ultimately have "visit_all deps fuel (deps name) (s(name := 1)) \<noteq> Inl Deep"
      using False 2(1) 2(2) 2(3) 2(4) by blast
    with False show ?thesis by (auto simp: bindE_Inl_iff)
  qed auto
next
  case (4 deps fuel name names s)
  have first: "visit deps fuel name s \<noteq> Inl Deep" using 4 by auto
  show ?case
  proof (cases "visit deps fuel name s")
    case (Inr t)
    with 4(6) have "in_range t" "extends_search s t" using visit_extends(1) by blast+
    with 4(3,7) have "unmet U t < fuel" using unmet_le by (metis list.distinct(1) le_less_trans)
    with Inr 4 \<open>in_range t\<close> show ?thesis by auto
  qed (use first in auto)
qed auto

text \<open>A name that is met again while it is in progress lies on a cycle.\<close>

lemma visit_cyclic:
  "visit deps fuel name s = Inl (Cyclic c) \<Longrightarrow> in_range s \<Longrightarrow> name \<in> U \<Longrightarrow>
     (\<And>n. n \<in> U \<Longrightarrow> set (deps n) \<subseteq> U) \<Longrightarrow>
     (\<And>m. s m = 1 \<Longrightarrow> (m, name) \<in> (edges deps U)\<^sup>+) \<Longrightarrow> (c, c) \<in> (edges deps U)\<^sup>+"
  "visit_all deps fuel names s = Inl (Cyclic c) \<Longrightarrow> in_range s \<Longrightarrow> set names \<subseteq> U \<Longrightarrow>
     (\<And>n. n \<in> U \<Longrightarrow> set (deps n) \<subseteq> U) \<Longrightarrow>
     (\<And>m n. s m = 1 \<Longrightarrow> n \<in> set names \<Longrightarrow> (m, n) \<in> (edges deps U)\<^sup>+) \<Longrightarrow> (c, c) \<in> (edges deps U)\<^sup>+"
proof (induction deps fuel name s and deps fuel names s rule: visit_visit_all.induct)
  case (2 deps fuel name s)
  show ?case
  proof (cases "s name = 1")
    case True
    with 2(2,6) show ?thesis by auto
  next
    case False
    with 2(2) have n: "s name \<noteq> 2" "visit_all deps fuel (deps name) (s(name := 1)) = Inl (Cyclic c)"
      by (auto simp: bindE_Inl_iff split: if_splits)
    have "in_range (s(name := 1))" using 2(3) by (rule in_range_upd) simp
    moreover have "(m, n) \<in> (edges deps U)\<^sup>+" if "(s(name := 1)) m = 1" "n \<in> set (deps name)" for m n
    proof (cases "m = name")
      case True
      with that 2(4) show ?thesis by (auto simp: edges_def)
    next
      case False
      with that have "(m, name) \<in> (edges deps U)\<^sup>+" using 2(6) by simp
      moreover have "(name, n) \<in> edges deps U" using that 2(4) by (auto simp: edges_def)
      ultimately show ?thesis by (rule trancl.trancl_into_trancl)
    qed
    ultimately show ?thesis using 2(1) [OF False n] 2(4,5) by blast
  qed
next
  case (4 deps fuel name names s)
  show ?case
  proof (cases "visit deps fuel name s")
    case (Inl e)
    with 4(3) have "visit deps fuel name s = Inl (Cyclic c)" by simp
    with 4 show ?thesis by auto
  next
    case (Inr t)
    with 4(4) have t: "in_range t" "extends_search s t" using visit_extends(1) by blast+
    then have "s m = 1" if "t m = 1" for m using that by (metis extends_search_def)
    moreover have "visit_all deps fuel names t = Inl (Cyclic c)" using 4(3) Inr by simp
    ultimately show ?thesis using 4(2) [OF _ t(1)] 4(5,6,7) by auto
  qed
qed auto

subsection \<open>The dependency graph of a lock\<close>

definition lock_closed :: "module_version_policy \<Rightarrow> bool" where
  "lock_closed p \<longleftrightarrow> (\<forall>n \<in> fst ` set (mp_versions p). set (locked_names p n) \<subseteq> fst ` set (mp_versions p))"

abbreviation lock_edges :: "module_version_policy \<Rightarrow> (string \<times> string) set" where
  "lock_edges p \<equiv> edges (locked_names p) (fst ` set (mp_versions p))"

lemma search_ok_new: "search_ok deps (\<lambda>_. 0)"
  by (simp add: search_ok_def finished_def edges_def acyclic_def)

lemma check_cycles_Inr:
  assumes "check_cycles path p = Inr ()"
  shows "acyclic (lock_edges p)"
proof -
  let ?names = "map fst (mp_versions p)"
  obtain t where t: "visit_all (locked_names p) (length (mp_versions p) + 1) ?names (\<lambda>_. 0) = Inr t"
    using assms by (auto simp: check_cycles_def split: sum.splits)
  from visit_correct(2) [OF t search_ok_new]
  have "search_ok (locked_names p) t" "\<forall>n \<in> set ?names. t n = 2" by blast+
  then have "acyclic (edges (locked_names p) (finished t))" "set ?names \<subseteq> finished t"
    by (auto simp: search_ok_def finished_def)
  moreover from this have "lock_edges p \<subseteq> edges (locked_names p) (finished t)"
    by (auto simp: edges_def)
  ultimately show ?thesis using acyclic_subset by blast
qed

lemma check_cycles_Inl:
  assumes "lock_closed p" "check_cycles path p = Inl e"
  shows "\<exists>c. e = lock_message path (''cyclic locked dependency involving '' @ quoted c) \<and>
     (c, c) \<in> (lock_edges p)\<^sup>+"
proof -
  let ?U = "fst ` set (mp_versions p)" and ?names = "map fst (mp_versions p)"
  let ?run = "visit_all (locked_names p) (length (mp_versions p) + 1) ?names (\<lambda>_. 0)"
  obtain f where f: "?run = Inl f" "e = search_message path f"
    using assms(2) by (auto simp: check_cycles_def split: sum.splits)
  have closed: "set (locked_names p n) \<subseteq> ?U" if "n \<in> ?U" for n
    using assms(1) that by (auto simp: lock_closed_def)
  have "unmet ?U (\<lambda>_. 0) < length (mp_versions p) + 1"
    using card_length [of ?names] by (simp add: unmet_def)
  then have "?run \<noteq> Inl Deep"
    using visit_not_deep(2) [of ?U "locked_names p" ?names "\<lambda>_. 0"] closed by (simp add: in_range_def)
  with f(1) obtain c where c: "f = Cyclic c" by (cases f) auto
  then have "(c, c) \<in> (lock_edges p)\<^sup>+"
    using f(1) closed by (intro visit_cyclic(2) [of _ _ _ _ _ ?U]) (auto simp: in_range_def)
  moreover have "e = lock_message path (''cyclic locked dependency involving '' @ quoted c)"
    unfolding f(2) c search_message_def search_error.case ..
  ultimately show ?thesis by blast
qed

text \<open>
  C13: The search for cycles of a lock whose dependencies name locked modules always ends: with
  success exactly when the dependency relation is acyclic, and otherwise with the message that
  names a module on a cycle.
\<close>

theorem check_cycles_decides:
  assumes "lock_closed p"
  shows "check_cycles path p = Inr () \<and> acyclic (lock_edges p) \<or>
    (\<exists>c. check_cycles path p = Inl (lock_message path (''cyclic locked dependency involving '' @ quoted c)) \<and>
      (c, c) \<in> (lock_edges p)\<^sup>+)"
proof (cases "check_cycles path p")
  case (Inl e)
  with check_cycles_Inl [OF assms Inl] show ?thesis by metis
next
  case (Inr u)
  then have "check_cycles path p = Inr ()" by simp
  with check_cycles_Inr show ?thesis by blast
qed

definition looped_policy :: module_version_policy where
  "looped_policy = (empty_policy [])\<lparr>mp_versions := [(''a'', [''1.0.0'']), (''b'', [''2.0.0''])],
     mp_lockedDependencies := [(''a'', [''b=2.0.0'']), (''b'', [''a=1.0.0''])]\<rparr>"

lemma looped_policy_run:
  "check_cycles [] looped_policy = Inl (lock_message [] (''cyclic locked dependency involving '' @ quoted ''a''))"
  by code_simp

lemma check_cycles_decides_witness:
  "\<exists>c. check_cycles [] looped_policy =
     Inl (lock_message [] (''cyclic locked dependency involving '' @ quoted c)) \<and>
     (c, c) \<in> (lock_edges looped_policy)\<^sup>+"
proof -
  have "lock_closed looped_policy" by code_simp
  from check_cycles_decides [OF this, of "[]"] show ?thesis by (simp add: looped_policy_run)
qed

subsection \<open>What a lock that is read guarantees\<close>

definition locked_version :: "string \<times> string list \<Rightarrow> bool" where
  "locked_version e \<longleftrightarrow> package_identifier (fst e) \<and> length (snd e) = 1 \<and> parseVersion (hd (snd e)) \<noteq> None"

definition keyed :: "(string \<times> 'a) list \<Rightarrow> bool" where
  "keyed entries \<longleftrightarrow> sorted (map fst entries) \<and> distinct (map fst entries)"

lemma keyed_put [simp]: "keyed entries \<Longrightarrow> keyed (map_put k v entries)"
  by (simp add: keyed_def map_put_keys)

definition policy_ok :: "string \<Rightarrow> module_version_policy \<Rightarrow> bool" where
  "policy_ok path p \<longleftrightarrow> mp_path p = path \<and> keyed (mp_versions p) \<and> keyed (mp_lockedPackages p) \<and>
     keyed (mp_lockedDependencies p) \<and>
     list_all locked_version (mp_versions p)"

definition locked_entry :: "string \<Rightarrow> (string \<times> string) list \<Rightarrow> bool" where
  "locked_entry version entry \<longleftrightarrow> length entry = 5 \<and> map_of entry ''version'' = Some version \<and>
     (\<exists>repo ref commit sha. map_of entry ''repo'' = Some repo \<and> map_of entry ''ref'' = Some ref \<and>
       map_of entry ''commit'' = Some commit \<and> map_of entry ''sha256'' = Some sha \<and> hash_text sha \<and>
       (if repo = ''builtin'' then ref = ''builtin'' \<and> commit = ''builtin''
        else githubRepository repo \<and> commit_text commit \<and> ref = ''refs/tags/'' @ version))"

definition locked_dependency :: "(string \<times> string list) list \<Rightarrow> string \<Rightarrow> bool" where
  "locked_dependency versions dependency \<longleftrightarrow>
     (\<exists>selected. dependency = dependency_name dependency @ ''='' @ hd selected \<and>
       map_of versions (dependency_name dependency) = Some selected)"

definition locked_module :: "module_version_policy \<Rightarrow> string \<times> string list \<Rightarrow> bool" where
  "locked_module p module \<longleftrightarrow>
     (\<exists>entry deps. map_of (mp_lockedPackages p) (fst module) = Some entry \<and>
       locked_entry (hd (snd module)) entry \<and>
       map_of (mp_lockedDependencies p) (fst module) = Some deps \<and>
       distinct (map dependency_name deps) \<and> list_all (locked_dependency (mp_versions p)) deps)"

definition lock_ok :: "module_version_policy \<Rightarrow> bool" where
  "lock_ok p \<longleftrightarrow> list_all locked_version (mp_versions p) \<and> list_all (locked_module p) (mp_versions p) \<and>
     fst ` set (mp_lockedPackages p) = fst ` set (mp_versions p) \<and>
     fst ` set (mp_lockedDependencies p) = fst ` set (mp_versions p) \<and> acyclic (lock_edges p)"

lemma fail_if_Inr [simp]: "fail_if b path m = Inr u \<longleftrightarrow> \<not> b"
  by (simp add: fail_if_def)

lemma map_put_all: "list_all P es \<Longrightarrow> P (k, v) \<Longrightarrow> list_all P (map_put k v es)"
  by (auto simp: map_put_def list_all_iff set_insort_key)

lemma lock_module_ok:
  "lock_module path number key v p = Inr p' \<Longrightarrow> policy_ok path p \<Longrightarrow> policy_ok path p'"
  by (auto simp: lock_module_def bindE_Inr_iff policy_ok_def locked_version_def intro!: map_put_all)

lemma lock_package_ok:
  "lock_package path number name key v p = Inr p' \<Longrightarrow> policy_ok path p \<Longrightarrow> policy_ok path p'"
  by (auto simp: lock_package_def bindE_Inr_iff policy_ok_def split: if_splits)

lemma lock_metadata_policy: "lock_metadata path number key v s = Inr s' \<Longrightarrow> ls_policy s' = ls_policy s"
  by (auto simp: lock_metadata_def bindE_Inr_iff split: if_splits)

lemma with_policy_Inr:
  "with_policy s f = Inr s' \<longleftrightarrow> (\<exists>p. f (ls_policy s) = Inr p \<and> s' = s\<lparr>ls_policy := p\<rparr>)"
  by (auto simp: with_policy_def bindE_Inr_iff)

lemma lock_entry_policy:
  assumes "lock_entry path number line s = Inr s'"
  obtains "ls_policy s' = ls_policy s"
    | key v where "lock_module path number key v (ls_policy s) = Inr (ls_policy s')"
    | key v name where "lock_package path number name key v (ls_policy s) = Inr (ls_policy s')"
proof (cases "str_find (CHR ''='') line 0")
  case None
  with assms show ?thesis by (simp add: lock_entry_def)
next
  case (Some equals)
  define key v where "key = trim (take equals line)" and "v = trim (drop (equals + 1) line)"
  define t where "t = s\<lparr>ls_keys := (ls_section s @ ''.'' @ key) # ls_keys s\<rparr>"
  have t: "ls_policy t = ls_policy s" by (simp add: t_def)
  from assms have "(if ls_section s = [] then lock_metadata path number key v t
      else if ls_section s = ''modules'' then with_policy t (lock_module path number key v)
      else with_policy t (lock_package path number (drop 9 (ls_section s)) key v)) = Inr s'"
    unfolding lock_entry_def Some option.case Let_def bindE_Inr_iff key_def v_def t_def
    by (elim exE conjE) assumption
  then consider "lock_metadata path number key v t = Inr s'"
    | "with_policy t (lock_module path number key v) = Inr s'"
    | "with_policy t (lock_package path number (drop 9 (ls_section s)) key v) = Inr s'"
    by presburger
  then show ?thesis
  proof cases
    case 1
    with that(1) t lock_metadata_policy show ?thesis by metis
  next
    case 2
    with that(2) t show ?thesis by (auto simp: with_policy_Inr)
  next
    case 3
    with that(3) t show ?thesis by (auto simp: with_policy_Inr)
  qed
qed

lemma lock_line_ok:
  assumes "lock_line path l s = Inr s'" "policy_ok path (ls_policy s)"
  shows "policy_ok path (ls_policy s')"
proof (cases l)
  case (Pair number line)
  show ?thesis
  proof (cases "hd line = CHR ''['' \<and> last line = CHR '']''")
    case True
    with assms Pair show ?thesis
      by (auto simp: lock_line_def lock_table_def bindE_Inr_iff Let_def)
  next
    case False
    with assms(1) Pair have "lock_entry path number line s = Inr s'" by (simp add: lock_line_def)
    then show ?thesis
      by (rule lock_entry_policy) (use assms(2) in \<open>auto intro: lock_module_ok lock_package_ok\<close>)
  qed
qed

lemma check_dependency_Inr:
  "check_dependency path versions d unique = Inr unique' \<longleftrightarrow>
     locked_dependency versions d \<and> dependency_name d \<notin> set unique \<and> unique' = dependency_name d # unique"
proof (cases "str_find (CHR ''='') d 0")
  case None
  then have "d \<noteq> dependency_name d @ ''='' @ v" for v by (simp add: dependency_name_def)
  with None show ?thesis
    by (auto simp: check_dependency_def bindE_Inr_iff Let_def locked_dependency_def)
next
  case (Some equal)
  then have "d = take equal d @ ''='' @ drop (equal + 1) d"
    using str_find_Some by (metis add.commute append_Cons append_Nil id_take_nth_drop plus_1_eq_Suc)
  then have "d = take equal d @ ''='' @ v \<longleftrightarrow> v = drop (equal + 1) d" for v
    by (metis same_append_eq)
  with Some have "d = dependency_name d @ ''='' @ v \<longleftrightarrow> v = drop (equal + 1) d" for v
    by (simp add: dependency_name_def)
  with Some show ?thesis
    by (auto simp: check_dependency_def bindE_Inr_iff Let_def locked_dependency_def split: option.splits)
qed

lemma check_dependencies:
  "foldE (check_dependency path versions) deps unique = Inr u \<Longrightarrow>
     list_all (locked_dependency versions) deps \<and> distinct (map dependency_name deps) \<and>
     dependency_name ` set deps \<inter> set unique = {}"
proof (induction deps arbitrary: unique)
  case (Cons d deps)
  then have d: "locked_dependency versions d" "dependency_name d \<notin> set unique"
      "foldE (check_dependency path versions) deps (dependency_name d # unique) = Inr u"
    by (auto simp: bindE_Inr_iff check_dependency_Inr)
  with Cons.IH [OF d(3)] show ?case by auto
qed simp

lemma check_entry_Inr:
  "check_entry path name versions entry = Inr u \<Longrightarrow> locked_entry (hd versions) entry"
  by (auto simp: check_entry_def bindE_Inr_iff locked_entry_def lookup_def split: if_splits)

lemma check_module_Inr:
  assumes "check_module path p module u = Inr u'"
  shows "locked_module p module"
  using assms check_entry_Inr check_dependencies
  by (cases module) (auto simp: check_module_def bindE_Inr_iff locked_module_def split: option.splits; blast)

lemma check_modules:
  "foldE (check_module path p) ms () = Inr u \<Longrightarrow> list_all (locked_module p) ms"
  by (induction ms) (auto simp: bindE_Inr_iff intro: check_module_Inr)

text \<open>As many packages as modules, one for every module: the same names.\<close>

lemma same_names:
  assumes "keyed es" "keyed vs" "length es = length vs" "\<And>n. n \<in> fst ` set vs \<Longrightarrow> map_of es n \<noteq> None"
  shows "fst ` set es = fst ` set vs"
proof -
  have "fst ` set vs \<subseteq> fst ` set es" using assms(4) by (auto simp: map_of_eq_None_iff)
  moreover have "card (fst ` set vs) = length vs" "card (fst ` set es) = length es"
    using assms(1,2) distinct_card [of "map fst vs"] distinct_card [of "map fst es"]
    by (simp_all add: keyed_def)
  ultimately show ?thesis using assms(3) by (metis card_subset_eq finite_imageI finite_set)
qed

lemma locked_module_entries:
  assumes "list_all (locked_module p) (mp_versions p)" "n \<in> fst ` set (mp_versions p)"
  shows "map_of (mp_lockedPackages p) n \<noteq> None" "map_of (mp_lockedDependencies p) n \<noteq> None"
  using assms by (auto simp: list_all_iff locked_module_def)

text \<open>
  C18: A lock that is read has one exact version, one package with a digest, a repository and
  a commit, and one dependency list for every locked module, and nothing else; every dependency
  names a locked module with the version selected for it; and no module depends on itself,
  directly or through others.
\<close>

theorem read_lock_ok:
  assumes "read_lock path text' digest = Inr p"
  shows "lock_ok p \<and> mp_path p = path"
proof -
  obtain s where s: "foldE (lock_line path) (text_lines text') (empty_lock_state path) = Inr s"
      "check_lock path digest s = Inr p"
    using assms by (auto simp: read_lock_def bindE_Inr_iff)
  have "policy_ok path (ls_policy s)"
    using s(1)
  proof (rule foldE_invariant)
    show "policy_ok path (ls_policy (empty_lock_state path))"
      by (simp add: policy_ok_def empty_lock_state_def empty_policy_def keyed_def)
  qed (rule lock_line_ok)
  moreover have p: "p = ls_policy s" "length (mp_lockedPackages p) = length (mp_versions p)"
      "length (mp_lockedDependencies p) = length (mp_versions p)"
      "foldE (check_module path p) (mp_versions p) () = Inr ()" "check_cycles path p = Inr ()"
    using s(2) by (auto simp: check_lock_def bindE_Inr_iff Let_def)
  ultimately have ok: "policy_ok path p" by simp
  have modules: "list_all (locked_module p) (mp_versions p)" using p(4) by (rule check_modules)
  have keyed: "keyed (mp_versions p)" "keyed (mp_lockedPackages p)" "keyed (mp_lockedDependencies p)"
    using ok by (simp_all add: policy_ok_def)
  have "fst ` set (mp_lockedPackages p) = fst ` set (mp_versions p)"
    using keyed(2,1) p(2) locked_module_entries(1) [OF modules] by (rule same_names)
  moreover have "fst ` set (mp_lockedDependencies p) = fst ` set (mp_versions p)"
    using keyed(3,1) p(3) locked_module_entries(2) [OF modules] by (rule same_names)
  ultimately show ?thesis
    using ok modules check_cycles_Inr [OF p(5)] by (auto simp: policy_ok_def lock_ok_def)
qed

definition sample_digest :: string where
  "sample_digest = replicate 64 (CHR ''0'')"

definition sample_lock :: string where
  "sample_lock =
     ''schema = 1'' @ [newline] @ ''manifest-sha256 = '' @ toml_string sample_digest @ [newline] @
     ''[modules]'' @ [newline] @
     ''a = ['' @ toml_string ''1.0.0'' @ '']'' @ [newline] @
     ''b = ['' @ toml_string ''2.0.0'' @ '']'' @ [newline] @
     ''[packages.a]'' @ [newline] @
     ''repo = '' @ toml_string ''builtin'' @ [newline] @ ''ref = '' @ toml_string ''builtin'' @ [newline] @
     ''commit = '' @ toml_string ''builtin'' @ [newline] @ ''version = '' @ toml_string ''1.0.0'' @ [newline] @
     ''sha256 = '' @ toml_string sample_digest @ [newline] @
     ''dependencies = ['' @ toml_string ''b=2.0.0'' @ '']'' @ [newline] @
     ''[packages.b]'' @ [newline] @ ''repo = '' @ toml_string ''o/b'' @ [newline] @
     ''ref = '' @ toml_string ''refs/tags/2.0.0'' @ [newline] @
     ''commit = '' @ toml_string (replicate 40 (CHR ''a'')) @ [newline] @
     ''version = '' @ toml_string ''2.0.0'' @ [newline] @ ''sha256 = '' @ toml_string sample_digest @ [newline] @
     ''dependencies = []'' @ [newline]"

lemma sample_lock_read: "is_ok (read_lock ''l'' sample_lock (Inr sample_digest))"
  by code_simp

theorem read_lock_ok_witness:
  "\<exists>p. read_lock ''l'' sample_lock (Inr sample_digest) = Inr p \<and> lock_ok p"
  using sample_lock_read read_lock_ok by (auto simp: is_ok_def split: sum.splits)

end
