(* ===== verification/Version_Order.thy ===== *)
theory Version_Order
  imports Package_Version
begin

text \<open>
  The precedence of Semantic Versioning 2.0.0 as a linear order on keys, and that
  \<open>compareVersion\<close> computes it on the versions \<open>parseVersion\<close> accepts.
\<close>

subsection \<open>The order of identifiers\<close>

datatype part_key = Numeric nat | Alphanumeric string

instantiation part_key :: linorder
begin

fun less_part_key :: "part_key \<Rightarrow> part_key \<Rightarrow> bool" where
  "less_part_key (Numeric m) (Numeric n) \<longleftrightarrow> m < n"
| "less_part_key (Numeric m) (Alphanumeric t) \<longleftrightarrow> True"
| "less_part_key (Alphanumeric s) (Numeric n) \<longleftrightarrow> False"
| "less_part_key (Alphanumeric s) (Alphanumeric t) \<longleftrightarrow> s < t"

definition less_eq_part_key :: "part_key \<Rightarrow> part_key \<Rightarrow> bool" where
  "less_eq_part_key x y \<longleftrightarrow> x < y \<or> x = y"

instance
proof
  fix x y z :: part_key
  show "x < y \<longleftrightarrow> x \<le> y \<and> \<not> y \<le> x"
    by (cases x; cases y) (auto simp: less_eq_part_key_def)
  show "x \<le> x" by (simp add: less_eq_part_key_def)
  show "x \<le> y \<Longrightarrow> y \<le> z \<Longrightarrow> x \<le> z"
    by (cases x; cases y; cases z) (auto simp: less_eq_part_key_def)
  show "x \<le> y \<Longrightarrow> y \<le> x \<Longrightarrow> x = y"
    by (cases x; cases y) (auto simp: less_eq_part_key_def)
  show "x \<le> y \<or> y \<le> x"
    by (cases x; cases y) (auto simp: less_eq_part_key_def)
qed

end

definition part_of :: "string \<Rightarrow> part_key" where
  "part_of s = (if list_all is_digit s then Numeric (of_decimal s) else Alphanumeric s)"

definition parts_of :: "string \<Rightarrow> part_key list" where
  "parts_of s = (if s = [] then [] else map part_of (split_on (CHR ''.'') s))"

text \<open>A release comes after its prereleases; build metadata does not count.\<close>

definition version_key :: "version \<Rightarrow> nat \<times> nat \<times> nat \<times> bool \<times> part_key list" where
  "version_key v =
     (of_decimal (vn_major v), of_decimal (vn_minor v), of_decimal (vn_patch v),
      vn_prerelease v = [], parts_of (vn_prerelease v))"

definition three_way :: "'a::linorder \<Rightarrow> 'a \<Rightarrow> int" where
  "three_way x y = (if x < y then -1 else if x = y then 0 else 1)"

definition valid_version :: "version \<Rightarrow> bool" where
  "valid_version v \<longleftrightarrow> validCoreNumber (vn_major v) \<and> validCoreNumber (vn_minor v) \<and>
     validCoreNumber (vn_patch v) \<and>
     (vn_prerelease v \<noteq> [] \<longrightarrow> valid_parts True (vn_prerelease v)) \<and>
     (vn_build v \<noteq> [] \<longrightarrow> valid_parts False (vn_build v))"

subsection \<open>Numerals\<close>

lemma foldl_decimal:
  "foldl (\<lambda>n c. 10 * n + digit_value c) a s =
     a * 10 ^ length s + foldl (\<lambda>n c. 10 * n + digit_value c) 0 s"
proof (induction s arbitrary: a)
  case (Cons c s)
  show ?case
    using Cons.IH [of "10 * a + digit_value c"] Cons.IH [of "digit_value c"]
    by (simp add: distrib_right)
qed simp

lemma of_decimal_Cons: "of_decimal (c # s) = digit_value c * 10 ^ length s + of_decimal s"
  using foldl_decimal [of "digit_value c" s] by (simp add: of_decimal_def)

lemma digit_value_less: "is_digit c \<Longrightarrow> digit_value c < 10"
  by (auto simp: digit_value_def is_digit_byte)

lemma of_decimal_less: "list_all is_digit s \<Longrightarrow> of_decimal s < 10 ^ length s"
proof (induction s)
  case (Cons c s)
  then have "digit_value c \<le> 9" using digit_value_less [of c] by simp
  then have "digit_value c * 10 ^ length s \<le> 9 * 10 ^ length s" by (rule mult_right_mono) simp
  moreover have "of_decimal s < 10 ^ length s" using Cons by simp
  ultimately show ?case unfolding of_decimal_Cons length_Cons power_Suc by linarith
qed (simp add: of_decimal_def)

lemma digit_value_order:
  "is_digit c \<Longrightarrow> is_digit d \<Longrightarrow> digit_value c < digit_value d \<longleftrightarrow> c < d"
  "is_digit c \<Longrightarrow> is_digit d \<Longrightarrow> digit_value c = digit_value d \<longleftrightarrow> c = d"
  by (auto simp: digit_value_def is_digit_byte char_less_iff char_eq_iff_byte simp del: of_char_eq_iff)

lemma scaled_less:
  assumes "x < (b::nat)" "y < b"
  shows "m * b + x < n * b + y \<longleftrightarrow> m < n \<or> m = n \<and> x < y"
proof -
  have "m * b + x < n * b + y" if "m < n"
  proof -
    have "Suc m * b \<le> n * b" using that by (intro mult_right_mono) auto
    with assms show ?thesis by simp
  qed
  moreover have "\<not> m * b + x < n * b + y" if "n < m"
  proof -
    have "Suc n * b \<le> m * b" using that by (intro mult_right_mono) auto
    with assms show ?thesis by simp
  qed
  ultimately show ?thesis by (metis nat_add_left_cancel_less nat_neq_iff)
qed

lemma of_decimal_order:
  "length s = length t \<Longrightarrow> list_all is_digit s \<Longrightarrow> list_all is_digit t \<Longrightarrow>
     of_decimal s < of_decimal t \<longleftrightarrow> s < t"
proof (induction s t rule: list_induct2)
  case (Cons c s d t)
  then show ?case
    using scaled_less [of "of_decimal s" "10 ^ length s" "of_decimal t" "digit_value c" "digit_value d"]
      of_decimal_less [of s] of_decimal_less [of t]
    by (auto simp: of_decimal_Cons digit_value_order)
qed simp

lemma of_decimal_longer:
  assumes "length s < length t" "list_all is_digit s" "list_all is_digit t" "hd t \<noteq> CHR ''0''"
  shows "of_decimal s < of_decimal t"
proof -
  obtain d u where t: "t = d # u" using assms(1) by (cases t) auto
  have "digit_value d \<noteq> digit_value CHR ''0''"
    using assms(3,4) t by (subst digit_value_order(2)) (auto simp: is_digit_byte)
  then have "1 \<le> digit_value d" by (simp add: digit_value_def)
  have "of_decimal s < 10 ^ length s" using assms(2) by (rule of_decimal_less)
  also have "\<dots> \<le> 10 ^ length u" using assms(1) t by (intro power_increasing) auto
  also have "\<dots> \<le> of_decimal t"
    using \<open>1 \<le> digit_value d\<close> mult_right_mono [of 1 "digit_value d" "10 ^ length u"]
    unfolding t of_decimal_Cons by linarith
  finally show ?thesis .
qed

text \<open>A numeral without leading zeros.\<close>

definition canonical :: "string \<Rightarrow> bool" where
  "canonical s \<longleftrightarrow> s \<noteq> [] \<and> list_all is_digit s \<and> (length s > 1 \<longrightarrow> hd s \<noteq> CHR ''0'')"

lemma canonical_longer:
  "canonical s \<Longrightarrow> canonical t \<Longrightarrow> length s < length t \<Longrightarrow> of_decimal s < of_decimal t"
  by (rule of_decimal_longer) (cases s; cases t; auto simp: canonical_def)+

lemma compareNumeric_three_way:
  assumes "canonical s" "canonical t"
  shows "compareNumeric s t = three_way (of_decimal s) (of_decimal t)"
    "of_decimal s = of_decimal t \<longleftrightarrow> s = t"
proof -
  have st: "list_all is_digit s" "list_all is_digit t" using assms by (simp_all add: canonical_def)
  consider "length s < length t" | "length t < length s" | "length s = length t" by linarith
  then have "compareNumeric s t = three_way (of_decimal s) (of_decimal t) \<and>
      (of_decimal s = of_decimal t \<longleftrightarrow> s = t)"
  proof cases
    case 1
    with canonical_longer [OF assms] show ?thesis by (auto simp: compareNumeric_def three_way_def)
  next
    case 2
    with canonical_longer [OF assms(2,1)] show ?thesis by (auto simp: compareNumeric_def three_way_def)
  next
    case 3
    note order = of_decimal_order [OF 3 st] of_decimal_order [OF 3 [symmetric] st(2,1)]
    then have "of_decimal s = of_decimal t \<longleftrightarrow> s = t" by (metis linorder_less_linear less_irrefl)
    with 3 order show ?thesis by (auto simp: compareNumeric_def compare_text_def three_way_def)
  qed
  then show "compareNumeric s t = three_way (of_decimal s) (of_decimal t)"
    "of_decimal s = of_decimal t \<longleftrightarrow> s = t" by blast+
qed

lemma canonical_core: "validCoreNumber s \<Longrightarrow> canonical s"
  by (auto simp: validCoreNumber_def canonical_def)

lemma canonical_part: "part_ok True s \<Longrightarrow> list_all is_digit s \<Longrightarrow> canonical s"
  by (auto simp: part_ok_def canonical_def)


subsection \<open>Precedence\<close>

lemma part_key_split:
  "part_of s < part_of t \<longleftrightarrow>
     (if list_all is_digit s then if list_all is_digit t then of_decimal s < of_decimal t else True
      else if list_all is_digit t then False else s < t)"
  by (simp add: part_of_def)

lemma compare_part_three_way:
  assumes "part_ok True s" "part_ok True t"
  shows "compare_part s t = three_way (part_of s) (part_of t)" "part_of s = part_of t \<longleftrightarrow> s = t"
proof -
  have "compare_part s t = three_way (part_of s) (part_of t) \<and> (part_of s = part_of t \<longleftrightarrow> s = t)"
  proof (cases "list_all is_digit s \<and> list_all is_digit t")
    case True
    then have "canonical s" "canonical t" using assms by (simp_all add: canonical_part)
    note n = compareNumeric_three_way [OF this]
    with True show ?thesis by (simp add: compare_part_def part_of_def three_way_def)
  next
    case False
    then show ?thesis
      by (auto simp: compare_part_def part_of_def three_way_def compare_text_def)
  qed
  then show "compare_part s t = three_way (part_of s) (part_of t)" "part_of s = part_of t \<longleftrightarrow> s = t"
    by blast+
qed

lemma cut_split_on:
  "cut c s = (p, None) \<Longrightarrow> split_on c s = [p]"
  "cut c s = (p, Some r) \<Longrightarrow> split_on c s = p # split_on c r \<and> s = p @ c # r"
proof -
  show "cut c s = (p, None) \<Longrightarrow> split_on c s = [p]"
    by (auto simp: cut_def str_find_None split_on_absent split: option.splits)
  assume "cut c s = (p, Some r)"
  then obtain i where i: "str_find c s 0 = Some i" "p = take i s" "r = drop (i + 1) s"
    by (auto simp: cut_def split: option.splits)
  then have "i < length s" "s ! i = c" "c \<notin> set p" using str_find_Some [OF i(1)] by auto
  then have "s = p @ c # r" using i id_take_nth_drop [of i s] by simp
  with \<open>c \<notin> set p\<close> show "split_on c s = p # split_on c r \<and> s = p @ c # r"
    using split_on_prefix by simp
qed

lemma valid_parts_split: "valid_parts b s \<longleftrightarrow> list_all (part_ok b) (split_on (CHR ''.'') s)"
proof (induction b s rule: valid_parts.induct)
  case (1 b s)
  show ?case
  proof (cases "str_find (CHR ''.'') s 0")
    case None
    then have "cut (CHR ''.'') s = (s, None)" by (simp add: cut_def)
    from cut_split_on(1) [OF this] None show ?thesis by (subst valid_parts.simps) simp
  next
    case (Some i)
    then have "cut (CHR ''.'') s = (take i s, Some (drop (i + 1) s))" by (simp add: cut_def)
    from cut_split_on(2) [OF this] Some 1 show ?thesis by (subst valid_parts.simps) simp
  qed
qed

lemma three_way_Cons:
  "three_way (x # xs) (y # ys) = (if three_way x y \<noteq> 0 then three_way x y else three_way xs ys)"
  by (auto simp: three_way_def)

lemma three_way_Nil:
  "three_way [] [] = 0" "ys \<noteq> [] \<Longrightarrow> three_way [] ys = -1" "ys \<noteq> [] \<Longrightarrow> three_way ys [] = 1"
  by (auto simp: three_way_def neq_Nil_conv)

lemma compare_parts_three_way:
  assumes "valid_parts True s" "valid_parts True t"
  shows "compare_parts s t =
    three_way (map part_of (split_on (CHR ''.'') s)) (map part_of (split_on (CHR ''.'') t))"
  using assms
proof (induction s t rule: compare_parts.induct)
  case (1 s t)
  obtain p q s' t' where c: "cut (CHR ''.'') s = (p, s')" "cut (CHR ''.'') t = (q, t')" by fastforce
  have ok: "part_ok True p" "part_ok True q"
    using 1(2,3) c by (cases s'; cases t'; auto simp: valid_parts_split dest!: cut_split_on)+
  note part = compare_part_three_way [OF ok]
  show ?case
  proof (cases "three_way (part_of p) (part_of q) = 0 \<and> s' \<noteq> None \<and> t' \<noteq> None")
    case True
    then obtain r u where r: "s' = Some r" "t' = Some u" by auto
    with c 1(2,3) have "valid_parts True r" "valid_parts True u"
      by (auto simp: valid_parts_split dest!: cut_split_on)
    with 1(1) [OF c(1) [symmetric] _ c(2) [symmetric]] True r c part show ?thesis
      by (subst compare_parts.simps) (auto simp: three_way_Cons dest!: cut_split_on)
  next
    case False
    obtain ps qs where "split_on (CHR ''.'') s = p # ps" "split_on (CHR ''.'') t = q # qs"
      using c by (cases s'; cases t'; auto dest!: cut_split_on)
    with False c part show ?thesis
      by (subst compare_parts.simps, cases s'; cases t')
        (auto simp: three_way_Cons three_way_Nil dest!: cut_split_on)
  qed
qed


lemma parts_of_inject:
  assumes "valid_parts True s" "valid_parts True t"
  shows "map part_of (split_on (CHR ''.'') s) = map part_of (split_on (CHR ''.'') t) \<longleftrightarrow> s = t"
proof
  assume eq: "map part_of (split_on (CHR ''.'') s) = map part_of (split_on (CHR ''.'') t)"
  have "split_on (CHR ''.'') s = split_on (CHR ''.'') t"
    using eq assms compare_part_three_way(2)
    by (intro map_inj_on [OF eq]) (auto simp: inj_on_def valid_parts_split list_all_iff)
  then show "s = t" using join_split_on by metis
qed simp

lemma comparePrerelease_three_way:
  assumes "s \<noteq> [] \<Longrightarrow> valid_parts True s" "t \<noteq> [] \<Longrightarrow> valid_parts True t"
  shows "comparePrerelease s t = three_way (s = [], parts_of s) (t = [], parts_of t)"
proof -
  have pair: "three_way (a, x) (b, y) = (if three_way a b \<noteq> 0 then three_way a b else three_way x y)"
    for a b :: bool and x y :: "part_key list"
    by (auto simp: three_way_def)
  show ?thesis
    using assms compare_parts_three_way [of s t]
    by (auto simp: comparePrerelease_def pair parts_of_def) (auto simp: three_way_def)
qed

lemma three_way_pair:
  "three_way (a, x) (b, y) = (if three_way a b \<noteq> 0 then three_way a b else three_way x y)"
  by (auto simp: three_way_def)

lemma compare_version_key:
  assumes "valid_version l" "valid_version r"
  shows "compareVersion l r = three_way (version_key l) (version_key r)"
proof -
  have "three_way (version_key l) (version_key r) =
      (let a = three_way (of_decimal (vn_major l)) (of_decimal (vn_major r));
           b = three_way (of_decimal (vn_minor l)) (of_decimal (vn_minor r));
           c = three_way (of_decimal (vn_patch l)) (of_decimal (vn_patch r))
       in if a \<noteq> 0 then a else if b \<noteq> 0 then b else if c \<noteq> 0 then c
          else three_way (vn_prerelease l = [], parts_of (vn_prerelease l))
                 (vn_prerelease r = [], parts_of (vn_prerelease r)))"
    by (simp only: version_key_def three_way_pair Let_def)
  then show ?thesis
    using assms by (simp add: compareVersion_def valid_version_def compareNumeric_three_way(1)
        canonical_core comparePrerelease_three_way Let_def)
qed

text \<open>C20: on valid versions the comparison is the precedence of Semantic Versioning: negative,
  zero or positive as the key of the left version is less than, equal to or greater than that
  of the right one, in the lexicographic order of major, minor and patch as numbers, releases
  behind prereleases, numeric identifiers as numbers and below alphanumeric ones.\<close>

theorem compareVersion_precedence:
  assumes "valid_version l" "valid_version r"
  shows "compareVersion l r = three_way (version_key l) (version_key r)"
  using assms by (rule compare_version_key)


subsection \<open>Parsing\<close>

definition version_text :: "version \<Rightarrow> string" where
  "version_text v =
     vn_major v @ ''.'' @ vn_minor v @ ''.'' @ vn_patch v @
     (if vn_prerelease v = [] then [] else ''-'' @ vn_prerelease v) @
     (if vn_build v = [] then [] else ''+'' @ vn_build v)"

lemma str_find_mem: "str_find c s start = Some i \<Longrightarrow> c \<in> set (drop start s)"
  using str_find_None [of c s start] by auto

lemma cut_iff:
  "cut c s = (p, None) \<longleftrightarrow> s = p \<and> c \<notin> set s"
  "cut c s = (p, Some r) \<longleftrightarrow> s = p @ c # r \<and> c \<notin> set p"
proof -
  show "cut c s = (p, None) \<longleftrightarrow> s = p \<and> c \<notin> set s"
    by (auto simp: cut_def str_find_None split: option.splits dest: str_find_mem)
  have "c \<notin> set p" if "cut c s = (p, Some r)"
    using that str_find_Some(4) [of c s 0] by (auto simp: cut_def split: option.splits)
  moreover have "cut c (p @ c # r) = (p, Some r)" if "c \<notin> set p"
    using that by (simp add: cut_def)
  ultimately show "cut c s = (p, Some r) \<longleftrightarrow> s = p @ c # r \<and> c \<notin> set p"
    using cut_split_on(2) [of c s p r] by auto
qed

lemma str_find_drop: "str_find c s start = map_option (\<lambda>i. start + i) (str_find c (drop start s) 0)"
  by (auto simp: str_find_def Let_def)

lemma parse_core_iff:
  "parse_core s = Some (a, b, c) \<longleftrightarrow>
     validCoreNumber a \<and> validCoreNumber b \<and> validCoreNumber c \<and> s = a @ ''.'' @ b @ ''.'' @ c"
proof -
  have digits: "CHR ''.'' \<notin> set n" if "validCoreNumber n" for n
    using that by (auto simp: validCoreNumber_def list_all_iff is_digit_byte)
  have cut: "parse_core s = (case cut (CHR ''.'') s of (a, None) \<Rightarrow> None | (a, Some r) \<Rightarrow>
      (case cut (CHR ''.'') r of (b, None) \<Rightarrow> None | (b, Some c) \<Rightarrow>
        if CHR ''.'' \<in> set c \<or> \<not> validCoreNumber a \<or> \<not> validCoreNumber b \<or> \<not> validCoreNumber c
        then None else Some (a, b, c)))"
    by (auto simp: parse_core_def cut_def str_find_drop [of _ s "Suc _"] str_find_None substr_def
        add.commute split: option.splits dest!: str_find_mem dest: in_set_dropD)
  show ?thesis
  proof
    assume "parse_core s = Some (a, b, c)"
    with cut obtain r where "cut (CHR ''.'') s = (a, Some r)" "cut (CHR ''.'') r = (b, Some c)"
        "validCoreNumber a" "validCoreNumber b" "validCoreNumber c"
      by (auto split: prod.splits option.splits if_splits)
    then show "validCoreNumber a \<and> validCoreNumber b \<and> validCoreNumber c \<and>
        s = a @ ''.'' @ b @ ''.'' @ c"
      by (simp add: cut_iff)
  next
    assume r: "validCoreNumber a \<and> validCoreNumber b \<and> validCoreNumber c \<and>
        s = a @ ''.'' @ b @ ''.'' @ c"
    then have "cut (CHR ''.'') s = (a, Some (b @ ''.'' @ c))"
        "cut (CHR ''.'') (b @ ''.'' @ c) = (b, Some c)"
      using digits by (simp_all add: cut_iff)
    with cut r digits show "parse_core s = Some (a, b, c)" by simp
  qed
qed

lemma valid_parts_chars:
  "valid_parts b s \<Longrightarrow> c \<in> set s \<Longrightarrow> is_alnum c \<or> c = CHR ''-'' \<or> c = CHR ''.''"
proof -
  assume v: "valid_parts b s" and c: "c \<in> set s"
  have "set (join_with [CHR ''.''] ps) \<subseteq> insert (CHR ''.'') (\<Union> (set ` set ps))" for ps
    by (induction "[CHR ''.'']" ps rule: join_with.induct) auto
  from this [of "split_on (CHR ''.'') s"] v c show ?thesis
    by (auto simp: join_split_on valid_parts_split list_all_iff part_ok_def)
qed

lemma valid_parts_nonempty: "valid_parts b s \<Longrightarrow> s \<noteq> []"
  by (auto simp: valid_parts_split part_ok_def)

lemma core_chars: "validCoreNumber n \<Longrightarrow> c \<in> set n \<Longrightarrow> is_digit c"
  by (auto simp: validCoreNumber_def list_all_iff)

lemma parse_version_text:
  "parseVersion t = Some v \<longleftrightarrow> valid_version v \<and> t = version_text v"
proof
  assume p: "parseVersion t = Some v"
  obtain w b where w: "cut (CHR ''+'') t = (w, b)" by fastforce
  obtain core q where core: "cut (CHR ''-'') w = (core, q)" by fastforce
  show "valid_version v \<and> t = version_text v"
    using p w core valid_parts_nonempty
    by (auto simp: parseVersion_def validIdentifiers_def optional_text_def valid_version_def
        version_text_def parse_core_iff cut_iff split: option.splits if_splits)
next
  assume v: "valid_version v \<and> t = version_text v"
  let ?core = "vn_major v @ ''.'' @ vn_minor v @ ''.'' @ vn_patch v"
  let ?pre = "if vn_prerelease v = [] then None else Some (vn_prerelease v)"
  let ?build = "if vn_build v = [] then None else Some (vn_build v)"
  let ?w = "?core @ (if vn_prerelease v = [] then [] else ''-'' @ vn_prerelease v)"
  have digits: "\<not> is_digit CHR ''+''" "\<not> is_digit CHR ''-''" "\<not> is_alnum CHR ''+''" by code_simp+
  have core: "CHR ''+'' \<notin> set ?core" "CHR ''-'' \<notin> set ?core"
    using v core_chars digits by (auto simp: valid_version_def)
  have "CHR ''+'' \<notin> set ?w"
    using v core(1) valid_parts_chars [of True "vn_prerelease v" "CHR ''+''"] digits
    by (auto simp: valid_version_def)
  then have plus: "cut (CHR ''+'') t = (?w, ?build)" using v by (auto simp: version_text_def cut_iff)
  have dash: "cut (CHR ''-'') ?w = (?core, ?pre)" using core(2) by (auto simp: cut_iff)
  have "parse_core ?core = Some (vn_major v, vn_minor v, vn_patch v)"
    using v by (simp only: parse_core_iff valid_version_def)
  with plus dash v show "parseVersion t = Some v"
    by (auto simp: parseVersion_def validIdentifiers_def optional_text_def valid_version_def)
qed

text \<open>C30: the parser accepts exactly the texts of valid versions, and a text determines its
  parts: parsing and printing are inverse.\<close>

theorem parseVersion_iff:
  "parseVersion t = Some v \<longleftrightarrow> valid_version v \<and> t = version_text v"
  by (rule parse_version_text)


definition sample_version :: "string \<Rightarrow> version" where
  "sample_version pre =
     \<lparr>vn_major = ''1'', vn_minor = ''0'', vn_patch = ''12'', vn_prerelease = pre, vn_build = []\<rparr>"

lemma sample_valid:
  "valid_version (sample_version ''alpha.9'')" "valid_version (sample_version ''alpha.10'')"
  by code_simp+

theorem compareVersion_precedence_witness:
  "compareVersion (sample_version ''alpha.9'') (sample_version ''alpha.10'') =
     three_way (version_key (sample_version ''alpha.9'')) (version_key (sample_version ''alpha.10''))"
  by (rule compareVersion_precedence [OF sample_valid])

end
