(* ===== verification/Package_Resolver.thy ===== *)
theory Package_Resolver
  imports Package_Lock Version_Order
begin

text \<open>
  The resolution of packages (the class \<open>Resolver\<close> of \<open>src/PackageRegistry.cpp\<close>): the search
  of the package roots, the selection of a version with and without a lock, the depth-first
  walk through the dependencies and the iteration over version pins.

  The file system does not change while packages are resolved, so it is an argument: the kind
  of a path, the entries of a directory in the order of its iterator with the error that ended
  the iteration, the text of a file and the tree below a directory. The memory of earlier
  searches in \<open>candidates_\<close> is then invisible and left out.
\<close>

datatype status = Absent | RegularFile | RealDirectory | OtherFile | Failing string

record file_system =
  fs_status :: "string \<Rightarrow> status"
  fs_entries :: "string \<Rightarrow> string list \<times> string option"
  fs_text :: "string \<Rightarrow> string option"
  fs_tree :: "string \<Rightarrow> node"

subsection \<open>The candidates\<close>

definition check_library_path ::
  "file_system \<Rightarrow> string \<Rightarrow> string \<Rightarrow> unit \<Rightarrow> unit outcome" where
  "check_library_path fs manifestPath libraryPath _ =
     reject (fs_status fs libraryPath \<noteq> RealDirectory)
       (manifestPath @ '': library path does not exist: '' @ libraryPath)"

definition read_candidate :: "file_system \<Rightarrow> string \<Rightarrow> string \<Rightarrow> string \<Rightarrow> package_manifest outcome" where
  "read_candidate fs name package entry =
     (let manifestPath = below package ''cwhip-package.toml'' in
      bindE (readManifest manifestPath package (fs_text fs manifestPath)) (\<lambda>manifest.
      afterE (reject (rp_name manifest \<noteq> name \<or> rp_version manifest \<noteq> entry)
        (manifestPath @ '': directory must match package name and version''))
      (afterE (reject (fs_status fs (rp_sourcePath manifest) \<noteq> RegularFile)
        (manifestPath @ '': package source does not exist: '' @ rp_sourcePath manifest))
      (afterE (foldE (check_library_path fs manifestPath) (rp_libraryPaths manifest) ())
        (Inr manifest)))))"

definition candidate ::
  "file_system \<Rightarrow> string \<Rightarrow> string \<Rightarrow> string \<Rightarrow> package_manifest list \<Rightarrow> package_manifest list outcome" where
  "candidate fs name directory entry candidates =
     (let package = below directory entry in
      case fs_status fs package of
        Failing message \<Rightarrow> Inl message
      | RealDirectory \<Rightarrow>
          (case fs_status fs (below package ''cwhip-package.toml'') of
             Failing message \<Rightarrow> Inl (''cannot inspect package candidate: '' @ package @ '': '' @ message)
           | RegularFile \<Rightarrow> bindE (read_candidate fs name package entry) (\<lambda>m. Inr (candidates @ [m]))
           | _ \<Rightarrow> Inl (''invalid package candidate at '' @ package @ '': missing cwhip-package.toml''))
      | _ \<Rightarrow> Inr candidates)"

fun scan_roots ::
  "file_system \<Rightarrow> string \<Rightarrow> string list \<Rightarrow> package_manifest list \<Rightarrow> package_manifest list outcome" where
  "scan_roots fs name [] candidates = Inr candidates"
| "scan_roots fs name (root # roots) candidates =
     (let directory = below root name in
      if fs_status fs directory \<noteq> RealDirectory then scan_roots fs name roots candidates
      else bindE (foldE (candidate fs name directory) (fst (fs_entries fs directory)) candidates)
        (\<lambda>found. case snd (fs_entries fs directory) of
           Some message \<Rightarrow> Inl (''cannot scan package directory: '' @ directory @ '': '' @ message)
         | None \<Rightarrow> if length found \<noteq> length candidates then Inr found
             else scan_roots fs name roots found))"

fun ambiguous :: "package_manifest list \<Rightarrow> string option" where
  "ambiguous [] = None"
| "ambiguous (c # cs) =
     (if list_ex (\<lambda>d. rp_version d = rp_version c \<and> pm_signature d \<noteq> pm_signature c) cs
      then Some (rp_version c) else ambiguous cs)"

definition discover :: "file_system \<Rightarrow> string list \<Rightarrow> string \<Rightarrow> package_manifest list outcome" where
  "discover fs roots name =
     bindE (scan_roots fs name roots []) (\<lambda>found.
       let candidates = sort_key rp_version found in
       case ambiguous candidates of
         Some v \<Rightarrow> Inl (''ambiguous package '' @ quoted name @ '' version '' @ quoted v @
           '' appears in multiple search roots'')
       | None \<Rightarrow> Inr candidates)"

subsection \<open>The selection\<close>

fun joined :: "string list \<Rightarrow> string" where
  "joined [] = []"
| "joined [s] = s"
| "joined (s # ss) = s @ '', '' @ joined ss"

text \<open>The roots are joined with a separator before every root but while the text is empty.\<close>

fun joined_roots :: "string \<Rightarrow> string list \<Rightarrow> string" where
  "joined_roots text' [] = text'"
| "joined_roots text' (root # roots) =
     joined_roots ((if text' = [] then [] else text' @ '', '') @ root) roots"

fun first_installed :: "string list \<Rightarrow> package_manifest list \<Rightarrow> package_manifest option" where
  "first_installed [] candidates = None"
| "first_installed (v # vs) candidates =
     (case List.find (\<lambda>c. rp_version c = v) candidates of
        Some c \<Rightarrow> Some c
      | None \<Rightarrow> first_installed vs candidates)"

text \<open>\<open>map.at(key)\<close>\<close>

definition at :: "(string \<times> 'a) list \<Rightarrow> string \<Rightarrow> 'a outcome" where
  "at entries key = (case map_of entries key of None \<Rightarrow> Inl ''map::at'' | Some v \<Rightarrow> Inr v)"

definition pin_text :: "package_dependency \<Rightarrow> string" where
  "pin_text d = pd_name d @ ''='' @ pd_version d"

text \<open>The checks on the package a lock selects.\<close>

definition check_locked ::
  "file_system \<Rightarrow> module_version_policy \<Rightarrow> string \<Rightarrow> string \<Rightarrow> package_manifest \<Rightarrow> package_manifest outcome"
  where
  "check_locked fs p name exact selected =
     afterE (reject (exact \<noteq> [] \<and> rp_version selected \<noteq> exact)
        (''package dependency constraint conflict for '' @ quoted name @
         '': cwhip-pkg.lock selects version '' @ quoted (rp_version selected) @
         '' (first installed configured version), but an exact dependency requires '' @ quoted exact))
     (bindE (at (mp_lockedPackages p) name) (\<lambda>entry.
      bindE (packageTreeSha256 (rp_packageRoot selected) (fs_tree fs (rp_packageRoot selected))) (\<lambda>digest.
      bindE (at entry ''sha256'') (\<lambda>expected.
      afterE (reject (digest \<noteq> expected)
        (''package integrity mismatch for '' @ quoted name @ '' at '' @ rp_packageRoot selected @
         ''; refusing to compile modified locked code''))
      (bindE (at (mp_lockedDependencies p) name) (\<lambda>locked.
      afterE (reject (sort locked \<noteq> map pin_text (rp_dependencies selected))
        (''locked dependency graph mismatch for '' @ quoted name))
      (Inr selected)))))))"

definition select_locked ::
  "file_system \<Rightarrow> string list \<Rightarrow> module_version_policy \<Rightarrow> string \<Rightarrow> string \<Rightarrow> package_manifest outcome" where
  "select_locked fs roots p name exact =
     (case map_of (mp_versions p) name of
        None \<Rightarrow> Inl (''module '' @ quoted name @ '' is not found: it is not listed in '' @ mp_path p @
          '' [modules]; '' @ filename (mp_path p) @ '' is an allowlist'')
      | Some configured \<Rightarrow> bindE (discover fs roots name) (\<lambda>candidates.
          case first_installed configured candidates of
            None \<Rightarrow> Inl (''module '' @ quoted name @ '' has no installed configured version; versions '' @
              ''searched in order: ['' @ joined configured @ '']; module search roots: ['' @
              joined_roots [] roots @ '']'')
          | Some selected \<Rightarrow> check_locked fs p name exact selected))"

text \<open>A candidate has a version that parses, since its manifest was read.\<close>

definition parsed :: "string \<Rightarrow> version" where
  "parsed v = (case parseVersion v of
     Some w \<Rightarrow> w
   | None \<Rightarrow> \<lparr>vn_major = [], vn_minor = [], vn_patch = [], vn_prerelease = [], vn_build = []\<rparr>)"

definition better :: "package_manifest \<Rightarrow> package_manifest option \<Rightarrow> package_manifest option" where
  "better c best =
     (if vn_prerelease (parsed (rp_version c)) = [] \<and>
         (case best of None \<Rightarrow> True
          | Some b \<Rightarrow> compareVersion (parsed (rp_version c)) (parsed (rp_version b)) > 0)
      then Some c else best)"

definition select_open ::
  "file_system \<Rightarrow> string list \<Rightarrow> string \<Rightarrow> string \<Rightarrow> package_manifest outcome" where
  "select_open fs roots name exact =
     bindE (discover fs roots name) (\<lambda>candidates.
       if exact = [] then
         (case fold better candidates None of
            None \<Rightarrow> Inl (''no stable version of package '' @ quoted name @ '' is available'')
          | Some best \<Rightarrow> Inr best)
       else
         (case List.find (\<lambda>c. rp_version c = exact) candidates of
            None \<Rightarrow> Inl (''package '' @ quoted name @ '' requires version '' @ quoted exact @
              '', but it is not installed'')
          | Some c \<Rightarrow> Inr c))"

definition select ::
  "file_system \<Rightarrow> string list \<Rightarrow> module_version_policy option \<Rightarrow> string \<Rightarrow> string \<Rightarrow> package_manifest outcome"
  where
  "select fs roots policy name exact =
     (case policy of
        Some p \<Rightarrow> select_locked fs roots p name exact
      | None \<Rightarrow> select_open fs roots name exact)"

subsection \<open>The walk through the dependencies\<close>

text \<open>
  The walk is stated for any selection \<open>sel\<close> of a package by its name and its exact version
  (empty for none); \<open>locked\<close> says whether there is a lock. The fuel bounds the depth of the
  recursion and \<open>Deep\<close> is never the outcome if it exceeds the number of packages.
\<close>

record graph =
  gr_packages :: "(string \<times> resolved_package) list"
  gr_preorder :: "resolved_package list"
  gr_state :: states
  gr_restart :: bool

definition empty_graph :: graph where
  "empty_graph = \<lparr>gr_packages = [], gr_preorder = [], gr_state = (\<lambda>_. 0), gr_restart = False\<rparr>"

type_synonym pins = "(string \<times> string) list"

datatype resolve_error = Failed string | Too_deep

definition pin_version :: "bool \<Rightarrow> string \<Rightarrow> string \<Rightarrow> pins \<Rightarrow> pins outcome" where
  "pin_version locked name exact pins =
     (if exact = [] then Inr pins
      else if locked then
        Inr (if map_of pins name = None then map_put name exact pins else pins)
      else (case map_of pins name of
          Some pinned \<Rightarrow> if pinned \<noteq> exact
            then Inl (''conflicting package versions for '' @ quoted name @ '': '' @ pinned @ '' and '' @ exact)
            else Inr (map_put name exact pins)
        | None \<Rightarrow> Inr (map_put name exact pins)))"

definition resolved_part :: "package_manifest \<Rightarrow> resolved_package" where
  "resolved_part m = resolved_package.truncate m"

definition enter_package :: "string \<Rightarrow> package_manifest \<Rightarrow> graph \<Rightarrow> graph" where
  "enter_package name m g =
     g\<lparr>gr_packages := (name, resolved_part m) # gr_packages g,
       gr_preorder := gr_preorder g @ [resolved_part m], gr_state := (gr_state g)(name := 1)\<rparr>"

definition finish_package :: "string \<Rightarrow> graph \<Rightarrow> graph" where
  "finish_package name g = g\<lparr>gr_state := (gr_state g)(name := 2)\<rparr>"

type_synonym walk = "(resolve_error, graph \<times> pins) result"

fun visit_package ::
    "(string \<Rightarrow> string \<Rightarrow> package_manifest outcome) \<Rightarrow> bool \<Rightarrow> nat \<Rightarrow> string \<Rightarrow> string \<Rightarrow> graph \<Rightarrow> pins \<Rightarrow> walk"
  and visit_dependencies ::
    "(string \<Rightarrow> string \<Rightarrow> package_manifest outcome) \<Rightarrow> bool \<Rightarrow> nat \<Rightarrow> package_dependency list \<Rightarrow> graph \<Rightarrow> pins \<Rightarrow> walk"
  where
  "visit_package sel locked 0 name exact g pins = Inl Too_deep"
| "visit_package sel locked (Suc fuel) name exact g pins =
     bindE (map_error Failed (pin_version locked name exact pins)) (\<lambda>pins.
     bindE (map_error Failed (sel name exact)) (\<lambda>m.
     case map_of (gr_packages g) name of
       Some existing \<Rightarrow>
         if rp_version existing \<noteq> rp_version m then Inr (g\<lparr>gr_restart := True\<rparr>, pins)
         else if gr_state g name = 1
         then Inl (Failed (''cyclic package dependency involving '' @ quoted name))
         else Inr (g, pins)
     | None \<Rightarrow>
         bindE (visit_dependencies sel locked fuel (rp_dependencies m) (enter_package name m g) pins)
           (\<lambda>(g, pins). Inr (finish_package name g, pins))))"
| "visit_dependencies sel locked fuel [] g pins = Inr (g, pins)"
| "visit_dependencies sel locked fuel (d # ds) g pins =
     bindE (visit_package sel locked fuel (pd_name d) (pd_version d) g pins)
       (\<lambda>(g, pins). visit_dependencies sel locked fuel ds g pins)"

subsection \<open>The iteration over the pins\<close>

definition forced :: "pins \<Rightarrow> string \<Rightarrow> string" where
  "forced pins name = (case map_of pins name of None \<Rightarrow> [] | Some v \<Rightarrow> v)"

definition visit_requested ::
  "(string \<Rightarrow> string \<Rightarrow> package_manifest outcome) \<Rightarrow> bool \<Rightarrow> nat \<Rightarrow> pins \<Rightarrow> string list \<Rightarrow> walk" where
  "visit_requested sel locked fuel pins names =
     visit_dependencies sel locked fuel (map (\<lambda>n. \<lparr>pd_name = n, pd_version = forced pins n\<rparr>) names)
       empty_graph []"

definition pins_text :: "pins \<Rightarrow> string" where
  "pins_text pins = concat (map (\<lambda>(name, v). name @ ''='' @ v @ [newline]) pins)"

definition limit_message :: string where
  "limit_message = ''package version resolution exceeded its limit''"

text \<open>\<open>left\<close> attempts are left; the last one is the attempt 63.\<close>

fun attempts ::
  "(string \<Rightarrow> string \<Rightarrow> package_manifest outcome) \<Rightarrow> bool \<Rightarrow> nat \<Rightarrow> string list \<Rightarrow> nat \<Rightarrow> pins \<Rightarrow>
     string list \<Rightarrow> (resolve_error, graph) result" where
  "attempts sel locked fuel names 0 pins previous = Inr empty_graph"
| "attempts sel locked fuel names (Suc left) pins previous =
     bindE (visit_requested sel locked fuel pins names) (\<lambda>(g, discovered).
       if gr_restart g then
         if left = 0 then Inl (Failed limit_message)
         else attempts sel locked fuel names left discovered previous
       else if discovered = pins then Inr g
       else if pins_text discovered \<in> set previous then
         Inl (Failed ''package version constraints do not converge'')
       else if left = 0 then Inl (Failed limit_message)
       else attempts sel locked fuel names left discovered (pins_text discovered # previous))"

record package_resolution =
  pr_packages :: "(string \<times> resolved_package) list"
  pr_linkOrder :: "resolved_package list"

definition requested_packages ::
  "file_system \<Rightarrow> string list \<Rightarrow> module_version_policy option \<Rightarrow> string \<Rightarrow> string list \<Rightarrow> string list outcome"
  where
  "requested_packages fs roots policy name names =
     (if policy \<noteq> None then Inr (names @ [name])
      else bindE (discover fs roots name) (\<lambda>candidates.
        Inr (if candidates \<noteq> [] then names @ [name] else names)))"

definition resolvePackages ::
  "nat \<Rightarrow> file_system \<Rightarrow> string list \<Rightarrow> string list \<Rightarrow> module_version_policy option \<Rightarrow>
     (resolve_error, package_resolution) result" where
  "resolvePackages fuel fs rootNames searchRoots policy =
     bindE (map_error Failed (foldE (requested_packages fs searchRoots policy) rootNames [])) (\<lambda>names.
       if names = [] then Inr \<lparr>pr_packages = [], pr_linkOrder = []\<rparr>
       else bindE (attempts (select fs searchRoots policy) (policy \<noteq> None) fuel names 64 [] []) (\<lambda>g.
         Inr \<lparr>pr_packages = gr_packages g, pr_linkOrder = gr_preorder g\<rparr>))"

subsection \<open>The graph of a walk\<close>

text \<open>
  What a walk keeps of the graph, for any selection that returns packages with the name and
  the exact version asked for, whose dependencies are exact.
\<close>

locale selection =
  fixes sel :: "string \<Rightarrow> string \<Rightarrow> package_manifest outcome"
  assumes sel_name: "sel name exact = Inr m \<Longrightarrow> rp_name m = name"
    and sel_exact: "sel name exact = Inr m \<Longrightarrow> exact \<noteq> [] \<Longrightarrow> rp_version m = exact"
    and sel_pins: "sel name exact = Inr m \<Longrightarrow> d \<in> set (rp_dependencies m) \<Longrightarrow> pd_version d \<noteq> []"

definition deps_of :: "graph \<Rightarrow> string \<Rightarrow> string list" where
  "deps_of g n = (case map_of (gr_packages g) n of None \<Rightarrow> [] | Some p \<Rightarrow> map pd_name (rp_dependencies p))"

definition installed :: "(string \<times> resolved_package) list \<Rightarrow> package_dependency \<Rightarrow> bool" where
  "installed packages d \<longleftrightarrow>
     (\<exists>q. map_of packages (pd_name d) = Some q \<and> (pd_version d \<noteq> [] \<longrightarrow> rp_version q = pd_version d))"

definition black :: "graph \<Rightarrow> string set" where
  "black g = finished (gr_state g)"

definition package_ok :: "string \<times> resolved_package \<Rightarrow> bool" where
  "package_ok e \<longleftrightarrow> rp_name (snd e) = fst e \<and> (\<forall>d \<in> set (rp_dependencies (snd e)). pd_version d \<noteq> [])"

definition graph_ok :: "graph \<Rightarrow> bool" where
  "graph_ok g \<longleftrightarrow> distinct (map fst (gr_packages g)) \<and> gr_preorder g = rev (map snd (gr_packages g)) \<and>
     (\<forall>e \<in> set (gr_packages g). package_ok e) \<and> in_range (gr_state g) \<and>
     (\<forall>n. gr_state g n = 0 \<longleftrightarrow> map_of (gr_packages g) n = None) \<and>
     (\<forall>n p d. n \<in> black g \<longrightarrow> map_of (gr_packages g) n = Some p \<longrightarrow> d \<in> set (rp_dependencies p) \<longrightarrow>
        installed (gr_packages g) d \<and> pd_name d \<in> black g) \<and>
     acyclic (edges (deps_of g) (black g))"

definition graph_grows :: "graph \<Rightarrow> graph \<Rightarrow> bool" where
  "graph_grows g g' \<longleftrightarrow> extends_search (gr_state g) (gr_state g') \<and>
     (\<forall>n p. map_of (gr_packages g) n = Some p \<longrightarrow> map_of (gr_packages g') n = Some p)"

lemma graph_grows_refl [simp]: "graph_grows g g"
  by (simp add: graph_grows_def extends_search_def)

lemma graph_grows_trans: "graph_grows g g' \<Longrightarrow> graph_grows g' g'' \<Longrightarrow> graph_grows g g''"
  unfolding graph_grows_def using extends_search_trans by blast

lemma installed_grows: "installed (gr_packages g) d \<Longrightarrow> graph_grows g g' \<Longrightarrow> installed (gr_packages g') d"
  by (auto simp: installed_def graph_grows_def)

lemma black_grows: "n \<in> black g \<Longrightarrow> graph_grows g g' \<Longrightarrow> n \<in> black g'"
  by (auto simp: black_def finished_def graph_grows_def extends_search_def)

lemma edges_cong: "(\<And>n. n \<in> D \<Longrightarrow> deps n = deps' n) \<Longrightarrow> edges deps D = edges deps' D"
  by (auto simp: edges_def)

lemma enter_package_ok:
  assumes "graph_ok g" "map_of (gr_packages g) name = None" "package_ok (name, resolved_part m)"
  shows "graph_ok (enter_package name m g)"
proof -
  let ?g = "enter_package name m g"
  have n: "gr_state g name = 0" using assms(1,2) by (simp add: graph_ok_def)
  then have b: "black ?g = black g" by (auto simp: black_def finished_def enter_package_def)
  have fresh: "name \<notin> black g" using n by (simp add: black_def finished_def)
  have "edges (deps_of ?g) (black g) = edges (deps_of g) (black g)"
    using fresh by (intro edges_cong) (auto simp: deps_of_def enter_package_def)
  moreover have "name \<notin> fst ` set (gr_packages g)" using assms(2) by (simp add: map_of_eq_None_iff)
  moreover have "installed (gr_packages ?g) d" if "installed (gr_packages g) d" for d
    using that assms(2) by (auto simp: installed_def enter_package_def)
  moreover have "in_range (gr_state ?g)"
    using assms(1) by (auto simp: graph_ok_def enter_package_def in_range_upd)
  ultimately show ?thesis
    using assms fresh unfolding graph_ok_def b by (auto simp: enter_package_def)
qed

lemma finish_package_ok:
  assumes "graph_ok g" "gr_state g name = 1" "map_of (gr_packages g) name = Some p"
    and "\<And>d. d \<in> set (rp_dependencies p) \<Longrightarrow> installed (gr_packages g) d \<and> pd_name d \<in> black g"
  shows "graph_ok (finish_package name g)"
proof -
  let ?g = "finish_package name g"
  have same: "gr_packages ?g = gr_packages g" "gr_preorder ?g = gr_preorder g"
      "gr_state ?g = (gr_state g)(name := 2)" "deps_of ?g = deps_of g"
    by (simp_all add: finish_package_def deps_of_def [abs_def])
  have b: "black ?g = insert name (black g)" by (auto simp: black_def finished_def same(3))
  have "edges (deps_of g) (black g) `` black g \<subseteq> black g"
    using assms(1) by (fastforce simp: graph_ok_def edges_def deps_of_def split: option.splits)
  moreover have "name \<notin> black g" using assms(2) by (simp add: black_def finished_def)
  moreover have "set (deps_of g name) \<subseteq> black g" using assms(3,4) by (auto simp: deps_of_def)
  ultimately have "acyclic (edges (deps_of g) (insert name (black g)))"
    using assms(1) by (intro acyclic_insert_node) (auto simp: graph_ok_def)
  moreover have "in_range ((gr_state g)(name := 2))"
    using assms(1) by (intro in_range_upd) (auto simp: graph_ok_def)
  moreover have "installed (gr_packages g) d \<and> pd_name d \<in> insert name (black g)"
    if "n \<in> insert name (black g)" "map_of (gr_packages g) n = Some q" "d \<in> set (rp_dependencies q)" for n q d
  proof (cases "n = name")
    case True
    with that assms(3,4) show ?thesis by auto
  next
    case False
    with that assms(1) show ?thesis unfolding graph_ok_def by blast
  qed
  moreover have "((gr_state g)(name := 2)) n = 0 \<longleftrightarrow> map_of (gr_packages g) n = None" for n
    using assms(1,3) by (simp add: graph_ok_def)
  ultimately show ?thesis
    using assms(1) unfolding graph_ok_def same b by blast
qed

lemma map_error_Inr [simp]: "map_error f r = Inr x \<longleftrightarrow> r = Inr x"
  by (auto simp: map_error_def split: sum.splits)

lemma visit_package_restart:
  "visit_package sel locked fuel name exact g pins = Inr (g', pins') \<Longrightarrow> gr_restart g \<Longrightarrow> gr_restart g'"
  "visit_dependencies sel locked fuel ds g pins = Inr (g', pins') \<Longrightarrow> gr_restart g \<Longrightarrow> gr_restart g'"
proof (induction sel locked fuel name exact g pins and sel locked fuel ds g pins
    arbitrary: g' pins' and g' pins' rule: visit_package_visit_dependencies.induct)
  case (2 sel locked fuel name exact g pins)
  show ?case
  proof (cases "map_of (gr_packages g) name")
    case None
    with 2(2) obtain pins1 m t where t: "pin_version locked name exact pins = Inr pins1"
        "sel name exact = Inr m"
        "visit_dependencies sel locked fuel (rp_dependencies m) (enter_package name m g) pins1 = Inr (t, pins')"
        "g' = finish_package name t"
      by (auto simp: bindE_Inr_iff)
    then show ?thesis using 2(1) [OF None t(3)] 2(3) by (auto simp: enter_package_def finish_package_def)
  next
    case (Some p)
    with 2(2,3) show ?thesis by (auto simp: bindE_Inr_iff split: if_splits)
  qed
next
  case (4 sel locked fuel d ds g pins)
  from 4(3) obtain t pins1 where t: "visit_package sel locked fuel (pd_name d) (pd_version d) g pins = Inr (t, pins1)"
      "visit_dependencies sel locked fuel ds t pins1 = Inr (g', pins')"
    by (auto simp: bindE_Inr_iff)
  from 4(1) [OF t(1) 4(4)] have "gr_restart t" .
  with 4(2) t(2) show ?case by blast
qed auto

text \<open>The outcome of a visit: the package asked for is there, finished, with the exact version.\<close>

definition visited :: "package_dependency \<Rightarrow> graph \<Rightarrow> graph \<Rightarrow> bool" where
  "visited d g g' \<longleftrightarrow> graph_ok g' \<and> graph_grows g g' \<and> installed (gr_packages g') d \<and> pd_name d \<in> black g'"

context selection
begin

lemma resolved_package_ok:
  "sel name exact = Inr m \<Longrightarrow> package_ok (name, resolved_part m)"
  using sel_name sel_pins by (auto simp: package_ok_def resolved_part_def resolved_package.defs)

lemma known_package:
  assumes "sel name exact = Inr m" "map_of (gr_packages g) name = Some p" "graph_ok g"
    and "rp_version p = rp_version m" "gr_state g name \<noteq> 1"
  shows "visited \<lparr>pd_name = name, pd_version = exact\<rparr> g g"
proof -
  have "gr_state g name \<noteq> 0" "gr_state g name \<le> 2"
    using assms(2,3) by (auto simp: graph_ok_def in_range_def)
  with assms(5) have "gr_state g name = 2" by linarith
  then have "name \<in> black g" by (simp add: black_def finished_def)
  with assms sel_exact show ?thesis by (auto simp: visited_def installed_def)
qed

lemma new_package:
  assumes "sel name exact = Inr m" "map_of (gr_packages g) name = None" "graph_ok g" "graph_ok t"
    and "graph_grows (enter_package name m g) t"
    and "\<And>d. d \<in> set (rp_dependencies m) \<Longrightarrow> installed (gr_packages t) d \<and> pd_name d \<in> black t"
  shows "visited \<lparr>pd_name = name, pd_version = exact\<rparr> g (finish_package name t)"
proof -
  have t: "map_of (gr_packages t) name = Some (resolved_part m)" "gr_state t name = 1"
    using assms(5) by (auto simp: graph_grows_def enter_package_def extends_search_def)
  have parts: "rp_dependencies (resolved_part m) = rp_dependencies m" "rp_version (resolved_part m) = rp_version m"
    by (simp_all add: resolved_part_def resolved_package.defs)
  have "graph_ok (finish_package name t)"
    using assms(4) t(2,1) assms(6) by (rule finish_package_ok) (simp add: parts)
  moreover have n: "gr_state g name = 0" using assms(2,3) by (simp add: graph_ok_def)
  have "graph_grows g (finish_package name t)"
    unfolding graph_grows_def
  proof (intro conjI allI impI)
    show "extends_search (gr_state g) (gr_state (finish_package name t))"
      using n assms(5) by (auto simp: graph_grows_def finish_package_def enter_package_def extends_search_def)
    fix k p
    assume k: "map_of (gr_packages g) k = Some p"
    then have "map_of (gr_packages (enter_package name m g)) k = Some p"
      using assms(2) by (auto simp: enter_package_def)
    then show "map_of (gr_packages (finish_package name t)) k = Some p"
      using assms(5) by (simp add: graph_grows_def finish_package_def)
  qed
  moreover have "name \<in> black (finish_package name t)"
    by (simp add: black_def finished_def finish_package_def)
  ultimately show ?thesis
    using t(1) sel_exact [OF assms(1)] by (auto simp: visited_def installed_def finish_package_def parts)
qed

lemma visit_package_ok:
  "visit_package s locked fuel name exact g pins = Inr (g', pins') \<Longrightarrow> s = sel \<Longrightarrow> graph_ok g \<Longrightarrow>
     \<not> gr_restart g' \<Longrightarrow> visited \<lparr>pd_name = name, pd_version = exact\<rparr> g g'"
  "visit_dependencies s locked fuel ds g pins = Inr (g', pins') \<Longrightarrow> s = sel \<Longrightarrow> graph_ok g \<Longrightarrow>
     \<not> gr_restart g' \<Longrightarrow> graph_ok g' \<and> graph_grows g g' \<and>
       (\<forall>d \<in> set ds. installed (gr_packages g') d \<and> pd_name d \<in> black g')"
proof (induction s locked fuel name exact g pins and s locked fuel ds g pins
    arbitrary: g' pins' and g' pins' rule: visit_package_visit_dependencies.induct)
  case (2 s locked fuel name exact g pins)
  show ?case
  proof (cases "map_of (gr_packages g) name")
    case None
    with 2(2,3) obtain pins1 m t where t: "sel name exact = Inr m"
        "visit_dependencies s locked fuel (rp_dependencies m) (enter_package name m g) pins1 = Inr (t, pins')"
        "g' = finish_package name t"
      by (auto simp: bindE_Inr_iff)
    have "graph_ok (enter_package name m g)"
      using 2(4) None resolved_package_ok [OF t(1)] by (rule enter_package_ok)
    moreover have "\<not> gr_restart t" using 2(5) t(3) by (simp add: finish_package_def)
    ultimately have "graph_ok t \<and> graph_grows (enter_package name m g) t \<and>
        (\<forall>d \<in> set (rp_dependencies m). installed (gr_packages t) d \<and> pd_name d \<in> black t)"
      using 2(1) [OF None t(2) 2(3)] by blast
    then show ?thesis unfolding t(3) using new_package [OF t(1) None 2(4)] by blast
  next
    case (Some p)
    with 2(2,3) obtain pins1 m where m: "sel name exact = Inr m"
        "(if rp_version p \<noteq> rp_version m then Inr (g\<lparr>gr_restart := True\<rparr>, pins1)
          else if gr_state g name = 1
          then Inl (Failed (''cyclic package dependency involving '' @ quoted name))
          else Inr (g, pins1)) = Inr (g', pins')"
      by (auto simp: bindE_Inr_iff)
    have "rp_version p = rp_version m"
    proof (rule ccontr)
      assume "rp_version p \<noteq> rp_version m"
      with m(2) have "gr_restart g'" by auto
      with 2(5) show False by contradiction
    qed
    moreover from this m(2) have "gr_state g name \<noteq> 1" "g' = g" by (auto split: if_splits)
    ultimately show ?thesis using Some 2(4) m(1) known_package by blast
  qed
next
  case (4 s locked fuel d ds g pins)
  from 4(3) obtain t pins1 where t: "visit_package s locked fuel (pd_name d) (pd_version d) g pins = Inr (t, pins1)"
      "visit_dependencies s locked fuel ds t pins1 = Inr (g', pins')"
    by (auto simp: bindE_Inr_iff)
  have "\<not> gr_restart t" using visit_package_restart(2) [OF t(2)] 4(6) by blast
  with 4(1) [OF t(1) 4(4,5)] have d: "graph_ok t" "graph_grows g t" "installed (gr_packages t) d"
      "pd_name d \<in> black t"
    by (auto simp: visited_def installed_def)
  with 4(2) t(2) 4(4,6) have ds: "graph_ok g'" "graph_grows t g'"
      "\<forall>d \<in> set ds. installed (gr_packages g') d \<and> pd_name d \<in> black g'" by blast+
  with d have "installed (gr_packages g') d" "pd_name d \<in> black g'"
    using installed_grows black_grows by blast+
  with d ds show ?case using graph_grows_trans by auto
qed auto

lemma empty_graph_ok: "graph_ok empty_graph"
  by (simp add: graph_ok_def empty_graph_def black_def finished_def in_range_def edges_def acyclic_def)

lemma all_black:
  assumes "visit_requested sel locked fuel pins names = Inr (g, discovered)" "\<not> gr_restart g"
  shows "graph_ok g \<and> set names \<subseteq> black g \<and> (\<forall>n. gr_state g n \<noteq> 1)"
  using visit_package_ok(2) [of sel locked fuel _ empty_graph "[]" g discovered] assms empty_graph_ok
  by (force simp: visit_requested_def graph_grows_def extends_search_def empty_graph_def)

lemma attempts_ok:
  "attempts s locked fuel names left pins previous = Inr g \<Longrightarrow> s = sel \<Longrightarrow> left \<noteq> 0 \<Longrightarrow>
     graph_ok g \<and> set names \<subseteq> black g \<and> (\<forall>n. gr_state g n \<noteq> 1)"
proof (induction s locked fuel names left pins previous rule: attempts.induct)
  case (2 s locked fuel names left pins previous)
  from 2(3) obtain t discovered where t: "visit_requested s locked fuel pins names = Inr (t, discovered)"
    and rest: "(if gr_restart t then
         if left = 0 then Inl (Failed limit_message) else attempts s locked fuel names left discovered previous
       else if discovered = pins then Inr t
       else if pins_text discovered \<in> set previous then
         Inl (Failed ''package version constraints do not converge'')
       else if left = 0 then Inl (Failed limit_message)
       else attempts s locked fuel names left discovered (pins_text discovered # previous)) = Inr g"
    by (auto simp: bindE_Inr_iff)
  show ?case
  proof (cases "\<not> gr_restart t \<and> discovered = pins")
    case True
    with rest have "g = t" by simp
    with True t 2(4) all_black show ?thesis by blast
  next
    case False
    with rest consider
        "gr_restart t" "left \<noteq> 0" "attempts s locked fuel names left discovered previous = Inr g"
      | "\<not> gr_restart t" "discovered \<noteq> pins" "pins_text discovered \<notin> set previous" "left \<noteq> 0"
        "attempts s locked fuel names left discovered (pins_text discovered # previous) = Inr g"
      by (auto split: if_splits)
    then show ?thesis using 2(1,2,4) by cases blast+
  qed
qed simp

end

subsection \<open>The candidates and the selection\<close>

definition candidate_ok :: "string \<Rightarrow> package_manifest \<Rightarrow> bool" where
  "candidate_ok name m \<longleftrightarrow> rp_name m = name \<and> manifest_ok m"

lemma read_candidate_ok:
  "read_candidate fs name package entry = Inr m \<Longrightarrow> candidate_ok name m"
  by (cases "fs_text fs (below package ''cwhip-package.toml'')")
    (auto simp: read_candidate_def Let_def bindE_Inr_iff candidate_ok_def readManifest_def [of _ _ None]
      dest: manifest_read)

lemma candidate_step_ok:
  "candidate fs name directory entry cs = Inr cs' \<Longrightarrow> list_all (candidate_ok name) cs \<Longrightarrow>
     list_all (candidate_ok name) cs'"
  by (auto simp: candidate_def Let_def bindE_Inr_iff split: status.splits dest: read_candidate_ok)

lemma scan_roots_ok:
  "scan_roots fs name roots cs = Inr cs' \<Longrightarrow> list_all (candidate_ok name) cs \<Longrightarrow>
     list_all (candidate_ok name) cs'"
proof (induction fs name roots cs rule: scan_roots.induct)
  case (2 fs name root roots cs)
  show ?case
  proof (cases "fs_status fs (below root name) = RealDirectory")
    case False
    with 2 show ?thesis by (auto simp: Let_def)
  next
    case True
    with 2(3) obtain found where f: "foldE (candidate fs name (below root name))
        (fst (fs_entries fs (below root name))) cs = Inr found"
        "(if length found \<noteq> length cs then Inr found else scan_roots fs name roots found) = Inr cs'"
      by (auto simp: Let_def bindE_Inr_iff split: option.splits)
    have "list_all (candidate_ok name) found"
      using f(1) 2(4) by (rule foldE_invariant) (rule candidate_step_ok)
    moreover have "snd (fs_entries fs (below root name)) = None"
      using True 2(3) f(1) by (auto simp: Let_def split: option.splits)
    ultimately show ?thesis
      using f True 2(2) by (auto split: if_splits)
  qed
qed simp

lemma discover_ok: "discover fs roots name = Inr cs \<Longrightarrow> list_all (candidate_ok name) cs"
  by (auto simp: discover_def Let_def bindE_Inr_iff list_all_iff split: option.splits
      dest!: scan_roots_ok)

lemma first_installed_Some: "first_installed vs cs = Some c \<Longrightarrow> c \<in> set cs \<and> rp_version c \<in> set vs"
  by (induction vs cs rule: first_installed.induct) (auto simp: find_Some_iff split: option.splits)

lemma check_locked_Inr:
  "check_locked fs p name exact c = Inr m \<Longrightarrow>
     m = c \<and> (exact \<noteq> [] \<longrightarrow> rp_version c = exact) \<and>
     (\<exists>locked. map_of (mp_lockedDependencies p) name = Some locked \<and>
        sort locked = map pin_text (rp_dependencies c))"
  by (auto simp: check_locked_def bindE_Inr_iff at_def split: option.splits)

text \<open>The greatest stable candidate.\<close>

definition stable :: "package_manifest \<Rightarrow> bool" where
  "stable c \<longleftrightarrow> vn_prerelease (parsed (rp_version c)) = []"

definition best_of :: "package_manifest set \<Rightarrow> package_manifest option \<Rightarrow> bool" where
  "best_of cs best \<longleftrightarrow>
     (case best of None \<Rightarrow> \<forall>c \<in> cs. \<not> stable c
      | Some b \<Rightarrow> b \<in> cs \<and> stable b \<and>
          (\<forall>c \<in> cs. stable c \<longrightarrow> version_key (parsed (rp_version c)) \<le> version_key (parsed (rp_version b))))"

lemma parsed_valid: "candidate_ok name c \<Longrightarrow> valid_version (parsed (rp_version c))"
proof -
  assume "candidate_ok name c"
  then obtain v where "parseVersion (rp_version c) = Some v"
    by (auto simp: candidate_ok_def manifest_ok_def)
  moreover from this have "valid_version v" by (simp add: parse_version_text)
  ultimately show "valid_version (parsed (rp_version c))" by (simp add: parsed_def)
qed

lemma better_best:
  assumes "best_of cs best" "candidate_ok name c" "\<forall>c \<in> cs. candidate_ok name c"
  shows "best_of (insert c cs) (better c best)"
proof (cases best)
  case None
  with assms(1) show ?thesis by (auto simp: best_of_def better_def stable_def)
next
  case (Some b)
  with assms have "compareVersion (parsed (rp_version c)) (parsed (rp_version b)) =
      three_way (version_key (parsed (rp_version c))) (version_key (parsed (rp_version b)))"
    by (intro compare_version_key parsed_valid) (auto simp: best_of_def)
  with Some assms(1) show ?thesis
    by (auto simp: best_of_def better_def stable_def three_way_def split: if_splits)
qed

lemma fold_better:
  "best_of ds best \<Longrightarrow> \<forall>c \<in> ds \<union> set cs. candidate_ok name c \<Longrightarrow> best_of (ds \<union> set cs) (fold better cs best)"
proof (induction cs arbitrary: ds best)
  case (Cons c cs)
  from Cons.prems have "best_of (insert c ds) (better c best)" by (intro better_best) auto
  with Cons.IH [of "insert c ds" "better c best"] Cons.prems(2) show ?case by auto
qed simp

lemma select_candidate:
  assumes "select fs roots policy name exact = Inr m"
  shows "candidate_ok name m" "exact \<noteq> [] \<Longrightarrow> rp_version m = exact"
    "\<exists>cs. discover fs roots name = Inr cs \<and> m \<in> set cs"
proof -
  obtain cs where cs: "discover fs roots name = Inr cs"
    using assms by (auto simp: select_def select_locked_def select_open_def bindE_Inr_iff split: option.splits)
  have m: "m \<in> set cs \<and> (exact \<noteq> [] \<longrightarrow> rp_version m = exact)"
  proof (cases policy)
    case None
    have "best_of (set cs) (fold better cs None)"
      using fold_better [of "{}" None cs name] discover_ok [OF cs] by (simp add: best_of_def list_all_iff)
    with None assms cs show ?thesis
      by (auto simp: select_def select_open_def best_of_def find_Some_iff split: option.splits if_splits)
  next
    case (Some p)
    with assms cs obtain c configured where "first_installed configured cs = Some c"
        "check_locked fs p name exact c = Inr m"
      by (auto simp: select_def select_locked_def bindE_Inr_iff split: option.splits)
    with first_installed_Some check_locked_Inr show ?thesis by blast
  qed
  with cs discover_ok [OF cs] show "candidate_ok name m" "exact \<noteq> [] \<Longrightarrow> rp_version m = exact"
    "\<exists>cs. discover fs roots name = Inr cs \<and> m \<in> set cs"
    by (auto simp: list_all_iff)
qed

lemma candidate_pins: "candidate_ok name m \<Longrightarrow> d \<in> set (rp_dependencies m) \<Longrightarrow> pd_version d \<noteq> []"
proof
  assume "candidate_ok name m" "d \<in> set (rp_dependencies m)" "pd_version d = []"
  moreover from this obtain v where "parseVersion [] = Some v"
    by (auto simp: candidate_ok_def manifest_ok_def list_all_iff dependency_ok_def)
  ultimately show False by (simp add: parse_version_text version_text_def)
qed

interpretation resolver: selection "select fs roots policy" for fs roots policy
proof
  fix name exact m d
  assume "select fs roots policy name exact = Inr m"
  note m = select_candidate [OF this]
  from m(1) show "rp_name m = name" by (simp add: candidate_ok_def)
  show "rp_version m = exact" if "exact \<noteq> []" using that by (rule m(2))
  show "pd_version d \<noteq> []" if "d \<in> set (rp_dependencies m)" using m(1) that by (rule candidate_pins)
qed

text \<open>What the result of a resolution promises.\<close>

definition resolution_ok :: "package_resolution \<Rightarrow> bool" where
  "resolution_ok r \<longleftrightarrow> distinct (map fst (pr_packages r)) \<and> pr_linkOrder r = rev (map snd (pr_packages r)) \<and>
     (\<forall>(n, p) \<in> set (pr_packages r). rp_name p = n \<and>
        (\<forall>d \<in> set (rp_dependencies p). \<exists>q. (pd_name d, q) \<in> set (pr_packages r) \<and> rp_version q = pd_version d)) \<and>
     acyclic {(n, pd_name d) | n p d. (n, p) \<in> set (pr_packages r) \<and> d \<in> set (rp_dependencies p)}"

lemma resolution_of_graph:
  assumes "graph_ok g" "\<And>n. gr_state g n \<noteq> 1"
  shows "resolution_ok \<lparr>pr_packages = gr_packages g, pr_linkOrder = gr_preorder g\<rparr>"
proof -
  have b: "n \<in> black g" "map_of (gr_packages g) n = Some p" if "(n, p) \<in> set (gr_packages g)" for n p
  proof -
    show m: "map_of (gr_packages g) n = Some p" using that assms(1) by (auto simp: graph_ok_def)
    then have "gr_state g n \<noteq> 0" "gr_state g n \<le> 2" using assms(1) by (auto simp: graph_ok_def in_range_def)
    with assms(2) [of n] show "n \<in> black g" by (simp add: black_def finished_def)
  qed
  have deps: "\<exists>q. (pd_name d, q) \<in> set (gr_packages g) \<and> rp_version q = pd_version d"
    if "(n, p) \<in> set (gr_packages g)" "d \<in> set (rp_dependencies p)" for n p d
  proof -
    have "installed (gr_packages g) d" using assms(1) b [OF that(1)] that(2) unfolding graph_ok_def by blast
    moreover have "pd_version d \<noteq> []" using assms(1) that by (force simp: graph_ok_def package_ok_def)
    ultimately show ?thesis by (auto simp: installed_def dest: map_of_SomeD)
  qed
  have "{(n, pd_name d) | n p d. (n, p) \<in> set (gr_packages g) \<and> d \<in> set (rp_dependencies p)} \<subseteq>
      edges (deps_of g) (black g)"
    using b by (auto simp: edges_def deps_of_def)
  then have "acyclic {(n, pd_name d) | n p d. (n, p) \<in> set (gr_packages g) \<and> d \<in> set (rp_dependencies p)}"
    by (rule acyclic_subset [rotated]) (use assms(1) in \<open>simp add: graph_ok_def\<close>)
  with assms(1) deps show ?thesis by (auto simp: resolution_ok_def graph_ok_def package_ok_def)
qed

lemma requested_packages_set:
  "requested_packages fs roots policy name names = Inr names' \<Longrightarrow>
     set names \<subseteq> set names' \<and> (name \<in> set names' \<or> policy = None \<and> discover fs roots name = Inr [])"
  by (auto simp: requested_packages_def bindE_Inr_iff split: if_splits)

lemma requested_set:
  "foldE (requested_packages fs roots policy) rootNames names = Inr names' \<Longrightarrow>
     set names \<subseteq> set names' \<and>
     (\<forall>n \<in> set rootNames. n \<in> set names' \<or> policy = None \<and> discover fs roots n = Inr [])"
proof (induction rootNames arbitrary: names)
  case (Cons n ns)
  then obtain t where t: "requested_packages fs roots policy n names = Inr t"
      "foldE (requested_packages fs roots policy) ns t = Inr names'"
    by (auto simp: bindE_Inr_iff)
  from requested_packages_set [OF t(1)] Cons.IH [OF t(2)] show ?case by auto
qed simp

lemma resolvePackages_cases:
  assumes "resolvePackages fuel fs rootNames searchRoots policy = Inr r"
  obtains names g where "foldE (requested_packages fs searchRoots policy) rootNames [] = Inr names"
    "r = \<lparr>pr_packages = gr_packages g, pr_linkOrder = gr_preorder g\<rparr>"
    "graph_ok g" "set names \<subseteq> black g" "\<And>n. gr_state g n \<noteq> 1"
proof -
  obtain names where names: "foldE (requested_packages fs searchRoots policy) rootNames [] = Inr names"
    using assms by (auto simp: resolvePackages_def bindE_Inr_iff)
  show ?thesis
  proof (cases "names = []")
    case True
    with assms names have "r = \<lparr>pr_packages = gr_packages empty_graph, pr_linkOrder = gr_preorder empty_graph\<rparr>"
      by (simp add: resolvePackages_def empty_graph_def map_error_def)
    with True names show ?thesis
      using resolver.empty_graph_ok by (intro that [of names empty_graph]) (auto simp: empty_graph_def)
  next
    case False
    with assms names obtain g where g:
        "attempts (select fs searchRoots policy) (policy \<noteq> None) fuel names 64 [] [] = Inr g"
        "r = \<lparr>pr_packages = gr_packages g, pr_linkOrder = gr_preorder g\<rparr>"
      by (auto simp: resolvePackages_def bindE_Inr_iff)
    with resolver.attempts_ok [OF g(1) refl] that [OF names g(2)] show ?thesis by auto
  qed
qed

text \<open>
  C4: A resolution holds every requested package (without a lock, every requested name that has
  candidates), one version of each, all their dependencies in exactly the required versions, no
  cyclic dependencies, and a link order of just these packages.
\<close>

theorem resolvePackages_ok:
  assumes "resolvePackages fuel fs rootNames searchRoots policy = Inr r"
  shows "resolution_ok r \<and> (\<forall>n \<in> set rootNames. n \<in> fst ` set (pr_packages r) \<or>
    policy = None \<and> discover fs searchRoots n = Inr [])"
  using assms
proof (rule resolvePackages_cases)
  fix names g
  assume names: "foldE (requested_packages fs searchRoots policy) rootNames [] = Inr names"
    and r: "r = \<lparr>pr_packages = gr_packages g, pr_linkOrder = gr_preorder g\<rparr>"
    and g: "graph_ok g" "set names \<subseteq> black g" "\<And>n. gr_state g n \<noteq> 1"
  have "n \<in> fst ` set (pr_packages r)" if "n \<in> black g" for n
  proof -
    have "gr_state g n \<noteq> 0" using that by (simp add: black_def finished_def)
    with g(1) r show ?thesis by (auto simp: graph_ok_def map_of_eq_None_iff)
  qed
  with requested_set [OF names] g(2) resolution_of_graph [OF g(1,3)] r show ?thesis by blast
qed

subsection \<open>Termination\<close>

definition absent :: "string set \<Rightarrow> graph \<Rightarrow> nat" where
  "absent U g = card {n \<in> U. map_of (gr_packages g) n = None}"

definition keeps_packages :: "graph \<Rightarrow> graph \<Rightarrow> bool" where
  "keeps_packages g g' \<longleftrightarrow> fst ` set (gr_packages g) \<subseteq> fst ` set (gr_packages g')"

lemma absent_le: "finite U \<Longrightarrow> keeps_packages g g' \<Longrightarrow> absent U g' \<le> absent U g"
  unfolding absent_def keeps_packages_def by (intro card_mono) (auto simp: map_of_eq_None_iff)

lemma absent_enter:
  "finite U \<Longrightarrow> name \<in> U \<Longrightarrow> map_of (gr_packages g) name = None \<Longrightarrow>
     absent U (enter_package name m g) < absent U g"
  unfolding absent_def by (intro psubset_card_mono) (auto simp: enter_package_def split: if_splits)

lemma visit_keeps_packages:
  "visit_package sel locked fuel name exact g pins = Inr (g', pins') \<Longrightarrow> keeps_packages g g'"
  "visit_dependencies sel locked fuel ds g pins = Inr (g', pins') \<Longrightarrow> keeps_packages g g'"
proof (induction sel locked fuel name exact g pins and sel locked fuel ds g pins
    arbitrary: g' pins' and g' pins' rule: visit_package_visit_dependencies.induct)
  case (2 sel locked fuel name exact g pins)
  show ?case
  proof (cases "map_of (gr_packages g) name")
    case None
    with 2(2) obtain pins1 m t where t:
        "visit_dependencies sel locked fuel (rp_dependencies m) (enter_package name m g) pins1 = Inr (t, pins')"
        "g' = finish_package name t"
      by (auto simp: bindE_Inr_iff)
    from 2(1) [OF None t(1)] t(2) show ?thesis
      by (auto simp: keeps_packages_def enter_package_def finish_package_def)
  next
    case (Some p)
    with 2(2) show ?thesis by (auto simp: bindE_Inr_iff keeps_packages_def split: if_splits)
  qed
next
  case (4 sel locked fuel d ds g pins)
  from 4(3) obtain t pins1 where t: "visit_package sel locked fuel (pd_name d) (pd_version d) g pins = Inr (t, pins1)"
      "visit_dependencies sel locked fuel ds t pins1 = Inr (g', pins')"
    by (auto simp: bindE_Inr_iff)
  from 4(1) [OF t(1)] 4(2) t(2) show ?case unfolding keeps_packages_def by blast
qed (auto simp: keeps_packages_def)

lemma map_error_Failed [simp]: "map_error Failed r \<noteq> Inl Too_deep"
  by (auto simp: map_error_def split: sum.splits)

lemma visit_package_not_deep:
  "finite U \<Longrightarrow> (\<And>n e m. sel n e = Inr m \<Longrightarrow> n \<in> U) \<Longrightarrow> absent U g < fuel \<Longrightarrow>
     visit_package sel locked fuel name exact g pins \<noteq> Inl Too_deep"
  "finite U \<Longrightarrow> (\<And>n e m. sel n e = Inr m \<Longrightarrow> n \<in> U) \<Longrightarrow> absent U g < fuel \<or> ds = [] \<Longrightarrow>
     visit_dependencies sel locked fuel ds g pins \<noteq> Inl Too_deep"
proof (induction sel locked fuel name exact g pins and sel locked fuel ds g pins
    rule: visit_package_visit_dependencies.induct)
  case (2 sel locked fuel name exact g pins)
  have "visit_dependencies sel locked fuel (rp_dependencies m) (enter_package name m g) pins1 \<noteq> Inl Too_deep"
    if "map_of (gr_packages g) name = None" "sel name exact = Inr m" for m pins1
  proof -
    have "name \<in> U" using that(2) by (rule 2(3))
    with 2(2,4) that(1) have "absent U (enter_package name m g) < fuel"
      using absent_enter [of U name g m] by simp
    with 2(1) [OF that(1) 2(2)] 2(3) show ?thesis by blast
  qed
  then show ?case
    by (auto simp: bindE_Inl_iff split: option.splits if_splits prod.splits)
next
  case (4 sel locked fuel d ds g pins)
  show ?case
  proof (cases "visit_package sel locked fuel (pd_name d) (pd_version d) g pins")
    case (Inl e)
    with 4(1) 4(3,4,5) show ?thesis by auto
  next
    case (Inr x)
    obtain t pins1 where x: "x = (t, pins1)" by (cases x)
    with Inr have "absent U t \<le> absent U g"
      using absent_le [OF 4(3)] visit_keeps_packages(1) by blast
    with 4(5) have "absent U t < fuel" by auto
    with 4(2) [OF 4(3,4)] Inr x show ?thesis by auto
  qed
qed auto

lemma attempts_not_deep:
  "finite U \<Longrightarrow> (\<And>n e m. sel n e = Inr m \<Longrightarrow> n \<in> U) \<Longrightarrow> card U < fuel \<Longrightarrow>
     attempts sel locked fuel names left pins previous \<noteq> Inl Too_deep"
proof (induction sel locked fuel names left pins previous rule: attempts.induct)
  case (2 sel locked fuel names left pins previous)
  have "absent U empty_graph < fuel" using 2(5) by (simp add: absent_def empty_graph_def)
  then have "visit_requested sel locked fuel pins names \<noteq> Inl Too_deep"
    using visit_package_not_deep(2) [OF 2(3,4)] by (simp add: visit_requested_def)
  with 2 show ?case by (auto simp: bindE_Inl_iff split: prod.splits if_splits)
qed simp

text \<open>
  C31: The resolution always ends: if all packages with candidates are among finitely many names,
  recursion to a depth of one more than their number is enough for all 64 attempts.
\<close>

theorem resolvePackages_terminates:
  assumes "finite U" "\<And>n cs. discover fs searchRoots n = Inr cs \<Longrightarrow> cs \<noteq> [] \<Longrightarrow> n \<in> U" "card U < fuel"
  shows "resolvePackages fuel fs rootNames searchRoots policy \<noteq> Inl Too_deep"
proof -
  have "n \<in> U" if "select fs searchRoots policy n e = Inr m" for n e m
    using select_candidate(3) [OF that] assms(2) by fastforce
  with assms(1,3) have "attempts (select fs searchRoots policy) (policy \<noteq> None) fuel names 64 [] [] \<noteq> Inl Too_deep"
    for names
    by (intro attempts_not_deep)
  then show ?thesis by (auto simp: resolvePackages_def bindE_Inl_iff)
qed

subsection \<open>Selected versions\<close>

text \<open>
  Without a lock and without an exact version, the selected package is a stable candidate,
  and no stable candidate has a greater version; if there is no stable candidate, that is the
  error.
\<close>

theorem select_open_greatest:
  assumes "discover fs roots name = Inr candidates"
  shows "case select fs roots None name [] of
      Inl e \<Rightarrow> (\<forall>c \<in> set candidates. \<not> stable c) \<and>
        e = ''no stable version of package '' @ quoted name @ '' is available''
    | Inr m \<Rightarrow> m \<in> set candidates \<and> stable m \<and>
        (\<forall>c \<in> set candidates. stable c \<longrightarrow> version_key (parsed (rp_version c)) \<le> version_key (parsed (rp_version m)))"
proof -
  have "best_of (set candidates) (fold better candidates None)"
    using fold_better [of "{}" None candidates name] discover_ok [OF assms]
    by (simp add: best_of_def list_all_iff)
  with assms show ?thesis
    by (auto simp: select_def select_open_def best_of_def split: option.splits)
qed

text \<open>
  A name that is another name and a digit sorts behind it, but its text with the version sorts
  before it, since the digits precede the equals sign.
\<close>

lemma pin_text_digit:
  assumes "pd_name e = pd_name d @ c # cs" "is_digit c"
  shows "pin_text e < pin_text d"
proof -
  have c: "c < CHR ''=''"
    using assms(2) by (simp add: is_digit_def between_def char_less_iff char_le_iff)
  have "x @ c # y < x @ CHR ''='' # z" for x y z :: string
    using c by (induction x) auto
  with assms(1) show ?thesis by (simp add: pin_text_def)
qed

text \<open>
  C32: A package with two such dependencies, as \<open>a\<close> and \<open>a1\<close>, is refused with every lock: the
  locked dependencies are sorted as texts and compared with a list that is sorted by names.
\<close>

theorem check_locked_rejects_digit:
  assumes "candidate_ok name selected" "d \<in> set (rp_dependencies selected)" "e \<in> set (rp_dependencies selected)"
    and "pd_name e = pd_name d @ c # cs" "is_digit c"
  shows "\<not> is_ok (check_locked fs p name exact selected)"
proof
  let ?ds = "rp_dependencies selected"
  assume "is_ok (check_locked fs p name exact selected)"
  then obtain m where "check_locked fs p name exact selected = Inr m"
    by (auto simp: is_ok_def split: sum.splits)
  then obtain locked where "sort locked = map pin_text ?ds" using check_locked_Inr by blast
  then have texts: "sorted (map pin_text ?ds)" by (metis sorted_sort)
  have names: "sorted (map pd_name ?ds)" using assms(1) by (auto simp: candidate_ok_def manifest_ok_def)
  obtain i j where ij: "i < length ?ds" "?ds ! i = d" "j < length ?ds" "?ds ! j = e"
    using assms(2,3) by (auto simp: in_set_conv_nth)
  have "x < x @ c # cs" for x :: string by (induction x) auto
  then have "pd_name d < pd_name e" unfolding assms(4) .
  then have "\<not> j \<le> i" using sorted_nth_mono [OF names, of j i] ij by auto
  then have "pin_text d \<le> pin_text e" using sorted_nth_mono [OF texts, of i j] ij by auto
  with pin_text_digit [OF assms(4,5)] show False by simp
qed

subsection \<open>Examples\<close>

definition sample_package :: "string \<Rightarrow> string \<Rightarrow> string list \<Rightarrow> string" where
  "sample_package name v dependencies =
     ''[package]'' @ [newline] @ ''name = '' @ toml_string name @ [newline] @
     ''version = '' @ toml_string v @ [newline] @ ''source = '' @ toml_string ''s.cw'' @ [newline] @
     ''export = '' @ toml_string ''class:P'' @ [newline] @ ''[dependencies]'' @ [newline] @
     concat (map (\<lambda>d. d @ '' = '' @ toml_string ''=1.0.0'' @ [newline]) dependencies)"

definition sample_files :: file_system where
  "sample_files =
     \<lparr>fs_status = (\<lambda>p.
        if p \<in> {''/r/a'', ''/r/a/1.0.0'', ''/r/a/1.1.0'', ''/r/b'', ''/r/b/1.0.0''} then RealDirectory
        else if p \<in> {''/r/a/1.0.0/cwhip-package.toml'', ''/r/a/1.1.0/cwhip-package.toml'',
            ''/r/b/1.0.0/cwhip-package.toml'', ''/r/a/1.0.0/s.cw'', ''/r/a/1.1.0/s.cw'', ''/r/b/1.0.0/s.cw''}
        then RegularFile else Absent),
      fs_entries = (\<lambda>p. (if p = ''/r/a'' then [''1.1.0'', ''1.0.0''] else [''1.0.0''], None)),
      fs_text = (\<lambda>p.
        if p = ''/r/a/1.0.0/cwhip-package.toml'' then Some (sample_package ''a'' ''1.0.0'' [])
        else if p = ''/r/a/1.1.0/cwhip-package.toml'' then Some (sample_package ''a'' ''1.1.0'' [''b''])
        else Some (sample_package ''b'' ''1.0.0'' [])),
      fs_tree = (\<lambda>_. Directory [])\<rparr>"

lemma sample_resolution: "is_ok (resolvePackages 3 sample_files [''a'', ''q''] [''/r''] None)"
  by code_simp

theorem resolvePackages_ok_witness:
  "\<exists>r. resolvePackages 3 sample_files [''a'', ''q''] [''/r''] None = Inr r \<and> resolution_ok r"
  using sample_resolution resolvePackages_ok by (auto simp: is_ok_def split: sum.splits)

definition sample_names :: "string set" where
  "sample_names = {''a'', ''a/1.0.0'', ''a/1.1.0'', ''b'', ''b/1.0.0''}"

lemma sample_discover:
  assumes "discover sample_files [''/r''] n = Inr cs" "cs \<noteq> []"
  shows "n \<in> sample_names"
proof (rule ccontr)
  assume "n \<notin> sample_names"
  then have "fs_status sample_files (below ''/r'' n) \<noteq> RealDirectory"
    by (simp add: sample_files_def sample_names_def below_def)
  then have "scan_roots sample_files n [''/r''] [] = Inr []" by (simp add: Let_def)
  with assms show False by (simp add: discover_def Let_def)
qed

theorem resolvePackages_terminates_witness:
  "resolvePackages 6 sample_files [''a'', ''b''] [''/r''] None \<noteq> Inl Too_deep"
  by (rule resolvePackages_terminates [of sample_names])
    (use sample_discover in \<open>auto simp: sample_names_def\<close>)

lemma sample_candidates: "is_ok (discover sample_files [''/r''] ''a'')"
  by code_simp

theorem select_open_greatest_witness:
  "\<exists>candidates. discover sample_files [''/r''] ''a'' = Inr candidates \<and>
     (case select sample_files [''/r''] None ''a'' [] of
        Inl e \<Rightarrow> \<forall>c \<in> set candidates. \<not> stable c
      | Inr m \<Rightarrow> m \<in> set candidates \<and> stable m)"
proof -
  obtain candidates where c: "discover sample_files [''/r''] ''a'' = Inr candidates"
    using sample_candidates by (auto simp: is_ok_def split: sum.splits)
  with select_open_greatest [OF c] show ?thesis by (auto split: sum.splits)
qed

lemma sample_digit_manifest:
  "case readManifest ''m'' ''/p'' (Some (sample_package ''p'' ''1.0.0'' [''a'', ''a1''])) of
     Inl _ \<Rightarrow> False
   | Inr m \<Rightarrow> rp_name m = ''p'' \<and>
       rp_dependencies m = [\<lparr>pd_name = ''a'', pd_version = ''1.0.0''\<rparr>, \<lparr>pd_name = ''a1'', pd_version = ''1.0.0''\<rparr>]"
  by code_simp

theorem check_locked_rejects_digit_witness:
  "\<exists>m. readManifest ''m'' ''/p'' (Some (sample_package ''p'' ''1.0.0'' [''a'', ''a1''])) = Inr m \<and>
     \<not> is_ok (check_locked sample_files (empty_policy ''l'') ''p'' [] m)"
proof -
  obtain m where m: "readManifest ''m'' ''/p'' (Some (sample_package ''p'' ''1.0.0'' [''a'', ''a1''])) = Inr m"
      "rp_name m = ''p''"
      "rp_dependencies m = [\<lparr>pd_name = ''a'', pd_version = ''1.0.0''\<rparr>, \<lparr>pd_name = ''a1'', pd_version = ''1.0.0''\<rparr>]"
    using sample_digit_manifest by (auto split: sum.splits)
  have "candidate_ok ''p'' m" using manifest_read [OF m(1)] m(2) by (simp add: candidate_ok_def)
  from check_locked_rejects_digit [OF this, of "rp_dependencies m ! 0" "rp_dependencies m ! 1" "CHR ''1''" "[]"]
  have "\<not> is_ok (check_locked sample_files (empty_policy ''l'') ''p'' [] m)"
    by (simp add: m(3) is_digit_def between_def)
  with m(1) show ?thesis by blast
qed

end
