(* ===== verification/Control_Flow.thy ===== *)
theory Control_Flow
  imports Ast
begin

text \<open>
  The checks of \<open>src/SemanticAnalyzer.cpp\<close> on the flow of control in statements:
  \<open>canFallThrough\<close>, \<open>containsSuperCall\<close> and \<open>containsReturn\<close>. The specification is a relation
  between statements and the ways in which their execution may end.
\<close>

subsection \<open>The checks\<close>

fun canFallThrough :: "statement \<Rightarrow> bool" where
  "canFallThrough (Statement i body alternate cleanup handlers) =
     (case st_kind i of
        SK_Return \<Rightarrow> False
      | SK_Raise \<Rightarrow> False
      | SK_Break \<Rightarrow> False
      | SK_Continue \<Rightarrow> False
      | SK_Block \<Rightarrow> list_all canFallThrough body
      | SK_If \<Rightarrow> list_all canFallThrough body \<or> \<not> st_hasAlternate i \<or> list_all canFallThrough alternate
      | SK_Try \<Rightarrow>
          if st_hasCleanup i \<and> \<not> list_all canFallThrough cleanup then False
          else if list_all canFallThrough body then True
          else list_ex (\<lambda>h. case h of ExceptionHandler _ b \<Rightarrow> list_all canFallThrough b) handlers
      | _ \<Rightarrow> True)"

definition canFallThroughAll :: "statement list \<Rightarrow> bool" where
  "canFallThroughAll statements = list_all canFallThrough statements"

fun containsSuperCall :: "statement \<Rightarrow> bool" where
  "containsSuperCall (Statement i body alternate cleanup handlers) \<longleftrightarrow>
     st_kind i = SK_SuperConstructorCall \<or> list_ex containsSuperCall body \<or>
     list_ex containsSuperCall alternate \<or>
     list_ex (\<lambda>h. case h of ExceptionHandler _ b \<Rightarrow> list_ex containsSuperCall b) handlers \<or>
     list_ex containsSuperCall cleanup"

fun contains_return :: "statement \<Rightarrow> bool" where
  "contains_return (Statement i body alternate cleanup handlers) \<longleftrightarrow>
     st_kind i = SK_Return \<or> list_ex contains_return body \<or> list_ex contains_return alternate \<or>
     list_ex contains_return cleanup \<or>
     list_ex (\<lambda>h. case h of ExceptionHandler _ b \<Rightarrow> list_ex contains_return b) handlers"

definition containsReturn :: "statement list \<Rightarrow> bool" where
  "containsReturn statements = list_ex contains_return statements"

subsection \<open>How executions end\<close>

text \<open>
  An execution of statements that ends either completes, returns, raises an exception, or
  leaves or continues a loop. Conditions are not interpreted: every branch may be taken, a loop
  may run any number of times, a do-while loop at least once, and, as almost every operation of the
  language, any statement may raise. A \<open>finally\<close> block runs at last, and if it completes, the try statement ends the way it
  would have ended without.
\<close>

datatype ending = Completes | Returns | Raises | Breaks | Continues

definition jump :: "statement_kind \<Rightarrow> ending" where
  "jump k = (case k of SK_Return \<Rightarrow> Returns | SK_Break \<Rightarrow> Breaks | SK_Continue \<Rightarrow> Continues | _ \<Rightarrow> Raises)"

definition is_loop :: "statement_kind \<Rightarrow> bool" where
  "is_loop k \<longleftrightarrow> k \<in> {SK_While, SK_DoWhile, SK_ForEach}"

inductive ends :: "statement \<Rightarrow> ending \<Rightarrow> bool"
  and ends_all :: "statement list \<Rightarrow> ending \<Rightarrow> bool"
  and guarded :: "statement list \<Rightarrow> exception_handler list \<Rightarrow> ending \<Rightarrow> bool"
  where
  raises: "ends s Raises"
| jumps: "st_kind i \<in> {SK_Return, SK_Break, SK_Continue} \<Longrightarrow> ends (Statement i b a c hs) (jump (st_kind i))"
| simple: "st_kind i \<in> {SK_Declaration, SK_Assignment, SK_Print, SK_Expression, SK_SuperConstructorCall,
      SK_InlineC} \<Longrightarrow> ends (Statement i b a c hs) Completes"
| block: "st_kind i = SK_Block \<Longrightarrow> ends_all b e \<Longrightarrow> ends (Statement i b a c hs) e"
| taken: "st_kind i = SK_If \<Longrightarrow> ends_all b e \<Longrightarrow> ends (Statement i b a c hs) e"
| alternate: "st_kind i = SK_If \<Longrightarrow> st_hasAlternate i \<Longrightarrow> ends_all a e \<Longrightarrow> ends (Statement i b a c hs) e"
| skipped: "st_kind i = SK_If \<Longrightarrow> \<not> st_hasAlternate i \<Longrightarrow> ends (Statement i b a c hs) Completes"
| left: "st_kind i \<in> {SK_While, SK_ForEach} \<Longrightarrow> ends (Statement i b a c hs) Completes"
| left_after: "st_kind i = SK_DoWhile \<Longrightarrow> ends_all b e \<Longrightarrow> e \<in> {Completes, Breaks, Continues} \<Longrightarrow>
    ends (Statement i b a c hs) Completes"
| in_loop: "is_loop (st_kind i) \<Longrightarrow> ends_all b e \<Longrightarrow> e \<in> {Returns, Raises} \<Longrightarrow> ends (Statement i b a c hs) e"
| try_plain: "st_kind i = SK_Try \<Longrightarrow> \<not> st_hasCleanup i \<Longrightarrow> guarded b hs e \<Longrightarrow> ends (Statement i b a c hs) e"
| try_finally: "st_kind i = SK_Try \<Longrightarrow> st_hasCleanup i \<Longrightarrow> guarded b hs e \<Longrightarrow> ends_all c Completes \<Longrightarrow>
    ends (Statement i b a c hs) e"
| finally_left: "st_kind i = SK_Try \<Longrightarrow> st_hasCleanup i \<Longrightarrow> ends_all c e \<Longrightarrow> e \<noteq> Completes \<Longrightarrow>
    ends (Statement i b a c hs) e"
| unhandled: "ends_all b e \<Longrightarrow> guarded b hs e"
| handled: "h \<in> set hs \<Longrightarrow> ends_all b Raises \<Longrightarrow> ends_all (eh_body h) e \<Longrightarrow> guarded b hs e"
| finished: "ends_all [] Completes"
| stopped: "ends s e \<Longrightarrow> e \<noteq> Completes \<Longrightarrow> ends_all (s # ss) e"
| followed: "ends s Completes \<Longrightarrow> ends_all ss e \<Longrightarrow> ends_all (s # ss) e"

inductive_cases ends_do_while: "ends (Statement i b a c hs) Completes"
inductive_cases ends_statement: "ends (Statement i b a c hs) e"
inductive_cases ends_all_Nil: "ends_all [] e"
inductive_cases ends_all_Cons: "ends_all (s # ss) e"

lemma handler_case [simp]: "(case h of ExceptionHandler _ b \<Rightarrow> P b) \<longleftrightarrow> P (eh_body h)"
  by (cases h) simp

lemma ends_sound:
  "ends s e \<Longrightarrow> e = Completes \<Longrightarrow> canFallThrough s"
  "ends_all ss e \<Longrightarrow> e = Completes \<Longrightarrow> list_all canFallThrough ss"
  "guarded b hs e \<Longrightarrow> e = Completes \<Longrightarrow>
     list_all canFallThrough b \<or> (\<exists>h \<in> set hs. list_all canFallThrough (eh_body h))"
  by (induction rule: ends_ends_all_guarded.inducts) (auto simp: jump_def is_loop_def list_ex_iff)

lemma ends_all_raises: "ss \<noteq> [] \<Longrightarrow> ends_all ss Raises"
  by (cases ss) (auto intro: ends_ends_all_guarded.intros)

lemma ends_all_Completes: "(\<And>s. s \<in> set ss \<Longrightarrow> ends s Completes) \<Longrightarrow> ends_all ss Completes"
  by (induction ss) (auto intro: finished followed)

lemma guarded_Completes:
  assumes "ends_all b Completes \<or> (\<exists>h \<in> set hs. b \<noteq> [] \<and> ends_all (eh_body h) Completes)"
  shows "guarded b hs Completes"
  using assms ends_all_raises by (auto intro: unhandled handled)

lemma nested_size:
  "t \<in> set b \<Longrightarrow> size t < size (Statement i b a c hs)"
  "t \<in> set a \<Longrightarrow> size t < size (Statement i b a c hs)"
  "t \<in> set c \<Longrightarrow> size t < size (Statement i b a c hs)"
  "h \<in> set hs \<Longrightarrow> t \<in> set (eh_body h) \<Longrightarrow> size t < size (Statement i b a c hs)"
proof -
  have nested: "size t < Suc (size_list size ts)" if "t \<in> set ts" for t :: statement and ts
    using that by (intro le_imp_less_Suc size_list_estimation') auto
  show "t \<in> set b \<Longrightarrow> size t < size (Statement i b a c hs)"
    "t \<in> set a \<Longrightarrow> size t < size (Statement i b a c hs)"
    "t \<in> set c \<Longrightarrow> size t < size (Statement i b a c hs)"
    using nested by fastforce+
  assume h: "h \<in> set hs" "t \<in> set (eh_body h)"
  have "size h \<le> size_list size hs" using h(1) by (rule size_list_estimation') simp
  moreover have "size t \<le> size h" using nested [OF h(2)] by (cases h) simp
  ultimately show "size t < size (Statement i b a c hs)" by simp
qed

text \<open>The body of each do-while loop in a statement has an execution that goes on with the loop or leaves it.\<close>

fun do_loops_pass :: "statement \<Rightarrow> bool" where
  "do_loops_pass (Statement i body alternate cleanup handlers) \<longleftrightarrow>
     (st_kind i = SK_DoWhile \<longrightarrow> (\<exists>e \<in> {Completes, Breaks, Continues}. ends_all body e)) \<and>
     list_all do_loops_pass body \<and> list_all do_loops_pass alternate \<and> list_all do_loops_pass cleanup \<and>
     list_all (\<lambda>h. case h of ExceptionHandler _ b \<Rightarrow> list_all do_loops_pass b) handlers"

lemma ends_complete: "canFallThrough s \<Longrightarrow> do_loops_pass s \<Longrightarrow> ends s Completes"
proof (induction s rule: measure_induct_rule [of size])
  case (less s)
  obtain i b a c hs where s: "s = Statement i b a c hs" by (cases s)
  have nested: "ends_all ts Completes"
    if "list_all canFallThrough ts" "list_all do_loops_pass ts" "\<And>t. t \<in> set ts \<Longrightarrow> size t < size s" for ts
    using that less.IH by (intro ends_all_Completes) (auto simp: list_all_iff)
  have pass: "list_all do_loops_pass b" "list_all do_loops_pass a" "list_all do_loops_pass c"
      "\<And>h. h \<in> set hs \<Longrightarrow> list_all do_loops_pass (eh_body h)"
    using less.prems(2) s by (auto simp: list_all_iff)
  have b: "list_all canFallThrough b \<Longrightarrow> ends_all b Completes"
    and a: "list_all canFallThrough a \<Longrightarrow> ends_all a Completes"
    and c: "list_all canFallThrough c \<Longrightarrow> ends_all c Completes"
    using nested nested_size s pass(1-3) by blast+
  have h: "list_all canFallThrough (eh_body h) \<Longrightarrow> ends_all (eh_body h) Completes" if "h \<in> set hs" for h
    using nested nested_size(4) [OF that] s pass(4) [OF that] by blast
  have guarded: "guarded b hs Completes"
    if "list_all canFallThrough b \<or> (\<exists>h \<in> set hs. list_all canFallThrough (eh_body h))"
  proof (cases "b = []")
    case True
    then show ?thesis by (auto intro: unhandled finished)
  next
    case False
    with that b h show ?thesis by (intro guarded_Completes) blast
  qed
  show ?case
  proof (cases "st_kind i")
    case SK_DoWhile
    with less.prems(2) s show ?thesis by (auto intro: left_after)
  next
    case SK_If
    with less.prems s a b show ?thesis by (auto intro: taken alternate skipped)
  next
    case SK_Try
    with less.prems s have g: "guarded b hs Completes"
      by (intro guarded) (auto simp: list_ex_iff split: if_splits)
    show ?thesis
    proof (cases "st_hasCleanup i")
      case True
      with SK_Try less.prems s c g show ?thesis by (auto intro: try_finally split: if_splits)
    next
      case False
      with SK_Try g s show ?thesis by (auto intro: try_plain)
    qed
  qed (use less.prems s b in \<open>auto simp: is_loop_def intro: simple block left\<close>)
qed

text \<open>
  C22: Statements that \<open>canFallThrough\<close> refuses have no execution that completes, so a method with
  such a body can only return, raise or jump. It is exact on statements in which the body of each
  do-while loop has an execution that goes on with the loop or leaves it: these have an execution
  that completes if and only if the check accepts them. A do-while loop completes exactly if its
  body has such an execution, while the check accepts each of them.
\<close>

theorem canFallThrough_exact:
  "(ends_all body Completes \<longrightarrow> canFallThroughAll body) \<and>
   (list_all do_loops_pass body \<longrightarrow> (canFallThroughAll body \<longleftrightarrow> ends_all body Completes)) \<and>
   (\<forall>i b a c hs. st_kind i = SK_DoWhile \<longrightarrow> canFallThrough (Statement i b a c hs) \<and>
      (ends (Statement i b a c hs) Completes \<longleftrightarrow> (\<exists>e \<in> {Completes, Breaks, Continues}. ends_all b e)))"
proof (intro conjI impI allI)
  show "ends_all body Completes \<Longrightarrow> canFallThroughAll body"
    using ends_sound(2) by (simp add: canFallThroughAll_def)
  show "canFallThroughAll body \<longleftrightarrow> ends_all body Completes" if "list_all do_loops_pass body"
    using that ends_sound(2) ends_complete ends_all_Completes by (auto simp: canFallThroughAll_def list_all_iff)
  fix i :: statement_info and b a c hs
  assume "st_kind i = SK_DoWhile"
  then show "canFallThrough (Statement i b a c hs)"
    and "ends (Statement i b a c hs) Completes \<longleftrightarrow> (\<exists>e \<in> {Completes, Breaks, Continues}. ends_all b e)"
    by (auto intro: left_after elim: ends_do_while)
qed

text \<open>\<open>do { return } while (c)\<close> is accepted and does not complete; with an \<open>if\<close> around the return, it may.\<close>

definition flow :: "statement_kind \<Rightarrow> statement list \<Rightarrow> statement" where
  "flow k body = Statement (default_statement_info\<lparr>st_kind := k\<rparr>) body [] [] []"

theorem canFallThrough_exact_witness:
  "canFallThroughAll [flow SK_DoWhile [flow SK_Return []]] \<and> \<not> ends_all [flow SK_DoWhile [flow SK_Return []]] Completes \<and>
   ends_all [flow SK_DoWhile [flow SK_If [flow SK_Return []]]] Completes \<and> \<not> ends_all [flow SK_Return []] Completes"
proof -
  let ?return = "flow SK_Return []"
  note defs = flow_def default_statement_info_def
  have jumps_only: "e \<in> {Returns, Raises}" if "ends_all [?return] e" for e
    using that by (auto simp: defs jump_def is_loop_def elim!: ends_all_Cons ends_all_Nil ends_statement)
  have "ends (flow SK_If [?return]) Completes" by (auto simp: defs intro: skipped)
  then have "ends_all [flow SK_If [?return]] Completes" by (auto intro: followed finished)
  then have "list_all do_loops_pass [flow SK_DoWhile [flow SK_If [?return]]]" by (auto simp: defs)
  then have "ends_all [flow SK_DoWhile [flow SK_If [?return]]] Completes"
    using canFallThrough_exact [of "[flow SK_DoWhile [flow SK_If [?return]]]"] by (simp add: canFallThroughAll_def defs)
  moreover have "\<not> ends_all [?return] Completes"
    using canFallThrough_exact [of "[?return]"] by (simp add: canFallThroughAll_def defs)
  moreover have "canFallThroughAll [flow SK_DoWhile [?return]]" by (simp add: canFallThroughAll_def defs)
  moreover have "\<not> ends (flow SK_DoWhile [?return]) Completes"
    using canFallThrough_exact [of "[]"] jumps_only unfolding flow_def [of SK_DoWhile]
    by (auto simp: default_statement_info_def)
  then have "\<not> ends_all [flow SK_DoWhile [?return]] Completes" by (auto elim: ends_all_Cons)
  ultimately show ?thesis by blast
qed

end
