(* ===== verification/Class_Table.thy ===== *)
theory Class_Table
  imports Ast Mangling Callback_Type
begin

text \<open>
  The class hierarchy (\<open>src/SemanticInheritance.cpp\<close>): subclasses, access to bases and members,
  the lookup and counting of members in base classes, virtual bases and inherited fields. The
  member \<open>classes_\<close> of the analyzer is a list of qualified names and declarations;
  \<open>currentClass_\<close> is the argument \<open>current\<close>.

  A walk through the bases of a class recurses, so it ends only if the hierarchy has no cycle.
  Such a walk takes fuel and its result is \<open>None\<close> if the recursion is deeper.
\<close>

type_synonym class_table = "(string \<times> class_declaration) list"

text \<open>The bases of a class: name, access and whether the base is virtual.\<close>

definition base_edges :: "class_declaration \<Rightarrow> (string \<times> access_level \<times> bool) list" where
  "base_edges c = zip (cl_baseClassNames c) (zip (cl_baseAccess c) (cl_baseVirtual c))"

subsection \<open>Subclasses\<close>

text \<open>The loop of \<open>isSubclassOf\<close>: the head of \<open>pending\<close> is the back of the vector.\<close>

function subclass_search :: "class_table \<Rightarrow> string \<Rightarrow> string list \<Rightarrow> string list \<Rightarrow> bool" where
  "subclass_search t base visited [] = False"
| "subclass_search t base visited (name # pending) =
     (case map_of t name of
        None \<Rightarrow> subclass_search t base visited pending
      | Some c \<Rightarrow>
          if cl_name c \<in> set visited then subclass_search t base visited pending
          else if base \<in> set (cl_baseClassNames c) then True
          else subclass_search t base (cl_name c # visited)
            (rev (filter (\<lambda>b. map_of t b \<noteq> None) (cl_baseClassNames c)) @ pending))"
  by pat_completeness auto

definition unvisited :: "class_table \<Rightarrow> string list \<Rightarrow> nat" where
  "unvisited t visited = length (filter (\<lambda>e. cl_name (snd e) \<notin> set visited) t)"

lemma unvisited_less:
  assumes "map_of t name = Some c" "cl_name c \<notin> set visited"
  shows "unvisited t (cl_name c # visited) < unvisited t visited"
proof -
  have "(name, c) \<in> set t" using assms(1) by (rule map_of_SomeD)
  then have "(name, c) \<in> set (filter (\<lambda>e. cl_name (snd e) \<notin> set visited) t)"
    using assms(2) by simp
  then have "length (filter (\<lambda>e. cl_name (snd e) \<noteq> cl_name c) (filter (\<lambda>e. cl_name (snd e) \<notin> set visited) t)) <
      length (filter (\<lambda>e. cl_name (snd e) \<notin> set visited) t)"
    by (rule length_filter_less) simp
  moreover have "filter (\<lambda>e. cl_name (snd e) \<notin> set (cl_name c # visited)) t =
      filter (\<lambda>e. cl_name (snd e) \<noteq> cl_name c) (filter (\<lambda>e. cl_name (snd e) \<notin> set visited) t)"
    by (auto intro!: filter_cong)
  ultimately show ?thesis unfolding unvisited_def by simp
qed

termination subclass_search
  by (relation "measures [\<lambda>(t, base, visited, pending). unvisited t visited,
      \<lambda>(t, base, visited, pending). length pending]") (auto simp: unvisited_less)

definition isSubclassOf :: "class_table \<Rightarrow> string \<Rightarrow> string \<Rightarrow> bool" where
  "isSubclassOf t type' base =
     (case map_of t type' of
        None \<Rightarrow> False
      | Some _ \<Rightarrow> type' = base \<or> subclass_search t base [] [type'])"

subsection \<open>Access\<close>

text \<open>The access along a path is the tightest of its edges and the class that restricts it.\<close>

type_synonym restriction = "access_level \<times> string"

fun restrict :: "access_level \<Rightarrow> string \<Rightarrow> restriction \<Rightarrow> restriction" where
  "restrict access owner (effective, restrictedAt) =
     (if access = Private then (Private, owner)
      else if access = Protected \<and> effective = Public then (Protected, owner)
      else (effective, restrictedAt))"

definition granted :: "class_table \<Rightarrow> class_declaration option \<Rightarrow> restriction \<Rightarrow> bool" where
  "granted t current r =
     (case r of (effective, restrictedAt) \<Rightarrow>
        if effective = Public then True
        else case current of
            None \<Rightarrow> False
          | Some c \<Rightarrow>
              if effective = Private then cl_name c = restrictedAt
              else cl_name c = restrictedAt \<or> isSubclassOf t (cl_name c) restrictedAt)"

fun path_restriction ::
  "class_table \<Rightarrow> class_declaration \<Rightarrow> string list \<Rightarrow> restriction \<Rightarrow> restriction option" where
  "path_restriction t c [] r = Some r"
| "path_restriction t c (name # path) r =
     (case map_of (zip (cl_baseClassNames c) (cl_baseAccess c)) name of
        None \<Rightarrow> None
      | Some access \<Rightarrow>
          (case map_of t name of
             None \<Rightarrow> None
           | Some d \<Rightarrow> path_restriction t d path (restrict access (cl_name c) r)))"

definition basePathAccessible ::
  "class_table \<Rightarrow> class_declaration option \<Rightarrow> class_declaration \<Rightarrow> string list \<Rightarrow> bool" where
  "basePathAccessible t current owner path =
     (case path_restriction t owner path (Public, []) of
        None \<Rightarrow> False
      | Some r \<Rightarrow> granted t current r)"

text \<open>The access of the first member with a name, and whether it may be used by itself.\<close>

definition declared_access :: "bool \<Rightarrow> string \<Rightarrow> class_declaration \<Rightarrow> access_level option" where
  "declared_access is_method name c =
     (if is_method then
        map_option me_access (List.find (\<lambda>m. me_name m = name) (cl_methods c))
      else
        case List.find (\<lambda>f. fd_name f = name) (cl_fields c) of
          Some f \<Rightarrow> Some (fd_access f)
        | None \<Rightarrow> map_option em_access (List.find (\<lambda>m. em_name m = name) (cl_enumMembers c)))"

definition declared_granted ::
  "class_table \<Rightarrow> class_declaration option \<Rightarrow> class_declaration \<Rightarrow> access_level \<Rightarrow> bool" where
  "declared_granted t current owner access =
     (case current of
        None \<Rightarrow> access = Public
      | Some c \<Rightarrow>
          (access = Private \<longrightarrow> cl_name c = cl_name owner) \<and>
          (access = Protected \<longrightarrow> cl_name c = cl_name owner \<or> isSubclassOf t (cl_name c) (cl_name owner)))"

text \<open>The edges of \<open>path\<close>, the last one first.\<close>

fun member_visit ::
    "class_table \<Rightarrow> class_declaration option \<Rightarrow> bool \<Rightarrow> string \<Rightarrow> nat \<Rightarrow> class_declaration \<Rightarrow>
      (access_level \<times> string) list \<Rightarrow> bool option"
  and member_bases ::
    "class_table \<Rightarrow> class_declaration option \<Rightarrow> bool \<Rightarrow> string \<Rightarrow> nat \<Rightarrow> class_declaration \<Rightarrow>
      (string \<times> access_level) list \<Rightarrow> (access_level \<times> string) list \<Rightarrow> bool option"
  where
  "member_visit t current is_method name 0 c path = None"
| "member_visit t current is_method name (Suc fuel) c path =
     (case declared_access is_method name c of
        Some access \<Rightarrow>
          Some (declared_granted t current c access \<and>
            granted t current (fold (\<lambda>(a, owner). restrict a owner) path (access, cl_name c)))
      | None \<Rightarrow>
          member_bases t current is_method name fuel c (zip (cl_baseClassNames c) (cl_baseAccess c)) path)"
| "member_bases t current is_method name fuel c [] path = Some False"
| "member_bases t current is_method name fuel c ((b, access) # bs) path =
     (case map_of t b of
        None \<Rightarrow> member_bases t current is_method name fuel c bs path
      | Some base \<Rightarrow>
          Option.bind (member_visit t current is_method name fuel base ((access, cl_name c) # path))
            (\<lambda>found. if found then Some True
              else member_bases t current is_method name fuel c bs path))"

text \<open>The depth of a walk through the classes of a table without cycles.\<close>

definition depth_of :: "class_table \<Rightarrow> nat" where
  "depth_of t = length t + 1"

definition memberAccessible ::
  "class_table \<Rightarrow> class_declaration option \<Rightarrow> class_declaration \<Rightarrow> string \<Rightarrow> bool \<Rightarrow> bool option" where
  "memberAccessible t current owner name is_method =
     member_visit t current is_method name (depth_of t) owner []"

definition methodAccessible ::
  "class_table \<Rightarrow> class_declaration option \<Rightarrow> class_declaration \<Rightarrow> method_declaration \<Rightarrow> bool" where
  "methodAccessible t current owner m =
     (if me_access m = Public then True
      else case current of
          None \<Rightarrow> False
        | Some c \<Rightarrow>
            if me_access m = Private then cl_name c = cl_name owner
            else cl_name c = cl_name owner \<or> isSubclassOf t (cl_name c) (cl_name owner))"

subsection \<open>Walks with virtual bases\<close>

text \<open>
  \<open>countFields\<close>, \<open>countEnumMembers\<close> and \<open>countMethods\<close> are one walk with different counts
  \<open>own\<close> of the members of a class. A virtual base is entered once; \<open>seen\<close> holds those entered.
\<close>

fun count_visit ::
    "class_table \<Rightarrow> (class_declaration \<Rightarrow> nat) \<Rightarrow> nat \<Rightarrow> class_declaration \<Rightarrow> string list \<Rightarrow> (nat \<times> string list) option"
  and count_bases ::
    "class_table \<Rightarrow> (class_declaration \<Rightarrow> nat) \<Rightarrow> nat \<Rightarrow> (string \<times> bool) list \<Rightarrow> string list \<Rightarrow> (nat \<times> string list) option"
  where
  "count_visit t own 0 c seen = None"
| "count_visit t own (Suc fuel) c seen =
     (if own c \<noteq> 0 then Some (own c, seen)
      else count_bases t own fuel (zip (cl_baseClassNames c) (cl_baseVirtual c)) seen)"
| "count_bases t own fuel [] seen = Some (0, seen)"
| "count_bases t own fuel ((b, isVirtual) # bs) seen =
     (case map_of t b of
        None \<Rightarrow> count_bases t own fuel bs seen
      | Some base \<Rightarrow>
          if isVirtual \<and> b \<in> set seen then count_bases t own fuel bs seen
          else Option.bind (count_visit t own fuel base (if isVirtual then b # seen else seen))
            (\<lambda>(n, seen). Option.bind (count_bases t own fuel bs seen) (\<lambda>(m, seen). Some (n + m, seen))))"

definition count_members :: "class_table \<Rightarrow> (class_declaration \<Rightarrow> nat) \<Rightarrow> class_declaration \<Rightarrow> nat option" where
  "count_members t own c = map_option fst (count_visit t own (depth_of t) c [])"

definition own_fields :: "string \<Rightarrow> class_declaration \<Rightarrow> nat" where
  "own_fields name c = length (filter (\<lambda>f. fd_name f = name) (cl_fields c))"

definition own_enum_members :: "string \<Rightarrow> class_declaration \<Rightarrow> nat" where
  "own_enum_members name c = length (filter (\<lambda>m. em_name m = name) (cl_enumMembers c))"

definition has_method :: "string \<Rightarrow> class_declaration \<Rightarrow> bool" where
  "has_method name c \<longleftrightarrow> list_ex (\<lambda>m. me_name m = name \<and> \<not> me_constructor m) (cl_methods c)"

definition countFields :: "class_table \<Rightarrow> class_declaration \<Rightarrow> string \<Rightarrow> nat option" where
  "countFields t c name = count_members t (own_fields name) c"

definition countEnumMembers :: "class_table \<Rightarrow> class_declaration \<Rightarrow> string \<Rightarrow> nat option" where
  "countEnumMembers t c name = count_members t (own_enum_members name) c"

definition countMethods :: "class_table \<Rightarrow> class_declaration \<Rightarrow> string \<Rightarrow> nat option" where
  "countMethods t c name = count_members t (\<lambda>c. if has_method name c then 1 else 0) c"

text \<open>The walk of \<open>accessibleMemberCount\<close>, in which inaccessible bases and members do not count.\<close>

definition declares :: "bool \<Rightarrow> string \<Rightarrow> class_declaration \<Rightarrow> bool" where
  "declares is_method name c \<longleftrightarrow>
     (if is_method then has_method name c else own_fields name c \<noteq> 0 \<or> own_enum_members name c \<noteq> 0)"

fun accessible_visit ::
    "class_table \<Rightarrow> class_declaration option \<Rightarrow> string \<Rightarrow> bool \<Rightarrow> nat \<Rightarrow> class_declaration \<Rightarrow> string list \<Rightarrow>
      (nat \<times> string list) option"
  and accessible_bases ::
    "class_table \<Rightarrow> class_declaration option \<Rightarrow> string \<Rightarrow> bool \<Rightarrow> nat \<Rightarrow> class_declaration \<Rightarrow>
      (string \<times> bool) list \<Rightarrow> string list \<Rightarrow> (nat \<times> string list) option"
  where
  "accessible_visit t current name is_method 0 c seen = None"
| "accessible_visit t current name is_method (Suc fuel) c seen =
     (if declares is_method name c then
        map_option (\<lambda>ok. (if ok then 1 else 0, seen)) (memberAccessible t current c name is_method)
      else accessible_bases t current name is_method fuel c (zip (cl_baseClassNames c) (cl_baseVirtual c)) seen)"
| "accessible_bases t current name is_method fuel c [] seen = Some (0, seen)"
| "accessible_bases t current name is_method fuel c ((b, isVirtual) # bs) seen =
     (case map_of t b of
        None \<Rightarrow> accessible_bases t current name is_method fuel c bs seen
      | Some base \<Rightarrow>
          if \<not> basePathAccessible t current c [b] then accessible_bases t current name is_method fuel c bs seen
          else if isVirtual \<and> b \<in> set seen then accessible_bases t current name is_method fuel c bs seen
          else Option.bind
            (accessible_visit t current name is_method fuel base (if isVirtual then b # seen else seen))
            (\<lambda>(n, seen). Option.bind (accessible_bases t current name is_method fuel c bs seen)
              (\<lambda>(m, seen). Some (n + m, seen))))"

definition accessibleMemberCount ::
  "class_table \<Rightarrow> class_declaration option \<Rightarrow> class_declaration \<Rightarrow> string \<Rightarrow> bool \<Rightarrow> nat option" where
  "accessibleMemberCount t current c name is_method =
     (if (if is_method then list_ex (\<lambda>m. me_name m = name) (cl_methods c) else declares False name c) then
        map_option (\<lambda>ok. if ok then 1 else 0) (memberAccessible t current c name is_method)
      else map_option fst (accessible_bases t current name is_method (depth_of t) c
        (zip (cl_baseClassNames c) (cl_baseVirtual c)) []))"

text \<open>
  The walk of \<open>findField\<close> and \<open>findEnumMember\<close>; \<open>own\<close> finds a member of the class itself.
  A second candidate ends the walk over the bases without a result.
\<close>

fun find_visit ::
    "class_table \<Rightarrow> class_declaration option \<Rightarrow> string \<Rightarrow> (class_declaration \<Rightarrow> 'm option) \<Rightarrow> nat \<Rightarrow>
      class_declaration \<Rightarrow> string list \<Rightarrow> ('m option \<times> string list) option"
  and find_bases ::
    "class_table \<Rightarrow> class_declaration option \<Rightarrow> string \<Rightarrow> (class_declaration \<Rightarrow> 'm option) \<Rightarrow> nat \<Rightarrow>
      class_declaration \<Rightarrow> (string \<times> bool) list \<Rightarrow> 'm option \<Rightarrow> string list \<Rightarrow> ('m option \<times> string list) option"
  where
  "find_visit t current name own 0 c seen = None"
| "find_visit t current name own (Suc fuel) c seen =
     (case own c of
        Some m \<Rightarrow> Some (Some m, seen)
      | None \<Rightarrow> find_bases t current name own fuel c (zip (cl_baseClassNames c) (cl_baseVirtual c)) None seen)"
| "find_bases t current name own fuel c [] result seen = Some (result, seen)"
| "find_bases t current name own fuel c ((b, isVirtual) # bs) result seen =
     (case map_of t b of
        None \<Rightarrow> find_bases t current name own fuel c bs result seen
      | Some base \<Rightarrow>
          if \<not> basePathAccessible t current c [b] then find_bases t current name own fuel c bs result seen
          else Option.bind (memberAccessible t current base name False) (\<lambda>accessible.
            if \<not> accessible \<or> isVirtual \<and> b \<in> set seen then find_bases t current name own fuel c bs result seen
            else Option.bind (find_visit t current name own fuel base (if isVirtual then b # seen else seen))
              (\<lambda>(candidate, seen).
                if candidate = None then find_bases t current name own fuel c bs result seen
                else if result \<noteq> None then Some (None, seen)
                else find_bases t current name own fuel c bs candidate seen)))"

definition findField ::
  "class_table \<Rightarrow> class_declaration option \<Rightarrow> class_declaration \<Rightarrow> string \<Rightarrow> field_declaration option option" where
  "findField t current c name =
     map_option fst (find_visit t current name (\<lambda>c. List.find (\<lambda>f. fd_name f = name) (cl_fields c)) (depth_of t) c [])"

definition findEnumMember ::
  "class_table \<Rightarrow> class_declaration option \<Rightarrow> class_declaration \<Rightarrow> string \<Rightarrow> enum_member_declaration option option" where
  "findEnumMember t current c name =
     map_option fst (find_visit t current name
       (\<lambda>c. List.find (\<lambda>m. em_name m = name) (cl_enumMembers c)) (depth_of t) c [])"

end
