(* ===== verification/Class_Methods.thy ===== *)
theory Class_Methods
  imports Class_Table
begin

text \<open>
  Methods, conversions and overloads in the class hierarchy (\<open>src/SemanticInheritance.cpp\<close>).
  A pointer to a method is the name of its class and its position there.
\<close>

type_synonym method_ref = "(string \<times> nat) \<times> method_declaration"

definition method_refs :: "class_declaration \<Rightarrow> method_ref list" where
  "method_refs c = map (\<lambda>(i, m). ((cl_name c, i), m)) (enumerate 0 (cl_methods c))"

subsection \<open>Finding methods\<close>

fun through_visit ::
    "class_table \<Rightarrow> class_declaration option \<Rightarrow> class_declaration \<Rightarrow> method_ref \<Rightarrow> nat \<Rightarrow> class_declaration \<Rightarrow>
      string list \<Rightarrow> bool option"
  and through_bases ::
    "class_table \<Rightarrow> class_declaration option \<Rightarrow> class_declaration \<Rightarrow> method_ref \<Rightarrow> nat \<Rightarrow> string list \<Rightarrow>
      string list \<Rightarrow> bool option"
  where
  "through_visit t current owner m 0 c path = None"
| "through_visit t current owner m (Suc fuel) c path =
     (if list_ex (\<lambda>r. fst r = fst m) (method_refs c) \<and> methodAccessible t current c (snd m) \<and>
         basePathAccessible t current owner path
      then Some True
      else through_bases t current owner m fuel (cl_baseClassNames c) path)"
| "through_bases t current owner m fuel [] path = Some False"
| "through_bases t current owner m fuel (b # bs) path =
     (case map_of t b of
        None \<Rightarrow> through_bases t current owner m fuel bs path
      | Some base \<Rightarrow>
          Option.bind (through_visit t current owner m fuel base (path @ [b])) (\<lambda>found.
            if found then Some True else through_bases t current owner m fuel bs path))"

definition memberAccessibleThrough ::
  "class_table \<Rightarrow> class_declaration option \<Rightarrow> class_declaration \<Rightarrow> method_ref \<Rightarrow> bool option" where
  "memberAccessibleThrough t current owner m = through_visit t current owner m (depth_of t) owner []"

fun find_method ::
    "class_table \<Rightarrow> class_declaration option \<Rightarrow> string \<Rightarrow> nat \<Rightarrow> class_declaration \<Rightarrow> method_ref option option"
  and method_in_bases ::
    "class_table \<Rightarrow> class_declaration option \<Rightarrow> string \<Rightarrow> nat \<Rightarrow> class_declaration \<Rightarrow> string list \<Rightarrow>
      method_ref option option"
  where
  "find_method t current name 0 c = None"
| "find_method t current name (Suc fuel) c =
     (case List.find (\<lambda>r. me_name (snd r) = name \<and> \<not> me_constructor (snd r)) (method_refs c) of
        Some r \<Rightarrow> Some (Some r)
      | None \<Rightarrow> Option.bind (accessibleMemberCount t current c name True) (\<lambda>n.
          if n \<noteq> 1 then Some None else method_in_bases t current name fuel c (cl_baseClassNames c)))"
| "method_in_bases t current name fuel c [] = Some None"
| "method_in_bases t current name fuel c (b # bs) =
     (case map_of t b of
        None \<Rightarrow> method_in_bases t current name fuel c bs
      | Some base \<Rightarrow>
          if \<not> basePathAccessible t current c [b] then method_in_bases t current name fuel c bs
          else Option.bind (accessibleMemberCount t current base name True) (\<lambda>n.
            if n \<noteq> 0 then find_method t current name fuel base
            else method_in_bases t current name fuel c bs))"

definition findMethod ::
  "class_table \<Rightarrow> class_declaration option \<Rightarrow> class_declaration \<Rightarrow> string \<Rightarrow> method_ref option option" where
  "findMethod t current c name = find_method t current name (depth_of t) c"

text \<open>\<open>findOverloads\<close>: a method is hidden by one found before with the same parameter types.\<close>

definition add_overload :: "method_ref \<Rightarrow> method_ref list \<Rightarrow> method_ref list" where
  "add_overload r found =
     (if list_ex (\<lambda>e. sameParameterTypes (snd e) (snd r)) found then found else found @ [r])"

fun overload_visit ::
    "class_table \<Rightarrow> string \<Rightarrow> nat \<Rightarrow> class_declaration \<Rightarrow> method_ref list \<Rightarrow> method_ref list option"
  and overload_bases ::
    "class_table \<Rightarrow> string \<Rightarrow> nat \<Rightarrow> string list \<Rightarrow> method_ref list \<Rightarrow> method_ref list option"
  where
  "overload_visit t name 0 c found = None"
| "overload_visit t name (Suc fuel) c found =
     overload_bases t name fuel (cl_baseClassNames c)
       (fold add_overload
         (filter (\<lambda>r. me_name (snd r) = name \<and> \<not> me_constructor (snd r) \<and> \<not> me_destructor (snd r)) (method_refs c))
         found)"
| "overload_bases t name fuel [] found = Some found"
| "overload_bases t name fuel (b # bs) found =
     (case map_of t b of
        None \<Rightarrow> overload_bases t name fuel bs found
      | Some base \<Rightarrow> Option.bind (overload_visit t name fuel base found) (overload_bases t name fuel bs))"

definition findOverloads :: "class_table \<Rightarrow> class_declaration \<Rightarrow> string \<Rightarrow> method_ref list option" where
  "findOverloads t c name = overload_visit t name (depth_of t) c []"

subsection \<open>Virtual bases and fields\<close>

fun virtual_visit ::
    "class_table \<Rightarrow> nat \<Rightarrow> class_declaration \<Rightarrow> string list \<times> string list \<Rightarrow> (string list \<times> string list) option"
  and virtual_bases ::
    "class_table \<Rightarrow> nat \<Rightarrow> (string \<times> bool) list \<Rightarrow> string list \<times> string list \<Rightarrow> (string list \<times> string list) option"
  where
  "virtual_visit t 0 c s = None"
| "virtual_visit t (Suc fuel) c s = virtual_bases t fuel (zip (cl_baseClassNames c) (cl_baseVirtual c)) s"
| "virtual_bases t fuel [] s = Some s"
| "virtual_bases t fuel ((b, isVirtual) # bs) (seen, names) =
     (case map_of t b of
        None \<Rightarrow> virtual_bases t fuel bs (seen, names)
      | Some base \<Rightarrow>
          if isVirtual \<and> b \<in> set seen then virtual_bases t fuel bs (seen, names)
          else Option.bind (virtual_visit t fuel base (if isVirtual then b # seen else seen, names))
            (\<lambda>(seen, names). virtual_bases t fuel bs (seen, if isVirtual then names @ [b] else names)))"

definition virtualBaseNames :: "class_table \<Rightarrow> class_declaration \<Rightarrow> string list option" where
  "virtualBaseNames t c = map_option snd (virtual_visit t (depth_of t) c ([], []))"

fun inherited_fields :: "class_table \<Rightarrow> nat \<Rightarrow> class_declaration \<Rightarrow> field_declaration list option"
  and fields_of_bases :: "class_table \<Rightarrow> nat \<Rightarrow> string list \<Rightarrow> field_declaration list option"
  where
  "inherited_fields t 0 c = None"
| "inherited_fields t (Suc fuel) c =
     map_option (\<lambda>fields. fields @ cl_fields c) (fields_of_bases t fuel (cl_baseClassNames c))"
| "fields_of_bases t fuel [] = Some []"
| "fields_of_bases t fuel (b # bs) =
     (case map_of t b of
        None \<Rightarrow> fields_of_bases t fuel bs
      | Some base \<Rightarrow> Option.bind (inherited_fields t fuel base) (\<lambda>fields.
          map_option (\<lambda>rest. fields @ rest) (fields_of_bases t fuel bs)))"

definition inheritedFields :: "class_table \<Rightarrow> class_declaration \<Rightarrow> field_declaration list option" where
  "inheritedFields t c = inherited_fields t (depth_of t) c"

end
