(* ===== verification/Class_Conversion.thy ===== *)
theory Class_Conversion
  imports Class_Methods
begin

text \<open>
  Assignment, conversion ranks and the selection of overloads
  (\<open>src/SemanticInheritance.cpp\<close>).
\<close>

subsection \<open>Assignment\<close>

definition is_class :: "class_table \<Rightarrow> string \<Rightarrow> bool" where
  "is_class t name \<longleftrightarrow> map_of t name \<noteq> None"

text \<open>The number of paths to a base class, through each virtual base once.\<close>

fun count_paths :: "class_table \<Rightarrow> string \<Rightarrow> nat \<Rightarrow> class_declaration \<Rightarrow> string list \<Rightarrow> (nat \<times> string list) option"
  and count_edges :: "class_table \<Rightarrow> string \<Rightarrow> nat \<Rightarrow> (string \<times> bool) list \<Rightarrow> string list \<Rightarrow> (nat \<times> string list) option"
  where
  "count_paths t target 0 c seen = None"
| "count_paths t target (Suc fuel) c seen =
     count_edges t target fuel (zip (cl_baseClassNames c) (cl_baseVirtual c)) seen"
| "count_edges t target fuel [] seen = Some (0, seen)"
| "count_edges t target fuel ((b, isVirtual) # bs) seen =
     (case map_of t b of
        None \<Rightarrow> count_edges t target fuel bs seen
      | Some base \<Rightarrow>
          if isVirtual \<and> b \<in> set seen then count_edges t target fuel bs seen
          else
            let seen = (if isVirtual then b # seen else seen) in
            Option.bind (if b = target then Some (1, seen) else count_paths t target fuel base seen)
              (\<lambda>(n, seen). Option.bind (count_edges t target fuel bs seen) (\<lambda>(m, seen). Some (n + m, seen))))"

text \<open>The restriction along the first path to a base class.\<close>

fun first_path :: "class_table \<Rightarrow> string \<Rightarrow> nat \<Rightarrow> class_declaration \<Rightarrow> restriction \<Rightarrow> restriction option option"
  and first_edge ::
    "class_table \<Rightarrow> string \<Rightarrow> nat \<Rightarrow> class_declaration \<Rightarrow> (string \<times> access_level) list \<Rightarrow> restriction \<Rightarrow>
      restriction option option"
  where
  "first_path t target 0 c r = None"
| "first_path t target (Suc fuel) c r =
     first_edge t target fuel c (zip (cl_baseClassNames c) (cl_baseAccess c)) r"
| "first_edge t target fuel c [] r = Some None"
| "first_edge t target fuel c ((b, access) # bs) r =
     (case map_of t b of
        None \<Rightarrow> first_edge t target fuel c bs r
      | Some base \<Rightarrow>
          let r' = restrict access (cl_name c) r in
          if b = target then Some (Some r')
          else Option.bind (first_path t target fuel base r') (\<lambda>found.
            if found \<noteq> None then Some found else first_edge t target fuel c bs r))"

definition value_types :: "string list" where
  "value_types = [''int'', ''bool'', ''float'', ''unsigned'', ''String'', ''list'', ''dict'', ''buffer'', ''handle'']"

definition isAssignable :: "class_table \<Rightarrow> class_declaration option \<Rightarrow> string \<Rightarrow> string \<Rightarrow> bool option" where
  "isAssignable t current target source =
     (if target = source then Some True
      else if isCallbackType target \<or> isCallbackType source then
        Some (isCallbackType target \<and> source = ''null'')
      else if target = ''any'' then
        Some (source \<in> set value_types \<or> source = ''null'' \<or> source = ''type'' \<or> is_class t source)
      else if source = ''any'' then Some (target \<in> set value_types \<or> is_class t target)
      else if source = ''null'' then Some (target \<in> set value_types \<or> target = ''type'' \<or> is_class t target)
      else
        case map_of t source of
          None \<Rightarrow> Some False
        | Some c \<Rightarrow>
            if \<not> is_class t target \<or> \<not> isSubclassOf t source target then Some False
            else Option.bind (count_paths t target (depth_of t) c []) (\<lambda>(n, _).
              if n \<noteq> 1 then Some False
              else map_option (\<lambda>found. case found of None \<Rightarrow> False | Some r \<Rightarrow> granted t current r)
                (first_path t target (depth_of t) c (Public, []))))"

subsection \<open>Conversion ranks\<close>

text \<open>The loop of \<open>conversionRank\<close>: the stack of classes and distances, its back first.\<close>

function rank_search :: "class_table \<Rightarrow> string \<Rightarrow> string list \<Rightarrow> (string \<times> nat) list \<Rightarrow> nat option" where
  "rank_search t target visited [] = None"
| "rank_search t target visited ((name, distance) # pending) =
     (if name \<in> set visited then rank_search t target visited pending
      else if name = target then Some distance
      else case map_of t name of
          None \<Rightarrow> rank_search t target (name # visited) pending
        | Some c \<Rightarrow> rank_search t target (name # visited)
            (rev (map (\<lambda>b. (b, distance + 1)) (cl_baseClassNames c)) @ pending))"
  by pat_completeness auto

definition names_unvisited :: "class_table \<Rightarrow> string list \<Rightarrow> nat" where
  "names_unvisited t visited = card (fst ` set t - set visited)"

termination rank_search
proof (relation "measures [\<lambda>(t, target, visited, pending). names_unvisited t visited,
    \<lambda>(t, target, visited, pending). length pending]", goal_cases)
  case (3 t target visited name distance pending)
  have "fst ` set t - set (name # visited) = fst ` set t - set visited"
    using 3 by (auto simp: map_of_eq_None_iff)
  then show ?case by (simp add: names_unvisited_def)
next
  case (4 t target visited name distance pending c)
  have "name \<in> fst ` set t" using 4(3) by (metis map_of_eq_None_iff option.distinct(1))
  with 4(1) have "fst ` set t - set (name # visited) \<subset> fst ` set t - set visited" by auto
  then have "names_unvisited t (name # visited) < names_unvisited t visited"
    unfolding names_unvisited_def by (intro psubset_card_mono) auto
  then show ?case by simp
qed auto

definition conversionRank ::
  "class_table \<Rightarrow> class_declaration option \<Rightarrow> string \<Rightarrow> string \<Rightarrow> expression \<Rightarrow> int option" where
  "conversionRank t current target source argument =
     (if target = source then Some 0
      else if source = ''int'' \<and> target = ''unsigned'' \<and> kind_of argument = EK_Integer then Some 1
      else if source = ''null'' \<and> is_class t target then Some 2
      else Option.bind (isAssignable t current target source) (\<lambda>assignable.
        if \<not> assignable then Some (-1)
        else if is_class t source \<and> is_class t target then
          (case rank_search t target [] [(source, 0)] of
             Some distance \<Rightarrow> Some (2 + int distance)
           | None \<Rightarrow> Some 20)
        else Some 20))"

subsection \<open>Overloads\<close>

text \<open>
  The type of an argument whose analysis waits for the context of a callback parameter comes
  from \<open>probe\<close>, the analysis of a copy of the expression for an expected type, \<open>None\<close> if it
  throws a diagnostic.
\<close>

fun argument_ranks ::
  "class_table \<Rightarrow> class_declaration option \<Rightarrow> (expression \<Rightarrow> string \<Rightarrow> string option) \<Rightarrow> parameter list \<Rightarrow>
     expression list \<Rightarrow> string list \<Rightarrow> int list option option" where
  "argument_ranks t current probe (p # ps) (a # as) (source # sources) =
     (case (if source = ''<contextual-callback>'' then probe (cloneExpression a) (pa_type p) else Some source) of
        None \<Rightarrow> Some None
      | Some source \<Rightarrow>
          Option.bind (conversionRank t current (pa_type p) source a) (\<lambda>rank.
            if rank < 0 then Some None
            else map_option (map_option (\<lambda>ranks. rank # ranks)) (argument_ranks t current probe ps as sources)))"
| "argument_ranks t current probe _ _ _ = Some (Some [])"

fun viable_overloads ::
  "class_table \<Rightarrow> class_declaration option \<Rightarrow> (expression \<Rightarrow> string \<Rightarrow> string option) \<Rightarrow> expression list \<Rightarrow>
     string list \<Rightarrow> method_ref list \<Rightarrow> (method_ref \<times> int list) list option" where
  "viable_overloads t current probe arguments types [] = Some []"
| "viable_overloads t current probe arguments types (c # cs) =
     (if length (me_parameters (snd c)) \<noteq> length types then viable_overloads t current probe arguments types cs
      else Option.bind (argument_ranks t current probe (me_parameters (snd c)) arguments types) (\<lambda>ranks.
        map_option (\<lambda>rest. (case ranks of None \<Rightarrow> rest | Some ranks \<Rightarrow> (c, ranks) # rest))
          (viable_overloads t current probe arguments types cs)))"

definition no_worse :: "int list \<Rightarrow> int list \<Rightarrow> bool" where
  "no_worse other candidate = list_all2 (\<le>) other candidate"

definition strictly_better :: "int list \<Rightarrow> int list \<Rightarrow> bool" where
  "strictly_better other candidate = list_ex (\<lambda>(o', c). o' < c) (zip other candidate)"

definition dominated :: "(method_ref \<times> int list) list \<Rightarrow> method_ref \<times> int list \<Rightarrow> bool" where
  "dominated viable candidate =
     list_ex (\<lambda>other. fst (fst candidate) \<noteq> fst (fst other) \<and>
       no_worse (snd other) (snd candidate) \<and> strictly_better (snd other) (snd candidate)) viable"

datatype overload_choice = No_overload | Ambiguous | Chosen method_ref

definition choose_best :: "(method_ref \<times> int list) list \<Rightarrow> overload_choice" where
  "choose_best viable =
     (if viable = [] then No_overload
      else case filter (\<lambda>c. \<not> dominated viable c) viable of
          [best] \<Rightarrow> Chosen (fst best)
        | _ \<Rightarrow> Ambiguous)"

definition selectOverload ::
  "class_table \<Rightarrow> class_declaration option \<Rightarrow> (expression \<Rightarrow> string \<Rightarrow> string option) \<Rightarrow> method_ref list \<Rightarrow>
     expression list \<Rightarrow> string list \<Rightarrow> overload_choice option" where
  "selectOverload t current probe candidates arguments types =
     map_option choose_best (viable_overloads t current probe arguments types candidates)"

text \<open>
  A member access waits for its context if it may be the argument of a callback parameter; any
  other argument is analyzed by itself.
\<close>

definition overloadArgumentType ::
  "(expression \<Rightarrow> ('e, string) result) \<Rightarrow> expression \<Rightarrow> method_ref list \<Rightarrow> nat \<Rightarrow> ('e, string) result" where
  "overloadArgumentType analyze argument candidates index =
     (if kind_of argument = EK_Member \<and>
         list_ex (\<lambda>c. index < length (me_parameters (snd c)) \<and>
           isCallbackType (pa_type (me_parameters (snd c) ! index))) candidates
      then Inr ''<contextual-callback>''
      else analyze argument)"

end
