(* ===== verification/Class_Hierarchy.thy ===== *)
theory Class_Hierarchy
  imports Class_Conversion
begin

text \<open>
  The relation between classes and their direct bases: \<open>isSubclassOf\<close> is its reflexive
  transitive closure, and every walk through the bases ends if it has no cycle.
\<close>

definition direct_base :: "class_table \<Rightarrow> (string \<times> string) set" where
  "direct_base t = {(a, b). \<exists>c. map_of t a = Some c \<and> b \<in> set (cl_baseClassNames c)}"

text \<open>Classes are entered under their qualified names, which are their names by then.\<close>

definition table_ok :: "class_table \<Rightarrow> bool" where
  "table_ok t \<longleftrightarrow> (\<forall>(n, c) \<in> set t. cl_name c = n)"

lemma table_ok_name: "table_ok t \<Longrightarrow> map_of t n = Some c \<Longrightarrow> cl_name c = n"
  by (auto simp: table_ok_def dest: map_of_SomeD)

subsection \<open>Subclasses\<close>

lemma subclass_search_sound:
  "subclass_search t base visited pending \<Longrightarrow> table_ok t \<Longrightarrow> \<exists>n \<in> set pending. (n, base) \<in> (direct_base t)\<^sup>+"
proof (induction t base visited pending rule: subclass_search.induct)
  case (2 t base visited name pending)
  show ?case
  proof (cases "map_of t name")
    case None
    with 2 show ?thesis by auto
  next
    case (Some c)
    have step: "(name, b) \<in> direct_base t" if "b \<in> set (cl_baseClassNames c)" for b
      using Some that by (auto simp: direct_base_def)
    show ?thesis
    proof (cases "cl_name c \<in> set visited \<or> base \<in> set (cl_baseClassNames c)")
      case True
      with Some 2 step show ?thesis by (auto split: if_splits)
    next
      case False
      with 2(4) Some have "subclass_search t base (cl_name c # visited)
          (rev (filter (\<lambda>b. map_of t b \<noteq> None) (cl_baseClassNames c)) @ pending)" by simp
      with 2(3) [OF Some] False 2(5) obtain n where
        "n \<in> set (cl_baseClassNames c) \<or> n \<in> set pending" "(n, base) \<in> (direct_base t)\<^sup>+" by auto
      with step show ?thesis by (auto intro: trancl_into_trancl2)
    qed
  qed
qed simp

text \<open>A search that fails has found a set of classes that is closed and does not meet the base.\<close>

definition avoids :: "class_table \<Rightarrow> string \<Rightarrow> string set \<Rightarrow> string set \<Rightarrow> bool" where
  "avoids t base V W \<longleftrightarrow>
     (\<forall>v b. v \<in> V \<longrightarrow> (v, b) \<in> direct_base t \<longrightarrow> b \<noteq> base \<and> (map_of t b \<noteq> None \<longrightarrow> b \<in> V \<or> b \<in> W))"

lemma avoidsD:
  "avoids t base V W \<Longrightarrow> v \<in> V \<Longrightarrow> (v, b) \<in> direct_base t \<Longrightarrow>
     b \<noteq> base \<and> (map_of t b \<noteq> None \<longrightarrow> b \<in> V \<or> b \<in> W)"
  unfolding avoids_def by blast

lemma avoids_drop:
  assumes "avoids t base V (set (n # W))" "map_of t n = None \<or> n \<in> V"
  shows "avoids t base V (set W)"
  unfolding avoids_def
proof (intro allI impI)
  fix v b
  assume "v \<in> V" "(v, b) \<in> direct_base t"
  from avoidsD [OF assms(1) this] assms(2)
  show "b \<noteq> base \<and> (map_of t b \<noteq> None \<longrightarrow> b \<in> V \<or> b \<in> set W)" by auto
qed

lemma avoids_enter:
  assumes "avoids t base (set visited) (set (n # pending))" "map_of t n = Some c"
    and "base \<notin> set (cl_baseClassNames c)"
  shows "avoids t base (set (n # visited))
    (set (rev (filter (\<lambda>b. map_of t b \<noteq> None) (cl_baseClassNames c)) @ pending))"
  unfolding avoids_def
proof (intro allI impI)
  fix v b
  assume v: "v \<in> set (n # visited)" "(v, b) \<in> direct_base t"
  show "b \<noteq> base \<and> (map_of t b \<noteq> None \<longrightarrow> b \<in> set (n # visited) \<or>
      b \<in> set (rev (filter (\<lambda>b. map_of t b \<noteq> None) (cl_baseClassNames c)) @ pending))"
  proof (cases "v = n")
    case True
    with v(2) assms(2,3) show ?thesis by (auto simp: direct_base_def)
  next
    case False
    with v avoidsD [OF assms(1), of v b] show ?thesis by auto
  qed
qed

lemma subclass_search_complete:
  "\<not> subclass_search t base visited pending \<Longrightarrow> table_ok t \<Longrightarrow> avoids t base (set visited) (set pending) \<Longrightarrow>
     \<exists>V. set visited \<subseteq> V \<and> (\<forall>n \<in> set pending. map_of t n \<noteq> None \<longrightarrow> n \<in> V) \<and> avoids t base V {}"
proof (induction t base visited pending rule: subclass_search.induct)
  case (1 t base visited)
  then have "avoids t base (set visited) {}" by (simp only: list.set)
  then show ?case by auto
next
  case (2 t base visited name pending)
  show ?case
  proof (cases "map_of t name")
    case None
    from 2(6) have a: "avoids t base (set visited) (set pending)"
      by (rule avoids_drop) (use None in simp)
    have s: "\<not> subclass_search t base visited pending" using None 2(4) by simp
    from 2(1) [OF None s 2(5) a] obtain V where V: "set visited \<subseteq> V"
        "\<forall>n \<in> set pending. map_of t n \<noteq> None \<longrightarrow> n \<in> V" "avoids t base V {}" by blast
    then have "\<forall>n \<in> set (name # pending). map_of t n \<noteq> None \<longrightarrow> n \<in> V" using None by simp
    with V show ?thesis by blast
  next
    case (Some c)
    have n: "cl_name c = name" using 2(5) Some by (rule table_ok_name)
    show ?thesis
    proof (cases "name \<in> set visited")
      case True
      from 2(6) have a: "avoids t base (set visited) (set pending)"
        by (rule avoids_drop) (use True in simp)
      from True Some n 2(4) have s: "\<not> subclass_search t base visited pending" by simp
      have "cl_name c \<in> set visited" using True n by simp
      from 2(2) [OF Some this s 2(5) a] obtain V where V: "set visited \<subseteq> V"
          "\<forall>n \<in> set pending. map_of t n \<noteq> None \<longrightarrow> n \<in> V" "avoids t base V {}" by blast
      with True have "\<forall>n \<in> set (name # pending). map_of t n \<noteq> None \<longrightarrow> n \<in> V" by auto
      with V show ?thesis by blast
    next
      case False
      let ?bs = "rev (filter (\<lambda>b. map_of t b \<noteq> None) (cl_baseClassNames c))"
      have fresh: "cl_name c \<notin> set visited" using False n by simp
      have search: "\<not> (if base \<in> set (cl_baseClassNames c) then True
          else subclass_search t base (cl_name c # visited) (?bs @ pending))"
        using 2(4) unfolding subclass_search.simps(2) Some option.case by (simp only: fresh if_False not_False_eq_True)
      then have base: "base \<notin> set (cl_baseClassNames c)"
        by (rule contrapos_nn) simp
      have s: "\<not> subclass_search t base (cl_name c # visited) (?bs @ pending)"
        using search unfolding if_not_P [OF base] .
      have a: "avoids t base (set (cl_name c # visited)) (set (?bs @ pending))"
        unfolding n using 2(6) Some base by (rule avoids_enter)
      from 2(3) [OF Some fresh base s 2(5) a] obtain V where V: "set (cl_name c # visited) \<subseteq> V"
          "\<forall>n \<in> set (?bs @ pending). map_of t n \<noteq> None \<longrightarrow> n \<in> V" "avoids t base V {}" by blast
      then have "set visited \<subseteq> V" "\<forall>n \<in> set (name # pending). map_of t n \<noteq> None \<longrightarrow> n \<in> V"
        using n by simp_all
      with V(3) show ?thesis by blast
    qed
  qed
qed

lemma avoids_closed:
  assumes "avoids t base V {}" "(a, b) \<in> (direct_base t)\<^sup>+" "a \<in> V"
  shows "b \<noteq> base"
proof -
  have "b \<noteq> base \<and> (map_of t b \<noteq> None \<longrightarrow> b \<in> V)"
    using assms(2,3)
  proof (induction rule: trancl_induct)
    case (base b)
    with avoidsD [OF assms(1)] show ?case by blast
  next
    case (step b c)
    then have "map_of t b \<noteq> None" by (auto simp: direct_base_def)
    with step avoidsD [OF assms(1)] show ?case by blast
  qed
  then show ?thesis ..
qed

lemma isSubclassOf_closure:
  assumes "table_ok t"
  shows "isSubclassOf t a b \<longleftrightarrow> map_of t a \<noteq> None \<and> (a, b) \<in> (direct_base t)\<^sup>*"
proof (cases "map_of t a")
  case (Some c)
  have "subclass_search t b [] [a] \<longleftrightarrow> (a, b) \<in> (direct_base t)\<^sup>+"
  proof
    show "subclass_search t b [] [a] \<Longrightarrow> (a, b) \<in> (direct_base t)\<^sup>+"
      using subclass_search_sound [OF _ assms] by fastforce
    assume r: "(a, b) \<in> (direct_base t)\<^sup>+"
    show "subclass_search t b [] [a]"
    proof (rule ccontr)
      assume "\<not> subclass_search t b [] [a]"
      then obtain V where "\<forall>n \<in> set [a]. map_of t n \<noteq> None \<longrightarrow> n \<in> V" "avoids t b V {}"
        using subclass_search_complete [OF _ assms, of b "[]" "[a]"] by (auto simp: avoids_def)
      with Some r avoids_closed show False by fastforce
    qed
  qed
  with Some show ?thesis by (auto simp: isSubclassOf_def rtrancl_eq_or_trancl)
qed (simp add: isSubclassOf_def)

subsection \<open>Walks through the bases\<close>

definition hierarchy_ok :: "class_table \<Rightarrow> bool" where
  "hierarchy_ok t \<longleftrightarrow> acyclic (direct_base t)"

lemma hierarchy_okI:
  assumes "\<And>a c b. (a, c) \<in> set t \<Longrightarrow> b \<in> set (cl_baseClassNames c) \<Longrightarrow> f b < (f a :: nat)"
  shows "hierarchy_ok t"
  unfolding hierarchy_ok_def
  by (rule acyclicI_order [of _ f]) (auto simp: direct_base_def dest: map_of_SomeD assms)

text \<open>
  A walk is a function with fuel on classes with a state. It recurses with less fuel, and only
  on the bases of the class that are in the table; that is the contract of the interface.
\<close>

definition defined :: "'a option \<Rightarrow> bool" where
  "defined r \<longleftrightarrow> r \<noteq> None"

lemma defined_simps [simp]: "defined (Some x)" "\<not> defined None" "defined (map_option f r) \<longleftrightarrow> defined r"
  by (auto simp: defined_def)

lemma defined_bind: "defined r \<Longrightarrow> (\<And>x. defined (f x)) \<Longrightarrow> defined (Option.bind r f)"
  by (cases r) auto

text \<open>A function on classes and states is defined on the classes with the names.\<close>

definition walks_on :: "class_table \<Rightarrow> (class_declaration \<Rightarrow> 's \<Rightarrow> 'r option) \<Rightarrow> string list \<Rightarrow> bool" where
  "walks_on t f names \<longleftrightarrow> (\<forall>b \<in> set names. \<forall>d s. map_of t b = Some d \<longrightarrow> defined (f d s))"

lemma walks_on_simps [simp]:
  "walks_on t f []"
  "walks_on t f (b # bs) \<longleftrightarrow> (\<forall>d s. map_of t b = Some d \<longrightarrow> defined (f d s)) \<and> walks_on t f bs"
  by (auto simp: walks_on_def)

lemma walks_on_zip [intro]: "walks_on t f names \<Longrightarrow> walks_on t f (map fst (zip names xs))"
  by (auto simp: walks_on_def dest: set_zip_leftD)

locale class_walk =
  fixes t :: class_table and walk :: "nat \<Rightarrow> class_declaration \<Rightarrow> 's \<Rightarrow> 'r option"
  assumes walk_step:
    "hierarchy_ok t \<Longrightarrow> walks_on t (walk fuel) (cl_baseClassNames c) \<Longrightarrow> defined (walk (Suc fuel) c s)"

text \<open>The ancestors of a class that are in the table.\<close>

definition ancestors :: "class_table \<Rightarrow> string \<Rightarrow> string set" where
  "ancestors t n = {a. (n, a) \<in> (direct_base t)\<^sup>+ \<and> map_of t a \<noteq> None}"

lemma finite_ancestors: "finite (ancestors t n)"
proof (rule finite_subset)
  show "ancestors t n \<subseteq> fst ` set t" by (auto simp: ancestors_def map_of_eq_None_iff)
qed simp

lemma ancestors_less:
  assumes "hierarchy_ok t" "(n, b) \<in> direct_base t" "map_of t b \<noteq> None"
  shows "card (ancestors t b) < card (ancestors t n)"
proof (rule psubset_card_mono)
  have "(b, b) \<notin> (direct_base t)\<^sup>+" using assms(1) by (simp add: hierarchy_ok_def acyclic_def)
  then have "b \<in> ancestors t n" "b \<notin> ancestors t b" using assms(2,3) by (auto simp: ancestors_def)
  moreover have "ancestors t b \<subseteq> ancestors t n"
    using assms(2) by (auto simp: ancestors_def intro: trancl_into_trancl2)
  ultimately show "ancestors t b \<subset> ancestors t n" by blast
qed (rule finite_ancestors)

lemma ancestors_bound:
  assumes "hierarchy_ok t" "map_of t b \<noteq> None"
  shows "card (ancestors t b) < length t"
proof -
  have "b \<notin> ancestors t b" using assms(1) by (simp add: hierarchy_ok_def acyclic_def ancestors_def)
  moreover have "b \<in> fst ` set t" using assms(2) by (simp add: map_of_eq_None_iff)
  ultimately have "ancestors t b \<subset> fst ` set t" by (auto simp: ancestors_def map_of_eq_None_iff)
  then have "card (ancestors t b) < card (fst ` set t)" by (intro psubset_card_mono) auto
  also have "\<dots> \<le> length t" using card_length [of "map fst t"] by simp
  finally show ?thesis .
qed

context class_walk
begin

lemma walk_defined:
  "hierarchy_ok t \<Longrightarrow> map_of t n = Some c \<Longrightarrow> card (ancestors t n) < fuel \<Longrightarrow> defined (walk fuel c s)"
proof (induction fuel arbitrary: n c s)
  case (Suc fuel)
  have "card (ancestors t b) < fuel" if "b \<in> set (cl_baseClassNames c)" "map_of t b = Some d" for b d
    using ancestors_less [OF Suc.prems(1), of n b] Suc.prems(2,3) that by (force simp: direct_base_def)
  with Suc.IH Suc.prems(1) show ?case by (intro walk_step) (auto simp: walks_on_def)
qed simp

lemma walk_total: "hierarchy_ok t \<Longrightarrow> defined (walk (depth_of t) c s)"
  unfolding depth_of_def Suc_eq_plus1 [symmetric]
  by (intro walk_step) (auto simp: walks_on_def intro!: walk_defined ancestors_bound)

end

text \<open>The loops over the bases are defined if the walk is defined on them.\<close>

lemma count_bases_defined:
  "walks_on t (count_visit t own fuel) (map fst bs) \<Longrightarrow> defined (count_bases t own fuel bs seen)"
  by (induction bs arbitrary: seen) (auto intro!: defined_bind split: option.splits prod.splits)

interpretation count: class_walk t "count_visit t own" for t own
  by unfold_locales (auto intro: count_bases_defined)

lemma member_bases_defined:
  "walks_on t (member_visit t current m name fuel) (map fst bs) \<Longrightarrow>
     defined (member_bases t current m name fuel c bs path)"
  by (induction bs arbitrary: path) (auto intro!: defined_bind split: option.splits prod.splits)

interpretation member: class_walk t "member_visit t current m name" for t current m name
  by unfold_locales (auto intro: member_bases_defined split: option.splits)

lemma memberAccessible_defined: "hierarchy_ok t \<Longrightarrow> defined (memberAccessible t current c name m)"
  unfolding memberAccessible_def by (rule member.walk_total)

lemma accessible_bases_defined:
  "walks_on t (accessible_visit t current name m fuel) (map fst bs) \<Longrightarrow>
     defined (accessible_bases t current name m fuel c bs seen)"
  by (induction bs arbitrary: seen) (auto intro!: defined_bind split: option.splits prod.splits)

lemma find_bases_defined:
  "walks_on t (find_visit t current name own fuel) (map fst bs) \<Longrightarrow> hierarchy_ok t \<Longrightarrow>
     defined (find_bases t current name own fuel c bs result seen)"
  by (induction bs arbitrary: result seen)
    (auto intro!: defined_bind memberAccessible_defined split: option.splits prod.splits)

interpretation accessible: class_walk t "accessible_visit t current name m" for t current name m
  by unfold_locales (auto intro: accessible_bases_defined memberAccessible_defined)

lemma accessibleMemberCount_defined:
  assumes "hierarchy_ok t"
  shows "defined (accessibleMemberCount t current c name m)"
proof -
  have w: "walks_on t (accessible_visit t current name m (depth_of t)) (map fst (zip (cl_baseClassNames c) vs))"
    for vs m
    using accessible.walk_total [OF assms] by (simp add: walks_on_def)
  show ?thesis
    using accessible_bases_defined [OF w] memberAccessible_defined [OF assms]
    by (simp add: accessibleMemberCount_def)
qed

interpretation find: class_walk t "find_visit t current name own" for t current name own
  by unfold_locales (auto intro: find_bases_defined split: option.splits)

lemma through_bases_defined:
  "walks_on t (through_visit t current owner m fuel) bs \<Longrightarrow>
     defined (through_bases t current owner m fuel bs path)"
  by (induction bs arbitrary: path) (auto intro!: defined_bind split: option.splits)

interpretation through: class_walk t "through_visit t current owner m" for t current owner m
  by unfold_locales (auto intro: through_bases_defined)

lemma overload_bases_defined:
  "walks_on t (overload_visit t name fuel) bs \<Longrightarrow> defined (overload_bases t name fuel bs found)"
  by (induction bs arbitrary: found) (auto intro!: defined_bind split: option.splits)

interpretation overload: class_walk t "overload_visit t name" for t name
  by unfold_locales (auto intro: overload_bases_defined)

lemma virtual_bases_defined:
  "walks_on t (virtual_visit t fuel) (map fst bs) \<Longrightarrow> defined (virtual_bases t fuel bs s)"
proof (induction bs arbitrary: s)
  case (Cons e bs)
  then show ?case by (cases s; cases e) (auto intro!: defined_bind split: option.splits prod.splits)
qed simp

interpretation virtual_base: class_walk t "virtual_visit t" for t
  by unfold_locales (auto intro: virtual_bases_defined)

lemma count_edges_defined:
  "walks_on t (count_paths t target fuel) (map fst bs) \<Longrightarrow> defined (count_edges t target fuel bs seen)"
  by (induction bs arbitrary: seen) (auto simp: Let_def intro!: defined_bind split: option.splits prod.splits)

interpretation paths: class_walk t "count_paths t target" for t target
  by unfold_locales (auto intro: count_edges_defined)

lemma first_edge_defined:
  "walks_on t (first_path t target fuel) (map fst bs) \<Longrightarrow> defined (first_edge t target fuel c bs r)"
  by (induction bs arbitrary: r) (auto simp: Let_def intro!: defined_bind split: option.splits prod.splits)

interpretation first: class_walk t "first_path t target" for t target
  by unfold_locales (auto intro: first_edge_defined)

text \<open>The walks without a state: the state is the unit value.\<close>

lemma method_in_bases_defined:
  "walks_on t (\<lambda>d (_ :: unit). find_method t current name fuel d) bs \<Longrightarrow> hierarchy_ok t \<Longrightarrow>
     defined (method_in_bases t current name fuel c bs)"
  by (induction bs) (auto intro!: defined_bind accessibleMemberCount_defined split: option.splits)

interpretation find_method: class_walk t "\<lambda>fuel c (_ :: unit). find_method t current name fuel c" for t current name
  by unfold_locales
    (auto intro!: defined_bind accessibleMemberCount_defined method_in_bases_defined split: option.splits)

lemma fields_of_bases_defined:
  "walks_on t (\<lambda>d (_ :: unit). inherited_fields t fuel d) bs \<Longrightarrow> defined (fields_of_bases t fuel bs)"
  by (induction bs) (auto intro!: defined_bind split: option.splits)

interpretation fields: class_walk t "\<lambda>fuel c (_ :: unit). inherited_fields t fuel c" for t
  by unfold_locales (auto intro: fields_of_bases_defined)

lemmas walks_total =
  count.walk_total member.walk_total accessible.walk_total find.walk_total through.walk_total
  overload.walk_total virtual_base.walk_total paths.walk_total first.walk_total
  find_method.walk_total fields.walk_total

lemma isAssignable_defined: "hierarchy_ok t \<Longrightarrow> defined (isAssignable t current target source)"
  by (auto simp: isAssignable_def intro!: defined_bind walks_total split: option.splits)

lemma conversionRank_defined: "hierarchy_ok t \<Longrightarrow> defined (conversionRank t current target source e)"
  by (auto simp: conversionRank_def intro!: defined_bind isAssignable_defined split: option.splits)

lemma argument_ranks_defined:
  assumes "hierarchy_ok t"
  shows "defined (argument_ranks t current probe ps arguments types)"
proof (induction ps arbitrary: arguments types)
  case (Cons p ps)
  show ?case
  proof (cases "arguments = [] \<or> types = []")
    case False
    then obtain a as s ss where "arguments = a # as" "types = s # ss" by (metis neq_Nil_conv)
    with Cons show ?thesis
      by (auto intro!: defined_bind conversionRank_defined [OF assms] split: option.splits)
  qed auto
qed simp

lemma viable_overloads_defined: "hierarchy_ok t \<Longrightarrow> defined (viable_overloads t current probe as types cs)"
  by (induction cs) (auto intro!: defined_bind argument_ranks_defined)

end
