(* ===== verification/Overload_Choice.thy ===== *)
theory Overload_Choice
  imports Class_Hierarchy
begin

text \<open>
  The selection of an overload: the chosen method is the one that is at least as good as every
  other applicable method for each argument and better for one.
\<close>

lemma strictly_better_nth:
  "strictly_better xs ys \<longleftrightarrow> (\<exists>i < min (length xs) (length ys). xs ! i < ys ! i)"
  by (auto simp: strictly_better_def list_ex_length)

definition beats :: "int list \<Rightarrow> int list \<Rightarrow> bool" where
  "beats xs ys \<longleftrightarrow> no_worse xs ys \<and> strictly_better xs ys"

lemma beats_nth:
  "beats xs ys \<longleftrightarrow> length xs = length ys \<and> (\<forall>i < length xs. xs ! i \<le> ys ! i) \<and> (\<exists>i < length xs. xs ! i < ys ! i)"
  by (auto simp: beats_def no_worse_def strictly_better_nth list_all2_conv_all_nth)

lemma beats_trans: "beats xs ys \<Longrightarrow> beats ys zs \<Longrightarrow> beats xs zs"
  unfolding beats_nth by (metis order.trans order.strict_trans2)

lemma beats_asym: "beats xs ys \<Longrightarrow> \<not> beats ys xs"
  unfolding beats_nth by (metis linorder_not_le)

lemma dominated_iff:
  "dominated viable c \<longleftrightarrow> (\<exists>d \<in> set viable. fst (fst c) \<noteq> fst (fst d) \<and> beats (snd d) (snd c))"
  by (simp add: dominated_def list_ex_iff beats_def)

text \<open>Whatever is dominated is dominated by something that is not.\<close>

lemma undominated_dominator:
  assumes "distinct (map (fst \<circ> fst) viable)" "c \<in> set viable" "dominated viable c"
  shows "\<exists>d \<in> set viable. fst (fst c) \<noteq> fst (fst d) \<and> beats (snd d) (snd c) \<and> \<not> dominated viable d"
proof -
  have same: "x = y" if "x \<in> set viable" "y \<in> set viable" "fst (fst x) = fst (fst y)" for x y
    using assms(1) that by (auto simp: distinct_map inj_on_def)
  let ?better = "{(x, y). x \<in> set viable \<and> y \<in> set viable \<and> beats (snd x) (snd y)}"
  have "finite ?better" by (rule finite_subset [of _ "set viable \<times> set viable"]) auto
  moreover have "acyclic ?better"
  proof (rule acyclicI_order [of _ "\<lambda>x. - sum_list (snd x)"])
    fix x y :: "method_ref \<times> int list"
    assume "(x, y) \<in> ?better"
    then have b: "length (snd x) = length (snd y)" "\<forall>i < length (snd x). snd x ! i \<le> snd y ! i"
        "\<exists>i < length (snd x). snd x ! i < snd y ! i"
      by (auto simp: beats_nth)
    then show "- sum_list (snd y) < - sum_list (snd x)"
      by (auto simp: sum_list_sum_nth intro!: sum_strict_mono_ex1)
  qed
  ultimately have "wf ?better" by (rule finite_acyclic_wf)
  from assms(3) obtain d where "d \<in> {d \<in> set viable. beats (snd d) (snd c)}"
    by (auto simp: dominated_iff)
  then obtain d where d: "d \<in> {d \<in> set viable. beats (snd d) (snd c)}"
      "\<And>y. (y, d) \<in> ?better \<Longrightarrow> y \<notin> {d \<in> set viable. beats (snd d) (snd c)}"
    using wfE_min [OF \<open>wf ?better\<close>] by (metis (no_types, lifting))
  then have d': "d \<in> set viable" "beats (snd d) (snd c)" by simp_all
  have "\<not> dominated viable d"
  proof
    assume "dominated viable d"
    then obtain e where "e \<in> set viable" "beats (snd e) (snd d)" by (auto simp: dominated_iff)
    with d d' beats_trans show False by blast
  qed
  moreover have "fst (fst c) \<noteq> fst (fst d)"
    using same [OF assms(2) d'(1)] d'(2) beats_asym by blast
  ultimately show ?thesis using d' by blast
qed

lemma filter_singleton:
  assumes "distinct xs"
  shows "filter P xs = [x] \<longleftrightarrow> x \<in> set xs \<and> P x \<and> (\<forall>y \<in> set xs. P y \<longrightarrow> y = x)"
proof
  assume "filter P xs = [x]"
  then have "set (filter P xs) = {x}" by simp
  then show "x \<in> set xs \<and> P x \<and> (\<forall>y \<in> set xs. P y \<longrightarrow> y = x)" by auto
next
  assume x: "x \<in> set xs \<and> P x \<and> (\<forall>y \<in> set xs. P y \<longrightarrow> y = x)"
  then have "set (filter P xs) = {x}" by auto
  with distinct_filter [OF assms, of P] show "filter P xs = [x]"
    by (metis distinct_card card_1_singleton_iff empty_set length_0_conv length_Suc_conv
        list.simps(15) One_nat_def is_singletonI is_singleton_altdef singleton_insert_inj_eq)
qed

lemma choose_best_Chosen:
  assumes "distinct (map (fst \<circ> fst) viable)"
  shows "choose_best viable = Chosen m \<longleftrightarrow>
    (\<exists>ranks. (m, ranks) \<in> set viable \<and>
      (\<forall>d \<in> set viable. fst (fst d) \<noteq> fst m \<longrightarrow> beats ranks (snd d)))"
    (is "_ \<longleftrightarrow> ?best")
proof -
  have same: "x = y" if "x \<in> set viable" "y \<in> set viable" "fst (fst x) = fst (fst y)" for x y
    using assms that by (auto simp: distinct_map inj_on_def)
  have "distinct viable" using assms by (simp add: distinct_map)
  note single = filter_singleton [OF this, of "\<lambda>c. \<not> dominated viable c"]
  have "choose_best viable = Chosen m \<longleftrightarrow> (\<exists>b. filter (\<lambda>c. \<not> dominated viable c) viable = [b] \<and> fst b = m)"
    by (auto simp: choose_best_def split: list.splits)
  also have "\<dots> \<longleftrightarrow> (\<exists>b \<in> set viable. fst b = m \<and> \<not> dominated viable b \<and>
      (\<forall>d \<in> set viable. \<not> dominated viable d \<longrightarrow> d = b))"
    unfolding single by blast
  also have "\<dots> \<longleftrightarrow> ?best"
  proof
    assume "\<exists>b \<in> set viable. fst b = m \<and> \<not> dominated viable b \<and>
      (\<forall>d \<in> set viable. \<not> dominated viable d \<longrightarrow> d = b)"
    then obtain b where b: "b \<in> set viable" "fst b = m"
        "\<forall>d \<in> set viable. \<not> dominated viable d \<longrightarrow> d = b" by blast
    have "beats (snd b) (snd d)" if d: "d \<in> set viable" "fst (fst d) \<noteq> fst m" for d
    proof -
      have "d \<noteq> b" using b(2) d(2) by auto
      with b(3) d(1) have "dominated viable d" by blast
      from undominated_dominator [OF assms d(1) this] b(3) show ?thesis by blast
    qed
    with b(1,2) show ?best by (intro exI [of _ "snd b"]) auto
  next
    assume ?best
    then obtain ranks where r: "(m, ranks) \<in> set viable"
        "\<forall>d \<in> set viable. fst (fst d) \<noteq> fst m \<longrightarrow> beats ranks (snd d)" by blast
    have "\<not> dominated viable (m, ranks)"
      using r(2) beats_asym by (auto simp: dominated_iff)
    moreover have "d = (m, ranks)" if "d \<in> set viable" "\<not> dominated viable d" for d
    proof (rule ccontr)
      assume "d \<noteq> (m, ranks)"
      then have "fst (fst d) \<noteq> fst m" using same [OF that(1) r(1)] by auto
      with r that show False by (auto simp: dominated_iff)
    qed
    moreover have "fst (m, ranks) = m" by simp
    ultimately show "\<exists>b \<in> set viable. fst b = m \<and> \<not> dominated viable b \<and>
      (\<forall>d \<in> set viable. \<not> dominated viable d \<longrightarrow> d = b)"
      using r(1) by blast
  qed
  finally show ?thesis .
qed

subsection \<open>The selection\<close>

text \<open>A method is applicable if every argument converts, with these ranks.\<close>

definition applicable ::
  "class_table \<Rightarrow> class_declaration option \<Rightarrow> (expression \<Rightarrow> string \<Rightarrow> string option) \<Rightarrow> expression list \<Rightarrow>
     string list \<Rightarrow> method_ref \<Rightarrow> int list \<Rightarrow> bool" where
  "applicable t current probe arguments types m ranks \<longleftrightarrow> length (me_parameters (snd m)) = length types \<and>
     argument_ranks t current probe (me_parameters (snd m)) arguments types = Some (Some ranks)"

lemma viable_overloads_set:
  "viable_overloads t current probe arguments types cs = Some viable \<Longrightarrow>
     set viable = {(c, ranks). c \<in> set cs \<and> applicable t current probe arguments types c ranks} \<and>
     (distinct (map fst cs) \<longrightarrow> distinct (map (fst \<circ> fst) viable))"
proof (induction cs arbitrary: viable)
  case (Cons c cs)
  show ?case
  proof (cases "length (me_parameters (snd c)) = length types")
    case False
    with Cons show ?thesis by (auto simp: applicable_def)
  next
    case True
    with Cons.prems obtain ranks rest where r:
        "argument_ranks t current probe (me_parameters (snd c)) arguments types = Some ranks"
        "viable_overloads t current probe arguments types cs = Some rest"
        "viable = (case ranks of None \<Rightarrow> rest | Some ranks \<Rightarrow> (c, ranks) # rest)"
      by (auto simp: bind_eq_Some_conv)
    have rest: "set rest = {(c, ranks). c \<in> set cs \<and> applicable t current probe arguments types c ranks}"
      "distinct (map fst cs) \<Longrightarrow> distinct (map (fst \<circ> fst) rest)"
      using Cons.IH [OF r(2)] by blast+
    have c: "applicable t current probe arguments types c rs \<longleftrightarrow> ranks = Some rs" for rs
      using r(1) True by (auto simp: applicable_def)
    show ?thesis
    proof (cases ranks)
      case None
      with r(3) rest c show ?thesis by (auto simp: comp_def)
    next
      case (Some rs)
      have "fst ` fst ` set rest \<subseteq> fst ` set cs" unfolding rest(1) by auto
      with Some r(3) rest(2) have "distinct (map fst (c # cs)) \<longrightarrow> distinct (map (fst \<circ> fst) viable)"
        by (auto simp: image_comp)
      moreover have "set viable = insert (c, rs) (set rest)" using Some r(3) by simp
      ultimately show ?thesis unfolding rest(1) using Some c by (auto simp: comp_def)
    qed
  qed
qed simp

text \<open>A candidate that beats every other applicable candidate.\<close>

definition best_overload ::
  "class_table \<Rightarrow> class_declaration option \<Rightarrow> (expression \<Rightarrow> string \<Rightarrow> string option) \<Rightarrow> method_ref list \<Rightarrow>
     expression list \<Rightarrow> string list \<Rightarrow> method_ref \<Rightarrow> bool" where
  "best_overload t current probe candidates arguments types m \<longleftrightarrow>
     (\<exists>ranks. m \<in> set candidates \<and> applicable t current probe arguments types m ranks \<and>
        (\<forall>c \<in> set candidates. \<forall>other. fst c \<noteq> fst m \<and> applicable t current probe arguments types c other \<longrightarrow>
          beats ranks other))"

lemma choose_best_cases:
  "choose_best viable = No_overload \<longleftrightarrow> viable = []"
  "choose_best viable = Ambiguous \<longleftrightarrow> viable \<noteq> [] \<and> (\<forall>m. choose_best viable \<noteq> Chosen m)"
  by (auto simp: choose_best_def split: list.splits)

text \<open>
  C15: Overload selection always ends; it chooses a method if and only if the method is an
  applicable candidate that is at least as good as every other applicable candidate for every
  argument and better for one. It reports that there is no overload if and only if no candidate is
  applicable, and an ambiguity if and only if some are and none of them is best.
\<close>

theorem selectOverload_best:
  assumes "hierarchy_ok t" "distinct (map fst candidates)"
  shows "\<exists>choice. selectOverload t current probe candidates arguments types = Some choice \<and>
    (\<forall>m. choice = Chosen m \<longleftrightarrow> best_overload t current probe candidates arguments types m) \<and>
    (choice = No_overload \<longleftrightarrow> \<not> (\<exists>m \<in> set candidates. \<exists>ranks. applicable t current probe arguments types m ranks)) \<and>
    (choice = Ambiguous \<longleftrightarrow> (\<exists>m \<in> set candidates. \<exists>ranks. applicable t current probe arguments types m ranks) \<and>
       \<not> (\<exists>m. best_overload t current probe candidates arguments types m))"
proof -
  obtain viable where v: "viable_overloads t current probe arguments types candidates = Some viable"
    using viable_overloads_defined [OF assms(1), of current probe arguments types candidates]
    by (auto simp: defined_def)
  note set_v = viable_overloads_set [OF v]
  have chosen: "choose_best viable = Chosen m \<longleftrightarrow> best_overload t current probe candidates arguments types m" for m
    using choose_best_Chosen [of viable m] set_v assms(2) by (auto simp: best_overload_def)
  have none: "viable = [] \<longleftrightarrow> \<not> (\<exists>m \<in> set candidates. \<exists>ranks. applicable t current probe arguments types m ranks)"
  proof
    assume "viable = []"
    then have "{(c, ranks). c \<in> set candidates \<and> applicable t current probe arguments types c ranks} = {}"
      using set_v by simp
    then show "\<not> (\<exists>m \<in> set candidates. \<exists>ranks. applicable t current probe arguments types m ranks)" by blast
  next
    assume "\<not> (\<exists>m \<in> set candidates. \<exists>ranks. applicable t current probe arguments types m ranks)"
    then have "set viable = {}" unfolding conjunct1 [OF set_v] by simp
    then show "viable = []" by simp
  qed
  have "selectOverload t current probe candidates arguments types = Some (choose_best viable)"
    using v by (simp add: selectOverload_def)
  moreover have "choose_best viable = No_overload \<longleftrightarrow> \<not> (\<exists>m \<in> set candidates. \<exists>ranks. applicable t current probe arguments types m ranks)"
    using none choose_best_cases(1) [of viable] by (rule HOL.trans [rotated])
  moreover have "choose_best viable = Ambiguous \<longleftrightarrow> (\<exists>m \<in> set candidates. \<exists>ranks. applicable t current probe arguments types m ranks) \<and>
       \<not> (\<exists>m. best_overload t current probe candidates arguments types m)"
    unfolding choose_best_cases(2) chosen none by blast
  ultimately show ?thesis using chosen by (intro exI [of _ "choose_best viable"]) (intro conjI allI)
qed

definition sample_method :: "string \<Rightarrow> method_declaration" where
  "sample_method type' =
     default_method\<lparr>me_name := ''f'', me_parameters := [\<lparr>pa_type = type', pa_name = ''x'', pa_location = default_location\<rparr>]\<rparr>"

definition sample_candidates :: "method_ref list" where
  "sample_candidates = [((''C'', 0), sample_method ''any''), ((''C'', 1), sample_method ''int'')]"

lemma sample_choice:
  "map_option (\<lambda>c. case c of Chosen m \<Rightarrow> snd (fst m) | _ \<Rightarrow> 7)
     (selectOverload [] None (\<lambda>_ _. None) sample_candidates
       [Expression default_expression_info None None []] [''int'']) = Some 1"
  by code_simp

theorem selectOverload_best_witness:
  "\<exists>m ranks. selectOverload [] None (\<lambda>_ _. None) sample_candidates
      [Expression default_expression_info None None []] [''int''] = Some (Chosen m) \<and>
    m \<in> set sample_candidates \<and>
    applicable [] None (\<lambda>_ _. None) [Expression default_expression_info None None []] [''int''] m ranks"
proof -
  have "hierarchy_ok []" by (simp add: hierarchy_ok_def direct_base_def acyclic_def)
  moreover have "distinct (map fst sample_candidates)" by (simp add: sample_candidates_def)
  note best = selectOverload_best [OF calculation(1) this, of None "\<lambda>_ _. None"
    "[Expression default_expression_info None None []]" "[''int'']"]
  then obtain choice where c: "selectOverload [] None (\<lambda>_ _. None) sample_candidates
      [Expression default_expression_info None None []] [''int''] = Some choice"
    and best: "\<And>m. choice = Chosen m \<Longrightarrow> \<exists>ranks. m \<in> set sample_candidates \<and>
      applicable [] None (\<lambda>_ _. None) [Expression default_expression_info None None []] [''int''] m ranks"
    unfolding best_overload_def by (elim exE conjE) metis
  from sample_choice obtain m where m: "choice = Chosen m" unfolding c by (cases choice) simp_all
  from best [OF m] c m show ?thesis by metis
qed

end
