(* ===== verification/Name_Resolution.thy ===== *)
theory Name_Resolution
  imports Class_Table
begin

text \<open>
  The resolution of the names of classes and types (\<open>src/SemanticAnalyzer.cpp\<close>): \<open>qualify\<close>,
  \<open>lookupClassName\<close>, \<open>normalizeType\<close> and the walks over expressions and statements that replace
  the names in them.
\<close>

record import_binding =
  ib_qualifiedName :: string
  ib_moduleName :: string

text \<open>The members of the analyzer that names are looked up in.\<close>

record name_scope =
  sc_classes :: class_table
  sc_namespaceOwners :: "(string \<times> string) list"
  sc_importAliases :: "(string \<times> (string \<times> import_binding) list) list"
  sc_currentModule :: string

definition add_component :: "string \<Rightarrow> string \<Rightarrow> string" where
  "add_component component result = (if result = [] then [] else result @ ''.'') @ component"

definition qualify :: "string list \<Rightarrow> string \<Rightarrow> string" where
  "qualify path name =
     (let result = fold add_component path [] in
      if name = [] then result else add_component name result)"

definition activeImports :: "name_scope \<Rightarrow> (string \<times> import_binding) list" where
  "activeImports scope =
     (case map_of (sc_importAliases scope) (sc_currentModule scope) of None \<Rightarrow> [] | Some aliases \<Rightarrow> aliases)"

text \<open>The lambda \<open>visible\<close>: a class or namespace of the unit \<open>owner\<close>, or a class of all units.\<close>

definition visible :: "name_scope \<Rightarrow> string \<Rightarrow> string \<Rightarrow> bool" where
  "visible scope owner candidate =
     (case map_of (sc_classes scope) candidate of
        Some c \<Rightarrow> cl_builtin c \<or> (cl_moduleName c = [] \<and> cl_name c = ''String'') \<or> cl_moduleName c = owner
      | None \<Rightarrow> map_of (sc_namespaceOwners scope) candidate = Some owner)"

text \<open>The loops over the enclosing namespaces, from \<open>n\<close> components of the path down to none.\<close>

fun has_name :: "name_scope \<Rightarrow> string \<Rightarrow> string list \<Rightarrow> nat \<Rightarrow> bool" where
  "has_name scope name path 0 \<longleftrightarrow>
     visible scope (sc_currentModule scope) (qualify [] name) \<or> map_of (activeImports scope) name \<noteq> None"
| "has_name scope name path (Suc n) \<longleftrightarrow>
     visible scope (sc_currentModule scope) (qualify (take (Suc n) path) name) \<or> has_name scope name path n"

definition hasNamespaceOrClass :: "name_scope \<Rightarrow> string \<Rightarrow> string list \<Rightarrow> bool" where
  "hasNamespaceOrClass scope name path = has_name scope name path (length path)"

text \<open>The loop that cuts a name at its dots: there is no empty component at the end.\<close>

definition name_components :: "string \<Rightarrow> string list" where
  "name_components name =
     (let parts = split_on (CHR ''.'') name in if last parts = [] then butlast parts else parts)"

fun first_component :: "name_scope \<Rightarrow> string \<Rightarrow> string list \<Rightarrow> nat \<Rightarrow> (string \<times> string) option" where
  "first_component scope name path 0 =
     (if visible scope (sc_currentModule scope) (qualify [] name) then
        Some (qualify [] name, sc_currentModule scope)
      else map_option (\<lambda>b. (ib_qualifiedName b, ib_moduleName b)) (map_of (activeImports scope) name))"
| "first_component scope name path (Suc n) =
     (if visible scope (sc_currentModule scope) (qualify (take (Suc n) path) name) then
        Some (qualify (take (Suc n) path) name, sc_currentModule scope)
      else first_component scope name path n)"

fun further_components :: "name_scope \<Rightarrow> string \<Rightarrow> string list \<Rightarrow> string \<Rightarrow> string option" where
  "further_components scope owner [] candidate = Some candidate"
| "further_components scope owner (c # cs) candidate =
     (if visible scope owner (candidate @ ''.'' @ c)
      then further_components scope owner cs (candidate @ ''.'' @ c) else None)"

definition lookupClassName :: "name_scope \<Rightarrow> string \<Rightarrow> string list \<Rightarrow> (string, string) result" where
  "lookupClassName scope name path =
     (case name_components name of
        [] \<Rightarrow> Inl (''unknown class '' @ quoted name)
      | c # cs \<Rightarrow>
          (case first_component scope c path (length path) of
             None \<Rightarrow> Inl (''unknown class '' @ quoted name)
           | Some (candidate, owner) \<Rightarrow>
               (case further_components scope owner cs candidate of
                  None \<Rightarrow> Inl (''unknown qualified class '' @ quoted name)
                | Some candidate \<Rightarrow>
                    if map_of (sc_classes scope) candidate = None
                    then Inl (''qualified name '' @ quoted name @ '' is not a class'')
                    else Inr candidate)))"

type_synonym 'a checked = "(diagnostic, 'a) result"

definition fail_at :: "source_location \<Rightarrow> string \<Rightarrow> 'a checked" where
  "fail_at location message = Inl (DiagnosticError location message)"

definition resolveClassName :: "name_scope \<Rightarrow> string \<Rightarrow> string list \<Rightarrow> source_location \<Rightarrow> string checked" where
  "resolveClassName scope name path location =
     (case lookupClassName scope name path of
        Inl message \<Rightarrow> fail_at location message
      | Inr resolved \<Rightarrow> Inr resolved)"

subsection \<open>Types\<close>

text \<open>A loop that replaces every element and may throw.\<close>

fun mapE :: "('a \<Rightarrow> ('e, 'b) result) \<Rightarrow> 'a list \<Rightarrow> ('e, 'b list) result" where
  "mapE f [] = Inr []"
| "mapE f (x # xs) = bindE (f x) (\<lambda>y. bindE (mapE f xs) (\<lambda>ys. Inr (y # ys)))"

lemma mapE_cong [fundef_cong]:
  "xs = ys \<Longrightarrow> (\<And>x. x \<in> set ys \<Longrightarrow> f x = g x) \<Longrightarrow> mapE f xs = mapE g ys"
  by (induction ys arbitrary: xs) auto

lemma substr_shorter: "0 < pos \<Longrightarrow> s \<noteq> [] \<Longrightarrow> length (substr s pos count) < length s"
  by (cases s) (auto simp: substr_def)

lemma split_parameters_shorter:
  "type' \<noteq> [] \<Longrightarrow> 0 < first \<Longrightarrow> (\<And>q. q \<in> set parameters \<Longrightarrow> length q < length type') \<Longrightarrow>
     0 < fst (split_parameters type' index first depth parameters) \<and>
     (\<forall>q \<in> set (snd (split_parameters type' index first depth parameters)). length q < length type')"
proof (induction type' index first depth parameters rule: split_parameters.induct)
  case (1 type' index first depth parameters)
  show ?case
  proof (cases "index + 2 < length type'")
    case False
    then show ?thesis using 1(6,7) by (simp add: split_parameters.simps)
  next
    case True
    have new: "length q < length type'" if "q \<in> set (parameters @ [substr type' first (index - first)])" for q
      using that 1(5-7) substr_shorter by auto
    show ?thesis
    proof (cases "type' ! index \<in> {CHR ''<'', CHR ''>''}")
      case br: True
      then show ?thesis
        using True 1(1,2,5-7) by (subst (1 2) split_parameters.simps) auto
    next
      case False
      show ?thesis
      proof (cases "type' ! index = CHR '','' \<and> depth = 0")
        case sep: True
        have "split_parameters type' index first depth parameters =
            split_parameters type' (index + 1) (index + 1) depth (parameters @ [substr type' first (index - first)])"
          using True sep by (subst split_parameters.simps) simp
        with 1(3) [OF True _ _ sep 1(5) _ new] sep show ?thesis by simp
      next
        case other: False
        have "split_parameters type' index first depth parameters =
            split_parameters type' (index + 1) first depth parameters"
          using True False other by (subst split_parameters.simps) auto
        with 1(4) [OF True _ _ other 1(5-7)] False show ?thesis by auto
      qed
    qed
  qed
qed

lemma callback_parts_shorter:
  assumes "isCallbackType type'"
  shows "length (cs_result (callbackSignature type')) < length type'"
    "p \<in> set (cs_parameters (callbackSignature type')) \<Longrightarrow> length p < length type'"
proof -
  have long: "type' \<noteq> []" using assms by (auto simp: isCallbackType_def callback_prefix_def)
  then show "length (cs_result (callbackSignature type')) < length type'"
    using substr_shorter by (auto simp: callbackSignature_def Let_def split: prod.splits)
  let ?open = "find_open type' 9 0"
  from split_parameters_shorter [OF long, of "?open + 1" "[]" "?open + 1" 0]
  show "length p < length type'" if "p \<in> set (cs_parameters (callbackSignature type'))"
    using that substr_shorter [OF _ long]
    by (auto simp: callbackSignature_def Let_def split: prod.splits if_splits)
qed

definition builtin_types :: "string list" where
  "builtin_types = [''int'', ''bool'', ''float'', ''unsigned'', ''list'', ''dict'', ''buffer'', ''handle'', ''any'', ''type'']"

function normalizeType :: "name_scope \<Rightarrow> string \<Rightarrow> string list \<Rightarrow> source_location \<Rightarrow> string checked" where
  "normalizeType scope type' path location =
     (if isCallbackType type' then
        bindE (normalizeType scope (cs_result (callbackSignature type')) path location) (\<lambda>result.
        bindE (mapE (\<lambda>p. normalizeType scope p path location) (cs_parameters (callbackSignature type')))
          (\<lambda>parameters. Inr (callbackType result parameters)))
      else if type' \<in> set builtin_types \<or> type' = ''void'' then Inr type'
      else if CHR ''.'' \<notin> set type' \<and> \<not> hasNamespaceOrClass scope type' path then
        fail_at location (''unknown type or class '' @ quoted type')
      else resolveClassName scope type' path location)"
  by pat_completeness auto
termination by (relation "measure (\<lambda>(scope, type', path, location). length type')") (auto simp: callback_parts_shorter)

declare normalizeType.simps [simp del]

subsection \<open>Expressions and statements\<close>

definition resolve_type_name :: "name_scope \<Rightarrow> string list \<Rightarrow> expression_info \<Rightarrow> expression_info checked" where
  "resolve_type_name scope path i =
     (if CHR ''.'' \<notin> set (ex_value i) \<and> \<not> hasNamespaceOrClass scope (ex_value i) path then
        fail_at (ex_typeLocation i) (''unknown type name '' @ quoted (ex_value i))
      else bindE (resolveClassName scope (ex_value i) path (ex_typeLocation i)) (\<lambda>v.
        Inr (i\<lparr>ex_value := v\<rparr>)))"

definition normalize_node :: "name_scope \<Rightarrow> string list \<Rightarrow> expression_info \<Rightarrow> expression_info checked" where
  "normalize_node scope path i =
     (if ex_kind i = EK_ObjectCast \<and> ex_value i \<notin> set (''String'' # ''null'' # ''void'' # builtin_types) then
        resolve_type_name scope path i
      else if ex_kind i = EK_TypeTest \<and> ex_value i \<notin> set (''void'' # builtin_types) then
        resolve_type_name scope path i
      else if ex_kind i = EK_TypeName \<and> ex_value i \<notin> set builtin_types then
        bindE (resolveClassName scope (ex_value i) path (ex_typeLocation i)) (\<lambda>v. Inr (i\<lparr>ex_value := v\<rparr>))
      else Inr i)"

fun normalizeExpression :: "name_scope \<Rightarrow> string list \<Rightarrow> expression \<Rightarrow> expression checked" where
  "normalizeExpression scope path (Expression i l r args) =
     bindE (normalize_node scope path i) (\<lambda>i.
     bindE (case l of None \<Rightarrow> Inr None
       | Some e \<Rightarrow> bindE (normalizeExpression scope path e) (\<lambda>e. Inr (Some e))) (\<lambda>l.
     bindE (case r of None \<Rightarrow> Inr None
       | Some e \<Rightarrow> bindE (normalizeExpression scope path e) (\<lambda>e. Inr (Some e))) (\<lambda>r.
     bindE (mapE (normalizeExpression scope path) args) (\<lambda>args.
       Inr (Expression i l r args)))))"

definition normalize_capture :: "name_scope \<Rightarrow> string list \<Rightarrow> inline_capture \<Rightarrow> inline_capture checked" where
  "normalize_capture scope path c =
     bindE (normalizeType scope (ic_type c) path (ic_location c)) (\<lambda>t. Inr (c\<lparr>ic_type := t\<rparr>))"

text \<open>The names and types of a statement itself, before its handlers.\<close>

definition normalize_names :: "name_scope \<Rightarrow> string list \<Rightarrow> statement_info \<Rightarrow> statement_info checked" where
  "normalize_names scope path i =
     (if st_kind i = SK_Declaration then
        bindE (normalizeType scope (st_declaredType i) path (st_location i)) (\<lambda>t.
          Inr (i\<lparr>st_declaredType := t\<rparr>))
      else if st_kind i = SK_InlineC then
        bindE (mapE (normalize_capture scope path) (st_inlineCaptures i)) (\<lambda>cs.
          Inr (i\<lparr>st_inlineCaptures := cs\<rparr>))
      else if st_kind i = SK_SuperConstructorCall then
        bindE (resolveClassName scope (st_name i) path (st_location i)) (\<lambda>n. Inr (i\<lparr>st_name := n\<rparr>))
      else Inr i)"

definition normalize_handler :: "name_scope \<Rightarrow> string list \<Rightarrow> handler_info \<Rightarrow> handler_info checked" where
  "normalize_handler scope path h =
     (if eh_exceptionType h = [] then Inr h
      else bindE (resolveClassName scope (eh_exceptionType h) path (eh_location h)) (\<lambda>n.
        Inr (h\<lparr>eh_exceptionType := n\<rparr>)))"

definition normalize_operands :: "name_scope \<Rightarrow> string list \<Rightarrow> statement_info \<Rightarrow> statement_info checked" where
  "normalize_operands scope path i =
     bindE (case st_target i of None \<Rightarrow> Inr None
       | Some e \<Rightarrow> bindE (normalizeExpression scope path e) (\<lambda>e. Inr (Some e))) (\<lambda>target.
     bindE (mapE (normalizeExpression scope path) (st_expressions i)) (\<lambda>es.
       Inr (i\<lparr>st_target := target, st_expressions := es\<rparr>)))"

fun normalize_statement :: "name_scope \<Rightarrow> string list \<Rightarrow> statement \<Rightarrow> statement checked" where
  "normalize_statement scope path (Statement i body alternate cleanup handlers) =
     bindE (normalize_names scope path i) (\<lambda>i.
     bindE (mapE (\<lambda>h. case h of ExceptionHandler hi b \<Rightarrow>
         bindE (normalize_handler scope path hi) (\<lambda>hi.
         bindE (mapE (normalize_statement scope path) b) (\<lambda>b. Inr (ExceptionHandler hi b)))) handlers)
       (\<lambda>handlers.
     bindE (normalize_operands scope path i) (\<lambda>i.
     bindE (mapE (normalize_statement scope path) body) (\<lambda>body.
     bindE (mapE (normalize_statement scope path) alternate) (\<lambda>alternate.
     bindE (mapE (normalize_statement scope path) cleanup) (\<lambda>cleanup.
       Inr (Statement i body alternate cleanup handlers)))))))"

definition normalizeStatements :: "name_scope \<Rightarrow> string list \<Rightarrow> statement list \<Rightarrow> statement list checked" where
  "normalizeStatements scope path statements = mapE (normalize_statement scope path) statements"

subsection \<open>Scoping\<close>

lemma first_component_scope:
  "first_component scope c path n = Some (candidate, owner) \<Longrightarrow> n \<le> length path \<Longrightarrow>
     (\<exists>k \<le> n. candidate = qualify (take k path) c \<and> owner = sc_currentModule scope \<and> visible scope owner candidate \<and>
        (\<forall>j. k < j \<and> j \<le> n \<longrightarrow> \<not> visible scope owner (qualify (take j path) c))) \<or>
     (\<exists>b. map_of (activeImports scope) c = Some b \<and> candidate = ib_qualifiedName b \<and> owner = ib_moduleName b \<and>
        (\<forall>j \<le> n. \<not> visible scope (sc_currentModule scope) (qualify (take j path) c)))"
proof (induction n)
  case (Suc n)
  show ?case
  proof (cases "visible scope (sc_currentModule scope) (qualify (take (Suc n) path) c)")
    case True
    with Suc.prems(1) show ?thesis by (intro disjI1 exI [of _ "Suc n"]) auto
  next
    case False
    with Suc show ?thesis by (simp add: le_Suc_eq) (metis le_Suc_eq le_antisym not_less_eq_eq nat_less_le)
  qed
qed (auto split: if_splits)

lemma further_components_prefix:
  "further_components scope owner cs candidate = Some r \<Longrightarrow>
     r = fold (\<lambda>c s. s @ ''.'' @ c) cs candidate"
  by (induction cs arbitrary: candidate) (auto split: if_splits)

text \<open>A name seen from a namespace: the innermost enclosing namespace that has it.\<close>

definition innermost :: "name_scope \<Rightarrow> string list \<Rightarrow> string \<Rightarrow> string \<Rightarrow> bool" where
  "innermost scope path c candidate \<longleftrightarrow>
     (\<exists>k \<le> length path. candidate = qualify (take k path) c \<and>
        visible scope (sc_currentModule scope) candidate \<and>
        (\<forall>j. k < j \<and> j \<le> length path \<longrightarrow> \<not> visible scope (sc_currentModule scope) (qualify (take j path) c)))"

text \<open>An import counts only if no enclosing namespace has the name.\<close>

definition imported :: "name_scope \<Rightarrow> string list \<Rightarrow> string \<Rightarrow> string \<Rightarrow> bool" where
  "imported scope path c candidate \<longleftrightarrow>
     (\<exists>b. map_of (activeImports scope) c = Some b \<and> candidate = ib_qualifiedName b) \<and>
     (\<forall>j \<le> length path. \<not> visible scope (sc_currentModule scope) (qualify (take j path) c))"

text \<open>
  C34: A class name that is resolved is the name of a class. Its first component is found in
  the innermost enclosing namespace that declares it in the same compilation unit or, if there
  is none, among the imports; the further components follow it.
\<close>

theorem lookupClassName_innermost:
  assumes "lookupClassName scope name path = Inr r"
  shows "map_of (sc_classes scope) r \<noteq> None \<and>
    (\<exists>c cs candidate. name_components name = c # cs \<and> r = fold (\<lambda>c s. s @ ''.'' @ c) cs candidate \<and>
       (innermost scope path c candidate \<or> imported scope path c candidate))"
proof -
  obtain c cs candidate owner where
      n: "name_components name = c # cs" "first_component scope c path (length path) = Some (candidate, owner)"
        "further_components scope owner cs candidate = Some r" "map_of (sc_classes scope) r \<noteq> None"
    using assms by (auto simp: lookupClassName_def split: list.splits option.splits if_splits)
  have "innermost scope path c candidate \<or> imported scope path c candidate"
    using first_component_scope [OF n(2) order_refl] by (auto simp: innermost_def imported_def)
  with n further_components_prefix [OF n(3)] show ?thesis by blast
qed

text \<open>A class \<open>geo.Point\<close> of the main unit, and an import of a class of another unit.\<close>

definition geo_scope :: name_scope where
  "geo_scope =
     \<lparr>sc_classes = [(''geo.Point'', default_class\<lparr>cl_name := ''geo.Point''\<rparr>),
        (''lib.Queue'', default_class\<lparr>cl_name := ''lib.Queue'', cl_moduleName := ''lib''\<rparr>)],
      sc_namespaceOwners = [(''geo'', [])],
      sc_importAliases = [([], [(''Queue'', \<lparr>ib_qualifiedName = ''lib.Queue'', ib_moduleName = ''lib''\<rparr>)])],
      sc_currentModule = []\<rparr>"

lemma geo_scope_lookup:
  "lookupClassName geo_scope ''Point'' [''geo''] = Inr ''geo.Point''"
  "lookupClassName geo_scope ''geo.Point'' [''geo''] = Inr ''geo.Point''"
  "lookupClassName geo_scope ''Queue'' [''geo''] = Inr ''lib.Queue''"
  by code_simp+

theorem lookupClassName_innermost_witness:
  "map_of (sc_classes geo_scope) ''lib.Queue'' \<noteq> None \<and>
    (\<exists>c cs candidate. name_components ''Queue'' = c # cs \<and> ''lib.Queue'' = fold (\<lambda>c s. s @ ''.'' @ c) cs candidate \<and>
       (innermost geo_scope [''geo''] c candidate \<or> imported geo_scope [''geo''] c candidate))"
  by (rule lookupClassName_innermost [OF geo_scope_lookup(3)])

lemma resolveClassName_class:
  "resolveClassName scope name path location = Inr r \<Longrightarrow> map_of (sc_classes scope) r \<noteq> None"
  by (auto simp: resolveClassName_def lookupClassName_def fail_at_def
      split: sum.splits list.splits option.splits if_splits)

subsection \<open>Resolved programs\<close>

inductive known_type :: "class_table \<Rightarrow> string \<Rightarrow> bool" for t where
  known_plain: "name \<in> set builtin_types \<or> name = ''void'' \<Longrightarrow> known_type t name"
| known_class: "map_of t name \<noteq> None \<Longrightarrow> known_type t name"
| known_callback: "known_type t r \<Longrightarrow> list_all (known_type t) ps \<Longrightarrow> known_type t (callbackType r ps)"

lemma mapE_Inr_all:
  "mapE f xs = Inr ys \<Longrightarrow> (\<And>x y. x \<in> set xs \<Longrightarrow> f x = Inr y \<Longrightarrow> P y) \<Longrightarrow> list_all P ys"
proof (induction xs arbitrary: ys)
  case (Cons x xs)
  then obtain y zs where y: "f x = Inr y" "mapE f xs = Inr zs" "ys = y # zs"
    by (auto simp: bindE_Inr_iff)
  moreover have "list_all P zs" using Cons.IH [OF y(2)] Cons.prems(2) by (metis list.set_intros(2))
  moreover have "P y" using Cons.prems(2) [of x y] y(1) by simp
  ultimately show ?case by simp
qed simp

lemma normalizeType_known:
  "normalizeType scope type' path location = Inr r \<Longrightarrow> known_type (sc_classes scope) r"
proof (induction scope type' path location arbitrary: r rule: normalizeType.induct)
  case (1 scope type' path location)
  show ?case
  proof (cases "isCallbackType type'")
    case True
    with 1(3) obtain result parameters where
        "normalizeType scope (cs_result (callbackSignature type')) path location = Inr result"
        "mapE (\<lambda>p. normalizeType scope p path location) (cs_parameters (callbackSignature type')) = Inr parameters"
        "r = callbackType result parameters"
      by (subst (asm) normalizeType.simps) (auto simp: bindE_Inr_iff)
    moreover from this have "list_all (known_type (sc_classes scope)) parameters"
      using 1(2) [OF True] by (intro mapE_Inr_all) auto
    ultimately show ?thesis using 1(1) [OF True] by (auto intro: known_callback)
  next
    case False
    with 1(3) show ?thesis
      by (subst (asm) normalizeType.simps)
        (auto split: if_splits simp: fail_at_def intro: known_plain known_class dest!: resolveClassName_class)
  qed
qed

definition node_resolved :: "class_table \<Rightarrow> expression_info \<Rightarrow> bool" where
  "node_resolved t i \<longleftrightarrow> (ex_kind i \<in> {EK_ObjectCast, EK_TypeTest, EK_TypeName} \<longrightarrow>
     ex_value i \<in> set (''String'' # ''null'' # ''void'' # builtin_types) \<or> map_of t (ex_value i) \<noteq> None)"

fun expression_resolved :: "class_table \<Rightarrow> expression \<Rightarrow> bool" where
  "expression_resolved t (Expression i l r args) \<longleftrightarrow> node_resolved t i \<and>
     (case l of None \<Rightarrow> True | Some e \<Rightarrow> expression_resolved t e) \<and>
     (case r of None \<Rightarrow> True | Some e \<Rightarrow> expression_resolved t e) \<and> list_all (expression_resolved t) args"

definition names_resolved :: "class_table \<Rightarrow> statement_info \<Rightarrow> bool" where
  "names_resolved t i \<longleftrightarrow>
     (st_kind i = SK_Declaration \<longrightarrow> known_type t (st_declaredType i)) \<and>
     (st_kind i = SK_InlineC \<longrightarrow> list_all (\<lambda>c. known_type t (ic_type c)) (st_inlineCaptures i)) \<and>
     (st_kind i = SK_SuperConstructorCall \<longrightarrow> map_of t (st_name i) \<noteq> None)"

definition operands_resolved :: "class_table \<Rightarrow> statement_info \<Rightarrow> bool" where
  "operands_resolved t i \<longleftrightarrow> (case st_target i of None \<Rightarrow> True | Some e \<Rightarrow> expression_resolved t e) \<and>
     list_all (expression_resolved t) (st_expressions i)"

definition handler_resolved :: "class_table \<Rightarrow> handler_info \<Rightarrow> bool" where
  "handler_resolved t h \<longleftrightarrow> eh_exceptionType h = [] \<or> map_of t (eh_exceptionType h) \<noteq> None"

fun statement_resolved :: "class_table \<Rightarrow> statement \<Rightarrow> bool" where
  "statement_resolved t (Statement i b a c hs) \<longleftrightarrow> names_resolved t i \<and> operands_resolved t i \<and>
     list_all (statement_resolved t) b \<and> list_all (statement_resolved t) a \<and> list_all (statement_resolved t) c \<and>
     list_all (\<lambda>h. case h of ExceptionHandler hi hb \<Rightarrow>
       handler_resolved t hi \<and> list_all (statement_resolved t) hb) hs"

lemma normalize_node_resolved:
  "normalize_node scope path i = Inr i' \<Longrightarrow> node_resolved (sc_classes scope) i'"
  by (auto simp: normalize_node_def resolve_type_name_def node_resolved_def bindE_Inr_iff fail_at_def
      split: if_splits dest!: resolveClassName_class)

lemma normalizeExpression_resolved:
  "normalizeExpression scope path e = Inr e' \<Longrightarrow> expression_resolved (sc_classes scope) e'"
proof (induction e arbitrary: e')
  case (Expression i l r args)
  then obtain i' l' r' args' where n: "normalize_node scope path i = Inr i'"
      "(case l of None \<Rightarrow> Inr None | Some e \<Rightarrow> bindE (normalizeExpression scope path e) (\<lambda>e. Inr (Some e))) = Inr l'"
      "(case r of None \<Rightarrow> Inr None | Some e \<Rightarrow> bindE (normalizeExpression scope path e) (\<lambda>e. Inr (Some e))) = Inr r'"
      "mapE (normalizeExpression scope path) args = Inr args'" "e' = Expression i' l' r' args'"
    by (auto simp: bindE_Inr_iff)
  have "list_all (expression_resolved (sc_classes scope)) args'"
    using n(4) Expression.IH(3) by (rule mapE_Inr_all)
  moreover have "case l' of None \<Rightarrow> True | Some e \<Rightarrow> expression_resolved (sc_classes scope) e"
    using n(2) Expression.IH(1) by (auto simp: bindE_Inr_iff split: option.splits)
  moreover have "case r' of None \<Rightarrow> True | Some e \<Rightarrow> expression_resolved (sc_classes scope) e"
    using n(3) Expression.IH(2) by (auto simp: bindE_Inr_iff split: option.splits)
  ultimately show ?case using n(5) normalize_node_resolved [OF n(1)] by simp
qed

lemma normalize_names_resolved:
  "normalize_names scope path i = Inr i' \<Longrightarrow> names_resolved (sc_classes scope) i'"
  by (auto simp: normalize_names_def names_resolved_def normalize_capture_def bindE_Inr_iff
      split: if_splits dest: normalizeType_known resolveClassName_class elim!: mapE_Inr_all)
    (use normalizeType_known in blast)

lemma normalize_operands_resolved:
  assumes "normalize_operands scope path i = Inr i'"
  shows "operands_resolved (sc_classes scope) i'" "names_resolved t i' \<longleftrightarrow> names_resolved t i"
  using assms
  by (auto simp: normalize_operands_def operands_resolved_def names_resolved_def bindE_Inr_iff
      split: option.splits dest: normalizeExpression_resolved elim!: mapE_Inr_all)

lemma normalize_handler_resolved:
  "normalize_handler scope path h = Inr h' \<Longrightarrow> handler_resolved (sc_classes scope) h'"
  by (auto simp: normalize_handler_def handler_resolved_def bindE_Inr_iff
      split: if_splits dest: resolveClassName_class)

lemma normalize_statement_resolved:
  "normalize_statement scope path s = Inr s' \<Longrightarrow> statement_resolved (sc_classes scope) s'"
proof (induction scope path s arbitrary: s' rule: normalize_statement.induct)
  case (1 scope path i body alternate cleanup handlers)
  let ?t = "sc_classes scope"
  from 1(5) obtain i1 hs i2 b a c where n: "normalize_names scope path i = Inr i1"
      "mapE (\<lambda>h. case h of ExceptionHandler hi b \<Rightarrow>
         bindE (normalize_handler scope path hi) (\<lambda>hi.
         bindE (mapE (normalize_statement scope path) b) (\<lambda>b. Inr (ExceptionHandler hi b)))) handlers = Inr hs"
      "normalize_operands scope path i1 = Inr i2"
      "mapE (normalize_statement scope path) body = Inr b"
      "mapE (normalize_statement scope path) alternate = Inr a"
      "mapE (normalize_statement scope path) cleanup = Inr c" "s' = Statement i2 b a c hs"
    by (auto simp: bindE_Inr_iff)
  have "list_all (statement_resolved ?t) b" using n(4) 1(2) by (rule mapE_Inr_all)
  moreover have "list_all (statement_resolved ?t) a" using n(5) 1(3) by (rule mapE_Inr_all)
  moreover have "list_all (statement_resolved ?t) c" using n(6) 1(4) by (rule mapE_Inr_all)
  moreover have "list_all (\<lambda>h. case h of ExceptionHandler hi hb \<Rightarrow>
      handler_resolved ?t hi \<and> list_all (statement_resolved ?t) hb) hs"
    using n(2)
  proof (rule mapE_Inr_all)
    fix h h'
    assume h: "h \<in> set handlers" "(case h of ExceptionHandler hi b \<Rightarrow>
         bindE (normalize_handler scope path hi) (\<lambda>hi.
         bindE (mapE (normalize_statement scope path) b) (\<lambda>b. Inr (ExceptionHandler hi b)))) = Inr h'"
    obtain hi hb where e: "h = ExceptionHandler hi hb" by (cases h)
    with h obtain hi' hb' where h': "normalize_handler scope path hi = Inr hi'"
        "mapE (normalize_statement scope path) hb = Inr hb'" "h' = ExceptionHandler hi' hb'"
      by (auto simp: bindE_Inr_iff)
    have "list_all (statement_resolved ?t) hb'"
      using h'(2) by (rule mapE_Inr_all) (use 1(1) [OF h(1) e] in blast)
    with h' show "case h' of ExceptionHandler hi hb \<Rightarrow>
        handler_resolved ?t hi \<and> list_all (statement_resolved ?t) hb"
      using normalize_handler_resolved by simp
  qed
  ultimately show ?case
    using n(7) normalize_names_resolved [OF n(1)] normalize_operands_resolved [OF n(3)] by simp
qed

text \<open>
  C35: In normalized statements every declared or captured type is built from known types and
  classes, every cast, type test and type name names a type, and every handler and base
  initializer names a class.
\<close>

theorem normalizeStatements_resolved:
  assumes "normalizeStatements scope path statements = Inr statements'"
  shows "list_all (statement_resolved (sc_classes scope)) statements'"
  using assms normalize_statement_resolved unfolding normalizeStatements_def by (rule mapE_Inr_all)

definition sample_statements :: "statement list" where
  "sample_statements =
     [simple_statement ((statement_at SK_Declaration default_location)\<lparr>st_declaredType := ''Point'', st_name := ''p''\<rparr>)]"

theorem normalizeStatements_resolved_witness:
  "list_all (statement_resolved (sc_classes geo_scope))
     (projr (normalizeStatements geo_scope [''geo''] sample_statements)) \<and>
   map (st_declaredType \<circ> st_info) (projr (normalizeStatements geo_scope [''geo''] sample_statements)) = [''geo.Point'']"
proof
  have "isl (normalizeStatements geo_scope [''geo''] sample_statements) = False" by code_simp
  then show "list_all (statement_resolved (sc_classes geo_scope))
     (projr (normalizeStatements geo_scope [''geo''] sample_statements))"
    by (intro normalizeStatements_resolved [where scope = geo_scope and path = "[''geo'']"
          and statements = sample_statements]) (simp add: sum.collapse(2))
  show "map (st_declaredType \<circ> st_info) (projr (normalizeStatements geo_scope [''geo''] sample_statements)) = [''geo.Point'']"
    by code_simp
qed

end
