(* ===== verification/Class_Checks.thy ===== *)
theory Class_Checks
  imports Class_Hierarchy Name_Resolution
begin

text \<open>
  The checks of every class declaration in \<open>SemanticAnalyzer::analyze\<close>
  (\<open>src/SemanticAnalyzer.cpp\<close>): definitions of declared methods, direct bases, cycles of the
  inheritance, types, names of members and overrides.
\<close>

text \<open>\<open>Endless\<close> stands for a recursion through the bases of a class that does not end.\<close>

datatype check_error = Rejected diagnostic | Endless

type_synonym 'a check = "(check_error, 'a) result"

definition need :: "'a option \<Rightarrow> 'a check" where
  "need r = (case r of None \<Rightarrow> Inl Endless | Some x \<Rightarrow> Inr x)"

definition lift :: "'a checked \<Rightarrow> 'a check" where
  "lift r = (case r of Inl d \<Rightarrow> Inl (Rejected d) | Inr x \<Rightarrow> Inr x)"

definition reject_at :: "bool \<Rightarrow> source_location \<Rightarrow> string \<Rightarrow> unit check" where
  "reject_at bad location message = (if bad then Inl (Rejected (DiagnosticError location message)) else Inr ())"

fun eachE :: "('a \<Rightarrow> ('e, unit) result) \<Rightarrow> 'a list \<Rightarrow> ('e, unit) result" where
  "eachE f [] = Inr ()"
| "eachE f (x # xs) = bindE (f x) (\<lambda>_. eachE f xs)"

abbreviation thenE :: "('e, unit) result \<Rightarrow> ('e, 'a) result \<Rightarrow> ('e, 'a) result" where
  "thenE r s \<equiv> bindE r (\<lambda>_. s)"

subsection \<open>Types and classes\<close>

function validateType :: "class_table \<Rightarrow> string \<Rightarrow> source_location \<Rightarrow> bool \<Rightarrow> unit checked" where
  "validateType t type' location allowVoid =
     (if isCallbackType type' then
        thenE (validateType t (cs_result (callbackSignature type')) location True)
        (bindE (mapE (\<lambda>p. validateType t p location False) (cs_parameters (callbackSignature type'))) (\<lambda>_.
         if cs_result (callbackSignature type') = ''type'' \<or> ''type'' \<in> set (cs_parameters (callbackSignature type'))
         then fail_at location ''type descriptors are not supported in callback signatures''
         else Inr ()))
      else if type' = ''any'' then
        fail_at location (quoted ''any'' @ '' cannot be used as a declared type; collection values may only be tested '' @
          ''with '' @ quoted ''is'' @ ''/'' @ quoted ''type'' @ '', printed, compared with null, stored in a collection, or extracted '' @
          ''into a concrete type'')
      else if type' \<in> set builtin_types \<or> (allowVoid \<and> type' = ''void'') then Inr ()
      else if map_of t type' = None then fail_at location (''unknown type or class '' @ quoted type')
      else Inr ())"
  by pat_completeness auto
termination by (relation "measure (\<lambda>(t, type', location, v). length type')") (auto simp: callback_parts_shorter)

declare validateType.simps [simp del]

definition findClass ::
  "name_scope \<Rightarrow> string list \<Rightarrow> string \<Rightarrow> source_location \<Rightarrow> (string \<times> class_declaration) check" where
  "findClass scope namespace name location =
     (case map_of (sc_classes scope) name of
        Some c \<Rightarrow> Inr (name, c)
      | None \<Rightarrow> bindE (lift (resolveClassName scope name namespace location)) (\<lambda>resolved.
          Inr (resolved, the (map_of (sc_classes scope) resolved))))"

subsection \<open>Bases\<close>

definition method_key :: "string \<Rightarrow> method_declaration \<Rightarrow> string" where
  "method_key className m = className @ ''.'' @ methodSignatureKey m"

definition check_defined :: "string list \<Rightarrow> class_declaration \<Rightarrow> method_declaration \<Rightarrow> unit check" where
  "check_defined definitions c m =
     reject_at (me_declarationOnly m \<and> method_key (cl_name c) m \<notin> set definitions) (me_location m)
       (''method '' @ quoted (cl_name c @ ''.'' @ me_name m) @ '' is declared but has no out-of-line definition'')"

fun check_direct_bases :: "name_scope \<Rightarrow> (string \<times> source_location) list \<Rightarrow> string list \<Rightarrow> unit check" where
  "check_direct_bases scope [] seen = Inr ()"
| "check_direct_bases scope ((b, location) # bs) seen =
     thenE (reject_at (b \<in> set seen) location (''duplicate base class '' @ quoted b))
     (bindE (findClass scope [] b location) (\<lambda>_. check_direct_bases scope bs (b # seen)))"

text \<open>The bases of one ancestor: the names that are new go to the path and to the pending classes.\<close>

fun scan_bases ::
  "name_scope \<Rightarrow> string \<Rightarrow> (string \<times> source_location) list \<Rightarrow> string list \<Rightarrow> string list \<Rightarrow>
     (string list \<times> string list) check" where
  "scan_bases scope self [] path pending = Inr (path, pending)"
| "scan_bases scope self ((b, location) # bs) path pending =
     (if b \<in> set path then
        if b = self then
          Inl (Rejected (DiagnosticError location (''inheritance cycle involving class '' @ quoted b)))
        else scan_bases scope self bs path pending
      else bindE (findClass scope [] b location) (\<lambda>(key, _).
        scan_bases scope self bs (b # path) (key # pending)))"

definition located_bases :: "class_declaration \<Rightarrow> (string \<times> source_location) list" where
  "located_bases c = zip (cl_baseClassNames c) (cl_baseLocations c)"

lemma scan_bases_grows:
  "scan_bases scope self bs path pending = Inr (path', pending') \<Longrightarrow>
     set path \<subseteq> set path' \<and> set path' \<subseteq> set path \<union> fst ` set bs \<and>
     (path' = path \<and> pending' = pending \<or> \<not> set path' \<subseteq> set path)"
proof (induction scope self bs path pending rule: scan_bases.induct)
  case (2 scope self b location bs path pending)
  show ?case
  proof (cases "b \<in> set path")
    case True
    with 2(1,3) show ?thesis by (auto split: if_splits)
  next
    case False
    with 2(3) obtain key c where scan: "scan_bases scope self bs (b # path) (key # pending) = Inr (path', pending')"
      by (auto simp: bindE_Inr_iff)
    from 2(2) [OF False this] False have "set (b # path) \<subseteq> set path'"
        "set path' \<subseteq> set (b # path) \<union> fst ` set bs" by blast+
    with False show ?thesis by auto
  qed
qed simp

definition base_names :: "class_table \<Rightarrow> string set" where
  "base_names t = (\<Union>c \<in> snd ` set t. fst ` set (located_bases c))"

text \<open>The loop over the ancestors; the head of \<open>pending\<close> is the back of the vector.\<close>

function cycle_search :: "name_scope \<Rightarrow> string \<Rightarrow> string list \<Rightarrow> string list \<Rightarrow> unit check" where
  "cycle_search scope self path [] = Inr ()"
| "cycle_search scope self path (name # pending) =
     (case map_of (sc_classes scope) name of
        None \<Rightarrow> cycle_search scope self path pending
      | Some c \<Rightarrow>
          (case scan_bases scope self (located_bases c) path pending of
             Inl e \<Rightarrow> Inl e
           | Inr (path, pending) \<Rightarrow> cycle_search scope self path pending))"
  by pat_completeness auto
termination
proof (relation "measures [\<lambda>(scope, self, path, pending). card (base_names (sc_classes scope) - set path),
    \<lambda>(scope, self, path, pending). length pending]", goal_cases)
  case (3 scope self path name pending c x path' pending')
  have "finite (base_names (sc_classes scope))" by (auto simp: base_names_def)
  moreover have "fst ` set (located_bases c) \<subseteq> base_names (sc_classes scope)"
    using map_of_SomeD [OF 3(1)] by (force simp: base_names_def)
  moreover have "path' = path \<and> pending' = pending \<or>
      base_names (sc_classes scope) - set path' \<subset> base_names (sc_classes scope) - set path"
    using scan_bases_grows 3(2,3) calculation(2) by blast
  ultimately show ?case by (auto intro: psubset_card_mono)
qed auto

definition check_cycle :: "name_scope \<Rightarrow> class_declaration \<Rightarrow> unit check" where
  "check_cycle scope c = cycle_search scope (cl_name c) [cl_name c] [cl_name c]"

subsection \<open>Cycles\<close>

text \<open>The names of bases are resolved, and every base has a location.\<close>

definition bases_known :: "class_table \<Rightarrow> bool" where
  "bases_known t \<longleftrightarrow> (\<forall>(n, c) \<in> set t. length (cl_baseLocations c) = length (cl_baseClassNames c) \<and>
     (\<forall>b \<in> set (cl_baseClassNames c). map_of t b \<noteq> None))"

lemma bases_known_edges:
  "bases_known t \<Longrightarrow> map_of t n = Some c \<Longrightarrow> fst ` set (located_bases c) = {b. (n, b) \<in> direct_base t}"
proof -
  assume "bases_known t" "map_of t n = Some c"
  moreover from this have "length (cl_baseLocations c) = length (cl_baseClassNames c)"
    by (auto simp: bases_known_def dest!: map_of_SomeD)
  then have "fst ` set (located_bases c) = set (cl_baseClassNames c)"
    unfolding located_bases_def by (metis map_fst_zip list.set_map)
  ultimately show ?thesis by (auto simp: direct_base_def)
qed

lemma bases_known_target: "bases_known t \<Longrightarrow> (n, b) \<in> direct_base t \<Longrightarrow> map_of t b \<noteq> None"
  by (fastforce simp: bases_known_def direct_base_def dest!: map_of_SomeD)

text \<open>With known bases, the scan adds the new names to both and stops at the class itself.\<close>

lemma scan_bases_known:
  "(\<And>b. b \<in> fst ` set bs \<Longrightarrow> map_of (sc_classes scope) b \<noteq> None) \<Longrightarrow> self \<in> set path \<Longrightarrow>
     (case scan_bases scope self bs path pending of
        Inl e \<Rightarrow> self \<in> fst ` set bs
      | Inr (path', pending') \<Rightarrow> self \<notin> fst ` set bs \<and> set path' = set path \<union> fst ` set bs \<and>
          (\<exists>new. pending' = new @ pending \<and> set new = fst ` set bs - set path))"
proof (induction scope self bs path pending rule: scan_bases.induct)
  case (2 scope self b location bs path pending)
  show ?case
  proof (cases "b \<in> set path")
    case True
    show ?thesis
    proof (cases "b = self")
      case same: True
      with True show ?thesis by simp
    next
      case other: False
      have known: "map_of (sc_classes scope) d \<noteq> None" if "d \<in> fst ` set bs" for d
        using that 2(3) [of d] by auto
      define B where "B = fst ` set bs"
      have "fst ` set ((b, location) # bs) = insert b B" by (simp add: B_def)
      moreover have "insert b B - set path = B - set path" "set path \<union> insert b B = set path \<union> B"
        using True by auto
      ultimately show ?thesis
        using 2(1) [OF True other known 2(4), folded B_def] True other
        by (auto split: sum.splits)
    qed
  next
    case False
    obtain c where "map_of (sc_classes scope) b = Some c" using 2(3) [of b] by auto
    then have scan: "scan_bases scope self ((b, location) # bs) path pending =
        scan_bases scope self bs (b # path) (b # pending)"
      using False by (simp add: findClass_def)
    have other: "b \<noteq> self" using False 2(4) by auto
    define B where "B = fst ` set bs"
    have B: "fst ` set ((b, location) # bs) = insert b B" by (simp add: B_def)
    have known: "map_of (sc_classes scope) d \<noteq> None" if "d \<in> B" for d
      using that 2(3) [of d] B_def by auto
    have "self \<in> set (b # path)" using 2(4) by simp
    note ih = 2(2) [OF False, folded B_def, OF known this, of b]
    show ?thesis
    proof (cases "scan_bases scope self bs (b # path) (b # pending)")
      case (Inl e)
      with ih have "self \<in> B" by simp
      then show ?thesis unfolding scan B Inl by simp
    next
      case (Inr r)
      obtain path' pending' where r: "r = (path', pending')" by (cases r)
      from ih obtain new where new: "self \<notin> B" "set path' = set (b # path) \<union> B"
          "pending' = new @ b # pending" "set new = B - set (b # path)"
        unfolding Inr r by auto
      have "pending' = (new @ [b]) @ pending" "set (new @ [b]) = insert b B - set path"
          "set path' = set path \<union> insert b B" "self \<notin> insert b B"
        using new False other by auto
      then show ?thesis unfolding scan B Inr r by auto
    qed
  qed
qed simp

lemma cycle_search_reachable:
  "cycle_search scope self path pending = Inl e \<Longrightarrow> bases_known (sc_classes scope) \<Longrightarrow> self \<in> set path \<Longrightarrow>
     \<exists>n \<in> set pending. (n, self) \<in> (direct_base (sc_classes scope))\<^sup>+"
proof (induction scope self path pending rule: cycle_search.induct)
  case (2 scope self path name pending)
  let ?t = "sc_classes scope"
  show ?case
  proof (cases "map_of ?t name")
    case None
    with 2(1,3,4,5) show ?thesis by auto
  next
    case (Some c)
    note edges = bases_known_edges [OF 2(4) Some]
    have known: "map_of ?t b \<noteq> None" if "b \<in> fst ` set (located_bases c)" for b
      using that bases_known_target [OF 2(4)] unfolding edges by blast
    note scan = scan_bases_known [where bs = "located_bases c" and scope = scope and pending = pending, OF known 2(5)]
    show ?thesis
    proof (cases "scan_bases scope self (located_bases c) path pending")
      case (Inl e')
      with scan edges have "(name, self) \<in> direct_base ?t" by auto
      then show ?thesis by auto
    next
      case (Inr r)
      obtain path' pending' where r: "r = (path', pending')" by (cases r)
      from scan Inr r obtain new where new: "pending' = new @ pending" "set path' = set path \<union> fst ` set (located_bases c)"
          "set new = fst ` set (located_bases c) - set path" by auto
      have "cycle_search scope self path' pending' = Inl e" using 2(3) Some Inr r by simp
      moreover have "self \<in> set path'" using new(2) 2(5) by simp
      ultimately obtain n where n: "n \<in> set pending'" "(n, self) \<in> (direct_base ?t)\<^sup>+"
        using 2(2) [OF Some Inr r [symmetric] _ 2(4)] by blast
      show ?thesis
      proof (cases "n \<in> set pending")
        case False
        with n(1) new edges have "(name, n) \<in> direct_base ?t" by auto
        with n(2) show ?thesis by (auto intro: trancl_into_trancl2)
      qed (use n in auto)
    qed
  qed
qed simp

lemma cycle_search_avoids:
  "cycle_search scope self path pending = Inr u \<Longrightarrow> bases_known (sc_classes scope) \<Longrightarrow> self \<in> set path \<Longrightarrow>
     set path = V \<union> set pending \<Longrightarrow> avoids (sc_classes scope) self V (set pending) \<Longrightarrow>
     \<exists>V'. V \<union> set pending \<subseteq> V' \<and> avoids (sc_classes scope) self V' {}"
proof (induction scope self path pending arbitrary: V rule: cycle_search.induct)
  case (1 scope self path)
  then show ?case by auto
next
  case (2 scope self path name pending)
  let ?t = "sc_classes scope"
  show ?case
  proof (cases "map_of ?t name")
    case None
    have "avoids ?t self (insert name V) (set pending)"
      using 2(7) None by (auto simp: avoids_def direct_base_def)
    with 2(1) [OF None _ 2(4,5), of "insert name V"] 2(3,6) None show ?thesis by auto
  next
    case (Some c)
    note edges = bases_known_edges [OF 2(4) Some]
    have known: "map_of ?t b \<noteq> None" if "b \<in> fst ` set (located_bases c)" for b
      using that bases_known_target [OF 2(4)] unfolding edges by blast
    note scan = scan_bases_known [where bs = "located_bases c" and scope = scope and pending = pending, OF known 2(5)]
    from 2(3) Some obtain path' pending' where
        r: "scan_bases scope self (located_bases c) path pending = Inr (path', pending')"
           "cycle_search scope self path' pending' = Inr u"
      by (auto split: sum.splits)
    with scan obtain new where new: "pending' = new @ pending" "set path' = set path \<union> fst ` set (located_bases c)"
        "set new = fst ` set (located_bases c) - set path" "self \<notin> fst ` set (located_bases c)" by auto
    have "avoids ?t self (insert name V) (set pending')"
      unfolding avoids_def
    proof (intro allI impI)
      fix v b
      assume v: "v \<in> insert name V" "(v, b) \<in> direct_base ?t"
      show "b \<noteq> self \<and> (map_of ?t b \<noteq> None \<longrightarrow> b \<in> insert name V \<or> b \<in> set pending')"
      proof (cases "v = name")
        case True
        with v(2) edges have "b \<in> fst ` set (located_bases c)" by auto
        with new 2(6) show ?thesis by auto
      next
        case False
        with v have "v \<in> V" by simp
        from avoidsD [OF 2(7) this v(2)] new(1) show ?thesis by auto
      qed
    qed
    moreover have "set path' = insert name V \<union> set pending'" "self \<in> set path'"
      using new 2(5,6) by auto
    ultimately obtain V' where "insert name V \<union> set pending' \<subseteq> V'" "avoids ?t self V' {}"
      using 2(2) [OF Some r(1) refl r(2) 2(4)] by blast
    with new(1) show ?thesis by (intro exI [of _ V']) auto
  qed
qed

lemma check_cycle_iff:
  assumes "bases_known (sc_classes scope)"
  shows "check_cycle scope c = Inr () \<longleftrightarrow> (cl_name c, cl_name c) \<notin> (direct_base (sc_classes scope))\<^sup>+"
proof (cases "check_cycle scope c")
  case (Inl e)
  with cycle_search_reachable [OF _ assms, of "cl_name c" "[cl_name c]" "[cl_name c]" e]
  show ?thesis by (auto simp: check_cycle_def)
next
  case (Inr u)
  have "avoids (sc_classes scope) (cl_name c) {} (set [cl_name c])" by (simp add: avoids_def)
  with cycle_search_avoids [OF Inr [unfolded check_cycle_def] assms, of "{}"] obtain V where
      "cl_name c \<in> V" "avoids (sc_classes scope) (cl_name c) V {}" by auto
  with avoids_closed have "(cl_name c, cl_name c) \<notin> (direct_base (sc_classes scope))\<^sup>+" by blast
  with Inr show ?thesis by simp
qed

subsection \<open>Members\<close>

definition check_method_types :: "class_table \<Rightarrow> method_declaration \<Rightarrow> unit check" where
  "check_method_types t m =
     thenE (reject_at (me_destructor m \<and> (me_returnType m \<noteq> ''void'' \<or> me_parameters m \<noteq> [])) (me_location m)
       ''destructor must return void and take no parameters'')
     (thenE (lift (validateType t (me_returnType m) (me_location m) True))
     (eachE (\<lambda>p. lift (validateType t (pa_type p) (pa_location p) False)) (me_parameters m)))"

text \<open>The second of the first two elements that are the same.\<close>

fun duplicate :: "('a \<Rightarrow> 'a \<Rightarrow> bool) \<Rightarrow> 'a list \<Rightarrow> 'a option" where
  "duplicate same [] = None"
| "duplicate same (x # xs) =
     (case List.find (same x) xs of Some y \<Rightarrow> Some y | None \<Rightarrow> duplicate same xs)"

definition check_distinct_fields :: "class_declaration \<Rightarrow> unit check" where
  "check_distinct_fields c =
     (case duplicate (\<lambda>f g. fd_name f = fd_name g) (cl_fields c) of
        None \<Rightarrow> Inr ()
      | Some f \<Rightarrow> reject_at True (fd_location f)
          (''duplicate field '' @ quoted (fd_name f) @ '' in class '' @ quoted (cl_name c)))"

definition same_signature :: "method_declaration \<Rightarrow> method_declaration \<Rightarrow> bool" where
  "same_signature m n \<longleftrightarrow> me_name m = me_name n \<and> sameParameterTypes m n"

definition check_distinct_methods :: "class_declaration \<Rightarrow> unit check" where
  "check_distinct_methods c =
     (case duplicate same_signature (cl_methods c) of
        None \<Rightarrow> Inr ()
      | Some m \<Rightarrow> reject_at True (me_location m)
          (if me_constructor m then ''duplicate constructor signature in class '' @ quoted (cl_name c)
           else ''duplicate method '' @ quoted (me_name m) @ '' in class '' @ quoted (cl_name c)))"

definition check_inherited_enum :: "name_scope \<Rightarrow> enum_member_declaration \<Rightarrow> string \<Rightarrow> unit check" where
  "check_inherited_enum scope m b =
     bindE (findClass scope [] b (em_location m)) (\<lambda>(_, base).
     bindE (need (countFields (sc_classes scope) base (em_name m))) (\<lambda>fields.
     bindE (if fields \<noteq> 0 then Inr 1 else need (countEnumMembers (sc_classes scope) base (em_name m))) (\<lambda>members.
     bindE (if members \<noteq> 0 then Inr 1 else need (countMethods (sc_classes scope) base (em_name m))) (\<lambda>methods.
       reject_at (methods \<noteq> 0) (em_location m)
         (''enum member '' @ quoted (em_name m) @ '' collides with an inherited class member'')))))"

fun check_enum_members :: "name_scope \<Rightarrow> class_declaration \<Rightarrow> enum_member_declaration list \<Rightarrow> unit check" where
  "check_enum_members scope c [] = Inr ()"
| "check_enum_members scope c (m # ms) =
     thenE (case List.find (\<lambda>n. em_name m = em_name n) ms of
         None \<Rightarrow> Inr ()
       | Some n \<Rightarrow> reject_at True (em_location n)
           (''duplicate enum member '' @ quoted (em_name n) @ '' in class '' @ quoted (cl_name c)))
     (thenE (reject_at (list_ex (\<lambda>f. fd_name f = em_name m) (cl_fields c) \<or>
           list_ex (\<lambda>n. me_name n = em_name m) (cl_methods c)) (em_location m)
         (''enum member '' @ quoted (em_name m) @ '' collides with another class member''))
     (thenE (eachE (check_inherited_enum scope m) (cl_baseClassNames c))
       (check_enum_members scope c ms)))"

definition has_constructor :: "class_declaration \<Rightarrow> bool" where
  "has_constructor c \<longleftrightarrow> list_ex me_constructor (cl_methods c)"

definition check_base_constructor ::
  "name_scope \<Rightarrow> class_declaration \<Rightarrow> (string \<times> source_location) \<times> bool \<Rightarrow> unit check" where
  "check_base_constructor scope c e =
     (case e of ((b, location), isVirtual) \<Rightarrow>
        if isVirtual then Inr ()
        else bindE (findClass scope [] b location) (\<lambda>(_, base).
          reject_at (has_constructor base) (cl_location c)
            (''class '' @ quoted (cl_name c) @ '' needs an explicit constructor because base '' @
             quoted (cl_name base) @ '' has one'')))"

definition check_inherited_field ::
  "name_scope \<Rightarrow> class_declaration \<Rightarrow> field_declaration \<Rightarrow> string \<times> source_location \<Rightarrow> unit check" where
  "check_inherited_field scope c f e =
     (case e of (b, location) \<Rightarrow>
        bindE (findClass scope [] b location) (\<lambda>(_, base).
        bindE (need (countFields (sc_classes scope) base (fd_name f))) (\<lambda>fields.
        thenE (reject_at (fields \<noteq> 0) (fd_location f)
          (''field '' @ quoted (fd_name f) @ '' duplicates an inherited field''))
        (bindE (need (countEnumMembers (sc_classes scope) base (fd_name f))) (\<lambda>members.
          reject_at (members \<noteq> 0) (fd_location f)
            (''field '' @ quoted (fd_name f) @ '' collides with an inherited enum member''))))))"

definition check_override :: "name_scope \<Rightarrow> class_declaration \<Rightarrow> method_declaration \<Rightarrow> string \<Rightarrow> unit check" where
  "check_override scope c m b =
     bindE (findClass scope [] b (cl_baseLocation c)) (\<lambda>(_, base).
     bindE (need (countEnumMembers (sc_classes scope) base (me_name m))) (\<lambda>members.
     thenE (reject_at (members \<noteq> 0) (me_location m)
       (''method '' @ quoted (me_name m) @ '' collides with an inherited enum member''))
     (bindE (need (findOverloads (sc_classes scope) base (me_name m))) (\<lambda>overloads.
       case List.find (\<lambda>r. sameParameterTypes (snd r) m) overloads of
         None \<Rightarrow> Inr ()
       | Some inherited \<Rightarrow> reject_at (me_returnType (snd inherited) \<noteq> me_returnType m) (me_location m)
           (''override of '' @ quoted (me_name m) @ '' must preserve the inherited method signature'')))))"

definition check_derived :: "name_scope \<Rightarrow> class_declaration \<Rightarrow> unit check" where
  "check_derived scope c =
     (if cl_baseClassName c = [] then Inr ()
      else
        thenE (if has_constructor c then Inr ()
          else eachE (check_base_constructor scope c) (zip (located_bases c) (cl_baseVirtual c)))
        (thenE (eachE (\<lambda>f. eachE (check_inherited_field scope c f) (located_bases c)) (cl_fields c))
          (eachE (\<lambda>m. if me_constructor m then Inr () else eachE (check_override scope c m) (cl_baseClassNames c))
            (cl_methods c))))"

definition check_class :: "name_scope \<Rightarrow> string list \<Rightarrow> class_declaration \<Rightarrow> unit check" where
  "check_class scope definitions c =
     thenE (eachE (check_defined definitions c) (cl_methods c))
     (thenE (check_direct_bases scope (located_bases c) [])
     (thenE (check_cycle scope c)
     (thenE (eachE (\<lambda>f. lift (validateType (sc_classes scope) (fd_type f) (fd_location f) False)) (cl_fields c))
     (thenE (eachE (check_method_types (sc_classes scope)) (cl_methods c))
     (thenE (check_distinct_fields c)
     (thenE (check_enum_members scope c (cl_enumMembers c))
     (thenE (check_derived scope c) (check_distinct_methods c))))))))"

text \<open>The loop over the classes of the program, which sets \<open>currentModule_\<close>.\<close>

definition check_classes :: "name_scope \<Rightarrow> string list \<Rightarrow> class_declaration list \<Rightarrow> unit check" where
  "check_classes scope definitions cs =
     eachE (\<lambda>c. check_class (scope\<lparr>sc_currentModule := cl_moduleName c\<rparr>) definitions c) cs"

end
