(* ===== verification/Virtual_Bases.thy ===== *)
theory Virtual_Bases
  imports Class_Hierarchy
begin

text \<open>
  The virtual bases of a class in the order in which they are constructed
  (\<open>virtualBaseNames\<close>).
\<close>

definition virtual_edge :: "class_table \<Rightarrow> (string \<times> string) set" where
  "virtual_edge t =
     {(a, b). \<exists>c. map_of t a = Some c \<and> (b, True) \<in> set (zip (cl_baseClassNames c) (cl_baseVirtual c))}"

text \<open>The virtual bases of a class and of all its ancestors.\<close>

definition virtual_ancestors :: "class_table \<Rightarrow> string \<Rightarrow> string set" where
  "virtual_ancestors t n =
     {v. map_of t v \<noteq> None \<and> (\<exists>x. (n, x) \<in> (direct_base t)\<^sup>* \<and> (x, v) \<in> virtual_edge t)}"

definition vectors_ok :: "class_table \<Rightarrow> bool" where
  "vectors_ok t \<longleftrightarrow> (\<forall>(n, c) \<in> set t. length (cl_baseVirtual c) = length (cl_baseClassNames c))"

text \<open>Every virtual base is preceded by its own virtual bases.\<close>

definition construction_order :: "class_table \<Rightarrow> string list \<Rightarrow> bool" where
  "construction_order t names \<longleftrightarrow>
     (\<forall>xs b ys. names = xs @ b # ys \<longrightarrow> virtual_ancestors t b \<subseteq> set xs)"

lemma construction_order_Nil [simp]: "construction_order t []"
  by (simp add: construction_order_def)

lemma construction_order_snoc:
  "construction_order t (names @ [b]) \<longleftrightarrow> construction_order t names \<and> virtual_ancestors t b \<subseteq> set names"
proof
  assume o: "construction_order t (names @ [b])"
  have "virtual_ancestors t c \<subseteq> set xs" if "names = xs @ c # ys" for xs c ys
    using o that unfolding construction_order_def by (metis append.assoc append_Cons)
  then show "construction_order t names \<and> virtual_ancestors t b \<subseteq> set names"
    using o unfolding construction_order_def by blast
next
  assume o: "construction_order t names \<and> virtual_ancestors t b \<subseteq> set names"
  show "construction_order t (names @ [b])"
    unfolding construction_order_def
  proof (intro allI impI)
    fix xs c ys
    assume "names @ [b] = xs @ c # ys"
    then show "virtual_ancestors t c \<subseteq> set xs"
      using o by (cases ys rule: rev_cases) (auto simp: construction_order_def)
  qed
qed

lemma construction_order_mem:
  "construction_order t names \<Longrightarrow> b \<in> set names \<Longrightarrow> virtual_ancestors t b \<subseteq> set names"
  unfolding construction_order_def by (metis Un_upper1 set_append split_list subset_trans)

lemma direct_base_zip:
  "vectors_ok t \<Longrightarrow> map_of t n = Some c \<Longrightarrow>
     (n, b) \<in> direct_base t \<longleftrightarrow> (\<exists>v. (b, v) \<in> set (zip (cl_baseClassNames c) (cl_baseVirtual c)))"
proof -
  assume "vectors_ok t" and c: "map_of t n = Some c"
  then have "length (cl_baseVirtual c) = length (cl_baseClassNames c)"
    by (auto simp: vectors_ok_def dest!: map_of_SomeD)
  then have "set (cl_baseClassNames c) = fst ` set (zip (cl_baseClassNames c) (cl_baseVirtual c))"
    by (metis map_fst_zip list.set_map)
  with c show ?thesis by (force simp: direct_base_def)
qed

text \<open>The virtual ancestors come from the edges of the class and those of its bases.\<close>

definition edge_virtuals :: "class_table \<Rightarrow> (string \<times> bool) list \<Rightarrow> string set" where
  "edge_virtuals t bs =
     {v. \<exists>(b, isVirtual) \<in> set bs. map_of t b \<noteq> None \<and> (v \<in> virtual_ancestors t b \<or> isVirtual \<and> v = b)}"

lemma edge_virtuals_simps [simp]:
  "edge_virtuals t [] = {}"
  "edge_virtuals t ((b, isVirtual) # bs) =
     (if map_of t b = None then {} else virtual_ancestors t b \<union> (if isVirtual then {b} else {})) \<union> edge_virtuals t bs"
  by (auto simp: edge_virtuals_def)

lemma virtual_ancestors_edges:
  assumes "vectors_ok t" "map_of t n = Some c"
  shows "virtual_ancestors t n = edge_virtuals t (zip (cl_baseClassNames c) (cl_baseVirtual c))"
proof
  show "virtual_ancestors t n \<subseteq> edge_virtuals t (zip (cl_baseClassNames c) (cl_baseVirtual c))"
  proof
    fix v
    assume "v \<in> virtual_ancestors t n"
    then obtain x where v: "map_of t v \<noteq> None" "(n, x) \<in> (direct_base t)\<^sup>*" "(x, v) \<in> virtual_edge t"
      by (auto simp: virtual_ancestors_def)
    from v(2) show "v \<in> edge_virtuals t (zip (cl_baseClassNames c) (cl_baseVirtual c))"
    proof (cases rule: converse_rtranclE)
      case base
      with v assms(2) show ?thesis by (auto simp: virtual_edge_def edge_virtuals_def)
    next
      case (step b)
      then obtain w where "(b, w) \<in> set (zip (cl_baseClassNames c) (cl_baseVirtual c))"
        using direct_base_zip [OF assms] by blast
      moreover have "v \<in> virtual_ancestors t b" using v step(2) by (auto simp: virtual_ancestors_def)
      moreover have "map_of t b \<noteq> None"
        using step(2) v(3) by (cases rule: converse_rtranclE) (auto simp: direct_base_def virtual_edge_def)
      ultimately show ?thesis by (auto simp: edge_virtuals_def)
    qed
  qed
  show "edge_virtuals t (zip (cl_baseClassNames c) (cl_baseVirtual c)) \<subseteq> virtual_ancestors t n"
  proof
    fix v
    assume "v \<in> edge_virtuals t (zip (cl_baseClassNames c) (cl_baseVirtual c))"
    then obtain b w where b: "(b, w) \<in> set (zip (cl_baseClassNames c) (cl_baseVirtual c))"
        "map_of t b \<noteq> None" "v \<in> virtual_ancestors t b \<or> w \<and> v = b"
      by (auto simp: edge_virtuals_def)
    from b(1) have "(n, b) \<in> direct_base t" using direct_base_zip [OF assms] by blast
    show "v \<in> virtual_ancestors t n"
    proof (cases "v \<in> virtual_ancestors t b")
      case True
      with \<open>(n, b) \<in> direct_base t\<close> show ?thesis
        unfolding virtual_ancestors_def by (blast intro: converse_rtrancl_into_rtrancl)
    next
      case False
      with b assms(2) have "(n, v) \<in> virtual_edge t" "map_of t v \<noteq> None"
        by (auto simp: virtual_edge_def)
      then show ?thesis unfolding virtual_ancestors_def by blast
    qed
  qed
qed

subsection \<open>The walk\<close>

text \<open>
  \<open>P\<close> holds the virtual bases whose own bases are being visited, so the class at hand is below
  all of them. The names that are seen are those in the result and those in \<open>P\<close>.
\<close>

definition walk_ok :: "class_table \<Rightarrow> string set \<Rightarrow> string list \<times> string list \<Rightarrow> bool" where
  "walk_ok t P s \<longleftrightarrow> set (fst s) = set (snd s) \<union> P \<and> set (snd s) \<inter> P = {} \<and> distinct (snd s) \<and>
     construction_order t (snd s)"

definition walked :: "string set \<Rightarrow> string list \<times> string list \<Rightarrow> string list \<times> string list \<Rightarrow> bool" where
  "walked V s s' \<longleftrightarrow> set (snd s') = set (snd s) \<union> V"

definition below_all :: "class_table \<Rightarrow> string set \<Rightarrow> string \<Rightarrow> bool" where
  "below_all t P n \<longleftrightarrow> (\<forall>p \<in> P. (p, n) \<in> (direct_base t)\<^sup>*)"

lemma walked_trans: "walked V s s' \<Longrightarrow> walked W s' s'' \<Longrightarrow> walked (V \<union> W) s s''"
  by (auto simp: walked_def)

lemma walk_ok_enter:
  "walk_ok t P (seen, names) \<Longrightarrow> b \<notin> set seen \<Longrightarrow> walk_ok t (insert b P) (b # seen, names)"
  by (auto simp: walk_ok_def)

lemma walk_ok_leave:
  "walk_ok t (insert b P) (seen, names) \<Longrightarrow> b \<notin> P \<Longrightarrow> virtual_ancestors t b \<subseteq> set names \<Longrightarrow>
     walk_ok t P (seen, names @ [b])"
  by (auto simp: walk_ok_def construction_order_snoc)

lemma virtual_visit_walked:
  "virtual_visit t fuel c s = Some s' \<Longrightarrow> hierarchy_ok t \<Longrightarrow> vectors_ok t \<Longrightarrow> map_of t n = Some c \<Longrightarrow>
     walk_ok t P s \<Longrightarrow> below_all t P n \<Longrightarrow> walk_ok t P s' \<and> walked (virtual_ancestors t n) s s'"
  "virtual_bases t fuel bs s = Some s' \<Longrightarrow> hierarchy_ok t \<Longrightarrow> vectors_ok t \<Longrightarrow>
     (\<And>b v. (b, v) \<in> set bs \<Longrightarrow> (n, b) \<in> direct_base t) \<Longrightarrow>
     walk_ok t P s \<Longrightarrow> below_all t P n \<Longrightarrow> walk_ok t P s' \<and> walked (edge_virtuals t bs) s s'"
proof (induction t fuel c s and t fuel bs s arbitrary: n P s' and n P s' rule: virtual_visit_virtual_bases.induct)
  case (2 t fuel c s)
  then have bases: "virtual_bases t fuel (zip (cl_baseClassNames c) (cl_baseVirtual c)) s = Some s'" by simp
  have edges: "(n, b) \<in> direct_base t" if "(b, v) \<in> set (zip (cl_baseClassNames c) (cl_baseVirtual c))" for b v
    using direct_base_zip [OF 2(4,5)] that by blast
  show ?case
    using 2(1) [OF bases 2(3,4) edges 2(6,7)] virtual_ancestors_edges [OF 2(4,5)] by simp
next
  case (3 t fuel s)
  then show ?case by (auto simp: walked_def)
next
  case (4 t fuel b isVirtual bs seen names)
  have edges: "(n, d) \<in> direct_base t" if "(d, v) \<in> set bs" for d v using 4(8) that by auto
  have edge: "(n, b) \<in> direct_base t" using 4(8) by auto
  show ?case
  proof (cases "map_of t b")
    case None
    then have "virtual_bases t fuel bs (seen, names) = Some s'" using 4(5) by simp
    from 4(1) [OF None this 4(6,7) edges 4(9,10)] None show ?thesis by simp
  next
    case (Some base)
    show ?thesis
    proof (cases "isVirtual \<and> b \<in> set seen")
      case True
      have "b \<notin> P"
      proof
        assume "b \<in> P"
        then have "(b, n) \<in> (direct_base t)\<^sup>*" using 4(10) by (simp add: below_all_def)
        with edge have "(b, b) \<in> (direct_base t)\<^sup>+" by simp
        with 4(6) show False by (simp add: hierarchy_ok_def acyclic_def)
      qed
      with True 4(9) have known: "b \<in> set names" "virtual_ancestors t b \<subseteq> set names"
        using construction_order_mem by (auto simp: walk_ok_def)
      have "virtual_bases t fuel bs (seen, names) = Some s'" using 4(5) Some True by simp
      from 4(2) [OF Some True this 4(6,7) edges 4(9,10)] known Some True show ?thesis
        by (auto simp: walked_def)
    next
      case False
      let ?P = "if isVirtual then insert b P else P" and ?seen = "if isVirtual then b # seen else seen"
      obtain x y where visit: "virtual_visit t fuel base (?seen, names) = Some (x, y)"
          and rest: "virtual_bases t fuel bs (x, if isVirtual then y @ [b] else y) = Some s'"
        using 4(5) Some False by (auto simp: bind_eq_Some_conv)
      have enter: "walk_ok t ?P (?seen, names)" using 4(9) False by (auto intro: walk_ok_enter)
      have "below_all t ?P b"
        using 4(10) edge by (auto simp: below_all_def intro: rtrancl_into_rtrancl)
      from 4(3) [OF Some False visit 4(6,7) Some enter this]
      have walked: "walk_ok t ?P (x, y)" "set y = set names \<union> virtual_ancestors t b"
        by (auto simp: walked_def)
      have "b \<notin> P" if isVirtual using 4(9) False that by (auto simp: walk_ok_def)
      with walked have leave: "walk_ok t P (x, if isVirtual then y @ [b] else y)"
        by (auto intro: walk_ok_leave)
      from 4(4) [OF Some False visit refl rest 4(6,7) edges leave 4(10)] walked(2) Some show ?thesis
        by (auto simp: walked_def)
    qed
  qed
qed simp

text \<open>
  C33: For a class of a hierarchy without cycles, the order of construction of its virtual
  bases exists, holds the virtual bases of the class and of all its ancestors, each of them
  once, and every one behind its own virtual bases.
\<close>

theorem virtualBaseNames_order:
  assumes "hierarchy_ok t" "vectors_ok t" "map_of t n = Some c"
  shows "\<exists>names. virtualBaseNames t c = Some names \<and> distinct names \<and>
    set names = virtual_ancestors t n \<and> construction_order t names"
proof -
  obtain s where s: "virtual_visit t (depth_of t) c ([], []) = Some s"
    using virtual_base.walk_total [OF assms(1), of c "([], [])"] by (auto simp: defined_def)
  have "walk_ok t {} ([], [])" "below_all t {} n" by (simp_all add: walk_ok_def below_all_def)
  from virtual_visit_walked(1) [OF s assms this]
  show ?thesis using s by (auto simp: virtualBaseNames_def walk_ok_def walked_def)
qed

definition sample_class :: "string \<Rightarrow> (string \<times> bool) list \<Rightarrow> string \<times> class_declaration" where
  "sample_class name bs = (name, default_class\<lparr>cl_name := name, cl_baseClassNames := map fst bs,
     cl_baseVirtual := map snd bs, cl_baseAccess := map (\<lambda>_. Public) bs\<rparr>)"

text \<open>A diamond with a virtual base at its top.\<close>

definition diamond :: class_table where
  "diamond = [sample_class ''A'' [], sample_class ''B'' [(''A'', True)], sample_class ''C'' [(''A'', True)],
     sample_class ''D'' [(''B'', False), (''C'', True)]]"

lemma diamond_ok: "hierarchy_ok diamond" "vectors_ok diamond"
proof -
  show "hierarchy_ok diamond"
    by (rule hierarchy_okI [of _ "\<lambda>n. if n = ''A'' then 0 else if n = ''D'' then 2 else 1"])
      (auto simp: diamond_def sample_class_def)
  show "vectors_ok diamond" by (simp add: vectors_ok_def diamond_def sample_class_def)
qed

theorem virtualBaseNames_order_witness:
  "\<exists>c names. map_of diamond ''D'' = Some c \<and> virtualBaseNames diamond c = Some names \<and>
     set names = virtual_ancestors diamond ''D'' \<and> distinct names"
proof -
  obtain c where "map_of diamond ''D'' = Some c" by (simp add: diamond_def sample_class_def)
  with virtualBaseNames_order [OF diamond_ok this] show ?thesis by blast
qed

end
