(* ===== verification/Class_Validity.thy ===== *)
theory Class_Validity
  imports Class_Checks Virtual_Bases
begin

text \<open>
  What the checks of class declarations guarantee, and where they do not end.
\<close>

subsection \<open>No cycles\<close>

lemma eachE_Inr: "eachE f xs = Inr u \<Longrightarrow> x \<in> set xs \<Longrightarrow> f x = Inr ()"
  by (induction xs) (auto simp: bindE_Inr_iff)

lemma check_class_cycle: "check_class scope definitions c = Inr u \<Longrightarrow> check_cycle scope c = Inr ()"
  by (auto simp: check_class_def bindE_Inr_iff)

lemma checked_hierarchy:
  assumes "check_classes scope definitions cs = Inr ()"
    and "table_ok (sc_classes scope)" "bases_known (sc_classes scope)" "snd ` set (sc_classes scope) \<subseteq> set cs"
  shows "hierarchy_ok (sc_classes scope)"
  unfolding hierarchy_ok_def acyclic_def
proof
  let ?t = "sc_classes scope"
  fix n
  show "(n, n) \<notin> (direct_base ?t)\<^sup>+"
  proof (cases "map_of ?t n")
    case None
    show ?thesis
    proof
      assume "(n, n) \<in> (direct_base ?t)\<^sup>+"
      then obtain b where "(n, b) \<in> direct_base ?t" by (auto elim: converse_tranclE)
      with None show False by (simp add: direct_base_def)
    qed
  next
    case (Some c)
    then have "c \<in> snd ` set ?t" by (force dest: map_of_SomeD)
    with assms(4) have "c \<in> set cs" by blast
    have "cl_name c = n" using assms(2) Some by (rule table_ok_name)
    from \<open>c \<in> set cs\<close> eachE_Inr [OF assms(1) [unfolded check_classes_def]]
    have "check_cycle (scope\<lparr>sc_currentModule := cl_moduleName c\<rparr>) c = Inr ()"
      by (blast intro: check_class_cycle)
    with \<open>cl_name c = n\<close> assms(3) show ?thesis
      using check_cycle_iff [of "scope\<lparr>sc_currentModule := cl_moduleName c\<rparr>" c] by simp
  qed
qed

subsection \<open>Counting nothing\<close>

text \<open>No class from \<open>n\<close> on has such a member.\<close>

definition clean :: "class_table \<Rightarrow> (class_declaration \<Rightarrow> nat) \<Rightarrow> string \<Rightarrow> bool" where
  "clean t own n \<longleftrightarrow> (\<forall>x d. (n, x) \<in> (direct_base t)\<^sup>* \<longrightarrow> map_of t x = Some d \<longrightarrow> own d = 0)"

lemma clean_step:
  assumes "map_of t n = Some c" "own c = 0"
    and "\<And>b. (n, b) \<in> direct_base t \<Longrightarrow> map_of t b \<noteq> None \<Longrightarrow> clean t own b"
  shows "clean t own n"
  unfolding clean_def
proof (intro allI impI)
  fix x d
  assume "(n, x) \<in> (direct_base t)\<^sup>*" and d: "map_of t x = Some d"
  then show "own d = 0"
  proof (cases rule: converse_rtranclE)
    case base
    with d assms(1,2) show ?thesis by simp
  next
    case (step b)
    from step(2) have "map_of t b \<noteq> None"
    proof (cases rule: converse_rtranclE)
      case base
      with d show ?thesis by simp
    next
      case (step e)
      then show ?thesis by (auto simp: direct_base_def)
    qed
    with assms(3) step d show ?thesis unfolding clean_def by blast
  qed
qed

definition seen_clean :: "class_table \<Rightarrow> (class_declaration \<Rightarrow> nat) \<Rightarrow> string set \<Rightarrow> string list \<Rightarrow> bool" where
  "seen_clean t own P seen \<longleftrightarrow> (\<forall>v \<in> set seen. clean t own v \<or> v \<in> P)"

lemma count_visit_clean:
  "count_visit t own fuel c seen = Some (0, seen') \<Longrightarrow> hierarchy_ok t \<Longrightarrow> vectors_ok t \<Longrightarrow> map_of t n = Some c \<Longrightarrow>
     seen_clean t own P seen \<Longrightarrow> below_all t P n \<Longrightarrow> seen_clean t own P seen' \<and> clean t own n"
  "count_bases t own fuel bs seen = Some (0, seen') \<Longrightarrow> hierarchy_ok t \<Longrightarrow> vectors_ok t \<Longrightarrow>
     (\<And>b v. (b, v) \<in> set bs \<Longrightarrow> (n, b) \<in> direct_base t) \<Longrightarrow>
     seen_clean t own P seen \<Longrightarrow> below_all t P n \<Longrightarrow>
     seen_clean t own P seen' \<and> (\<forall>(b, v) \<in> set bs. map_of t b \<noteq> None \<longrightarrow> clean t own b)"
proof (induction t own fuel c seen and t own fuel bs seen arbitrary: n P seen' and n P seen'
    rule: count_visit_count_bases.induct)
  case (2 t own fuel c seen)
  then have own: "own c = 0"
      "count_bases t own fuel (zip (cl_baseClassNames c) (cl_baseVirtual c)) seen = Some (0, seen')"
    by (auto split: if_splits)
  have edges: "(n, b) \<in> direct_base t" if "(b, v) \<in> set (zip (cl_baseClassNames c) (cl_baseVirtual c))" for b v
    using direct_base_zip [OF 2(4,5)] that by blast
  have "\<not> own c \<noteq> 0" using own(1) by simp
  from 2(1) [OF this own(2) 2(3,4) _ 2(6,7)] edges
  have "seen_clean t own P seen'" "\<forall>(b, v) \<in> set (zip (cl_baseClassNames c) (cl_baseVirtual c)).
      map_of t b \<noteq> None \<longrightarrow> clean t own b" by blast+
  then show ?case
    using clean_step [where own = own, OF 2(5) own(1)] direct_base_zip [OF 2(4,5)] by blast
next
  case (4 t own fuel b isVirtual bs seen)
  have edges: "(n, d) \<in> direct_base t" if "(d, v) \<in> set bs" for d v using 4(8) that by auto
  have edge: "(n, b) \<in> direct_base t" using 4(8) by auto
  show ?case
  proof (cases "map_of t b")
    case None
    then have "count_bases t own fuel bs seen = Some (0, seen')" using 4(5) by simp
    from 4(1) [OF None this 4(6,7) edges 4(9,10)] None show ?thesis by simp
  next
    case (Some base)
    show ?thesis
    proof (cases "isVirtual \<and> b \<in> set seen")
      case True
      have "b \<notin> P"
      proof
        assume "b \<in> P"
        then have "(b, n) \<in> (direct_base t)\<^sup>*" using 4(10) by (simp add: below_all_def)
        with edge have "(b, b) \<in> (direct_base t)\<^sup>+" by simp
        with 4(6) show False by (simp add: hierarchy_ok_def acyclic_def)
      qed
      with True 4(9) have "clean t own b" by (auto simp: seen_clean_def)
      moreover have "count_bases t own fuel bs seen = Some (0, seen')" using 4(5) Some True by simp
      from 4(2) [OF Some True this 4(6,7) edges 4(9,10)]
      have "seen_clean t own P seen' \<and> (\<forall>(b, v) \<in> set bs. map_of t b \<noteq> None \<longrightarrow> clean t own b)" .
      ultimately show ?thesis by simp
    next
      case False
      let ?P = "if isVirtual then insert b P else P" and ?seen = "if isVirtual then b # seen else seen"
      obtain mid where visit: "count_visit t own fuel base ?seen = Some (0, mid)"
          and rest: "count_bases t own fuel bs mid = Some (0, seen')"
        using 4(5) Some False by (auto simp: bind_eq_Some_conv)
      have enter: "seen_clean t own ?P ?seen" using 4(9) by (auto simp: seen_clean_def)
      have "below_all t ?P b"
        using 4(10) edge by (auto simp: below_all_def intro: rtrancl_into_rtrancl)
      from 4(3) [OF Some False visit 4(6,7) Some enter this]
      have walked: "seen_clean t own ?P mid" "clean t own b" by blast+
      then have leave: "seen_clean t own P mid" by (auto simp: seen_clean_def split: if_splits)
      from 4(4) [OF Some False visit refl rest 4(6,7) edges leave 4(10)]
      have "seen_clean t own P seen' \<and> (\<forall>(b, v) \<in> set bs. map_of t b \<noteq> None \<longrightarrow> clean t own b)" .
      with walked(2) show ?thesis by simp
    qed
  qed
qed auto

lemma count_members_clean:
  assumes "hierarchy_ok t" "vectors_ok t" "map_of t n = Some c" "count_members t own c = Some 0"
  shows "clean t own n"
proof -
  from assms(4) obtain seen where "count_visit t own (depth_of t) c [] = Some (0, seen)"
    by (auto simp: count_members_def)
  from count_visit_clean(1) [OF this assms(1-3), of "{}"] show ?thesis
    by (simp add: seen_clean_def below_all_def)
qed

subsection \<open>Distinct members\<close>

lemma find_SomeD: "List.find P xs = Some x \<Longrightarrow> x \<in> set xs \<and> P x"
  by (induction xs) (auto split: if_splits)

lemma duplicate_None: "duplicate (\<lambda>x y. f x = f y) xs = None \<longleftrightarrow> distinct (map f xs)"
  by (induction xs) (auto simp: find_None_iff dest!: find_SomeD split: option.splits)

lemma same_signature_iff:
  "same_signature m n \<longleftrightarrow>
     (me_name m, map pa_type (me_parameters m)) = (me_name n, map pa_type (me_parameters n))"
  by (simp add: same_signature_def sameParameterTypes_iff)

definition signatures :: "class_declaration \<Rightarrow> (string \<times> string list) list" where
  "signatures c = map (\<lambda>m. (me_name m, map pa_type (me_parameters m))) (cl_methods c)"

lemma duplicate_signature: "duplicate same_signature (cl_methods c) = None \<longleftrightarrow> distinct (signatures c)"
proof -
  define f where "f = (\<lambda>m :: method_declaration. (me_name m, map pa_type (me_parameters m)))"
  have "same_signature = (\<lambda>m n. f m = f n)"
    by (intro ext) (simp add: same_signature_iff f_def)
  then show ?thesis using duplicate_None [of f "cl_methods c"] unfolding signatures_def f_def [symmetric] by simp
qed

text \<open>What the parser and the resolution of base names establish before the checks.\<close>

definition bases_resolved :: "class_table \<Rightarrow> bool" where
  "bases_resolved t \<longleftrightarrow> table_ok t \<and> bases_known t \<and> vectors_ok t \<and>
     (\<forall>(n, c) \<in> set t. cl_baseClassName c = [] \<longrightarrow> cl_baseClassNames c = [])"

definition own_members :: "class_declaration \<Rightarrow> string set" where
  "own_members c = fd_name ` set (cl_fields c) \<union> em_name ` set (cl_enumMembers c)"

lemma own_fields_0: "own_fields name c = 0 \<longleftrightarrow> name \<notin> fd_name ` set (cl_fields c)"
  by (auto simp: own_fields_def filter_empty_conv)

lemma own_enum_members_0: "own_enum_members name c = 0 \<longleftrightarrow> name \<notin> em_name ` set (cl_enumMembers c)"
  by (auto simp: own_enum_members_def filter_empty_conv)

lemma reject_at_Inr [simp]: "reject_at bad location message = Inr u \<longleftrightarrow> \<not> bad"
  by (simp add: reject_at_def)

lemma need_Inr [simp]: "need r = Inr x \<longleftrightarrow> r = Some x"
  by (cases r) (auto simp: need_def)

lemma findClass_known: "map_of (sc_classes scope) b = Some d \<Longrightarrow> findClass scope path b location = Inr (b, d)"
  by (simp add: findClass_def)

lemma check_class_parts:
  assumes "check_class scope definitions c = Inr u"
  shows "check_distinct_fields c = Inr ()" "check_enum_members scope c (cl_enumMembers c) = Inr ()"
    "check_derived scope c = Inr ()" "check_distinct_methods c = Inr ()"
  using assms by (auto simp: check_class_def bindE_Inr_iff)

lemma check_inherited_field_clean:
  assumes "check_inherited_field scope c f (b, location) = Inr u"
    and "hierarchy_ok (sc_classes scope)" "vectors_ok (sc_classes scope)" "map_of (sc_classes scope) b = Some d"
  shows "clean (sc_classes scope) (own_fields (fd_name f)) b" "clean (sc_classes scope) (own_enum_members (fd_name f)) b"
  using assms(1) count_members_clean [OF assms(2-4)]
  by (auto simp: check_inherited_field_def findClass_known [OF assms(4)] bindE_Inr_iff
      countFields_def countEnumMembers_def)

lemma check_inherited_enum_clean:
  assumes "check_inherited_enum scope m b = Inr u"
    and "hierarchy_ok (sc_classes scope)" "vectors_ok (sc_classes scope)" "map_of (sc_classes scope) b = Some d"
  shows "clean (sc_classes scope) (own_fields (em_name m)) b" "clean (sc_classes scope) (own_enum_members (em_name m)) b"
  using assms(1) count_members_clean [OF assms(2-4)]
  by (auto simp: check_inherited_enum_def findClass_known [OF assms(4)] bindE_Inr_iff
      countFields_def countEnumMembers_def split: if_splits)

lemma check_enum_members_parts:
  "check_enum_members scope c ms = Inr u \<Longrightarrow>
     distinct (map em_name ms) \<and> (\<forall>m \<in> set ms. em_name m \<notin> fd_name ` set (cl_fields c) \<and>
       eachE (check_inherited_enum scope m) (cl_baseClassNames c) = Inr ())"
  by (induction ms) (auto simp: bindE_Inr_iff find_None_iff list_ex_iff split: option.splits)

text \<open>The members of a class are distinct, and no ancestor has a field or constant of the name.\<close>

definition members_distinct :: "class_table \<Rightarrow> string \<Rightarrow> class_declaration \<Rightarrow> bool" where
  "members_distinct t n c \<longleftrightarrow>
     distinct (map fd_name (cl_fields c) @ map em_name (cl_enumMembers c)) \<and> distinct (signatures c) \<and>
     (\<forall>a d. (n, a) \<in> (direct_base t)\<^sup>+ \<longrightarrow> map_of t a = Some d \<longrightarrow> own_members c \<inter> own_members d = {})"

lemma inherited_clean:
  assumes "check_class scope definitions c = Inr u" "map_of (sc_classes scope) n = Some c"
    and "hierarchy_ok (sc_classes scope)" "bases_resolved (sc_classes scope)"
    and "(n, b) \<in> direct_base (sc_classes scope)" "name \<in> own_members c"
  shows "clean (sc_classes scope) (own_fields name) b \<and> clean (sc_classes scope) (own_enum_members name) b"
proof -
  let ?t = "sc_classes scope"
  have ok: "bases_known ?t" "vectors_ok ?t" using assms(4) by (simp_all add: bases_resolved_def)
  obtain d where d: "map_of ?t b = Some d" using bases_known_target [OF ok(1) assms(5)] by blast
  have names: "b \<in> set (cl_baseClassNames c)" using assms(2,5) by (auto simp: direct_base_def)
  then have derived: "cl_baseClassName c \<noteq> []"
    using assms(4) map_of_SomeD [OF assms(2)] by (auto simp: bases_resolved_def)
  obtain location where at: "(b, location) \<in> set (located_bases c)"
    using bases_known_edges [OF ok(1) assms(2)] assms(5) by fastforce
  note parts = check_class_parts [OF assms(1)]
  from assms(6) consider f where "f \<in> set (cl_fields c)" "name = fd_name f"
    | m where "m \<in> set (cl_enumMembers c)" "name = em_name m" by (auto simp: own_members_def)
  then show ?thesis
  proof cases
    case 1
    have "eachE (\<lambda>f. eachE (check_inherited_field scope c f) (located_bases c)) (cl_fields c) = Inr ()"
      using parts(3) derived by (auto simp: check_derived_def bindE_Inr_iff)
    from eachE_Inr [OF eachE_Inr [OF this 1(1)] at] check_inherited_field_clean [OF _ assms(3) ok(2) d] 1(2)
    show ?thesis by blast
  next
    case 2
    have "eachE (check_inherited_enum scope m) (cl_baseClassNames c) = Inr ()"
      using check_enum_members_parts [OF parts(2)] 2(1) by blast
    from eachE_Inr [OF this names] check_inherited_enum_clean [OF _ assms(3) ok(2) d] 2(2)
    show ?thesis by blast
  qed
qed

lemma check_class_members:
  assumes "check_class scope definitions c = Inr u" "map_of (sc_classes scope) n = Some c"
    and "hierarchy_ok (sc_classes scope)" "bases_resolved (sc_classes scope)"
  shows "members_distinct (sc_classes scope) n c"
  unfolding members_distinct_def
proof (intro conjI allI impI)
  let ?t = "sc_classes scope"
  note parts = check_class_parts [OF assms(1)]
  have "duplicate (\<lambda>f g. fd_name f = fd_name g) (cl_fields c) = None"
    using parts(1) by (auto simp: check_distinct_fields_def split: option.splits)
  then have "distinct (map fd_name (cl_fields c))" by (simp add: duplicate_None)
  then show "distinct (map fd_name (cl_fields c) @ map em_name (cl_enumMembers c))"
    using check_enum_members_parts [OF parts(2)] by (fastforce simp: image_iff)
  have "duplicate same_signature (cl_methods c) = None"
    using parts(4) by (auto simp: check_distinct_methods_def split: option.splits)
  then show "distinct (signatures c)" by (simp only: duplicate_signature)
  fix a d
  assume "(n, a) \<in> (direct_base ?t)\<^sup>+" and d: "map_of ?t a = Some d"
  then obtain b where b: "(n, b) \<in> direct_base ?t" "(b, a) \<in> (direct_base ?t)\<^sup>*"
    by (auto dest: tranclD)
  show "own_members c \<inter> own_members d = {}"
  proof (rule ccontr)
    assume "own_members c \<inter> own_members d \<noteq> {}"
    then obtain name where name: "name \<in> own_members c" "name \<in> own_members d" by blast
    from inherited_clean [OF assms b(1) name(1)] b(2) d
    have "own_fields name d = 0" "own_enum_members name d = 0" by (auto simp: clean_def)
    with name(2) show False by (simp add: own_members_def own_fields_0 own_enum_members_0)
  qed
qed

text \<open>
  C5: If the checks of the class declarations pass, the inheritance has no cycle, the fields,
  enum members and method signatures of a class are distinct, and no class repeats the name of
  a field or enum member of an ancestor.
\<close>

theorem check_classes_sound:
  assumes "check_classes scope definitions cs = Inr ()" "bases_resolved (sc_classes scope)"
    and "snd ` set (sc_classes scope) \<subseteq> set cs" "map_of (sc_classes scope) n = Some c"
  shows "acyclic (direct_base (sc_classes scope)) \<and> members_distinct (sc_classes scope) n c"
proof -
  let ?scope = "scope\<lparr>sc_currentModule := cl_moduleName c\<rparr>"
  have ok: "hierarchy_ok (sc_classes scope)"
    using checked_hierarchy [OF assms(1) _ _ assms(3)] assms(2) by (simp add: bases_resolved_def)
  have "c \<in> set cs" using assms(3) map_of_SomeD [OF assms(4)] by force
  from eachE_Inr [OF assms(1) [unfolded check_classes_def] this]
  have "check_class ?scope definitions c = Inr ()" .
  from check_class_members [OF this, of n] ok assms(2,4) show ?thesis
    by (simp add: hierarchy_ok_def)
qed

definition class_entry ::
  "string \<Rightarrow> string list \<Rightarrow> (string \<times> string) list \<Rightarrow> method_declaration list \<Rightarrow> string \<times> class_declaration" where
  "class_entry name bases fs ms =
     (name, default_class\<lparr>cl_name := name, cl_baseClassName := (case bases of [] \<Rightarrow> [] | b # bs \<Rightarrow> b),
        cl_baseClassNames := bases, cl_baseLocations := map (\<lambda>_. default_location) bases,
        cl_baseAccess := map (\<lambda>_. Public) bases, cl_baseVirtual := map (\<lambda>_. False) bases,
        cl_fields := map (\<lambda>(t, f). \<lparr>fd_type = t, fd_name = f, fd_location = default_location, fd_access = Public\<rparr>) fs,
        cl_methods := ms\<rparr>)"

definition scope_of :: "class_table \<Rightarrow> name_scope" where
  "scope_of t = \<lparr>sc_classes = t, sc_namespaceOwners = [], sc_importAliases = [], sc_currentModule = []\<rparr>"

lemma scope_of_classes [simp]: "sc_classes (scope_of t) = t"
  by (simp add: scope_of_def)

definition sound_table :: class_table where
  "sound_table = [class_entry ''Shape'' [] [(''int'', ''width'')] [], class_entry ''Box'' [''Shape''] [(''Shape'', ''inner'')] []]"

theorem check_classes_sound_witness:
  "acyclic (direct_base sound_table) \<and> members_distinct sound_table ''Box'' (the (map_of sound_table ''Box''))"
proof -
  have "check_classes (scope_of sound_table) [] (map snd sound_table) = Inr ()" by code_simp
  moreover have "bases_resolved sound_table"
    by (simp add: bases_resolved_def table_ok_def bases_known_def vectors_ok_def sound_table_def class_entry_def)
  moreover have "map_of sound_table ''Box'' = Some (the (map_of sound_table ''Box''))"
    by (simp add: sound_table_def class_entry_def)
  ultimately show ?thesis
    using check_classes_sound [of "scope_of sound_table" "[]" "map snd sound_table"] by simp
qed

text \<open>
  The search of \<open>isSubclassOf\<close> decides reachability through the direct bases, in a
  hierarchy with cycles too.
\<close>

theorem isSubclassOf_reachability:
  assumes "table_ok t"
  shows "isSubclassOf t a b \<longleftrightarrow> map_of t a \<noteq> None \<and> (a, b) \<in> (direct_base t)\<^sup>*"
  using assms by (rule isSubclassOf_closure)

theorem isSubclassOf_reachability_witness:
  "isSubclassOf sound_table ''Box'' ''Shape'' \<longleftrightarrow>
     map_of sound_table ''Box'' \<noteq> None \<and> (''Box'', ''Shape'') \<in> (direct_base sound_table)\<^sup>*"
  by (rule isSubclassOf_reachability) (simp add: table_ok_def sound_table_def class_entry_def)

subsection \<open>Endless recursion\<close>

text \<open>
  Classes that each have a direct base among them that is not virtual: each is on an inheritance
  cycle or below one.
\<close>

definition endless_classes :: "class_table \<Rightarrow> string set \<Rightarrow> bool" where
  "endless_classes t S \<longleftrightarrow> (\<forall>n \<in> S. \<exists>c b. map_of t n = Some c \<and> b \<in> S \<and>
     (b, False) \<in> set (zip (cl_baseClassNames c) (cl_baseVirtual c)))"

lemma count_bases_endless:
  assumes "(b, False) \<in> set bs" "map_of t b = Some d" "\<And>seen. count_visit t own fuel d seen = None"
  shows "count_bases t own fuel bs seen = None"
  using assms(1)
proof (induction bs arbitrary: seen)
  case (Cons e bs)
  show ?case
  proof (cases "e = (b, False)")
    case True
    with assms(2,3) show ?thesis by simp
  next
    case False
    with Cons.prems have "(b, False) \<in> set bs" by auto
    note IH = Cons.IH [OF this]
    obtain x v where e: "e = (x, v)" by (cases e)
    show ?thesis unfolding e
      by (auto simp: IH bind_eq_None_conv split: option.splits)
  qed
qed simp

lemma count_visit_endless:
  assumes "endless_classes t S" "\<And>n c. n \<in> S \<Longrightarrow> map_of t n = Some c \<Longrightarrow> own c = 0"
  shows "n \<in> S \<Longrightarrow> map_of t n = Some c \<Longrightarrow> count_visit t own fuel c seen = None"
proof (induction fuel arbitrary: n c seen)
  case (Suc fuel)
  obtain b where b: "b \<in> S" "(b, False) \<in> set (zip (cl_baseClassNames c) (cl_baseVirtual c))"
    using assms(1) Suc.prems by (fastforce simp: endless_classes_def)
  then obtain d where d: "map_of t b = Some d" using assms(1) by (auto simp: endless_classes_def)
  from count_bases_endless [OF b(2) d Suc.IH [OF b(1) d]] assms(2) [OF Suc.prems] show ?case by simp
qed simp


text \<open>Class \<open>A\<close> derives from \<open>B\<close>, and \<open>B\<close> and \<open>C\<close> derive from each other.\<close>

definition looping_table :: class_table where
  "looping_table = [class_entry ''A'' [''B''] [(''int'', ''x'')] [], class_entry ''B'' [''C''] [] [], class_entry ''C'' [''B''] [] []]"


subsection \<open>Overrides of several bases\<close>

definition int_method :: "string \<Rightarrow> string \<Rightarrow> method_declaration" where
  "int_method result name = default_method\<lparr>me_name := name, me_returnType := result\<rparr>"

definition two_bases :: class_table where
  "two_bases =
     [class_entry ''First'' [] [] [int_method ''int'' ''get''], class_entry ''Second'' [] [] [int_method ''float'' ''get''],
      class_entry ''Both'' [''First'', ''Second''] [] [],
      class_entry ''Derived'' [''Both''] [] [int_method ''int'' ''get'']]"

end
