(* ===== verification/Runtime_Values.thy ===== *)
theory Runtime_Values
  imports Prelude "HOL-Library.Word" "HOL-Library.While_Combinator"
begin

text \<open>
  The values of the C runtime that is linked to compiled programs (\<open>src/RuntimeGc.c\<close>), and the
  ways its functions end. Pointers are addresses, 0 is \<open>NULL\<close>.
\<close>

unbundle bit_operations_syntax

subsection \<open>Results\<close>

text \<open>
  A function of the runtime returns, raises an exception of the language, which never returns
  to the caller, or calls \<open>abort\<close>. A loop that does not end and an access outside of a block of
  memory are failures too. A failed \<open>malloc\<close> is not modelled.
\<close>

datatype failure = Raised string | Aborted | Looping | Out_of_bounds

type_synonym 'a run = "(failure, 'a) result"

definition raise_if :: "bool \<Rightarrow> string \<Rightarrow> unit run" where
  "raise_if bad message = (if bad then Inl (Raised message) else Inr ())"

definition abort_if :: "bool \<Rightarrow> unit run" where
  "abort_if bad = (if bad then Inl Aborted else Inr ())"

abbreviation then_run :: "unit run \<Rightarrow> 'a run \<Rightarrow> 'a run" where
  "then_run r s \<equiv> bindE r (\<lambda>_. s)"

lemma raise_if_simps [simp]:
  "raise_if True m = Inl (Raised m)" "raise_if False m = Inr ()" "raise_if b m = Inr u \<longleftrightarrow> \<not> b"
  "abort_if True = Inl Aborted" "abort_if False = Inr ()" "abort_if b = Inr u \<longleftrightarrow> \<not> b"
  by (auto simp: raise_if_def abort_if_def)

subsection \<open>Limits\<close>

text \<open>\<open>SIZE_MAX\<close> equals \<open>UINT64_MAX\<close> on the supported 64-bit platforms.\<close>

definition int64_max :: nat where
  "int64_max = 9223372036854775807"

definition uint64_max :: nat where
  "uint64_max = 18446744073709551615"

subsection \<open>Blocks of memory\<close>

definition read_block :: "nat \<Rightarrow> nat \<Rightarrow> 'a list \<Rightarrow> 'a list run" where
  "read_block offset n block =
     (if n = 0 then Inr [] else if offset + n \<le> length block then Inr (take n (drop offset block)) else Inl Out_of_bounds)"

definition write_block :: "nat \<Rightarrow> 'a list \<Rightarrow> 'a list \<Rightarrow> 'a list run" where
  "write_block offset xs block =
     (if xs = [] then Inr block
      else if offset + length xs \<le> length block then Inr (take offset block @ xs @ drop (offset + length xs) block)
      else Inl Out_of_bounds)"

text \<open>\<open>memmove\<close> inside of one block.\<close>

definition move_block :: "nat \<Rightarrow> nat \<Rightarrow> nat \<Rightarrow> 'a list \<Rightarrow> 'a list run" where
  "move_block to from n block = bindE (read_block from n block) (\<lambda>xs. write_block to xs block)"

text \<open>
  The loops that double a capacity: they stop when it is large enough or above a limit, in which
  case exactly the needed capacity is taken. \<open>None\<close> is a loop that does not end.
\<close>

definition grown :: "nat \<Rightarrow> nat \<Rightarrow> nat \<Rightarrow> nat option" where
  "grown limit needed capacity =
     map_option (\<lambda>c. if c < needed then needed else c)
       (while_option (\<lambda>c. c < needed \<and> c \<le> limit) (\<lambda>c. c * 2) capacity)"

lemma grown_exists:
  assumes "0 < capacity"
  shows "\<exists>c. grown limit needed capacity = Some c \<and> needed \<le> c \<and> capacity \<le> c \<and>
    (capacity < c \<longrightarrow> c \<le> max needed (2 * limit))"
proof -
  let ?b = "\<lambda>c. c < needed \<and> c \<le> limit" and ?f = "\<lambda>c :: nat. c * 2"
  have "\<exists>c. while_option ?b ?f capacity = Some c"
    by (rule measure_while_option_Some [where P = "\<lambda>c. 0 < c" and f = "\<lambda>c. needed - c"]) (use assms in auto)
  then obtain c where c: "while_option ?b ?f capacity = Some c" by blast
  have "capacity \<le> c \<and> (capacity < c \<longrightarrow> c \<le> 2 * limit)"
    by (rule while_option_rule [where P = "\<lambda>c. capacity \<le> c \<and> (capacity < c \<longrightarrow> c \<le> 2 * limit)", OF _ c]) auto
  with c show ?thesis by (auto simp: grown_def)
qed

lemma read_block_simps:
  "offset + n \<le> length block \<Longrightarrow> read_block offset n block = Inr (take n (drop offset block))"
  by (simp add: read_block_def)

lemma write_block_simps:
  "offset + length xs \<le> length block \<Longrightarrow>
     write_block offset xs block = Inr (take offset block @ xs @ drop (offset + length xs) block)"
  by (auto simp: write_block_def)

subsection \<open>Tagged values\<close>

datatype value_tag =
    CWHIP_ARRAY_INTEGER | CWHIP_ARRAY_STRING | CWHIP_ARRAY_OBJECT | CWHIP_ARRAY_MAP
  | CWHIP_ARRAY_ARRAY | CWHIP_ARRAY_BOOLEAN | CWHIP_ARRAY_FLOAT | CWHIP_ARRAY_UNSIGNED
  | CWHIP_ARRAY_BUFFER | CWHIP_ARRAY_HANDLE | CWHIP_ARRAY_TYPE

definition tag_number :: "value_tag \<Rightarrow> 64 word" where
  "tag_number t = (case t of
     CWHIP_ARRAY_INTEGER \<Rightarrow> 1 | CWHIP_ARRAY_STRING \<Rightarrow> 2 | CWHIP_ARRAY_OBJECT \<Rightarrow> 3 | CWHIP_ARRAY_MAP \<Rightarrow> 4
   | CWHIP_ARRAY_ARRAY \<Rightarrow> 5 | CWHIP_ARRAY_BOOLEAN \<Rightarrow> 6 | CWHIP_ARRAY_FLOAT \<Rightarrow> 7 | CWHIP_ARRAY_UNSIGNED \<Rightarrow> 8
   | CWHIP_ARRAY_BUFFER \<Rightarrow> 9 | CWHIP_ARRAY_HANDLE \<Rightarrow> 10 | CWHIP_ARRAY_TYPE \<Rightarrow> 11)"

record array_value =
  av_tag :: "64 word"
  av_integer :: "64 word"
  av_pointer :: nat
  av_length :: "64 word"

text \<open>The value of new list elements, a null reference.\<close>

definition null_value :: array_value where
  "null_value = \<lparr>av_tag = tag_number CWHIP_ARRAY_OBJECT, av_integer = 0, av_pointer = 0, av_length = 0\<rparr>"

definition dynamic_value_is_gc_reference :: "64 word \<Rightarrow> bool" where
  "dynamic_value_is_gc_reference tag \<longleftrightarrow>
     tag = tag_number CWHIP_ARRAY_OBJECT \<or> tag = tag_number CWHIP_ARRAY_MAP \<or>
     tag = tag_number CWHIP_ARRAY_ARRAY \<or> tag = tag_number CWHIP_ARRAY_BUFFER"

subsection \<open>Powers of two\<close>

text \<open>Masking with a power of two less one is the remainder.\<close>

lemma unat_mask_mod: "unat ((w :: 64 word) AND (2 ^ k - 1)) = unat w mod 2 ^ k"
proof -
  have "unat (w AND mask k) = take_bit k (unat w)"
    by (simp flip: take_bit_eq_mask add: unsigned_take_bit_eq)
  then show ?thesis by (simp add: mask_eq_decr_exp take_bit_eq_mod)
qed

end
