(* ===== verification/Runtime_Buffer.thy ===== *)
theory Runtime_Buffer
  imports Runtime_Values
begin

text \<open>
  The byte buffers of the runtime (\<open>src/RuntimeGc.c\<close>), and the indices and bounds that buffers,
  lists and dictionaries share. The block of memory of a buffer is modelled with the bytes
  behind its length; what \<open>realloc\<close> leaves in new memory is an argument, \<open>junk\<close>.
\<close>

subsection \<open>Indices and bounds\<close>

text \<open>Negative indices count from the end.\<close>

definition normalize_collection_index :: "int \<Rightarrow> nat \<Rightarrow> int" where
  "normalize_collection_index index len = (if index < 0 then index + int len else index)"

definition normalize_slice_bound :: "int \<Rightarrow> nat \<Rightarrow> int \<Rightarrow> bool \<Rightarrow> bool \<Rightarrow> int" where
  "normalize_slice_bound bound len step is_start has_bound =
     (if \<not> has_bound then
        (if is_start then (if step > 0 then 0 else int len - 1)
         else (if step > 0 then int len else -1))
      else
        let normalized = (if bound < 0 then bound + int len else bound) in
        if step > 0 then
          (if normalized < 0 then 0 else if normalized > int len then int len else normalized)
        else
          (if normalized < -1 then -1 else if normalized \<ge> int len then int len - 1 else normalized))"

lemma normalize_forward:
  "0 < step \<Longrightarrow> 0 \<le> normalize_slice_bound bound len step is_start has_bound \<and>
     normalize_slice_bound bound len step is_start has_bound \<le> int len"
  by (auto simp: normalize_slice_bound_def Let_def)

lemma normalize_backward:
  "\<not> 0 < step \<Longrightarrow> -1 \<le> normalize_slice_bound bound len step is_start has_bound \<and>
     normalize_slice_bound bound len step is_start has_bound < int len"
  by (auto simp: normalize_slice_bound_def Let_def)

subsection \<open>State\<close>

text \<open>The capacity is the length of the block \<open>data\<close>.\<close>

record cwhip_buffer =
  bu_length :: nat
  bu_data :: string

definition buffer_ok :: "cwhip_buffer \<Rightarrow> bool" where
  "buffer_ok b \<longleftrightarrow> bu_length b \<le> length (bu_data b) \<and> bu_length b \<le> int64_max"

definition buffer_bytes :: "cwhip_buffer \<Rightarrow> string" where
  "buffer_bytes b = take (bu_length b) (bu_data b)"

definition buffer_of :: "string \<Rightarrow> cwhip_buffer" where
  "buffer_of bytes = \<lparr>bu_length = length bytes, bu_data = bytes\<rparr>"

subsection \<open>Operations\<close>

definition buffer_reserve :: "(nat \<Rightarrow> char) \<Rightarrow> cwhip_buffer \<Rightarrow> nat \<Rightarrow> cwhip_buffer run" where
  "buffer_reserve junk b capacity =
     then_run (abort_if (capacity > uint64_max))
     (if capacity \<le> length (bu_data b) then Inr b
      else
        (case grown (int64_max div 2) capacity (if bu_data b = [] then 8 else length (bu_data b)) of
           None \<Rightarrow> Inl Looping
         | Some enlarged \<Rightarrow> Inr (b\<lparr>bu_data := bu_data b @ map junk [length (bu_data b)..<enlarged]\<rparr>)))"

definition cwhip_buffer_new :: "int \<Rightarrow> cwhip_buffer run" where
  "cwhip_buffer_new len =
     then_run (raise_if (len < 0) ''buffer length cannot be negative'')
     (then_run (raise_if (nat len > uint64_max) ''buffer length exceeds allocation limit'')
       (Inr (buffer_of (replicate (nat len) nul))))"

definition cwhip_buffer_copy :: "cwhip_buffer \<Rightarrow> cwhip_buffer run" where
  "cwhip_buffer_copy source =
     bindE (read_block 0 (bu_length source) (bu_data source)) (\<lambda>bytes. Inr (buffer_of bytes))"

definition cwhip_buffer_slice_ex :: "cwhip_buffer \<Rightarrow> int \<Rightarrow> int \<Rightarrow> bool \<Rightarrow> bool \<Rightarrow> cwhip_buffer run" where
  "cwhip_buffer_slice_ex source start stop has_start has_end =
     (let first = normalize_slice_bound start (bu_length source) 1 True has_start;
          last = normalize_slice_bound stop (bu_length source) 1 False has_end;
          len = (if last > first then nat (last - first) else 0) in
      bindE (read_block (nat first) len (bu_data source)) (\<lambda>bytes. Inr (buffer_of bytes)))"

definition cwhip_buffer_slice :: "cwhip_buffer \<Rightarrow> int \<Rightarrow> int \<Rightarrow> cwhip_buffer run" where
  "cwhip_buffer_slice source start stop = cwhip_buffer_slice_ex source start stop True True"

definition cwhip_buffer_resize :: "(nat \<Rightarrow> char) \<Rightarrow> cwhip_buffer \<Rightarrow> int \<Rightarrow> cwhip_buffer run" where
  "cwhip_buffer_resize junk b len =
     then_run (raise_if (len < 0) ''buffer length cannot be negative'')
     (then_run (raise_if (nat len > int64_max \<or> nat len > uint64_max) ''buffer length exceeds allocation limit'')
     (if nat len > bu_length b then
        bindE (buffer_reserve junk b (nat len)) (\<lambda>b.
        bindE (write_block (bu_length b) (replicate (nat len - bu_length b) nul) (bu_data b)) (\<lambda>data.
          Inr (b\<lparr>bu_data := data, bu_length := nat len\<rparr>)))
      else Inr (b\<lparr>bu_length := nat len\<rparr>)))"

definition cwhip_buffer_clear :: "(nat \<Rightarrow> char) \<Rightarrow> cwhip_buffer \<Rightarrow> cwhip_buffer run" where
  "cwhip_buffer_clear junk b = cwhip_buffer_resize junk b 0"

text \<open>A cast to \<open>uint8_t\<close> keeps the lowest byte, as \<open>char_of\<close> does.\<close>

definition cwhip_buffer_append :: "(nat \<Rightarrow> char) \<Rightarrow> cwhip_buffer \<Rightarrow> 64 word \<Rightarrow> cwhip_buffer run" where
  "cwhip_buffer_append junk b v =
     then_run (raise_if (bu_length b \<ge> int64_max) ''buffer length out of bounds'')
     (bindE (buffer_reserve junk b (bu_length b + 1)) (\<lambda>b.
      bindE (write_block (bu_length b) [char_of (unat v)] (bu_data b)) (\<lambda>data.
        Inr (b\<lparr>bu_data := data, bu_length := bu_length b + 1\<rparr>))))"

definition index_in_bounds :: "int \<Rightarrow> nat \<Rightarrow> string \<Rightarrow> nat run" where
  "index_in_bounds index len message =
     (let normalized = normalize_collection_index index len in
      then_run (raise_if (normalized < 0 \<or> nat normalized \<ge> len) message) (Inr (nat normalized)))"

definition cwhip_buffer_get :: "cwhip_buffer \<Rightarrow> int \<Rightarrow> nat run" where
  "cwhip_buffer_get b index =
     bindE (index_in_bounds index (bu_length b) ''buffer index out of bounds'') (\<lambda>i.
     bindE (read_block i 1 (bu_data b)) (\<lambda>bytes. Inr (byte (hd bytes))))"

definition cwhip_buffer_set :: "cwhip_buffer \<Rightarrow> int \<Rightarrow> 64 word \<Rightarrow> cwhip_buffer run" where
  "cwhip_buffer_set b index v =
     bindE (index_in_bounds index (bu_length b) ''buffer index out of bounds'') (\<lambda>i.
     bindE (write_block i [char_of (unat v)] (bu_data b)) (\<lambda>data. Inr (b\<lparr>bu_data := data\<rparr>)))"

subsection \<open>Bytes\<close>

named_theorems buffer_rules \<open>what the operations do to the bytes of a buffer\<close>

lemma buffer_of_ok [simp]: "length bytes \<le> int64_max \<Longrightarrow> buffer_ok (buffer_of bytes)" "buffer_bytes (buffer_of bytes) = bytes"
  by (simp_all add: buffer_ok_def buffer_bytes_def buffer_of_def)

lemma length_buffer_bytes: "buffer_ok b \<Longrightarrow> length (buffer_bytes b) = bu_length b"
  by (simp add: buffer_ok_def buffer_bytes_def)

lemma buffer_reserve_ok:
  assumes "capacity \<le> int64_max" "buffer_ok b"
  shows "\<exists>b'. buffer_reserve junk b capacity = Inr b' \<and> buffer_ok b' \<and> buffer_bytes b' = buffer_bytes b \<and>
    bu_length b' = bu_length b \<and> capacity \<le> length (bu_data b') \<and>
    (\<exists>more. bu_data b' = bu_data b @ more)"
proof (cases "capacity \<le> length (bu_data b)")
  case True
  with assms show ?thesis by (simp add: buffer_reserve_def int64_max_def uint64_max_def)
next
  case False
  let ?size = "if bu_data b = [] then 8 else length (bu_data b)"
  have "0 < ?size" by simp
  from grown_exists [OF this, of "int64_max div 2" capacity] obtain c where
      c: "grown (int64_max div 2) capacity ?size = Some c" "capacity \<le> c" by blast
  with False assms show ?thesis
    by (auto simp: buffer_reserve_def int64_max_def uint64_max_def buffer_ok_def buffer_bytes_def)
qed

lemma cwhip_buffer_copy_bytes [buffer_rules]:
  "buffer_ok b \<Longrightarrow> cwhip_buffer_copy b = Inr (buffer_of (buffer_bytes b))"
  by (simp add: cwhip_buffer_copy_def read_block_simps buffer_ok_def buffer_bytes_def)

text \<open>The part of a list between two bounds.\<close>

definition slice :: "nat \<Rightarrow> nat \<Rightarrow> 'a list \<Rightarrow> 'a list" where
  "slice i j xs = take (j - i) (drop i xs)"

lemma cwhip_buffer_slice_bytes [buffer_rules]:
  assumes "buffer_ok b"
  shows "cwhip_buffer_slice_ex b start stop has_start has_end =
    Inr (buffer_of (slice (nat (normalize_slice_bound start (bu_length b) 1 True has_start))
      (nat (normalize_slice_bound stop (bu_length b) 1 False has_end)) (buffer_bytes b)))"
proof -
  let ?first = "normalize_slice_bound start (bu_length b) 1 True has_start"
  let ?last = "normalize_slice_bound stop (bu_length b) 1 False has_end"
  have bounds: "0 \<le> ?first" "?first \<le> int (bu_length b)" "0 \<le> ?last" "?last \<le> int (bu_length b)"
    using normalize_forward [of 1] by simp_all
  show ?thesis
  proof (cases "?last > ?first")
    case True
    with bounds have "nat ?first + nat (?last - ?first) = nat ?last" by (simp flip: nat_add_distrib)
    moreover have "nat ?last \<le> bu_length b" using bounds by linarith
    ultimately have "nat ?first + nat (?last - ?first) \<le> length (bu_data b)"
      using assms by (simp add: buffer_ok_def)
    with True bounds show ?thesis
      by (simp add: cwhip_buffer_slice_ex_def Let_def read_block_simps slice_def buffer_bytes_def
          drop_take min_def nat_diff_distrib)
  next
    case False
    with bounds show ?thesis
      by (simp add: cwhip_buffer_slice_ex_def Let_def read_block_def slice_def)
  qed
qed

lemma cwhip_buffer_resize_bytes [buffer_rules]:
  assumes "buffer_ok b" "0 \<le> len" "nat len \<le> int64_max"
  shows "\<exists>b'. cwhip_buffer_resize junk b len = Inr b' \<and> buffer_ok b' \<and>
    buffer_bytes b' = take (nat len) (buffer_bytes b) @ replicate (nat len - bu_length b) nul"
proof (cases "nat len > bu_length b")
  case True
  from buffer_reserve_ok [OF assms(3,1)] obtain c more where
      c: "buffer_reserve junk b (nat len) = Inr c" "bu_length c = bu_length b" "nat len \<le> length (bu_data c)"
        "bu_data c = bu_data b @ more" by blast
  with True assms show ?thesis
    by (auto simp: cwhip_buffer_resize_def int64_max_def uint64_max_def write_block_simps buffer_ok_def buffer_bytes_def)
      arith
next
  case False
  with assms show ?thesis
    by (auto simp: cwhip_buffer_resize_def int64_max_def uint64_max_def buffer_ok_def buffer_bytes_def min_def)
qed

lemma cwhip_buffer_append_bytes [buffer_rules]:
  assumes "buffer_ok b" "bu_length b < int64_max"
  shows "\<exists>b'. cwhip_buffer_append junk b v = Inr b' \<and> buffer_ok b' \<and>
    buffer_bytes b' = buffer_bytes b @ [char_of (unat v)]"
proof -
  have "bu_length b + 1 \<le> int64_max" using assms(2) by simp
  from buffer_reserve_ok [OF this assms(1)] obtain c more where
      c: "buffer_reserve junk b (bu_length b + 1) = Inr c" "bu_length c = bu_length b"
        "bu_length b + 1 \<le> length (bu_data c)" "bu_data c = bu_data b @ more" by blast
  with assms show ?thesis
    by (auto simp: cwhip_buffer_append_def write_block_simps buffer_ok_def buffer_bytes_def)
qed

lemma index_in_bounds_iff:
  "index_in_bounds index len message =
     (if - int len \<le> index \<and> index < int len then Inr (nat (index mod int len)) else Inl (Raised message))"
proof (cases "- int len \<le> index \<and> index < int len")
  case True
  have "normalize_collection_index index len = index mod int len"
  proof (cases "index < 0")
    case neg: True
    have "(index + int len) mod int len = index + int len" using True neg by (intro mod_pos_pos_trivial) auto
    with neg show ?thesis by (simp add: normalize_collection_index_def)
  next
    case False
    with True show ?thesis by (simp add: normalize_collection_index_def)
  qed
  moreover have "0 \<le> index mod int len" "index mod int len < int len" using True by auto
  ultimately show ?thesis using True by (simp add: index_in_bounds_def Let_def raise_if_def le_nat_iff not_less not_le)
next
  case False
  then show ?thesis
    by (auto simp: index_in_bounds_def normalize_collection_index_def raise_if_def Let_def)
qed

lemma cwhip_buffer_get_bytes [buffer_rules]:
  assumes "buffer_ok b"
  shows "cwhip_buffer_get b index =
    (if - int (bu_length b) \<le> index \<and> index < int (bu_length b)
     then Inr (byte (buffer_bytes b ! nat (index mod int (bu_length b))))
     else Inl (Raised ''buffer index out of bounds''))"
proof (cases "- int (bu_length b) \<le> index \<and> index < int (bu_length b)")
  case True
  let ?i = "nat (index mod int (bu_length b))"
  have "?i < bu_length b" using True by (simp add: nat_less_iff)
  with assms have "?i + 1 \<le> length (bu_data b)" "?i < length (bu_data b)" by (simp_all add: buffer_ok_def)
  with True \<open>?i < bu_length b\<close> show ?thesis
    by (simp add: cwhip_buffer_get_def index_in_bounds_iff read_block_simps buffer_bytes_def hd_drop_conv_nth)
next
  case False
  then show ?thesis by (auto simp: cwhip_buffer_get_def index_in_bounds_iff)
qed

lemma cwhip_buffer_set_bytes [buffer_rules]:
  assumes "buffer_ok b" "- int (bu_length b) \<le> index" "index < int (bu_length b)"
  shows "\<exists>b'. cwhip_buffer_set b index v = Inr b' \<and> buffer_ok b' \<and>
    buffer_bytes b' = (buffer_bytes b)[nat (index mod int (bu_length b)) := char_of (unat v)]"
proof -
  let ?i = "nat (index mod int (bu_length b))"
  have i: "?i < bu_length b" using assms by (simp add: nat_less_iff)
  with assms(1) have "?i + 1 \<le> length (bu_data b)" by (simp add: buffer_ok_def)
  then have "write_block ?i [char_of (unat v)] (bu_data b) = Inr ((bu_data b)[?i := char_of (unat v)])"
    by (simp add: write_block_simps upd_conv_take_nth_drop)
  with assms i show ?thesis
    by (auto simp: cwhip_buffer_set_def index_in_bounds_iff buffer_ok_def buffer_bytes_def take_update_swap)
qed

end
