(* ===== verification/Runtime_Map.thy ===== *)
theory Runtime_Map
  imports Runtime_Values "HOL-Library.While_Combinator" "HOL-Library.AList"
begin

text \<open>
  The dictionaries of the runtime (\<open>src/RuntimeGc.c\<close>): an array of entries in the order of
  their insertion, and a table of buckets with open addressing that holds the number of the
  entry plus one. They implement an ordered association list.
\<close>

subsection \<open>State\<close>

text \<open>
  The entries in use, whose number is the field \<open>length\<close>, the number of allocated entries, and
  the buckets, whose number is the field \<open>bucket_capacity\<close>.
\<close>

record map_entry =
  en_key :: string
  en_hash :: "64 word"
  en_value :: array_value

record cwhip_map =
  ma_entries :: "map_entry list"
  ma_capacity :: nat
  ma_buckets :: "nat list"

definition new_map :: cwhip_map where
  "new_map = \<lparr>ma_entries = [], ma_capacity = 0, ma_buckets = []\<rparr>"

text \<open>\<open>sizeof(CwhipMapEntry)\<close>: a pointer, two numbers and a value of 32 bytes.\<close>

definition entry_size :: nat where
  "entry_size = 56"

subsection \<open>The index\<close>

definition map_key_hash :: "string \<Rightarrow> 64 word" where
  "map_key_hash key = foldl (\<lambda>hash c. (hash XOR of_nat (byte c)) * 1099511628211) 14695981039346656037 key"

definition bucket_mask :: "nat list \<Rightarrow> 64 word" where
  "bucket_mask buckets = of_nat (length buckets) - 1"

definition next_bucket :: "nat list \<Rightarrow> 64 word \<Rightarrow> 64 word" where
  "next_bucket buckets bucket = (bucket + 1) AND bucket_mask buckets"

fun find_probe :: "map_entry list \<Rightarrow> nat list \<Rightarrow> string \<Rightarrow> 64 word \<Rightarrow> nat \<Rightarrow> 64 word \<Rightarrow> nat option" where
  "find_probe entries buckets key hash 0 bucket = None"
| "find_probe entries buckets key hash (Suc probes) bucket =
     (let stored = buckets ! unat bucket in
      if stored = 0 then None
      else if en_hash (entries ! (stored - 1)) = hash \<and> en_key (entries ! (stored - 1)) = key then Some (stored - 1)
      else find_probe entries buckets key hash probes (next_bucket buckets bucket))"

definition map_find_index :: "cwhip_map \<Rightarrow> string \<Rightarrow> 64 word \<Rightarrow> nat option" where
  "map_find_index m key hash =
     (if ma_buckets m = [] then None
      else find_probe (ma_entries m) (ma_buckets m) key hash (length (ma_buckets m))
        (hash AND bucket_mask (ma_buckets m)))"

text \<open>The loop that looks for an empty bucket; \<open>None\<close> if it does not end.\<close>

definition free_bucket :: "nat list \<Rightarrow> 64 word \<Rightarrow> 64 word option" where
  "free_bucket buckets hash =
     while_option (\<lambda>bucket. buckets ! unat bucket \<noteq> 0) (next_bucket buckets) (hash AND bucket_mask buckets)"

fun place_entries :: "nat \<Rightarrow> map_entry list \<Rightarrow> nat list \<Rightarrow> nat list option" where
  "place_entries index [] buckets = Some buckets"
| "place_entries index (e # es) buckets =
     Option.bind (free_bucket buckets (en_hash e)) (\<lambda>bucket.
       place_entries (index + 1) es (buckets[unat bucket := index + 1]))"

definition map_rebuild_index :: "cwhip_map \<Rightarrow> nat \<Rightarrow> cwhip_map run" where
  "map_rebuild_index m capacity =
     then_run (abort_if (capacity < 8 \<or> capacity AND (capacity - 1) \<noteq> 0 \<or> capacity > uint64_max div 8))
       (case place_entries 0 (ma_entries m) (replicate capacity 0) of
          None \<Rightarrow> Inl Looping
        | Some buckets \<Rightarrow> Inr (m\<lparr>ma_buckets := buckets\<rparr>))"

subsection \<open>Operations\<close>

definition map_get :: "cwhip_map \<Rightarrow> string \<Rightarrow> array_value run" where
  "map_get m key =
     (case map_find_index m key (map_key_hash key) of
        Some index \<Rightarrow> Inr (en_value (ma_entries m ! index))
      | None \<Rightarrow> Inl (Raised ''dict key not found''))"

definition map_contains :: "cwhip_map \<Rightarrow> string \<Rightarrow> bool" where
  "map_contains m key \<longleftrightarrow> map_find_index m key (map_key_hash key) \<noteq> None"

definition map_entry_at :: "cwhip_map \<Rightarrow> nat \<Rightarrow> map_entry run" where
  "map_entry_at m index =
     then_run (raise_if (index \<ge> length (ma_entries m)) ''dict iteration index out of bounds'')
       (Inr (ma_entries m ! index))"

definition grow_entries :: "cwhip_map \<Rightarrow> cwhip_map run" where
  "grow_entries m =
     (if length (ma_entries m) = ma_capacity m then
        let capacity = (if ma_capacity m = 0 then 4 else ma_capacity m * 2 mod 2 ^ 64) in
        then_run (abort_if (capacity < ma_capacity m \<or> capacity > uint64_max div entry_size))
          (Inr (m\<lparr>ma_capacity := capacity\<rparr>))
      else Inr m)"

text \<open>The loop that doubles the number of buckets until it is twice the number of entries.\<close>

definition doubled :: "nat \<Rightarrow> nat \<Rightarrow> nat option" where
  "doubled needed capacity =
     while_option (\<lambda>c. needed > c div 2 \<and> c \<le> uint64_max div 2) (\<lambda>c. c * 2) capacity"

definition grow_buckets :: "cwhip_map \<Rightarrow> cwhip_map run" where
  "grow_buckets m =
     (let needed = length (ma_entries m) + 1; capacity = length (ma_buckets m) in
      if capacity = 0 \<or> needed > capacity div 2 then
        (case doubled needed (if capacity = 0 then 8 else capacity) of
           None \<Rightarrow> Inl Looping
         | Some capacity \<Rightarrow>
             then_run (abort_if (needed > capacity div 2)) (map_rebuild_index m capacity))
      else Inr m)"

definition add_entry :: "cwhip_map \<Rightarrow> map_entry \<Rightarrow> cwhip_map run" where
  "add_entry m e =
     (case free_bucket (ma_buckets m) (en_hash e) of
        None \<Rightarrow> Inl Looping
      | Some bucket \<Rightarrow>
          Inr (m\<lparr>ma_entries := ma_entries m @ [e],
                 ma_buckets := (ma_buckets m)[unat bucket := length (ma_entries m) + 1]\<rparr>))"

definition map_set :: "cwhip_map \<Rightarrow> string \<Rightarrow> array_value \<Rightarrow> cwhip_map run" where
  "map_set m key v =
     (let hash = map_key_hash key in
      case map_find_index m key hash of
        Some existing \<Rightarrow>
          Inr (m\<lparr>ma_entries := (ma_entries m)[existing := (ma_entries m ! existing)\<lparr>en_value := v\<rparr>]\<rparr>)
      | None \<Rightarrow>
          then_run (abort_if (length (ma_entries m) \<ge> int64_max))
          (bindE (grow_entries m) (\<lambda>m.
           bindE (grow_buckets m) (\<lambda>m.
             add_entry m \<lparr>en_key = key, en_hash = hash, en_value = v\<rparr>))))"

definition map_remove :: "cwhip_map \<Rightarrow> string \<Rightarrow> (bool \<times> cwhip_map) run" where
  "map_remove m key =
     (case map_find_index m key (map_key_hash key) of
        None \<Rightarrow> Inr (False, m)
      | Some index \<Rightarrow>
          let m = m\<lparr>ma_entries := take index (ma_entries m) @ drop (index + 1) (ma_entries m)\<rparr> in
          if ma_buckets m \<noteq> [] then
            bindE (map_rebuild_index m (length (ma_buckets m))) (\<lambda>m. Inr (True, m))
          else Inr (True, m))"

subsection \<open>The invariant\<close>

text \<open>The bucket of a hash after some steps; it is reached through buckets in use.\<close>

definition probe_at :: "nat list \<Rightarrow> 64 word \<Rightarrow> nat \<Rightarrow> nat" where
  "probe_at buckets hash d = (unat hash + d) mod length buckets"

definition reached :: "nat list \<Rightarrow> 64 word \<Rightarrow> nat \<Rightarrow> bool" where
  "reached buckets hash d \<longleftrightarrow> d < length buckets \<and> (\<forall>e < d. buckets ! probe_at buckets hash e \<noteq> 0)"

definition index_ok :: "64 word list \<Rightarrow> nat list \<Rightarrow> bool" where
  "index_ok hashes buckets \<longleftrightarrow>
     length (filter (\<lambda>b. b \<noteq> 0) buckets) = length hashes \<and> list_all (\<lambda>b. b \<le> length hashes) buckets \<and>
     (\<forall>i < length hashes. \<exists>d. reached buckets (hashes ! i) d \<and>
        buckets ! probe_at buckets (hashes ! i) d = i + 1)"

definition table_size :: "nat \<Rightarrow> bool" where
  "table_size n \<longleftrightarrow> (\<exists>k. 3 \<le> k \<and> k < 61 \<and> n = 2 ^ k)"

definition map_ok :: "cwhip_map \<Rightarrow> bool" where
  "map_ok m \<longleftrightarrow>
     distinct (map en_key (ma_entries m)) \<and> length (ma_entries m) \<le> ma_capacity m \<and>
     (\<forall>e \<in> set (ma_entries m). en_hash e = map_key_hash (en_key e)) \<and>
     (ma_buckets m = [] \<and> ma_entries m = [] \<or>
      table_size (length (ma_buckets m)) \<and> length (ma_entries m) \<le> length (ma_buckets m) div 2 \<and>
      index_ok (map en_hash (ma_entries m)) (ma_buckets m))"

text \<open>The dictionary as an association list in the order of the entries.\<close>

definition map_items :: "cwhip_map \<Rightarrow> (string \<times> array_value) list" where
  "map_items m = map (\<lambda>e. (en_key e, en_value e)) (ma_entries m)"


subsection \<open>Buckets\<close>

lemma bucket_mask_mod:
  assumes "table_size (length buckets)"
  shows "unat (w AND bucket_mask buckets) = unat w mod length buckets"
proof -
  from assms obtain k where "length buckets = 2 ^ k" by (auto simp: table_size_def)
  then show ?thesis by (simp add: bucket_mask_def unat_mask_mod)
qed

lemma table_size_bounds:
  assumes "table_size n"
  shows "8 \<le> n" "n < 2 ^ 61" "n dvd 2 ^ 64" "0 < n"
proof -
  from assms obtain k where k: "3 \<le> k" "k < 61" "n = 2 ^ k" by (auto simp: table_size_def)
  have "(2 :: nat) ^ k < 2 ^ 61" by (rule power_strict_increasing) (use k in simp_all)
  then show "n < 2 ^ 61" using k(3) by simp
  have "(2 :: nat) ^ k dvd 2 ^ 64" by (rule le_imp_power_dvd) (use k in simp)
  then show "n dvd 2 ^ 64" using k(3) by simp
  show "8 \<le> n" using power_increasing [OF k(1), of "2 :: nat"] k(3) by simp
  then show "0 < n" by simp
qed

lemma next_bucket_mod:
  assumes "table_size (length buckets)"
  shows "unat (next_bucket buckets b) = (unat b + 1) mod length buckets"
proof -
  have "unat (b + 1) = (unat b + 1) mod 2 ^ 64" by (simp add: unat_word_ariths)
  then show ?thesis
    using table_size_bounds(3) [OF assms]
    by (simp add: next_bucket_def bucket_mask_mod [OF assms] mod_mod_cancel)
qed

lemma probe_at_less: "table_size (length buckets) \<Longrightarrow> probe_at buckets hash d < length buckets"
  using table_size_bounds(4) [of "length buckets"] by (simp add: probe_at_def)

lemma probe_at_Suc:
  "table_size (length buckets) \<Longrightarrow> unat b = probe_at buckets hash d \<Longrightarrow>
     unat (next_bucket buckets b) = probe_at buckets hash (Suc d)"
  by (simp add: next_bucket_mod probe_at_def mod_Suc_eq)

lemma probe_at_surj:
  assumes "table_size (length buckets)" "j < length buckets"
  shows "\<exists>d < length buckets. probe_at buckets hash d = j"
proof -
  let ?n = "length buckets" and ?h = "unat hash mod length buckets"
  let ?d = "(j + (?n - ?h)) mod ?n"
  have "?h < ?n" using table_size_bounds(4) [OF assms(1)] by simp
  then have "(?h + ?d) mod ?n = j"
    using assms(2) by (simp add: mod_add_right_eq)
  then have "probe_at buckets hash ?d = j" by (simp add: probe_at_def mod_add_left_eq)
  moreover have "?d < ?n" using table_size_bounds(4) [OF assms(1)] by simp
  ultimately show ?thesis by blast
qed

lemma free_bucket_exists:
  assumes "table_size (length buckets)" "length (filter (\<lambda>b. b \<noteq> 0) buckets) < length buckets"
  shows "\<exists>b d. free_bucket buckets hash = Some b \<and> unat b = probe_at buckets hash d \<and>
     reached buckets hash d \<and> buckets ! unat b = 0"
proof -
  have "\<exists>j < length buckets. buckets ! j = 0"
  proof (rule ccontr)
    assume "\<not> ?thesis"
    then have "filter (\<lambda>b. b \<noteq> 0) buckets = buckets"
      by (auto simp: filter_id_conv in_set_conv_nth)
    with assms(2) show False by simp
  qed
  then obtain z where z: "z < length buckets" "buckets ! probe_at buckets hash z = 0"
    using probe_at_surj [OF assms(1)] by metis
  have search: "d \<le> z \<Longrightarrow> unat b = probe_at buckets hash d \<Longrightarrow> reached buckets hash d \<Longrightarrow>
      \<exists>c e. while_option (\<lambda>b. buckets ! unat b \<noteq> 0) (next_bucket buckets) b = Some c \<and>
        unat c = probe_at buckets hash e \<and> reached buckets hash e \<and> buckets ! unat c = 0" for b d
  proof (induction "z - d" arbitrary: b d)
    case 0
    then have "d = z" by simp
    with 0 z(2) show ?case by (subst while_option_unfold) auto
  next
    case (Suc n)
    show ?case
    proof (cases "buckets ! unat b = 0")
      case True
      with Suc.prems show ?thesis by (subst while_option_unfold) auto
    next
      case False
      have d: "n = z - Suc d" "Suc d \<le> z" using Suc.hyps(2) by simp_all
      have "reached buckets hash (Suc d)"
        using Suc.prems(2,3) False d(2) z(1) by (auto simp: reached_def less_Suc_eq)
      from Suc.hyps(1) [OF d probe_at_Suc [OF assms(1) Suc.prems(2)] this] False
      show ?thesis by (subst while_option_unfold) simp
    qed
  qed
  have "unat (hash AND bucket_mask buckets) = probe_at buckets hash 0" "reached buckets hash 0"
    using table_size_bounds(4) [OF assms(1)] by (simp_all add: bucket_mask_mod [OF assms(1)] probe_at_def reached_def)
  from search [OF _ this] show ?thesis by (simp add: free_bucket_def)
qed

subsection \<open>Searching\<close>

lemma find_probe_absent:
  "(\<And>e. e \<in> set entries \<Longrightarrow> en_key e \<noteq> key) \<Longrightarrow> list_all (\<lambda>b. b \<le> length entries) buckets \<Longrightarrow>
     table_size (length buckets) \<Longrightarrow> unat b < length buckets \<Longrightarrow>
     find_probe entries buckets key hash probes b = None"
proof (induction probes arbitrary: b)
  case (Suc probes)
  let ?stored = "buckets ! unat b"
  have "?stored \<le> length entries" using Suc.prems(2,4) by (simp add: list_all_length)
  then have "?stored \<noteq> 0 \<Longrightarrow> en_key (entries ! (?stored - 1)) \<noteq> key" using Suc.prems(1) by simp
  moreover have "unat (next_bucket buckets b) < length buckets"
    using table_size_bounds(4) [OF Suc.prems(3)] by (simp add: next_bucket_mod [OF Suc.prems(3)])
  ultimately show ?case using Suc by (simp add: Let_def)
qed simp

lemma find_probe_present:
  "distinct (map en_key entries) \<Longrightarrow> list_all (\<lambda>b. b \<le> length entries) buckets \<Longrightarrow>
     table_size (length buckets) \<Longrightarrow> i < length entries \<Longrightarrow> reached buckets (en_hash (entries ! i)) d \<Longrightarrow>
     buckets ! probe_at buckets (en_hash (entries ! i)) d = i + 1 \<Longrightarrow>
     unat b = probe_at buckets (en_hash (entries ! i)) e \<Longrightarrow> e \<le> d \<Longrightarrow> d < e + probes \<Longrightarrow>
     find_probe entries buckets (en_key (entries ! i)) (en_hash (entries ! i)) probes b = Some i"
proof (induction probes arbitrary: b e)
  case (Suc probes)
  let ?h = "en_hash (entries ! i)" and ?key = "en_key (entries ! i)"
  let ?stored = "buckets ! unat b"
  have used: "?stored \<noteq> 0"
    using Suc.prems(5-8) by (cases "e = d") (auto simp: reached_def)
  have "?stored \<le> length entries"
    using Suc.prems(2,7) probe_at_less [OF Suc.prems(3)] by (simp add: list_all_length)
  then have range: "?stored - 1 < length entries" using used by simp
  show ?case
  proof (cases "en_key (entries ! (?stored - 1)) = ?key")
    case True
    then have "?stored - 1 = i"
      using Suc.prems(1,4) range by (metis length_map nth_eq_iff_index_eq nth_map)
    with used show ?thesis by (simp add: Let_def)
  next
    case False
    with Suc.prems(6,7) have "e \<noteq> d" by auto
    with Suc.prems(8,9) have "Suc e \<le> d" "d < Suc e + probes" by simp_all
    from Suc.IH [OF Suc.prems(1-6) probe_at_Suc [OF Suc.prems(3,7)] this] False used
    show ?thesis by (simp add: Let_def)
  qed
qed simp

lemma map_find_index_spec:
  assumes "map_ok m"
  shows "map_find_index m key (map_key_hash key) = Some i \<longleftrightarrow>
    i < length (ma_entries m) \<and> en_key (ma_entries m ! i) = key"
proof (cases "ma_buckets m = []")
  case True
  with assms show ?thesis by (auto simp: map_find_index_def map_ok_def table_size_def)
next
  case False
  let ?entries = "ma_entries m" and ?buckets = "ma_buckets m"
  from assms False have ok: "distinct (map en_key ?entries)" "table_size (length ?buckets)"
      "index_ok (map en_hash ?entries) ?buckets"
    and hashes: "\<And>e. e \<in> set ?entries \<Longrightarrow> en_hash e = map_key_hash (en_key e)"
    by (auto simp: map_ok_def)
  then have stored: "list_all (\<lambda>b. b \<le> length ?entries) ?buckets" by (simp add: index_ok_def)
  have start: "unat (h AND bucket_mask ?buckets) = probe_at ?buckets h 0" for h
    by (simp add: bucket_mask_mod [OF ok(2)] probe_at_def)
  have present: "map_find_index m key (map_key_hash key) = Some j"
    if j: "j < length ?entries" "en_key (?entries ! j) = key" for j
  proof -
    have h: "en_hash (?entries ! j) = map_key_hash key" using hashes j by simp
    from ok(3) j(1) obtain d where d: "reached ?buckets (en_hash (?entries ! j)) d"
        "?buckets ! probe_at ?buckets (en_hash (?entries ! j)) d = j + 1"
      by (auto simp: index_ok_def)
    then have "d < 0 + length ?buckets" by (simp add: reached_def)
    from find_probe_present [OF ok(1) stored ok(2) j(1) d start _ this] False j(2) h
    show ?thesis by (simp add: map_find_index_def)
  qed
  show ?thesis
  proof (cases "\<exists>j < length ?entries. en_key (?entries ! j) = key")
    case True
    then obtain j where j: "j < length ?entries" "en_key (?entries ! j) = key" by blast
    have "i < length ?entries \<and> en_key (?entries ! i) = key \<longleftrightarrow> i = j"
      using ok(1) j by (metis length_map nth_eq_iff_index_eq nth_map)
    with present [OF j] show ?thesis by auto
  next
    case absent: False
    then have "en_key e \<noteq> key" if "e \<in> set ?entries" for e using that by (auto simp: in_set_conv_nth)
    from find_probe_absent [OF this stored ok(2), of "map_key_hash key AND bucket_mask ?buckets"]
    have "map_find_index m key (map_key_hash key) = None"
      using False probe_at_less [OF ok(2)] by (simp add: map_find_index_def start)
    with absent show ?thesis by auto
  qed
qed

subsection \<open>Placing entries\<close>

lemma length_filter_update:
  "j < length xs \<Longrightarrow> xs ! j = (0 :: nat) \<Longrightarrow> v \<noteq> 0 \<Longrightarrow>
     length (filter (\<lambda>b. b \<noteq> 0) (xs[j := v])) = length (filter (\<lambda>b. b \<noteq> 0) xs) + 1"
proof (induction xs arbitrary: j)
  case (Cons x xs)
  then show ?case by (cases j) auto
qed simp

lemma probe_at_update [simp]: "probe_at (buckets[j := v]) = probe_at buckets"
  by (intro ext) (simp add: probe_at_def)

lemma nth_update_nonzero: "v \<noteq> 0 \<Longrightarrow> xs ! i \<noteq> (0 :: nat) \<Longrightarrow> xs[j := v] ! i \<noteq> 0"
  by (cases "j < length xs"; cases "i = j") (auto simp: list_update_beyond)

lemma reached_update: "reached buckets hash d \<Longrightarrow> v \<noteq> 0 \<Longrightarrow> reached (buckets[j := v]) hash d"
  using nth_update_nonzero [of v buckets] by (simp add: reached_def)

lemma index_ok_add:
  assumes "index_ok hashes buckets" "table_size (length buckets)"
    and "reached buckets hash d" "unat b = probe_at buckets hash d" "buckets ! unat b = 0"
  shows "index_ok (hashes @ [hash]) (buckets[unat b := length hashes + 1])"
  unfolding index_ok_def
proof (intro conjI allI impI)
  let ?new = "buckets[unat b := length hashes + 1]"
  have b: "unat b < length buckets" using probe_at_less [OF assms(2)] assms(4) by simp
  then show "length (filter (\<lambda>b. b \<noteq> 0) ?new) = length (hashes @ [hash])"
    using assms(1,5) length_filter_update [OF b assms(5), of "length hashes + 1"]
    by (simp add: index_ok_def)
  show "list_all (\<lambda>b. b \<le> length (hashes @ [hash])) ?new"
    using assms(1) b by (simp add: index_ok_def list_all_length nth_list_update le_SucI)
  fix i
  assume "i < length (hashes @ [hash])"
  then consider "i < length hashes" | "i = length hashes" by fastforce
  then show "\<exists>d. reached ?new ((hashes @ [hash]) ! i) d \<and>
      ?new ! probe_at ?new ((hashes @ [hash]) ! i) d = i + 1"
  proof cases
    case 1
    with assms(1) obtain e where e: "reached buckets (hashes ! i) e"
        "buckets ! probe_at buckets (hashes ! i) e = i + 1" by (auto simp: index_ok_def)
    then have "probe_at buckets (hashes ! i) e \<noteq> unat b" using assms(5) by auto
    with e 1 show ?thesis by (intro exI [of _ e]) (simp add: reached_update nth_append)
  next
    case 2
    with assms(3,4) b show ?thesis
      by (intro exI [of _ d]) (simp add: reached_update nth_append)
  qed
qed

lemma place_entries_ok:
  "index_ok hashes buckets \<Longrightarrow> table_size (length buckets) \<Longrightarrow> length hashes + length es < length buckets \<Longrightarrow>
     \<exists>buckets'. place_entries (length hashes) es buckets = Some buckets' \<and>
       length buckets' = length buckets \<and> index_ok (hashes @ map en_hash es) buckets'"
proof (induction es arbitrary: hashes buckets)
  case (Cons e es)
  have "length (filter (\<lambda>b. b \<noteq> 0) buckets) < length buckets"
    using Cons.prems by (simp add: index_ok_def)
  from free_bucket_exists [OF Cons.prems(2) this] obtain b d where
      b: "free_bucket buckets (en_hash e) = Some b" "unat b = probe_at buckets (en_hash e) d"
        "reached buckets (en_hash e) d" "buckets ! unat b = 0" by blast
  let ?new = "buckets[unat b := length hashes + 1]"
  have "index_ok (hashes @ [en_hash e]) ?new"
    using index_ok_add [OF Cons.prems(1,2) b(3,2,4)] .
  from Cons.IH [OF this] Cons.prems(2,3) b(1) show ?case by simp
qed simp

lemma replicate_index_ok: "index_ok [] (replicate n 0)"
  by (simp add: index_ok_def list_all_length)

lemma power_of_two_mask: "(2 ^ k :: nat) AND (2 ^ k - 1) = 0"
proof -
  have "(2 ^ k :: nat) AND mask k = 0" by (simp flip: take_bit_eq_mask)
  then show ?thesis by (simp add: mask_eq_exp_minus_1)
qed

lemma map_rebuild_index_ok:
  assumes "table_size n" "length (ma_entries m) \<le> n div 2"
  shows "\<exists>buckets. map_rebuild_index m n = Inr (m\<lparr>ma_buckets := buckets\<rparr>) \<and> length buckets = n \<and>
    index_ok (map en_hash (ma_entries m)) buckets"
proof -
  from assms(1) obtain k where k: "3 \<le> k" "k < 61" "n = 2 ^ k" by (auto simp: table_size_def)
  note bounds = table_size_bounds [OF assms(1)]
  have "\<not> (n < 8 \<or> n AND (n - 1) \<noteq> 0 \<or> n > uint64_max div 8)"
    using bounds power_of_two_mask [of k] k(3) by (simp add: uint64_max_def)
  moreover have "length (ma_entries m) < n" using assms(2) bounds(4) by linarith
  from place_entries_ok [OF replicate_index_ok, of n "ma_entries m"] this assms(1)
  obtain buckets where "place_entries 0 (ma_entries m) (replicate n 0) = Some buckets"
      "length buckets = n" "index_ok (map en_hash (ma_entries m)) buckets" by auto
  ultimately show ?thesis by (intro exI [of _ buckets]) (simp add: map_rebuild_index_def)
qed

subsection \<open>Operations and association lists\<close>

lemma filter_other_nth:
  "distinct (map f xs) \<Longrightarrow> i < length xs \<Longrightarrow> filter (\<lambda>x. f x \<noteq> f (xs ! i)) xs = take i xs @ drop (i + 1) xs"
proof (induction xs arbitrary: i)
  case (Cons x xs)
  show ?case
  proof (cases i)
    case 0
    have "filter (\<lambda>y. f y \<noteq> f x) xs = xs" using Cons.prems(1) by (fastforce simp: filter_id_conv image_iff)
    with 0 show ?thesis by simp
  next
    case (Suc j)
    then have "f x \<noteq> f (xs ! j)" using Cons.prems by auto
    with Cons Suc show ?thesis by simp
  qed
qed simp

lemma update_nth:
  "distinct (map fst al) \<Longrightarrow> i < length al \<Longrightarrow> fst (al ! i) = k \<Longrightarrow> AList.update k v al = al[i := (k, v)]"
proof (induction al arbitrary: i)
  case (Cons p al)
  obtain a b where p: "p = (a, b)" by (cases p)
  show ?case
  proof (cases i)
    case (Suc j)
    then have "fst (al ! j) = k" "j < length al" using Cons.prems(2,3) by auto
    moreover from this have "a \<noteq> k" using Cons.prems(1) p by (metis distinct.simps(2) fst_conv in_set_conv_nth length_map list.simps(9) nth_map)
    ultimately show ?thesis using Cons p Suc by simp
  qed (use Cons.prems(3) p in auto)
qed simp

lemma update_fresh: "k \<notin> fst ` set al \<Longrightarrow> AList.update k v al = al @ [(k, v)]"
  by (induction al) auto

lemma map_items_keys: "map fst (map_items m) = map en_key (ma_entries m)"
  by (simp add: map_items_def)

lemma map_items_nth: "i < length (ma_entries m) \<Longrightarrow> map_items m ! i = (en_key (ma_entries m ! i), en_value (ma_entries m ! i))"
  by (simp add: map_items_def)

lemma map_find_index_None:
  assumes "map_ok m"
  shows "map_find_index m key (map_key_hash key) = None \<longleftrightarrow> key \<notin> en_key ` set (ma_entries m)"
proof -
  have "key \<in> en_key ` set (ma_entries m) \<longleftrightarrow> (\<exists>i < length (ma_entries m). en_key (ma_entries m ! i) = key)"
    by (auto simp: in_set_conv_nth image_iff intro!: bexI [OF refl nth_mem])
  also have "\<dots> \<longleftrightarrow> (\<exists>i. map_find_index m key (map_key_hash key) = Some i)"
    by (simp only: map_find_index_spec [OF assms])
  finally show ?thesis by auto
qed

lemma map_of_items:
  assumes "map_ok m"
  shows "map_of (map_items m) key =
    map_option (\<lambda>i. en_value (ma_entries m ! i)) (map_find_index m key (map_key_hash key))"
proof (cases "map_find_index m key (map_key_hash key)")
  case None
  then have "key \<notin> fst ` set (map_items m)"
    using map_find_index_None [OF assms] by (auto simp: map_items_def)
  with None show ?thesis by (simp add: map_of_eq_None_iff)
next
  case (Some i)
  then have i: "i < length (ma_entries m)" "en_key (ma_entries m ! i) = key"
    using map_find_index_spec [OF assms] by simp_all
  have "(key, en_value (ma_entries m ! i)) \<in> set (map_items m)"
    using i by (force simp: map_items_def)
  moreover have "distinct (map fst (map_items m))"
    using assms by (simp add: map_items_keys map_ok_def)
  ultimately show ?thesis using Some by simp
qed

lemma new_map_ok: "map_ok new_map" "map_items new_map = []"
  by (simp_all add: map_ok_def new_map_def map_items_def)

lemma map_get_items:
  "map_ok m \<Longrightarrow> map_get m key =
     (case map_of (map_items m) key of Some v \<Rightarrow> Inr v | None \<Rightarrow> Inl (Raised ''dict key not found''))"
  by (auto simp: map_get_def map_of_items split: option.splits)

lemma map_contains_items: "map_ok m \<Longrightarrow> map_contains m key \<longleftrightarrow> map_of (map_items m) key \<noteq> None"
  by (auto simp: map_contains_def map_of_items)

lemma map_remove_items:
  assumes "map_ok m"
  shows "\<exists>m'. map_remove m key = Inr (map_of (map_items m) key \<noteq> None, m') \<and> map_ok m' \<and>
    map_items m' = AList.delete key (map_items m)"
proof (cases "map_find_index m key (map_key_hash key)")
  case None
  then have "key \<notin> fst ` set (map_items m)"
    using map_find_index_None [OF assms] by (auto simp: map_items_def)
  with None assms show ?thesis by (simp add: map_remove_def map_of_items)
next
  case (Some i)
  let ?entries = "ma_entries m"
  define rest where "rest = take i ?entries @ drop (i + 1) ?entries"
  from Some have i: "i < length ?entries" "en_key (?entries ! i) = key"
    using map_find_index_spec [OF assms] by simp_all
  have "distinct (map en_key ?entries)" using assms by (simp add: map_ok_def)
  from filter_other_nth [OF this i(1)] i(2) have rest: "rest = filter (\<lambda>e. en_key e \<noteq> key) ?entries"
    by (simp add: rest_def)
  let ?m = "m\<lparr>ma_entries := rest\<rparr>"
  have fewer: "length rest \<le> length ?entries" by (simp add: rest)
  have size: "table_size (length (ma_buckets m))" "length ?entries \<le> length (ma_buckets m) div 2"
    using assms i(1) by (auto simp: map_ok_def)
  then have "length (ma_entries ?m) \<le> length (ma_buckets m) div 2" using fewer by simp
  from map_rebuild_index_ok [OF size(1) this] obtain buckets where
      b: "map_rebuild_index ?m (length (ma_buckets m)) = Inr (?m\<lparr>ma_buckets := buckets\<rparr>)"
        "length buckets = length (ma_buckets m)" "index_ok (map en_hash rest) buckets" by auto
  have "ma_buckets m \<noteq> []" using table_size_bounds(4) [OF size(1)] by auto
  with Some b(1) have run: "map_remove m key = Inr (True, ?m\<lparr>ma_buckets := buckets\<rparr>)"
    by (simp add: map_remove_def Let_def rest_def)
  have "distinct (map en_key rest)" "length rest \<le> ma_capacity m"
      "\<And>e. e \<in> set rest \<Longrightarrow> en_hash e = map_key_hash (en_key e)"
    using assms le_trans [OF fewer, of "ma_capacity m"] by (auto simp: map_ok_def rest distinct_map_filter)
  then have "map_ok (?m\<lparr>ma_buckets := buckets\<rparr>)"
    using b(2,3) size fewer by (simp add: map_ok_def)
  moreover have "map_items (?m\<lparr>ma_buckets := buckets\<rparr>) = AList.delete key (map_items m)"
    by (auto simp: map_items_def rest AList.delete_eq filter_map comp_def intro!: arg_cong [where f = "map _"] filter_cong)
  ultimately show ?thesis using run Some assms by (simp add: map_of_items)
qed

text \<open>There is room as long as the sizes of the arrays can be doubled.\<close>

definition map_room :: nat where
  "map_room = 2 ^ 57"

lemma grow_entries_ok:
  assumes "map_ok m" "grow_entries m = Inr m'"
  shows "map_ok m' \<and> ma_entries m' = ma_entries m \<and> length (ma_entries m') < ma_capacity m'"
proof (cases "length (ma_entries m) = ma_capacity m")
  case True
  let ?capacity = "if ma_capacity m = 0 then 4 else ma_capacity m * 2 mod 2 ^ 64"
  from assms(2) True have m': "m' = m\<lparr>ma_capacity := ?capacity\<rparr>" "\<not> ?capacity < ma_capacity m"
    by (auto simp: grow_entries_def Let_def bindE_Inr_iff)
  have "ma_capacity m < ?capacity"
  proof (cases "ma_capacity m = 0")
    case False
    have "ma_capacity m * 2 mod 2 ^ 64 \<noteq> ma_capacity m"
    proof
      assume same: "ma_capacity m * 2 mod 2 ^ 64 = ma_capacity m"
      then have "ma_capacity m < 2 ^ 64" by (metis mod_less_divisor zero_less_numeral zero_less_power)
      moreover obtain q where "ma_capacity m = 2 ^ 64 * q"
        using same mult_div_mod_eq [of "2 ^ 64" "ma_capacity m * 2"] by (metis add_right_cancel mult_2_right)
      ultimately show False using False by (cases q) auto
    qed
    with m'(2) False show ?thesis by simp
  qed simp
  with assms(1) m'(1) show ?thesis by (simp add: map_ok_def)
next
  case False
  with assms show ?thesis by (auto simp: grow_entries_def map_ok_def)
qed

lemma grow_entries_room:
  assumes "length (ma_entries m) < map_room"
  shows "\<exists>m'. grow_entries m = Inr m'"
proof (cases "length (ma_entries m) = ma_capacity m")
  case True
  with assms have "ma_capacity m < 2 ^ 57" by (simp add: map_room_def)
  with True show ?thesis by (simp add: grow_entries_def Let_def uint64_max_def entry_size_def)
qed (simp add: grow_entries_def)

lemma table_size_double: "table_size n \<Longrightarrow> 2 * n < 2 ^ 61 \<Longrightarrow> table_size (n * 2)"
proof -
  assume "table_size n" and n: "2 * n < 2 ^ 61"
  then obtain k where k: "3 \<le> k" "k < 61" "n = 2 ^ k" by (auto simp: table_size_def)
  with n have "(2 :: nat) ^ Suc k < 2 ^ 61" by simp
  then have "Suc k < 61" by (rule power_less_imp_less_exp [rotated]) simp
  with k show ?thesis by (auto simp: table_size_def intro!: exI [of _ "Suc k"])
qed

lemma doubled_once:
  assumes "needed \<le> c" "8 \<le> c"
  shows "doubled needed c =
    Some (if needed > c div 2 \<and> c \<le> uint64_max div 2 then c * 2 else c)"
  unfolding doubled_def using assms
  by (subst while_option_unfold, subst while_option_unfold) simp

lemma grow_buckets_ok:
  assumes "map_ok m" "grow_buckets m = Inr m'"
  shows "map_ok m' \<and> ma_entries m' = ma_entries m \<and> ma_capacity m' = ma_capacity m \<and>
    table_size (length (ma_buckets m')) \<and> length (ma_entries m') + 1 \<le> length (ma_buckets m') div 2"
proof -
  let ?n = "length (ma_entries m)" and ?c = "length (ma_buckets m)"
  let ?start = "if ?c = 0 then 8 else ?c"
  show ?thesis
  proof (cases "?c = 0 \<or> ?n + 1 > ?c div 2")
    case False
    with assms show ?thesis by (auto simp: grow_buckets_def Let_def map_ok_def)
  next
    case True
    have start: "table_size ?start" "?n \<le> ?start div 2"
      using assms(1) by (auto simp: map_ok_def table_size_def intro: exI [of _ 3])
    then have "?n + 1 \<le> ?start" "8 \<le> ?start" using table_size_bounds(1) [OF start(1)] by linarith+
    from assms(2) True doubled_once [OF this] obtain c where
        c: "c = (if ?n + 1 > ?start div 2 \<and> ?start \<le> uint64_max div 2 then ?start * 2 else ?start)"
           "?n + 1 \<le> c div 2" "map_rebuild_index m c = Inr m'"
      by (auto simp: grow_buckets_def Let_def bindE_Inr_iff)
    have "c \<le> uint64_max div 8" using c(3) by (auto simp: map_rebuild_index_def bindE_Inr_iff)
    then have "table_size c"
      using c(1) start(1) table_size_double [OF start(1)] by (simp add: uint64_max_def split: if_splits)
    from map_rebuild_index_ok [OF this, of m] c(2,3) obtain buckets where
        "m' = m\<lparr>ma_buckets := buckets\<rparr>" "length buckets = c" "index_ok (map en_hash (ma_entries m)) buckets"
      by auto
    with \<open>table_size c\<close> c(2) assms(1) show ?thesis by (simp add: map_ok_def)
  qed
qed

lemma grow_buckets_room:
  assumes "map_ok m" "length (ma_entries m) < map_room"
  shows "\<exists>m'. grow_buckets m = Inr m'"
proof -
  let ?n = "length (ma_entries m)" and ?c = "length (ma_buckets m)"
  let ?start = "if ?c = 0 then 8 else ?c"
  show ?thesis
  proof (cases "?c = 0 \<or> ?n + 1 > ?c div 2")
    case True
    have start: "table_size ?start" "?n \<le> ?start div 2"
      using assms(1) by (auto simp: map_ok_def table_size_def intro: exI [of _ 3])
    note bounds = table_size_bounds [OF start(1)]
    have "?n + 1 \<le> ?start" using start(2) bounds(1) by linarith
    note twice = doubled_once [OF this bounds(1)]
    show ?thesis
    proof (cases "?n + 1 > ?start div 2")
      case False
      with map_rebuild_index_ok [OF start] True twice show ?thesis
        by (auto simp: grow_buckets_def Let_def)
    next
      case full: True
      with assms(2) have small: "?start < 2 ^ 58 + 2" by (simp add: map_room_def)
      then have "table_size (?start * 2)" by (intro table_size_double [OF start(1)]) simp
      moreover have "?n \<le> ?start * 2 div 2" using start(2) by linarith
      ultimately obtain m' where "map_rebuild_index m (?start * 2) = Inr m'"
        using map_rebuild_index_ok by blast
      moreover have "doubled (?n + 1) ?start = Some (?start * 2)"
        using twice full small by (simp add: uint64_max_def)
      moreover have "?n + 1 \<le> ?start * 2 div 2" using start(2) bounds(1) by linarith
      ultimately show ?thesis using True by (auto simp: grow_buckets_def Let_def)
    qed
  qed (simp add: grow_buckets_def Let_def)
qed

lemma add_entry_ok:
  assumes "map_ok m" "table_size (length (ma_buckets m))" "length (ma_entries m) + 1 \<le> length (ma_buckets m) div 2"
    and "length (ma_entries m) < ma_capacity m" "en_key e \<notin> en_key ` set (ma_entries m)"
    and "en_hash e = map_key_hash (en_key e)"
  shows "\<exists>m'. add_entry m e = Inr m' \<and> map_ok m' \<and> ma_entries m' = ma_entries m @ [e]"
proof -
  have index: "index_ok (map en_hash (ma_entries m)) (ma_buckets m)"
    using assms(1-3) by (auto simp: map_ok_def table_size_def)
  then have "length (filter (\<lambda>b. b \<noteq> 0) (ma_buckets m)) < length (ma_buckets m)"
    using assms(3) by (simp add: index_ok_def)
  from free_bucket_exists [OF assms(2) this] obtain b d where
      b: "free_bucket (ma_buckets m) (en_hash e) = Some b" "unat b = probe_at (ma_buckets m) (en_hash e) d"
        "reached (ma_buckets m) (en_hash e) d" "ma_buckets m ! unat b = 0" by blast
  from index_ok_add [OF index assms(2) b(3,2,4)] assms b(1) show ?thesis
    by (auto simp: add_entry_def map_ok_def)
qed

lemma map_set_existing:
  assumes "map_ok m" "map_find_index m key (map_key_hash key) = Some i"
  shows "\<exists>m'. map_set m key v = Inr m' \<and> map_ok m' \<and> map_items m' = AList.update key v (map_items m)"
proof -
  let ?e = "ma_entries m ! i"
  let ?entries = "(ma_entries m)[i := ?e\<lparr>en_value := v\<rparr>]"
  have i: "i < length (ma_entries m)" "en_key ?e = key"
    using map_find_index_spec [OF assms(1)] assms(2) by simp_all
  have "map en_key ?entries = map en_key (ma_entries m)" "map en_hash ?entries = map en_hash (ma_entries m)"
    using i(1) by (auto simp: map_update intro!: nth_equalityI simp: nth_list_update)
  moreover have "en_hash e = map_key_hash (en_key e)" if "e \<in> set ?entries" for e
  proof -
    from that set_update_subset_insert have "e \<in> insert (?e\<lparr>en_value := v\<rparr>) (set (ma_entries m))" by fastforce
    with assms(1) i(1) show ?thesis by (auto simp: map_ok_def)
  qed
  ultimately have "map_ok (m\<lparr>ma_entries := ?entries\<rparr>)"
    using assms(1) unfolding map_ok_def by auto
  moreover have "map_items (m\<lparr>ma_entries := ?entries\<rparr>) = AList.update key v (map_items m)"
    using update_nth [of "map_items m" i key v] assms(1) i
    by (simp add: map_ok_def map_items_keys map_items_nth) (simp add: map_items_def map_update)
  ultimately show ?thesis using assms(2) by (simp add: map_set_def)
qed

lemma map_set_items:
  assumes "map_ok m"
  shows "map_set m key v = Inr m' \<Longrightarrow> map_ok m' \<and> map_items m' = AList.update key v (map_items m)"
    and "length (map_items m) < map_room \<Longrightarrow> \<exists>m'. map_set m key v = Inr m'"
proof -
  have fresh: "map_ok m' \<and> map_items m' = AList.update key v (map_items m)"
    if "map_set m key v = Inr m'" "map_find_index m key (map_key_hash key) = None" for m'
  proof -
    from that obtain n n' where n: "grow_entries m = Inr n" "grow_buckets n = Inr n'"
        "add_entry n' \<lparr>en_key = key, en_hash = map_key_hash key, en_value = v\<rparr> = Inr m'"
      by (auto simp: map_set_def bindE_Inr_iff)
    note ok = grow_entries_ok [OF assms n(1)]
    then have ok': "map_ok n' \<and> ma_entries n' = ma_entries m \<and> length (ma_entries n') < ma_capacity n' \<and>
        table_size (length (ma_buckets n')) \<and> length (ma_entries n') + 1 \<le> length (ma_buckets n') div 2"
      using grow_buckets_ok [OF _ n(2)] by auto
    have absent: "key \<notin> en_key ` set (ma_entries m)"
      using that(2) map_find_index_None [OF assms] by simp
    with add_entry_ok [of n' "\<lparr>en_key = key, en_hash = map_key_hash key, en_value = v\<rparr>"] ok' n(3)
    have "map_ok m' \<and> ma_entries m' = ma_entries m @ [\<lparr>en_key = key, en_hash = map_key_hash key, en_value = v\<rparr>]"
      by auto
    then show ?thesis using absent update_fresh [of key "map_items m" v]
      by (auto simp: map_items_def image_image)
  qed
  show "map_set m key v = Inr m' \<Longrightarrow> map_ok m' \<and> map_items m' = AList.update key v (map_items m)"
    using fresh map_set_existing [OF assms, of key _ v] by (cases "map_find_index m key (map_key_hash key)") auto
  assume "length (map_items m) < map_room"
  then have room: "length (ma_entries m) < map_room" by (simp add: map_items_def)
  show "\<exists>m'. map_set m key v = Inr m'"
  proof (cases "map_find_index m key (map_key_hash key)")
    case None
    obtain n where n: "grow_entries m = Inr n" using grow_entries_room [OF room] by blast
    note ok = grow_entries_ok [OF assms n]
    then obtain n' where n': "grow_buckets n = Inr n'" using grow_buckets_room [of n] room by auto
    have "key \<notin> en_key ` set (ma_entries n')"
      using None map_find_index_None [OF assms] grow_buckets_ok [OF _ n'] ok by simp
    with add_entry_ok [of n' "\<lparr>en_key = key, en_hash = map_key_hash key, en_value = v\<rparr>"] grow_buckets_ok [OF _ n'] ok
    obtain m' where "add_entry n' \<lparr>en_key = key, en_hash = map_key_hash key, en_value = v\<rparr> = Inr m'" by auto
    moreover have "\<not> length (ma_entries m) \<ge> int64_max" using room by (simp add: map_room_def int64_max_def)
    ultimately show ?thesis using None n n' by (simp add: map_set_def)
  qed (use map_set_existing [OF assms] in blast)
qed

subsection \<open>Sequences of operations\<close>

text \<open>
  What the users of a dictionary rely on: its items are an association list with distinct keys,
  and as long as there is room the operations return and change the items as \<open>AList\<close> does.
\<close>

datatype ('k, 'v) step = Set_key 'k 'v | Remove_key 'k

fun item_step :: "('k, 'v) step \<Rightarrow> ('k \<times> 'v) list \<Rightarrow> ('k \<times> 'v) list" where
  "item_step (Set_key k v) al = AList.update k v al"
| "item_step (Remove_key k) al = AList.delete k al"

fun run_steps ::
  "('m \<Rightarrow> 'k \<Rightarrow> 'v \<Rightarrow> 'm run) \<Rightarrow> ('m \<Rightarrow> 'k \<Rightarrow> (bool \<times> 'm) run) \<Rightarrow> ('k, 'v) step list \<Rightarrow> 'm \<Rightarrow> 'm run" where
  "run_steps put remove [] m = Inr m"
| "run_steps put remove (Set_key k v # steps) m = bindE (put m k v) (run_steps put remove steps)"
| "run_steps put remove (Remove_key k # steps) m =
     bindE (remove m k) (\<lambda>(_, m). run_steps put remove steps m)"

locale ordered_dict =
  fixes ok :: "'m \<Rightarrow> bool"
    and items :: "'m \<Rightarrow> ('k \<times> 'v) list"
    and put :: "'m \<Rightarrow> 'k \<Rightarrow> 'v \<Rightarrow> 'm run"
    and remove :: "'m \<Rightarrow> 'k \<Rightarrow> (bool \<times> 'm) run"
    and room :: nat
  assumes put_items: "ok m \<Longrightarrow> put m k v = Inr m' \<Longrightarrow> ok m' \<and> items m' = AList.update k v (items m)"
    and put_room: "ok m \<Longrightarrow> length (items m) < room \<Longrightarrow> \<exists>m'. put m k v = Inr m'"
    and remove_items: "ok m \<Longrightarrow>
      \<exists>m'. remove m k = Inr (map_of (items m) k \<noteq> None, m') \<and> ok m' \<and> items m' = AList.delete k (items m)"
begin

lemma steps_items:
  "ok m \<Longrightarrow> run_steps put remove steps m = Inr m' \<Longrightarrow> ok m' \<and> items m' = fold item_step steps (items m)"
proof (induction steps arbitrary: m)
  case (Cons step steps)
  show ?case
  proof (cases step)
    case (Set_key k v)
    then obtain n where n: "put m k v = Inr n" "run_steps put remove steps n = Inr m'"
      using Cons.prems(2) by (auto simp: bindE_Inr_iff)
    from put_items [OF Cons.prems(1) n(1)] Cons.IH [OF _ n(2)] Set_key show ?thesis by simp
  next
    case (Remove_key k)
    from remove_items [OF Cons.prems(1), of k] obtain n where
        n: "remove m k = Inr (map_of (items m) k \<noteq> None, n)" "ok n" "items n = AList.delete k (items m)" by blast
    then have "run_steps put remove steps n = Inr m'" using Cons.prems(2) Remove_key by simp
    from Cons.IH [OF n(2) this] n(3) Remove_key show ?thesis by simp
  qed
qed simp

lemma length_item_step: "length (item_step step al) \<le> Suc (length al)"
proof (cases step)
  case (Set_key k v)
  have "length (AList.update k v al) \<le> Suc (length al)" by (induction al) auto
  with Set_key show ?thesis by simp
next
  case (Remove_key k)
  then show ?thesis by (simp add: AList.delete_eq le_SucI)
qed

lemma steps_return:
  "ok m \<Longrightarrow> length (items m) + length steps \<le> room \<Longrightarrow> \<exists>m'. run_steps put remove steps m = Inr m'"
proof (induction steps arbitrary: m)
  case (Cons step steps)
  show ?case
  proof (cases step)
    case (Set_key k v)
    from put_room [OF Cons.prems(1), of k v] Cons.prems(2) obtain n where n: "put m k v = Inr n" by auto
    note new = put_items [OF Cons.prems(1) n]
    then have "length (items n) + length steps \<le> room"
      using length_item_step [of step "items m"] Set_key Cons.prems(2) by simp
    with Cons.IH new n Set_key show ?thesis by simp
  next
    case (Remove_key k)
    from remove_items [OF Cons.prems(1), of k] obtain n where
        n: "remove m k = Inr (map_of (items m) k \<noteq> None, n)" "ok n" "items n = AList.delete k (items m)" by blast
    then have "length (items n) + length steps \<le> room"
      using length_item_step [of step "items m"] Remove_key Cons.prems(2) by simp
    with Cons.IH n Remove_key show ?thesis by simp
  qed
qed simp

end

interpretation cwhip_dict: ordered_dict map_ok map_items map_set map_remove map_room
  using map_set_items map_remove_items by unfold_locales blast+

text \<open>
  C11: Every sequence of at most \<open>2^57\<close> operations on a new dictionary returns, its searches
  for buckets included. The items are those of an association list on which the
  same operations are done, and every later lookup finds what that list holds.
\<close>

theorem map_operations_refine:
  assumes "length steps \<le> map_room"
  shows "\<exists>m. run_steps map_set map_remove steps new_map = Inr m \<and> map_items m = fold item_step steps [] \<and>
    (\<forall>key. map_get m key = (case map_of (fold item_step steps []) key of
        Some v \<Rightarrow> Inr v | None \<Rightarrow> Inl (Raised ''dict key not found''))) \<and>
    (\<forall>key. map_contains m key = (map_of (fold item_step steps []) key \<noteq> None))"
proof -
  from cwhip_dict.steps_return [of new_map steps] assms obtain m where
      m: "run_steps map_set map_remove steps new_map = Inr m" by (auto simp: new_map_ok)
  from cwhip_dict.steps_items [OF new_map_ok(1) m] have "map_ok m" "map_items m = fold item_step steps []"
    by (simp_all add: new_map_ok)
  with m map_get_items map_contains_items show ?thesis by auto
qed

definition sample_steps :: "(string, array_value) step list" where
  "sample_steps = [Set_key ''a'' null_value, Set_key ''b'' null_value, Remove_key ''a'']"

theorem map_operations_refine_witness:
  "\<exists>m. run_steps map_set map_remove sample_steps new_map = Inr m \<and> map_items m = [(''b'', null_value)] \<and>
    map_contains m ''b'' \<and> \<not> map_contains m ''a''"
proof -
  have items: "fold item_step sample_steps [] = [(''b'', null_value)]" by (simp add: sample_steps_def)
  have "length sample_steps \<le> map_room" by (simp add: sample_steps_def map_room_def)
  from map_operations_refine [OF this] show ?thesis unfolding items by auto
qed

end
