(* ===== verification/Runtime_List.thy ===== *)
theory Runtime_List
  imports Runtime_Buffer Runtime_Map
begin

text \<open>
  The lists of the runtime (\<open>src/RuntimeGc.c\<close>) and the slices of lists and dictionaries. As for
  buffers, the block of memory is modelled with the values behind the length.
\<close>

subsection \<open>State\<close>

record cwhip_array =
  ar_length :: nat
  ar_values :: "array_value list"

definition array_ok :: "cwhip_array \<Rightarrow> bool" where
  "array_ok a \<longleftrightarrow> ar_length a \<le> length (ar_values a) \<and> length (ar_values a) \<le> uint64_max div 32"

definition list_items :: "cwhip_array \<Rightarrow> array_value list" where
  "list_items a = take (ar_length a) (ar_values a)"

text \<open>\<open>SIZE_MAX / sizeof(CwhipArrayValue)\<close>\<close>

definition array_limit :: nat where
  "array_limit = uint64_max div 32"

text \<open>The content of memory set to zero.\<close>

definition zero_value :: array_value where
  "zero_value = \<lparr>av_tag = 0, av_integer = 0, av_pointer = 0, av_length = 0\<rparr>"

subsection \<open>Operations\<close>

definition cwhip_gc_alloc_array :: "int \<Rightarrow> cwhip_array run" where
  "cwhip_gc_alloc_array len =
     then_run (abort_if (len < 0 \<or> nat len > array_limit))
       (Inr \<lparr>ar_length = nat len, ar_values = replicate (nat len) null_value\<rparr>)"

definition array_reserve :: "(nat \<Rightarrow> array_value) \<Rightarrow> cwhip_array \<Rightarrow> nat \<Rightarrow> cwhip_array run" where
  "array_reserve junk a needed =
     (if needed > length (ar_values a) then
        (case grown (min (int64_max div 2) (array_limit div 2)) needed
            (if ar_values a = [] then 1 else length (ar_values a)) of
           None \<Rightarrow> Inl Looping
         | Some enlarged \<Rightarrow>
             let capacity = (if enlarged > array_limit then needed else enlarged) in
             Inr (a\<lparr>ar_values := ar_values a @ map junk [length (ar_values a)..<capacity]\<rparr>))
      else Inr a)"

definition cwhip_array_resize :: "(nat \<Rightarrow> array_value) \<Rightarrow> cwhip_array \<Rightarrow> int \<Rightarrow> cwhip_array run" where
  "cwhip_array_resize junk a len =
     then_run (raise_if (len < 0) ''list length must not be negative'')
     (then_run (raise_if (nat len > array_limit) ''list length exceeds allocation limit'')
     (bindE (array_reserve junk a (nat len)) (\<lambda>a.
      bindE (if nat len < ar_length a
             then write_block (nat len) (replicate (ar_length a - nat len) zero_value) (ar_values a)
             else write_block (ar_length a) (replicate (nat len - ar_length a) null_value) (ar_values a)) (\<lambda>values.
        Inr (a\<lparr>ar_values := values, ar_length := nat len\<rparr>)))))"

definition cwhip_array_append :: "(nat \<Rightarrow> array_value) \<Rightarrow> cwhip_array \<Rightarrow> array_value \<Rightarrow> cwhip_array run" where
  "cwhip_array_append junk a v =
     then_run (raise_if (ar_length a \<ge> int64_max) ''list length exceeds int64 range'')
     (bindE (cwhip_array_resize junk a (int (ar_length a) + 1)) (\<lambda>a.
      bindE (write_block (ar_length a - 1) [v] (ar_values a)) (\<lambda>values. Inr (a\<lparr>ar_values := values\<rparr>))))"

definition cwhip_array_index :: "cwhip_array \<Rightarrow> int \<Rightarrow> array_value run" where
  "cwhip_array_index a index =
     bindE (index_in_bounds index (ar_length a) ''list index out of bounds'') (\<lambda>i.
     bindE (read_block i 1 (ar_values a)) (\<lambda>vs. Inr (hd vs)))"

text \<open>The number of elements of a slice and the loop that copies them.\<close>

definition slice_count :: "int \<Rightarrow> int \<Rightarrow> int \<Rightarrow> nat" where
  "slice_count first final step =
     (if step > 0 \<and> first < final then 1 + (nat (final - first) - 1) div nat step
      else if step < 0 \<and> first > final then 1 + (nat (first - final) - 1) div (nat (- (step + 1)) + 1)
      else 0)"

fun copy_values :: "array_value list \<Rightarrow> int \<Rightarrow> int \<Rightarrow> nat \<Rightarrow> array_value list run" where
  "copy_values values step index 0 = Inr []"
| "copy_values values step index (Suc n) =
     (if index < 0 then Inl Out_of_bounds
      else bindE (read_block (nat index) 1 values) (\<lambda>vs.
        bindE (copy_values values step (index + step) n) (\<lambda>rest. Inr (hd vs # rest))))"

definition cwhip_array_slice_ex ::
  "cwhip_array \<Rightarrow> int \<Rightarrow> int \<Rightarrow> int \<Rightarrow> bool \<Rightarrow> bool \<Rightarrow> cwhip_array run" where
  "cwhip_array_slice_ex source start stop step has_start has_end =
     then_run (raise_if (step = 0) ''list slice step cannot be zero'')
     (let first = normalize_slice_bound start (ar_length source) step True has_start;
          final = normalize_slice_bound stop (ar_length source) step False has_end;
          len = slice_count first final step in
      then_run (raise_if (len > int64_max) ''list slice length exceeds int64 range'')
      (bindE (cwhip_gc_alloc_array (int len)) (\<lambda>copy.
       bindE (copy_values (ar_values source) step first len) (\<lambda>values.
       bindE (write_block 0 values (ar_values copy)) (\<lambda>values. Inr (copy\<lparr>ar_values := values\<rparr>))))))"

definition cwhip_array_slice :: "cwhip_array \<Rightarrow> int \<Rightarrow> int \<Rightarrow> cwhip_array run" where
  "cwhip_array_slice source start stop = cwhip_array_slice_ex source start stop 1 True True"

text \<open>The slice of a dictionary: its entries are set in a new one.\<close>

fun copy_entries :: "map_entry list \<Rightarrow> cwhip_map \<Rightarrow> cwhip_map run" where
  "copy_entries [] m = Inr m"
| "copy_entries (e # es) m = bindE (map_set m (en_key e) (en_value e)) (copy_entries es)"

definition cwhip_map_slice_ex :: "cwhip_map \<Rightarrow> int \<Rightarrow> int \<Rightarrow> bool \<Rightarrow> bool \<Rightarrow> cwhip_map run" where
  "cwhip_map_slice_ex source start stop has_start has_end =
     (let len = length (ma_entries source);
          first = normalize_slice_bound start len 1 True has_start;
          final = normalize_slice_bound stop len 1 False has_end in
      bindE (read_block (nat first) (nat (final - first)) (ma_entries source)) (\<lambda>entries.
        copy_entries entries new_map))"

definition cwhip_map_slice :: "cwhip_map \<Rightarrow> int \<Rightarrow> int \<Rightarrow> cwhip_map run" where
  "cwhip_map_slice source start stop = cwhip_map_slice_ex source start stop True True"

subsection \<open>Lengths and elements\<close>

lemma limits: "array_limit \<le> int64_max" "array_limit = uint64_max div 32"
  by (simp_all add: array_limit_def uint64_max_def int64_max_def)

lemma array_reserve_ok:
  assumes "array_ok a" "needed \<le> array_limit"
  shows "\<exists>a' more. array_reserve junk a needed = Inr a' \<and> ar_values a' = ar_values a @ more \<and>
    ar_length a' = ar_length a \<and> needed \<le> length (ar_values a') \<and> array_ok a'"
proof (cases "needed > length (ar_values a)")
  case True
  let ?size = "if ar_values a = [] then 1 else length (ar_values a)"
  have "0 < ?size" by simp
  from grown_exists [OF this, of "min (int64_max div 2) (array_limit div 2)" needed] obtain c where
      c: "grown (min (int64_max div 2) (array_limit div 2)) needed ?size = Some c" "needed \<le> c" by blast
  with True assms show ?thesis
    by (auto simp: array_reserve_def Let_def array_ok_def limits(2))
qed (use assms in \<open>simp add: array_reserve_def\<close>)

lemma cwhip_array_resize_items:
  assumes "array_ok a" "0 \<le> len" "nat len \<le> array_limit"
  shows "\<exists>a'. cwhip_array_resize junk a len = Inr a' \<and> array_ok a' \<and>
    list_items a' = take (nat len) (list_items a) @ replicate (nat len - ar_length a) null_value"
proof -
  from array_reserve_ok [OF assms(1,3)] obtain b more where
      b: "array_reserve junk a (nat len) = Inr b" "ar_values b = ar_values a @ more" "ar_length b = ar_length a"
        "nat len \<le> length (ar_values b)" "array_ok b" by blast
  have start: "cwhip_array_resize junk a len =
      bindE (if nat len < ar_length b
             then write_block (nat len) (replicate (ar_length b - nat len) zero_value) (ar_values b)
             else write_block (ar_length b) (replicate (nat len - ar_length b) null_value) (ar_values b)) (\<lambda>values.
        Inr (b\<lparr>ar_values := values, ar_length := nat len\<rparr>))"
    using assms(2,3) b(1) by (simp add: cwhip_array_resize_def raise_if_def)
  show ?thesis
  proof (cases "nat len < ar_length b")
    case True
    with b(5) have "write_block (nat len) (replicate (ar_length b - nat len) zero_value) (ar_values b) =
        Inr (take (nat len) (ar_values b) @ replicate (ar_length b - nat len) zero_value @ drop (ar_length b) (ar_values b))"
      by (subst write_block_simps) (simp_all add: array_ok_def)
    with True b start assms(1) show ?thesis by (auto simp: array_ok_def list_items_def min_def)
  next
    case False
    with b(4) have "write_block (ar_length b) (replicate (nat len - ar_length b) null_value) (ar_values b) =
        Inr (take (ar_length b) (ar_values b) @ replicate (nat len - ar_length b) null_value @ drop (nat len) (ar_values b))"
      by (subst write_block_simps) (simp_all)
    moreover have "length (take (ar_length b) (ar_values b) @ replicate (nat len - ar_length b) null_value @ drop (nat len) (ar_values b)) =
        length (ar_values b)"
      using False b(4) by simp
    moreover have "take (nat len) (take (ar_length b) (ar_values b) @ replicate (nat len - ar_length b) null_value @ drop (nat len) (ar_values b)) =
        take (nat len) (list_items a) @ replicate (nat len - ar_length a) null_value"
      using False b(2-4) assms(1) by (simp add: array_ok_def list_items_def)
    ultimately show ?thesis using False b(4,5) start by (simp add: array_ok_def list_items_def)
  qed
qed

lemma cwhip_array_append_items:
  assumes "array_ok a" "ar_length a < array_limit"
  shows "\<exists>a'. cwhip_array_append junk a v = Inr a' \<and> array_ok a' \<and> list_items a' = list_items a @ [v]"
proof -
  have "0 \<le> int (ar_length a) + 1" "nat (int (ar_length a) + 1) \<le> array_limit" using assms(2) by simp_all
  from cwhip_array_resize_items [OF assms(1) this, of junk] obtain b where
      b: "cwhip_array_resize junk a (int (ar_length a) + 1) = Inr b" "array_ok b"
        "list_items b = take (nat (int (ar_length a) + 1)) (list_items a) @ [null_value]"
    by (auto simp: nat_add_distrib)
  from b(1) have len: "ar_length b = ar_length a + 1"
    by (auto simp: cwhip_array_resize_def bindE_Inr_iff nat_add_distrib)
  have items: "list_items b = list_items a @ [null_value]"
    using b(3) assms(1) by (simp add: nat_add_distrib list_items_def)
  have "write_block (ar_length b - 1) [v] (ar_values b) = Inr ((ar_values b)[ar_length a := v])"
    using b(2) len by (simp add: write_block_simps array_ok_def upd_conv_take_nth_drop)
  moreover have "length (list_items a) = ar_length a" using assms(1) by (simp add: list_items_def array_ok_def)
  then have "(list_items a @ [null_value])[ar_length a := v] = list_items a @ [v]"
    using list_update_length [of "list_items a" null_value "[]" v] by simp
  then have "take (ar_length a + 1) ((ar_values b)[ar_length a := v]) = list_items a @ [v]"
    using items len take_update_swap [of "ar_length a + 1" "ar_values b" "ar_length a" v]
    by (simp add: list_items_def)
  ultimately show ?thesis
    using b(1,2) len assms limits(1) by (simp add: cwhip_array_append_def raise_if_def array_ok_def list_items_def)
qed

lemma cwhip_array_index_items:
  assumes "array_ok a"
  shows "cwhip_array_index a index =
    (if - int (ar_length a) \<le> index \<and> index < int (ar_length a)
     then Inr (list_items a ! nat (index mod int (ar_length a)))
     else Inl (Raised ''list index out of bounds''))"
proof (cases "- int (ar_length a) \<le> index \<and> index < int (ar_length a)")
  case True
  let ?i = "nat (index mod int (ar_length a))"
  have "?i < ar_length a" using True by (simp add: nat_less_iff)
  with assms have "?i + 1 \<le> length (ar_values a)" "?i < length (ar_values a)" by (simp_all add: array_ok_def)
  with True \<open>?i < ar_length a\<close> show ?thesis
    by (simp add: cwhip_array_index_def index_in_bounds_iff read_block_simps list_items_def hd_drop_conv_nth)
next
  case False
  then show ?thesis by (auto simp: cwhip_array_index_def index_in_bounds_iff)
qed

subsection \<open>Slices\<close>

lemma copy_values_map:
  "(\<And>j. j < n \<Longrightarrow> 0 \<le> index + int j * step \<and> nat (index + int j * step) < length values) \<Longrightarrow>
     copy_values values step index n = Inr (map (\<lambda>j. values ! nat (index + int j * step)) [0..<n])"
proof (induction n arbitrary: index)
  case (Suc n)
  have here: "0 \<le> index" "nat index < length values" using Suc.prems [of 0] by simp_all
  have "0 \<le> index + step + int j * step \<and> nat (index + step + int j * step) < length values" if "j < n" for j
    using Suc.prems [of "Suc j"] that by (simp add: algebra_simps)
  from Suc.IH [of "index + step", OF this]
  have "copy_values values step (index + step) n =
      Inr (map (\<lambda>j. values ! nat (index + int (Suc j) * step)) [0..<n])"
    by (simp add: algebra_simps)
  with here have "copy_values values step index (Suc n) =
      Inr (values ! nat index # map (\<lambda>j. values ! nat (index + int (Suc j) * step)) [0..<n])"
    by (simp add: read_block_def hd_drop_conv_nth)
  moreover have "map (\<lambda>j. values ! nat (index + int j * step)) [0..<Suc n] =
      values ! nat index # map (\<lambda>j. values ! nat (index + int (Suc j) * step)) [0..<n]"
    by (subst upt_conv_Cons) (simp_all del: upt_Suc flip: map_Suc_upt)
  ultimately show ?case by simp
qed simp

text \<open>The positions of a slice, in the order of the slice.\<close>

definition slice_positions :: "int \<Rightarrow> int \<Rightarrow> int \<Rightarrow> nat \<Rightarrow> nat list" where
  "slice_positions first final step n =
     (if 0 < step then filter (\<lambda>i. first \<le> int i \<and> int i < final \<and> step dvd (int i - first)) [0..<n]
      else rev (filter (\<lambda>i. final < int i \<and> int i \<le> first \<and> step dvd (int i - first)) [0..<n]))"

lemma slice_count_forward:
  assumes "0 < step"
  shows "j < slice_count first final step \<longleftrightarrow> int j * step < final - first"
proof (cases "first < final")
  case True
  obtain s where s: "step = int s" "0 < s" using assms by (metis int_eq_iff pos_int_cases zero_less_imp_eq_int)
  obtain d where d: "final - first = int d" "0 < d" using True by (metis diff_gt_0_iff_gt zero_less_imp_eq_int)
  have "j < 1 + (d - 1) div s \<longleftrightarrow> j * s \<le> d - 1"
    using s(2) by (simp add: less_Suc_eq_le less_eq_div_iff_mult_less_eq)
  also have "\<dots> \<longleftrightarrow> j * s < d" using d(2) by linarith
  also have "\<dots> \<longleftrightarrow> int j * step < final - first" unfolding s(1) d(1) by (simp flip: of_nat_mult)
  finally show ?thesis using True assms s d by (simp add: slice_count_def)
next
  case False
  then have "\<not> int j * step < final - first" using assms by (smt (verit) mult_nonneg_nonneg of_nat_0_le_iff)
  with False assms show ?thesis by (simp add: slice_count_def)
qed

lemma slice_count_backward:
  assumes "step < 0"
  shows "j < slice_count first final step \<longleftrightarrow> int j * (- step) < first - final"
proof -
  have "slice_count first final step = slice_count final first (- step)"
    using assms by (simp add: slice_count_def nat_add_distrib [symmetric] nat_diff_distrib)
  with slice_count_forward [of "- step" j final first] assms show ?thesis by simp
qed

lemma slice_positions_map:
  assumes "step \<noteq> 0" "0 < step \<longrightarrow> 0 \<le> first \<and> final \<le> int n" "step < 0 \<longrightarrow> first < int n \<and> -1 \<le> final"
  shows "map (\<lambda>j. nat (first + int j * step)) [0..<slice_count first final step] = slice_positions first final step n \<and>
    (\<forall>j < slice_count first final step. 0 \<le> first + int j * step \<and> first + int j * step < int n)"
proof -
  let ?c = "slice_count first final step" and ?p = "\<lambda>j. nat (first + int j * step)"
  show ?thesis
  proof (cases "0 < step")
    case True
    let ?xs = "filter (\<lambda>i. first \<le> int i \<and> int i < final \<and> step dvd (int i - first)) [0..<n]"
    have bounds: "0 \<le> first + int j * step \<and> first + int j * step < final" if "j < ?c" for j
      using that slice_count_forward [OF True, of j first final] True assms(2) by (auto intro: add_nonneg_nonneg)
    have "sorted_wrt (<) (map ?p [0..<?c])"
      unfolding sorted_wrt_map
    proof (rule sorted_wrt_mono_rel [OF _ sorted_wrt_upt])
      fix i j assume "i \<in> set [0..<?c]" "j \<in> set [0..<?c]" "i < j"
      then show "?p i < ?p j" using bounds [of i] True by (subst nat_less_eq_zless) auto
    qed
    moreover have "sorted_wrt (<) ?xs" by (rule sorted_wrt_filter) (rule sorted_wrt_upt)
    moreover have "set (map ?p [0..<?c]) = set ?xs"
    proof (intro set_eqI iffI)
      fix i assume "i \<in> set (map ?p [0..<?c])"
      then obtain j where j: "j < ?c" "i = ?p j" by auto
      with bounds [of j] True assms(2) show "i \<in> set ?xs" by (auto simp: nat_less_iff)
    next
      fix i assume "i \<in> set ?xs"
      then obtain k where k: "first \<le> int i" "int i < final" "int i - first = step * k" by auto
      have "0 \<le> step * k" using k(1) by (simp flip: k(3))
      then have "0 \<le> k" using True by (simp add: zero_le_mult_iff)
      then have "int (nat k) * step < final - first" "?p (nat k) = i" using k by (simp_all add: mult.commute)
      moreover from this(1) have "nat k < ?c" by (simp only: slice_count_forward [OF True])
      ultimately show "i \<in> set (map ?p [0..<?c])" by (auto intro: rev_image_eqI [of "nat k"])
    qed
    ultimately have "map ?p [0..<?c] = ?xs" by (intro strict_sorted_equal [where 'a = nat]) (simp_all only:)
    then show ?thesis using True bounds assms(2) by (force simp: slice_positions_def)
  next
    case False
    with assms(1) have neg: "step < 0" by simp
    let ?xs = "filter (\<lambda>i. final < int i \<and> int i \<le> first \<and> step dvd (int i - first)) [0..<n]"
    have bounds: "0 \<le> first + int j * step \<and> final < first + int j * step \<and> first + int j * step \<le> first" if "j < ?c" for j
      using that slice_count_backward [OF neg, of j first final] neg assms(3) by (auto simp: mult_nonneg_nonpos)
    have "sorted_wrt (<) (rev (map ?p [0..<?c]))"
      unfolding sorted_wrt_rev sorted_wrt_map
    proof (rule sorted_wrt_mono_rel [OF _ sorted_wrt_upt])
      fix i j assume "i \<in> set [0..<?c]" "j \<in> set [0..<?c]" "i < j"
      then show "?p j < ?p i" using bounds [of j] neg by (subst nat_less_eq_zless) auto
    qed
    moreover have "sorted_wrt (<) ?xs" by (rule sorted_wrt_filter) (rule sorted_wrt_upt)
    moreover have "set (rev (map ?p [0..<?c])) = set ?xs"
    proof (intro set_eqI iffI)
      fix i assume "i \<in> set (rev (map ?p [0..<?c]))"
      then obtain j where j: "j < ?c" "i = ?p j" by auto
      with bounds [of j] neg assms(3) show "i \<in> set ?xs" by (auto simp: nat_less_iff)
    next
      fix i assume "i \<in> set ?xs"
      then obtain k where k: "final < int i" "int i \<le> first" "int i - first = step * k" by auto
      have "step * k \<le> 0" using k(2) by (simp flip: k(3))
      then have "0 \<le> k" using neg by (simp add: mult_le_0_iff)
      then have "int (nat k) * (- step) < first - final" "?p (nat k) = i" using k by (simp_all add: mult.commute)
      moreover from this(1) have "nat k < ?c" by (simp only: slice_count_backward [OF neg])
      ultimately show "i \<in> set (rev (map ?p [0..<?c]))" by (auto intro: rev_image_eqI [of "nat k"])
    qed
    ultimately have "rev (map ?p [0..<?c]) = ?xs" by (intro strict_sorted_equal [where 'a = nat]) (simp_all only:)
    then have "map ?p [0..<?c] = rev ?xs" by (metis rev_rev_ident)
    then show ?thesis using False bounds assms(3) neg by (force simp: slice_positions_def)
  qed
qed

text \<open>
  A slice of a list is the list of the elements between the two bounds whose distance from
  the first bound is a multiple of the step, from the last to the first if the step is
  negative. Bounds count from the end if they are negative and are moved into the list. The
  only error is a step of zero, and no element outside of the list is read.
\<close>

theorem cwhip_array_slice_elements:
  assumes "array_ok a"
  shows "if step = 0 then cwhip_array_slice_ex a start stop step has_start has_end = Inl (Raised ''list slice step cannot be zero'')
    else \<exists>copy. cwhip_array_slice_ex a start stop step has_start has_end = Inr copy \<and> array_ok copy \<and>
      list_items copy = map ((!) (list_items a))
        (slice_positions (normalize_slice_bound start (ar_length a) step True has_start)
          (normalize_slice_bound stop (ar_length a) step False has_end) step (ar_length a))"
proof (cases "step = 0")
  case False
  let ?first = "normalize_slice_bound start (ar_length a) step True has_start"
  let ?final = "normalize_slice_bound stop (ar_length a) step False has_end"
  let ?n = "slice_count ?first ?final step" and ?ps = "slice_positions ?first ?final step (ar_length a)"
  have "0 < step \<longrightarrow> 0 \<le> ?first \<and> ?final \<le> int (ar_length a)"
    using normalize_forward [of step] by blast
  moreover have "step < 0 \<longrightarrow> ?first < int (ar_length a) \<and> -1 \<le> ?final"
    using normalize_backward [of step] by auto
  ultimately have ps: "map (\<lambda>j. nat (?first + int j * step)) [0..<?n] = ?ps"
      "\<And>j. j < ?n \<Longrightarrow> 0 \<le> ?first + int j * step \<and> ?first + int j * step < int (ar_length a)"
    using slice_positions_map [OF False] by blast+
  have count: "?n = length ?ps" by (simp flip: ps(1))
  have "length ?ps \<le> ar_length a"
    by (auto simp: slice_positions_def intro: le_trans [OF length_filter_le])
  then have len: "?n \<le> array_limit" "?n \<le> int64_max" "?n \<le> uint64_max div 32"
    using assms limits count by (auto simp: array_ok_def)
  have "copy_values (ar_values a) step ?first ?n = Inr (map (\<lambda>j. ar_values a ! nat (?first + int j * step)) [0..<?n])"
  proof (rule copy_values_map)
    fix j assume "j < ?n"
    with ps(2) [of j] assms show "0 \<le> ?first + int j * step \<and> nat (?first + int j * step) < length (ar_values a)"
      by (simp add: array_ok_def nat_less_iff)
  qed
  moreover have "map (\<lambda>j. ar_values a ! nat (?first + int j * step)) [0..<?n] = map ((!) (list_items a)) ?ps"
    unfolding ps(1) [symmetric] using ps(2) by (auto simp: list_items_def nat_less_iff)
  ultimately have copied: "copy_values (ar_values a) step ?first ?n = Inr (map ((!) (list_items a)) ?ps)" by simp
  then have "cwhip_array_slice_ex a start stop step has_start has_end =
      Inr \<lparr>ar_length = ?n, ar_values = map ((!) (list_items a)) ?ps\<rparr>"
    using False len count
    by (simp add: cwhip_array_slice_ex_def Let_def raise_if_def abort_if_def cwhip_gc_alloc_array_def write_block_def)
  with len count False show ?thesis by (simp add: array_ok_def list_items_def)
qed (simp add: cwhip_array_slice_ex_def)

definition sample_array :: cwhip_array where
  "sample_array = \<lparr>ar_length = 3, ar_values = map (\<lambda>n. null_value\<lparr>av_integer := of_nat n\<rparr>) [10, 20, 30, 40]\<rparr>"

theorem cwhip_array_slice_elements_witness:
  "\<exists>copy. cwhip_array_slice_ex sample_array 0 0 (-2) False False = Inr copy \<and> map av_integer (list_items copy) = [30, 10]"
proof -
  have "array_ok sample_array" by (simp add: array_ok_def sample_array_def uint64_max_def)
  from cwhip_array_slice_elements [OF this, of "-2" 0 0 False False]
  show ?thesis
    by (auto simp: sample_array_def list_items_def normalize_slice_bound_def slice_positions_def upt_rec)
qed

lemma copy_entries_items:
  "map_ok m \<Longrightarrow> length (map_items m) + length es \<le> map_room \<Longrightarrow>
     distinct (map fst (map_items m) @ map en_key es) \<Longrightarrow>
     \<exists>m'. copy_entries es m = Inr m' \<and> map_ok m' \<and> map_items m' = map_items m @ map (\<lambda>e. (en_key e, en_value e)) es"
proof (induction es arbitrary: m)
  case (Cons e es)
  then obtain n where n: "map_set m (en_key e) (en_value e) = Inr n"
    using cwhip_dict.put_room [of m] by fastforce
  note new = cwhip_dict.put_items [OF Cons.prems(1) n]
  have "en_key e \<notin> fst ` set (map_items m)" using Cons.prems(3) by auto
  with new have items: "map_items n = map_items m @ [(en_key e, en_value e)]" by (simp add: update_fresh)
  have "map_ok n" using new by simp
  moreover have "length (map_items n) + length es \<le> map_room" using Cons.prems(2) by (simp add: items)
  moreover have "distinct (map fst (map_items n) @ map en_key es)" using Cons.prems(3) by (auto simp: items)
  ultimately obtain m' where "copy_entries es n = Inr m'" "map_ok m'"
      "map_items m' = map_items n @ map (\<lambda>e. (en_key e, en_value e)) es"
    using Cons.IH by blast
  with n items show ?case by simp
qed simp

lemma cwhip_map_slice_items:
  assumes "map_ok m" "length (map_items m) \<le> map_room"
  shows "\<exists>copy. cwhip_map_slice_ex m start stop has_start has_end = Inr copy \<and> map_ok copy \<and>
    map_items copy = slice (nat (normalize_slice_bound start (length (map_items m)) 1 True has_start))
      (nat (normalize_slice_bound stop (length (map_items m)) 1 False has_end)) (map_items m)"
proof -
  let ?len = "length (ma_entries m)"
  let ?first = "normalize_slice_bound start ?len 1 True has_start"
  let ?final = "normalize_slice_bound stop ?len 1 False has_end"
  let ?es = "take (nat (?final - ?first)) (drop (nat ?first) (ma_entries m))"
  have bounds: "0 \<le> ?first" "?first \<le> int ?len" "0 \<le> ?final" "?final \<le> int ?len"
    using normalize_forward [of 1] by simp_all
  then have "nat ?first + nat (?final - ?first) \<le> ?len" by linarith
  then have read: "read_block (nat ?first) (nat (?final - ?first)) (ma_entries m) = Inr ?es"
    by (simp add: read_block_simps)
  have "distinct (map en_key ?es)" using assms(1)
    by (simp add: map_ok_def flip: take_map drop_map)
  moreover have "length ?es \<le> map_room" using assms(2) by (simp add: map_items_def)
  ultimately obtain copy where "copy_entries ?es new_map = Inr copy" "map_ok copy"
      "map_items copy = map (\<lambda>e. (en_key e, en_value e)) ?es"
    using copy_entries_items [of new_map ?es] by (auto simp: new_map_ok)
  with read bounds show ?thesis
    by (simp add: cwhip_map_slice_ex_def Let_def slice_def map_items_def take_map drop_map nat_diff_distrib')
qed

end
