(* ===== verification/Runtime_Text.thy ===== *)
theory Runtime_Text
  imports Runtime_Buffer Utf8
begin

text \<open>
  The UTF-8 check of the runtime (\<open>src/RuntimeGc.c\<close>), the boundaries between characters, and
  where a text may be cut: what the operations on strings rely on.
\<close>

subsection \<open>The check\<close>

definition utf8_count :: "nat \<Rightarrow> nat option" where
  "utf8_count a =
     (if 0xc2 \<le> a \<and> a \<le> 0xdf then Some 1
      else if 0xe0 \<le> a \<and> a \<le> 0xef then Some 2
      else if 0xf0 \<le> a \<and> a \<le> 0xf4 then Some 3
      else None)"

definition utf8_continuation :: "nat \<Rightarrow> nat \<Rightarrow> nat \<Rightarrow> bool" where
  "utf8_continuation a j b \<longleftrightarrow>
     \<not> (b < 0x80 \<or> b > 0xbf) \<and>
     \<not> (j = 0 \<and> ((a = 0xe0 \<and> b < 0xa0) \<or> (a = 0xed \<and> b > 0x9f) \<or>
                 (a = 0xf0 \<and> b < 0x90) \<or> (a = 0xf4 \<and> b > 0x8f)))"

function valid_utf8_from :: "string \<Rightarrow> nat \<Rightarrow> bool" where
  "valid_utf8_from bytes i =
     (if i < length bytes then
        let a = byte (bytes ! i); i = i + 1 in
        if a \<le> 0x7f then valid_utf8_from bytes i
        else
          (case utf8_count a of
             None \<Rightarrow> False
           | Some count \<Rightarrow>
               if count > length bytes - i then False
               else if \<not> list_all (\<lambda>j. utf8_continuation a j (byte (bytes ! (i + j)))) [0..<count] then False
               else valid_utf8_from bytes (i + count))
      else True)"
  by pat_completeness auto
termination by (relation "measure (\<lambda>(bytes, i). length bytes - i)") auto

declare valid_utf8_from.simps [simp del]

definition valid_utf8 :: "string \<Rightarrow> bool" where
  "valid_utf8 bytes = valid_utf8_from bytes 0"

definition utf8_boundary :: "string \<Rightarrow> nat \<Rightarrow> nat \<Rightarrow> bool" where
  "utf8_boundary bytes len index \<longleftrightarrow>
     index = len \<or> (index < len \<and> byte (bytes ! index) AND 0xc0 \<noteq> 0x80)"

subsection \<open>The check of the runtime and of the compiler\<close>

lemma utf8_count_lead: "utf8_count a = map_option (\<lambda>(len, lo, hi). len - 1) (utf8_lead a)"
  by (auto simp: utf8_count_def utf8_lead_def)

lemma continuations_lead:
  assumes "utf8_lead a = Some (len, lo, hi)" "\<not> a \<le> 0x7f" "i + len \<le> length bytes"
  shows "list_all (\<lambda>j. utf8_continuation a j (byte (bytes ! (i + 1 + j)))) [0..<len - 1] \<longleftrightarrow>
    lo \<le> byte (bytes ! (i + 1)) \<and> byte (bytes ! (i + 1)) \<le> hi \<and> utf8_continuations bytes i len"
proof -
  have upts: "[0..<1] = [0]" "[0..<2] = [0, 1]" "[0..<3] = [0, 1, 2 :: nat]" "[2..<2] = ([] :: nat list)"
      "[2..<3] = [2]" "[2..<4] = [2, 3 :: nat]"
    by (simp_all add: upt_rec)
  define x where "x = byte (bytes ! (i + 1))"
  have first: "utf8_continuation a 0 x \<longleftrightarrow> lo \<le> x \<and> x \<le> hi"
    using assms(1) by (auto simp: utf8_lead_def utf8_continuation_def split: if_splits)
  have later: "utf8_continuation a (Suc j) v \<longleftrightarrow> \<not> (v < 0x80 \<or> v > 0xbf)" for j v
    by (simp add: utf8_continuation_def)
  from assms(1) consider "len = 2" | "len = 3" | "len = 4" by (auto simp: utf8_lead_def split: if_splits)
  then show ?thesis
  proof cases
    case 1
    then have "len - 1 = 1" by simp
    with 1 show ?thesis using first by (simp add: upts utf8_continuations_def x_def)
  next
    case 2
    then have "len - 1 = 2" by simp
    with 2 show ?thesis
      using first by (simp add: upts later utf8_continuations_def Let_def x_def)
  next
    case 3
    then have "len - 1 = 3" by simp
    moreover have "utf8_continuation a 2 v \<longleftrightarrow> \<not> (v < 0x80 \<or> v > 0xbf)" for v
      using later [of 1 v] by (simp add: numeral_2_eq_2)
    moreover have three: "i + 3 = Suc (Suc (Suc i))" by simp
    ultimately show ?thesis
      using first 3 by (simp add: upts later utf8_continuations_def Let_def x_def three)
  qed
qed

lemma valid_utf8_loop: "valid_utf8_from bytes i = utf8_loop bytes i"
proof (induction bytes i rule: valid_utf8_from.induct)
  case (1 bytes i)
  let ?a = "byte (bytes ! i)"
  show ?case
  proof (cases "i < length bytes \<and> \<not> ?a \<le> 0x7f")
    case False
    with 1(1) show ?thesis
      by (subst valid_utf8_from.simps, subst utf8_loop.simps) (auto simp: Let_def)
  next
    case lead: True
    show ?thesis
    proof (cases "utf8_lead ?a")
      case None
      with lead show ?thesis
        by (subst valid_utf8_from.simps, subst utf8_loop.simps) (simp add: Let_def utf8_count_lead)
    next
      case (Some t)
      obtain len lo hi where t: "t = (len, lo, hi)" by (cases t)
      have len: "0 < len" using Some t by (auto dest: utf8_lead_positive)
      show ?thesis
      proof (cases "i + len \<le> length bytes")
        case False
        with lead Some t len show ?thesis
          by (subst valid_utf8_from.simps, subst utf8_loop.simps) (simp add: Let_def utf8_count_lead, arith)
      next
        case True
        note cont = continuations_lead [OF Some [unfolded t] _ True]
        have next_index: "i + 1 + (len - 1) = i + len" using len by simp
        have rest: "list_all (\<lambda>j. utf8_continuation ?a j (byte (bytes ! (i + 1 + j)))) [0..<len - 1] \<Longrightarrow>
            valid_utf8_from bytes (i + len) = utf8_loop bytes (i + len)"
          using 1(2) [of ?a "i + 1" "len - 1"] lead Some t True next_index by (simp add: utf8_count_lead)
        have "valid_utf8_from bytes i \<longleftrightarrow>
            list_all (\<lambda>j. utf8_continuation ?a j (byte (bytes ! (i + 1 + j)))) [0..<len - 1] \<and>
            valid_utf8_from bytes (i + len)"
          using lead Some t True len
          by (subst valid_utf8_from.simps) (auto simp: Let_def utf8_count_lead)
        also have "\<dots> \<longleftrightarrow> list_all (\<lambda>j. utf8_continuation ?a j (byte (bytes ! (i + 1 + j)))) [0..<len - 1] \<and>
            utf8_loop bytes (i + len)"
          using rest by blast
        also have "\<dots> \<longleftrightarrow> utf8_loop bytes i"
          using lead Some t True cont
          by (subst (2) utf8_loop.simps) (auto simp: Let_def not_less)
        finally show ?thesis .
      qed
    qed
  qed
qed

text \<open>Texts as strings of bytes.\<close>

definition text_ok :: "string \<Rightarrow> bool" where
  "text_ok s \<longleftrightarrow> utf8_text (map of_char s)"

lemma valid_utf8_text: "valid_utf8 s \<longleftrightarrow> text_ok s"
  using utf8_loop_text [of 0 s] by (simp add: valid_utf8_def valid_utf8_loop text_ok_def)

lemma text_ok_code [code]: "text_ok s = valid_utf8 s"
  by (simp add: valid_utf8_text)

subsection \<open>Boundaries\<close>

definition continuation_byte :: "nat \<Rightarrow> bool" where
  "continuation_byte b \<longleftrightarrow> 0x80 \<le> b \<and> b \<le> 0xbf"

lemma continuation_mask:
  assumes "b < 256"
  shows "b AND 0xc0 = 0x80 \<longleftrightarrow> continuation_byte b"
proof -
  have "(0xc0 :: nat) = push_bit 6 (mask 2)" by (simp add: push_bit_eq_mult mask_eq_exp_minus_1)
  moreover have "b AND push_bit 6 (mask 2) = push_bit 6 (take_bit 2 (drop_bit 6 b))"
    by (rule bit_eqI) (auto simp: bit_simps)
  ultimately have "b AND 0xc0 = 64 * (b div 64 mod 4)"
    by (simp add: push_bit_eq_mult take_bit_eq_mod drop_bit_eq_div)
  moreover have "b div 64 mod 4 = b div 64" using assms by simp
  ultimately have "b AND 0xc0 = 0x80 \<longleftrightarrow> b div 64 = 2" by simp
  also have "\<dots> \<longleftrightarrow> continuation_byte b" unfolding continuation_byte_def by arith
  finally show ?thesis .
qed

lemma utf8_boundary_iff:
  "utf8_boundary bytes len index \<longleftrightarrow> index = len \<or> index < len \<and> \<not> continuation_byte (byte (bytes ! index))"
  by (simp add: utf8_boundary_def continuation_mask)

lemma encode_bytes:
  assumes "scalar_value cp"
  shows "utf8_encode cp \<noteq> []" "\<not> continuation_byte (hd (utf8_encode cp))"
    "0 < i \<Longrightarrow> i < length (utf8_encode cp) \<Longrightarrow> continuation_byte (utf8_encode cp ! i)"
proof -
  have small: "cp < 0x110000" using assms by (simp add: scalar_value_def)
  show "utf8_encode cp \<noteq> []" by (simp add: utf8_encode_def)
  show "\<not> continuation_byte (hd (utf8_encode cp))"
    using small by (auto simp: utf8_encode_def continuation_byte_def)
  show "0 < i \<Longrightarrow> i < length (utf8_encode cp) \<Longrightarrow> continuation_byte (utf8_encode cp ! i)"
    by (auto simp: utf8_encode_def continuation_byte_def nth_Cons' less_Suc_eq split: if_splits)
qed

lemma utf8_text_append: "utf8_text xs \<Longrightarrow> utf8_text ys \<Longrightarrow> utf8_text (xs @ ys)"
  unfolding utf8_text_def by (metis concat_append map_append Un_iff set_append)

lemma utf8_text_concat: "(\<And>x. x \<in> set xs \<Longrightarrow> utf8_text x) \<Longrightarrow> utf8_text (concat xs)"
  by (induction xs) (auto intro: utf8_text_append)

lemma utf8_text_encode: "scalar_value cp \<Longrightarrow> utf8_text (utf8_encode cp)"
  unfolding utf8_text_def by (intro exI [of _ "[cp]"]) simp

lemma utf8_text_cut:
  assumes "utf8_text bs" "i \<le> length bs" "i < length bs \<Longrightarrow> \<not> continuation_byte (bs ! i)"
  shows "utf8_text (take i bs) \<and> utf8_text (drop i bs)"
proof -
  from assms(1) obtain cps where "\<forall>cp \<in> set cps. scalar_value cp" "bs = concat (map utf8_encode cps)"
    by (auto simp: utf8_text_def)
  then show ?thesis using assms(2,3)
  proof (induction cps arbitrary: bs i)
    case (Cons cp cps)
    let ?c = "utf8_encode cp" and ?rest = "concat (map utf8_encode cps)"
    have bs: "bs = ?c @ ?rest" and cp: "scalar_value cp" using Cons.prems by simp_all
    have rest: "utf8_text ?rest" using Cons.prems(1) unfolding utf8_text_def by auto
    consider "i = 0" | "0 < i" "i < length ?c" | "length ?c \<le> i" by linarith
    then show ?case
    proof cases
      case 1
      then show ?thesis using utf8_text_append [OF utf8_text_encode [OF cp] rest] bs by simp
    next
      case 2
      with encode_bytes(3) [OF cp 2] Cons.prems(4) bs show ?thesis by (simp add: nth_append)
    next
      case 3
      have "utf8_text (take (i - length ?c) ?rest) \<and> utf8_text (drop (i - length ?c) ?rest)"
      proof (rule Cons.IH)
        show "i - length ?c \<le> length ?rest" using Cons.prems(3) bs by simp
        show "i - length ?c < length ?rest \<Longrightarrow> \<not> continuation_byte (?rest ! (i - length ?c))"
          using Cons.prems(4) bs 3 by (simp add: nth_append)
      qed (use Cons.prems(1) in simp_all)
      with 3 bs utf8_text_encode [OF cp] show ?thesis by (auto intro: utf8_text_append)
    qed
  qed simp
qed

text \<open>A text that starts with another one goes on with a text.\<close>

lemma utf8_text_prefix:
  assumes "utf8_text (xs @ ys)" "utf8_text xs"
  shows "utf8_text ys"
proof -
  from assms(2) obtain cps where "\<forall>cp \<in> set cps. scalar_value cp" "xs = concat (map utf8_encode cps)"
    by (auto simp: utf8_text_def)
  then show ?thesis using assms(1)
  proof (induction cps arbitrary: xs)
    case (Cons cp cps)
    let ?more = "concat (map utf8_encode cps) @ ys"
    have cp: "scalar_value cp" and all: "utf8_text (utf8_encode cp @ ?more)" using Cons.prems by simp_all
    then have "utf8_encode cp @ ?more \<noteq> []" using encode_bytes(1) by simp
    from all [unfolded utf8_text_Cons_iff [OF this]] obtain cp' rest where
        r: "scalar_value cp'" "utf8_encode cp @ ?more = utf8_encode cp' @ rest" "utf8_text rest" by blast
    with utf8_code.code_prefix_free [OF cp r(1) r(2)] have "utf8_text ?more" by simp
    with Cons.IH [of "concat (map utf8_encode cps)"] Cons.prems(1) show ?case by simp
  qed simp
qed

end
