(* ===== verification/Runtime_String.thy ===== *)
theory Runtime_String
  imports Runtime_Text
begin

text \<open>
  The strings of the runtime (\<open>src/RuntimeGc.c\<close>): a string object owns a buffer whose bytes are
  valid UTF-8. The object is modelled as its buffer; other strings are given by the bytes that
  \<open>cwhip_string_bytes\<close> returns, unless they may be the receiver itself.
\<close>

subsection \<open>Conversions to numbers\<close>

fun parse_digits :: "64 word \<Rightarrow> string \<Rightarrow> string \<Rightarrow> string \<Rightarrow> 64 word \<Rightarrow> 64 word run" where
  "parse_digits limit invalid out_of_range [] magnitude = Inr magnitude"
| "parse_digits limit invalid out_of_range (digit # ds) magnitude =
     then_run (raise_if (digit < CHR ''0'' \<or> digit > CHR ''9'') invalid)
     (let addend = of_nat (byte digit - byte (CHR ''0'')) in
      then_run (raise_if (magnitude > (limit - addend) div 10) out_of_range)
      (parse_digits limit invalid out_of_range ds (magnitude * 10 + addend)))"

definition cwhip_string_to_int :: "string \<Rightarrow> 64 word run" where
  "cwhip_string_to_int data =
     (let invalid = ''string does not contain a valid integer'';
          out_of_range = ''string integer value is out of range'' in
      then_run (raise_if (data = []) invalid)
      (let negative = (hd data = CHR ''-'');
           digits = (if hd data = CHR ''+'' \<or> hd data = CHR ''-'' then tl data else data);
           limit = (if negative then 0x7fffffffffffffff + 1 else 0x7fffffffffffffff) in
       then_run (raise_if (digits = []) invalid)
       (bindE (parse_digits limit invalid out_of_range digits 0) (\<lambda>magnitude.
         if \<not> negative then Inr magnitude
         else if magnitude = 0x7fffffffffffffff + 1 then Inr 0x8000000000000000
         else Inr (- magnitude)))))"

definition cwhip_string_to_unsigned :: "string \<Rightarrow> 64 word run" where
  "cwhip_string_to_unsigned data =
     (let invalid = ''string does not contain a valid unsigned integer'';
          out_of_range = ''string unsigned integer value is out of range'' in
      then_run (raise_if (data = []) invalid)
      (then_run (raise_if (hd data = CHR ''-'') invalid)
      (let digits = (if hd data = CHR ''+'' then tl data else data) in
       then_run (raise_if (digits = []) invalid)
       (parse_digits 0xffffffffffffffff invalid out_of_range digits 0))))"

subsection \<open>Indices and searching\<close>

definition normalize_string_index :: "int \<Rightarrow> nat \<Rightarrow> int" where
  "normalize_string_index index len = (if index < 0 then index + int len else index)"

definition normalize_string_bound :: "int \<Rightarrow> nat \<Rightarrow> nat" where
  "normalize_string_bound bound len =
     (let normalized = (if bound < 0 then bound + int len else bound) in
      if normalized < 0 then 0 else if nat normalized > len then len else nat normalized)"

text \<open>The offset of the first occurrence from \<open>start\<close>; \<open>None\<close> is \<open>UINT64_MAX\<close>.\<close>

definition find_bytes :: "string \<Rightarrow> string \<Rightarrow> nat \<Rightarrow> nat option" where
  "find_bytes data needle start =
     (if needle = [] then (if start \<le> length data then Some start else None)
      else if length needle > length data \<or> start > length data - length needle then None
      else List.find (\<lambda>index. take (length needle) (drop index data) = needle)
        [start..<length data - length needle + 1])"

subsection \<open>New strings\<close>

definition cwhip_string_new :: "string \<Rightarrow> cwhip_buffer run" where
  "cwhip_string_new bytes =
     then_run (raise_if (length bytes > int64_max \<or> length bytes > uint64_max) ''String length out of bounds'')
     (then_run (raise_if (\<not> valid_utf8 bytes) ''String bytes are not valid UTF-8'')
       (Inr (buffer_of bytes)))"

definition cwhip_string_bytes :: "cwhip_buffer \<Rightarrow> string run" where
  "cwhip_string_bytes b = read_block 0 (bu_length b) (bu_data b)"

definition cwhip_string_method_slice :: "cwhip_buffer \<Rightarrow> int \<Rightarrow> int \<Rightarrow> cwhip_buffer run" where
  "cwhip_string_method_slice b first final =
     (let start = normalize_string_bound first (bu_length b); stop = normalize_string_bound final (bu_length b) in
      then_run (raise_if (\<not> utf8_boundary (bu_data b) (bu_length b) start \<or> \<not> utf8_boundary (bu_data b) (bu_length b) stop)
        ''String range splits a UTF-8 character'')
      (bindE (read_block start (if stop > start then stop - start else 0) (bu_data b)) cwhip_string_new))"

subsection \<open>Operations that change a string\<close>

text \<open>The bytes to append: a part of the block of the buffer itself, or bytes of another block.\<close>

datatype byte_source = Own nat nat | Foreign string

definition source_bytes :: "cwhip_buffer \<Rightarrow> byte_source \<Rightarrow> string run" where
  "source_bytes b source = (case source of Own offset n \<Rightarrow> read_block offset n (bu_data b) | Foreign bytes \<Rightarrow> Inr bytes)"

definition cwhip_string_append_bytes :: "(nat \<Rightarrow> char) \<Rightarrow> cwhip_buffer \<Rightarrow> byte_source \<Rightarrow> cwhip_buffer run" where
  "cwhip_string_append_bytes junk b source =
     bindE (source_bytes b source) (\<lambda>bytes.
     then_run (raise_if (bu_length b > int64_max \<or> length bytes > int64_max - bu_length b \<or> \<not> valid_utf8 bytes)
       ''invalid UTF-8 or String length'')
     (if bytes = [] then Inr b
      else
        bindE (buffer_reserve junk b (bu_length b + length bytes)) (\<lambda>b.
        bindE (source_bytes b source) (\<lambda>bytes.
        bindE (write_block (bu_length b) bytes (bu_data b)) (\<lambda>data.
          Inr (b\<lparr>bu_data := data, bu_length := bu_length b + length bytes\<rparr>))))))"

text \<open>The other string of an operation; \<open>None\<close> is the receiver.\<close>

definition cwhip_string_append :: "(nat \<Rightarrow> char) \<Rightarrow> cwhip_buffer \<Rightarrow> cwhip_buffer option \<Rightarrow> cwhip_buffer run" where
  "cwhip_string_append junk b other =
     (case other of
        None \<Rightarrow> cwhip_string_append_bytes junk b (Own 0 (bu_length b))
      | Some s \<Rightarrow> bindE (cwhip_string_bytes s) (\<lambda>bytes. cwhip_string_append_bytes junk b (Foreign bytes)))"

definition cwhip_string_method_insert :: "(nat \<Rightarrow> char) \<Rightarrow> cwhip_buffer \<Rightarrow> int \<Rightarrow> cwhip_buffer option \<Rightarrow> cwhip_buffer run" where
  "cwhip_string_method_insert junk b index other =
     (let normalized = normalize_string_index index (bu_length b) in
      then_run (raise_if (normalized < 0 \<or> nat normalized > bu_length b) ''String insertion index out of bounds'')
      (then_run (raise_if (\<not> utf8_boundary (bu_data b) (bu_length b) (nat normalized))
        ''String insertion index splits a UTF-8 character'')
      (bindE (cwhip_string_bytes (case other of None \<Rightarrow> b | Some s \<Rightarrow> s)) (\<lambda>copy.
       then_run (raise_if (bu_length b > int64_max \<or> length copy > int64_max - bu_length b \<or> length copy > uint64_max)
        ''String length out of bounds'')
       (if copy = [] then Inr b
        else
          let offset = nat normalized; old_length = bu_length b in
          bindE (buffer_reserve junk b (old_length + length copy)) (\<lambda>b.
          bindE (move_block (offset + length copy) offset (old_length - offset) (bu_data b)) (\<lambda>data.
          bindE (write_block offset copy data) (\<lambda>data.
            Inr (b\<lparr>bu_data := data, bu_length := old_length + length copy\<rparr>))))))))) "

definition cwhip_string_method_remove_range :: "cwhip_buffer \<Rightarrow> int \<Rightarrow> int \<Rightarrow> cwhip_buffer run" where
  "cwhip_string_method_remove_range b first final =
     (let start = normalize_string_bound first (bu_length b); stop = normalize_string_bound final (bu_length b) in
      then_run (raise_if (\<not> utf8_boundary (bu_data b) (bu_length b) start \<or> \<not> utf8_boundary (bu_data b) (bu_length b) stop)
        ''String range splits a UTF-8 character'')
      (if stop \<le> start then Inr b
       else
         bindE (move_block start stop (bu_length b - stop) (bu_data b)) (\<lambda>data.
           Inr (b\<lparr>bu_data := data, bu_length := bu_length b - (stop - start)\<rparr>))))"

definition cwhip_string_method_clear :: "cwhip_buffer \<Rightarrow> cwhip_buffer" where
  "cwhip_string_method_clear b = b\<lparr>bu_length := 0\<rparr>"

subsection \<open>Queries\<close>

definition cwhip_string_equals :: "cwhip_buffer \<Rightarrow> cwhip_buffer option \<Rightarrow> bool run" where
  "cwhip_string_equals b other =
     bindE (cwhip_string_bytes b) (\<lambda>l.
       case other of None \<Rightarrow> Inr False | Some s \<Rightarrow> bindE (cwhip_string_bytes s) (\<lambda>r. Inr (length l = length r \<and> l = r)))"

definition cwhip_string_method_byte_at :: "cwhip_buffer \<Rightarrow> int \<Rightarrow> nat run" where
  "cwhip_string_method_byte_at b index =
     (let normalized = normalize_string_index index (bu_length b) in
      then_run (raise_if (normalized < 0 \<or> nat normalized \<ge> bu_length b) ''String byte index out of bounds'')
      (bindE (read_block (nat normalized) 1 (bu_data b)) (\<lambda>bytes. Inr (byte (hd bytes)))))"

definition cwhip_string_method_find :: "cwhip_buffer \<Rightarrow> string \<Rightarrow> int run" where
  "cwhip_string_method_find b needle =
     bindE (cwhip_string_bytes b) (\<lambda>data.
       Inr (case find_bytes data needle 0 of None \<Rightarrow> -1 | Some index \<Rightarrow> int index))"

definition cwhip_string_method_contains :: "cwhip_buffer \<Rightarrow> string \<Rightarrow> bool run" where
  "cwhip_string_method_contains b needle =
     bindE (cwhip_string_method_find b needle) (\<lambda>index. Inr (index \<ge> 0))"

definition cwhip_string_method_starts_with :: "cwhip_buffer \<Rightarrow> string \<Rightarrow> bool run" where
  "cwhip_string_method_starts_with b p =
     (if length p \<le> bu_length b then bindE (read_block 0 (length p) (bu_data b)) (\<lambda>bytes. Inr (p = [] \<or> bytes = p))
      else Inr False)"

definition cwhip_string_method_ends_with :: "cwhip_buffer \<Rightarrow> string \<Rightarrow> bool run" where
  "cwhip_string_method_ends_with b p =
     (if length p \<le> bu_length b then
        bindE (read_block (bu_length b - length p) (length p) (bu_data b)) (\<lambda>bytes. Inr (p = [] \<or> bytes = p))
      else Inr False)"

end
