(* ===== verification/Runtime_String_Spec.thy ===== *)
theory Runtime_String_Spec
  imports Runtime_String
begin

text \<open>
  What the operations on strings do to the bytes, and that every string stays valid UTF-8.
\<close>

definition string_ok :: "cwhip_buffer \<Rightarrow> bool" where
  "string_ok b \<longleftrightarrow> buffer_ok b \<and> text_ok (buffer_bytes b)"

definition char_boundary :: "string \<Rightarrow> nat \<Rightarrow> bool" where
  "char_boundary s i \<longleftrightarrow> i = length s \<or> i < length s \<and> \<not> continuation_byte (byte (s ! i))"

lemma nth_buffer_bytes: "i < bu_length b \<Longrightarrow> buffer_bytes b ! i = bu_data b ! i"
  by (simp add: buffer_bytes_def)

lemma boundary_bytes:
  "buffer_ok b \<Longrightarrow> utf8_boundary (bu_data b) (bu_length b) i \<longleftrightarrow> char_boundary (buffer_bytes b) i"
  by (auto simp: utf8_boundary_iff char_boundary_def length_buffer_bytes nth_buffer_bytes)

lemma text_ok_cut: "text_ok s \<Longrightarrow> char_boundary s i \<Longrightarrow> text_ok (take i s) \<and> text_ok (drop i s)"
  using utf8_text_cut [of "map of_char s" i]
  by (auto simp: text_ok_def char_boundary_def take_map drop_map)

lemma text_ok_append: "text_ok s \<Longrightarrow> text_ok t \<Longrightarrow> text_ok (s @ t)"
  by (simp add: text_ok_def utf8_text_append)

lemma text_ok_Nil [simp]: "text_ok []"
  by (simp add: text_ok_def)

lemma text_ok_prefix: "text_ok (s @ t) \<Longrightarrow> text_ok s \<Longrightarrow> text_ok t"
  using utf8_text_prefix by (simp add: text_ok_def)

text \<open>Between two boundaries lies a text.\<close>

lemma char_boundary_drop: "char_boundary s j \<Longrightarrow> i \<le> j \<Longrightarrow> i \<le> length s \<Longrightarrow> char_boundary (drop i s) (j - i)"
  by (auto simp: char_boundary_def)

lemma text_ok_slice:
  assumes "text_ok s" "char_boundary s i" "char_boundary s j" "i \<le> j"
  shows "text_ok (slice i j s)"
proof -
  have "i \<le> length s" using assms(2) by (auto simp: char_boundary_def)
  with assms text_ok_cut [OF assms(1,2)] char_boundary_drop have "text_ok (take (j - i) (drop i s))"
    using text_ok_cut by blast
  then show ?thesis by (simp add: slice_def)
qed

lemma cwhip_string_bytes_ok: "buffer_ok b \<Longrightarrow> cwhip_string_bytes b = Inr (buffer_bytes b)"
  by (simp add: cwhip_string_bytes_def read_block_simps buffer_ok_def buffer_bytes_def)

lemma cwhip_string_new_ok: "text_ok s \<Longrightarrow> length s \<le> int64_max \<Longrightarrow> cwhip_string_new s = Inr (buffer_of s)"
  by (simp add: cwhip_string_new_def raise_if_def valid_utf8_text int64_max_def uint64_max_def)

lemma normalize_string_bound_le: "normalize_string_bound bound len \<le> len"
  by (auto simp: normalize_string_bound_def Let_def)

lemma buffer_length_le: "buffer_ok b \<Longrightarrow> bu_length b \<le> int64_max \<and> bu_length b \<le> length (bu_data b)"
  by (simp add: buffer_ok_def)

subsection \<open>Operations on texts\<close>

text \<open>The operations as functions on the bytes, with their errors.\<close>

datatype string_step =
    Append_string "cwhip_buffer option"
  | Append_bytes string
  | Insert_string int "cwhip_buffer option"
  | Remove_range int int
  | Clear_string

fun run_string_step :: "(nat \<Rightarrow> char) \<Rightarrow> string_step \<Rightarrow> cwhip_buffer \<Rightarrow> cwhip_buffer run" where
  "run_string_step junk (Append_string other) b = cwhip_string_append junk b other"
| "run_string_step junk (Append_bytes bytes) b = cwhip_string_append_bytes junk b (Foreign bytes)"
| "run_string_step junk (Insert_string index other) b = cwhip_string_method_insert junk b index other"
| "run_string_step junk (Remove_range first final) b = cwhip_string_method_remove_range b first final"
| "run_string_step junk Clear_string b = Inr (cwhip_string_method_clear b)"

definition other_text :: "string \<Rightarrow> cwhip_buffer option \<Rightarrow> string" where
  "other_text s other = (case other of None \<Rightarrow> s | Some b \<Rightarrow> buffer_bytes b)"

definition append_text :: "string \<Rightarrow> string \<Rightarrow> string run" where
  "append_text s t =
     (if length s + length t > int64_max \<or> \<not> text_ok t then Inl (Raised ''invalid UTF-8 or String length'')
      else Inr (s @ t))"

fun text_step :: "string_step \<Rightarrow> string \<Rightarrow> string run" where
  "text_step (Append_string other) s = append_text s (other_text s other)"
| "text_step (Append_bytes bytes) s = append_text s bytes"
| "text_step (Insert_string index other) s =
     (let p = (if index < 0 then index + int (length s) else index); t = other_text s other in
      if p < 0 \<or> int (length s) < p then Inl (Raised ''String insertion index out of bounds'')
      else if \<not> char_boundary s (nat p) then Inl (Raised ''String insertion index splits a UTF-8 character'')
      else if length s + length t > int64_max then Inl (Raised ''String length out of bounds'')
      else Inr (take (nat p) s @ t @ drop (nat p) s))"
| "text_step (Remove_range first final) s =
     (let i = normalize_string_bound first (length s); j = normalize_string_bound final (length s) in
      if \<not> char_boundary s i \<or> \<not> char_boundary s j then Inl (Raised ''String range splits a UTF-8 character'')
      else Inr (take i s @ drop (max i j) s))"
| "text_step Clear_string s = Inr []"

definition others_ok :: "string_step \<Rightarrow> bool" where
  "others_ok step = (case step of
     Append_string (Some b) \<Rightarrow> string_ok b | Insert_string index (Some b) \<Rightarrow> string_ok b | _ \<Rightarrow> True)"

text \<open>The buffer that a step leaves holds the text that the operation on texts computes.\<close>

definition implements :: "cwhip_buffer run \<Rightarrow> string run \<Rightarrow> bool" where
  "implements r s \<longleftrightarrow>
     (case s of Inl e \<Rightarrow> r = Inl e | Inr text \<Rightarrow> \<exists>b. r = Inr b \<and> buffer_ok b \<and> buffer_bytes b = text)"

lemma append_bytes_implements:
  assumes "buffer_ok b" "source_bytes b source = Inr bytes"
    and own: "\<And>offset n. source = Own offset n \<Longrightarrow> offset + n \<le> bu_length b"
  shows "implements (cwhip_string_append_bytes junk b source) (append_text (buffer_bytes b) bytes)"
proof (cases "length bytes > int64_max - bu_length b \<or> \<not> valid_utf8 bytes")
  case True
  with assms buffer_length_le [OF assms(1)] show ?thesis
    by (auto simp: cwhip_string_append_bytes_def append_text_def implements_def raise_if_def length_buffer_bytes valid_utf8_text)
next
  case False
  then have fits: "bu_length b + length bytes \<le> int64_max" "text_ok bytes"
    using buffer_length_le [OF assms(1)] by (auto simp: valid_utf8_text)
  then have spec: "append_text (buffer_bytes b) bytes = Inr (buffer_bytes b @ bytes)"
    by (simp add: append_text_def length_buffer_bytes assms(1))
  show ?thesis
  proof (cases "bytes = []")
    case True
    with False assms(1,2) spec buffer_length_le [OF assms(1)] show ?thesis
      by (simp add: cwhip_string_append_bytes_def implements_def raise_if_def)
  next
    case some: False
    from buffer_reserve_ok [OF fits(1) assms(1)] obtain c more where
        c: "buffer_reserve junk b (bu_length b + length bytes) = Inr c" "buffer_ok c" "buffer_bytes c = buffer_bytes b"
          "bu_length c = bu_length b" "bu_length b + length bytes \<le> length (bu_data c)" "bu_data c = bu_data b @ more"
      by blast
    have again: "source_bytes c source = Inr bytes"
    proof (cases source)
      case (Own offset n)
      with own have "offset + n \<le> length (bu_data b)" using buffer_length_le [OF assms(1)] by fastforce
      with assms(2) Own c(6) show ?thesis by (simp add: source_bytes_def read_block_simps)
    qed (use assms(2) in \<open>simp add: source_bytes_def\<close>)
    have front: "take (bu_length b) (bu_data c) = buffer_bytes b" using c(3,4) by (simp add: buffer_bytes_def)
    let ?c = "c\<lparr>bu_data := buffer_bytes b @ bytes @ drop (bu_length b + length bytes) (bu_data c),
        bu_length := bu_length b + length bytes\<rparr>"
    have "cwhip_string_append_bytes junk b source = Inr ?c"
      using False some assms(2) c(1,4,5) again buffer_length_le [OF assms(1)] front
      by (simp add: cwhip_string_append_bytes_def raise_if_def write_block_simps)
    moreover have "buffer_ok ?c" "buffer_bytes ?c = buffer_bytes b @ bytes"
      using c(5) fits(1) length_buffer_bytes [OF assms(1)] by (simp_all add: buffer_ok_def buffer_bytes_def [of ?c])
    ultimately show ?thesis by (simp add: implements_def spec)
  qed
qed

lemma append_implements:
  assumes "buffer_ok b" "\<And>c. other = Some c \<Longrightarrow> buffer_ok c"
  shows "implements (cwhip_string_append junk b other) (append_text (buffer_bytes b) (other_text (buffer_bytes b) other))"
proof (cases other)
  case None
  have "source_bytes b (Own 0 (bu_length b)) = Inr (buffer_bytes b)"
    using cwhip_string_bytes_ok [OF assms(1)] by (simp add: source_bytes_def cwhip_string_bytes_def)
  from append_bytes_implements [OF assms(1) this] None show ?thesis
    by (simp add: cwhip_string_append_def other_text_def)
next
  case (Some c)
  have "source_bytes b (Foreign (buffer_bytes c)) = Inr (buffer_bytes c)" by (simp add: source_bytes_def)
  from append_bytes_implements [OF assms(1) this] Some assms(2) show ?thesis
    by (simp add: cwhip_string_append_def other_text_def cwhip_string_bytes_ok)
qed

lemma insert_implements:
  assumes "buffer_ok b" "\<And>c. other = Some c \<Longrightarrow> buffer_ok c"
  shows "implements (cwhip_string_method_insert junk b index other) (text_step (Insert_string index other) (buffer_bytes b))"
proof -
  let ?s = "buffer_bytes b" and ?t = "other_text (buffer_bytes b) other"
  define p where "p = normalize_string_index index (bu_length b)"
  have len: "length ?s = bu_length b" by (rule length_buffer_bytes [OF assms(1)])
  have p: "(if index < 0 then index + int (length ?s) else index) = p"
    by (simp add: p_def normalize_string_index_def len)
  have copy: "cwhip_string_bytes (case other of None \<Rightarrow> b | Some s \<Rightarrow> s) = Inr ?t"
    using assms by (auto simp: other_text_def cwhip_string_bytes_ok split: option.splits)
  note start = cwhip_string_method_insert_def [of junk b index other, folded p_def, unfolded Let_def copy]
  note spec = text_step.simps(3) [of index other ?s, unfolded p Let_def]
  show ?thesis
  proof (cases "p < 0 \<or> int (bu_length b) < p")
    case True
    then show ?thesis unfolding start spec by (auto simp: implements_def len raise_if_def)
  next
    case range: False
    then have np: "nat p \<le> bu_length b" by (simp add: nat_le_iff)
    show ?thesis
    proof (cases "char_boundary ?s (nat p) \<and> \<not> length ?t > int64_max - bu_length b")
      case False
      with range np show ?thesis unfolding start spec boundary_bytes [OF assms(1)]
        using buffer_length_le [OF assms(1)]
        by (auto simp: implements_def len raise_if_def)
    next
      case True
      then have fits: "bu_length b + length ?t \<le> int64_max" "char_boundary ?s (nat p)"
        using buffer_length_le [OF assms(1)] by auto
      have result: "text_step (Insert_string index other) ?s = Inr (take (nat p) ?s @ ?t @ drop (nat p) ?s)"
        unfolding spec using range fits by (simp add: len)
      show ?thesis
      proof (cases "?t = []")
        case True
        then have "cwhip_string_method_insert junk b index other = Inr b"
          unfolding start boundary_bytes [OF assms(1)]
          using range fits np buffer_length_le [OF assms(1)] by (simp add: raise_if_def)
        with result True assms(1) show ?thesis by (simp add: implements_def)
      next
        case some: False
        from buffer_reserve_ok [OF fits(1) assms(1)] obtain c more where
            c: "buffer_reserve junk b (bu_length b + length ?t) = Inr c" "bu_length c = bu_length b"
              "buffer_bytes c = ?s" "bu_length b + length ?t \<le> length (bu_data c)"
          by blast
        have front: "take (bu_length b) (bu_data c) = ?s" using c(2,3) by (simp add: buffer_bytes_def)
        let ?rest = "drop (bu_length b + length ?t) (bu_data c)"
        have parts: "bu_data c = ?s @ drop (bu_length b) (bu_data c)"
          using front by (metis append_take_drop_id)
        have read: "read_block (nat p) (bu_length b - nat p) (bu_data c) = Inr (drop (nat p) ?s)"
        proof -
          have "take (bu_length b - nat p) (drop (nat p) (bu_data c)) = drop (nat p) ?s"
            using front by (metis drop_take)
          with np c(4) len show ?thesis by (simp add: read_block_def)
        qed
        define data where "data = take (nat p + length ?t) (bu_data c) @ drop (nat p) ?s @ ?rest"
        have move: "move_block (nat p + length ?t) (nat p) (bu_length b - nat p) (bu_data c) = Inr data"
        proof -
          have "nat p + length ?t + (bu_length b - nat p) = bu_length b + length ?t" using np by simp
          with c(4) show ?thesis by (simp add: move_block_def read write_block_simps data_def len ac_simps)
        qed
        have size: "nat p + length ?t \<le> length (bu_data c)" using np c(4) by simp
        then have "length data = length (bu_data c)" using np c(4) len by (simp add: data_def)
        have "take (nat p) data = take (nat p) ?s"
        proof -
          have "take (nat p) data = take (nat p) (bu_data c)" using size by (simp add: data_def min_def)
          also have "\<dots> = take (nat p) ?s" using front np by (metis min_def take_take)
          finally show ?thesis .
        qed
        moreover have "drop (nat p + length ?t) data = drop (nat p) ?s @ ?rest"
          using size by (simp add: data_def)
        ultimately have written: "write_block (nat p) ?t data = Inr (take (nat p) ?s @ ?t @ drop (nat p) ?s @ ?rest)"
          using size \<open>length data = length (bu_data c)\<close> by (simp add: write_block_simps)
        let ?c = "c\<lparr>bu_data := take (nat p) ?s @ ?t @ drop (nat p) ?s @ ?rest, bu_length := bu_length b + length ?t\<rparr>"
        have "cwhip_string_method_insert junk b index other = Inr ?c"
          unfolding start boundary_bytes [OF assms(1)]
          using range fits np some c(1) move written buffer_length_le [OF assms(1)]
          by (simp add: raise_if_def int64_max_def uint64_max_def)
        moreover have "buffer_ok ?c \<and> buffer_bytes ?c = take (nat p) ?s @ ?t @ drop (nat p) ?s"
        proof -
          let ?A = "take (nat p) ?s @ ?t @ drop (nat p) ?s"
          have whole: "length ?A = bu_length b + length ?t" using np len by simp
          have "take (length xs) (xs @ ys) = xs" for xs ys :: string by simp
          from this [of ?A ?rest] have "take (bu_length b + length ?t) (take (nat p) ?s @ ?t @ drop (nat p) ?s @ ?rest) = ?A"
            unfolding whole by simp
          moreover have "bu_length b + length ?t \<le> length (?A @ ?rest)" using whole by simp
          ultimately show ?thesis using fits(1) by (simp add: buffer_ok_def buffer_bytes_def [of ?c])
        qed
        ultimately show ?thesis by (simp add: implements_def result del: text_step.simps)
      qed
    qed
  qed
qed

lemma remove_range_implements:
  assumes "buffer_ok b"
  shows "implements (cwhip_string_method_remove_range b first final) (text_step (Remove_range first final) (buffer_bytes b))"
proof -
  let ?s = "buffer_bytes b"
  define i j where "i = normalize_string_bound first (bu_length b)" and "j = normalize_string_bound final (bu_length b)"
  have len: "length ?s = bu_length b" by (rule length_buffer_bytes [OF assms])
  have ij: "i \<le> bu_length b" "j \<le> bu_length b" by (simp_all add: i_def j_def normalize_string_bound_le)
  note start = cwhip_string_method_remove_range_def [of b first final, folded i_def j_def, unfolded Let_def boundary_bytes [OF assms]]
  note spec = text_step.simps(4) [of first final ?s, unfolded len, folded i_def j_def, unfolded Let_def]
  consider "\<not> char_boundary ?s i \<or> \<not> char_boundary ?s j" | "char_boundary ?s i" "char_boundary ?s j" "j \<le> i"
    | "char_boundary ?s i" "char_boundary ?s j" "i < j" by linarith
  then show ?thesis
  proof cases
    case 1
    then show ?thesis unfolding start spec by (auto simp: implements_def raise_if_def)
  next
    case 2
    then show ?thesis unfolding start spec using assms by (simp add: implements_def raise_if_def max_def)
  next
    case 3
    have front: "take (bu_length b) (bu_data b) = ?s" by (simp add: buffer_bytes_def)
    have read: "read_block j (bu_length b - j) (bu_data b) = Inr (drop j ?s)"
    proof -
      have "take (bu_length b - j) (drop j (bu_data b)) = drop j ?s" using front by (metis drop_take)
      with ij buffer_length_le [OF assms] show ?thesis by (auto simp: read_block_def)
    qed
    let ?data = "take i (bu_data b) @ drop j ?s @ drop (i + length (drop j ?s)) (bu_data b)"
    have "i + length (drop j ?s) \<le> length (bu_data b)" using 3 ij len buffer_length_le [OF assms] by simp arith
    then have move: "move_block i j (bu_length b - j) (bu_data b) = Inr ?data"
      by (simp add: move_block_def read write_block_simps)
    have "take i (bu_data b) = take i ?s" using front ij by (metis min_def take_take)
    then have data: "?data = take i ?s @ drop j ?s @ drop (i + length (drop j ?s)) (bu_data b)" by simp
    define k where "k = bu_length b - j"
    have k: "bu_length b - (j - i) = i + k" "length (take i ?s) = i" "length (drop j ?s) = k" "i + k \<le> bu_length b"
      using 3 ij len by (simp_all add: k_def)
    have "buffer_ok (b\<lparr>bu_data := ?data, bu_length := bu_length b - (j - i)\<rparr>) \<and>
        buffer_bytes (b\<lparr>bu_data := ?data, bu_length := bu_length b - (j - i)\<rparr>) = take i ?s @ drop j ?s"
      unfolding data k(1) buffer_ok_def buffer_bytes_def [of "b\<lparr>bu_data := _, bu_length := _\<rparr>"]
      using k(2-4) buffer_length_le [OF assms] by simp
    with 3 move show ?thesis unfolding start spec by (simp add: implements_def raise_if_def max_def)
  qed
qed

lemma string_step_implements:
  assumes "string_ok b" "others_ok step"
  shows "implements (run_string_step junk step b) (text_step step (buffer_bytes b))"
proof -
  have ok: "buffer_ok b" using assms(1) by (simp add: string_ok_def)
  show ?thesis
  proof (cases step)
    case (Append_string other)
    with assms(2) append_implements [OF ok, of other] show ?thesis
      by (auto simp: others_ok_def string_ok_def split: option.splits)
  next
    case (Append_bytes bytes)
    with append_bytes_implements [OF ok, of "Foreign bytes" bytes] show ?thesis by (simp add: source_bytes_def)
  next
    case (Insert_string index other)
    with assms(2) insert_implements [OF ok, of other] show ?thesis
      by (auto simp: others_ok_def string_ok_def simp del: text_step.simps split: option.splits)
  next
    case (Remove_range first final)
    then show ?thesis using remove_range_implements [OF ok] by (simp del: text_step.simps)
  next
    case Clear_string
    then show ?thesis by (simp add: implements_def cwhip_string_method_clear_def buffer_ok_def buffer_bytes_def)
  qed
qed

lemma other_text_ok: "text_ok s \<Longrightarrow> (\<And>b. other = Some b \<Longrightarrow> string_ok b) \<Longrightarrow> text_ok (other_text s other)"
  by (auto simp: other_text_def string_ok_def split: option.splits)

lemma text_step_ok:
  assumes "text_ok s" "others_ok step" "text_step step s = Inr t"
  shows "text_ok t"
proof (cases step)
  case (Append_string other)
  then have "t = s @ other_text s other" "text_ok (other_text s other)"
    using assms(3) by (simp_all add: append_text_def split: if_splits)
  with assms(1) show ?thesis by (simp add: text_ok_append)
next
  case (Append_bytes bytes)
  with assms(1,3) show ?thesis by (auto simp: append_text_def text_ok_append split: if_splits)
next
  case (Insert_string index other)
  then obtain p where "char_boundary s p" "t = take p s @ other_text s other @ drop p s"
    using assms(3) by (auto simp: Let_def split: if_splits)
  moreover have "text_ok (other_text s other)"
    using assms(1,2) Insert_string by (intro other_text_ok) (auto simp: others_ok_def)
  ultimately show ?thesis using text_ok_cut [OF assms(1)] by (auto intro: text_ok_append)
next
  case (Remove_range first final)
  then obtain i j where "char_boundary s i" "char_boundary s j" "t = take i s @ drop (max i j) s"
    using assms(3) by (auto simp: Let_def split: if_splits)
  then show ?thesis using text_ok_cut [OF assms(1)] assms(1) by (auto simp: max_def intro: text_ok_append)
next
  case Clear_string
  with assms(3) show ?thesis by simp
qed

text \<open>
  C16: Every operation that changes a string does to its block of memory what the operation on
  texts does, with the same errors: it stays inside of the block, also when the string is
  appended to or inserted into itself, and leaves valid UTF-8. What \<open>realloc\<close> leaves in
  new memory has no influence.
\<close>

theorem string_operations_refine:
  assumes "string_ok b" "others_ok step"
  shows "case text_step step (buffer_bytes b) of
      Inl e \<Rightarrow> run_string_step junk step b = Inl e
    | Inr text \<Rightarrow> \<exists>b'. run_string_step junk step b = Inr b' \<and> string_ok b' \<and> buffer_bytes b' = text"
  using string_step_implements [OF assms, of junk] text_step_ok [OF _ assms(2)] assms(1)
  by (auto simp: implements_def string_ok_def split: sum.splits)

definition sample_string :: cwhip_buffer where
  "sample_string = \<lparr>bu_length = 3, bu_data = map char_of [0x61, 0xc3, 0xa4, 0x7f :: nat]\<rparr>"

lemma sample_string_ok: "string_ok sample_string"
proof -
  have "valid_utf8 (buffer_bytes sample_string)" by code_simp
  then show ?thesis
    by (simp add: string_ok_def valid_utf8_text) (simp add: sample_string_def buffer_ok_def int64_max_def)
qed

theorem string_operations_refine_witness:
  "\<exists>b'. run_string_step (\<lambda>_. nul) (Insert_string (-2) None) sample_string = Inr b' \<and> string_ok b' \<and>
     map byte (buffer_bytes b') = [0x61, 0x61, 0xc3, 0xa4, 0xc3, 0xa4 :: nat]"
proof -
  have "text_step (Insert_string (-2) None) (buffer_bytes sample_string) =
      Inr (map char_of [0x61, 0x61, 0xc3, 0xa4, 0xc3, 0xa4 :: nat])"
    by (simp add: sample_string_def buffer_bytes_def other_text_def char_boundary_def continuation_byte_def int64_max_def)
  with string_operations_refine [OF sample_string_ok, of "Insert_string (-2) None" "\<lambda>_. nul"]
  show ?thesis by (auto simp: others_ok_def simp del: run_string_step.simps text_step.simps)
qed

end
