(* ===== verification/Runtime_Split.thy ===== *)
theory Runtime_Split
  imports Runtime_String_Spec Runtime_List
begin

text \<open>
  Slices, splitting and replacing in strings (\<open>src/RuntimeGc.c\<close>), and the conversions that copy a
  string: the results are valid UTF-8 and the pieces put together give the string again.
\<close>

subsection \<open>The loops\<close>

definition occurs_at :: "string \<Rightarrow> string \<Rightarrow> nat \<Rightarrow> bool" where
  "occurs_at needle data i \<longleftrightarrow> i + length needle \<le> length data \<and> take (length needle) (drop i data) = needle"

lemma find_bytes_Some:
  assumes "find_bytes data needle start = Some i" "needle \<noteq> []"
  shows "start \<le> i \<and> occurs_at needle data i \<and> (\<forall>j. start \<le> j \<and> j < i \<longrightarrow> \<not> occurs_at needle data j)"
proof -
  let ?last = "length data - length needle"
  have "length needle \<le> length data" "start \<le> ?last"
    and found: "List.find (\<lambda>i. take (length needle) (drop i data) = needle) [start..<?last + 1] = Some i"
    using assms by (auto simp: find_bytes_def split: if_splits)
  from found obtain k where k: "k < length [start..<?last + 1]" "i = [start..<?last + 1] ! k"
      "take (length needle) (drop i data) = needle"
      "\<And>j. j < k \<Longrightarrow> take (length needle) (drop ([start..<?last + 1] ! j) data) \<noteq> needle"
    by (auto simp: find_Some_iff)
  then have i: "i = start + k" "start + k < ?last + 1" by (simp_all del: upt_Suc)
  have "\<not> occurs_at needle data j" if "start \<le> j" "j < i" for j
    using k(4) [of "j - start"] that i by (simp add: occurs_at_def del: upt_Suc)
  moreover have "i + length needle \<le> length data" using i \<open>length needle \<le> length data\<close> by linarith
  ultimately show ?thesis using i k(3) by (simp add: occurs_at_def)
qed

lemma find_bytes_None:
  assumes "find_bytes data needle start = None" "needle \<noteq> []" "start \<le> j"
  shows "\<not> occurs_at needle data j"
proof
  assume j: "occurs_at needle data j"
  then have "length needle \<le> length data" "start \<le> length data - length needle" "j \<in> set [start..<length data - length needle + 1]"
    using assms(3) by (auto simp: occurs_at_def)
  with assms(1,2) j show False
    by (auto simp: find_bytes_def find_None_iff occurs_at_def simp del: upt_Suc split: if_splits)
qed

lemma find_bytes_measure:
  assumes "find_bytes data needle start = Some found" "needle \<noteq> []"
  shows "length data + 1 - (found + length needle) < length data + 1 - start"
proof -
  have "0 < length needle" using assms(2) by simp
  with find_bytes_Some [OF assms] show ?thesis unfolding occurs_at_def by linarith
qed

text \<open>The offsets at which the counting loops stop.\<close>

function occurrences :: "string \<Rightarrow> string \<Rightarrow> nat \<Rightarrow> nat list" where
  "occurrences data needle start =
     (if needle = [] then []
      else
        (case find_bytes data needle start of
           None \<Rightarrow> []
         | Some found \<Rightarrow> found # occurrences data needle (found + length needle)))"
  by pat_completeness auto
termination
  by (relation "measure (\<lambda>(data, needle, start). length data + 1 - start)") (auto dest: find_bytes_measure simp del: length_greater_0_conv)

declare occurrences.simps [simp del]

text \<open>The pieces between the occurrences.\<close>

function pieces :: "string \<Rightarrow> string \<Rightarrow> nat \<Rightarrow> string list" where
  "pieces data needle start =
     (if needle = [] then [drop start data]
      else
        (case find_bytes data needle start of
           None \<Rightarrow> [drop start data]
         | Some found \<Rightarrow> slice start found data # pieces data needle (found + length needle)))"
  by pat_completeness auto
termination
  by (relation "measure (\<lambda>(data, needle, start). length data + 1 - start)") (auto dest: find_bytes_measure simp del: length_greater_0_conv)

declare pieces.simps [simp del]

text \<open>The loop of \<open>split\<close> that fills the cells of the result.\<close>

fun split_loop :: "string \<Rightarrow> string \<Rightarrow> nat \<Rightarrow> nat \<Rightarrow> cwhip_buffer list run" where
  "split_loop data needle start 0 = Inl Out_of_bounds"
| "split_loop data needle start (Suc cells) =
     (let found = find_bytes data needle start;
          stop = (case found of None \<Rightarrow> length data | Some f \<Rightarrow> f) in
      bindE (read_block start (stop - start) data) (\<lambda>bytes.
      bindE (cwhip_string_new bytes) (\<lambda>s.
        case found of
          None \<Rightarrow> Inr [s]
        | Some f \<Rightarrow> bindE (split_loop data needle (f + length needle) cells) (\<lambda>rest. Inr (s # rest)))))"

definition cwhip_string_method_split :: "cwhip_buffer \<Rightarrow> string \<Rightarrow> cwhip_buffer list run" where
  "cwhip_string_method_split b separator =
     bindE (cwhip_string_bytes b) (\<lambda>data.
     then_run (raise_if (separator = []) ''String.split separator cannot be empty'')
     (let count = 1 + length (occurrences data separator 0) in
      then_run (raise_if (count > int64_max) ''String split result is too large'')
      (bindE (cwhip_gc_alloc_array (int count)) (\<lambda>result.
       split_loop data separator 0 (length (ar_values result))))))"

text \<open>The loop of \<open>replace\<close>; the first argument bounds the number of its rounds.\<close>

fun replace_loop :: "nat \<Rightarrow> string \<Rightarrow> string \<Rightarrow> string \<Rightarrow> nat \<Rightarrow> string \<Rightarrow> nat \<Rightarrow> (nat \<times> string \<times> nat) run" where
  "replace_loop 0 data target replacement source_position output output_position = Inl Looping"
| "replace_loop (Suc rounds) data target replacement source_position output output_position =
     (case find_bytes data target source_position of
        None \<Rightarrow> Inr (source_position, output, output_position)
      | Some found \<Rightarrow>
          bindE (read_block source_position (found - source_position) data) (\<lambda>front.
          bindE (write_block output_position front output) (\<lambda>output.
          bindE (write_block (output_position + length front) replacement output) (\<lambda>output.
            replace_loop rounds data target replacement (found + length target) output
              (output_position + length front + length replacement)))))"

definition replaced_length :: "nat \<Rightarrow> nat \<Rightarrow> nat \<Rightarrow> nat \<Rightarrow> nat run" where
  "replaced_length len matches target_length replacement_length =
     (if replacement_length \<ge> target_length then
        let growth = replacement_length - target_length in
        then_run (raise_if (len > int64_max \<or> (growth \<noteq> 0 \<and> matches > (int64_max - len) div growth)) ''String length out of bounds'')
          (Inr (len + matches * growth))
      else Inr (len - matches * (target_length - replacement_length)))"

definition cwhip_string_method_replace :: "(nat \<Rightarrow> char) \<Rightarrow> cwhip_buffer \<Rightarrow> string \<Rightarrow> string \<Rightarrow> cwhip_buffer run" where
  "cwhip_string_method_replace junk b target replacement =
     bindE (cwhip_string_bytes b) (\<lambda>data.
     then_run (raise_if (target = []) ''String.replace target cannot be empty'')
     (bindE (replaced_length (length data) (length (occurrences data target 0)) (length target) (length replacement)) (\<lambda>result_length.
      bindE (replace_loop (length data + 1) data target replacement 0 (map junk [0..<result_length]) 0)
        (\<lambda>(source_position, output, output_position).
      bindE (read_block source_position (length data - source_position) data) (\<lambda>tail.
      bindE (write_block output_position tail output) (\<lambda>output.
      bindE (read_block 0 (output_position + length tail) output) cwhip_string_new))))))"

subsection \<open>Copies\<close>

definition ascii_whitespace :: "char \<Rightarrow> bool" where
  "ascii_whitespace c \<longleftrightarrow> c = CHR '' '' \<or> (c \<ge> CHR 0x09 \<and> c \<le> CHR 0x0d)"

definition cwhip_string_method_trim :: "cwhip_buffer \<Rightarrow> cwhip_buffer run" where
  "cwhip_string_method_trim b =
     bindE (cwhip_string_bytes b) (\<lambda>data.
       cwhip_string_new (rev (dropWhile ascii_whitespace (rev (dropWhile ascii_whitespace data)))))"

definition convert_case :: "bool \<Rightarrow> char \<Rightarrow> char" where
  "convert_case uppercase c =
     (if uppercase then (if c \<ge> CHR ''a'' \<and> c \<le> CHR ''z'' then char_of (byte c - 32) else c)
      else (if c \<ge> CHR ''A'' \<and> c \<le> CHR ''Z'' then char_of (byte c + 32) else c))"

definition string_convert_ascii_case :: "cwhip_buffer \<Rightarrow> bool \<Rightarrow> cwhip_buffer run" where
  "string_convert_ascii_case b uppercase =
     bindE (cwhip_string_bytes b) (\<lambda>data. cwhip_string_new (map (convert_case uppercase) data))"

definition cwhip_string_method_to_upper :: "cwhip_buffer \<Rightarrow> cwhip_buffer run" where
  "cwhip_string_method_to_upper b = string_convert_ascii_case b True"

definition cwhip_string_method_to_lower :: "cwhip_buffer \<Rightarrow> cwhip_buffer run" where
  "cwhip_string_method_to_lower b = string_convert_ascii_case b False"

subsection \<open>Pieces\<close>

lemma pieces_nonempty: "pieces data needle start \<noteq> []"
  by (subst pieces.simps) (auto split: option.splits)

lemma occurs_split: "occurs_at needle data i \<Longrightarrow> data = take i data @ needle @ drop (i + length needle) data"
  unfolding occurs_at_def by (metis add.commute append_take_drop_id drop_drop)

lemma join_Cons: "ps \<noteq> [] \<Longrightarrow> join_with sep (p # ps) = p @ sep @ join_with sep ps"
  by (cases ps) auto

lemma length_pieces: "needle \<noteq> [] \<Longrightarrow> length (pieces data needle start) = 1 + length (occurrences data needle start)"
proof (induction data needle start rule: occurrences.induct)
  case (1 data needle start)
  then show ?case
    by (subst pieces.simps, subst occurrences.simps) (auto split: option.splits)
qed

lemma pieces_join:
  "needle \<noteq> [] \<Longrightarrow> start \<le> length data \<Longrightarrow> join_with needle (pieces data needle start) = drop start data"
proof (induction data needle start rule: pieces.induct)
  case (1 data needle start)
  show ?case
  proof (cases "find_bytes data needle start")
    case None
    with 1(2) show ?thesis by (subst pieces.simps) simp
  next
    case (Some f)
    from find_bytes_Some [OF this 1(2)] have f: "start \<le> f" "occurs_at needle data f" by auto
    then have "f + length needle \<le> length data" by (simp add: occurs_at_def)
    from 1(1) [OF 1(2) Some 1(2) this]
    have "join_with needle (pieces data needle start) = slice start f data @ needle @ drop (f + length needle) data"
      using 1(2) Some by (subst pieces.simps) (simp add: join_Cons pieces_nonempty)
    also have "\<dots> = drop start data"
    proof -
      have "drop start data = drop start (take f data) @ drop f data" using f(1)
        using \<open>f + length needle \<le> length data\<close> drop_append [of start "take f data" "drop f data"] by simp
      moreover have "drop f data = needle @ drop (f + length needle) data"
        using f(2) unfolding occurs_at_def by (metis add.commute append_take_drop_id drop_drop)
      ultimately show ?thesis by (simp add: slice_def drop_take)
    qed
    finally show ?thesis .
  qed
qed

lemma first_byte_boundary: "text_ok s \<Longrightarrow> s \<noteq> [] \<Longrightarrow> \<not> continuation_byte (byte (hd s))"
proof -
  assume s: "text_ok s" "s \<noteq> []"
  then have "map of_char s \<noteq> ([] :: nat list)" "utf8_text (map of_char s)" by (simp_all add: text_ok_def)
  then obtain cp rest where "scalar_value cp" "map of_char s = utf8_encode cp @ rest"
    by (auto simp: utf8_text_Cons_iff)
  with encode_bytes(1,2) show ?thesis using s(2) by (metis hd_append2 list.map_sel(1))
qed

text \<open>A text inside of a text begins and ends at boundaries.\<close>

lemma occurs_text:
  assumes "text_ok (drop start data)" "text_ok needle" "needle \<noteq> []" "start \<le> i" "occurs_at needle data i"
  shows "text_ok (slice start i data) \<and> text_ok (drop (i + length needle) data)"
proof -
  let ?s = "drop start data" and ?j = "i - start"
  have i: "i + length needle \<le> length data" using assms(5) by (simp add: occurs_at_def)
  have front: "take (length needle) (drop i data) = needle" using assms(5) by (simp add: occurs_at_def)
  have "data ! i = hd needle"
    using front assms(3) i by (metis add_leD1 hd_drop_conv_nth hd_take le_neq_implies_less length_greater_0_conv nat_add_left_cancel_le add.right_neutral not_le)
  then have "char_boundary ?s ?j"
    using first_byte_boundary [OF assms(2,3)] i assms(3,4) by (auto simp: char_boundary_def)
  from text_ok_cut [OF assms(1) this] have cut: "text_ok (slice start i data)" "text_ok (drop i data)"
    using assms(4) by (simp_all add: slice_def)
  have "drop i data = needle @ drop (i + length needle) data"
    using front by (metis add.commute append_take_drop_id drop_drop)
  with cut text_ok_prefix assms(2) show ?thesis by metis
qed

lemma pieces_ok:
  "needle \<noteq> [] \<Longrightarrow> text_ok needle \<Longrightarrow> text_ok (drop start data) \<Longrightarrow> start \<le> length data \<Longrightarrow>
     p \<in> set (pieces data needle start) \<Longrightarrow> text_ok p \<and> length p \<le> length data \<and> (\<forall>i. \<not> occurs_at needle p i)"
proof (induction data needle start rule: pieces.induct)
  case (1 data needle start)
  have inside: "occurs_at needle data (start + i)" if "occurs_at needle (slice start j data) i" "j \<le> length data" for i j
  proof -
    have fits: "i + length needle \<le> j - start"
      using that by (simp add: occurs_at_def slice_def)
    then have inner: "i + length needle \<le> length data - start" using that(2) by arith
    from fits have "min (length needle) (j - start - i) = length needle" by simp
    then have "take (length needle) (drop i (slice start j data)) = take (length needle) (drop (start + i) data)"
      by (simp add: slice_def drop_take add.commute)
    with that(1) inner 1(5) show ?thesis by (simp add: occurs_at_def)
  qed
  show ?case
  proof (cases "find_bytes data needle start")
    case None
    then have p: "p = slice start (length data) data" using 1(2,6) by (subst (asm) pieces.simps) (simp add: slice_def)
    with 1(4) None find_bytes_None [OF None 1(2)] inside [of "length data"] show ?thesis
      by (auto simp: slice_def)
  next
    case (Some f)
    from find_bytes_Some [OF this 1(2)] have f: "start \<le> f" "occurs_at needle data f"
        "\<And>j. start \<le> j \<Longrightarrow> j < f \<Longrightarrow> \<not> occurs_at needle data j" by auto
    then have len: "f + length needle \<le> length data" by (simp add: occurs_at_def)
    note halves = occurs_text [OF 1(4,3,2) f(1,2)]
    from 1(2,6) Some consider "p = slice start f data" | "p \<in> set (pieces data needle (f + length needle))"
      by (subst (asm) pieces.simps) auto
    then show ?thesis
    proof cases
      case 1
      have "\<not> occurs_at needle (slice start f data) i" for i
      proof
        assume occ: "occurs_at needle (slice start f data) i"
        then have "i + length needle \<le> f - start" by (simp add: occurs_at_def slice_def)
        with \<open>needle \<noteq> []\<close> have "start + i < f" by (cases needle) auto
        with inside [OF occ] f(3) [of "start + i"] len show False by simp
      qed
      with 1 halves show ?thesis by (simp add: slice_def)
    next
      case 2
      from "1.IH" [OF 1(2) Some 1(2,3) _ len 2] halves show ?thesis by blast
    qed
  qed
qed

lemma split_loop_pieces:
  "needle \<noteq> [] \<Longrightarrow> text_ok needle \<Longrightarrow> text_ok (drop start data) \<Longrightarrow> start \<le> length data \<Longrightarrow> length data \<le> int64_max \<Longrightarrow>
     cells = length (pieces data needle start) \<Longrightarrow>
     split_loop data needle start cells = Inr (map buffer_of (pieces data needle start))"
proof (induction data needle start arbitrary: cells rule: pieces.induct)
  case (1 data needle start)
  then obtain more where cells: "cells = Suc more" using pieces_nonempty by (metis length_0_conv not0_implies_Suc)
  show ?case
  proof (cases "find_bytes data needle start")
    case None
    then have "pieces data needle start = [drop start data]" using 1(2) by (subst pieces.simps) simp
    with None cells 1(4,5,6) show ?thesis
      by (simp add: read_block_simps cwhip_string_new_ok)
  next
    case (Some f)
    from find_bytes_Some [OF this 1(2)] have f: "start \<le> f" "occurs_at needle data f" by auto
    then have len: "f + length needle \<le> length data" by (simp add: occurs_at_def)
    note halves = occurs_text [OF 1(4,3,2) f]
    have pieces: "pieces data needle start = slice start f data # pieces data needle (f + length needle)"
      using 1(2) Some by (subst pieces.simps) simp
    with 1(7) cells have "more = length (pieces data needle (f + length needle))" by simp
    from "1.IH" [OF 1(2) Some 1(2,3) _ len 1(6) this] halves
    have rest: "split_loop data needle (f + length needle) more = Inr (map buffer_of (pieces data needle (f + length needle)))"
      by blast
    have "length (slice start f data) \<le> int64_max" using 1(6) by (simp add: slice_def)
    with halves rest Some cells pieces f(1) len show ?thesis
      by (simp add: read_block_simps cwhip_string_new_ok flip: slice_def)
  qed
qed

text \<open>The result is a new list, whose length is bounded before its memory is.\<close>

definition list_of_pieces :: "string list \<Rightarrow> cwhip_buffer list run" where
  "list_of_pieces ps =
     (if length ps > int64_max then Inl (Raised ''String split result is too large'')
      else if length ps > array_limit then Inl Aborted
      else Inr (map buffer_of ps))"

lemma split_pieces:
  assumes "string_ok b" "text_ok separator" "separator \<noteq> []"
  shows "cwhip_string_method_split b separator = list_of_pieces (pieces (buffer_bytes b) separator 0)"
proof -
  have ok: "buffer_ok b" "text_ok (drop 0 (buffer_bytes b))" using assms(1) by (simp_all add: string_ok_def)
  have "length (buffer_bytes b) \<le> int64_max" using ok(1) buffer_length_le by (simp add: length_buffer_bytes)
  from split_loop_pieces [OF assms(3,2) ok(2) _ this] assms(3) ok(1) show ?thesis
    by (simp add: cwhip_string_method_split_def cwhip_string_bytes_ok length_pieces raise_if_def Let_def
        list_of_pieces_def cwhip_gc_alloc_array_def abort_if_def nat_add_distrib del: split_loop.simps)
qed

subsection \<open>Replacing\<close>

lemma join_butlast: "ps \<noteq> [] \<Longrightarrow> join_with sep ps = concat (map (\<lambda>p. p @ sep) (butlast ps)) @ last ps"
  by (induction sep ps rule: join_with.induct) auto

lemma length_join: "ps \<noteq> [] \<Longrightarrow> length (join_with sep ps) + length sep = sum_list (map length ps) + length ps * length sep"
  by (induction sep ps rule: join_with.induct) auto

text \<open>What the loop writes before the last piece.\<close>

definition replaced_front :: "string \<Rightarrow> string list \<Rightarrow> string" where
  "replaced_front replacement ps = concat (map (\<lambda>p. p @ replacement) (butlast ps))"

lemma take_write:
  "offset + length xs \<le> length block \<Longrightarrow>
     \<exists>block'. write_block offset xs block = Inr block' \<and> length block' = length block \<and>
       take (offset + length xs) block' = take offset block @ xs"
  by (simp add: write_block_simps)

lemma replace_loop_front:
  "target \<noteq> [] \<Longrightarrow> sp \<le> length data \<Longrightarrow> length data + 1 - sp \<le> rounds \<Longrightarrow>
     pos + length (replaced_front replacement (pieces data target sp)) \<le> length block \<Longrightarrow>
     \<exists>sp' block'. replace_loop rounds data target replacement sp block pos =
         Inr (sp', block', pos + length (replaced_front replacement (pieces data target sp))) \<and>
       sp' \<le> length data \<and> drop sp' data = last (pieces data target sp) \<and> length block' = length block \<and>
       take (pos + length (replaced_front replacement (pieces data target sp))) block' =
         take pos block @ replaced_front replacement (pieces data target sp)"
proof (induction rounds arbitrary: sp block pos)
  case (Suc rounds)
  show ?case
  proof (cases "find_bytes data target sp")
    case None
    then have "pieces data target sp = [drop sp data]" using Suc.prems(1) by (subst pieces.simps) simp
    with None Suc.prems show ?thesis by (simp add: replaced_front_def)
  next
    case (Some f)
    from find_bytes_Some [OF this Suc.prems(1)] have f: "sp \<le> f" "f + length target \<le> length data"
      by (auto simp: occurs_at_def)
    let ?rest = "pieces data target (f + length target)" and ?front = "slice sp f data"
    have pieces: "pieces data target sp = ?front # ?rest" using Suc.prems(1) Some by (subst pieces.simps) simp
    have whole: "replaced_front replacement (?front # ?rest) = ?front @ replacement @ replaced_front replacement ?rest"
      by (simp add: replaced_front_def pieces_nonempty)
    then have total: "replaced_front replacement (pieces data target sp) = ?front @ replacement @ replaced_front replacement ?rest"
      by (simp only: pieces)
    have read: "read_block sp (f - sp) data = Inr ?front" using f by (simp add: read_block_simps slice_def)
    have "pos + length ?front \<le> length block" using Suc.prems(4) total by simp
    from take_write [OF this] obtain o1 where o1: "write_block pos ?front block = Inr o1" "length o1 = length block"
        "take (pos + length ?front) o1 = take pos block @ ?front" by blast
    have "pos + length ?front + length replacement \<le> length o1" using Suc.prems(4) total o1(2) by simp
    from take_write [OF this] obtain o2 where o2: "write_block (pos + length ?front) replacement o1 = Inr o2"
        "length o2 = length block" "take (pos + length ?front + length replacement) o2 = take pos block @ ?front @ replacement"
      using o1 by auto
    let ?pos = "pos + length ?front + length replacement"
    have step: "replace_loop (Suc rounds) data target replacement sp block pos =
        replace_loop rounds data target replacement (f + length target) o2 ?pos"
      using Some read o1(1) o2(1) by simp
    have "length data + 1 - (f + length target) \<le> rounds"
      using find_bytes_measure [OF Some Suc.prems(1)] Suc.prems(3) by linarith
    moreover have "?pos + length (replaced_front replacement ?rest) \<le> length o2" using Suc.prems(4) total o2(2) by simp
    ultimately obtain sp' block' where
        r: "replace_loop rounds data target replacement (f + length target) o2 ?pos =
          Inr (sp', block', ?pos + length (replaced_front replacement ?rest))" "sp' \<le> length data"
        "drop sp' data = last ?rest" "length block' = length o2"
        "take (?pos + length (replaced_front replacement ?rest)) block' = take ?pos o2 @ replaced_front replacement ?rest"
      using Suc.IH [OF Suc.prems(1) f(2)] by blast
    then show ?thesis
      unfolding step pieces whole using o2(2,3) by (simp add: pieces_nonempty add.assoc)
  qed
qed simp

lemma replaced_length_pieces:
  assumes "target \<noteq> []" "length data \<le> int64_max"
  shows "replaced_length (length data) (length (occurrences data target 0)) (length target) (length replacement) =
    (if length (join_with replacement (pieces data target 0)) > int64_max then Inl (Raised ''String length out of bounds'')
     else Inr (length (join_with replacement (pieces data target 0))))"
proof -
  let ?ps = "pieces data target 0" and ?m = "length (occurrences data target 0)"
  let ?t = "length target" and ?r = "length replacement" and ?s = "sum_list (map length (pieces data target 0))"
  have "length ?ps = ?m + 1" using length_pieces [OF assms(1)] by simp
  then have data: "length data = ?s + ?m * ?t" and joined: "length (join_with replacement ?ps) = ?s + ?m * ?r"
    using length_join [OF pieces_nonempty, of target data target 0] length_join [OF pieces_nonempty, of replacement data target 0]
      pieces_join [OF assms(1), of 0 data] by simp_all
  show ?thesis
  proof (cases "?r \<ge> ?t")
    case True
    then obtain g where g: "?r = ?t + g" by (metis le_iff_add)
    have grown: "length (join_with replacement ?ps) = length data + ?m * g"
      using joined data by (simp add: g algebra_simps)
    have "g \<noteq> 0 \<and> ?m > (int64_max - length data) div g \<longleftrightarrow> length data + ?m * g > int64_max"
    proof (cases "g = 0")
      case False
      then have "?m \<le> (int64_max - length data) div g \<longleftrightarrow> ?m * g \<le> int64_max - length data"
        by (simp add: less_eq_div_iff_mult_less_eq)
      with False assms(2) show ?thesis by linarith
    qed (use assms(2) in simp)
    with True assms(2) show ?thesis by (simp add: replaced_length_def g grown raise_if_def)
  next
    case False
    then obtain g where g: "?t = ?r + g" by (metis le_iff_add nat_le_linear)
    have "length (join_with replacement ?ps) = length data - ?m * g" "?m * g \<le> length data"
      using joined data by (simp_all add: g algebra_simps)
    with False assms(2) show ?thesis by (simp add: replaced_length_def g)
  qed
qed

lemma text_ok_concat: "(\<And>p. p \<in> set ps \<Longrightarrow> text_ok p) \<Longrightarrow> text_ok (concat ps)"
  by (induction ps) (auto intro: text_ok_append)

lemma text_ok_join: "(\<And>p. p \<in> set ps \<Longrightarrow> text_ok p) \<Longrightarrow> text_ok sep \<Longrightarrow> text_ok (join_with sep ps)"
  by (induction sep ps rule: join_with.induct) (auto intro: text_ok_append)

lemma replace_pieces:
  assumes "string_ok b" "text_ok target" "target \<noteq> []" "text_ok replacement"
  shows "cwhip_string_method_replace junk b target replacement =
    (if length (join_with replacement (pieces (buffer_bytes b) target 0)) > int64_max
     then Inl (Raised ''String length out of bounds'')
     else Inr (buffer_of (join_with replacement (pieces (buffer_bytes b) target 0))))"
proof -
  let ?data = "buffer_bytes b" and ?ps = "pieces (buffer_bytes b) target 0"
  let ?joined = "join_with replacement ?ps"
  have ok: "buffer_ok b" "text_ok (drop 0 ?data)" using assms(1) by (simp_all add: string_ok_def)
  have len: "length ?data \<le> int64_max" using ok(1) buffer_length_le by (simp add: length_buffer_bytes)
  note size = replaced_length_pieces [OF assms(3) len, of replacement]
  show ?thesis
  proof (cases "length ?joined > int64_max")
    case True
    with assms(3) ok(1) size show ?thesis
      by (simp add: cwhip_string_method_replace_def cwhip_string_bytes_ok raise_if_def del: replace_loop.simps)
  next
    case False
    let ?front = "replaced_front replacement ?ps" and ?block = "map junk [0..<length ?joined]"
    have joined: "?joined = ?front @ last ?ps" by (simp add: replaced_front_def join_butlast pieces_nonempty)
    have "0 + length ?front \<le> length ?block" by (simp add: joined)
    from replace_loop_front [OF assms(3) _ _ this, of "length ?data + 1"] obtain sp block' where
        r: "replace_loop (length ?data + 1) ?data target replacement 0 ?block 0 = Inr (sp, block', length ?front)"
          "sp \<le> length ?data" "drop sp ?data = last ?ps" "length block' = length ?joined" "take (length ?front) block' = ?front"
      by auto
    have tail: "read_block sp (length ?data - sp) ?data = Inr (last ?ps)"
      unfolding r(3) [symmetric] using r(2) by (simp add: read_block_simps)
    have "length ?front + length (last ?ps) \<le> length block'" using r(4) by (simp add: joined)
    from take_write [OF this] obtain b2 where
        b2: "write_block (length ?front) (last ?ps) block' = Inr b2" "length b2 = length ?joined"
          "take (length ?front + length (last ?ps)) b2 = ?joined"
      using r(4,5) joined by auto
    have "text_ok ?joined"
      using pieces_ok [OF assms(3,2) ok(2)] assms(4) by (intro text_ok_join) blast+
    moreover have "read_block 0 (length ?front + length (last ?ps)) b2 = Inr ?joined"
      using b2(2,3) joined by (simp add: read_block_simps)
    ultimately show ?thesis
      using False assms(3) ok(1) size r(1) tail b2(1)
      by (simp add: cwhip_string_method_replace_def cwhip_string_bytes_ok raise_if_def cwhip_string_new_ok del: replace_loop.simps)
  qed
qed

text \<open>
  C37: Splitting a string at another one gives a list of pieces of valid UTF-8 that do not contain
  the separator and are the string again when they are joined by it; if there are more pieces than a list
  can have, it raises an exception or, where only the memory of the list is too large, aborts.
  Replacing every occurrence joins the same pieces by the replacement, unless the result is too
  long; the computed length of the result is exact, so no write leaves its block.
\<close>

theorem split_and_replace:
  assumes "string_ok b" "text_ok target" "target \<noteq> []" "text_ok replacement"
  shows "\<exists>ps. cwhip_string_method_split b target = list_of_pieces ps \<and> join_with target ps = buffer_bytes b \<and>
    (\<forall>p \<in> set ps. text_ok p \<and> (\<forall>i. \<not> occurs_at target p i)) \<and>
    cwhip_string_method_replace junk b target replacement =
      (if length (join_with replacement ps) > int64_max then Inl (Raised ''String length out of bounds'')
       else Inr (buffer_of (join_with replacement ps)))"
proof (intro exI conjI)
  let ?ps = "pieces (buffer_bytes b) target 0"
  have ok: "text_ok (drop 0 (buffer_bytes b))" using assms(1) by (simp add: string_ok_def)
  show "cwhip_string_method_split b target = list_of_pieces ?ps" by (rule split_pieces [OF assms(1-3)])
  show "join_with target ?ps = buffer_bytes b" using pieces_join [OF assms(3), of 0] by simp
  show "\<forall>p \<in> set ?ps. text_ok p \<and> (\<forall>i. \<not> occurs_at target p i)"
    using pieces_ok [OF assms(3,2) ok] by blast
qed (rule replace_pieces [OF assms])

lemma sample_text_ok: "text_ok ''a''" "text_ok ''-''"
  by code_simp+

theorem split_and_replace_witness:
  "\<exists>ps. cwhip_string_method_split sample_string ''a'' = list_of_pieces ps \<and> join_with ''a'' ps = buffer_bytes sample_string \<and>
     (\<forall>p \<in> set ps. text_ok p \<and> (\<forall>i. \<not> occurs_at ''a'' p i))"
  using split_and_replace [OF sample_string_ok sample_text_ok(1) _ sample_text_ok(2), of "\<lambda>_. nul"] by blast

subsection \<open>Slices and copies\<close>

lemma string_slice_text:
  assumes "string_ok b"
  shows "cwhip_string_method_slice b first final =
    (let i = normalize_string_bound first (bu_length b); j = normalize_string_bound final (bu_length b) in
     if char_boundary (buffer_bytes b) i \<and> char_boundary (buffer_bytes b) j
     then Inr (buffer_of (slice i j (buffer_bytes b)))
     else Inl (Raised ''String range splits a UTF-8 character''))"
proof -
  define i j where "i = normalize_string_bound first (bu_length b)" and "j = normalize_string_bound final (bu_length b)"
  have ok: "buffer_ok b" "text_ok (buffer_bytes b)" using assms by (simp_all add: string_ok_def)
  have ij: "i \<le> bu_length b" "j \<le> bu_length b" by (simp_all add: i_def j_def normalize_string_bound_le)
  have read: "read_block i (if j > i then j - i else 0) (bu_data b) = Inr (slice i j (buffer_bytes b))"
  proof (cases "j > i")
    case True
    with ij buffer_length_le [OF ok(1)] show ?thesis
      by (simp add: read_block_simps slice_def buffer_bytes_def drop_take min_def)
  qed (simp add: read_block_def slice_def)
  have "cwhip_string_new (slice i j (buffer_bytes b)) = Inr (buffer_of (slice i j (buffer_bytes b)))"
    if "char_boundary (buffer_bytes b) i" "char_boundary (buffer_bytes b) j"
  proof (rule cwhip_string_new_ok)
    show "text_ok (slice i j (buffer_bytes b))"
      using text_ok_slice [OF ok(2) that] by (cases "i \<le> j") (simp_all add: slice_def)
    show "length (slice i j (buffer_bytes b)) \<le> int64_max"
      using buffer_length_le [OF ok(1)] length_buffer_bytes [OF ok(1)] by (auto simp: slice_def min_def)
  qed
  with read show ?thesis
    unfolding cwhip_string_method_slice_def Let_def i_def [symmetric] j_def [symmetric] boundary_bytes [OF ok(1)]
    by (auto simp: raise_if_def)
qed

lemma ascii_char: "byte c < 128 \<Longrightarrow> text_ok (c # s) \<longleftrightarrow> text_ok s"
proof -
  assume c: "byte c < 128"
  then have "utf8_encode (byte c) = [byte c]" "scalar_value (byte c)" by (simp_all add: utf8_encode_def scalar_value_def)
  then have "text_ok [c]" using utf8_text_encode [of "byte c"] by (simp add: text_ok_def)
  then show ?thesis using text_ok_append [of "[c]" s] text_ok_prefix [of "[c]" s] by auto
qed

lemma ascii_whitespace_byte: "ascii_whitespace c \<Longrightarrow> byte c < 128"
  by (auto simp: ascii_whitespace_def char_le_iff)

lemma text_ok_dropWhile: "text_ok s \<Longrightarrow> text_ok (dropWhile ascii_whitespace s)"
  by (induction s) (auto simp: ascii_whitespace_byte ascii_char)

lemma text_ok_drop_last: "byte c < 128 \<Longrightarrow> text_ok (s @ [c]) \<Longrightarrow> text_ok s"
  using text_ok_cut [of "s @ [c]" "length s"] by (auto simp: char_boundary_def continuation_byte_def nth_append)

lemma text_ok_trim_end: "text_ok s \<Longrightarrow> text_ok (rev (dropWhile ascii_whitespace (rev s)))"
proof (induction s rule: rev_induct)
  case (snoc c s)
  then show ?case using text_ok_drop_last [OF ascii_whitespace_byte] by auto
qed simp

lemma string_trim_text:
  assumes "string_ok b"
  shows "cwhip_string_method_trim b =
    Inr (buffer_of (rev (dropWhile ascii_whitespace (rev (dropWhile ascii_whitespace (buffer_bytes b))))))"
proof -
  let ?s = "rev (dropWhile ascii_whitespace (rev (dropWhile ascii_whitespace (buffer_bytes b))))"
  have ok: "buffer_ok b" "text_ok (buffer_bytes b)" using assms by (simp_all add: string_ok_def)
  have "length ?s \<le> length (buffer_bytes b)"
    using length_dropWhile_le [of ascii_whitespace "rev (dropWhile ascii_whitespace (buffer_bytes b))"]
      length_dropWhile_le [of ascii_whitespace "buffer_bytes b"] by simp
  then have "cwhip_string_new ?s = Inr (buffer_of ?s)"
    using text_ok_trim_end [OF text_ok_dropWhile [OF ok(2)]] length_buffer_bytes [OF ok(1)] buffer_length_le [OF ok(1)]
    by (intro cwhip_string_new_ok) auto
  with ok(1) show ?thesis by (simp add: cwhip_string_method_trim_def cwhip_string_bytes_ok)
qed

lemma convert_case_ascii: "byte c < 128 \<longleftrightarrow> byte (convert_case uppercase c) < 128"
  "\<not> byte c < 128 \<Longrightarrow> convert_case uppercase c = c"
  by (auto simp: convert_case_def char_le_iff)

lemma text_ok_encode_append: "scalar_value cp \<Longrightarrow> map of_char s = utf8_encode cp \<Longrightarrow> text_ok (s @ t) \<longleftrightarrow> text_ok t"
  using text_ok_append [of s t] text_ok_prefix [of s t] utf8_text_encode by (auto simp: text_ok_def)

text \<open>A character is an ASCII character or consists of bytes from 128.\<close>

lemma encode_cases: "scalar_value cp \<Longrightarrow> cp < 128 \<and> utf8_encode cp = [cp] \<or> (\<forall>b \<in> set (utf8_encode cp). 128 \<le> b)"
  by (auto simp: utf8_encode_def)

lemma text_ok_convert: "text_ok s \<Longrightarrow> text_ok (map (convert_case uppercase) s)"
proof -
  assume "text_ok s"
  then obtain cps where "\<forall>cp \<in> set cps. scalar_value cp" "map of_char s = concat (map utf8_encode cps)"
    by (auto simp: text_ok_def utf8_text_def)
  then show ?thesis
  proof (induction cps arbitrary: s)
    case (Cons cp cps)
    define u v where "u = take (length (utf8_encode cp)) s" and "v = drop (length (utf8_encode cp)) s"
    have s: "s = u @ v" by (simp add: u_def v_def)
    have uv: "map of_char u = utf8_encode cp" "map of_char v = concat (map utf8_encode cps)"
      using Cons.prems(2) by (simp_all add: u_def v_def flip: take_map drop_map)
    have v: "text_ok (map (convert_case uppercase) v)" using Cons uv(2) by simp
    have cp: "scalar_value cp" using Cons.prems(1) by simp
    from encode_cases [OF this] show ?case
    proof
      assume ascii: "cp < 128 \<and> utf8_encode cp = [cp]"
      with uv(1) obtain c where "u = [c]" "byte c < 128" by auto
      with s v convert_case_ascii(1) [of c] show ?thesis by (simp add: ascii_char)
    next
      assume "\<forall>b \<in> set (utf8_encode cp). 128 \<le> b"
      then have "\<forall>c \<in> set u. \<not> byte c < 128" unfolding uv(1) [symmetric] by auto
      then have "map (convert_case uppercase) u = u" by (intro map_idI) (simp add: convert_case_ascii(2))
      with s v text_ok_encode_append [OF cp uv(1)] show ?thesis by simp
    qed
  qed simp
qed

lemma string_convert_text:
  assumes "string_ok b"
  shows "string_convert_ascii_case b uppercase = Inr (buffer_of (map (convert_case uppercase) (buffer_bytes b)))"
proof -
  have ok: "buffer_ok b" "text_ok (buffer_bytes b)" using assms by (simp_all add: string_ok_def)
  have "cwhip_string_new (map (convert_case uppercase) (buffer_bytes b)) =
      Inr (buffer_of (map (convert_case uppercase) (buffer_bytes b)))"
    using text_ok_convert [OF ok(2)] length_buffer_bytes [OF ok(1)] buffer_length_le [OF ok(1)]
    by (intro cwhip_string_new_ok) auto
  with ok(1) show ?thesis by (simp add: string_convert_ascii_case_def cwhip_string_bytes_ok)
qed

end
