(* ===== verification/Runtime_Number.thy ===== *)
theory Runtime_Number
  imports Runtime_String
begin

text \<open>
  The conversion of strings to numbers (\<open>src/RuntimeGc.c\<close>) is exact: the checks against the
  limit are made before the 64-bit number can wrap.
\<close>

definition decimal_from :: "nat \<Rightarrow> string \<Rightarrow> nat" where
  "decimal_from n ds = foldl (\<lambda>n c. 10 * n + digit_value c) n ds"

lemma decimal_from_simps [simp]: "decimal_from n [] = n" "decimal_from n (d # ds) = decimal_from (10 * n + digit_value d) ds"
  by (simp_all add: decimal_from_def)

lemma decimal_from_ge: "n \<le> decimal_from n ds"
proof (induction ds arbitrary: n)
  case (Cons d ds)
  from Cons.IH [of "10 * n + digit_value d"] show ?case by simp
qed simp

lemma of_decimal_from: "of_decimal ds = decimal_from 0 ds"
  by (simp add: of_decimal_def decimal_from_def)

text \<open>One digit more, at the width of the number.\<close>

lemma digit_step:
  fixes limit magnitude :: "64 word"
  assumes "is_digit d" "9 \<le> unat limit" "unat magnitude \<le> unat limit"
  defines "addend \<equiv> of_nat (byte d - byte (CHR ''0''))"
  shows "magnitude > (limit - addend) div 10 \<longleftrightarrow> 10 * unat magnitude + digit_value d > unat limit"
    and "10 * unat magnitude + digit_value d \<le> unat limit \<Longrightarrow>
      unat (magnitude * 10 + addend) = 10 * unat magnitude + digit_value d"
proof -
  have d: "digit_value d \<le> 9" using assms(1) by (simp add: digit_value_def is_digit_byte) arith
  have addend: "unat addend = digit_value d"
    using d by (simp add: addend_def digit_value_def unat_of_nat)
  have "addend \<le> limit" using d assms(2) by (simp add: word_le_nat_alt addend)
  then have "unat ((limit - addend) div 10) = (unat limit - digit_value d) div 10"
    by (simp add: unat_div unat_sub addend)
  then show "magnitude > (limit - addend) div 10 \<longleftrightarrow> 10 * unat magnitude + digit_value d > unat limit"
    using d assms(2) by (simp add: word_less_nat_alt) arith
  assume fits: "10 * unat magnitude + digit_value d \<le> unat limit"
  have "unat limit < 2 ^ 64" using unsigned_less [of limit, where 'a = nat] by simp
  with fits have "unat magnitude * 10 + digit_value d < 2 ^ 64" by linarith
  then show "unat (magnitude * 10 + addend) = 10 * unat magnitude + digit_value d"
    by (simp add: unat_word_ariths addend mod_add_left_eq)
qed

lemma parse_digits_exact:
  "9 \<le> unat limit \<Longrightarrow> unat magnitude \<le> unat limit \<Longrightarrow> list_all is_digit ds \<Longrightarrow>
     (if decimal_from (unat magnitude) ds \<le> unat limit
      then \<exists>w. parse_digits limit invalid out_of_range ds magnitude = Inr w \<and> unat w = decimal_from (unat magnitude) ds
      else parse_digits limit invalid out_of_range ds magnitude = Inl (Raised out_of_range))"
proof (induction ds arbitrary: magnitude)
  case (Cons d ds)
  have d: "is_digit d" using Cons.prems(3) by simp
  have ok: "\<not> (d < CHR ''0'' \<or> d > CHR ''9'')" using d by (simp add: is_digit_def between_def not_less)
  define addend :: "64 word" where "addend = of_nat (byte d - byte (CHR ''0''))"
  note step = digit_step [OF d Cons.prems(1,2), folded addend_def]
  have run: "parse_digits limit invalid out_of_range (d # ds) magnitude =
      then_run (raise_if (magnitude > (limit - addend) div 10) out_of_range)
        (parse_digits limit invalid out_of_range ds (magnitude * 10 + addend))"
    unfolding parse_digits.simps Let_def addend_def using ok by (simp only: raise_if_simps bindE_simps simp_thms)
  show ?case
  proof (cases "10 * unat magnitude + digit_value d \<le> unat limit")
    case True
    note ih = Cons.IH [of "magnitude * 10 + addend", unfolded step(2) [OF True]]
    from True step(1) ih Cons.prems show ?thesis unfolding run by (simp add: raise_if_def)
  next
    case False
    then have "\<not> decimal_from (unat magnitude) (d # ds) \<le> unat limit"
      using decimal_from_ge [of "10 * unat magnitude + digit_value d" ds] by simp
    with False step(1) show ?thesis unfolding run by (simp add: raise_if_def)
  qed
qed simp

lemma parse_digits_invalid:
  "\<not> list_all is_digit ds \<Longrightarrow> \<exists>m. parse_digits limit invalid out_of_range ds magnitude = Inl (Raised m)"
proof (induction ds arbitrary: magnitude)
  case (Cons d ds)
  show ?case
  proof (cases "is_digit d")
    case True
    then have "\<not> (d < CHR ''0'' \<or> d > CHR ''9'')" by (simp add: is_digit_def between_def not_less)
    with True Cons show ?thesis by (auto simp: raise_if_def Let_def)
  qed (auto simp: raise_if_def is_digit_def between_def)
qed simp

text \<open>The value of a text: an optional sign and at least one digit.\<close>

definition signed_decimal :: "string \<Rightarrow> int option" where
  "signed_decimal s =
     (let ds = (if s \<noteq> [] \<and> hd s \<in> {CHR ''+'', CHR ''-''} then tl s else s) in
      if ds \<noteq> [] \<and> list_all is_digit ds
      then Some (if hd s = CHR ''-'' then - int (of_decimal ds) else int (of_decimal ds)) else None)"

text \<open>
  C38: A string is converted to the signed 64-bit integer that it denotes. A number outside of
  the range, the smallest integer being inside, and any other text raise an exception.
\<close>

theorem cwhip_string_to_int_exact:
  "case signed_decimal s of
     Some v \<Rightarrow>
       if - (2 ^ 63) \<le> v \<and> v < 2 ^ 63 then \<exists>w. cwhip_string_to_int s = Inr w \<and> sint w = v
       else cwhip_string_to_int s = Inl (Raised ''string integer value is out of range'')
   | None \<Rightarrow> \<exists>m. cwhip_string_to_int s = Inl (Raised m)"
proof -
  define negative where "negative \<longleftrightarrow> hd s = CHR ''-''"
  define ds where "ds = (if hd s = CHR ''+'' \<or> hd s = CHR ''-'' then tl s else s)"
  define limit :: "64 word" where "limit = (if negative then 0x7fffffffffffffff + 1 else 0x7fffffffffffffff)"
  let ?digits = "parse_digits limit ''string does not contain a valid integer'' ''string integer value is out of range'' ds 0"
  have limit: "unat limit = (if negative then 2 ^ 63 else 2 ^ 63 - 1)" by (simp add: limit_def)
  have run: "cwhip_string_to_int s =
      then_run (raise_if (s = []) ''string does not contain a valid integer'')
      (then_run (raise_if (ds = []) ''string does not contain a valid integer'')
      (bindE ?digits (\<lambda>magnitude.
         if \<not> negative then Inr magnitude
         else if magnitude = 0x7fffffffffffffff + 1 then Inr 0x8000000000000000
         else Inr (- magnitude))))"
    unfolding cwhip_string_to_int_def Let_def ds_def limit_def negative_def by (rule refl)
  show ?thesis
  proof (cases "s \<noteq> [] \<and> ds \<noteq> [] \<and> list_all is_digit ds")
    case False
    then have "signed_decimal s = None" by (auto simp: signed_decimal_def ds_def Let_def)
    moreover have "\<exists>m. cwhip_string_to_int s = Inl (Raised m)"
    proof (cases "s = [] \<or> ds = []")
      case empty: False
      with False parse_digits_invalid [of ds limit] obtain m where "?digits = Inl (Raised m)" by blast
      with empty show ?thesis by (simp add: run raise_if_def)
    qed (auto simp: run raise_if_def)
    ultimately show ?thesis by simp
  next
    case True
    then have v: "signed_decimal s = Some (if negative then - int (of_decimal ds) else int (of_decimal ds))"
      by (auto simp: signed_decimal_def ds_def negative_def Let_def)
    note exact = parse_digits_exact [of limit 0 ds "''string does not contain a valid integer''"
        "''string integer value is out of range''"]
    show ?thesis
    proof (cases "of_decimal ds \<le> unat limit")
      case range: True
      with exact True limit obtain w where w: "?digits = Inr w" "unat w = of_decimal ds"
        by (auto simp: of_decimal_from split: if_splits)
      show ?thesis
      proof (cases negative)
        case False
        with w(2) range limit have "uint w < 2 ^ 63" "sint w = int (of_decimal ds)"
          by (simp_all add: uint_nat sint_uint signed_take_bit_int_eq_self)
        with False v w(1) True run show ?thesis by (simp add: raise_if_def uint_nat w(2))
      next
        case neg: True
        have small: "of_decimal ds \<le> 2 ^ 63" using range limit neg by simp
        have "sint (if w = 0x7fffffffffffffff + 1 then 0x8000000000000000 else - w) = - int (of_decimal ds)"
        proof (cases "of_decimal ds = 2 ^ 63")
          case True
          with w(2) have "w = 0x8000000000000000" by (simp add: word_eq_iff_unsigned unsigned_word_eqI)
          with True show ?thesis by simp
        next
          case False
          with small w(2) have n: "of_decimal ds < 2 ^ 63" "unat w < 2 ^ 63" by simp_all
          then have "sint w = int (of_decimal ds)"
            by (simp add: sint_uint uint_nat w(2) signed_take_bit_int_eq_self)
          then have "sint (- w) = - int (of_decimal ds)"
            using n(1) by (simp add: sint_word_ariths signed_take_bit_int_eq_self)
          moreover have "w \<noteq> 0x7fffffffffffffff + 1" using n(2) by auto
          ultimately show ?thesis by simp
        qed
        with neg v w(1) True run small show ?thesis by (auto simp: raise_if_def)
      qed
    next
      case False
      with exact True limit have "?digits = Inl (Raised ''string integer value is out of range'')"
        by (auto simp: of_decimal_from split: if_splits)
      with False True v limit run show ?thesis by (auto simp: raise_if_def)
    qed
  qed
qed

text \<open>The conversion to an unsigned number has no minus sign and the larger limit.\<close>

lemma cwhip_string_to_unsigned_exact:
  "s \<noteq> [] \<Longrightarrow> ds = (if hd s = CHR ''+'' then tl s else s) \<Longrightarrow> ds \<noteq> [] \<Longrightarrow> list_all is_digit ds \<Longrightarrow>
     (if of_decimal ds < 2 ^ 64 then \<exists>w. cwhip_string_to_unsigned s = Inr w \<and> unat w = of_decimal ds
      else cwhip_string_to_unsigned s = Inl (Raised ''string unsigned integer value is out of range''))"
proof -
  assume s: "s \<noteq> []" "ds = (if hd s = CHR ''+'' then tl s else s)" "ds \<noteq> []" "list_all is_digit ds"
  from s(3,4) have "is_digit (hd ds)" by (cases ds) simp_all
  then have "hd s \<noteq> CHR ''-''" using s(1,2) by (cases "hd s = CHR ''+''") (auto simp: is_digit_def between_def less_eq_char_def)
  then have run: "cwhip_string_to_unsigned s = parse_digits 0xffffffffffffffff
      ''string does not contain a valid unsigned integer'' ''string unsigned integer value is out of range'' ds 0"
    using s(1-3) by (simp add: cwhip_string_to_unsigned_def raise_if_def Let_def)
  have "unat (0xffffffffffffffff :: 64 word) = 2 ^ 64 - 1" by simp
  with parse_digits_exact [of "0xffffffffffffffff" 0 ds "''string does not contain a valid unsigned integer''"
      "''string unsigned integer value is out of range''"] s(4)
  show ?thesis unfolding run of_decimal_from by (auto split: if_splits)
qed

end
