(* ===== verification/Runtime_Heap.thy ===== *)
theory Runtime_Heap
  imports Runtime_List
begin

text \<open>
  The heap of managed objects, the root frames of the threads and the collector of
  \<open>src/RuntimeGc.c\<close>. A linked list is a list with its first node in front, a node is identified by
  the address of its object, and a pointer to an array with its length is a list.
\<close>

subsection \<open>Metadata and objects\<close>

text \<open>
  Of \<open>CwhipClassMeta\<close> the members that the runtime reads. \<open>me_finalize\<close> tells whether there is a
  finalizer; its code belongs to the compiled program and is an argument of the collector.
\<close>

record class_name =
  cn_name :: string
  cn_offset :: nat

record class_meta =
  me_name :: string
  me_object_size :: nat
  me_reference_field_offsets :: "nat list"
  me_finalize :: bool
  me_dynamic_reference_field_offsets :: "nat list"
  me_base_classes :: "class_name list"

definition plain_metadata :: "string \<Rightarrow> nat \<Rightarrow> class_meta" where
  "plain_metadata name bytes = \<lparr>me_name = name, me_object_size = bytes, me_reference_field_offsets = [],
     me_finalize = False, me_dynamic_reference_field_offsets = [], me_base_classes = []\<rparr>"

definition array_metadata :: class_meta where "array_metadata = plain_metadata ''list'' 32"
definition map_metadata :: class_meta where "map_metadata = plain_metadata ''dict'' 48"
definition buffer_metadata :: class_meta where "buffer_metadata = plain_metadata ''buffer'' 32"

text \<open>An object of a class is its metadata pointer and the words at its offsets.\<close>

datatype object_content =
    Array_object cwhip_array
  | Map_object cwhip_map
  | Plain_object "class_meta option" "nat \<Rightarrow> 64 word"

record heap_node =
  hn_object :: nat
  hn_allocation_size :: nat
  hn_content :: object_content
  hn_is_buffer :: bool
  hn_marked :: bool
  hn_destroyed :: bool
  hn_destroying :: bool
  hn_constructing :: bool

fun content_metadata :: "object_content \<Rightarrow> class_meta option" where
  "content_metadata (Array_object a) = Some array_metadata"
| "content_metadata (Map_object m) = Some map_metadata"
| "content_metadata (Plain_object metadata words) = metadata"

definition valid_reference_offset :: "class_meta \<Rightarrow> nat \<Rightarrow> bool" where
  "valid_reference_offset metadata offset \<longleftrightarrow>
     me_object_size metadata \<ge> 8 \<and> offset \<ge> 8 \<and> offset \<le> me_object_size metadata - 8 \<and> offset mod 8 = 0"

definition valid_dynamic_offset :: "class_meta \<Rightarrow> nat \<Rightarrow> bool" where
  "valid_dynamic_offset metadata offset \<longleftrightarrow> valid_reference_offset metadata offset \<and> offset \<ge> 16"

definition find_object :: "heap_node list \<Rightarrow> nat \<Rightarrow> heap_node option" where
  "find_object heap object = List.find (\<lambda>node. hn_object node = object) heap"

definition find_containing_object :: "heap_node list \<Rightarrow> nat \<Rightarrow> heap_node option" where
  "find_containing_object heap object =
     List.find (\<lambda>node. \<not> object < hn_object node \<and> object - hn_object node < hn_allocation_size node) heap"

definition update_node :: "nat \<Rightarrow> (heap_node \<Rightarrow> heap_node) \<Rightarrow> heap_node list \<Rightarrow> heap_node list" where
  "update_node object f heap = map (\<lambda>node. if hn_object node = object then f node else node) heap"

subsection \<open>Threads\<close>

text \<open>
  A root frame holds the addresses of the variables that refer to objects and, for values of
  dynamic type, the addresses of their tags. The address 0 is no tag.
\<close>

record root_frame =
  rf_address :: nat
  rf_count :: nat
  rf_slots :: "nat list option"
  rf_tags :: "nat list option"

record trace_entry =
  te_name :: string
  te_file :: string
  te_line :: nat
  te_column :: nat

text \<open>
  The frames of exception handlers are in the storage of the compiled functions. The members
  that save a pointer to the head of a list hold the address of its first element.
\<close>

record exception_frame =
  ef_previous :: nat
  ef_saved_roots :: nat
  ef_saved_destroys :: nat
  ef_saved_constructions :: nat
  ef_saved_trace :: nat
  ef_message :: string
  ef_file :: string
  ef_line :: nat
  ef_column :: nat
  ef_exception_object :: nat
  ef_exception_base :: nat
  ef_has_exception :: bool
  ef_trace :: "trace_entry list option"

definition zero_frame :: exception_frame where
  "zero_frame = \<lparr>ef_previous = 0, ef_saved_roots = 0, ef_saved_destroys = 0, ef_saved_constructions = 0,
     ef_saved_trace = 0, ef_message = [], ef_file = [], ef_line = 0, ef_column = 0, ef_exception_object = 0,
     ef_exception_base = 0, ef_has_exception = False, ef_trace = None\<rparr>"

text \<open>The thread-local variables of the runtime.\<close>

record thread_state =
  th_root_frame :: "root_frame list"
  th_destroy_stack :: "nat list"
  th_construction_stack :: "nat list"
  th_active_exception :: nat
  th_active_trace :: "(nat \<times> trace_entry) list"
  th_collecting :: bool
  th_running_destructor :: bool
  th_registered :: bool
  th_gil_held :: bool

record callback_context =
  cc_address :: nat
  cc_callback :: nat
  cc_owner :: nat
  cc_in_flight :: nat
  cc_released :: bool

record callback_transfer =
  ct_address :: nat
  ct_callback :: nat

text \<open>
  The state of the process; \<open>gs_memory\<close> is the memory of the variables of the threads, and \<open>gs_gil\<close>
  the thread that holds the global lock.
\<close>

record gc_state =
  gs_heap :: "heap_node list"
  gs_object_count :: nat
  gs_memory :: "nat \<Rightarrow> 64 word"
  gs_exception_frames :: "nat \<Rightarrow> exception_frame"
  gs_gil :: "nat option"
  gs_thread_registry :: "nat list"
  gs_threads :: "nat \<Rightarrow> thread_state"
  gs_callback_contexts :: "callback_context list"
  gs_callback_transfers :: "callback_transfer list"

definition on_thread :: "nat \<Rightarrow> (thread_state \<Rightarrow> thread_state) \<Rightarrow> gc_state \<Rightarrow> gc_state" where
  "on_thread self f s = s\<lparr>gs_threads := (gs_threads s)(self := f (gs_threads s self))\<rparr>"

definition on_node :: "nat \<Rightarrow> (heap_node \<Rightarrow> heap_node) \<Rightarrow> gc_state \<Rightarrow> gc_state" where
  "on_node object f s = s\<lparr>gs_heap := update_node object f (gs_heap s)\<rparr>"

subsection \<open>Root frames\<close>

definition gc_push :: "nat \<Rightarrow> nat \<Rightarrow> nat list option \<Rightarrow> nat list option \<Rightarrow> nat \<Rightarrow> gc_state \<Rightarrow> bool \<times> gc_state" where
  "gc_push self frame slots tags count s =
     (if frame = 0 \<or> (count \<noteq> 0 \<and> slots = None) then (False, s)
      else if list_ex (\<lambda>active. rf_address active = frame) (th_root_frame (gs_threads s self)) then (False, s)
      else if list_ex (\<lambda>slot. slot = 0) (take count (case slots of None \<Rightarrow> [] | Some l \<Rightarrow> l)) then (False, s)
      else (True, on_thread self (th_root_frame_update
        (\<lambda>frames. \<lparr>rf_address = frame, rf_count = count, rf_slots = slots, rf_tags = tags\<rparr> # frames)) s))"

definition cwhip_gc_push :: "nat \<Rightarrow> nat \<Rightarrow> nat list option \<Rightarrow> nat \<Rightarrow> gc_state \<Rightarrow> bool \<times> gc_state" where
  "cwhip_gc_push self frame slots count s = gc_push self frame slots None count s"

definition cwhip_gc_pop :: "nat \<Rightarrow> nat \<Rightarrow> gc_state \<Rightarrow> bool \<times> gc_state" where
  "cwhip_gc_pop self frame s =
     (case th_root_frame (gs_threads s self) of
        [] \<Rightarrow> (False, s)
      | active # rest \<Rightarrow>
          if frame = 0 \<or> rf_address active \<noteq> frame then (False, s)
          else (True, on_thread self (th_root_frame_update (\<lambda>_. rest)) s))"

definition or_abort :: "bool \<times> gc_state \<Rightarrow> gc_state run" where
  "or_abort r = (if fst r then Inr (snd r) else Inl Aborted)"

definition cwhip_gc_push_or_abort :: "nat \<Rightarrow> nat \<Rightarrow> nat list option \<Rightarrow> nat \<Rightarrow> gc_state \<Rightarrow> gc_state run" where
  "cwhip_gc_push_or_abort self frame slots count s = or_abort (cwhip_gc_push self frame slots count s)"

definition cwhip_gc_push_tagged_or_abort ::
  "nat \<Rightarrow> nat \<Rightarrow> nat list option \<Rightarrow> nat list option \<Rightarrow> nat \<Rightarrow> gc_state \<Rightarrow> gc_state run" where
  "cwhip_gc_push_tagged_or_abort self frame slots tags count s = or_abort (gc_push self frame slots tags count s)"

definition cwhip_gc_pop_or_abort :: "nat \<Rightarrow> nat \<Rightarrow> gc_state \<Rightarrow> gc_state run" where
  "cwhip_gc_pop_or_abort self frame s = or_abort (cwhip_gc_pop self frame s)"

subsection \<open>Marking\<close>

fun fold_run :: "('a \<Rightarrow> 's \<Rightarrow> 's run) \<Rightarrow> 'a list \<Rightarrow> 's \<Rightarrow> 's run" where
  "fold_run f [] s = Inr s"
| "fold_run f (x # xs) s = bindE (f x s) (fold_run f xs)"

text \<open>
  The heap with its marks and the worklist, an array of \<open>capacity\<close> cells of which the last one in
  use is the head of the list.
\<close>

type_synonym marking = "heap_node list \<times> nat list"

definition mark_object :: "nat \<Rightarrow> nat \<Rightarrow> marking \<Rightarrow> marking run" where
  "mark_object capacity object m =
     (if object = 0 then Inr m
      else
        (case find_containing_object (fst m) object of
           None \<Rightarrow> Inr m
         | Some node \<Rightarrow>
             if hn_marked node then Inr m
             else if length (snd m) \<ge> capacity then Inl Out_of_bounds
             else Inr (update_node (hn_object node) (hn_marked_update (\<lambda>_. True)) (fst m), hn_object node # snd m)))"

definition cell :: "nat list option \<Rightarrow> nat \<Rightarrow> nat run" where
  "cell cells index =
     (case cells of None \<Rightarrow> Inl Aborted | Some l \<Rightarrow> if index < length l then Inr (l ! index) else Inl Out_of_bounds)"

text \<open>The pointer in a slot of a frame; \<open>0\<close> when its tag says that it is no reference.\<close>

definition slot_pointer :: "(nat \<Rightarrow> 64 word) \<Rightarrow> root_frame \<Rightarrow> nat \<Rightarrow> nat run" where
  "slot_pointer memory frame index =
     bindE (cell (rf_slots frame) index) (\<lambda>slot.
     then_run (abort_if (slot = 0))
     (bindE (if rf_tags frame = None then Inr 0 else cell (rf_tags frame) index) (\<lambda>tag.
       Inr (if tag \<noteq> 0 \<and> \<not> dynamic_value_is_gc_reference (memory tag) then 0 else unat (memory slot)))))"

definition mark_frame :: "(nat \<Rightarrow> 64 word) \<Rightarrow> nat \<Rightarrow> root_frame \<Rightarrow> marking \<Rightarrow> marking run" where
  "mark_frame memory capacity frame m =
     fold_run (\<lambda>index m. bindE (slot_pointer memory frame index) (\<lambda>object. mark_object capacity object m))
       [0..<rf_count frame] m"

definition mark_roots :: "gc_state \<Rightarrow> nat \<Rightarrow> marking \<Rightarrow> marking run" where
  "mark_roots s capacity m =
     bindE (fold_run (\<lambda>transfer. mark_object capacity (ct_callback transfer)) (gs_callback_transfers s) m) (\<lambda>m.
     bindE (fold_run (\<lambda>context m. if cc_released context then Inr m else mark_object capacity (cc_callback context) m)
       (gs_callback_contexts s) m) (\<lambda>m.
     fold_run (\<lambda>thread. fold_run (mark_frame (gs_memory s) capacity) (th_root_frame (gs_threads s thread)))
       (gs_thread_registry s) m))"

text \<open>The pointers in an object that are references, in the order they are visited.\<close>

definition value_references :: "array_value list \<Rightarrow> nat list" where
  "value_references vs = map av_pointer (filter (\<lambda>v. dynamic_value_is_gc_reference (av_tag v)) vs)"

definition static_references :: "class_meta \<Rightarrow> (nat \<Rightarrow> 64 word) \<Rightarrow> nat list run" where
  "static_references metadata words =
     then_run (abort_if (\<not> list_all (valid_reference_offset metadata) (me_reference_field_offsets metadata)))
       (Inr (map (\<lambda>offset. unat (words offset)) (me_reference_field_offsets metadata)))"

definition dynamic_references :: "class_meta \<Rightarrow> (nat \<Rightarrow> 64 word) \<Rightarrow> nat list run" where
  "dynamic_references metadata words =
     then_run (abort_if (\<not> list_all (valid_dynamic_offset metadata) (me_dynamic_reference_field_offsets metadata)))
       (Inr (map (\<lambda>offset. unat (words offset))
         (filter (\<lambda>offset. dynamic_value_is_gc_reference (words (offset - 16))) (me_dynamic_reference_field_offsets metadata))))"

fun references :: "object_content \<Rightarrow> nat list run" where
  "references (Array_object a) = Inr (value_references (take (ar_length a) (ar_values a)))"
| "references (Map_object m) = Inr (value_references (map en_value (ma_entries m)))"
| "references (Plain_object None words) = Inl Aborted"
| "references (Plain_object (Some metadata) words) =
     bindE (static_references metadata words) (\<lambda>ps. bindE (dynamic_references metadata words) (\<lambda>qs. Inr (ps @ qs)))"

text \<open>The loop over the worklist; its rounds are bounded by the first argument.\<close>

fun trace_graph :: "nat \<Rightarrow> nat \<Rightarrow> marking \<Rightarrow> marking run" where
  "trace_graph 0 capacity m = Inl Looping"
| "trace_graph (Suc rounds) capacity (heap, []) = Inr (heap, [])"
| "trace_graph (Suc rounds) capacity (heap, a # work) =
     (case find_object heap a of
        None \<Rightarrow> Inl Out_of_bounds
      | Some node \<Rightarrow>
          bindE (references (hn_content node)) (\<lambda>ps.
          bindE (fold_run (mark_object capacity) ps (heap, work)) (trace_graph rounds capacity)))"

subsection \<open>Collection\<close>

text \<open>Marks are cleared, the roots are marked and the graph is traced.\<close>

definition unmark :: "heap_node list \<Rightarrow> heap_node list" where
  "unmark heap = map (hn_marked_update (\<lambda>_. False)) heap"

definition mark_reachable :: "nat \<Rightarrow> gc_state \<Rightarrow> gc_state run" where
  "mark_reachable capacity s =
     bindE (mark_roots s capacity (unmark (gs_heap s), [])) (\<lambda>m.
     bindE (trace_graph (length (gs_heap s) + 1) capacity m) (\<lambda>m.
       Inr (s\<lparr>gs_heap := fst m\<rparr>)))"

type_synonym finalizer = "class_meta \<Rightarrow> nat \<Rightarrow> gc_state \<Rightarrow> gc_state run"

definition finalize_node :: "finalizer \<Rightarrow> nat \<Rightarrow> nat \<Rightarrow> gc_state \<Rightarrow> gc_state run" where
  "finalize_node fin self object s =
     (case find_object (gs_heap s) object of
        None \<Rightarrow> Inl Out_of_bounds
      | Some node \<Rightarrow>
          if hn_marked node \<or> hn_destroyed node then Inr s
          else
            (case content_metadata (hn_content node) of
               None \<Rightarrow> Inl Aborted
             | Some metadata \<Rightarrow>
                 let s = on_node object (hn_destroyed_update (\<lambda>_. True)) s in
                 if me_finalize metadata then
                   bindE (fin metadata object
                     (on_thread self (th_running_destructor_update (\<lambda>_. True))
                       (on_node object (hn_destroying_update (\<lambda>_. True)) s))) (\<lambda>s.
                     Inr (on_node object (hn_destroying_update (\<lambda>_. False))
                       (on_thread self (th_running_destructor_update (\<lambda>_. False)) s)))
                 else Inr s))"

definition sweep :: "gc_state \<Rightarrow> gc_state" where
  "sweep s =
     (let kept = filter hn_marked (gs_heap s) in
      s\<lparr>gs_heap := kept, gs_object_count := gs_object_count s - (length (gs_heap s) - length kept)\<rparr>)"

definition collector_busy :: "nat \<Rightarrow> gc_state \<Rightarrow> bool" where
  "collector_busy self s \<longleftrightarrow> th_collecting (gs_threads s self) \<or> th_running_destructor (gs_threads s self)"

definition cwhip_gc_collect :: "finalizer \<Rightarrow> nat \<Rightarrow> gc_state \<Rightarrow> gc_state run" where
  "cwhip_gc_collect fin self s =
     then_run (abort_if (collector_busy self s))
     (let s = on_thread self (th_collecting_update (\<lambda>_. True)) s; capacity = gs_object_count s in
      then_run (abort_if (gs_object_count s > uint64_max div 8))
      (bindE (mark_reachable capacity s) (\<lambda>s.
       bindE (fold_run (finalize_node fin self) (map hn_object (gs_heap s)) s) (\<lambda>s.
       bindE (mark_reachable capacity s) (\<lambda>s.
         Inr (on_thread self (th_collecting_update (\<lambda>_. False)) (sweep s)))))))"

definition cwhip_gc_heap_count :: "gc_state \<Rightarrow> nat" where
  "cwhip_gc_heap_count s = gs_object_count s"

subsection \<open>Allocation\<close>

text \<open>The address that \<open>calloc\<close> returns is an argument, a function of the heap and the size.\<close>

definition add_node :: "nat \<Rightarrow> nat \<Rightarrow> object_content \<Rightarrow> bool \<Rightarrow> gc_state \<Rightarrow> nat \<times> gc_state" where
  "add_node object bytes content is_buffer s =
     (object, s\<lparr>gs_heap := \<lparr>hn_object = object, hn_allocation_size = bytes, hn_content = content,
         hn_is_buffer = is_buffer, hn_marked = False, hn_destroyed = False, hn_destroying = False,
         hn_constructing = False\<rparr> # gs_heap s,
       gs_object_count := gs_object_count s + 1\<rparr>)"

definition layout_ok :: "class_meta \<Rightarrow> bool" where
  "layout_ok metadata \<longleftrightarrow>
     me_object_size metadata \<ge> 8 \<and> me_object_size metadata \<le> uint64_max \<and>
     list_all (valid_reference_offset metadata) (me_reference_field_offsets metadata) \<and>
     list_all (valid_dynamic_offset metadata) (me_dynamic_reference_field_offsets metadata)"

type_synonym allocator = "heap_node list \<Rightarrow> nat \<Rightarrow> nat"

definition cwhip_gc_alloc :: "finalizer \<Rightarrow> allocator \<Rightarrow> nat \<Rightarrow> class_meta option \<Rightarrow> gc_state \<Rightarrow> (nat \<times> gc_state) run" where
  "cwhip_gc_alloc fin calloc self metadata s =
     then_run (abort_if (collector_busy self s))
     (case metadata of
        None \<Rightarrow> Inl Aborted
      | Some c \<Rightarrow>
          then_run (abort_if (\<not> layout_ok c))
          (bindE (cwhip_gc_collect fin self s) (\<lambda>s.
            Inr (add_node (calloc (gs_heap s) (me_object_size c)) (me_object_size c)
              (Plain_object metadata (\<lambda>_. 0)) (c = buffer_metadata) s))))"

definition gc_alloc_array :: "finalizer \<Rightarrow> allocator \<Rightarrow> nat \<Rightarrow> int \<Rightarrow> gc_state \<Rightarrow> (nat \<times> gc_state) run" where
  "gc_alloc_array fin calloc self requested_length s =
     then_run (abort_if (collector_busy self s))
     (bindE (cwhip_gc_alloc_array requested_length) (\<lambda>a.
      bindE (cwhip_gc_collect fin self s) (\<lambda>s.
        Inr (add_node (calloc (gs_heap s) 32) 32 (Array_object a) False s))))"

definition cwhip_gc_alloc_map :: "finalizer \<Rightarrow> allocator \<Rightarrow> nat \<Rightarrow> gc_state \<Rightarrow> (nat \<times> gc_state) run" where
  "cwhip_gc_alloc_map fin calloc self s =
     then_run (abort_if (collector_busy self s))
     (bindE (cwhip_gc_collect fin self s) (\<lambda>s.
       Inr (add_node (calloc (gs_heap s) 48) 48 (Map_object new_map) False s)))"

end
