(* ===== verification/Runtime_Marking.thy ===== *)
theory Runtime_Marking
  imports Runtime_Heap
begin

text \<open>
  The marking of the collector: the worklist never overflows, the loop ends, and exactly the
  objects that can be reached from the roots are marked.
\<close>

subsection \<open>The graph of the objects\<close>

named_theorems mark_simps \<open>what marks leave unchanged\<close>

lemma find_map: "List.find P (map f xs) = map_option f (List.find (\<lambda>x. P (f x)) xs)"
  by (induction xs) auto

definition owner :: "heap_node list \<Rightarrow> nat \<Rightarrow> nat option" where
  "owner heap p = (if p = 0 then None else map_option hn_object (find_containing_object heap p))"

definition content_at :: "heap_node list \<Rightarrow> nat \<Rightarrow> object_content option" where
  "content_at heap a = map_option hn_content (find_object heap a)"

definition reference_set :: "object_content \<Rightarrow> nat set" where
  "reference_set content = (case references content of Inl e \<Rightarrow> {} | Inr ps \<Rightarrow> set ps)"

definition successors :: "heap_node list \<Rightarrow> nat \<Rightarrow> nat set" where
  "successors heap a =
     {b. \<exists>content p. content_at heap a = Some content \<and> p \<in> reference_set content \<and> owner heap p = Some b}"

definition addresses :: "heap_node list \<Rightarrow> nat set" where
  "addresses heap = hn_object ` set heap"

definition marked :: "heap_node list \<Rightarrow> nat set" where
  "marked heap = hn_object ` {node \<in> set heap. hn_marked node}"

lemma owner_unmark [mark_simps]: "owner (unmark heap) p = owner heap p"
  by (simp add: owner_def find_containing_object_def unmark_def find_map option.map_comp comp_def)

lemma content_at_unmark [mark_simps]: "content_at (unmark heap) a = content_at heap a"
  by (simp add: content_at_def find_object_def unmark_def find_map option.map_comp comp_def)

lemma successors_unmark [mark_simps]: "successors (unmark heap) a = successors heap a"
  by (simp add: successors_def mark_simps)

lemma addresses_unmark [mark_simps]: "addresses (unmark heap) = addresses heap"
  by (force simp: addresses_def unmark_def image_iff)

lemma map_object_unmark [mark_simps]: "map hn_object (unmark heap) = map hn_object heap"
  by (simp add: unmark_def)

lemma length_unmark [mark_simps]: "length (unmark heap) = length heap"
  by (simp add: unmark_def)

lemma unmark_unmark [mark_simps]: "unmark (unmark heap) = unmark heap"
  by (simp add: unmark_def)

lemma marked_unmark [mark_simps]: "marked (unmark heap) = {}"
  by (auto simp: marked_def unmark_def)

lemma marked_addresses: "marked heap \<subseteq> addresses heap"
  by (auto simp: marked_def addresses_def)

lemma finite_addresses [simp]: "finite (addresses heap)" "finite (marked heap)"
  by (simp_all add: addresses_def marked_def)

lemma find_objectI:
  "distinct (map hn_object heap) \<Longrightarrow> node \<in> set heap \<Longrightarrow> find_object heap (hn_object node) = Some node"
  by (induction heap) (auto simp: find_object_def image_iff)

lemma find_objectD: "find_object heap a = Some node \<Longrightarrow> node \<in> set heap \<and> hn_object node = a"
  by (auto simp: find_object_def find_Some_iff in_set_conv_nth)

lemma find_object_address:
  "distinct (map hn_object heap) \<Longrightarrow> a \<in> addresses heap \<Longrightarrow> \<exists>node. find_object heap a = Some node"
  using find_objectI by (fastforce simp: addresses_def)

lemma find_containing_objectD: "find_containing_object heap p = Some node \<Longrightarrow> node \<in> set heap"
  by (auto simp: find_containing_object_def find_Some_iff in_set_conv_nth)

lemma owner_address: "owner heap p = Some a \<Longrightarrow> a \<in> addresses heap"
  by (auto simp: owner_def addresses_def split: if_splits dest: find_containing_objectD)

lemma successors_addresses: "successors heap a \<subseteq> addresses heap"
  by (auto simp: successors_def dest: owner_address)

subsection \<open>Marking objects\<close>

definition worklist_ok :: "marking \<Rightarrow> bool" where
  "worklist_ok m \<longleftrightarrow> distinct (map hn_object (fst m)) \<and> distinct (snd m) \<and> set (snd m) \<subseteq> marked (fst m)"

text \<open>The objects \<open>X\<close> are marked, and those among them without a mark are put on the worklist.\<close>

definition marks :: "marking \<Rightarrow> nat set \<Rightarrow> marking \<Rightarrow> bool" where
  "marks m X m' \<longleftrightarrow> unmark (fst m') = unmark (fst m) \<and> worklist_ok m' \<and>
     marked (fst m') = marked (fst m) \<union> X \<and> set (snd m') = set (snd m) \<union> (X - marked (fst m))"

lemma marks_empty: "worklist_ok m \<Longrightarrow> marks m {} m"
  by (simp add: marks_def)

lemma marks_trans: "marks m X m' \<Longrightarrow> marks m' Y m'' \<Longrightarrow> marks m (X \<union> Y) m''"
  by (auto simp: marks_def)

lemma unmark_update: "unmark (update_node a (hn_marked_update (\<lambda>_. True)) heap) = unmark heap"
  by (simp add: unmark_def update_node_def)

lemma marked_simps:
  "marked [] = {}" "marked (n # heap) = (if hn_marked n then {hn_object n} else {}) \<union> marked heap"
  "addresses [] = {}" "addresses (n # heap) = insert (hn_object n) (addresses heap)"
  by (auto simp: marked_def addresses_def)

lemma marked_update:
  "marked (update_node a (hn_marked_update (\<lambda>_. True)) heap) = marked heap \<union> (addresses heap \<inter> {a})"
  by (induction heap) (auto simp: update_node_def marked_simps)

lemma map_object_update: "(\<And>n. hn_object (f n) = hn_object n) \<Longrightarrow> map hn_object (update_node a f heap) = map hn_object heap"
  by (simp add: update_node_def)

lemma card_addresses: "distinct (map hn_object heap) \<Longrightarrow> card (addresses heap) = length heap"
  using distinct_card [of "map hn_object heap"] by (simp add: addresses_def)

lemma mark_object_marks:
  assumes "worklist_ok m" "length (fst m) \<le> capacity"
  shows "\<exists>m'. mark_object capacity p m = Inr m' \<and> marks m (set_option (owner (fst m) p)) m'"
proof (cases "owner (fst m) p")
  case None
  then have "mark_object capacity p m = Inr m" by (auto simp: mark_object_def owner_def split: if_splits)
  with None assms show ?thesis by (auto intro: marks_empty)
next
  case (Some a)
  then obtain node where node: "p \<noteq> 0" "find_containing_object (fst m) p = Some node" "hn_object node = a"
    by (auto simp: owner_def split: if_splits)
  then have a: "a \<in> addresses (fst m)" using Some by (blast dest: owner_address)
  note in_heap = find_containing_objectD [OF node(2)]
  show ?thesis
  proof (cases "hn_marked node")
    case True
    with in_heap node(3) have "a \<in> marked (fst m)" by (auto simp: marked_def)
    with True node Some assms(1) show ?thesis by (auto simp: mark_object_def marks_def)
  next
    case False
    have "a \<notin> marked (fst m)"
    proof
      assume "a \<in> marked (fst m)"
      then obtain n where n: "n \<in> set (fst m)" "hn_marked n" "hn_object n = a" by (auto simp: marked_def)
      have "distinct (map hn_object (fst m))" using assms(1) by (simp add: worklist_ok_def)
      then have "n = node" using n in_heap node(3) by (auto simp: distinct_map dest: inj_onD)
      with False n(2) show False by simp
    qed
    with a have "marked (fst m) \<subset> addresses (fst m)" using marked_addresses by blast
    then have "card (marked (fst m)) < card (addresses (fst m))" by (simp add: psubset_card_mono)
    moreover have "card (set (snd m)) = length (snd m)" "card (set (snd m)) \<le> card (marked (fst m))"
      using assms(1) unfolding worklist_ok_def by (blast intro: distinct_card card_mono finite_addresses)+
    moreover have "card (addresses (fst m)) = length (fst m)" using assms(1) by (simp add: worklist_ok_def card_addresses)
    ultimately have "length (snd m) < capacity" using assms(2) by linarith
    then have "mark_object capacity p m =
        Inr (update_node a (hn_marked_update (\<lambda>_. True)) (fst m), a # snd m)"
      using node False by (simp add: mark_object_def)
    with Some a \<open>a \<notin> marked (fst m)\<close> assms(1) show ?thesis
      by (auto simp: marks_def worklist_ok_def unmark_update marked_update map_object_update)
  qed
qed

lemma marks_length: "marks m X m' \<Longrightarrow> length (fst m') = length (fst m)"
  using length_unmark [of "fst m"] length_unmark [of "fst m'"] by (simp add: marks_def)

lemma fold_run_marks:
  assumes "\<And>x m. x \<in> set xs \<Longrightarrow> worklist_ok m \<Longrightarrow> unmark (fst m) = base \<Longrightarrow> \<exists>m'. f x m = Inr m' \<and> marks m (X x) m'"
    and "worklist_ok m" "unmark (fst m) = base"
  shows "\<exists>m'. fold_run f xs m = Inr m' \<and> marks m (\<Union>x \<in> set xs. X x) m'"
  using assms
proof (induction xs arbitrary: m)
  case Nil
  then show ?case by (auto intro: marks_empty)
next
  case (Cons x xs)
  from Cons.prems(1) [of x m] Cons.prems(2,3) obtain m' where m': "f x m = Inr m'" "marks m (X x) m'" by auto
  then have "worklist_ok m'" "unmark (fst m') = base" using Cons.prems(3) by (auto simp: marks_def)
  with Cons.IH [of m'] Cons.prems(1) obtain m'' where
      "fold_run f xs m' = Inr m''" "marks m' (\<Union>x \<in> set xs. X x) m''" by auto
  with m' show ?case by (auto dest: marks_trans)
qed

text \<open>The objects that a set of pointers points into.\<close>

definition owners :: "heap_node list \<Rightarrow> nat set \<Rightarrow> nat set" where
  "owners heap P = {a. \<exists>p \<in> P. owner heap p = Some a}"

lemma owners_unmark [mark_simps]: "owners (unmark heap) P = owners heap P"
  by (simp add: owners_def mark_simps)

lemma owners_simps:
  "owners heap {} = {}" "owners heap {p} = set_option (owner heap p)" "owners heap (P \<union> Q) = owners heap P \<union> owners heap Q"
  "owners heap (\<Union>x \<in> A. F x) = (\<Union>x \<in> A. owners heap (F x))"
  by (auto simp: owners_def)

text \<open>A marking step of the collector marks the owners of the pointers it reads.\<close>

definition marker :: "nat \<Rightarrow> heap_node list \<Rightarrow> (marking \<Rightarrow> marking run) \<Rightarrow> nat set \<Rightarrow> bool" where
  "marker n base f P \<longleftrightarrow> (\<forall>m. worklist_ok m \<and> unmark (fst m) = unmark base \<and> length base \<le> n \<longrightarrow>
     (\<exists>m'. f m = Inr m' \<and> marks m (owners base P) m'))"

lemma marker_object: "marker capacity base (mark_object capacity p) {p}"
  unfolding marker_def
proof (intro allI impI)
  fix m assume m: "worklist_ok m \<and> unmark (fst m) = unmark base \<and> length base \<le> capacity"
  then have "length (fst m) = length base" using length_unmark [of "fst m"] length_unmark [of base] by simp
  moreover have "owner (fst m) p = owner base p"
    using m owner_unmark [of "fst m" p] owner_unmark [of base p] by simp
  ultimately show "\<exists>m'. mark_object capacity p m = Inr m' \<and> marks m (owners base {p}) m'"
    using mark_object_marks [of m capacity p] m by (simp add: owners_simps)
qed

lemma marker_skip: "marker n base Inr {}"
  by (auto simp: marker_def owners_simps intro: marks_empty)

lemma marker_fold:
  assumes "\<And>x. x \<in> set xs \<Longrightarrow> marker n base (f x) (P x)"
  shows "marker n base (fold_run f xs) (\<Union>x \<in> set xs. P x)"
  unfolding marker_def
proof (intro allI impI)
  fix m assume m: "worklist_ok m \<and> unmark (fst m) = unmark base \<and> length base \<le> n"
  show "\<exists>m'. fold_run f xs m = Inr m' \<and> marks m (owners base (\<Union>x \<in> set xs. P x)) m'"
    unfolding owners_simps
    by (rule fold_run_marks [where base = "unmark base"]) (use assms m in \<open>auto simp: marker_def\<close>)
qed

lemma marker_bind:
  assumes "marker n base f P" "marker n base g Q"
  shows "marker n base (\<lambda>m. bindE (f m) g) (P \<union> Q)"
  unfolding marker_def
proof (intro allI impI)
  fix m assume m: "worklist_ok m \<and> unmark (fst m) = unmark base \<and> length base \<le> n"
  with assms(1) obtain m' where m': "f m = Inr m'" "marks m (owners base P) m'" unfolding marker_def by blast
  then have "worklist_ok m' \<and> unmark (fst m') = unmark base" using m by (simp add: marks_def)
  with assms(2) m obtain m'' where "g m' = Inr m''" "marks m' (owners base Q) m''"
    unfolding marker_def by blast
  with m' show "\<exists>m'. bindE (f m) g = Inr m' \<and> marks m (owners base (P \<union> Q)) m'"
    by (auto simp: owners_simps intro: marks_trans)
qed

subsection \<open>Roots\<close>

definition frame_ok :: "(nat \<Rightarrow> 64 word) \<Rightarrow> root_frame \<Rightarrow> bool" where
  "frame_ok memory frame \<longleftrightarrow> (\<forall>index < rf_count frame. is_ok (slot_pointer memory frame index))"

definition frame_pointers :: "(nat \<Rightarrow> 64 word) \<Rightarrow> root_frame \<Rightarrow> nat set" where
  "frame_pointers memory frame = {p. \<exists>index < rf_count frame. slot_pointer memory frame index = Inr p}"

definition roots_ok :: "gc_state \<Rightarrow> bool" where
  "roots_ok s \<longleftrightarrow> (\<forall>thread \<in> set (gs_thread_registry s).
     \<forall>frame \<in> set (th_root_frame (gs_threads s thread)). frame_ok (gs_memory s) frame)"

definition root_pointers :: "gc_state \<Rightarrow> nat set" where
  "root_pointers s =
     (\<Union>transfer \<in> set (gs_callback_transfers s). {ct_callback transfer}) \<union>
     (\<Union>c \<in> set (gs_callback_contexts s). if cc_released c then {} else {cc_callback c}) \<union>
     (\<Union>thread \<in> set (gs_thread_registry s). \<Union>frame \<in> set (th_root_frame (gs_threads s thread)).
       frame_pointers (gs_memory s) frame)"

lemma marker_frame:
  assumes "frame_ok memory frame"
  shows "marker capacity base (mark_frame memory capacity frame) (frame_pointers memory frame)"
proof -
  have step: "marker capacity base (\<lambda>m. bindE (slot_pointer memory frame index) (\<lambda>object. mark_object capacity object m))
      {p. slot_pointer memory frame index = Inr p}" if "index \<in> set [0..<rf_count frame]" for index
  proof -
    from that assms obtain p where p: "slot_pointer memory frame index = Inr p"
      by (cases "slot_pointer memory frame index") (fastforce simp: frame_ok_def)+
    have "{q. slot_pointer memory frame index = Inr q} = {p}" using p by auto
    with marker_object [of capacity base p] p show ?thesis by simp
  qed
  have "frame_pointers memory frame = (\<Union>index \<in> set [0..<rf_count frame]. {p. slot_pointer memory frame index = Inr p})"
    by (auto simp: frame_pointers_def)
  then show ?thesis unfolding mark_frame_def by (simp only:) (rule marker_fold [OF step])
qed

lemma marker_roots:
  assumes "roots_ok s"
  shows "marker capacity base (mark_roots s capacity) (root_pointers s)"
proof -
  have "marker capacity base (\<lambda>m. if cc_released c then Inr m else mark_object capacity (cc_callback c) m)
      (if cc_released c then {} else {cc_callback c})" for c
    by (cases "cc_released c") (simp_all add: marker_object marker_skip)
  moreover have "marker capacity base (mark_frame (gs_memory s) capacity frame) (frame_pointers (gs_memory s) frame)"
    if "thread \<in> set (gs_thread_registry s)" "frame \<in> set (th_root_frame (gs_threads s thread))" for thread frame
    using assms that by (auto simp: roots_ok_def intro: marker_frame)
  ultimately show ?thesis
    unfolding mark_roots_def root_pointers_def Un_assoc
    by (intro marker_bind marker_fold marker_object)
qed

subsection \<open>Tracing\<close>

text \<open>The metadata of an object is valid, and lists and dictionaries satisfy their invariants.\<close>

definition content_ok :: "object_content \<Rightarrow> bool" where
  "content_ok content \<longleftrightarrow> is_ok (references content) \<and>
     (case content of Array_object a \<Rightarrow> array_ok a | Map_object m \<Rightarrow> map_ok m | Plain_object metadata words \<Rightarrow> True)"

definition contents_ok :: "heap_node list \<Rightarrow> bool" where
  "contents_ok heap \<longleftrightarrow> (\<forall>node \<in> set heap. content_ok (hn_content node))"

lemma content_at_unmarkI: "unmark heap = unmark base \<Longrightarrow> content_at heap a = content_at base a"
  using content_at_unmark [of heap a] content_at_unmark [of base a] by simp

lemma addresses_unmarkI: "unmark heap = unmark base \<Longrightarrow> addresses heap = addresses base"
  using addresses_unmark [of heap] addresses_unmark [of base] by simp

text \<open>One round: the first object of the worklist is taken off and its successors are marked.\<close>

lemma trace_round:
  assumes ok: "worklist_ok (heap, a # work)" and base: "unmark heap = unmark base" "contents_ok base" "length base \<le> capacity"
  shows "\<exists>m'. trace_graph (Suc rounds) capacity (heap, a # work) = trace_graph rounds capacity m' \<and>
    marks (heap, work) (successors base a) m'"
proof -
  have "a \<in> addresses heap" using ok marked_addresses [of heap] by (auto simp: worklist_ok_def)
  moreover have "distinct (map hn_object heap)" using ok by (simp add: worklist_ok_def)
  ultimately obtain node where node: "find_object heap a = Some node" using find_object_address by blast
  then have "content_at base a = Some (hn_content node)"
    using content_at_unmarkI [OF base(1), of a] by (simp add: content_at_def)
  then obtain n where n: "find_object base a = Some n" "hn_content n = hn_content node" by (auto simp: content_at_def)
  then have "is_ok (references (hn_content node))"
    using base(2) find_objectD [OF n(1)] by (auto simp: contents_ok_def content_ok_def)
  then obtain ps where ps: "references (hn_content node) = Inr ps"
    by (cases "references (hn_content node)") simp_all
  have start: "worklist_ok (heap, work)" using ok by (simp add: worklist_ok_def)
  have "marker capacity base (fold_run (mark_object capacity) ps) (\<Union>p \<in> set ps. {p})"
    by (rule marker_fold) (rule marker_object)
  with start base obtain m' where m': "fold_run (mark_object capacity) ps (heap, work) = Inr m'"
      "marks (heap, work) (owners base (\<Union>p \<in> set ps. {p})) m'"
    unfolding marker_def by (metis fst_conv)
  have "successors base a = owners base (\<Union>p \<in> set ps. {p})"
    using n ps by (auto simp: successors_def owners_def content_at_def reference_set_def)
  with m' have "marks (heap, work) (successors base a) m'" by (simp only:)
  moreover have "trace_graph (Suc rounds) capacity (heap, a # work) = trace_graph rounds capacity m'"
    using m'(1) node ps by simp
  ultimately show ?thesis by blast
qed

definition unmarked_count :: "heap_node list \<Rightarrow> nat" where
  "unmarked_count heap = card (addresses heap - marked heap)"

lemma marks_measure:
  assumes "marks m X m'" "X \<subseteq> addresses (fst m)" "distinct (snd m)"
  shows "unmarked_count (fst m') + length (snd m') \<le> unmarked_count (fst m) + length (snd m)"
proof -
  let ?new = "X - marked (fst m)" and ?rest = "addresses (fst m) - marked (fst m)"
  have "unmark (fst m') = unmark (fst m)" using assms(1) by (simp add: marks_def)
  then have "addresses (fst m') = addresses (fst m)" by (rule addresses_unmarkI)
  then have left: "addresses (fst m') - marked (fst m') = ?rest - ?new" using assms(1) by (auto simp: marks_def)
  have "?new \<subseteq> ?rest" using assms(2) by blast
  then have "card (?rest - ?new) + card ?new = card ?rest"
    by (metis card_Diff_subset card_mono finite_Diff finite_addresses(1) finite_subset le_add_diff_inverse2)
  moreover have "card (set (snd m')) = length (snd m')"
    using assms(1) unfolding marks_def worklist_ok_def by (blast intro: distinct_card)
  moreover have "card (set (snd m')) \<le> card (set (snd m)) + card ?new"
    using assms(1) by (simp add: marks_def card_Un_le)
  moreover have "card (set (snd m)) = length (snd m)" using assms(3) by (rule distinct_card)
  ultimately show ?thesis using left by (simp add: unmarked_count_def)
qed

text \<open>
  The loop ends within the rounds that the objects allow; then the marked objects are closed
  under references, and are in every closed set that holds the objects marked before.
\<close>

lemma trace_graph_marks:
  assumes "worklist_ok (heap, work)" "unmark heap = unmark base" "contents_ok base" "length base \<le> capacity"
    and "unmarked_count heap + length work < rounds"
    and "\<forall>a \<in> marked heap - set work. successors base a \<subseteq> marked heap"
  shows "\<exists>heap'. trace_graph rounds capacity (heap, work) = Inr (heap', []) \<and> unmark heap' = unmark base \<and>
    distinct (map hn_object heap') \<and> marked heap \<subseteq> marked heap' \<and> (\<forall>a \<in> marked heap'. successors base a \<subseteq> marked heap') \<and>
    (\<forall>R. marked heap \<subseteq> R \<and> (\<forall>a \<in> R. successors base a \<subseteq> R) \<longrightarrow> marked heap' \<subseteq> R)"
  using assms
proof (induction rounds arbitrary: heap work)
  case (Suc rounds)
  show ?case
  proof (cases work)
    case Nil
    with Suc.prems show ?thesis by (auto simp: worklist_ok_def)
  next
    case (Cons a rest)
    have ok: "worklist_ok (heap, a # rest)" using Suc.prems(1) Cons by simp
    obtain heap' work' where m': "trace_graph (Suc rounds) capacity (heap, a # rest) = trace_graph rounds capacity (heap', work')"
        "marks (heap, rest) (successors base a) (heap', work')"
      using trace_round [OF ok Suc.prems(2-4), of rounds] by (metis surj_pair)
    have marked': "marked heap' = marked heap \<union> successors base a" "unmark heap' = unmark base"
        "worklist_ok (heap', work')" "set work' = set rest \<union> (successors base a - marked heap)"
      using m'(2) Suc.prems(2) by (auto simp: marks_def)
    have "distinct rest" "a \<in> marked heap" "a \<notin> set rest" using ok by (auto simp: worklist_ok_def)
    moreover have "successors base a \<subseteq> addresses heap"
      using successors_addresses [of base a] addresses_unmarkI [OF Suc.prems(2)] by simp
    ultimately have "unmarked_count heap' + length work' < rounds"
      using marks_measure [OF m'(2)] Suc.prems(5) Cons by simp
    moreover have "\<forall>b \<in> marked heap' - set work'. successors base b \<subseteq> marked heap'"
      using Suc.prems(6) marked'(1,4) Cons by auto
    ultimately obtain final where final: "trace_graph rounds capacity (heap', work') = Inr (final, [])"
        "unmark final = unmark base" "distinct (map hn_object final)" "marked heap' \<subseteq> marked final"
        "\<forall>a \<in> marked final. successors base a \<subseteq> marked final"
        "\<forall>R. marked heap' \<subseteq> R \<and> (\<forall>a \<in> R. successors base a \<subseteq> R) \<longrightarrow> marked final \<subseteq> R"
      using Suc.IH [OF marked'(3,2) Suc.prems(3,4)] by blast
    have "marked final \<subseteq> R" if R: "marked heap \<subseteq> R" "\<forall>a \<in> R. successors base a \<subseteq> R" for R
    proof -
      have "successors base a \<subseteq> R" using R \<open>a \<in> marked heap\<close> by blast
      with R(1) marked'(1) have "marked heap' \<subseteq> R" by simp
      with final(6) R(2) show ?thesis by simp
    qed
    moreover have "trace_graph (Suc rounds) capacity (heap, work) = Inr (final, [])" using m'(1) final(1) Cons by simp
    moreover have "marked heap \<subseteq> marked final" using final(4) marked'(1) by simp
    ultimately show ?thesis using final(2,3,5) by blast
  qed
qed simp

subsection \<open>Reachability\<close>

inductive reachable :: "gc_state \<Rightarrow> nat \<Rightarrow> bool" for s where
  root: "p \<in> root_pointers s \<Longrightarrow> owner (gs_heap s) p = Some a \<Longrightarrow> reachable s a"
| field: "reachable s a \<Longrightarrow> b \<in> successors (gs_heap s) a \<Longrightarrow> reachable s b"

lemma reachable_address: "reachable s a \<Longrightarrow> a \<in> addresses (gs_heap s)"
  by (induction rule: reachable.induct) (use successors_addresses in \<open>auto dest: owner_address\<close>)

definition heap_ok :: "gc_state \<Rightarrow> bool" where
  "heap_ok s \<longleftrightarrow> distinct (map hn_object (gs_heap s)) \<and> contents_ok (gs_heap s) \<and> roots_ok s"

theorem mark_reachable_exact:
  assumes "heap_ok s" "length (gs_heap s) \<le> capacity"
  shows "\<exists>heap. mark_reachable capacity s = Inr (s\<lparr>gs_heap := heap\<rparr>) \<and> unmark heap = unmark (gs_heap s) \<and>
    distinct (map hn_object heap) \<and> marked heap = {a. reachable s a}"
proof -
  let ?base = "gs_heap s"
  have ok: "worklist_ok (unmark ?base, [])" using assms(1) by (simp add: worklist_ok_def heap_ok_def mark_simps)
  have "roots_ok s" using assms(1) by (simp add: heap_ok_def)
  from marker_roots [OF this, of capacity ?base] ok assms(2) obtain heap work where
      m: "mark_roots s capacity (unmark ?base, []) = Inr (heap, work)"
        "marks (unmark ?base, []) (owners ?base (root_pointers s)) (heap, work)"
    unfolding marker_def by (metis fst_conv surj_pair unmark_unmark)
  have marked: "marked heap = owners ?base (root_pointers s)" "set work = marked heap" "unmark heap = unmark ?base"
      "worklist_ok (heap, work)"
    using m(2) by (auto simp: marks_def mark_simps)
  have "unmarked_count heap + length work \<le> unmarked_count (unmark ?base)"
    using marks_measure [OF m(2)] by (auto simp: owners_def mark_simps dest: owner_address)
  also have "\<dots> = length ?base" using assms(1) by (simp add: unmarked_count_def mark_simps heap_ok_def card_addresses)
  finally have rounds: "unmarked_count heap + length work < length ?base + 1" by simp
  have "contents_ok ?base" using assms(1) by (simp add: heap_ok_def)
  from trace_graph_marks [OF marked(4,3) this assms(2) rounds] marked(2) obtain final where
      final: "trace_graph (length ?base + 1) capacity (heap, work) = Inr (final, [])" "unmark final = unmark ?base"
        "distinct (map hn_object final)" "marked heap \<subseteq> marked final" "\<forall>a \<in> marked final. successors ?base a \<subseteq> marked final"
        "\<forall>R. marked heap \<subseteq> R \<and> (\<forall>a \<in> R. successors ?base a \<subseteq> R) \<longrightarrow> marked final \<subseteq> R" by blast
  have "marked heap \<subseteq> {a. reachable s a} \<and> (\<forall>a \<in> {a. reachable s a}. successors ?base a \<subseteq> {a. reachable s a})"
    using marked(1) by (auto simp: owners_def intro: reachable.intros)
  with final(6) have "marked final \<subseteq> {a. reachable s a}" by blast
  moreover have "a \<in> marked final" if "reachable s a" for a
    using that by (induction rule: reachable.induct) (use final(4,5) marked(1) in \<open>auto simp: owners_def\<close>)
  ultimately have "marked final = {a. reachable s a}" by blast
  moreover have "mark_reachable capacity s = Inr (s\<lparr>gs_heap := final\<rparr>)"
    using final(1) m(1) by (simp add: mark_reachable_def)
  ultimately show ?thesis using final(2,3) by blast
qed

end
