(* ===== verification/Runtime_Collect.thy ===== *)
theory Runtime_Collect
  imports Runtime_Marking
begin

text \<open>
  What a collection and an allocation guarantee: nothing that can be reached is freed, everything
  else is, and no reference is left to freed memory.
\<close>

subsection \<open>The invariant\<close>

text \<open>No root and no object refers to memory that is not in the heap.\<close>

definition no_dangling :: "gc_state \<Rightarrow> bool" where
  "no_dangling s \<longleftrightarrow>
     (\<forall>p \<in> root_pointers s. p = 0 \<or> owner (gs_heap s) p \<noteq> None) \<and>
     (\<forall>node \<in> set (gs_heap s). \<forall>p \<in> reference_set (hn_content node). p = 0 \<or> owner (gs_heap s) p \<noteq> None)"

definition gc_ok :: "gc_state \<Rightarrow> bool" where
  "gc_ok s \<longleftrightarrow> heap_ok s \<and> no_dangling s \<and> gs_object_count s = length (gs_heap s) \<and>
     (\<forall>node \<in> set (gs_heap s). hn_object node \<noteq> 0 \<and> hn_allocation_size node \<noteq> 0)"

text \<open>The state without what marking, flags and object counts of the heap may change.\<close>

definition node_shape :: "heap_node \<Rightarrow> nat \<times> nat \<times> object_content" where
  "node_shape node = (hn_object node, hn_allocation_size node, hn_content node)"

definition same_shape :: "heap_node list \<Rightarrow> heap_node list \<Rightarrow> bool" where
  "same_shape heap heap' \<longleftrightarrow> map node_shape heap' = map node_shape heap"

lemma find_shape:
  "same_shape heap heap' \<Longrightarrow>
     map_option node_shape (List.find (\<lambda>n. P (node_shape n)) heap') =
     map_option node_shape (List.find (\<lambda>n. P (node_shape n)) heap)"
  unfolding same_shape_def by (simp flip: find_map)

lemma same_shape_owner: "same_shape heap heap' \<Longrightarrow> owner heap' p = owner heap p"
proof -
  assume shape: "same_shape heap heap'"
  have "map_option node_shape (find_containing_object heap' p) = map_option node_shape (find_containing_object heap p)"
    using find_shape [OF shape, of "\<lambda>(a, n, c). \<not> p < a \<and> p - a < n"] by (simp add: find_containing_object_def node_shape_def)
  then have "map_option (fst \<circ> node_shape) (find_containing_object heap' p) =
      map_option (fst \<circ> node_shape) (find_containing_object heap p)"
    by (metis option.map_comp)
  moreover have "fst \<circ> node_shape = hn_object" by (auto simp: node_shape_def)
  ultimately show ?thesis by (simp add: owner_def)
qed

lemma same_shape_sets:
  assumes "same_shape heap heap'"
  shows "map hn_object heap' = map hn_object heap" "length heap' = length heap"
    "hn_content ` set heap' = hn_content ` set heap"
    "(\<lambda>n. (hn_object n, hn_allocation_size n)) ` set heap' = (\<lambda>n. (hn_object n, hn_allocation_size n)) ` set heap"
proof -
  have eq: "map node_shape heap' = map node_shape heap" using assms by (simp add: same_shape_def)
  show "map hn_object heap' = map hn_object heap"
    using arg_cong [OF eq, of "map fst"] by (simp add: comp_def node_shape_def)
  show "length heap' = length heap" using arg_cong [OF eq, of length] by simp
  have im: "node_shape ` set heap' = node_shape ` set heap" using arg_cong [OF eq, of set] by simp
  show "hn_content ` set heap' = hn_content ` set heap"
    using arg_cong [OF im, of "image (\<lambda>x. snd (snd x))"] by (simp add: image_image node_shape_def)
  show "(\<lambda>n. (hn_object n, hn_allocation_size n)) ` set heap' = (\<lambda>n. (hn_object n, hn_allocation_size n)) ` set heap"
    using arg_cong [OF im, of "image (\<lambda>x. (fst x, fst (snd x)))"] by (simp add: image_image node_shape_def)
qed

lemma ball_image: "(\<forall>x \<in> A. P (f x)) \<longleftrightarrow> (\<forall>y \<in> f ` A. P y)"
  by simp

lemma gc_ok_shape:
  assumes "same_shape (gs_heap s) (gs_heap s')" "root_pointers s' = root_pointers s" "roots_ok s' = roots_ok s"
    "gs_object_count s' = gs_object_count s"
  shows "gc_ok s' = gc_ok s"
proof -
  note sets = same_shape_sets [OF assms(1)]
  have contents: "(\<forall>node \<in> set (gs_heap s'). P (hn_content node)) = (\<forall>node \<in> set (gs_heap s). P (hn_content node))" for P
    unfolding ball_image [of _ P hn_content] sets(3) ..
  have "(\<forall>node \<in> set (gs_heap s'). Q (hn_object node, hn_allocation_size node)) =
      (\<forall>node \<in> set (gs_heap s). Q (hn_object node, hn_allocation_size node))" for Q
    unfolding ball_image [of _ Q "\<lambda>n. (hn_object n, hn_allocation_size n)"] sets(4) ..
  from this [of "\<lambda>(a, n). a \<noteq> 0 \<and> n \<noteq> 0"]
  have nonzero: "(\<forall>node \<in> set (gs_heap s'). hn_object node \<noteq> 0 \<and> hn_allocation_size node \<noteq> 0) =
      (\<forall>node \<in> set (gs_heap s). hn_object node \<noteq> 0 \<and> hn_allocation_size node \<noteq> 0)" by simp
  show ?thesis
    unfolding gc_ok_def heap_ok_def no_dangling_def contents_ok_def same_shape_owner [OF assms(1)] assms(2-4)
      sets(1,2) nonzero contents [of content_ok]
      contents [of "\<lambda>c. \<forall>p \<in> reference_set c. p = 0 \<or> owner (gs_heap s) p \<noteq> None"] ..
qed

lemma same_shape_update:
  "(\<And>n. node_shape (f n) = node_shape n) \<Longrightarrow> same_shape heap (update_node a f heap)"
  by (simp add: same_shape_def update_node_def)

lemma same_shape_unmark: "unmark heap' = unmark heap \<Longrightarrow> same_shape heap heap'"
proof -
  assume "unmark heap' = unmark heap"
  then have "map node_shape (unmark heap') = map node_shape (unmark heap)" by simp
  then show ?thesis by (simp add: same_shape_def unmark_def node_shape_def [abs_def] comp_def)
qed

lemma root_pointers_heap: "root_pointers (s\<lparr>gs_heap := h\<rparr>) = root_pointers s" "roots_ok (s\<lparr>gs_heap := h\<rparr>) = roots_ok s"
  "root_pointers (s\<lparr>gs_object_count := n\<rparr>) = root_pointers s" "roots_ok (s\<lparr>gs_object_count := n\<rparr>) = roots_ok s"
  by (simp_all add: root_pointers_def roots_ok_def)

lemma same_shape_sym: "same_shape heap heap' \<Longrightarrow> same_shape heap' heap"
  by (simp add: same_shape_def)

lemma content_at_shape: "same_shape heap heap' \<Longrightarrow> content_at heap' a = content_at heap a"
proof -
  assume shape: "same_shape heap heap'"
  have "map_option node_shape (find_object heap' a) = map_option node_shape (find_object heap a)"
    using find_shape [OF shape, of "\<lambda>(b, n, c). b = a"] by (simp add: find_object_def node_shape_def)
  then have "map_option ((\<lambda>(b, n, c). c) \<circ> node_shape) (find_object heap' a) =
      map_option ((\<lambda>(b, n, c). c) \<circ> node_shape) (find_object heap a)"
    by (metis option.map_comp)
  then show ?thesis by (simp add: content_at_def node_shape_def comp_def)
qed

lemma reachable_shape:
  assumes "same_shape (gs_heap s) (gs_heap s')" "root_pointers s' = root_pointers s"
  shows "reachable s' = reachable s"
proof -
  have sub: "reachable u a" if "reachable t a" "same_shape (gs_heap t) (gs_heap u)" "root_pointers u = root_pointers t" for t u a
    using that(1)
  proof (induction rule: reachable.induct)
    case (root p a)
    then show ?case using that(2,3) by (intro reachable.root [of p]) (simp_all add: same_shape_owner)
  next
    case (field a b)
    then have "b \<in> successors (gs_heap u) a"
      using that(2) by (simp add: successors_def same_shape_owner content_at_shape)
    with field.IH show ?case by (rule reachable.field)
  qed
  show ?thesis using sub [of s _ s'] sub [of s' _ s] assms same_shape_sym by blast
qed

text \<open>Changes of the flags of an object or of a thread keep the invariant.\<close>

lemma gc_ok_on_node:
  "(\<And>n. node_shape (f n) = node_shape n) \<Longrightarrow> gc_ok (on_node a f s) = gc_ok s"
  by (rule gc_ok_shape) (simp_all add: on_node_def same_shape_update root_pointers_heap)

lemma gc_ok_on_thread:
  assumes "\<And>t. th_root_frame (f t) = th_root_frame t"
  shows "gc_ok (on_thread self f s) = gc_ok s" "root_pointers (on_thread self f s) = root_pointers s"
    "roots_ok (on_thread self f s) = roots_ok s"
proof -
  have frames: "th_root_frame (gs_threads (on_thread self f s) t) = th_root_frame (gs_threads s t)" for t
    by (simp add: on_thread_def assms)
  show roots: "root_pointers (on_thread self f s) = root_pointers s" "roots_ok (on_thread self f s) = roots_ok s"
    unfolding root_pointers_def roots_ok_def frames by (simp_all add: on_thread_def)
  show "gc_ok (on_thread self f s) = gc_ok s"
    by (rule gc_ok_shape) (use roots in \<open>simp_all add: on_thread_def same_shape_def\<close>)
qed

lemma shape_flags [simp]:
  "node_shape (hn_marked_update f n) = node_shape n" "node_shape (hn_destroyed_update f n) = node_shape n"
  "node_shape (hn_destroying_update f n) = node_shape n" "node_shape (hn_constructing_update f n) = node_shape n"
  by (simp_all add: node_shape_def)

subsection \<open>Sweeping\<close>

lemma find_filter: "List.find P xs = Some x \<Longrightarrow> Q x \<Longrightarrow> List.find P (filter Q xs) = Some x"
  by (induction xs) (auto split: if_splits)

lemma find_filter_None: "List.find P xs = None \<Longrightarrow> List.find P (filter Q xs) = None"
  by (induction xs) (auto split: if_splits)

text \<open>Objects that are kept are found as before.\<close>

lemma owner_filter:
  assumes "owner heap p = Some a" "distinct (map hn_object heap)" "\<And>n. n \<in> set heap \<Longrightarrow> hn_object n = a \<Longrightarrow> Q n"
  shows "owner (filter Q heap) p = Some a"
proof -
  from assms(1) obtain n where n: "p \<noteq> 0" "find_containing_object heap p = Some n" "hn_object n = a"
    by (auto simp: owner_def split: if_splits)
  then have "find_containing_object (filter Q heap) p = Some n"
    using assms(3) find_containing_objectD [OF n(2)] unfolding find_containing_object_def by (intro find_filter) auto
  with n show ?thesis by (simp add: owner_def)
qed

lemma owner_filter_None: "owner heap p = None \<Longrightarrow> owner (filter Q heap) p = None"
  by (auto simp: owner_def find_containing_object_def find_filter_None split: if_splits)

lemma content_at_filter:
  assumes "distinct (map hn_object heap)" "a \<in> addresses (filter Q heap)"
  shows "content_at (filter Q heap) a = content_at heap a"
proof -
  from assms(2) obtain n where n: "n \<in> set heap" "Q n" "hn_object n = a" by (auto simp: addresses_def)
  then have "find_object heap a = Some n" using assms(1) find_objectI by blast
  moreover have "find_object (filter Q heap) a = Some n"
    using calculation n(2) unfolding find_object_def by (rule find_filter)
  ultimately show ?thesis by (simp add: content_at_def)
qed

lemma marked_node:
  "distinct (map hn_object heap) \<Longrightarrow> n \<in> set heap \<Longrightarrow> hn_object n \<in> marked heap \<longleftrightarrow> hn_marked n"
  by (auto simp: marked_def distinct_map dest: inj_onD)

lemma reference_owner:
  assumes "content_at heap a = Some content" "p \<in> reference_set content" "owner heap p = Some b"
  shows "b \<in> successors heap a"
  using assms by (auto simp: successors_def)

lemma sweep_exact:
  assumes ok: "gc_ok s" and marked: "marked (gs_heap s) = {a. reachable s a}"
  shows "gc_ok (sweep s)" "addresses (gs_heap (sweep s)) = {a. reachable s a}" "reachable (sweep s) = reachable s"
proof -
  let ?heap = "gs_heap s" and ?kept = "filter hn_marked (gs_heap s)"
  have dist: "distinct (map hn_object ?heap)" using ok by (simp add: gc_ok_def heap_ok_def)
  have heap': "gs_heap (sweep s) = ?kept" by (simp add: sweep_def Let_def)
  have roots: "root_pointers (sweep s) = root_pointers s" "roots_ok (sweep s) = roots_ok s"
    by (simp_all add: sweep_def Let_def root_pointers_heap)
  have kept: "addresses ?kept = {a. reachable s a}" unfolding marked [symmetric] by (simp add: addresses_def marked_def)
  then show "addresses (gs_heap (sweep s)) = {a. reachable s a}" by (simp add: heap')
  have survives: "owner ?kept p = Some a" if "owner ?heap p = Some a" "reachable s a" for p a
    using that(1) dist
  proof (rule owner_filter)
    fix n assume "n \<in> set ?heap" "hn_object n = a"
    with marked_node [OF dist] that(2) marked show "hn_marked n" by blast
  qed
  have root_kept: "owner ?kept p = owner ?heap p" if "p \<in> root_pointers s" for p
  proof (cases "owner ?heap p")
    case (Some a)
    with that survives show ?thesis by (auto intro: reachable.root)
  qed (simp add: owner_filter_None)
  have content: "content_at ?kept a = content_at ?heap a" if "reachable s a" for a
    using that dist kept by (intro content_at_filter) auto
  have reference_kept: "owner ?kept p = owner ?heap p"
    if "reachable s a" "content_at ?heap a = Some c" "p \<in> reference_set c" for a c p
  proof (cases "owner ?heap p")
    case (Some b)
    have "reachable s b" using that(1) reference_owner [OF that(2,3) Some] by (rule reachable.field)
    with Some survives show ?thesis by simp
  qed (simp add: owner_filter_None)
  have successors_kept: "successors ?kept a = successors ?heap a" if "reachable s a" for a
    unfolding successors_def content [OF that] using reference_kept [OF that] by metis
  have node: "reachable s (hn_object n) \<and> content_at ?heap (hn_object n) = Some (hn_content n)" if "n \<in> set ?kept" for n
    using that kept find_objectI [OF dist] by (auto simp: addresses_def content_at_def)
  have "reachable (sweep s) a" if "reachable s a" for a
    using that
    by (induction rule: reachable.induct) (auto simp: heap' roots root_kept successors_kept intro: reachable.intros)
  moreover have "reachable s a" if "reachable (sweep s) a" for a
    using that
    by (induction rule: reachable.induct)
      (auto simp: heap' roots root_kept successors_kept intro: reachable.root dest: reachable.field)
  ultimately show "reachable (sweep s) = reachable s" by blast
  have valid: "p = 0 \<or> owner ?heap p \<noteq> None"
    if "p \<in> root_pointers s \<or> (\<exists>n \<in> set ?heap. p \<in> reference_set (hn_content n))" for p
    using ok that unfolding gc_ok_def no_dangling_def by blast
  have "p = 0 \<or> owner ?kept p \<noteq> None" if n: "n \<in> set ?kept" "p \<in> reference_set (hn_content n)" for n p
  proof -
    have "owner ?kept p = owner ?heap p" using reference_kept node [OF n(1)] n(2) by blast
    moreover have "n \<in> set ?heap" using n(1) by simp
    ultimately show ?thesis using valid n(2) by metis
  qed
  then have "no_dangling (sweep s)"
    unfolding no_dangling_def heap' roots using root_kept valid by metis
  moreover have "heap_ok (sweep s)"
    using ok by (auto simp: gc_ok_def heap_ok_def heap' roots contents_ok_def intro: distinct_map_filter)
  moreover have "gs_object_count (sweep s) = length ?kept"
    using ok by (simp add: gc_ok_def sweep_def Let_def)
  ultimately show "gc_ok (sweep s)" using ok by (simp add: gc_ok_def heap')
qed

subsection \<open>Finalizers\<close>

text \<open>
  The destructor of an object belongs to the compiled program. It returns, since an exception that
  leaves it ends the process; it cannot allocate or collect, since these calls abort while it
  runs; like every code of the program it stores valid references only; and it takes off the
  frames that it has pushed.
\<close>

definition same_threads :: "gc_state \<Rightarrow> gc_state \<Rightarrow> bool" where
  "same_threads s t \<longleftrightarrow> gs_threads t = gs_threads s \<and> gs_gil t = gs_gil s \<and> gs_thread_registry t = gs_thread_registry s"

definition well_behaved :: "finalizer \<Rightarrow> nat \<Rightarrow> bool" where
  "well_behaved fin self \<longleftrightarrow> (\<forall>metadata object s. gc_ok s \<longrightarrow>
     (\<exists>s'. fin metadata object s = Inr s' \<and> gc_ok s' \<and> map hn_object (gs_heap s') = map hn_object (gs_heap s) \<and>
       same_threads s s'))"

lemma same_threads_trans: "same_threads s t \<Longrightarrow> same_threads t u \<Longrightarrow> same_threads s u"
  by (simp add: same_threads_def)

text \<open>A flag of the thread that is set and cleared again.\<close>

lemma same_threads_flags:
  "same_threads (on_thread self (th_running_destructor_update (\<lambda>_. True)) s) t \<Longrightarrow> \<not> th_running_destructor (gs_threads s self) \<Longrightarrow>
     same_threads s (on_thread self (th_running_destructor_update (\<lambda>_. False)) t)"
  "same_threads (on_thread self (th_collecting_update (\<lambda>_. True)) s) t \<Longrightarrow> \<not> th_collecting (gs_threads s self) \<Longrightarrow>
     same_threads s (on_thread self (th_collecting_update (\<lambda>_. False)) t)"
  by (auto simp: same_threads_def on_thread_def intro!: fun_upd_idem thread_state.equality)

lemma same_threads_on_node [simp]:
  "same_threads s (on_node a f t) = same_threads s t" "same_threads (on_node a f s) t = same_threads s t"
  "gs_threads (on_node a f s) = gs_threads s"
  by (simp_all add: same_threads_def on_node_def)

lemma finalize_node_ok:
  assumes "well_behaved fin self" "gc_ok s" "a \<in> addresses (gs_heap s)" "\<not> th_running_destructor (gs_threads s self)"
  shows "\<exists>s'. finalize_node fin self a s = Inr s' \<and> gc_ok s' \<and> map hn_object (gs_heap s') = map hn_object (gs_heap s) \<and>
    same_threads s s'"
proof -
  have "distinct (map hn_object (gs_heap s))" "contents_ok (gs_heap s)" using assms(2) by (simp_all add: gc_ok_def heap_ok_def)
  with assms(3) obtain node where node: "find_object (gs_heap s) a = Some node" "is_ok (references (hn_content node))"
    using find_object_address find_objectD by (metis contents_ok_def content_ok_def)
  show ?thesis
  proof (cases "hn_marked node \<or> hn_destroyed node")
    case True
    with node assms(2) show ?thesis by (auto simp: finalize_node_def same_threads_def)
  next
    case False
    from node(2) obtain metadata where metadata: "content_metadata (hn_content node) = Some metadata"
      by (cases "hn_content node" rule: references.cases) auto
    let ?s = "on_node a (hn_destroyed_update (\<lambda>_. True)) s"
    let ?t = "on_thread self (th_running_destructor_update (\<lambda>_. True)) (on_node a (hn_destroying_update (\<lambda>_. True)) ?s)"
    have kept: "map hn_object (gs_heap ?s) = map hn_object (gs_heap s)" "gc_ok ?s"
        "map hn_object (gs_heap ?t) = map hn_object (gs_heap s)" "gc_ok ?t"
      using assms(2) by (simp_all add: gc_ok_on_node gc_ok_on_thread) (simp_all add: on_node_def on_thread_def map_object_update)
    show ?thesis
    proof (cases "me_finalize metadata")
      case True
      from assms(1) kept(4) obtain u where u: "fin metadata a ?t = Inr u" "gc_ok u" "map hn_object (gs_heap u) = map hn_object (gs_heap ?t)"
          "same_threads ?t u"
        unfolding well_behaved_def by blast
      let ?u = "on_thread self (th_running_destructor_update (\<lambda>_. False)) u"
      have "same_threads s ?u"
        using same_threads_flags(1) [of self "on_node a (hn_destroying_update (\<lambda>_. True)) ?s" u] u(4) assms(4)
        by simp
      moreover have "gc_ok (on_node a (hn_destroying_update (\<lambda>_. False)) ?u)" using u(2) by (simp add: gc_ok_on_node gc_ok_on_thread)
      moreover have "map hn_object (gs_heap (on_node a (hn_destroying_update (\<lambda>_. False)) ?u)) = map hn_object (gs_heap s)"
        using u(3) kept(3) by (simp add: on_node_def on_thread_def map_object_update)
      ultimately show ?thesis using u(1) True False node(1) metadata by (simp add: finalize_node_def Let_def)
    next
      case no_finalizer: False
      with False node(1) metadata kept show ?thesis by (simp add: finalize_node_def Let_def) (simp add: same_threads_def)
    qed
  qed
qed

lemma finalize_nodes_ok:
  assumes "well_behaved fin self" "gc_ok s" "set as \<subseteq> addresses (gs_heap s)" "\<not> th_running_destructor (gs_threads s self)"
  shows "\<exists>s'. fold_run (finalize_node fin self) as s = Inr s' \<and> gc_ok s' \<and> map hn_object (gs_heap s') = map hn_object (gs_heap s) \<and>
    same_threads s s'"
  using assms(2-)
proof (induction as arbitrary: s)
  case Nil
  then show ?case by (simp add: same_threads_def)
next
  case (Cons a as)
  then obtain t where t: "finalize_node fin self a s = Inr t" "gc_ok t" "map hn_object (gs_heap t) = map hn_object (gs_heap s)"
      "same_threads s t"
    using finalize_node_ok [OF assms(1), of s a] by auto
  have "addresses (gs_heap t) = addresses (gs_heap s)" using arg_cong [OF t(3), of set] by (simp add: addresses_def)
  moreover have "\<not> th_running_destructor (gs_threads t self)" using Cons.prems(3) t(4) by (simp add: same_threads_def)
  ultimately obtain u where "fold_run (finalize_node fin self) as t = Inr u" "gc_ok u"
      "map hn_object (gs_heap u) = map hn_object (gs_heap t)" "same_threads t u"
    using Cons.IH [OF t(2)] Cons.prems(2) by auto
  with t show ?case by (auto intro: same_threads_trans)
qed

subsection \<open>Collection\<close>

lemma mark_reachable_ok:
  assumes "gc_ok s" "length (gs_heap s) \<le> capacity"
  shows "\<exists>heap. mark_reachable capacity s = Inr (s\<lparr>gs_heap := heap\<rparr>) \<and> unmark heap = unmark (gs_heap s) \<and>
    gc_ok (s\<lparr>gs_heap := heap\<rparr>) \<and> reachable (s\<lparr>gs_heap := heap\<rparr>) = reachable s \<and> marked heap = {a. reachable s a}"
proof -
  have "heap_ok s" using assms(1) by (simp add: gc_ok_def)
  from mark_reachable_exact [OF this assms(2)] obtain heap where
      heap: "mark_reachable capacity s = Inr (s\<lparr>gs_heap := heap\<rparr>)" "unmark heap = unmark (gs_heap s)"
        "marked heap = {a. reachable s a}" by blast
  let ?t = "s\<lparr>gs_heap := heap\<rparr>"
  have "gc_ok ?t"
    using gc_ok_shape [of s ?t] assms(1) same_shape_unmark [OF heap(2)] by (simp add: root_pointers_heap)
  moreover have "reachable ?t = reachable s"
    by (rule reachable_shape) (simp_all add: same_shape_unmark [OF heap(2)] root_pointers_heap)
  ultimately show ?thesis using heap by blast
qed

lemma reachable_on_thread:
  assumes "\<And>t. th_root_frame (f t) = th_root_frame t"
  shows "reachable (on_thread self f s) = reachable s"
  by (rule reachable_shape) (simp_all add: gc_ok_on_thread(2) [OF assms], simp add: on_thread_def same_shape_def)

text \<open>The second marking and the sweep.\<close>

lemma mark_and_sweep:
  assumes "gc_ok s" "length (gs_heap s) \<le> capacity"
  shows "\<exists>t. mark_reachable capacity s = Inr t \<and> gc_ok (sweep t) \<and>
    addresses (gs_heap (sweep t)) = {a. reachable (sweep t) a} \<and> reachable (sweep t) = reachable s \<and>
    unmark (gs_heap t) = unmark (gs_heap s) \<and> marked (gs_heap t) = {a. reachable s a} \<and>
    t = s\<lparr>gs_heap := gs_heap t\<rparr>"
proof -
  from mark_reachable_ok [OF assms] obtain heap where
      heap: "mark_reachable capacity s = Inr (s\<lparr>gs_heap := heap\<rparr>)" "unmark heap = unmark (gs_heap s)"
        "gc_ok (s\<lparr>gs_heap := heap\<rparr>)" "reachable (s\<lparr>gs_heap := heap\<rparr>) = reachable s" "marked heap = {a. reachable s a}"
    by blast
  have "marked (gs_heap (s\<lparr>gs_heap := heap\<rparr>)) = {a. reachable (s\<lparr>gs_heap := heap\<rparr>) a}" using heap(4,5) by simp
  from sweep_exact [OF heap(3) this] heap show ?thesis by auto
qed

text \<open>What a collection does, with the state after the finalizers.\<close>

lemma collect_phases:
  assumes "gc_ok s" "\<not> collector_busy self s" "gs_object_count s \<le> uint64_max div 8" "well_behaved fin self"
  shows "\<exists>m u t. mark_reachable (length (gs_heap s)) (on_thread self (th_collecting_update (\<lambda>_. True)) s) = Inr m \<and>
    unmark (gs_heap m) = unmark (gs_heap s) \<and> marked (gs_heap m) = {a. reachable s a} \<and>
    root_pointers m = root_pointers s \<and> gs_memory m = gs_memory s \<and>
    gs_thread_registry u = gs_thread_registry s \<and> (\<forall>x. th_root_frame (gs_threads u x) = th_root_frame (gs_threads s x)) \<and>
    fold_run (finalize_node fin self) (map hn_object (gs_heap m)) m = Inr u \<and> gc_ok u \<and>
    mark_reachable (length (gs_heap s)) u = Inr t \<and> unmark (gs_heap t) = unmark (gs_heap u) \<and>
    marked (gs_heap t) = {a. reachable u a} \<and>
    cwhip_gc_collect fin self s = Inr (on_thread self (th_collecting_update (\<lambda>_. False)) (sweep t)) \<and>
    gc_ok (sweep t) \<and> addresses (gs_heap (sweep t)) = {a. reachable (sweep t) a} \<and> reachable (sweep t) = reachable u \<and>
    same_threads s (on_thread self (th_collecting_update (\<lambda>_. False)) (sweep t))"
proof -
  let ?s = "on_thread self (th_collecting_update (\<lambda>_. True)) s"
  have s: "gc_ok ?s" "reachable ?s = reachable s" "gs_heap ?s = gs_heap s"
    using assms(1) by (simp_all add: gc_ok_on_thread reachable_on_thread) (simp add: on_thread_def)
  have count: "gs_object_count s = length (gs_heap s)" using assms(1) by (simp add: gc_ok_def)
  from mark_and_sweep [OF s(1), of "length (gs_heap s)"] s obtain m where
      m: "mark_reachable (length (gs_heap s)) ?s = Inr m" "unmark (gs_heap m) = unmark (gs_heap s)"
        "marked (gs_heap m) = {a. reachable s a}" and eq: "m = ?s\<lparr>gs_heap := gs_heap m\<rparr>" by auto
  have "root_pointers m = root_pointers s"
    by (subst eq) (simp add: root_pointers_heap gc_ok_on_thread(2))
  moreover have "gs_memory m = gs_memory s" by (subst eq) (simp add: on_thread_def)
  note m = m calculation this
  have "gc_ok m" using mark_reachable_ok [OF s(1), of "length (gs_heap s)"] s(3) m(1) by auto
  moreover have threads_m: "same_threads ?s m" by (subst eq) (simp add: same_threads_def)
  moreover have "\<not> th_running_destructor (gs_threads ?s self)"
    using assms(2) by (simp add: collector_busy_def on_thread_def)
  ultimately obtain u where
      u: "fold_run (finalize_node fin self) (map hn_object (gs_heap m)) m = Inr u" "gc_ok u"
        "map hn_object (gs_heap u) = map hn_object (gs_heap m)" "same_threads m u"
    using finalize_nodes_ok [OF assms(4), of m "map hn_object (gs_heap m)"] by (auto simp: addresses_def same_threads_def)
  then have frames: "gs_thread_registry u = gs_thread_registry s" "th_root_frame (gs_threads u x) = th_root_frame (gs_threads s x)" for x
    using threads_m by (simp_all add: same_threads_def) (simp_all add: on_thread_def)
  have "length (gs_heap u) = length (gs_heap m)" using arg_cong [OF u(3), of length] by simp
  also have "\<dots> = length (gs_heap s)" using arg_cong [OF m(2), of length] by (simp add: mark_simps)
  finally have "length (gs_heap u) \<le> length (gs_heap s)" by simp
  from mark_and_sweep [OF u(2) this] obtain t where
      t: "mark_reachable (length (gs_heap s)) u = Inr t" "gc_ok (sweep t)"
        "addresses (gs_heap (sweep t)) = {a. reachable (sweep t) a}" "reachable (sweep t) = reachable u"
        "unmark (gs_heap t) = unmark (gs_heap u)" "marked (gs_heap t) = {a. reachable u a}"
        "t = u\<lparr>gs_heap := gs_heap t\<rparr>" by blast
  have "same_threads u (sweep t)" by (subst t(7)) (simp add: same_threads_def sweep_def Let_def)
  then have "same_threads ?s (sweep t)" using threads_m u(4) same_threads_trans by blast
  then have "same_threads s (on_thread self (th_collecting_update (\<lambda>_. False)) (sweep t))"
    using assms(2) by (intro same_threads_flags) (auto simp: collector_busy_def)
  note t = t this
  have "gs_object_count ?s = length (gs_heap s)" by (simp add: on_thread_def count)
  then have "cwhip_gc_collect fin self s = Inr (on_thread self (th_collecting_update (\<lambda>_. False)) (sweep t))"
    using assms(2,3) m(1) u(1) t(1) count by (simp add: cwhip_gc_collect_def)
  with m u t frames show ?thesis by auto
qed

text \<open>
  C6: A collection returns: the worklist never overflows and the tracing ends. After it, the heap
  consists of exactly the objects that can be reached from the roots, so every other object,
  cycles of garbage included, has been freed; the count of objects is right, and no root and no
  object refers to freed memory. This holds whatever the finalizers do to the objects, as long as they
  return and store valid references.
\<close>

theorem cwhip_gc_collect_frees_garbage:
  assumes "gc_ok s" "\<not> collector_busy self s" "gs_object_count s \<le> uint64_max div 8" "well_behaved fin self"
  shows "\<exists>s'. cwhip_gc_collect fin self s = Inr s' \<and> gc_ok s' \<and> addresses (gs_heap s') = {a. reachable s' a}"
proof -
  from collect_phases [OF assms] obtain t where t: "gc_ok (sweep t)"
      "cwhip_gc_collect fin self s = Inr (on_thread self (th_collecting_update (\<lambda>_. False)) (sweep t))"
      "addresses (gs_heap (sweep t)) = {a. reachable (sweep t) a}" by blast
  let ?r = "on_thread self (th_collecting_update (\<lambda>_. False)) (sweep t)"
  have "gc_ok ?r" "reachable ?r = reachable (sweep t)" "gs_heap ?r = gs_heap (sweep t)"
    using t(1) by (simp_all add: gc_ok_on_thread reachable_on_thread) (simp add: on_thread_def)
  with t show ?thesis by auto
qed

text \<open>
  A finalizer may store its object in an object that is still in use, which then changes, or take
  back a root. The objects that a collection keeps as they are therefore depend on what the
  finalizers that run leave alone. A set \<open>K\<close> of objects is spared if these finalizers change neither
  its objects nor the roots, and for no object what only the collector writes: its address, size,
  metadata and mark.
\<close>

definition node_header :: "heap_node \<Rightarrow> nat \<times> nat \<times> class_meta option \<times> bool" where
  "node_header n = (hn_object n, hn_allocation_size n, content_metadata (hn_content n), hn_marked n)"

definition keeps_nodes :: "nat set \<Rightarrow> gc_state \<Rightarrow> gc_state \<Rightarrow> bool" where
  "keeps_nodes K s t \<longleftrightarrow> map node_header (gs_heap t) = map node_header (gs_heap s) \<and> root_pointers t = root_pointers s \<and>
     filter (\<lambda>n. hn_object n \<in> K) (gs_heap t) = filter (\<lambda>n. hn_object n \<in> K) (gs_heap s)"

definition finalizers_spare :: "finalizer \<Rightarrow> gc_state \<Rightarrow> nat set \<Rightarrow> bool" where
  "finalizers_spare fin s K \<longleftrightarrow> (\<forall>node \<in> set (gs_heap s). \<forall>metadata t t'.
     \<not> reachable s (hn_object node) \<and> content_metadata (hn_content node) = Some metadata \<and> me_finalize metadata \<and>
     fin metadata (hn_object node) t = Inr t' \<longrightarrow> keeps_nodes K t t')"

text \<open>The objects reached from the roots through objects of \<open>K\<close> only.\<close>

inductive reachable_within :: "nat set \<Rightarrow> gc_state \<Rightarrow> nat \<Rightarrow> bool" for K s where
  within_root: "p \<in> root_pointers s \<Longrightarrow> owner (gs_heap s) p = Some a \<Longrightarrow> a \<in> K \<Longrightarrow> reachable_within K s a"
| within_field: "reachable_within K s a \<Longrightarrow> b \<in> successors (gs_heap s) a \<Longrightarrow> b \<in> K \<Longrightarrow> reachable_within K s b"

lemma reachable_within_all: "{a. reachable s a} \<subseteq> {a. reachable_within {a. reachable s a} s a}"
proof
  fix a assume "a \<in> {a. reachable s a}"
  then have "reachable s a" by simp
  then show "a \<in> {a. reachable_within {a. reachable s a} s a}"
    by (induction rule: reachable.induct) (auto intro: reachable.intros reachable_within.intros)
qed

lemma reachable_withinD: "reachable_within K s a \<Longrightarrow> a \<in> K \<and> reachable s a"
  by (induction rule: reachable_within.induct) (auto intro: reachable.intros)

lemma keeps_nodes_refl: "keeps_nodes K s s"
  by (simp add: keeps_nodes_def)

lemma keeps_nodes_trans: "keeps_nodes K s t \<Longrightarrow> keeps_nodes K t u \<Longrightarrow> keeps_nodes K s u"
  by (simp add: keeps_nodes_def)

lemma keeps_nodes_on_node:
  assumes "a \<notin> K" "\<And>n. node_header (f n) = node_header n"
  shows "keeps_nodes K s (on_node a f s)"
proof -
  have "hn_object (f n) = hn_object n" for n using arg_cong [OF assms(2) [of n], of fst] by (simp add: node_header_def)
  then have "filter (\<lambda>n. hn_object n \<in> K) (update_node a f heap) = filter (\<lambda>n. hn_object n \<in> K) heap \<and>
      map node_header (update_node a f heap) = map node_header heap" for heap
    using assms by (induction heap) (auto simp: update_node_def)
  then show ?thesis by (simp add: keeps_nodes_def on_node_def root_pointers_heap)
qed

lemma keeps_nodes_on_thread:
  "(\<And>t. th_root_frame (f t) = th_root_frame t) \<Longrightarrow> keeps_nodes K s (on_thread self f s)"
  by (simp add: keeps_nodes_def gc_ok_on_thread(2)) (simp add: on_thread_def)

lemma header_flags [simp]:
  "node_header (hn_destroyed_update f n) = node_header n" "node_header (hn_destroying_update f n) = node_header n"
  by (simp_all add: node_header_def)

lemma finalize_node_spares:
  assumes "finalizers_spare fin s K" "K \<subseteq> {a. reachable s a}" "keeps_nodes K s t" "finalize_node fin self a t = Inr u"
    and marked: "\<forall>n \<in> set (gs_heap s). reachable s (hn_object n) \<longrightarrow> hn_marked n"
  shows "keeps_nodes K s u"
proof -
  from assms(4) obtain node where node: "find_object (gs_heap t) a = Some node"
    by (auto simp: finalize_node_def split: option.splits)
  note in_heap = find_objectD [OF node]
  have "node_header node \<in> node_header ` set (gs_heap t)" using in_heap by blast
  also have "\<dots> = node_header ` set (gs_heap s)"
    using assms(3) [unfolded keeps_nodes_def, THEN conjunct1, THEN arg_cong, of set] by simp
  finally obtain n where n: "n \<in> set (gs_heap s)" "hn_object n = a" "hn_marked n = hn_marked node"
      "content_metadata (hn_content n) = content_metadata (hn_content node)"
    using in_heap by (auto simp: node_header_def)
  show ?thesis
  proof (cases "reachable s a")
    case True
    then have "hn_marked node" using marked n by metis
    with node assms(3,4) show ?thesis by (simp add: finalize_node_def)
  next
    case False
    with assms(2) have outside: "a \<notin> K" by auto
    have fin: "keeps_nodes K x x'"
      if "content_metadata (hn_content node) = Some metadata" "me_finalize metadata" "fin metadata a x = Inr x'" for metadata x x'
      using assms(1) n False that unfolding finalizers_spare_def by metis
    have flags: "keeps_nodes K x (on_node a (hn_destroyed_update f) x)" "keeps_nodes K x (on_node a (hn_destroying_update f) x)"
        "keeps_nodes K x (on_thread self (th_running_destructor_update f) x)" for x f
      using outside by (simp_all add: keeps_nodes_on_node keeps_nodes_on_thread)
    note steps = flags [THEN keeps_nodes_trans [rotated]]
    have "keeps_nodes K t u"
      using assms(4) node
      by (auto simp: finalize_node_def Let_def bindE_Inr_iff intro!: steps keeps_nodes_refl split: if_splits option.splits)
        (metis fin flags keeps_nodes_trans)+
    with assms(3) show ?thesis by (rule keeps_nodes_trans)
  qed
qed

lemma finalize_nodes_spare:
  assumes "finalizers_spare fin s K" "K \<subseteq> {a. reachable s a}" "\<forall>n \<in> set (gs_heap s). reachable s (hn_object n) \<longrightarrow> hn_marked n"
    and "keeps_nodes K s t" "fold_run (finalize_node fin self) as t = Inr u"
  shows "keeps_nodes K s u"
  using assms(4,5)
proof (induction as arbitrary: t)
  case (Cons a as)
  then obtain x where x: "finalize_node fin self a t = Inr x" "fold_run (finalize_node fin self) as x = Inr u"
    by (auto simp: bindE_Inr_iff)
  from finalize_node_spares [OF assms(1,2) Cons.prems(1) x(1) assms(3)] show ?case using x(2) by (rule Cons.IH)
qed simp

text \<open>What can be reached within \<open>K\<close> depends on the objects of \<open>K\<close> and the roots only.\<close>

definition node_block :: "heap_node \<Rightarrow> nat \<times> nat" where
  "node_block n = (hn_object n, hn_allocation_size n)"

lemma owner_block:
  assumes "map node_block heap' = map node_block heap"
  shows "owner heap' p = owner heap p"
  using assms
proof (induction heap arbitrary: heap')
  case (Cons n heap)
  then obtain n' heap2 where h: "heap' = n' # heap2" "node_block n' = node_block n" "map node_block heap2 = map node_block heap"
    by auto
  then have "hn_object n' = hn_object n" "hn_allocation_size n' = hn_allocation_size n" by (simp_all add: node_block_def)
  with Cons.IH [OF h(3), unfolded owner_def find_containing_object_def] h(1) show ?case
    by (cases "p = 0") (simp_all add: owner_def find_containing_object_def)
qed simp

lemma owner_header:
  assumes "map node_header heap' = map node_header heap"
  shows "owner heap' p = owner heap p"
  using arg_cong [OF assms, of "map (\<lambda>(a, n, rest). (a, n))"]
  by (intro owner_block) (simp add: comp_def node_header_def node_block_def [abs_def])

lemma content_at_kept:
  assumes "filter (\<lambda>n. hn_object n \<in> K) heap' = filter (\<lambda>n. hn_object n \<in> K) heap" "a \<in> K"
  shows "content_at heap' a = content_at heap a"
proof -
  have "find_object h a = find_object (filter (\<lambda>n. hn_object n \<in> K) h) a" for h
    using assms(2) by (induction h) (auto simp: find_object_def)
  from this [of heap'] this [of heap] show ?thesis by (simp add: content_at_def assms(1))
qed

lemma keeps_nodes_lookup:
  assumes "keeps_nodes K s t"
  shows "root_pointers t = root_pointers s" "owner (gs_heap t) p = owner (gs_heap s) p"
    "a \<in> K \<Longrightarrow> successors (gs_heap t) a = successors (gs_heap s) a"
proof -
  note keeps = assms [unfolded keeps_nodes_def]
  show "root_pointers t = root_pointers s" using keeps by blast
  have owner: "owner (gs_heap t) p = owner (gs_heap s) p" for p using keeps by (intro owner_header) blast
  then show "owner (gs_heap t) p = owner (gs_heap s) p" .
  assume "a \<in> K"
  then have "content_at (gs_heap t) a = content_at (gs_heap s) a" using keeps by (intro content_at_kept) auto
  then show "successors (gs_heap t) a = successors (gs_heap s) a" by (simp only: successors_def owner)
qed

lemma reachable_within_keeps:
  assumes "keeps_nodes K s t" "reachable_within K s a"
  shows "reachable_within K t a"
  using assms(2)
proof (induction rule: reachable_within.induct)
  case (within_root p a)
  then show ?case using keeps_nodes_lookup [OF assms(1)] by (metis reachable_within.within_root)
next
  case (within_field a b)
  have "a \<in> K" using reachable_withinD within_field(1) by blast
  then show ?case using within_field keeps_nodes_lookup(3) [OF assms(1)] by (metis reachable_within.within_field)
qed

lemma keeps_nodes_reachable:
  assumes "keeps_nodes {a. reachable s a} s t"
  shows "reachable t = reachable s"
proof -
  have "reachable s a" if "reachable t a" for a
    using that
  proof (induction rule: reachable.induct)
    case (root p a)
    then show ?case using keeps_nodes_lookup [OF assms] by (metis reachable.root)
  next
    case (field a b)
    then have "successors (gs_heap t) a = successors (gs_heap s) a" using keeps_nodes_lookup(3) [OF assms] by simp
    with field show ?case by (metis reachable.field)
  qed
  moreover have "reachable t a" if "reachable s a" for a
    using reachable_within_keeps [OF assms] reachable_within_all [of s] that by (auto dest: reachable_withinD)
  ultimately show ?thesis by blast
qed

lemma finalizers_spare_unmark:
  assumes "finalizers_spare fin s K" "unmark (gs_heap m) = unmark (gs_heap s)" "reachable m = reachable s"
  shows "finalizers_spare fin m K"
proof -
  define Q where "Q = (\<lambda>(a, c). \<forall>metadata t t'. \<not> reachable s a \<and> content_metadata c = Some metadata \<and> me_finalize metadata \<and>
      fin metadata a t = Inr t' \<longrightarrow> keeps_nodes K t t')"
  have spare: "finalizers_spare fin x K \<longleftrightarrow> (\<forall>y \<in> (\<lambda>n. (hn_object n, hn_content n)) ` set (gs_heap x). Q y)"
    if "reachable x = reachable s" for x
    by (simp add: finalizers_spare_def Q_def that)
  have "(\<lambda>n. (hn_object n, hn_content n)) ` set (unmark (gs_heap m)) = (\<lambda>n. (hn_object n, hn_content n)) ` set (unmark (gs_heap s))"
    by (simp add: assms(2))
  then have "(\<lambda>n. (hn_object n, hn_content n)) ` set (gs_heap m) = (\<lambda>n. (hn_object n, hn_content n)) ` set (gs_heap s)"
    by (simp add: unmark_def image_image)
  with assms(1) show ?thesis unfolding spare [OF refl] spare [OF assms(3)] by simp
qed


text \<open>
  A pointer that the caller of an operation keeps in use over a collection: it points into an object to which a slot
  of a frame refers, and no finalizer writes this slot (it is a local variable of a caller) or
  moves an object.
\<close>

definition rooted :: "finalizer \<Rightarrow> gc_state \<Rightarrow> nat \<Rightarrow> bool" where
  "rooted fin s r \<longleftrightarrow> owner (gs_heap s) r \<noteq> None \<and>
     (\<exists>thread \<in> set (gs_thread_registry s). \<exists>frame \<in> set (th_root_frame (gs_threads s thread)).
      \<exists>index < rf_count frame. \<exists>p. slot_pointer (gs_memory s) frame index = Inr p \<and> owner (gs_heap s) p = owner (gs_heap s) r \<and>
        (\<forall>metadata object t t'. fin metadata object t = Inr t' \<longrightarrow>
           slot_pointer (gs_memory t') frame index = slot_pointer (gs_memory t) frame index \<and>
           map node_block (gs_heap t') = map node_block (gs_heap t)))"

lemma finalize_node_slot:
  assumes "\<And>metadata object t t'. fin metadata object t = Inr t' \<Longrightarrow>
      slot_pointer (gs_memory t') frame index = slot_pointer (gs_memory t) frame index \<and>
      map node_block (gs_heap t') = map node_block (gs_heap t)"
    and "finalize_node fin self a s = Inr t"
  shows "slot_pointer (gs_memory t) frame index = slot_pointer (gs_memory s) frame index \<and>
    map node_block (gs_heap t) = map node_block (gs_heap s)"
proof -
  have flags: "gs_memory (on_node a f x) = gs_memory x" "gs_memory (on_thread self g x) = gs_memory x"
      "gs_heap (on_thread self g x) = gs_heap x" for x f g
    by (simp_all add: on_node_def on_thread_def)
  have blocks: "map node_block (gs_heap (on_node a (hn_destroyed_update f) x)) = map node_block (gs_heap x)"
      "map node_block (gs_heap (on_node a (hn_destroying_update f) x)) = map node_block (gs_heap x)" for x f
    by (simp_all add: on_node_def update_node_def node_block_def)
  from assms(2) show ?thesis
    by (auto simp: finalize_node_def Let_def bindE_Inr_iff flags blocks dest!: assms(1) split: option.splits if_splits)
qed

lemma finalize_nodes_slot:
  assumes "\<And>metadata object t t'. fin metadata object t = Inr t' \<Longrightarrow>
      slot_pointer (gs_memory t') frame index = slot_pointer (gs_memory t) frame index \<and>
      map node_block (gs_heap t') = map node_block (gs_heap t)"
    and "fold_run (finalize_node fin self) as s = Inr t"
  shows "slot_pointer (gs_memory t) frame index = slot_pointer (gs_memory s) frame index \<and>
    map node_block (gs_heap t) = map node_block (gs_heap s)"
  using assms(2)
proof (induction as arbitrary: s)
  case (Cons a as)
  then obtain x where x: "finalize_node fin self a s = Inr x" "fold_run (finalize_node fin self) as x = Inr t"
    by (auto simp: bindE_Inr_iff)
  from finalize_node_slot [OF assms(1) x(1)] Cons.IH [OF x(2)] show ?case by simp
qed simp

lemma rooted_survives:
  assumes "gc_ok s" "\<not> collector_busy self s" "gs_object_count s \<le> uint64_max div 8" "well_behaved fin self"
    and "rooted fin s r" "cwhip_gc_collect fin self s = Inr s'"
  shows "owner (gs_heap s') r = owner (gs_heap s) r \<and> owner (gs_heap s) r \<noteq> None"
proof -
  from collect_phases [OF assms(1-4)] assms(6) obtain m u t where
      m: "unmark (gs_heap m) = unmark (gs_heap s)" "gs_memory m = gs_memory s"
      and u: "fold_run (finalize_node fin self) (map hn_object (gs_heap m)) m = Inr u" "gc_ok u"
        "gs_thread_registry u = gs_thread_registry s" "\<forall>x. th_root_frame (gs_threads u x) = th_root_frame (gs_threads s x)"
      and t: "unmark (gs_heap t) = unmark (gs_heap u)" "marked (gs_heap t) = {a. reachable u a}"
        "s' = on_thread self (th_collecting_update (\<lambda>_. False)) (sweep t)" by auto
  from assms(5) obtain thread frame index p a where
      r: "owner (gs_heap s) r = Some a" "owner (gs_heap s) p = Some a" "slot_pointer (gs_memory s) frame index = Inr p"
      and slot: "thread \<in> set (gs_thread_registry s)" "frame \<in> set (th_root_frame (gs_threads s thread))" "index < rf_count frame"
      and fin: "\<And>metadata object t t'. fin metadata object t = Inr t' \<Longrightarrow>
        slot_pointer (gs_memory t') frame index = slot_pointer (gs_memory t) frame index \<and>
        map node_block (gs_heap t') = map node_block (gs_heap t)"
    unfolding rooted_def by fastforce
  from finalize_nodes_slot [OF fin u(1)] have u_slot: "slot_pointer (gs_memory u) frame index = Inr p"
      and blocks: "map node_block (gs_heap u) = map node_block (gs_heap m)" using r(3) m(2) by simp_all
  have owner: "owner (gs_heap u) q = owner (gs_heap s) q" for q
    unfolding owner_block [OF blocks] by (metis m(1) owner_unmark)
  have "p \<in> root_pointers u"
    unfolding root_pointers_def frame_pointers_def using slot u(3,4) u_slot by auto
  then have "reachable u a" using r(2) owner by (metis reachable.root)
  then have marked: "a \<in> marked (gs_heap t)" using t(2) by simp
  have dist: "distinct (map hn_object (gs_heap t))"
    using arg_cong [OF t(1), of "map hn_object"] u(2) by (simp add: mark_simps gc_ok_def heap_ok_def)
  have "owner (gs_heap t) r = Some a" using r(1) owner by (metis t(1) owner_unmark)
  then have "owner (filter hn_marked (gs_heap t)) r = Some a"
    using dist marked_node [OF dist] marked by (intro owner_filter) auto
  then show ?thesis using r(1) t(3) by (simp add: on_thread_def sweep_def Let_def)
qed

end
