(* ===== verification/Runtime_Alloc.thy ===== *)
theory Runtime_Alloc
  imports Runtime_Collect
begin

text \<open>What the allocation of objects guarantees, and examples of the theorems on the collector.\<close>

subsection \<open>New objects\<close>

text \<open>\<open>calloc\<close> returns a block that overlaps no block in use, at an address other than 0.\<close>

definition free_block :: "heap_node list \<Rightarrow> nat \<Rightarrow> nat \<Rightarrow> bool" where
  "free_block heap a bytes \<longleftrightarrow> a \<noteq> 0 \<and> (\<forall>node \<in> set heap.
     a + bytes \<le> hn_object node \<or> hn_object node + hn_allocation_size node \<le> a)"

definition allocator_ok :: "allocator \<Rightarrow> bool" where
  "allocator_ok calloc \<longleftrightarrow> (\<forall>heap bytes. bytes \<noteq> 0 \<longrightarrow> free_block heap (calloc heap bytes) bytes)"

lemma owner_range:
  assumes "find_containing_object heap p = Some node"
  shows "hn_object node \<le> p \<and> p < hn_object node + hn_allocation_size node"
  using assms by (auto simp: find_containing_object_def find_Some_iff)

lemma owner_Cons:
  assumes "free_block heap (hn_object node) (hn_allocation_size node)" "owner heap p \<noteq> None"
  shows "owner (node # heap) p = owner heap p"
proof -
  from assms(2) obtain n where n: "p \<noteq> 0" "find_containing_object heap p = Some n"
    by (auto simp: owner_def split: if_splits)
  have "\<not> (\<not> p < hn_object node \<and> p - hn_object node < hn_allocation_size node)"
    using assms(1) owner_range [OF n(2)] find_containing_objectD [OF n(2)] by (fastforce simp: free_block_def)
  then have "find_containing_object (node # heap) p = find_containing_object heap p"
    unfolding find_containing_object_def List.find.simps by (rule if_not_P)
  then show ?thesis by (simp add: owner_def)
qed

lemma add_node_ok:
  assumes ok: "gc_ok s" and free: "free_block (gs_heap s) a bytes" "bytes \<noteq> 0"
    and content: "references content = Inr ps" "set ps \<subseteq> {0}" "content_ok content"
  shows "gc_ok (snd (add_node a bytes content is_buffer s))"
proof -
  let ?s = "snd (add_node a bytes content is_buffer s)"
  obtain node where node: "gs_heap ?s = node # gs_heap s" "hn_object node = a" "hn_allocation_size node = bytes"
      "hn_content node = content" by (simp add: add_node_def)
  have roots: "root_pointers ?s = root_pointers s" "roots_ok ?s = roots_ok s"
    by (simp_all add: add_node_def root_pointers_def roots_ok_def)
  have "a \<notin> hn_object ` set (gs_heap s)"
    using free ok by (fastforce simp: free_block_def gc_ok_def)
  then have "heap_ok ?s"
    using ok content node by (auto simp: gc_ok_def heap_ok_def contents_ok_def roots)
  moreover have "owner (gs_heap ?s) p \<noteq> None" if "owner (gs_heap s) p \<noteq> None" for p
    using owner_Cons [of "gs_heap s" node p] that free(1) by (simp add: node)
  then have "no_dangling ?s"
    using ok content unfolding gc_ok_def no_dangling_def roots
    by (fastforce simp: node reference_set_def)
  moreover have "gs_object_count ?s = length (gs_heap ?s)" using ok by (simp add: add_node_def gc_ok_def)
  ultimately show ?thesis using ok free unfolding gc_ok_def by (simp add: node free_block_def)
qed

lemma new_object_references:
  assumes "layout_ok metadata"
  shows "\<exists>ps. references (Plain_object (Some metadata) (\<lambda>_. 0)) = Inr ps \<and> set ps \<subseteq> {0} \<and>
    content_ok (Plain_object (Some metadata) (\<lambda>_. 0))"
  using assms by (auto simp: layout_ok_def static_references_def dynamic_references_def content_ok_def)

text \<open>The collection before an allocation leaves the thread as it was.\<close>

lemma collect_ok:
  assumes "gc_ok s" "\<not> collector_busy self s" "gs_object_count s \<le> uint64_max div 8" "well_behaved fin self"
  obtains s' where "cwhip_gc_collect fin self s = Inr s'" "gc_ok s'" "addresses (gs_heap s') = {a. reachable s' a}"
    "same_threads s s'"
proof -
  from collect_phases [OF assms] obtain t where t: "gc_ok (sweep t)"
      "cwhip_gc_collect fin self s = Inr (on_thread self (th_collecting_update (\<lambda>_. False)) (sweep t))"
      "addresses (gs_heap (sweep t)) = {a. reachable (sweep t) a}"
      "same_threads s (on_thread self (th_collecting_update (\<lambda>_. False)) (sweep t))" by blast
  let ?r = "on_thread self (th_collecting_update (\<lambda>_. False)) (sweep t)"
  have "gc_ok ?r" "reachable ?r = reachable (sweep t)" "gs_heap ?r = gs_heap (sweep t)"
    using t(1) by (simp_all add: gc_ok_on_thread reachable_on_thread) (simp add: on_thread_def)
  with t that show ?thesis by auto
qed

text \<open>
  C23: The allocation of an object with valid metadata collects the garbage and returns an object
  at the address of a new block, with all fields zero, that is not destroyed; all the other objects of
  the heap could be reached, and the invariant holds, so no reference dangles. With metadata whose offsets
  are outside of the object or not aligned it aborts.
\<close>

theorem cwhip_gc_alloc_fresh:
  assumes "gc_ok s" "\<not> collector_busy self s" "gs_object_count s \<le> uint64_max div 8" "well_behaved fin self"
    "allocator_ok calloc"
  shows "if layout_ok c then
      \<exists>t s' node. cwhip_gc_collect fin self s = Inr t \<and> cwhip_gc_alloc fin calloc self (Some c) s = Inr (hn_object node, s') \<and>
        gc_ok s' \<and> gs_heap s' = node # gs_heap t \<and> addresses (gs_heap t) = {a. reachable t a} \<and>
        free_block (gs_heap t) (hn_object node) (me_object_size c) \<and> hn_content node = Plain_object (Some c) (\<lambda>_. 0) \<and>
        \<not> hn_destroyed node \<and> \<not> hn_constructing node
    else cwhip_gc_alloc fin calloc self (Some c) s = Inl Aborted"
proof (cases "layout_ok c")
  case True
  obtain t where t: "cwhip_gc_collect fin self s = Inr t" "gc_ok t" "addresses (gs_heap t) = {a. reachable t a}"
    using collect_ok [OF assms(1-4)] by blast
  let ?a = "calloc (gs_heap t) (me_object_size c)"
  have bytes: "me_object_size c \<noteq> 0" using True by (auto simp: layout_ok_def)
  then have free: "free_block (gs_heap t) ?a (me_object_size c)" using assms(5) by (simp add: allocator_ok_def)
  from new_object_references [OF True] obtain ps where
      "references (Plain_object (Some c) (\<lambda>_. 0)) = Inr ps" "set ps \<subseteq> {0}" "content_ok (Plain_object (Some c) (\<lambda>_. 0))"
    by blast
  from add_node_ok [OF t(2) free bytes this, of "c = buffer_metadata"]
  have "gc_ok (snd (add_node ?a (me_object_size c) (Plain_object (Some c) (\<lambda>_. 0)) (c = buffer_metadata) t))" .
  moreover have "cwhip_gc_alloc fin calloc self (Some c) s =
      Inr (add_node ?a (me_object_size c) (Plain_object (Some c) (\<lambda>_. 0)) (c = buffer_metadata) t)"
    using True assms(2) t(1) by (simp add: cwhip_gc_alloc_def)
  ultimately show ?thesis using True t free by (simp add: add_node_def)
next
  case False
  then show ?thesis using assms(2) by (simp add: cwhip_gc_alloc_def)
qed

subsection \<open>An example\<close>

text \<open>
  An object that a variable refers to, a list in its field that refers back to it, and two
  objects with destructors that refer to each other only.
\<close>

definition sample_class :: class_meta where
  "sample_class = (plain_metadata ''C'' 16)\<lparr>me_reference_field_offsets := [8], me_finalize := True\<rparr>"

definition sample_node :: "nat \<Rightarrow> nat \<Rightarrow> object_content \<Rightarrow> heap_node" where
  "sample_node a bytes content = \<lparr>hn_object = a, hn_allocation_size = bytes, hn_content = content, hn_is_buffer = False,
     hn_marked = False, hn_destroyed = False, hn_destroying = False, hn_constructing = False\<rparr>"

definition sample_thread :: thread_state where
  "sample_thread = \<lparr>th_root_frame = [\<lparr>rf_address = 16, rf_count = 1, rf_slots = Some [8], rf_tags = None\<rparr>],
     th_destroy_stack = [], th_construction_stack = [], th_active_exception = 0, th_active_trace = [],
     th_collecting = False, th_running_destructor = False, th_registered = True, th_gil_held = True\<rparr>"

definition sample_object :: "nat \<Rightarrow> nat \<Rightarrow> heap_node" where
  "sample_object a p = sample_node a 16 (Plain_object (Some sample_class) (\<lambda>_. of_nat p))"

definition sample_list :: heap_node where
  "sample_list = sample_node 200 32 (Array_object \<lparr>ar_length = 1,
     ar_values = [\<lparr>av_tag = tag_number CWHIP_ARRAY_OBJECT, av_integer = 0, av_pointer = 108, av_length = 0\<rparr>]\<rparr>)"

definition sample_state :: gc_state where
  "sample_state = \<lparr>gs_heap = [sample_object 400 300, sample_object 300 400, sample_list, sample_object 100 200],
     gs_object_count = 4, gs_memory = (\<lambda>_. 100), gs_exception_frames = (\<lambda>_. zero_frame), gs_gil = Some 0, gs_thread_registry = [0], gs_threads = (\<lambda>_. sample_thread),
     gs_callback_contexts = [], gs_callback_transfers = []\<rparr>"

lemma sample_roots: "root_pointers sample_state = {100}" "roots_ok sample_state"
  by (auto simp: root_pointers_def roots_ok_def frame_ok_def frame_pointers_def slot_pointer_def cell_def
      sample_state_def sample_thread_def)

lemma sample_references:
  "references (hn_content (sample_object a p)) = Inr [unat (of_nat p :: 64 word)]"
  "references (hn_content sample_list) = Inr [108]"
  by (simp_all add: sample_object_def sample_list_def sample_node_def sample_class_def plain_metadata_def
      static_references_def dynamic_references_def valid_reference_offset_def value_references_def
      dynamic_value_is_gc_reference_def)

lemma sample_nodes:
  "hn_object (sample_object a p) = a" "hn_allocation_size (sample_object a p) = 16"
  "hn_object sample_list = 200" "hn_allocation_size sample_list = 32"
  by (simp_all add: sample_object_def sample_list_def sample_node_def)

lemma sample_ok: "gc_ok sample_state"
proof -
  have heap: "gs_heap sample_state = [sample_object 400 300, sample_object 300 400, sample_list, sample_object 100 200]"
    by (simp add: sample_state_def)
  have "owner (gs_heap sample_state) p \<noteq> None" if "p \<in> {100, 108, 200, 300, 400}" for p
    using that by (auto simp: owner_def find_containing_object_def heap sample_nodes)
  then have "no_dangling sample_state"
    by (simp add: no_dangling_def sample_roots reference_set_def sample_references heap unsigned_of_nat take_bit_nat_eq_self)
  moreover have "heap_ok sample_state"
    by (simp add: heap_ok_def contents_ok_def content_ok_def sample_roots sample_references heap sample_nodes)
      (simp add: sample_object_def sample_list_def sample_node_def array_ok_def array_limit_def uint64_max_def)
  ultimately show ?thesis by (simp add: gc_ok_def heap sample_nodes) (simp add: sample_state_def)
qed

lemma sample_idle: "\<not> collector_busy 0 sample_state" "gs_object_count sample_state \<le> uint64_max div 8"
  by (simp_all add: collector_busy_def sample_state_def sample_thread_def uint64_max_def)

lemma sample_finalizer: "well_behaved (\<lambda>metadata object. Inr) 0" "finalizers_spare (\<lambda>metadata object. Inr) s K"
  by (auto simp: well_behaved_def finalizers_spare_def keeps_nodes_refl same_threads_def)

text \<open>An allocator that returns the first address behind all blocks.\<close>

definition bump_allocator :: allocator where
  "bump_allocator heap bytes = fold (\<lambda>node a. max a (hn_object node + hn_allocation_size node)) heap 16"

lemma bump_allocator_ok: "allocator_ok bump_allocator"
proof -
  have bump: "16 \<le> bump_allocator heap bytes \<and> (\<forall>node \<in> set heap. hn_object node + hn_allocation_size node \<le> bump_allocator heap bytes)"
    for heap bytes
  proof -
    have "start \<le> fold (\<lambda>node a. max a (hn_object node + hn_allocation_size node)) heap start \<and>
        (\<forall>node \<in> set heap. hn_object node + hn_allocation_size node \<le>
          fold (\<lambda>node a. max a (hn_object node + hn_allocation_size node)) heap start)" for start
    proof (induction heap arbitrary: start)
      case (Cons node heap)
      from Cons [of "max start (hn_object node + hn_allocation_size node)"] show ?case by auto
    qed simp
    then show ?thesis by (simp add: bump_allocator_def)
  qed
  show ?thesis
    unfolding allocator_ok_def free_block_def
  proof (intro allI impI conjI ballI disjI2)
    show "bump_allocator heap bytes \<noteq> 0" for heap bytes using bump [of heap bytes] by linarith
  qed (use bump in simp)
qed

theorem cwhip_gc_collect_frees_garbage_witness:
  "\<exists>s'. cwhip_gc_collect (\<lambda>metadata object. Inr) 0 sample_state = Inr s' \<and> gc_ok s' \<and> addresses (gs_heap s') = {a. reachable s' a}"
  using cwhip_gc_collect_frees_garbage [OF sample_ok sample_idle sample_finalizer(1)] .


theorem cwhip_gc_alloc_fresh_witness:
  "\<exists>a s'. cwhip_gc_alloc (\<lambda>metadata object. Inr) bump_allocator 0 (Some sample_class) sample_state = Inr (a, s') \<and> gc_ok s'"
proof -
  have "layout_ok sample_class"
    by (simp add: layout_ok_def sample_class_def plain_metadata_def uint64_max_def valid_reference_offset_def)
  with cwhip_gc_alloc_fresh [OF sample_ok sample_idle sample_finalizer(1) bump_allocator_ok, of sample_class]
  show ?thesis by auto
qed

end
