(* ===== verification/Runtime_Exception.thy ===== *)
theory Runtime_Exception
  imports Runtime_Alloc
begin

text \<open>
  Exceptions of \<open>src/RuntimeGc.c\<close>: the frames of handlers, the stacks of objects under construction
  and destruction, the call trace, and the jump to the innermost handler. \<open>setjmp\<close> and \<open>longjmp\<close> are not
  part of the state: raising returns the address of the frame where the program goes on.
\<close>

subsection \<open>Construction and destruction\<close>

definition cwhip_gc_begin_construction :: "nat \<Rightarrow> nat \<Rightarrow> gc_state \<Rightarrow> gc_state run" where
  "cwhip_gc_begin_construction self object s =
     (case find_object (gs_heap s) object of
        None \<Rightarrow> Inl Aborted
      | Some node \<Rightarrow>
          then_run (abort_if (hn_destroyed node \<or> hn_constructing node))
            (Inr (on_thread self (th_construction_stack_update (\<lambda>stack. object # stack))
              (on_node object (hn_constructing_update (\<lambda>_. True)) s))))"

definition cwhip_gc_end_construction :: "nat \<Rightarrow> nat \<Rightarrow> gc_state \<Rightarrow> gc_state run" where
  "cwhip_gc_end_construction self object s =
     (case find_object (gs_heap s) object of
        None \<Rightarrow> Inl Aborted
      | Some node \<Rightarrow>
          (case th_construction_stack (gs_threads s self) of
             [] \<Rightarrow> Inl Aborted
           | latest # rest \<Rightarrow>
               then_run (abort_if (\<not> hn_constructing node \<or> latest \<noteq> object))
                 (Inr (on_thread self (th_construction_stack_update (\<lambda>_. rest))
                   (on_node object (hn_constructing_update (\<lambda>_. False)) s)))))"

definition cwhip_gc_root :: "nat \<Rightarrow> gc_state \<Rightarrow> nat run" where
  "cwhip_gc_root object s =
     (case find_containing_object (gs_heap s) object of None \<Rightarrow> Inl Aborted | Some node \<Rightarrow> Inr (hn_object node))"

definition cwhip_gc_require_alive :: "nat \<Rightarrow> gc_state \<Rightarrow> unit run" where
  "cwhip_gc_require_alive object s =
     (if object = 0 then Inr ()
      else
        (case find_containing_object (gs_heap s) object of
           None \<Rightarrow> Inl (Raised ''invalid object reference'')
         | Some node \<Rightarrow> raise_if (hn_destroyed node \<and> \<not> hn_destroying node) ''object has been destroyed''))"

definition cwhip_gc_begin_destroy :: "nat \<Rightarrow> nat \<Rightarrow> gc_state \<Rightarrow> gc_state run" where
  "cwhip_gc_begin_destroy self object s =
     (case find_containing_object (gs_heap s) object of
        None \<Rightarrow> Inl (Raised ''invalid object reference'')
      | Some node \<Rightarrow>
          then_run (raise_if (hn_destroyed node) ''object has already been destroyed'')
            (Inr (on_thread self (th_destroy_stack_update (\<lambda>stack. hn_object node # stack))
              (on_node (hn_object node) (\<lambda>n. n\<lparr>hn_destroyed := True, hn_destroying := True\<rparr>) s))))"

definition cwhip_gc_end_destroy :: "nat \<Rightarrow> nat \<Rightarrow> gc_state \<Rightarrow> gc_state run" where
  "cwhip_gc_end_destroy self object s =
     (case find_containing_object (gs_heap s) object of
        None \<Rightarrow> Inl Aborted
      | Some node \<Rightarrow>
          (case th_destroy_stack (gs_threads s self) of
             [] \<Rightarrow> Inl Aborted
           | latest # rest \<Rightarrow>
               then_run (abort_if (\<not> hn_destroying node \<or> latest \<noteq> hn_object node))
                 (Inr (on_thread self (th_destroy_stack_update (\<lambda>_. rest))
                   (on_node (hn_object node) (hn_destroying_update (\<lambda>_. False)) s)))))"

subsection \<open>The call trace\<close>

definition cwhip_trace_push :: "nat \<Rightarrow> nat \<Rightarrow> trace_entry \<Rightarrow> gc_state \<Rightarrow> gc_state run" where
  "cwhip_trace_push self storage entry s =
     then_run (abort_if (storage = 0 \<or> (case th_active_trace (gs_threads s self) of [] \<Rightarrow> False | latest # _ \<Rightarrow> fst latest = storage)))
       (Inr (on_thread self (th_active_trace_update (\<lambda>frames. (storage, entry) # frames)) s))"

definition cwhip_trace_pop :: "nat \<Rightarrow> nat \<Rightarrow> gc_state \<Rightarrow> gc_state run" where
  "cwhip_trace_pop self storage s =
     (case th_active_trace (gs_threads s self) of
        [] \<Rightarrow> Inl Aborted
      | latest # rest \<Rightarrow>
          then_run (abort_if (storage = 0 \<or> fst latest \<noteq> storage))
            (Inr (on_thread self (th_active_trace_update (\<lambda>_. rest)) s)))"

definition capture_trace :: "nat \<Rightarrow> gc_state \<Rightarrow> trace_entry list option" where
  "capture_trace self s =
     (let frames = th_active_trace (gs_threads s self) in
      if frames = [] then None else Some (map snd frames))"

subsection \<open>Frames of handlers\<close>

definition on_frame :: "nat \<Rightarrow> (exception_frame \<Rightarrow> exception_frame) \<Rightarrow> gc_state \<Rightarrow> gc_state" where
  "on_frame frame f s = s\<lparr>gs_exception_frames := (gs_exception_frames s)(frame := f (gs_exception_frames s frame))\<rparr>"

text \<open>The address of the first element of a list, 0 if it is empty.\<close>

definition head_address :: "('a \<Rightarrow> nat) \<Rightarrow> 'a list \<Rightarrow> nat" where
  "head_address f xs = (case xs of [] \<Rightarrow> 0 | x # _ \<Rightarrow> f x)"

definition no_exception :: "exception_frame \<Rightarrow> exception_frame" where
  "no_exception frame = frame\<lparr>ef_message := [], ef_file := [], ef_line := 0, ef_column := 0,
     ef_exception_object := 0, ef_exception_base := 0, ef_has_exception := False, ef_trace := None\<rparr>"

definition cwhip_exception_frame_init :: "nat \<Rightarrow> gc_state \<Rightarrow> gc_state run" where
  "cwhip_exception_frame_init storage s =
     then_run (abort_if (storage = 0 \<or> storage mod 16 \<noteq> 0)) (Inr (on_frame storage (\<lambda>_. zero_frame) s))"

definition cwhip_exception_push :: "nat \<Rightarrow> nat \<Rightarrow> gc_state \<Rightarrow> gc_state run" where
  "cwhip_exception_push self frame s =
     (let t = gs_threads s self in
      then_run (abort_if (frame = 0 \<or> th_active_exception t = frame))
        (Inr (on_thread self (th_active_exception_update (\<lambda>_. frame))
          (on_frame frame (\<lambda>e. no_exception (e\<lparr>
             ef_previous := th_active_exception t,
             ef_saved_roots := head_address rf_address (th_root_frame t),
             ef_saved_trace := head_address fst (th_active_trace t),
             ef_saved_destroys := head_address (\<lambda>a. a) (th_destroy_stack t),
             ef_saved_constructions := head_address (\<lambda>a. a) (th_construction_stack t)\<rparr>)) s))))"

definition cwhip_exception_pop :: "nat \<Rightarrow> nat \<Rightarrow> gc_state \<Rightarrow> gc_state run" where
  "cwhip_exception_pop self frame s =
     then_run (abort_if (frame = 0 \<or> th_active_exception (gs_threads s self) \<noteq> frame))
     (then_run (abort_if (ef_has_exception (gs_exception_frames s frame)))
       (Inr (on_frame frame (\<lambda>e. (no_exception e)\<lparr>ef_previous := 0\<rparr>)
         (on_thread self (th_active_exception_update (\<lambda>_. ef_previous (gs_exception_frames s frame))) s))))"

definition cwhip_exception_clear :: "nat \<Rightarrow> gc_state \<Rightarrow> gc_state run" where
  "cwhip_exception_clear frame s = then_run (abort_if (frame = 0)) (Inr (on_frame frame no_exception s))"

definition pending_frame :: "nat \<Rightarrow> gc_state \<Rightarrow> exception_frame run" where
  "pending_frame frame s =
     then_run (abort_if (frame = 0 \<or> \<not> ef_has_exception (gs_exception_frames s frame))) (Inr (gs_exception_frames s frame))"

definition cwhip_exception_copy_message :: "nat \<Rightarrow> gc_state \<Rightarrow> string run" where
  "cwhip_exception_copy_message frame s = bindE (pending_frame frame s) (\<lambda>e. Inr (ef_message e))"

definition cwhip_exception_message_length :: "nat \<Rightarrow> gc_state \<Rightarrow> nat run" where
  "cwhip_exception_message_length frame s = bindE (pending_frame frame s) (\<lambda>e. Inr (length (ef_message e)))"

definition cwhip_exception_frame_object :: "nat \<Rightarrow> gc_state \<Rightarrow> nat run" where
  "cwhip_exception_frame_object frame s = bindE (pending_frame frame s) (\<lambda>e. Inr (ef_exception_object e))"

definition cwhip_exception_frame_base :: "nat \<Rightarrow> gc_state \<Rightarrow> nat run" where
  "cwhip_exception_frame_base frame s = bindE (pending_frame frame s) (\<lambda>e. Inr (ef_exception_base e))"

subsection \<open>Raising\<close>

text \<open>
  The list whose head has a saved address. If the element has left the list, the pointer that is
  restored dangles.
\<close>

fun rewind :: "('a \<Rightarrow> nat) \<Rightarrow> nat \<Rightarrow> 'a list \<Rightarrow> 'a list run" where
  "rewind f saved [] = (if saved = 0 then Inr [] else Inl Out_of_bounds)"
| "rewind f saved (x # xs) = (if f x = saved then Inr (x # xs) else rewind f saved xs)"

text \<open>The loops that take the objects off the two stacks.\<close>

fun unwind :: "(heap_node \<Rightarrow> heap_node) \<Rightarrow> nat \<Rightarrow> nat list \<Rightarrow> heap_node list \<Rightarrow> (nat list \<times> heap_node list) run" where
  "unwind f saved [] heap = (if saved = 0 then Inr ([], heap) else Inl Aborted)"
| "unwind f saved (object # stack) heap =
     (if object = saved then Inr (object # stack, heap)
      else
        (case find_object heap object of
           None \<Rightarrow> Inl Out_of_bounds
         | Some node \<Rightarrow> unwind f saved stack (update_node object f heap)))"

record raised =
  ra_message :: string
  ra_file :: string
  ra_line :: nat
  ra_column :: nat
  ra_object :: nat
  ra_base :: nat
  ra_trace :: "trace_entry list option"

definition raise_exception :: "nat \<Rightarrow> raised \<Rightarrow> gc_state \<Rightarrow> (nat \<times> gc_state) run" where
  "raise_exception self r s =
     (let t = gs_threads s self in
      then_run (abort_if (collector_busy self s))
      (let trace = (case ra_trace r of None \<Rightarrow> capture_trace self s | Some l \<Rightarrow> Some l);
           frame = th_active_exception t in
       then_run (abort_if (frame = 0))
       (let e = gs_exception_frames s frame in
        bindE (rewind rf_address (ef_saved_roots e) (th_root_frame t)) (\<lambda>roots.
        bindE (rewind fst (ef_saved_trace e) (th_active_trace t)) (\<lambda>active_trace.
        bindE (unwind (hn_destroying_update (\<lambda>_. False)) (ef_saved_destroys e) (th_destroy_stack t) (gs_heap s))
          (\<lambda>(destroys, heap).
        bindE (unwind (\<lambda>n. n\<lparr>hn_constructing := False, hn_destroyed := True\<rparr>) (ef_saved_constructions e)
            (th_construction_stack t) heap) (\<lambda>(constructions, heap).
          Inr (frame,
            on_thread self (\<lambda>t. t\<lparr>th_active_exception := ef_previous e, th_root_frame := roots,
                th_active_trace := active_trace, th_destroy_stack := destroys, th_construction_stack := constructions\<rparr>)
              (on_frame frame (\<lambda>e. e\<lparr>ef_previous := 0, ef_message := ra_message r, ef_file := ra_file r,
                  ef_line := ra_line r, ef_column := ra_column r, ef_exception_object := ra_object r,
                  ef_exception_base := ra_base r, ef_has_exception := True, ef_trace := trace\<rparr>)
                (s\<lparr>gs_heap := heap\<rparr>))))))))))"

definition cwhip_exception_raise_object :: "nat \<Rightarrow> raised \<Rightarrow> gc_state \<Rightarrow> (nat \<times> gc_state) run" where
  "cwhip_exception_raise_object self r s =
     then_run (abort_if (ra_object r = 0 \<or> ra_base r = 0)) (raise_exception self (r\<lparr>ra_trace := None\<rparr>) s)"

definition cwhip_exception_rethrow :: "nat \<Rightarrow> nat \<Rightarrow> gc_state \<Rightarrow> (nat \<times> gc_state) run" where
  "cwhip_exception_rethrow self storage s =
     bindE (pending_frame storage s) (\<lambda>e.
     then_run (abort_if (ef_exception_object e = 0 \<or> ef_exception_base e = 0))
       (raise_exception self \<lparr>ra_message = ef_message e, ra_file = ef_file e, ra_line = ef_line e, ra_column = ef_column e,
           ra_object = ef_exception_object e, ra_base = ef_exception_base e, ra_trace = ef_trace e\<rparr>
         (on_frame storage no_exception s)))"

subsection \<open>What a handler finds\<close>

lemma rewind_append:
  "distinct (map f (xs @ ys)) \<Longrightarrow> 0 \<notin> f ` set (xs @ ys) \<Longrightarrow> rewind f (head_address f ys) (xs @ ys) = Inr ys"
  by (induction xs) (cases ys; auto simp: head_address_def)+

definition update_nodes :: "nat set \<Rightarrow> (heap_node \<Rightarrow> heap_node) \<Rightarrow> heap_node list \<Rightarrow> heap_node list" where
  "update_nodes A f heap = map (\<lambda>n. if hn_object n \<in> A then f n else n) heap"

lemma map_object_update_nodes: "(\<And>n. hn_object (f n) = hn_object n) \<Longrightarrow> map hn_object (update_nodes A f heap) = map hn_object heap"
  by (simp add: update_nodes_def)

lemma addresses_cong: "map hn_object heap' = map hn_object heap \<Longrightarrow> addresses heap' = addresses heap"
  unfolding addresses_def by (metis list.set_map)

lemma update_nodes_update:
  "a \<notin> A \<Longrightarrow> (\<And>n. hn_object (f n) = hn_object n) \<Longrightarrow> update_nodes A f (update_node a f heap) = update_nodes (insert a A) f heap"
  by (simp add: update_nodes_def update_node_def comp_def)

lemma unwind_append:
  assumes "\<And>n. hn_object (f n) = hn_object n" "distinct (xs @ ys)" "0 \<notin> set (xs @ ys)"
    "set xs \<subseteq> addresses heap" "distinct (map hn_object heap)"
  shows "unwind f (head_address (\<lambda>a. a) ys) (xs @ ys) heap = Inr (ys, update_nodes (set xs) f heap)"
  using assms(2-)
proof (induction xs arbitrary: heap)
  case Nil
  then show ?case by (cases ys) (simp_all add: head_address_def update_nodes_def)
next
  case (Cons a xs)
  then obtain node where node: "find_object heap a = Some node" using find_object_address by fastforce
  have names: "map hn_object (update_node a f heap) = map hn_object heap" by (rule map_object_update) (rule assms(1))
  then have "addresses (update_node a f heap) = addresses heap" by (rule addresses_cong)
  then have step: "unwind f (head_address (\<lambda>a. a) ys) (xs @ ys) (update_node a f heap) = Inr (ys, update_nodes (set xs) f (update_node a f heap))"
    using Cons.IH [of "update_node a f heap"] Cons.prems names by simp
  have "a \<noteq> head_address (\<lambda>a. a) ys" using Cons.prems(1,2) by (cases ys) (auto simp: head_address_def)
  with node step Cons.prems(1) show ?case by (simp add: update_nodes_update assms(1))
qed

text \<open>
  A state inside of a block with a handler, whose frame was pushed in the state \<open>s\<close>: root frames,
  trace frames, destructions and constructions have begun since and have not ended. Frames have
  different addresses, and an object is destroyed or constructed once.
\<close>

definition inside :: "nat \<Rightarrow> nat \<Rightarrow> gc_state \<Rightarrow> nat list \<Rightarrow> nat list \<Rightarrow> gc_state \<Rightarrow> bool" where
  "inside self frame s ds cs t \<longleftrightarrow>
     (let old = gs_threads s self; new = gs_threads t self in
      th_active_exception new = frame \<and> \<not> collector_busy self t \<and>
      (\<exists>s1. cwhip_exception_push self frame s = Inr s1 \<and> gs_exception_frames t frame = gs_exception_frames s1 frame) \<and>
      (\<exists>fs. th_root_frame new = fs @ th_root_frame old) \<and> distinct (0 # map rf_address (th_root_frame new)) \<and>
      (\<exists>ts. th_active_trace new = ts @ th_active_trace old) \<and> distinct (0 # map fst (th_active_trace new)) \<and>
      th_destroy_stack new = ds @ th_destroy_stack old \<and> distinct (0 # th_destroy_stack new) \<and>
      th_construction_stack new = cs @ th_construction_stack old \<and> distinct (0 # th_construction_stack new) \<and>
      set ds \<union> set cs \<subseteq> addresses (gs_heap t) \<and> distinct (map hn_object (gs_heap t)))"

definition unwound :: "nat list \<Rightarrow> nat list \<Rightarrow> heap_node list \<Rightarrow> heap_node list" where
  "unwound ds cs heap = map (\<lambda>n. n\<lparr>hn_destroying := hn_destroying n \<and> hn_object n \<notin> set ds,
     hn_constructing := hn_constructing n \<and> hn_object n \<notin> set cs,
     hn_destroyed := hn_destroyed n \<or> hn_object n \<in> set cs\<rparr>) heap"

lemma unwound_updates:
  "update_nodes (set cs) (\<lambda>n. n\<lparr>hn_constructing := False, hn_destroyed := True\<rparr>)
     (update_nodes (set ds) (hn_destroying_update (\<lambda>_. False)) heap) = unwound ds cs heap"
  by (simp add: update_nodes_def unwound_def comp_def)

lemma same_shape_unwound: "same_shape heap (unwound ds cs heap)"
  by (simp add: same_shape_def unwound_def node_shape_def comp_def)

text \<open>Fewer roots keep the invariant.\<close>

lemma gc_ok_fewer_roots:
  assumes "gc_ok s" "same_shape (gs_heap s) (gs_heap t)" "root_pointers t \<subseteq> root_pointers s" "roots_ok t"
    "gs_object_count t = gs_object_count s"
  shows "gc_ok t"
proof -
  let ?u = "s\<lparr>gs_heap := gs_heap t\<rparr>"
  have "gc_ok ?u" using gc_ok_shape [of s ?u] assms(1,2) by (simp add: root_pointers_heap)
  then show ?thesis
    using assms(3-5) by (auto simp: gc_ok_def heap_ok_def no_dangling_def root_pointers_heap)
qed

lemma raise_inside:
  assumes "inside self frame s ds cs t"
  shows "\<exists>u. raise_exception self r t = Inr (frame, u) \<and>
    gs_threads u = (gs_threads t)(self := (gs_threads t self)\<lparr>th_active_exception := th_active_exception (gs_threads s self),
      th_root_frame := th_root_frame (gs_threads s self), th_active_trace := th_active_trace (gs_threads s self),
      th_destroy_stack := th_destroy_stack (gs_threads s self), th_construction_stack := th_construction_stack (gs_threads s self)\<rparr>) \<and>
    gs_heap u = unwound ds cs (gs_heap t) \<and>
    pending_frame frame u = Inr (gs_exception_frames u frame) \<and>
    ef_message (gs_exception_frames u frame) = ra_message r \<and> ef_exception_object (gs_exception_frames u frame) = ra_object r \<and>
    gs_memory u = gs_memory t \<and> gs_object_count u = gs_object_count t \<and> gs_thread_registry u = gs_thread_registry t \<and>
    gs_callback_contexts u = gs_callback_contexts t \<and> gs_callback_transfers u = gs_callback_transfers t"
proof -
  let ?old = "gs_threads s self" and ?new = "gs_threads t self" and ?e = "gs_exception_frames t frame"
  obtain fs ts s1 where i: "th_active_exception ?new = frame" "\<not> collector_busy self t"
      "cwhip_exception_push self frame s = Inr s1" "?e = gs_exception_frames s1 frame"
      "th_root_frame ?new = fs @ th_root_frame ?old" "distinct (0 # map rf_address (th_root_frame ?new))"
      "th_active_trace ?new = ts @ th_active_trace ?old" "distinct (0 # map fst (th_active_trace ?new))"
      "th_destroy_stack ?new = ds @ th_destroy_stack ?old" "distinct (0 # th_destroy_stack ?new)"
      "th_construction_stack ?new = cs @ th_construction_stack ?old" "distinct (0 # th_construction_stack ?new)"
      "set ds \<subseteq> addresses (gs_heap t)" "set cs \<subseteq> addresses (gs_heap t)" "distinct (map hn_object (gs_heap t))"
    using assms unfolding inside_def Let_def by blast
  have frame: "frame \<noteq> 0" using i(3) by (auto simp: cwhip_exception_push_def Let_def bindE_Inr_iff)
  have e: "ef_previous ?e = th_active_exception ?old" "ef_saved_roots ?e = head_address rf_address (th_root_frame ?old)"
      "ef_saved_trace ?e = head_address fst (th_active_trace ?old)" "ef_saved_destroys ?e = head_address (\<lambda>a. a) (th_destroy_stack ?old)"
      "ef_saved_constructions ?e = head_address (\<lambda>a. a) (th_construction_stack ?old)"
    using i(3,4) by (auto simp: cwhip_exception_push_def Let_def bindE_Inr_iff on_thread_def on_frame_def no_exception_def)
  let ?heap = "update_nodes (set ds) (hn_destroying_update (\<lambda>_. False)) (gs_heap t)"
  have names: "map hn_object ?heap = map hn_object (gs_heap t)" by (rule map_object_update_nodes) simp
  then have addresses: "addresses ?heap = addresses (gs_heap t)" by (rule addresses_cong)
  have roots: "rewind rf_address (ef_saved_roots ?e) (th_root_frame ?new) = Inr (th_root_frame ?old)"
    using i(6) unfolding e i(5) by (intro rewind_append) auto
  have trace: "rewind fst (ef_saved_trace ?e) (th_active_trace ?new) = Inr (th_active_trace ?old)"
    using i(8) unfolding e i(7) by (intro rewind_append) auto
  have destroys: "unwind (hn_destroying_update (\<lambda>_. False)) (ef_saved_destroys ?e) (th_destroy_stack ?new) (gs_heap t) =
      Inr (th_destroy_stack ?old, ?heap)"
    using i(10,13,15) unfolding e i(9) by (intro unwind_append) auto
  have constructions: "unwind (\<lambda>n. n\<lparr>hn_constructing := False, hn_destroyed := True\<rparr>) (ef_saved_constructions ?e)
      (th_construction_stack ?new) ?heap = Inr (th_construction_stack ?old, unwound ds cs (gs_heap t))"
    using i(12,14,15) unfolding e i(11) unwound_updates [symmetric]
    by (intro unwind_append) (auto simp: addresses names)
  show ?thesis
    using i(1,2) frame
    by (simp add: raise_exception_def Let_def roots trace destroys constructions e(1) pending_frame_def on_thread_def on_frame_def)
qed

text \<open>
  C14: An exception inside of a block with a handler goes to this handler. The root frames, the
  call trace, the stacks of destructions and constructions and the next outer handler are those
  of the start of the block. Objects whose construction was interrupted count as destroyed, and
  the destructions that were interrupted have ended; nothing else in the heap has changed, and
  no reference dangles if none did before.
\<close>

theorem raise_exception_restores:
  assumes "inside self frame s ds cs t" "gc_ok t"
  shows "\<exists>u. raise_exception self r t = Inr (frame, u) \<and> gc_ok u \<and> gs_heap u = unwound ds cs (gs_heap t) \<and>
    th_root_frame (gs_threads u self) = th_root_frame (gs_threads s self) \<and>
    th_active_trace (gs_threads u self) = th_active_trace (gs_threads s self) \<and>
    th_destroy_stack (gs_threads u self) = th_destroy_stack (gs_threads s self) \<and>
    th_construction_stack (gs_threads u self) = th_construction_stack (gs_threads s self) \<and>
    th_active_exception (gs_threads u self) = th_active_exception (gs_threads s self) \<and>
    cwhip_exception_copy_message frame u = Inr (ra_message r) \<and> cwhip_exception_frame_object frame u = Inr (ra_object r)"
proof -
  from raise_inside [OF assms(1), of r] obtain u where
      u: "raise_exception self r t = Inr (frame, u)" "gs_heap u = unwound ds cs (gs_heap t)"
        "pending_frame frame u = Inr (gs_exception_frames u frame)"
        "ef_message (gs_exception_frames u frame) = ra_message r" "ef_exception_object (gs_exception_frames u frame) = ra_object r"
      and threads: "gs_threads u = (gs_threads t)(self := (gs_threads t self)\<lparr>th_active_exception := th_active_exception (gs_threads s self),
        th_root_frame := th_root_frame (gs_threads s self), th_active_trace := th_active_trace (gs_threads s self),
        th_destroy_stack := th_destroy_stack (gs_threads s self), th_construction_stack := th_construction_stack (gs_threads s self)\<rparr>)"
      and rest: "gs_memory u = gs_memory t" "gs_object_count u = gs_object_count t" "gs_thread_registry u = gs_thread_registry t"
        "gs_callback_contexts u = gs_callback_contexts t" "gs_callback_transfers u = gs_callback_transfers t" by blast
  from assms(1) obtain fs where fs: "th_root_frame (gs_threads t self) = fs @ th_root_frame (gs_threads s self)"
    unfolding inside_def Let_def by blast
  have frames: "set (th_root_frame (gs_threads u x)) \<subseteq> set (th_root_frame (gs_threads t x))" for x
    using fs by (simp add: threads)
  have "root_pointers u \<subseteq> root_pointers t"
    unfolding root_pointers_def rest using frames by (intro Un_mono UN_mono subset_refl) auto
  moreover have "roots_ok u" using assms(2) frames by (auto simp: gc_ok_def heap_ok_def roots_ok_def rest)
  ultimately have "gc_ok u"
    using gc_ok_fewer_roots [OF assms(2)] by (simp add: u(2) same_shape_unwound rest)
  with u threads show ?thesis
    by (simp add: cwhip_exception_copy_message_def cwhip_exception_frame_object_def)
qed

text \<open>A block that is left while one object is constructed and another one is destroyed.\<close>

definition sample_block :: "gc_state run" where
  "sample_block =
     bindE (cwhip_exception_push 0 32 sample_state) (\<lambda>s.
     bindE (cwhip_gc_begin_construction 0 300 s) (\<lambda>s.
     bindE (cwhip_gc_begin_destroy 0 200 s) (cwhip_trace_push 0 64
       \<lparr>te_name = ''f'', te_file = ''a.simp'', te_line = 3, te_column = 5\<rparr>)))"

lemma gc_ok_on_frame: "gc_ok (on_frame frame f s) = gc_ok s"
  by (rule gc_ok_shape) (simp_all add: on_frame_def same_shape_def root_pointers_def roots_ok_def)

lemma push_effect:
  assumes "cwhip_exception_push self frame s = Inr t"
  shows "gs_heap t = gs_heap s" "gc_ok t = gc_ok s"
    "gs_threads t = (gs_threads s)(self := (gs_threads s self)\<lparr>th_active_exception := frame\<rparr>)"
proof -
  from assms obtain f where t: "t = on_thread self (th_active_exception_update (\<lambda>_. frame)) (on_frame frame f s)"
    unfolding cwhip_exception_push_def Let_def bindE_Inr_iff by blast
  show "gs_heap t = gs_heap s" "gs_threads t = (gs_threads s)(self := (gs_threads s self)\<lparr>th_active_exception := frame\<rparr>)"
    by (simp_all add: t on_thread_def on_frame_def)
  show "gc_ok t = gc_ok s" by (simp add: t gc_ok_on_thread gc_ok_on_frame)
qed

lemma sample_block_inside: "\<exists>t. sample_block = Inr t \<and> inside 0 32 sample_state [200] [300] t \<and> gc_ok t"
proof -
  have "\<exists>s1. cwhip_exception_push 0 32 sample_state = Inr s1"
    by (simp add: cwhip_exception_push_def Let_def) (simp add: sample_state_def sample_thread_def)
  then obtain s1 where push: "cwhip_exception_push 0 32 sample_state = Inr s1" by blast
  have threads: "gs_threads sample_state = (\<lambda>_. sample_thread)" by (simp add: sample_state_def)
  from push_effect [OF push] push sample_ok have s1: "cwhip_exception_push 0 32 sample_state = Inr s1"
      "gs_heap s1 = gs_heap sample_state" "gc_ok s1"
      "gs_threads s1 = (\<lambda>_. sample_thread)(0 := sample_thread\<lparr>th_active_exception := 32\<rparr>)"
    by (simp_all add: threads)
  let ?s2 = "on_thread 0 (th_construction_stack_update (\<lambda>stack. 300 # stack)) (on_node 300 (hn_constructing_update (\<lambda>_. True)) s1)"
  let ?s3 = "on_thread 0 (th_destroy_stack_update (\<lambda>stack. 200 # stack))
    (on_node 200 (\<lambda>n. n\<lparr>hn_destroyed := True, hn_destroying := True\<rparr>) ?s2)"
  let ?t = "on_thread 0 (th_active_trace_update (\<lambda>frames. (64, \<lparr>te_name = ''f'', te_file = ''a.simp'', te_line = 3, te_column = 5\<rparr>) # frames)) ?s3"
  have "gc_ok ?s2" using s1(3) by (simp add: gc_ok_on_thread gc_ok_on_node)
  then have "gc_ok ?s3" by (simp add: gc_ok_on_thread gc_ok_on_node node_shape_def)
  then have ok: "gc_ok ?t" by (simp add: gc_ok_on_thread)
  have heap: "gs_heap s1 = [sample_object 400 300, sample_object 300 400, sample_list, sample_object 100 200]"
    by (simp add: s1(2) sample_state_def)
  have "cwhip_gc_begin_construction 0 300 s1 = Inr ?s2"
    by (simp add: cwhip_gc_begin_construction_def find_object_def heap sample_nodes) (simp add: sample_object_def sample_node_def)
  moreover have "cwhip_gc_begin_destroy 0 200 ?s2 = Inr ?s3"
    by (simp add: cwhip_gc_begin_destroy_def find_containing_object_def on_thread_def on_node_def update_node_def heap sample_nodes)
      (simp add: sample_list_def sample_node_def)
  moreover have "cwhip_trace_push 0 64 \<lparr>te_name = ''f'', te_file = ''a.simp'', te_line = 3, te_column = 5\<rparr> ?s3 = Inr ?t"
    by (simp add: cwhip_trace_push_def on_thread_def on_node_def s1(4) sample_thread_def)
  ultimately have run: "sample_block = Inr ?t" by (simp add: sample_block_def s1(1))
  have "inside 0 32 sample_state [200] [300] ?t"
    using ok s1(1)
    by (auto simp: inside_def Let_def on_thread_def on_node_def s1(4) threads sample_thread_def collector_busy_def gc_ok_def heap_ok_def addresses_def update_node_def heap sample_nodes)
  with run ok show ?thesis by blast
qed

theorem raise_exception_restores_witness:
  "\<exists>t u. sample_block = Inr t \<and> raise_exception 0 \<lparr>ra_message = ''m'', ra_file = ''a.simp'', ra_line = 3, ra_column = 7,
      ra_object = 400, ra_base = 400, ra_trace = None\<rparr> t = Inr (32, u) \<and>
    gs_heap u = unwound [200] [300] (gs_heap t) \<and> cwhip_exception_frame_object 32 u = Inr 400"
proof -
  from sample_block_inside obtain t where t: "sample_block = Inr t" "inside 0 32 sample_state [200] [300] t" "gc_ok t" by blast
  from raise_exception_restores [OF t(2,3), of "\<lparr>ra_message = ''m'', ra_file = ''a.simp'', ra_line = 3, ra_column = 7,
      ra_object = 400, ra_base = 400, ra_trace = None\<rparr>"] t(1) show ?thesis by auto
qed

end
