(* ===== verification/Runtime_Thread.thy ===== *)
theory Runtime_Thread
  imports Runtime_Exception
begin

text \<open>
  The threads of \<open>src/RuntimeGc.c\<close> with the global lock, and callbacks that native code holds. A
  call that waits for the lock has no result yet, \<open>None\<close>.
\<close>

subsection \<open>The global lock\<close>

definition lock_gil :: "nat \<Rightarrow> gc_state \<Rightarrow> gc_state option" where
  "lock_gil self s = (if gs_gil s = None then Some (s\<lparr>gs_gil := Some self\<rparr>) else None)"

definition unlock_gil :: "gc_state \<Rightarrow> gc_state" where
  "unlock_gil s = s\<lparr>gs_gil := None\<rparr>"

definition cwhip_runtime_thread_enter :: "nat \<Rightarrow> gc_state \<Rightarrow> gc_state run option" where
  "cwhip_runtime_thread_enter self s =
     map_option (\<lambda>s.
       then_run (abort_if (th_registered (gs_threads s self)))
         (Inr (on_thread self (\<lambda>t. t\<lparr>th_registered := True, th_gil_held := True\<rparr>)
           (s\<lparr>gs_thread_registry := self # gs_thread_registry s\<rparr>))))
       (lock_gil self s)"

definition callback_thread_exit_check :: "nat \<Rightarrow> gc_state \<Rightarrow> unit run" where
  "callback_thread_exit_check self s = abort_if (list_ex (\<lambda>c. cc_owner c = self) (gs_callback_contexts s))"

definition cwhip_runtime_thread_exit :: "nat \<Rightarrow> gc_state \<Rightarrow> gc_state run" where
  "cwhip_runtime_thread_exit self s =
     (let t = gs_threads s self in
      then_run (abort_if (\<not> th_registered t \<or> \<not> th_gil_held t \<or> th_root_frame t \<noteq> []))
      (then_run (callback_thread_exit_check self s)
      (then_run (abort_if (self \<notin> set (gs_thread_registry s)))
        (Inr (unlock_gil (on_thread self (\<lambda>t. t\<lparr>th_registered := False, th_gil_held := False\<rparr>)
          (s\<lparr>gs_thread_registry := remove1 self (gs_thread_registry s)\<rparr>)))))))"

definition cwhip_runtime_gil_release :: "nat \<Rightarrow> gc_state \<Rightarrow> gc_state run" where
  "cwhip_runtime_gil_release self s =
     then_run (abort_if (\<not> th_registered (gs_threads s self) \<or> \<not> th_gil_held (gs_threads s self)))
       (Inr (unlock_gil (on_thread self (th_gil_held_update (\<lambda>_. False)) s)))"

definition cwhip_runtime_gil_acquire :: "nat \<Rightarrow> gc_state \<Rightarrow> gc_state run option" where
  "cwhip_runtime_gil_acquire self s =
     (if \<not> th_registered (gs_threads s self) \<or> th_gil_held (gs_threads s self) then Some (Inl Aborted)
      else map_option (\<lambda>s. Inr (on_thread self (th_gil_held_update (\<lambda>_. True)) s)) (lock_gil self s))"

definition cwhip_runtime_managed_enter :: "nat \<Rightarrow> gc_state \<Rightarrow> (nat \<times> gc_state) run option" where
  "cwhip_runtime_managed_enter self s =
     (if \<not> th_registered (gs_threads s self) then Some (Inl Aborted)
      else if th_gil_held (gs_threads s self) then Some (Inr (0, s))
      else map_option (\<lambda>r. bindE r (\<lambda>s. Inr (1, s))) (cwhip_runtime_gil_acquire self s))"

definition cwhip_runtime_managed_leave :: "nat \<Rightarrow> nat \<Rightarrow> gc_state \<Rightarrow> gc_state run" where
  "cwhip_runtime_managed_leave self acquired s =
     then_run (abort_if (\<not> th_registered (gs_threads s self) \<or> \<not> th_gil_held (gs_threads s self) \<or>
       (acquired \<noteq> 0 \<and> acquired \<noteq> 1)))
       (if acquired \<noteq> 0 then cwhip_runtime_gil_release self s else Inr s)"

subsection \<open>Callback values\<close>

text \<open>
  A callback is an object with the receiver at offset 8, the code at 16, the adapter at 24, the
  invoker at 32, the signature at 40, the number of arguments at 48 and the flags of managed
  arguments at 56. Signatures are pointers to texts; \<open>c_string\<close> gives the text at an address.
\<close>

definition callback_metadata :: class_meta where
  "callback_metadata = (plain_metadata ''callback'' 64)\<lparr>me_reference_field_offsets := [8]\<rparr>"

definition callback_word :: "nat \<Rightarrow> nat \<Rightarrow> gc_state \<Rightarrow> nat run" where
  "callback_word callback offset s =
     (case find_object (gs_heap s) callback of
        Some node \<Rightarrow>
          (case hn_content node of
             Plain_object metadata words \<Rightarrow> Inr (unat (words offset))
           | _ \<Rightarrow> Inl Out_of_bounds)
      | None \<Rightarrow> Inl Out_of_bounds)"

definition check_receiver :: "nat \<Rightarrow> gc_state \<Rightarrow> unit run" where
  "check_receiver receiver s =
     (case find_containing_object (gs_heap s) receiver of
        None \<Rightarrow> Inl Out_of_bounds
      | Some node \<Rightarrow> raise_if (hn_destroyed node) ''object has been destroyed'')"

definition cwhip_callback_new ::
  "finalizer \<Rightarrow> allocator \<Rightarrow> nat \<Rightarrow> nat \<Rightarrow> (nat \<Rightarrow> 64 word) \<Rightarrow> gc_state \<Rightarrow> (nat \<times> gc_state) run" where
  "cwhip_callback_new fin calloc self receiver arguments s =
     then_run (cwhip_gc_require_alive receiver s)
     (then_run (raise_if (receiver = 0) ''null callback receiver'')
     (then_run (check_receiver receiver s)
     (bindE (cwhip_gc_alloc fin calloc self (Some callback_metadata) s) (\<lambda>(callback, s).
       Inr (callback, on_node callback (hn_content_update (\<lambda>_. Plain_object (Some callback_metadata)
         (\<lambda>offset. if offset = 8 then of_nat receiver else if offset > 8 then arguments offset else 0))) s)))))"

definition cwhip_callback_receiver :: "nat \<Rightarrow> gc_state \<Rightarrow> nat run" where
  "cwhip_callback_receiver callback s =
     then_run (raise_if (callback = 0) ''null callback invocation'')
     (then_run (cwhip_gc_require_alive callback s)
     (bindE (callback_word callback 8 s) (\<lambda>receiver.
      then_run (cwhip_gc_require_alive receiver s)
      (then_run (check_receiver receiver s) (Inr receiver)))))"

definition cwhip_callback_code :: "nat \<Rightarrow> gc_state \<Rightarrow> nat run" where
  "cwhip_callback_code callback s = bindE (cwhip_callback_receiver callback s) (\<lambda>_. callback_word callback 16 s)"

subsection \<open>Registrations\<close>

definition callback_thread_check :: "nat \<Rightarrow> gc_state \<Rightarrow> unit run" where
  "callback_thread_check self s = abort_if (\<not> th_registered (gs_threads s self) \<or> \<not> th_gil_held (gs_threads s self))"

definition callback_validate :: "(nat \<Rightarrow> string) \<Rightarrow> nat \<Rightarrow> nat \<Rightarrow> nat \<Rightarrow> gc_state \<Rightarrow> nat run" where
  "callback_validate c_string self callback signature s =
     then_run (callback_thread_check self s)
     (then_run (abort_if (callback = 0 \<or> signature = 0))
     (case find_object (gs_heap s) callback of
        None \<Rightarrow> Inl Aborted
      | Some node \<Rightarrow>
          then_run (abort_if (content_metadata (hn_content node) \<noteq> Some callback_metadata))
          (bindE (callback_word callback 40 s) (\<lambda>own_signature.
           then_run (abort_if (c_string signature \<noteq> c_string own_signature)) (Inr callback)))))"

text \<open>The last argument but the state is the address of the new registration.\<close>

definition cwhip_callback_acquire :: "(nat \<Rightarrow> string) \<Rightarrow> nat \<Rightarrow> nat \<Rightarrow> nat \<Rightarrow> nat \<Rightarrow> gc_state \<Rightarrow> gc_state run" where
  "cwhip_callback_acquire c_string self callback signature address s =
     bindE (callback_validate c_string self callback signature s) (\<lambda>callback.
       Inr (s\<lparr>gs_callback_contexts := \<lparr>cc_address = address, cc_callback = callback, cc_owner = self, cc_in_flight = 0,
         cc_released = False\<rparr> # gs_callback_contexts s\<rparr>))"

definition cwhip_callback_transfer_prepare :: "(nat \<Rightarrow> string) \<Rightarrow> nat \<Rightarrow> nat \<Rightarrow> nat \<Rightarrow> nat \<Rightarrow> gc_state \<Rightarrow> gc_state run" where
  "cwhip_callback_transfer_prepare c_string self callback signature address s =
     bindE (callback_validate c_string self callback signature s) (\<lambda>callback.
       Inr (s\<lparr>gs_callback_transfers := \<lparr>ct_address = address, ct_callback = callback\<rparr> # gs_callback_transfers s\<rparr>))"

definition callback_transfer_remove :: "nat \<Rightarrow> nat \<Rightarrow> gc_state \<Rightarrow> (callback_transfer \<times> gc_state) run" where
  "callback_transfer_remove self transfer s =
     then_run (callback_thread_check self s)
     (case List.find (\<lambda>t. ct_address t = transfer) (gs_callback_transfers s) of
        None \<Rightarrow> Inl Aborted
      | Some t \<Rightarrow> Inr (t, s\<lparr>gs_callback_transfers := remove1 t (gs_callback_transfers s)\<rparr>))"

definition cwhip_callback_transfer_accept :: "(nat \<Rightarrow> string) \<Rightarrow> nat \<Rightarrow> nat \<Rightarrow> nat \<Rightarrow> gc_state \<Rightarrow> gc_state run" where
  "cwhip_callback_transfer_accept c_string self transfer address s =
     bindE (callback_transfer_remove self transfer s) (\<lambda>(t, s).
     bindE (callback_word (ct_callback t) 40 s) (\<lambda>signature.
       cwhip_callback_acquire c_string self (ct_callback t) signature address s))"

definition cwhip_callback_transfer_cancel :: "nat \<Rightarrow> nat \<Rightarrow> gc_state \<Rightarrow> gc_state run" where
  "cwhip_callback_transfer_cancel self transfer s = bindE (callback_transfer_remove self transfer s) (\<lambda>(t, s). Inr s)"

definition find_context :: "nat \<Rightarrow> gc_state \<Rightarrow> callback_context option" where
  "find_context address s = List.find (\<lambda>c. cc_address c = address) (gs_callback_contexts s)"

definition on_context :: "nat \<Rightarrow> (callback_context \<Rightarrow> callback_context) \<Rightarrow> gc_state \<Rightarrow> gc_state" where
  "on_context address f s =
     s\<lparr>gs_callback_contexts := map (\<lambda>c. if cc_address c = address then f c else c) (gs_callback_contexts s)\<rparr>"

text \<open>A context that is not registered any more has been freed, so its members cannot be read.\<close>

definition callback_context_check :: "nat \<Rightarrow> nat \<Rightarrow> gc_state \<Rightarrow> callback_context run" where
  "callback_context_check self address s =
     then_run (callback_thread_check self s)
     (then_run (abort_if (address = 0))
     (case find_context address s of
        None \<Rightarrow> Inl Out_of_bounds
      | Some c \<Rightarrow> then_run (abort_if (cc_owner c \<noteq> self)) (then_run (abort_if (cc_released c)) (Inr c))))"

definition cwhip_callback_adapter :: "nat \<Rightarrow> nat \<Rightarrow> gc_state \<Rightarrow> nat run" where
  "cwhip_callback_adapter self address s =
     bindE (callback_context_check self address s) (\<lambda>c. callback_word (cc_callback c) 24 s)"

definition cwhip_callback_signature :: "nat \<Rightarrow> nat \<Rightarrow> gc_state \<Rightarrow> nat run" where
  "cwhip_callback_signature self address s =
     bindE (callback_context_check self address s) (\<lambda>c. callback_word (cc_callback c) 40 s)"

definition cwhip_callback_release :: "nat \<Rightarrow> nat \<Rightarrow> gc_state \<Rightarrow> gc_state run" where
  "cwhip_callback_release self address s =
     bindE (callback_context_check self address s) (\<lambda>c.
     then_run (abort_if (cc_in_flight c \<noteq> 0))
       (Inr (on_context address (\<lambda>c. c\<lparr>cc_released := True, cc_callback := 0\<rparr>) s)))"

definition cwhip_callback_dispose :: "nat \<Rightarrow> nat \<Rightarrow> gc_state \<Rightarrow> gc_state run" where
  "cwhip_callback_dispose self address s =
     then_run (callback_thread_check self s)
     (then_run (abort_if (address = 0))
     (case find_context address s of
        None \<Rightarrow> Inl Out_of_bounds
      | Some c \<Rightarrow>
          then_run (abort_if (cc_owner c \<noteq> self \<or> \<not> cc_released c \<or> cc_in_flight c \<noteq> 0))
            (Inr (s\<lparr>gs_callback_contexts := remove1 c (gs_callback_contexts s)\<rparr>))))"

subsection \<open>Checked references\<close>

definition checked_array :: "nat \<Rightarrow> gc_state \<Rightarrow> cwhip_array run" where
  "checked_array object s =
     then_run (raise_if (object = 0) ''null list reference'')
     (case find_object (gs_heap s) object of
        None \<Rightarrow> Inl (Raised ''invalid list reference'')
      | Some node \<Rightarrow> (case hn_content node of Array_object a \<Rightarrow> Inr a | _ \<Rightarrow> Inl (Raised ''invalid list reference'')))"

definition checked_map :: "nat \<Rightarrow> gc_state \<Rightarrow> cwhip_map run" where
  "checked_map object s =
     then_run (raise_if (object = 0) ''null dict reference'')
     (case find_object (gs_heap s) object of
        None \<Rightarrow> Inl (Raised ''invalid dict reference'')
      | Some node \<Rightarrow> (case hn_content node of Map_object m \<Rightarrow> Inr m | _ \<Rightarrow> Inl (Raised ''invalid dict reference'')))"

text \<open>Operations of lists and dictionaries on objects of the heap.\<close>

definition on_array :: "(cwhip_array \<Rightarrow> cwhip_array run) \<Rightarrow> nat \<Rightarrow> gc_state \<Rightarrow> gc_state run" where
  "on_array operation object s =
     bindE (checked_array object s) (\<lambda>a. bindE (operation a) (\<lambda>a.
       Inr (on_node object (hn_content_update (\<lambda>_. Array_object a)) s)))"

definition on_map :: "(cwhip_map \<Rightarrow> cwhip_map run) \<Rightarrow> nat \<Rightarrow> gc_state \<Rightarrow> gc_state run" where
  "on_map operation object s =
     bindE (checked_map object s) (\<lambda>m. bindE (operation m) (\<lambda>m.
       Inr (on_node object (hn_content_update (\<lambda>_. Map_object m)) s)))"

end
