(* ===== verification/Runtime_Machine.thy ===== *)
theory Runtime_Machine
  imports Runtime_Thread
begin

text \<open>
  The runtime as a transition system: threads that register, wait for the lock and run managed
  code, which calls the operations of the runtime and stores references. The invariant of the
  heap and the exclusion of the lock hold in every reachable state.
\<close>

subsection \<open>Steps\<close>

definition valid_pointer :: "gc_state \<Rightarrow> nat \<Rightarrow> bool" where
  "valid_pointer s p \<longleftrightarrow> p = 0 \<or> owner (gs_heap s) p \<noteq> None"

definition value_valid :: "gc_state \<Rightarrow> array_value \<Rightarrow> bool" where
  "value_valid s v \<longleftrightarrow> (dynamic_value_is_gc_reference (av_tag v) \<longrightarrow> valid_pointer s (av_pointer v))"

definition runs :: "nat \<Rightarrow> gc_state \<Rightarrow> bool" where
  "runs self s \<longleftrightarrow> gs_gil s = Some self"

text \<open>
  The first six rules are the threads; all other calls are made by the thread that holds the lock.
  The premises on the state before a call are what the compiled code has to keep: the slots of a
  frame that it pushes, and the pointers that it stores in variables, fields, lists and dictionaries,
  are null or point into objects of the heap; and the receiver of a new callback is rooted, since
  \<open>cwhip_callback_new\<close> allocates, hence collects, before it stores the receiver and does not push a
  frame for it. None of them speaks of the state after the call, apart from the slots of the frame that is pushed.
\<close>

inductive runtime_step :: "finalizer \<Rightarrow> allocator \<Rightarrow> (nat \<Rightarrow> string) \<Rightarrow> gc_state \<Rightarrow> gc_state \<Rightarrow> bool"
  for fin calloc c_string where
  thread_enter: "cwhip_runtime_thread_enter self s = Some (Inr t) \<Longrightarrow> runtime_step fin calloc c_string s t"
| thread_exit: "cwhip_runtime_thread_exit self s = Inr t \<Longrightarrow> runtime_step fin calloc c_string s t"
| gil_release: "cwhip_runtime_gil_release self s = Inr t \<Longrightarrow> runtime_step fin calloc c_string s t"
| gil_acquire: "cwhip_runtime_gil_acquire self s = Some (Inr t) \<Longrightarrow> runtime_step fin calloc c_string s t"
| managed_enter: "cwhip_runtime_managed_enter self s = Some (Inr (acquired, t)) \<Longrightarrow> runtime_step fin calloc c_string s t"
| managed_leave: "cwhip_runtime_managed_leave self acquired s = Inr t \<Longrightarrow> runtime_step fin calloc c_string s t"
| collect: "runs self s \<Longrightarrow> cwhip_gc_collect fin self s = Inr t \<Longrightarrow> runtime_step fin calloc c_string s t"
| alloc: "runs self s \<Longrightarrow> cwhip_gc_alloc fin calloc self metadata s = Inr (object, t) \<Longrightarrow> runtime_step fin calloc c_string s t"
| alloc_array: "runs self s \<Longrightarrow> gc_alloc_array fin calloc self n s = Inr (object, t) \<Longrightarrow> runtime_step fin calloc c_string s t"
| alloc_map: "runs self s \<Longrightarrow> cwhip_gc_alloc_map fin calloc self s = Inr (object, t) \<Longrightarrow> runtime_step fin calloc c_string s t"
| push: "runs self s \<Longrightarrow> gc_push self frame slots tags n s = (True, t) \<Longrightarrow>
    roots_ok t \<Longrightarrow> \<forall>p \<in> root_pointers t. p \<in> root_pointers s \<or> valid_pointer s p \<Longrightarrow> runtime_step fin calloc c_string s t"
| pop: "runs self s \<Longrightarrow> cwhip_gc_pop self frame s = (True, t) \<Longrightarrow> runtime_step fin calloc c_string s t"
| begin_construction: "runs self s \<Longrightarrow> cwhip_gc_begin_construction self object s = Inr t \<Longrightarrow> runtime_step fin calloc c_string s t"
| end_construction: "runs self s \<Longrightarrow> cwhip_gc_end_construction self object s = Inr t \<Longrightarrow> runtime_step fin calloc c_string s t"
| begin_destroy: "runs self s \<Longrightarrow> cwhip_gc_begin_destroy self object s = Inr t \<Longrightarrow> runtime_step fin calloc c_string s t"
| end_destroy: "runs self s \<Longrightarrow> cwhip_gc_end_destroy self object s = Inr t \<Longrightarrow> runtime_step fin calloc c_string s t"
| trace_push: "runs self s \<Longrightarrow> cwhip_trace_push self storage entry s = Inr t \<Longrightarrow> runtime_step fin calloc c_string s t"
| trace_pop: "runs self s \<Longrightarrow> cwhip_trace_pop self storage s = Inr t \<Longrightarrow> runtime_step fin calloc c_string s t"
| exception_push: "runs self s \<Longrightarrow> cwhip_exception_push self frame s = Inr t \<Longrightarrow> runtime_step fin calloc c_string s t"
| exception_pop: "runs self s \<Longrightarrow> cwhip_exception_pop self frame s = Inr t \<Longrightarrow> runtime_step fin calloc c_string s t"
| exception_clear: "runs self s \<Longrightarrow> cwhip_exception_clear frame s = Inr t \<Longrightarrow> runtime_step fin calloc c_string s t"
| raise_object: "runs self s \<Longrightarrow> cwhip_exception_raise_object self r s = Inr (frame, t) \<Longrightarrow> runtime_step fin calloc c_string s t"
| rethrow: "runs self s \<Longrightarrow> cwhip_exception_rethrow self storage s = Inr (frame, t) \<Longrightarrow> runtime_step fin calloc c_string s t"
| callback_new: "runs self s \<Longrightarrow> receiver < 2 ^ 64 \<Longrightarrow> rooted fin s receiver \<Longrightarrow>
    cwhip_callback_new fin calloc self receiver arguments s = Inr (object, t) \<Longrightarrow> runtime_step fin calloc c_string s t"
| callback_acquire: "cwhip_callback_acquire c_string self callback signature address s = Inr t \<Longrightarrow> runtime_step fin calloc c_string s t"
| transfer_prepare: "cwhip_callback_transfer_prepare c_string self callback signature address s = Inr t \<Longrightarrow> runtime_step fin calloc c_string s t"
| transfer_accept: "cwhip_callback_transfer_accept c_string self transfer address s = Inr t \<Longrightarrow> runtime_step fin calloc c_string s t"
| transfer_cancel: "cwhip_callback_transfer_cancel self transfer s = Inr t \<Longrightarrow> runtime_step fin calloc c_string s t"
| callback_release: "cwhip_callback_release self address s = Inr t \<Longrightarrow> runtime_step fin calloc c_string s t"
| callback_dispose: "cwhip_callback_dispose self address s = Inr t \<Longrightarrow> runtime_step fin calloc c_string s t"
| list_append: "runs self s \<Longrightarrow> on_array (\<lambda>a. cwhip_array_append junk a v) object s = Inr t \<Longrightarrow> value_valid s v \<Longrightarrow>
    runtime_step fin calloc c_string s t"
| dict_set: "runs self s \<Longrightarrow> on_map (\<lambda>m. map_set m key v) object s = Inr t \<Longrightarrow> value_valid s v \<Longrightarrow>
    runtime_step fin calloc c_string s t"
| dict_remove: "runs self s \<Longrightarrow> on_map (\<lambda>m. bindE (map_remove m key) (\<lambda>(found, m). Inr m)) object s = Inr t \<Longrightarrow>
    runtime_step fin calloc c_string s t"
| store_field: "runs self s \<Longrightarrow> content_ok content \<Longrightarrow> \<forall>p \<in> reference_set content. valid_pointer s p \<Longrightarrow>
    runtime_step fin calloc c_string s (on_node object (hn_content_update (\<lambda>_. content)) s)"
| store_variable: "runs self s \<Longrightarrow> roots_ok (s\<lparr>gs_memory := memory\<rparr>) \<Longrightarrow>
    \<forall>p \<in> root_pointers (s\<lparr>gs_memory := memory\<rparr>). valid_pointer s p \<Longrightarrow>
    runtime_step fin calloc c_string s (s\<lparr>gs_memory := memory\<rparr>)"

subsection \<open>The invariant of the lock\<close>

definition gil_ok :: "gc_state \<Rightarrow> bool" where
  "gil_ok s \<longleftrightarrow> distinct (gs_thread_registry s) \<and>
     (\<forall>x. th_gil_held (gs_threads s x) = (gs_gil s = Some x)) \<and>
     (\<forall>x. th_registered (gs_threads s x) = (x \<in> set (gs_thread_registry s))) \<and>
     (\<forall>x. gs_gil s = Some x \<longrightarrow> x \<in> set (gs_thread_registry s)) \<and>
     (\<forall>x. x \<notin> set (gs_thread_registry s) \<longrightarrow> th_root_frame (gs_threads s x) = []) \<and>
     (\<forall>x. \<not> collector_busy x s)"

lemma gil_ok_cong:
  assumes "gil_ok s" "gs_gil t = gs_gil s" "gs_thread_registry t = gs_thread_registry s"
    and "\<And>x. th_gil_held (gs_threads t x) = th_gil_held (gs_threads s x)"
    and "\<And>x. th_registered (gs_threads t x) = th_registered (gs_threads s x)"
    and "\<And>x. collector_busy x t = collector_busy x s"
    and "\<And>x. x \<notin> set (gs_thread_registry s) \<Longrightarrow> th_root_frame (gs_threads t x) = th_root_frame (gs_threads s x)"
  shows "gil_ok t"
  using assms by (simp add: gil_ok_def)

lemma gil_ok_same_threads: "gil_ok s \<Longrightarrow> same_threads s t \<Longrightarrow> gil_ok t"
  by (rule gil_ok_cong) (simp_all add: same_threads_def collector_busy_def)

text \<open>The holder of the lock changes its frames and stacks.\<close>

lemma gil_ok_on_thread:
  assumes "gil_ok s" "runs self s"
    and "\<And>t. th_gil_held (f t) = th_gil_held t" "\<And>t. th_registered (f t) = th_registered t"
      "\<And>t. th_collecting (f t) = th_collecting t" "\<And>t. th_running_destructor (f t) = th_running_destructor t"
  shows "gil_ok (on_thread self f s)"
  by (rule gil_ok_cong [OF assms(1)])
    (use assms in \<open>auto simp: on_thread_def collector_busy_def gil_ok_def runs_def\<close>)

text \<open>What the operations on the lock do.\<close>

lemma thread_effects:
  "cwhip_runtime_thread_enter self s = Some (Inr t) \<Longrightarrow>
     gs_gil s = None \<and> \<not> th_registered (gs_threads s self) \<and>
     t = on_thread self (\<lambda>t. t\<lparr>th_registered := True, th_gil_held := True\<rparr>)
       (s\<lparr>gs_gil := Some self, gs_thread_registry := self # gs_thread_registry s\<rparr>)"
  "cwhip_runtime_thread_exit self s = Inr t \<Longrightarrow>
     th_gil_held (gs_threads s self) \<and> th_root_frame (gs_threads s self) = [] \<and>
     t = on_thread self (\<lambda>t. t\<lparr>th_registered := False, th_gil_held := False\<rparr>)
       (s\<lparr>gs_gil := None, gs_thread_registry := remove1 self (gs_thread_registry s)\<rparr>)"
  "cwhip_runtime_gil_release self s = Inr t \<Longrightarrow>
     th_gil_held (gs_threads s self) \<and> t = on_thread self (th_gil_held_update (\<lambda>_. False)) (s\<lparr>gs_gil := None\<rparr>)"
  "cwhip_runtime_gil_acquire self s = Some (Inr t) \<Longrightarrow>
     gs_gil s = None \<and> th_registered (gs_threads s self) \<and>
     t = on_thread self (th_gil_held_update (\<lambda>_. True)) (s\<lparr>gs_gil := Some self\<rparr>)"
  by (auto simp: cwhip_runtime_thread_enter_def cwhip_runtime_thread_exit_def cwhip_runtime_gil_release_def
      cwhip_runtime_gil_acquire_def callback_thread_exit_check_def lock_gil_def unlock_gil_def on_thread_def
      bindE_Inr_iff Let_def split: if_splits)

text \<open>A thread takes the lock, and maybe registers; it gives the lock back, and maybe exits.\<close>

lemma gil_ok_take:
  assumes "gil_ok s" "gs_gil s = None" "self \<in> set registry" "distinct registry" "set registry = insert self (set (gs_thread_registry s))"
    and f: "th_gil_held (f (gs_threads s self))" "th_registered (f (gs_threads s self))"
      "th_collecting (f (gs_threads s self)) = th_collecting (gs_threads s self)"
      "th_running_destructor (f (gs_threads s self)) = th_running_destructor (gs_threads s self)"
  shows "gil_ok (on_thread self f (s\<lparr>gs_gil := Some self, gs_thread_registry := registry\<rparr>))"
  using assms unfolding gil_ok_def on_thread_def collector_busy_def by simp

lemma gil_ok_give:
  assumes "gil_ok s" "th_gil_held (gs_threads s self)" "distinct registry"
    and registry: "\<And>x. x \<noteq> self \<Longrightarrow> x \<in> set registry \<longleftrightarrow> x \<in> set (gs_thread_registry s)"
    and f: "\<not> th_gil_held (f (gs_threads s self))" "th_registered (f (gs_threads s self)) = (self \<in> set registry)"
      "th_collecting (f (gs_threads s self)) = th_collecting (gs_threads s self)"
      "th_running_destructor (f (gs_threads s self)) = th_running_destructor (gs_threads s self)"
      "self \<notin> set registry \<Longrightarrow> th_root_frame (f (gs_threads s self)) = []"
  shows "gil_ok (on_thread self f (s\<lparr>gs_gil := None, gs_thread_registry := registry\<rparr>))"
proof -
  have "gs_gil s = Some self" using assms(1,2) by (simp add: gil_ok_def)
  then have "\<not> th_gil_held (gs_threads s x)" if "x \<noteq> self" for x using assms(1) that by (auto simp: gil_ok_def)
  with assms show ?thesis unfolding gil_ok_def on_thread_def collector_busy_def by auto
qed

lemma record_registry: "s\<lparr>gs_gil := g\<rparr> = s\<lparr>gs_gil := g, gs_thread_registry := gs_thread_registry s\<rparr>"
  by simp

lemma thread_steps_gil_ok:
  assumes "gil_ok s"
  shows "cwhip_runtime_thread_enter self s = Some (Inr t) \<Longrightarrow> gil_ok t"
    and "cwhip_runtime_thread_exit self s = Inr t \<Longrightarrow> gil_ok t"
    and "cwhip_runtime_gil_release self s = Inr t \<Longrightarrow> gil_ok t"
    and "cwhip_runtime_gil_acquire self s = Some (Inr t) \<Longrightarrow> gil_ok t"
proof -
  have reg: "distinct (gs_thread_registry s)" "\<And>x. th_registered (gs_threads s x) = (x \<in> set (gs_thread_registry s))"
      "\<And>x. th_gil_held (gs_threads s x) = (gs_gil s = Some x)" "\<And>x. gs_gil s = Some x \<Longrightarrow> x \<in> set (gs_thread_registry s)"
    using assms by (auto simp: gil_ok_def)
  show "gil_ok t" if "cwhip_runtime_thread_enter self s = Some (Inr t)"
    using thread_effects(1) [OF that] reg gil_ok_take [OF assms, of self "self # gs_thread_registry s"] by simp
  show "gil_ok t" if "cwhip_runtime_thread_exit self s = Inr t"
    using thread_effects(2) [OF that] reg gil_ok_give [OF assms, of self "remove1 self (gs_thread_registry s)"] by simp
  show "gil_ok t" if "cwhip_runtime_gil_release self s = Inr t"
    using thread_effects(3) [OF that] reg gil_ok_give [OF assms, of self "gs_thread_registry s"] by (subst (asm) record_registry) simp
  show "gil_ok t" if "cwhip_runtime_gil_acquire self s = Some (Inr t)"
    using thread_effects(4) [OF that] reg gil_ok_take [OF assms, of self "gs_thread_registry s"]
    by (subst (asm) record_registry) (simp add: insert_absorb)
qed

subsection \<open>The invariant of the heap\<close>

lemma gc_ok_roots:
  assumes "gc_ok s" "gs_heap t = gs_heap s" "gs_object_count t = gs_object_count s" "roots_ok t"
    "\<forall>p \<in> root_pointers t. p \<in> root_pointers s \<or> valid_pointer s p"
  shows "gc_ok t"
  using assms by (auto simp: gc_ok_def heap_ok_def no_dangling_def valid_pointer_def)

text \<open>Frames and registrations that go away keep the invariant.\<close>

lemma fewer_roots:
  assumes "roots_ok s" "gs_memory t = gs_memory s" "set (gs_callback_transfers t) \<subseteq> set (gs_callback_transfers s)"
    "set (gs_callback_contexts t) \<subseteq> set (gs_callback_contexts s)"
    and frames: "\<And>x. x \<in> set (gs_thread_registry t) \<Longrightarrow> th_root_frame (gs_threads t x) \<noteq> [] \<Longrightarrow>
      x \<in> set (gs_thread_registry s) \<and> set (th_root_frame (gs_threads t x)) \<subseteq> set (th_root_frame (gs_threads s x))"
  shows "root_pointers t \<subseteq> root_pointers s" "roots_ok t"
proof -
  have old: "x \<in> set (gs_thread_registry s) \<and> f \<in> set (th_root_frame (gs_threads s x))"
    if "x \<in> set (gs_thread_registry t)" "f \<in> set (th_root_frame (gs_threads t x))" for x f
    using frames [OF that(1)] that(2) by (metis empty_iff list.set(1) subsetD)
  then show "roots_ok t" using assms(1,2) by (auto simp: roots_ok_def)
  show "root_pointers t \<subseteq> root_pointers s"
    unfolding root_pointers_def assms(2) using old assms(3,4) by (intro Un_mono) blast+
qed

lemma gc_ok_fewer:
  assumes "gc_ok s" "gs_heap t = gs_heap s" "gs_object_count t = gs_object_count s" "gs_memory t = gs_memory s"
    "set (gs_callback_transfers t) \<subseteq> set (gs_callback_transfers s)" "set (gs_callback_contexts t) \<subseteq> set (gs_callback_contexts s)"
    "\<And>x. x \<in> set (gs_thread_registry t) \<Longrightarrow> th_root_frame (gs_threads t x) \<noteq> [] \<Longrightarrow>
      x \<in> set (gs_thread_registry s) \<and> set (th_root_frame (gs_threads t x)) \<subseteq> set (th_root_frame (gs_threads s x))"
  shows "gc_ok t"
proof -
  have "roots_ok s" using assms(1) by (simp add: gc_ok_def heap_ok_def)
  from fewer_roots [OF this assms(4-7)] gc_ok_roots [OF assms(1-3)] show ?thesis by blast
qed

lemma thread_steps_gc_ok:
  assumes "gc_ok s" "gil_ok s"
  shows "cwhip_runtime_thread_enter self s = Some (Inr t) \<Longrightarrow> gc_ok t"
    and "cwhip_runtime_thread_exit self s = Inr t \<Longrightarrow> gc_ok t"
    and "cwhip_runtime_gil_release self s = Inr t \<Longrightarrow> gc_ok t"
    and "cwhip_runtime_gil_acquire self s = Some (Inr t) \<Longrightarrow> gc_ok t"
proof -
  show "gc_ok t" if step: "cwhip_runtime_thread_enter self s = Some (Inr t)"
  proof -
    have "th_root_frame (gs_threads s self) = []" using thread_effects(1) [OF step] assms(2) by (simp add: gil_ok_def)
    with thread_effects(1) [OF step] show ?thesis by (intro gc_ok_fewer [OF assms(1)]) (auto simp: on_thread_def split: if_splits)
  qed
  show "gc_ok t" if step: "cwhip_runtime_thread_exit self s = Inr t"
    using thread_effects(2) [OF step] set_remove1_subset [of self "gs_thread_registry s"]
    by (intro gc_ok_fewer [OF assms(1)]) (auto simp: on_thread_def split: if_splits)
  show "gc_ok t" if step: "cwhip_runtime_gil_release self s = Inr t"
    using thread_effects(3) [OF step] by (intro gc_ok_fewer [OF assms(1)]) (auto simp: on_thread_def split: if_splits)
  show "gc_ok t" if step: "cwhip_runtime_gil_acquire self s = Some (Inr t)"
    using thread_effects(4) [OF step] by (intro gc_ok_fewer [OF assms(1)]) (auto simp: on_thread_def split: if_splits)
qed

subsection \<open>Every step keeps the invariants\<close>

definition runtime_ok :: "gc_state \<Rightarrow> bool" where
  "runtime_ok s \<longleftrightarrow> gc_ok s \<and> gil_ok s"

lemma runtime_ok_flags:
  assumes "runtime_ok s" "runs self s"
    and "\<And>n. node_shape (g n) = node_shape n" "\<And>t. th_root_frame (f t) = th_root_frame t"
    and "\<And>t. th_gil_held (f t) = th_gil_held t" "\<And>t. th_registered (f t) = th_registered t"
      "\<And>t. th_collecting (f t) = th_collecting t" "\<And>t. th_running_destructor (f t) = th_running_destructor t"
  shows "runtime_ok (on_thread self f (on_node a g s))" "runtime_ok (on_thread self f s)" "runtime_ok (on_node a g s)"
proof -
  have node: "gil_ok (on_node a g s)" "runs self (on_node a g s)"
    using assms(1,2) by (auto simp: runtime_ok_def on_node_def runs_def gil_ok_def collector_busy_def)
  then show "runtime_ok (on_node a g s)" using assms(1,3) by (simp add: runtime_ok_def gc_ok_on_node)
  show "runtime_ok (on_thread self f s)"
    using assms(1,2,4-8) gil_ok_on_thread by (simp add: runtime_ok_def gc_ok_on_thread)
  show "runtime_ok (on_thread self f (on_node a g s))"
    using assms(1,3-8) node gil_ok_on_thread by (simp add: runtime_ok_def gc_ok_on_thread gc_ok_on_node)
qed

lemma runtime_ok_on_frame: "runtime_ok (on_frame frame f s) = runtime_ok s"
  by (simp add: runtime_ok_def gc_ok_on_frame) (simp add: on_frame_def gil_ok_def collector_busy_def)

lemma collect_step:
  assumes "runtime_ok s" "well_behaved fin self" "cwhip_gc_collect fin self s = Inr t"
  shows "runtime_ok t"
proof -
  have "\<not> collector_busy self s" "gs_object_count s \<le> uint64_max div 8"
    using assms(3) by (auto simp: cwhip_gc_collect_def bindE_Inr_iff Let_def on_thread_def)
  moreover have "gc_ok s" "gil_ok s" using assms(1) by (simp_all add: runtime_ok_def)
  ultimately obtain u where "cwhip_gc_collect fin self s = Inr u" "gc_ok u" "same_threads s u"
    using collect_ok [of s self fin] assms(2) by blast
  with assms(3) gil_ok_same_threads [OF \<open>gil_ok s\<close>] show ?thesis by (simp add: runtime_ok_def)
qed

lemma add_node_step:
  assumes "runtime_ok s" "allocator_ok calloc" "bytes \<noteq> 0" "references content = Inr ps" "set ps \<subseteq> {0}" "content_ok content"
  shows "runtime_ok (snd (add_node (calloc (gs_heap s) bytes) bytes content is_buffer s))"
proof -
  let ?t = "snd (add_node (calloc (gs_heap s) bytes) bytes content is_buffer s)"
  have ok: "gc_ok s" "gil_ok s" using assms(1) by (simp_all add: runtime_ok_def)
  have "same_threads s ?t" by (simp add: same_threads_def add_node_def)
  with ok(2) have "gil_ok ?t" by (rule gil_ok_same_threads)
  moreover have "free_block (gs_heap s) (calloc (gs_heap s) bytes) bytes" using assms(2,3) by (simp add: allocator_ok_def)
  then have "gc_ok ?t" by (rule add_node_ok [OF ok(1) _ assms(3-6)])
  ultimately show ?thesis by (simp add: runtime_ok_def)
qed

lemma alloc_step:
  assumes ok: "runtime_ok s" and fin: "well_behaved fin self" "allocator_ok calloc"
  shows "cwhip_gc_alloc fin calloc self metadata s = Inr (object, t) \<Longrightarrow> runtime_ok t \<and> object \<in> addresses (gs_heap t)"
    and "gc_alloc_array fin calloc self n s = Inr (object, t) \<Longrightarrow> runtime_ok t"
    and "cwhip_gc_alloc_map fin calloc self s = Inr (object, t) \<Longrightarrow> runtime_ok t"
proof -
  show "runtime_ok t \<and> object \<in> addresses (gs_heap t)" if "cwhip_gc_alloc fin calloc self metadata s = Inr (object, t)"
  proof -
    from that obtain c u where u: "metadata = Some c" "layout_ok c" "cwhip_gc_collect fin self s = Inr u"
        "(object, t) = add_node (calloc (gs_heap u) (me_object_size c)) (me_object_size c) (Plain_object (Some c) (\<lambda>_. 0)) (c = buffer_metadata) u"
      by (auto simp: cwhip_gc_alloc_def bindE_Inr_iff split: option.splits)
    have "me_object_size c \<noteq> 0" using u(2) by (auto simp: layout_ok_def)
    with add_node_step [OF collect_step [OF ok fin(1) u(3)] fin(2)] new_object_references [OF u(2)] u(4)
    have "runtime_ok t" by (metis snd_conv)
    moreover have "object \<in> addresses (gs_heap t)" using u(4) by (auto simp: add_node_def addresses_def)
    ultimately show ?thesis by simp
  qed
  show "runtime_ok t" if "gc_alloc_array fin calloc self n s = Inr (object, t)"
  proof -
    from that obtain a u where u: "cwhip_gc_alloc_array n = Inr a" "cwhip_gc_collect fin self s = Inr u"
        "(object, t) = add_node (calloc (gs_heap u) 32) 32 (Array_object a) False u"
      by (auto simp: gc_alloc_array_def bindE_Inr_iff)
    from u(1) have a: "a = \<lparr>ar_length = nat n, ar_values = replicate (nat n) null_value\<rparr>" "nat n \<le> array_limit"
      by (auto simp: cwhip_gc_alloc_array_def bindE_Inr_iff)
    have "references (Array_object a) = Inr (value_references (replicate (nat n) null_value))" by (simp add: a(1))
    moreover have "set (value_references (replicate (nat n) null_value)) \<subseteq> {0}"
      by (auto simp: value_references_def null_value_def)
    moreover have "content_ok (Array_object a)" using a(2) by (simp add: content_ok_def a(1) array_ok_def array_limit_def)
    ultimately have "runtime_ok (snd (add_node (calloc (gs_heap u) 32) 32 (Array_object a) False u))"
      by (intro add_node_step [OF collect_step [OF ok fin(1) u(2)] fin(2)]) auto
    then show ?thesis by (metis snd_conv u(3))
  qed
  show "runtime_ok t" if "cwhip_gc_alloc_map fin calloc self s = Inr (object, t)"
  proof -
    from that obtain u where u: "cwhip_gc_collect fin self s = Inr u"
        "(object, t) = add_node (calloc (gs_heap u) 48) 48 (Map_object new_map) False u"
      by (auto simp: cwhip_gc_alloc_map_def bindE_Inr_iff)
    have "runtime_ok (snd (add_node (calloc (gs_heap u) 48) 48 (Map_object new_map) False u))"
      by (rule add_node_step [OF collect_step [OF ok fin(1) u(1)] fin(2), where ps = "[]"])
        (simp_all add: value_references_def content_ok_def new_map_ok, simp add: new_map_def)
    then show ?thesis by (metis snd_conv u(2))
  qed
qed

subsection \<open>Exceptions\<close>

lemma rewind_subset: "rewind f saved xs = Inr ys \<Longrightarrow> set ys \<subseteq> set xs"
  by (induction xs) (auto split: if_splits)

lemma unwind_shape:
  "unwind f saved stack heap = Inr (stack', heap') \<Longrightarrow> (\<And>n. node_shape (f n) = node_shape n) \<Longrightarrow> same_shape heap heap'"
proof (induction stack arbitrary: heap)
  case Nil
  then show ?case by (auto simp: same_shape_def split: if_splits)
next
  case (Cons a stack)
  show ?case
  proof (cases "a = saved")
    case True
    with Cons.prems show ?thesis by (simp add: same_shape_def)
  next
    case False
    with Cons.prems have "unwind f saved stack (update_node a f heap) = Inr (stack', heap')"
      by (auto split: option.splits)
    from Cons.IH [OF this Cons.prems(2)] same_shape_update [OF Cons.prems(2), of heap a]
    show ?thesis by (simp add: same_shape_def)
  qed
qed

lemma raise_step:
  assumes ok: "runtime_ok s" and runs: "runs self s" and step: "raise_exception self r s = Inr (frame, t)"
  shows "runtime_ok t"
proof -
  from step obtain roots f g heap1 heap ds cs where t:
      "rewind rf_address (ef_saved_roots (gs_exception_frames s (th_active_exception (gs_threads s self)))) (th_root_frame (gs_threads s self)) = Inr roots"
      "unwind (hn_destroying_update (\<lambda>_. False)) (ef_saved_destroys (gs_exception_frames s (th_active_exception (gs_threads s self))))
        (th_destroy_stack (gs_threads s self)) (gs_heap s) = Inr (ds, heap1)"
      "unwind (\<lambda>n. n\<lparr>hn_constructing := False, hn_destroyed := True\<rparr>)
        (ef_saved_constructions (gs_exception_frames s (th_active_exception (gs_threads s self))))
        (th_construction_stack (gs_threads s self)) heap1 = Inr (cs, heap)"
      "t = on_thread self f (on_frame frame g (s\<lparr>gs_heap := heap\<rparr>))"
      "\<And>t. th_root_frame (f t) = roots" "\<And>t. th_gil_held (f t) = th_gil_held t" "\<And>t. th_registered (f t) = th_registered t"
      "\<And>t. th_collecting (f t) = th_collecting t" "\<And>t. th_running_destructor (f t) = th_running_destructor t"
    unfolding raise_exception_def Let_def bindE_Inr_iff by (auto simp: bindE_Inr_iff)
  have shape: "same_shape (gs_heap s) (gs_heap t)"
    using unwind_shape [OF t(2)] unwind_shape [OF t(3)] t(4)
    by (simp add: same_shape_def on_thread_def on_frame_def node_shape_def [abs_def])
  have frames: "set (th_root_frame (gs_threads t x)) \<subseteq> set (th_root_frame (gs_threads s x))" for x
    using rewind_subset [OF t(1)] by (simp add: t(4,5) on_thread_def on_frame_def)
  have same: "gs_memory t = gs_memory s" "gs_thread_registry t = gs_thread_registry s" "gs_object_count t = gs_object_count s"
      "gs_callback_contexts t = gs_callback_contexts s" "gs_callback_transfers t = gs_callback_transfers s"
    by (simp_all add: t(4) on_thread_def on_frame_def)
  have gc: "gc_ok s" "roots_ok s" using ok by (simp_all add: runtime_ok_def gc_ok_def heap_ok_def)
  have "root_pointers t \<subseteq> root_pointers s" "roots_ok t"
    using fewer_roots [OF gc(2), of t] frames by (simp_all add: same)
  then have "gc_ok t" using gc_ok_fewer_roots [OF gc(1) shape] by (simp add: same)
  moreover have "gil_ok (on_frame frame g (s\<lparr>gs_heap := heap\<rparr>))" "runs self (on_frame frame g (s\<lparr>gs_heap := heap\<rparr>))"
    using ok runs by (simp_all add: runtime_ok_def on_frame_def gil_ok_def collector_busy_def runs_def)
  then have "gil_ok t" unfolding t(4) by (rule gil_ok_on_thread) (simp_all add: t(5-))
  ultimately show ?thesis by (simp add: runtime_ok_def)
qed

subsection \<open>Contents of objects\<close>

lemma object_owner: "gc_ok s \<Longrightarrow> a \<in> addresses (gs_heap s) \<Longrightarrow> valid_pointer s a"
proof -
  assume ok: "gc_ok s" and "a \<in> addresses (gs_heap s)"
  then obtain n where n: "n \<in> set (gs_heap s)" "hn_object n = a" by (auto simp: addresses_def)
  have "find_containing_object (gs_heap s) a \<noteq> None"
  proof
    assume "find_containing_object (gs_heap s) a = None"
    then have "\<not> (\<not> a < hn_object n \<and> a - hn_object n < hn_allocation_size n)"
      using n(1) unfolding find_containing_object_def find_None_iff by blast
    moreover have "hn_allocation_size n \<noteq> 0" using ok n(1) by (simp add: gc_ok_def)
    ultimately show False using n(2) by simp
  qed
  then show ?thesis by (auto simp: valid_pointer_def owner_def)
qed

lemma owner_on_content: "owner (gs_heap (on_node a (hn_content_update f) s)) p = owner (gs_heap s) p"
  by (simp add: on_node_def update_node_def owner_def find_containing_object_def find_map if_distrib
      option.map_comp comp_def cong: if_cong)

lemma content_step:
  assumes ok: "runtime_ok s" and content: "content_ok c" "\<forall>p \<in> reference_set c. valid_pointer s p"
  shows "runtime_ok (on_node a (hn_content_update (\<lambda>_. c)) s)"
proof -
  let ?t = "on_node a (hn_content_update (\<lambda>_. c)) s"
  have heap: "gs_heap ?t = map (\<lambda>n. if hn_object n = a then n\<lparr>hn_content := c\<rparr> else n) (gs_heap s)"
    by (simp add: on_node_def update_node_def)
  have names: "map hn_object (gs_heap ?t) = map hn_object (gs_heap s)" by (simp add: heap)
  have roots: "root_pointers ?t = root_pointers s" "roots_ok ?t = roots_ok s"
    by (simp_all add: on_node_def root_pointers_heap)
  from ok have gc: "distinct (map hn_object (gs_heap s))" "contents_ok (gs_heap s)" "roots_ok s" "no_dangling s"
      "gs_object_count s = length (gs_heap s)" "\<forall>n \<in> set (gs_heap s). hn_object n \<noteq> 0 \<and> hn_allocation_size n \<noteq> 0" "gil_ok s"
    by (simp_all add: runtime_ok_def gc_ok_def heap_ok_def)
  have "contents_ok (gs_heap ?t)" using gc(2) content(1) by (auto simp: contents_ok_def heap)
  then have "heap_ok ?t" using gc(1,3) unfolding heap_ok_def names roots by blast
  moreover have "no_dangling ?t"
    unfolding no_dangling_def roots owner_on_content
  proof (intro conjI ballI)
    show "p = 0 \<or> owner (gs_heap s) p \<noteq> None" if "p \<in> root_pointers s" for p using gc(4) that by (simp add: no_dangling_def)
    show "p = 0 \<or> owner (gs_heap s) p \<noteq> None" if "n \<in> set (gs_heap ?t)" "p \<in> reference_set (hn_content n)" for n p
      using gc(4) content(2) that by (auto simp: no_dangling_def valid_pointer_def heap split: if_splits)
  qed
  moreover have "gs_object_count ?t = length (gs_heap ?t)" using gc(5) by (simp add: heap) (simp add: on_node_def)
  moreover have "gil_ok ?t" using gc(7) by (intro gil_ok_same_threads [OF gc(7)]) (simp add: same_threads_def on_node_def)
  moreover have "\<forall>n \<in> set (gs_heap ?t). hn_object n \<noteq> 0 \<and> hn_allocation_size n \<noteq> 0"
    using gc(6) unfolding heap by (auto split: if_splits)
  ultimately show ?thesis by (simp add: runtime_ok_def gc_ok_def)
qed

lemma checked_objects:
  "checked_array object s = Inr a \<Longrightarrow> \<exists>node \<in> set (gs_heap s). hn_content node = Array_object a"
  "checked_map object s = Inr m \<Longrightarrow> \<exists>node \<in> set (gs_heap s). hn_content node = Map_object m"
  by (auto simp: checked_array_def checked_map_def bindE_Inr_iff split: option.splits object_content.splits dest: find_objectD)

lemma stored_content:
  assumes "runtime_ok s" "node \<in> set (gs_heap s)"
  shows "content_ok (hn_content node)" "\<forall>p \<in> reference_set (hn_content node). valid_pointer s p"
  using assms by (auto simp: runtime_ok_def gc_ok_def heap_ok_def contents_ok_def no_dangling_def valid_pointer_def)

lemma reference_set_array:
  "reference_set (Array_object a) = {av_pointer v | v. v \<in> set (list_items a) \<and> dynamic_value_is_gc_reference (av_tag v)}"
  by (auto simp: reference_set_def value_references_def list_items_def)

lemma reference_set_map:
  "reference_set (Map_object m) = {av_pointer v | k v. (k, v) \<in> set (map_items m) \<and> dynamic_value_is_gc_reference (av_tag v)}"
  by (auto simp: reference_set_def value_references_def map_items_def image_iff)

lemma list_append_step:
  assumes ok: "runtime_ok s" and step: "on_array (\<lambda>a. cwhip_array_append junk a v) object s = Inr t" and v: "value_valid s v"
  shows "runtime_ok t"
proof -
  from step obtain a b where a: "checked_array object s = Inr a" "cwhip_array_append junk a v = Inr b"
      "t = on_node object (hn_content_update (\<lambda>_. Array_object b)) s"
    by (auto simp: on_array_def bindE_Inr_iff)
  from checked_objects(1) [OF a(1)] obtain node where node: "node \<in> set (gs_heap s)" "hn_content node = Array_object a" by blast
  then have array: "array_ok a" using stored_content(1) [OF ok node(1)] by (simp add: content_ok_def)
  have "ar_length a < array_limit"
  proof (rule ccontr)
    assume "\<not> ar_length a < array_limit"
    then have "cwhip_array_resize junk a (int (ar_length a) + 1) = Inl (Raised ''list length exceeds allocation limit'')"
      by (simp add: cwhip_array_resize_def nat_add_distrib)
    with a(2) show False by (auto simp: cwhip_array_append_def bindE_Inr_iff)
  qed
  with cwhip_array_append_items [OF array] a(2) have b: "array_ok b" "list_items b = list_items a @ [v]"
    by (metis sum.inject(2))+
  have "\<forall>p \<in> reference_set (Array_object b). valid_pointer s p"
    using stored_content(2) [OF ok node(1)] v unfolding node(2) reference_set_array b(2) by (auto simp: value_valid_def)
  moreover have "content_ok (Array_object b)" using b(1) by (simp add: content_ok_def)
  ultimately show ?thesis unfolding a(3) by (intro content_step [OF ok])
qed

lemma dict_step:
  assumes ok: "runtime_ok s" and step: "on_map operation object s = Inr t"
    and operation: "\<And>m n. map_ok m \<Longrightarrow> operation m = Inr n \<Longrightarrow> map_ok n \<and>
      (\<forall>(k, w) \<in> set (map_items n). w \<in> snd ` set (map_items m) \<or> value_valid s w)"
  shows "runtime_ok t"
proof -
  from step obtain m n where m: "checked_map object s = Inr m" "operation m = Inr n"
      "t = on_node object (hn_content_update (\<lambda>_. Map_object n)) s"
    by (auto simp: on_map_def bindE_Inr_iff)
  from checked_objects(2) [OF m(1)] obtain node where node: "node \<in> set (gs_heap s)" "hn_content node = Map_object m" by blast
  then have "map_ok m" using stored_content(1) [OF ok node(1)] by (simp add: content_ok_def)
  from operation [OF this m(2)] have n: "map_ok n"
      "\<forall>(k, w) \<in> set (map_items n). w \<in> snd ` set (map_items m) \<or> value_valid s w" by blast+
  have "\<forall>p \<in> reference_set (Map_object n). valid_pointer s p"
    using stored_content(2) [OF ok node(1)] n(2) unfolding node(2) reference_set_map by (fastforce simp: value_valid_def)
  moreover have "content_ok (Map_object n)" using n(1) by (simp add: content_ok_def)
  ultimately show ?thesis unfolding m(3) by (intro content_step [OF ok])
qed

lemma set_update_items: "set (AList.update k v al) \<subseteq> insert (k, v) (set al)"
  by (induction al) auto

lemma dict_steps:
  assumes ok: "runtime_ok s"
  shows "on_map (\<lambda>m. map_set m key v) object s = Inr t \<Longrightarrow> value_valid s v \<Longrightarrow> runtime_ok t"
    and "on_map (\<lambda>m. bindE (map_remove m key) (\<lambda>(found, m). Inr m)) object s = Inr t \<Longrightarrow> runtime_ok t"
proof -
  show "runtime_ok t" if "on_map (\<lambda>m. map_set m key v) object s = Inr t" "value_valid s v"
  proof (rule dict_step [OF ok that(1)])
    fix m n assume m: "map_ok m" "map_set m key v = Inr n"
    from map_set_items(1) [OF m] have n: "map_ok n" "map_items n = AList.update key v (map_items m)" by simp_all
    then show "map_ok n \<and> (\<forall>(k, w) \<in> set (map_items n). w \<in> snd ` set (map_items m) \<or> value_valid s w)"
      using set_update_items [of key v "map_items m"] that(2) by (force simp: image_iff)
  qed
  show "runtime_ok t" if "on_map (\<lambda>m. bindE (map_remove m key) (\<lambda>(found, m). Inr m)) object s = Inr t"
  proof (rule dict_step [OF ok that])
    fix m n assume m: "map_ok m" "bindE (map_remove m key) (\<lambda>(found, m). Inr m) = Inr n"
    from map_remove_items [OF m(1), of key] m(2) have "map_ok n" "map_items n = AList.delete key (map_items m)" by auto
    then show "map_ok n \<and> (\<forall>(k, w) \<in> set (map_items n). w \<in> snd ` set (map_items m) \<or> value_valid s w)"
      by (auto simp: AList.delete_eq image_iff) (metis snd_conv)
  qed
qed

subsection \<open>Callbacks\<close>

lemma collect_idle:
  "cwhip_gc_collect fin self s = Inr t \<Longrightarrow> \<not> collector_busy self s"
  "cwhip_gc_collect fin self s = Inr t \<Longrightarrow> gs_object_count s \<le> uint64_max div 8"
  by (auto simp: cwhip_gc_collect_def bindE_Inr_iff Let_def on_thread_def)

lemma callback_new_step:
  assumes ok: "runtime_ok s" and fin: "well_behaved fin self" "allocator_ok calloc"
    and receiver: "receiver < 2 ^ 64" "rooted fin s receiver"
    and step: "cwhip_callback_new fin calloc self receiver arguments s = Inr (object, t)"
  shows "runtime_ok t"
proof -
  define words where "words = (\<lambda>offset :: nat. if offset = 8 then of_nat receiver else if offset > 8 then arguments offset else (0 :: 64 word))"
  from step obtain u where u: "cwhip_gc_alloc fin calloc self (Some callback_metadata) s = Inr (object, u)"
      "t = on_node object (hn_content_update (\<lambda>_. Plain_object (Some callback_metadata) words)) u"
    unfolding cwhip_callback_new_def bindE_Inr_iff words_def by auto
  have "references (Plain_object (Some callback_metadata) words) = Inr [receiver]"
    using receiver(1) by (simp add: callback_metadata_def plain_metadata_def static_references_def dynamic_references_def
        valid_reference_offset_def words_def unsigned_of_nat take_bit_nat_eq_self)
  then have "content_ok (Plain_object (Some callback_metadata) words)"
      "reference_set (Plain_object (Some callback_metadata) words) = {receiver}"
    by (simp_all add: content_ok_def reference_set_def)
  moreover have "valid_pointer u receiver"
  proof -
    from u(1) obtain v where v: "cwhip_gc_collect fin self s = Inr v" "\<exists>node. gs_heap u = node # gs_heap v"
      by (auto simp: cwhip_gc_alloc_def bindE_Inr_iff add_node_def)
    have "owner (gs_heap v) receiver \<noteq> None"
      using rooted_survives [OF _ collect_idle [OF v(1)] fin(1) receiver(2) v(1)] ok by (simp add: runtime_ok_def)
    with v(2) show ?thesis by (auto simp: valid_pointer_def owner_def find_containing_object_def)
  qed
  ultimately show ?thesis unfolding u(2) using alloc_step(1) [OF ok fin u(1)] by (intro content_step) auto
qed

lemma registrations_gil_ok:
  "gil_ok (s\<lparr>gs_callback_contexts := cs\<rparr>) = gil_ok s" "gil_ok (s\<lparr>gs_callback_transfers := ts\<rparr>) = gil_ok s"
  by (simp_all add: gil_ok_def collector_busy_def)

lemma callback_validate_object:
  "callback_validate c_string self callback signature s = Inr c \<Longrightarrow> c = callback \<and> callback \<in> addresses (gs_heap s)"
  by (auto simp: callback_validate_def bindE_Inr_iff addresses_def image_iff split: option.splits dest!: find_objectD)

lemma callback_acquire_step:
  assumes ok: "runtime_ok s" and step: "cwhip_callback_acquire c_string self callback signature address s = Inr t"
  shows "runtime_ok t"
proof -
  from step obtain x where x: "callback_validate c_string self callback signature s = Inr x"
      "t = s\<lparr>gs_callback_contexts := \<lparr>cc_address = address, cc_callback = x, cc_owner = self, cc_in_flight = 0, cc_released = False\<rparr> # gs_callback_contexts s\<rparr>"
    by (auto simp: cwhip_callback_acquire_def bindE_Inr_iff)
  obtain c where t: "callback \<in> addresses (gs_heap s)" "cc_callback c = callback"
      "t = s\<lparr>gs_callback_contexts := c # gs_callback_contexts s\<rparr>"
    by (rule that [of "\<lparr>cc_address = address, cc_callback = x, cc_owner = self, cc_in_flight = 0, cc_released = False\<rparr>"]) (use callback_validate_object [OF x(1)] x(2) in simp_all)
  from ok have gc: "gc_ok s" "gil_ok s" "roots_ok s" by (simp_all add: runtime_ok_def gc_ok_def heap_ok_def)
  have "gc_ok t"
    using gc(3) object_owner [OF gc(1) t(1)] t(2)
    by (intro gc_ok_roots [OF gc(1)]) (auto simp: t(3) roots_ok_def root_pointers_def)
  with gc(2) show ?thesis by (simp add: runtime_ok_def t(3) registrations_gil_ok)
qed

lemma callback_steps:
  assumes ok: "runtime_ok s"
  shows "cwhip_callback_transfer_prepare c_string self callback signature address s = Inr t \<Longrightarrow> runtime_ok t"
    and "callback_transfer_remove self transfer s = Inr (r, t) \<Longrightarrow> runtime_ok t"
    and "cwhip_callback_release self address s = Inr t \<Longrightarrow> runtime_ok t"
    and "cwhip_callback_dispose self address s = Inr t \<Longrightarrow> runtime_ok t"
proof -
  from ok have gc: "gc_ok s" "gil_ok s" "roots_ok s" by (simp_all add: runtime_ok_def gc_ok_def heap_ok_def)
  show "runtime_ok t" if step: "cwhip_callback_transfer_prepare c_string self callback signature address s = Inr t"
  proof -
    from step obtain x where x: "callback_validate c_string self callback signature s = Inr x"
        "t = s\<lparr>gs_callback_transfers := \<lparr>ct_address = address, ct_callback = x\<rparr> # gs_callback_transfers s\<rparr>"
      by (auto simp: cwhip_callback_transfer_prepare_def bindE_Inr_iff)
    obtain c where t: "callback \<in> addresses (gs_heap s)" "ct_callback c = callback"
        "t = s\<lparr>gs_callback_transfers := c # gs_callback_transfers s\<rparr>"
      by (rule that [of "\<lparr>ct_address = address, ct_callback = x\<rparr>"]) (use callback_validate_object [OF x(1)] x(2) in simp_all)
    have "gc_ok t"
      using gc(3) object_owner [OF gc(1) t(1)] t(2)
      by (intro gc_ok_roots [OF gc(1)]) (auto simp: t(3) roots_ok_def root_pointers_def)
    with gc(2) show ?thesis by (simp add: runtime_ok_def t(3) registrations_gil_ok)
  qed
  show "runtime_ok t" if step: "callback_transfer_remove self transfer s = Inr (r, t)"
  proof -
    from step have t: "t = s\<lparr>gs_callback_transfers := remove1 r (gs_callback_transfers s)\<rparr>"
      by (auto simp: callback_transfer_remove_def bindE_Inr_iff split: option.splits)
    have "gc_ok t" by (rule gc_ok_fewer [OF gc(1)]) (simp_all add: t set_remove1_subset)
    with gc(2) show ?thesis by (simp add: runtime_ok_def t registrations_gil_ok)
  qed
  show "runtime_ok t" if step: "cwhip_callback_release self address s = Inr t"
  proof -
    from step have t: "t = on_context address (\<lambda>c. c\<lparr>cc_released := True, cc_callback := 0\<rparr>) s"
      by (auto simp: cwhip_callback_release_def bindE_Inr_iff)
    have "root_pointers t \<subseteq> root_pointers s" unfolding root_pointers_def
      by (intro Un_mono) (auto simp: t on_context_def split: if_splits)
    then have "gc_ok t" using gc(3) by (intro gc_ok_roots [OF gc(1)]) (auto simp: t on_context_def roots_ok_def)
    with gc(2) show ?thesis by (simp add: runtime_ok_def t on_context_def registrations_gil_ok)
  qed
  show "runtime_ok t" if step: "cwhip_callback_dispose self address s = Inr t"
  proof -
    from step obtain c where t: "t = s\<lparr>gs_callback_contexts := remove1 c (gs_callback_contexts s)\<rparr>"
      by (auto simp: cwhip_callback_dispose_def bindE_Inr_iff split: option.splits)
    have "gc_ok t" by (rule gc_ok_fewer [OF gc(1)]) (simp_all add: t set_remove1_subset)
    with gc(2) show ?thesis by (simp add: runtime_ok_def t registrations_gil_ok)
  qed
qed

subsection \<open>Frames\<close>

lemma frame_steps:
  assumes ok: "runtime_ok s" and runs: "runs self s"
  shows "gc_push self frame slots tags n s = (True, t) \<Longrightarrow> roots_ok t \<Longrightarrow>
      \<forall>p \<in> root_pointers t. p \<in> root_pointers s \<or> valid_pointer s p \<Longrightarrow> runtime_ok t"
    and "cwhip_gc_pop self frame s = (True, t) \<Longrightarrow> runtime_ok t"
proof -
  from ok have gc: "gc_ok s" "gil_ok s" by (simp_all add: runtime_ok_def)
  show "runtime_ok t" if step: "gc_push self frame slots tags n s = (True, t)" "roots_ok t"
      "\<forall>p \<in> root_pointers t. p \<in> root_pointers s \<or> valid_pointer s p"
  proof -
    from step(1) obtain f where t: "t = on_thread self (th_root_frame_update f) s" by (auto simp: gc_push_def split: if_splits)
    have "gil_ok t" unfolding t by (rule gil_ok_on_thread [OF gc(2) runs]) simp_all
    moreover have "gc_ok t" by (rule gc_ok_roots [OF gc(1) _ _ step(2,3)]) (simp_all add: t on_thread_def)
    ultimately show ?thesis by (simp add: runtime_ok_def)
  qed
  show "runtime_ok t" if step: "cwhip_gc_pop self frame s = (True, t)"
  proof -
    from step obtain active rest where t: "th_root_frame (gs_threads s self) = active # rest"
        "t = on_thread self (th_root_frame_update (\<lambda>_. rest)) s"
      by (auto simp: cwhip_gc_pop_def split: list.splits if_splits)
    have "gil_ok t" unfolding t(2) by (rule gil_ok_on_thread [OF gc(2) runs]) simp_all
    moreover have "gc_ok t"
      by (rule gc_ok_fewer [OF gc(1)]) (auto simp: t on_thread_def split: if_splits)
    ultimately show ?thesis by (simp add: runtime_ok_def)
  qed
qed

lemma flag_steps:
  assumes ok: "runtime_ok s" and runs: "runs self s"
  shows "cwhip_gc_begin_construction self object s = Inr t \<Longrightarrow> runtime_ok t"
    and "cwhip_gc_end_construction self object s = Inr t \<Longrightarrow> runtime_ok t"
    and "cwhip_gc_begin_destroy self object s = Inr t \<Longrightarrow> runtime_ok t"
    and "cwhip_gc_end_destroy self object s = Inr t \<Longrightarrow> runtime_ok t"
    and "cwhip_trace_push self storage entry s = Inr t \<Longrightarrow> runtime_ok t"
    and "cwhip_trace_pop self storage s = Inr t \<Longrightarrow> runtime_ok t"
    and "cwhip_exception_push self frame s = Inr t \<Longrightarrow> runtime_ok t"
    and "cwhip_exception_pop self frame s = Inr t \<Longrightarrow> runtime_ok t"
    and "cwhip_exception_clear frame s = Inr t \<Longrightarrow> runtime_ok t"
proof -
  note flags = runtime_ok_flags [OF ok runs]
  have frames: "runtime_ok (on_frame frame g (on_thread self f s))" "runtime_ok (on_thread self f (on_frame frame g s))"
    if "\<And>t. th_root_frame (f t) = th_root_frame t" "\<And>t. th_gil_held (f t) = th_gil_held t" "\<And>t. th_registered (f t) = th_registered t"
      "\<And>t. th_collecting (f t) = th_collecting t" "\<And>t. th_running_destructor (f t) = th_running_destructor t" for f g frame
  proof -
    show "runtime_ok (on_frame frame g (on_thread self f s))" unfolding runtime_ok_on_frame by (rule flags(2)) (simp_all add: that)
    have "runtime_ok (on_frame frame g s)" "runs self (on_frame frame g s)" using ok runs
      by (simp add: runtime_ok_on_frame) (use runs in \<open>simp add: runs_def on_frame_def\<close>)
    then show "runtime_ok (on_thread self f (on_frame frame g s))" by (rule runtime_ok_flags(2)) (simp_all add: that)
  qed
  show "runtime_ok t" if "cwhip_gc_begin_construction self object s = Inr t"
    using that by (auto simp: cwhip_gc_begin_construction_def bindE_Inr_iff split: option.splits intro!: flags)
  show "runtime_ok t" if "cwhip_gc_end_construction self object s = Inr t"
    using that by (auto simp: cwhip_gc_end_construction_def bindE_Inr_iff split: option.splits list.splits intro!: flags)
  show "runtime_ok t" if "cwhip_gc_begin_destroy self object s = Inr t"
    using that by (auto simp: cwhip_gc_begin_destroy_def bindE_Inr_iff node_shape_def split: option.splits intro!: flags)
  show "runtime_ok t" if "cwhip_gc_end_destroy self object s = Inr t"
    using that by (auto simp: cwhip_gc_end_destroy_def bindE_Inr_iff split: option.splits list.splits intro!: flags)
  show "runtime_ok t" if "cwhip_trace_push self storage entry s = Inr t"
    using that by (auto simp: cwhip_trace_push_def bindE_Inr_iff intro!: flags)
  show "runtime_ok t" if "cwhip_trace_pop self storage s = Inr t"
    using that by (auto simp: cwhip_trace_pop_def bindE_Inr_iff split: list.splits intro!: flags)
  show "runtime_ok t" if "cwhip_exception_push self frame s = Inr t"
    using that by (auto simp: cwhip_exception_push_def Let_def bindE_Inr_iff intro!: frames)
  show "runtime_ok t" if "cwhip_exception_pop self frame s = Inr t"
    using that by (auto simp: cwhip_exception_pop_def bindE_Inr_iff intro!: frames)
  show "runtime_ok t" if "cwhip_exception_clear frame s = Inr t"
    using that ok by (auto simp: cwhip_exception_clear_def bindE_Inr_iff runtime_ok_on_frame)
qed

subsection \<open>Every run of the runtime\<close>

lemma runtime_step_ok:
  assumes step: "runtime_step fin calloc c_string s t" and ok: "runtime_ok s"
    and fin: "\<And>self. well_behaved fin self" "allocator_ok calloc"
  shows "runtime_ok t"
proof -
  from ok have gc: "gc_ok s" "gil_ok s" "roots_ok s" by (simp_all add: runtime_ok_def gc_ok_def heap_ok_def)
  note threads = thread_steps_gc_ok [OF gc(1,2)] thread_steps_gil_ok [OF gc(2)]
  show ?thesis
    using step
  proof cases
    case (managed_enter self acquired)
    then have "t = s \<or> cwhip_runtime_gil_acquire self s = Some (Inr t)"
      by (auto simp: cwhip_runtime_managed_enter_def bindE_Inr_iff split: if_splits)
    with ok threads show ?thesis by (auto simp: runtime_ok_def)
  next
    case (managed_leave self acquired)
    then have "t = s \<or> cwhip_runtime_gil_release self s = Inr t"
      by (auto simp: cwhip_runtime_managed_leave_def bindE_Inr_iff split: if_splits)
    with ok threads show ?thesis by (auto simp: runtime_ok_def)
  next
    case (transfer_accept self transfer address)
    then obtain r u signature where u: "callback_transfer_remove self transfer s = Inr (r, u)"
        "cwhip_callback_acquire c_string self (ct_callback r) signature address u = Inr t"
      by (auto simp: cwhip_callback_transfer_accept_def bindE_Inr_iff)
    from callback_acquire_step [OF callback_steps(2) [OF ok u(1)] u(2)] show ?thesis .
  next
    case (transfer_cancel self transfer)
    then obtain r where "callback_transfer_remove self transfer s = Inr (r, t)"
      by (auto simp: cwhip_callback_transfer_cancel_def bindE_Inr_iff)
    then show ?thesis by (rule callback_steps(2) [OF ok])
  next
    case (raise_object self r frame)
    then show ?thesis using raise_step [OF ok] by (auto simp: cwhip_exception_raise_object_def bindE_Inr_iff)
  next
    case (rethrow self storage frame)
    then obtain r where r: "raise_exception self r (on_frame storage no_exception s) = Inr (frame, t)"
      by (auto simp: cwhip_exception_rethrow_def bindE_Inr_iff)
    have "runs self (on_frame storage no_exception s)" using rethrow(1) by (simp add: runs_def on_frame_def)
    from raise_step [OF _ this r] ok show ?thesis by (simp add: runtime_ok_on_frame)
  next
    case (store_variable self memory)
    have "gc_ok t" by (rule gc_ok_roots [OF gc(1)]) (use store_variable in simp_all)
    moreover have "gil_ok t" using gc(2) by (simp add: store_variable(1) gil_ok_def collector_busy_def)
    ultimately show ?thesis by (simp add: runtime_ok_def)
  next
    case (thread_enter self)
    then show ?thesis using threads by (simp add: runtime_ok_def)
  next
    case (thread_exit self)
    then show ?thesis using threads by (simp add: runtime_ok_def)
  next
    case (gil_release self)
    then show ?thesis using threads by (simp add: runtime_ok_def)
  next
    case (gil_acquire self)
    then show ?thesis using threads by (simp add: runtime_ok_def)
  next
    case (collect self)
    then show ?thesis by (intro collect_step [OF ok fin(1)])
  next
    case (alloc self metadata object)
    then show ?thesis using alloc_step(1) [OF ok fin] by blast
  next
    case (alloc_array self n object)
    then show ?thesis by (intro alloc_step(2) [OF ok fin])
  next
    case (alloc_map self object)
    then show ?thesis by (intro alloc_step(3) [OF ok fin])
  next
    case (push self frame slots tags n)
    then show ?thesis by (intro frame_steps(1) [OF ok push(1)])
  next
    case (pop self frame)
    then show ?thesis by (intro frame_steps(2) [OF ok pop(1)])
  next
    case (begin_construction self object)
    then show ?thesis by (intro flag_steps(1) [OF ok begin_construction(1)])
  next
    case (end_construction self object)
    then show ?thesis by (intro flag_steps(2) [OF ok end_construction(1)])
  next
    case (begin_destroy self object)
    then show ?thesis by (intro flag_steps(3) [OF ok begin_destroy(1)])
  next
    case (end_destroy self object)
    then show ?thesis by (intro flag_steps(4) [OF ok end_destroy(1)])
  next
    case (trace_push self storage entry)
    then show ?thesis by (intro flag_steps(5) [OF ok trace_push(1)])
  next
    case (trace_pop self storage)
    then show ?thesis by (intro flag_steps(6) [OF ok trace_pop(1)])
  next
    case (exception_push self frame)
    then show ?thesis by (intro flag_steps(7) [OF ok exception_push(1)])
  next
    case (exception_pop self frame)
    then show ?thesis by (intro flag_steps(8) [OF ok exception_pop(1)])
  next
    case (exception_clear self frame)
    then show ?thesis by (intro flag_steps(9) [OF ok exception_clear(1)])
  next
    case (callback_new self receiver arguments object)
    then show ?thesis by (intro callback_new_step [OF ok fin])
  next
    case (callback_acquire self callback signature address)
    then show ?thesis by (intro callback_acquire_step [OF ok])
  next
    case (transfer_prepare self callback signature address)
    then show ?thesis by (intro callback_steps(1) [OF ok])
  next
    case (callback_release self address)
    then show ?thesis by (intro callback_steps(3) [OF ok])
  next
    case (callback_dispose self address)
    then show ?thesis by (intro callback_steps(4) [OF ok])
  next
    case (list_append self junk v object)
    then show ?thesis by (intro list_append_step [OF ok])
  next
    case (dict_set self key v object)
    then show ?thesis by (intro dict_steps(1) [OF ok])
  next
    case (dict_remove self key object)
    then show ?thesis by (intro dict_steps(2) [OF ok])
  next
    case (store_field self content object)
    then show ?thesis using content_step [OF ok] by simp
  qed
qed

text \<open>The state at the start of the process.\<close>

definition initial_state :: gc_state where
  "initial_state = \<lparr>gs_heap = [], gs_object_count = 0, gs_memory = (\<lambda>_. 0), gs_exception_frames = (\<lambda>_. zero_frame),
     gs_gil = None, gs_thread_registry = [],
     gs_threads = (\<lambda>_. \<lparr>th_root_frame = [], th_destroy_stack = [], th_construction_stack = [], th_active_exception = 0,
       th_active_trace = [], th_collecting = False, th_running_destructor = False, th_registered = False, th_gil_held = False\<rparr>),
     gs_callback_contexts = [], gs_callback_transfers = []\<rparr>"

lemma initial_state_ok: "runtime_ok initial_state"
  by (simp add: runtime_ok_def gc_ok_def heap_ok_def no_dangling_def root_pointers_def roots_ok_def contents_ok_def
      gil_ok_def collector_busy_def initial_state_def)

lemma runtime_steps_ok:
  assumes "(runtime_step fin calloc c_string)\<^sup>*\<^sup>* s t" "runtime_ok s" "\<And>self. well_behaved fin self" "allocator_ok calloc"
  shows "runtime_ok t"
  using assms(1,2) by (induction rule: rtranclp_induct) (auto intro: runtime_step_ok assms(3,4))

text \<open>
  C2: In every state that the runtime reaches from the start of the process, by any number of
  threads and any order of calls whose arguments are null or point into objects of the heap, and
  where the receiver of a new callback is rooted at the call, at most one thread holds the lock; the frames of every thread
  and every registered callback refer to objects of the heap, and so do the objects themselves; and
  a collection frees none of them.
\<close>

theorem runtime_memory_safe:
  assumes "(runtime_step fin calloc c_string)\<^sup>*\<^sup>* initial_state s" "\<forall>self. well_behaved fin self" "allocator_ok calloc"
  shows "(th_gil_held (gs_threads s x) \<and> th_gil_held (gs_threads s y) \<longrightarrow> x = y) \<and> no_dangling s \<and>
    (\<forall>c \<in> set (gs_callback_contexts s). \<not> cc_released c \<and> cc_callback c \<noteq> 0 \<longrightarrow>
      (\<exists>a. owner (gs_heap s) (cc_callback c) = Some a \<and> reachable s a)) \<and>
    (cwhip_gc_collect fin x s = Inr t \<longrightarrow> no_dangling t \<and> addresses (gs_heap t) = {a. reachable t a})"
proof -
  have ok: "runtime_ok s" using runtime_steps_ok [OF assms(1) initial_state_ok] assms(2,3) by blast
  then have gc: "gc_ok s" "gil_ok s" "no_dangling s" by (simp_all add: runtime_ok_def gc_ok_def)
  have "x = y" if "th_gil_held (gs_threads s x)" "th_gil_held (gs_threads s y)" using gc(2) that by (simp add: gil_ok_def)
  moreover have "\<exists>a. owner (gs_heap s) (cc_callback c) = Some a \<and> reachable s a"
    if c: "c \<in> set (gs_callback_contexts s)" "\<not> cc_released c" "cc_callback c \<noteq> 0" for c
  proof -
    have "cc_callback c \<in> root_pointers s" using c(1,2) by (auto simp: root_pointers_def)
    with gc(3) c(3) show ?thesis by (fastforce simp: no_dangling_def intro: reachable.root)
  qed
  moreover have "no_dangling t \<and> addresses (gs_heap t) = {a. reachable t a}" if step: "cwhip_gc_collect fin x s = Inr t"
  proof -
    obtain u where "cwhip_gc_collect fin x s = Inr u" "gc_ok u" "addresses (gs_heap u) = {a. reachable u a}"
      using collect_ok [OF gc(1) collect_idle [OF step]] assms(2) by blast
    with step show ?thesis by (simp add: gc_ok_def)
  qed
  ultimately show ?thesis using gc(3) by blast
qed

subsection \<open>An example\<close>

text \<open>A thread registers, waits in native code while another one registers, and runs again.\<close>

definition sample_run :: "gc_state run" where
  "sample_run =
     bindE (the (cwhip_runtime_thread_enter 1 initial_state)) (\<lambda>s.
     bindE (cwhip_runtime_gil_release 1 s) (\<lambda>s.
     bindE (the (cwhip_runtime_thread_enter 2 s)) (\<lambda>s.
     bindE (cwhip_runtime_gil_release 2 s) (\<lambda>s. the (cwhip_runtime_gil_acquire 1 s)))))"

lemma sample_run_steps:
  "\<exists>s. sample_run = Inr s \<and> gs_gil s = Some 1 \<and> (runtime_step fin calloc c_string)\<^sup>*\<^sup>* initial_state s"
proof -
  note defs = cwhip_runtime_thread_enter_def cwhip_runtime_gil_release_def cwhip_runtime_gil_acquire_def lock_gil_def
    unlock_gil_def on_thread_def
  have "\<exists>s1. cwhip_runtime_thread_enter 1 initial_state = Some (Inr s1) \<and> gs_gil s1 = Some 1 \<and>
      th_registered (gs_threads s1 1) \<and> th_gil_held (gs_threads s1 1) \<and> \<not> th_registered (gs_threads s1 2)"
    by (simp add: defs initial_state_def)
  then obtain s1 where s1: "cwhip_runtime_thread_enter 1 initial_state = Some (Inr s1)" "gs_gil s1 = Some 1"
      "th_registered (gs_threads s1 1)" "th_gil_held (gs_threads s1 1)" "\<not> th_registered (gs_threads s1 2)" by blast
  then have "\<exists>s2. cwhip_runtime_gil_release 1 s1 = Inr s2 \<and> gs_gil s2 = None \<and>
      th_registered (gs_threads s2 1) \<and> \<not> th_gil_held (gs_threads s2 1) \<and> \<not> th_registered (gs_threads s2 2)"
    by (simp add: defs)
  then obtain s2 where s2: "cwhip_runtime_gil_release 1 s1 = Inr s2" "gs_gil s2 = None"
      "th_registered (gs_threads s2 1)" "\<not> th_gil_held (gs_threads s2 1)" "\<not> th_registered (gs_threads s2 2)" by blast
  then have "\<exists>s3. cwhip_runtime_thread_enter 2 s2 = Some (Inr s3) \<and> th_registered (gs_threads s3 1) \<and>
      \<not> th_gil_held (gs_threads s3 1) \<and> th_registered (gs_threads s3 2) \<and> th_gil_held (gs_threads s3 2)"
    by (simp add: defs)
  then obtain s3 where s3: "cwhip_runtime_thread_enter 2 s2 = Some (Inr s3)" "th_registered (gs_threads s3 1)"
      "\<not> th_gil_held (gs_threads s3 1)" "th_registered (gs_threads s3 2)" "th_gil_held (gs_threads s3 2)" by blast
  then have "\<exists>s4. cwhip_runtime_gil_release 2 s3 = Inr s4 \<and> gs_gil s4 = None \<and>
      th_registered (gs_threads s4 1) \<and> \<not> th_gil_held (gs_threads s4 1)"
    by (simp add: defs)
  then obtain s4 where s4: "cwhip_runtime_gil_release 2 s3 = Inr s4" "gs_gil s4 = None"
      "th_registered (gs_threads s4 1)" "\<not> th_gil_held (gs_threads s4 1)" by blast
  then have "\<exists>s. cwhip_runtime_gil_acquire 1 s4 = Some (Inr s) \<and> gs_gil s = Some 1" by (simp add: defs)
  then obtain s where s: "cwhip_runtime_gil_acquire 1 s4 = Some (Inr s)" "gs_gil s = Some 1" by blast
  have "(runtime_step fin calloc c_string)\<^sup>*\<^sup>* initial_state s"
    using thread_enter [OF s1(1)] gil_release [OF s2(1)] thread_enter [OF s3(1)] gil_release [OF s4(1)] gil_acquire [OF s(1)]
    by (meson rtranclp.rtrancl_into_rtrancl rtranclp.rtrancl_refl)
  with s1(1) s2(1) s3(1) s4(1) s show ?thesis by (simp add: sample_run_def)
qed

theorem runtime_memory_safe_witness:
  "\<exists>s. sample_run = Inr s \<and> gs_gil s = Some 1 \<and> no_dangling s \<and>
    (\<forall>t. cwhip_gc_collect (\<lambda>metadata object. Inr) 1 s = Inr t \<longrightarrow> addresses (gs_heap t) = {a. reachable t a})"
proof -
  obtain s where s: "sample_run = Inr s" "gs_gil s = Some 1"
      "(runtime_step (\<lambda>metadata object. Inr) bump_allocator (\<lambda>_. []))\<^sup>*\<^sup>* initial_state s"
    using sample_run_steps [of "\<lambda>metadata object. Inr" bump_allocator "\<lambda>_. []"] by blast
  have "\<forall>self. well_behaved (\<lambda>metadata object. Inr) self" by (simp add: well_behaved_def same_threads_def)
  from runtime_memory_safe [OF s(3) this bump_allocator_ok, of 1] s(1,2) show ?thesis by blast
qed

end
