(* ===== verification/Object_Layout.thy ===== *)
theory Object_Layout
  imports Virtual_Bases
begin

text \<open>
  The subobjects of an object (\<open>src/CodeGeneratorLayout.cpp\<close>): a class is laid out as a
  structure with the metadata, the link to the object, its bases in their order, a pointer for
  each virtual base, its fields and, used in a complete object only, the virtual bases.
  \<open>subobjects\<close> lists the subobjects of an object by a path of base names; a virtual base is
  listed once, by the first path that leads to it.

  The member \<open>classes_\<close> of the generator is a class table. \<open>None\<close> stands for an endless recursion,
  for an exception of \<open>at\<close> and for a \<open>logic_error\<close>.
\<close>

definition direct_bases :: "class_declaration \<Rightarrow> (string \<times> bool) list" where
  "direct_bases c = zip (cl_baseClassNames c) (cl_baseVirtual c)"

type_synonym subobject_list = "(string list \<times> class_declaration) list"

fun subobject_visit ::
    "class_table \<Rightarrow> nat \<Rightarrow> class_declaration \<Rightarrow> string list \<Rightarrow> string list \<times> subobject_list \<Rightarrow>
      (string list \<times> subobject_list) option"
  and subobject_bases ::
    "class_table \<Rightarrow> nat \<Rightarrow> (string \<times> bool) list \<Rightarrow> string list \<Rightarrow> string list \<times> subobject_list \<Rightarrow>
      (string list \<times> subobject_list) option"
  where
  "subobject_visit t 0 c path s = None"
| "subobject_visit t (Suc fuel) c path (seen, os) = subobject_bases t fuel (direct_bases c) path (seen, os @ [(path, c)])"
| "subobject_bases t fuel [] path s = Some s"
| "subobject_bases t fuel ((b, isVirtual) # bs) path (seen, os) =
     (case map_of t b of
        None \<Rightarrow> subobject_bases t fuel bs path (seen, os)
      | Some base \<Rightarrow>
          if isVirtual \<and> b \<in> set seen then subobject_bases t fuel bs path (seen, os)
          else Option.bind (subobject_visit t fuel base (path @ [b]) (if isVirtual then b # seen else seen, os))
            (subobject_bases t fuel bs path))"

definition subobjects :: "class_table \<Rightarrow> class_declaration \<Rightarrow> subobject_list option" where
  "subobjects t c = map_option snd (subobject_visit t (depth_of t) c [] ([], []))"

text \<open>\<open>flattenedFieldCount\<close>: the fields of a class and of its bases, a virtual base counted once.\<close>

fun flattened_visit ::
    "class_table \<Rightarrow> nat \<Rightarrow> class_declaration \<Rightarrow> string list \<times> nat \<Rightarrow> (string list \<times> nat) option"
  and flattened_bases ::
    "class_table \<Rightarrow> nat \<Rightarrow> (string \<times> bool) list \<Rightarrow> string list \<times> nat \<Rightarrow> (string list \<times> nat) option"
  where
  "flattened_visit t 0 c s = None"
| "flattened_visit t (Suc fuel) c (seen, count) =
     flattened_bases t fuel (direct_bases c) (seen, count + length (cl_fields c))"
| "flattened_bases t fuel [] s = Some s"
| "flattened_bases t fuel ((b, isVirtual) # bs) (seen, count) =
     (case map_of t b of
        None \<Rightarrow> flattened_bases t fuel bs (seen, count)
      | Some base \<Rightarrow>
          if isVirtual \<and> b \<in> set seen then flattened_bases t fuel bs (seen, count)
          else Option.bind (flattened_visit t fuel base (if isVirtual then b # seen else seen, count))
            (flattened_bases t fuel bs))"

definition flattenedFieldCount :: "class_table \<Rightarrow> class_declaration \<Rightarrow> nat option" where
  "flattenedFieldCount t c = map_option snd (flattened_visit t (depth_of t) c ([], 0))"

subsection \<open>The subobjects of a hierarchy\<close>

text \<open>
  A path of base names leads from a class to a class. What it leads to inside the object is
  determined by the last virtual base on the path and the names behind it.
\<close>

type_synonym subobject_id = "string option \<times> string list"

definition enter_base :: "subobject_id \<Rightarrow> string \<Rightarrow> bool \<Rightarrow> subobject_id" where
  "enter_base k b isVirtual = (if isVirtual then (Some b, []) else (fst k, snd k @ [b]))"

fun resolve :: "class_table \<Rightarrow> class_declaration \<Rightarrow> subobject_id \<Rightarrow> string list \<Rightarrow> (subobject_id \<times> class_declaration) option" where
  "resolve t c k [] = Some (k, c)"
| "resolve t c k (b # path) =
     (case map_of (direct_bases c) b of
        None \<Rightarrow> None
      | Some isVirtual \<Rightarrow>
          (case map_of t b of None \<Rightarrow> None | Some base \<Rightarrow> resolve t base (enter_base k b isVirtual) path))"

abbreviation resolve_root :: "class_table \<Rightarrow> class_declaration \<Rightarrow> string list \<Rightarrow> (subobject_id \<times> class_declaration) option" where
  "resolve_root t c path \<equiv> resolve t c (None, []) path"

lemma resolve_append:
  "resolve t c k (p @ q) = Option.bind (resolve t c k p) (\<lambda>(k, d). resolve t d k q)"
  by (induction t c k p rule: resolve.induct) (auto split: option.splits)

lemma resolve_other_id: "resolve t c k q = Some (k', d) \<Longrightarrow> \<exists>l'. resolve t c l q = Some (l', d)"
  by (induction t c k q arbitrary: l rule: resolve.induct) (auto split: option.splits)

definition hierarchy_layout_ok :: "class_table \<Rightarrow> bool" where
  "hierarchy_layout_ok t \<longleftrightarrow> hierarchy_ok t \<and> vectors_ok t \<and> table_ok t \<and> (\<forall>(n, c) \<in> set t. distinct (cl_baseClassNames c))"

definition known :: "class_table \<Rightarrow> class_declaration \<Rightarrow> bool" where
  "known t c \<longleftrightarrow> (\<exists>n. map_of t n = Some c)"

lemma hierarchy_layout_ok_distinct: "hierarchy_layout_ok t \<Longrightarrow> known t c \<Longrightarrow> distinct (cl_baseClassNames c)"
  by (auto simp: hierarchy_layout_ok_def known_def dest!: map_of_SomeD)

lemma direct_bases_distinct: "hierarchy_layout_ok t \<Longrightarrow> known t c \<Longrightarrow> distinct (map fst (direct_bases c))"
  by (frule (1) hierarchy_layout_ok_distinct) (simp add: direct_bases_def map_fst_zip_take)

lemma direct_bases_names:
  "hierarchy_layout_ok t \<Longrightarrow> known t c \<Longrightarrow> map fst (direct_bases c) = cl_baseClassNames c"
  by (auto simp: hierarchy_layout_ok_def known_def vectors_ok_def direct_bases_def dest!: map_of_SomeD)

lemma direct_bases_map_of:
  "hierarchy_layout_ok t \<Longrightarrow> known t c \<Longrightarrow> (b, v) \<in> set (direct_bases c) \<longleftrightarrow> map_of (direct_bases c) b = Some v"
  by (simp add: direct_bases_distinct)

lemma resolve_known: "resolve t c k p = Some (k', d) \<Longrightarrow> known t c \<Longrightarrow> known t d"
  by (induction t c k p rule: resolve.induct) (auto simp: known_def split: option.splits)

text \<open>What a path leads to is an object of the class the identification names.\<close>

definition id_class :: "class_table \<Rightarrow> class_declaration \<Rightarrow> subobject_id \<Rightarrow> class_declaration option" where
  "id_class t c k =
     (if snd k \<noteq> [] then map_of t (last (snd k))
      else case fst k of None \<Rightarrow> Some c | Some b \<Rightarrow> map_of t b)"

lemma resolve_id_class: "resolve t d k p = Some (k', e) \<Longrightarrow> id_class t c k = Some d \<Longrightarrow> id_class t c k' = Some e"
  by (induction t d k p rule: resolve.induct)
    (auto simp: id_class_def enter_base_def split: option.splits if_splits)

lemma resolve_class: "resolve_root t c p = Some (k, d) \<Longrightarrow> id_class t c k = Some d"
  by (erule resolve_id_class) (simp add: id_class_def)

lemma resolve_snoc:
  "resolve t c k p = Some (k', d) \<Longrightarrow> hierarchy_layout_ok t \<Longrightarrow> known t c \<Longrightarrow> (b, v) \<in> set (direct_bases d) \<Longrightarrow>
     map_of t b = Some e \<Longrightarrow> resolve t c k (p @ [b]) = Some (enter_base k' b v, e)"
  using direct_bases_map_of [of t d b v] resolve_known [of t c k p k' d] by (simp add: resolve_append)

lemma resolve_snocE:
  assumes "resolve t c k (p @ [b]) = Some r" "hierarchy_layout_ok t" "known t c"
  obtains k' d v e where "resolve t c k p = Some (k', d)" "(b, v) \<in> set (direct_bases d)" "map_of t b = Some e"
    "r = (enter_base k' b v, e)"
proof -
  from assms(1) obtain k' d where d: "resolve t c k p = Some (k', d)" "resolve t d k' [b] = Some r"
    by (auto simp: resolve_append bind_eq_Some_conv)
  then obtain v e where "map_of (direct_bases d) b = Some v" "map_of t b = Some e" "r = (enter_base k' b v, e)"
    by (auto split: option.splits)
  with that [OF d(1)] show thesis by (blast dest: map_of_SomeD)
qed

subsection \<open>The walk\<close>

definition ident :: "class_table \<Rightarrow> class_declaration \<Rightarrow> string list \<times> class_declaration \<Rightarrow> subobject_id" where
  "ident t c s = fst (the (resolve_root t c (fst s)))"

definition under :: "subobject_id \<Rightarrow> subobject_id \<Rightarrow> bool" where
  "under k i \<longleftrightarrow> fst i = fst k \<and> (\<exists>s. snd i = snd k @ s)"

definition fresh_virtual :: "string list \<Rightarrow> string list \<Rightarrow> subobject_id \<Rightarrow> bool" where
  "fresh_virtual seen seen' i \<longleftrightarrow> (\<exists>b. fst i = Some b \<and> b \<in> set seen' - set seen)"

text \<open>What a visit adds: subobjects below those in \<open>B\<close> and below virtual bases seen first.\<close>

definition added :: "class_table \<Rightarrow> class_declaration \<Rightarrow> subobject_id set \<Rightarrow> string list \<Rightarrow> string list \<Rightarrow> subobject_list \<Rightarrow> bool" where
  "added t root B seen seen' new \<longleftrightarrow>
     set seen \<subseteq> set seen' \<and> distinct (map (ident t root) new) \<and>
     (\<forall>(p, d) \<in> set new. \<exists>i. resolve_root t root p = Some (i, d) \<and> ((\<exists>k \<in> B. under k i) \<or> fresh_virtual seen seen' i)) \<and>
     (\<forall>b \<in> set seen' - set seen. \<exists>(q, d) \<in> set new. resolve_root t root q = Some ((Some b, []), d))"

text \<open>The bases of a visited class are visited.\<close>

definition visits :: "class_table \<Rightarrow> string list \<Rightarrow> subobject_list \<Rightarrow> string list \<Rightarrow> (string \<times> bool) list \<Rightarrow> bool" where
  "visits t seen os path bs \<longleftrightarrow>
     (\<forall>(b, v) \<in> set bs. \<forall>e. map_of t b = Some e \<longrightarrow> (if v then b \<in> set seen else (path @ [b], e) \<in> set os))"

definition closed :: "class_table \<Rightarrow> string list \<Rightarrow> subobject_list \<Rightarrow> bool" where
  "closed t seen os \<longleftrightarrow> (\<forall>(p, d) \<in> set os. visits t seen os p (direct_bases d))"

lemma visits_mono: "visits t seen os path bs \<Longrightarrow> set seen \<subseteq> set seen' \<Longrightarrow> set os \<subseteq> set os' \<Longrightarrow> visits t seen' os' path bs"
  unfolding visits_def by (fastforce split: if_splits)

lemma visits_simps [simp]:
  "visits t seen os path []"
  "visits t seen os path ((b, v) # bs) \<longleftrightarrow>
     (\<forall>e. map_of t b = Some e \<longrightarrow> (if v then b \<in> set seen else (path @ [b], e) \<in> set os)) \<and> visits t seen os path bs"
  by (auto simp: visits_def)

lemma closed_mono: "closed t seen os \<Longrightarrow> set seen \<subseteq> set seen' \<Longrightarrow> closed t seen' os"
  unfolding closed_def by (auto intro: visits_mono)

lemma closed_append:
  "closed t seen os \<Longrightarrow> closed t seen os' \<Longrightarrow> closed t seen (os @ os')"
  unfolding closed_def by (auto intro: visits_mono)

lemma closed_Cons:
  "visits t seen os path (direct_bases c) \<Longrightarrow> closed t seen os \<Longrightarrow> closed t seen ((path, c) # os)"
  unfolding closed_def by (auto intro: visits_mono)

lemma added_Nil [simp]: "added t root B seen seen []"
  by (simp add: added_def)

lemma ident_resolve [simp]: "resolve_root t root p = Some (i, d) \<Longrightarrow> ident t root (p, e) = i"
  by (simp add: ident_def)

lemma addedI:
  "set seen \<subseteq> set seen' \<Longrightarrow> distinct (map (ident t root) new) \<Longrightarrow>
     (\<And>p d. (p, d) \<in> set new \<Longrightarrow>
       \<exists>i. resolve_root t root p = Some (i, d) \<and> ((\<exists>k \<in> B. under k i) \<or> fresh_virtual seen seen' i)) \<Longrightarrow>
     (\<And>b. b \<in> set seen' \<Longrightarrow> b \<notin> set seen \<Longrightarrow>
       \<exists>q d. (q, d) \<in> set new \<and> resolve_root t root q = Some ((Some b, []), d)) \<Longrightarrow>
     added t root B seen seen' new"
  unfolding added_def by blast

lemma addedD:
  assumes "added t root B seen seen' new"
  shows "set seen \<subseteq> set seen'" "distinct (map (ident t root) new)"
    "(p, d) \<in> set new \<Longrightarrow>
      \<exists>i. resolve_root t root p = Some (i, d) \<and> ((\<exists>k \<in> B. under k i) \<or> fresh_virtual seen seen' i)"
    "b \<in> set seen' \<Longrightarrow> b \<notin> set seen \<Longrightarrow> \<exists>q d. (q, d) \<in> set new \<and> resolve_root t root q = Some ((Some b, []), d)"
  using assms unfolding added_def by blast+

text \<open>The subobjects of two visits are different if what they may add is.\<close>

definition apart :: "subobject_id set \<Rightarrow> subobject_id set \<Rightarrow> bool" where
  "apart A B \<longleftrightarrow> (\<forall>k \<in> A. \<forall>l \<in> B. \<not> (\<exists>i. under k i \<and> under l i))"

definition roots_in :: "string list \<Rightarrow> subobject_id set \<Rightarrow> bool" where
  "roots_in seen B \<longleftrightarrow> (\<forall>k \<in> B. \<forall>b. fst k = Some b \<longrightarrow> b \<in> set seen)"

lemma apartD: "apart A B \<Longrightarrow> k \<in> A \<Longrightarrow> l \<in> B \<Longrightarrow> under k i \<Longrightarrow> \<not> under l i"
  unfolding apart_def by blast

lemma fresh_under: "roots_in seen A \<Longrightarrow> k \<in> A \<Longrightarrow> under k i \<Longrightarrow> set seen \<subseteq> set from' \<Longrightarrow> \<not> fresh_virtual from' to' i"
  by (auto simp: roots_in_def under_def fresh_virtual_def)

lemma fresh_fresh: "fresh_virtual seen seen' i \<Longrightarrow> \<not> fresh_virtual seen' seen'' i"
  by (auto simp: fresh_virtual_def)

lemma added_append:
  assumes "added t root A seen seen' new" "added t root B seen' seen'' new'"
    and "apart A B" "roots_in seen A" "roots_in seen B"
  shows "added t root (A \<union> B) seen seen'' (new @ new')"
proof (rule addedI)
  have seen: "set seen \<subseteq> set seen'" "set seen' \<subseteq> set seen''" using assms(1,2) by (blast dest: addedD(1))+
  then show "set seen \<subseteq> set seen''" by blast
  have fresh: "fresh_virtual seen seen' i \<Longrightarrow> fresh_virtual seen seen'' i"
    "fresh_virtual seen' seen'' i \<Longrightarrow> fresh_virtual seen seen'' i" for i
    using seen by (auto simp: fresh_virtual_def)
  show "\<exists>i. resolve_root t root p = Some (i, d) \<and> ((\<exists>k \<in> A \<union> B. under k i) \<or> fresh_virtual seen seen'' i)"
    if "(p, d) \<in> set (new @ new')" for p d
    using that addedD(3) [OF assms(1), of p d] addedD(3) [OF assms(2), of p d] fresh by fastforce
  show "\<exists>q d. (q, d) \<in> set (new @ new') \<and> resolve_root t root q = Some ((Some b, []), d)"
    if "b \<in> set seen''" "b \<notin> set seen" for b
    using that addedD(4) [OF assms(1), of b] addedD(4) [OF assms(2), of b] by (cases "b \<in> set seen'") auto
  have "ident t root (p, d) \<noteq> ident t root (q, e)" if x: "(p, d) \<in> set new" and y: "(q, e) \<in> set new'" for p d q e
  proof -
    obtain i where i: "resolve_root t root p = Some (i, d)" "(\<exists>k \<in> A. under k i) \<or> fresh_virtual seen seen' i"
      using addedD(3) [OF assms(1) x] by blast
    obtain j where j: "resolve_root t root q = Some (j, e)" "(\<exists>k \<in> B. under k j) \<or> fresh_virtual seen' seen'' j"
      using addedD(3) [OF assms(2) y] by blast
    have "i \<noteq> j"
      using i(2) j(2) seen apartD [OF assms(3)] fresh_under [OF assms(4) _ _ seen(1)]
        fresh_under [OF assms(5) _ _ subset_refl] fresh_fresh
      by blast
    with i(1) j(1) show ?thesis by (simp add: ident_def)
  qed
  then have "ident t root ` set new \<inter> ident t root ` set new' = {}"
    by (auto simp: disjoint_iff) metis
  then show "distinct (map (ident t root) (new @ new'))"
    using addedD(2) [OF assms(1)] addedD(2) [OF assms(2)] by simp
qed

lemma added_virtual:
  assumes "added t root {(Some b, [])} (b # seen) seen' new" "b \<notin> set seen"
    and "(q, d) \<in> set new" "resolve_root t root q = Some ((Some b, []), d)"
  shows "added t root {} seen seen' new"
proof (rule addedI)
  show "set seen \<subseteq> set seen'" "distinct (map (ident t root) new)" using addedD(1,2) [OF assms(1)] by auto
  have b: "b \<in> set seen'" using addedD(1) [OF assms(1)] by simp
  show "\<exists>i. resolve_root t root p = Some (i, e) \<and> ((\<exists>k \<in> {}. under k i) \<or> fresh_virtual seen seen' i)"
    if "(p, e) \<in> set new" for p e
    using addedD(3) [OF assms(1) that] b assms(2) by (auto simp: under_def fresh_virtual_def)
  show "\<exists>q d. (q, d) \<in> set new \<and> resolve_root t root q = Some ((Some x, []), d)"
    if "x \<in> set seen'" "x \<notin> set seen" for x
    using addedD(4) [OF assms(1), of x] assms(3,4) that by (cases "x = b") auto
qed

lemma added_Cons:
  assumes "added t root B seen seen' new" "\<forall>l \<in> B. \<exists>b. l = (fst k, snd k @ [b])"
    and "resolve_root t root path = Some (k, c)" "roots_in seen {k}"
  shows "added t root {k} seen seen' ((path, c) # new)"
proof (rule addedI)
  have ids: "\<exists>i. resolve_root t root p = Some (i, d) \<and> i \<noteq> k \<and> (under k i \<or> fresh_virtual seen seen' i)"
    if new: "(p, d) \<in> set new" for p d
  proof -
    obtain i where i: "resolve_root t root p = Some (i, d)" "(\<exists>l \<in> B. under l i) \<or> fresh_virtual seen seen' i"
      using addedD(3) [OF assms(1) new] by blast
    have below: "i \<noteq> k \<and> under k i" if l: "l \<in> B" "under l i" for l
    proof -
      obtain b where "l = (fst k, snd k @ [b])" using assms(2) l(1) by blast
      then have "fst i = fst k" "\<exists>s. snd i = snd k @ b # s" using l(2) by (auto simp: under_def)
      then show ?thesis by (auto simp: under_def)
    qed
    have "i \<noteq> k" if "fresh_virtual seen seen' i"
      using assms(4) that by (auto simp: fresh_virtual_def roots_in_def)
    with i below show ?thesis by blast
  qed
  have "ident t root (p, d) \<noteq> k" if "(p, d) \<in> set new" for p d using ids [OF that] by (auto simp: ident_def)
  then have "k \<notin> ident t root ` set new" by fast
  then show "distinct (map (ident t root) ((path, c) # new))"
    using addedD(2) [OF assms(1)] assms(3) by (simp add: ident_def)
  have "under k k" by (simp add: under_def)
  then show "\<exists>i. resolve_root t root p = Some (i, d) \<and> ((\<exists>k \<in> {k}. under k i) \<or> fresh_virtual seen seen' i)"
    if new: "(p, d) \<in> set ((path, c) # new)" for p d
  proof (cases "(p, d) = (path, c)")
    case True
    with \<open>under k k\<close> assms(3) show ?thesis by auto
  next
    case False
    then have "(p, d) \<in> set new" using new by auto
    from ids [OF this] show ?thesis by blast
  qed
  show "set seen \<subseteq> set seen'" by (rule addedD(1) [OF assms(1)])
  show "\<exists>q d. (q, d) \<in> set ((path, c) # new) \<and> resolve_root t root q = Some ((Some b, []), d)"
    if "b \<in> set seen'" "b \<notin> set seen" for b
    using addedD(4) [OF assms(1) that] by auto
qed

definition embedded :: "subobject_id \<Rightarrow> (string \<times> bool) list \<Rightarrow> subobject_id set" where
  "embedded k bs = {(fst k, snd k @ [b]) | b. (b, False) \<in> set bs}"

lemma embedded_simps [simp]:
  "embedded k [] = {}"
  "embedded k ((b, v) # bs) = (if v then {} else {(fst k, snd k @ [b])}) \<union> embedded k bs"
  by (auto simp: embedded_def)

lemma embedded_roots: "roots_in seen {k} \<Longrightarrow> roots_in seen (embedded k bs)"
  by (auto simp: embedded_def roots_in_def)

lemma embedded_apart: "b \<notin> fst ` set bs \<Longrightarrow> apart {(fst k, snd k @ [b])} (embedded k bs)"
  by (force simp: apart_def embedded_def under_def)

lemma added_mono: "added t root B seen seen' new \<Longrightarrow> B \<subseteq> C \<Longrightarrow> added t root C seen seen' new"
  unfolding added_def by blast

lemma roots_in_mono: "roots_in seen B \<Longrightarrow> set seen \<subseteq> set seen' \<Longrightarrow> roots_in seen' B"
  by (auto simp: roots_in_def)

lemma roots_in_Un [simp]: "roots_in seen (A \<union> B) \<longleftrightarrow> roots_in seen A \<and> roots_in seen B" "roots_in seen {}"
  by (auto simp: roots_in_def)

lemma apart_empty [simp]: "apart {} B" by (simp add: apart_def)

lemma subobject_visit_added:
  "subobject_visit t fuel c path s = Some s' \<Longrightarrow> hierarchy_layout_ok t \<Longrightarrow> known t root \<Longrightarrow>
     resolve_root t root path = Some (k, c) \<Longrightarrow> roots_in (fst s) {k} \<Longrightarrow>
     \<exists>new. snd s' = snd s @ new \<and> added t root {k} (fst s) (fst s') new \<and> closed t (fst s') new \<and> (path, c) \<in> set new"
  "subobject_bases t fuel bs path s = Some s' \<Longrightarrow> hierarchy_layout_ok t \<Longrightarrow> known t root \<Longrightarrow>
     resolve_root t root path = Some (k, c) \<Longrightarrow> set bs \<subseteq> set (direct_bases c) \<Longrightarrow> distinct (map fst bs) \<Longrightarrow>
     roots_in (fst s) {k} \<Longrightarrow>
     \<exists>new. snd s' = snd s @ new \<and> added t root (embedded k bs) (fst s) (fst s') new \<and> closed t (fst s') new \<and>
       visits t (fst s') new path bs"
proof (induction t fuel c path s and t fuel bs path s arbitrary: k s' and k c s'
    rule: subobject_visit_subobject_bases.induct)
  case (2 t fuel c path seen os)
  have c: "known t c" using resolve_known [OF 2(5,4)] .
  obtain new where new: "snd s' = (os @ [(path, c)]) @ new" "added t root (embedded k (direct_bases c)) seen (fst s') new"
      "closed t (fst s') new" "visits t (fst s') new path (direct_bases c)"
    using 2(1) [of s' k c] 2(2-6) direct_bases_distinct [OF 2(3) c] by auto
  have "added t root {k} seen (fst s') ((path, c) # new)"
    using new(2) 2(5,6) by (intro added_Cons) (auto simp: embedded_def)
  moreover have "closed t (fst s') ((path, c) # new)"
    using new(3,4) by (intro closed_Cons)
  ultimately show ?case using new(1) by (intro exI [of _ "(path, c) # new"]) simp
next
  case (3 t fuel path s)
  then show ?case by (auto simp: closed_def)
next
  case (4 t fuel b isVirtual bs path seen os)
  note walk = 4(5) and ok = 4(6,7,8)
  have bs: "set bs \<subseteq> set (direct_bases c)" "distinct (map fst bs)" "b \<notin> fst ` set bs" "(b, isVirtual) \<in> set (direct_bases c)"
    using 4(9,10) by auto
  have roots: "roots_in seen {k}" using 4(11) by simp
  show ?case
  proof (cases "map_of t b")
    case None
    then have "subobject_bases t fuel bs path (seen, os) = Some s'" using walk by simp
    from 4(1) [OF None this ok bs(1,2)] roots obtain new where "snd s' = os @ new"
        "added t root (embedded k bs) seen (fst s') new" "closed t (fst s') new" "visits t (fst s') new path bs"
      by auto
    with None show ?thesis by (intro exI [of _ new]) (auto intro: added_mono)
  next
    case (Some base)
    show ?thesis
    proof (cases "isVirtual \<and> b \<in> set seen")
      case True
      then have "subobject_bases t fuel bs path (seen, os) = Some s'" using walk Some by simp
      from 4(2) [OF Some True this ok bs(1,2)] roots obtain new where new: "snd s' = os @ new"
          "added t root (embedded k bs) seen (fst s') new" "closed t (fst s') new" "visits t (fst s') new path bs"
        by auto
      moreover have "b \<in> set (fst s')" using addedD(1) [OF new(2)] True by auto
      ultimately show ?thesis using True by (intro exI [of _ new]) auto
    next
      case False
      let ?seen = "if isVirtual then b # seen else seen"
      let ?B = "if isVirtual then {} else {(fst k, snd k @ [b])}"
      obtain mid where mid: "subobject_visit t fuel base (path @ [b]) (?seen, os) = Some mid"
          "subobject_bases t fuel bs path mid = Some s'"
        using walk Some False by (auto simp: bind_eq_Some_conv)
      have path: "resolve_root t root (path @ [b]) = Some (enter_base k b isVirtual, base)"
        using resolve_snoc [OF ok(3,1,2) bs(4) Some] .
      have "roots_in ?seen {enter_base k b isVirtual}"
        using roots by (auto simp: roots_in_def enter_base_def)
      then obtain new where new: "snd mid = os @ new" "added t root {enter_base k b isVirtual} ?seen (fst mid) new"
          "closed t (fst mid) new" "(path @ [b], base) \<in> set new"
        using 4(3) [OF Some False mid(1) ok(1,2) path] by auto
      have first: "added t root ?B seen (fst mid) new"
        using new(2,4) path False added_virtual [of t root b seen "fst mid" new "path @ [b]" base]
        by (auto simp: enter_base_def)
      note seen = addedD(1) [OF first]
      have "roots_in (fst mid) {k}" using roots seen by (rule roots_in_mono)
      from 4(4) [OF Some False mid ok bs(1,2) this]
      obtain new' where new': "snd s' = snd mid @ new'" "added t root (embedded k bs) (fst mid) (fst s') new'"
          "closed t (fst s') new'" "visits t (fst s') new' path bs" by auto
      note seen' = addedD(1) [OF new'(2)]
      have "apart ?B (embedded k bs)" using embedded_apart [OF bs(3)] by simp
      moreover have "roots_in seen ?B" using roots by (auto simp: roots_in_def)
      ultimately have "added t root (?B \<union> embedded k bs) seen (fst s') (new @ new')"
        using added_append [OF first new'(2)] embedded_roots [OF roots] by blast
      moreover have "closed t (fst s') (new @ new')"
        using closed_append [OF closed_mono [OF new(3) seen'] new'(3)] .
      moreover have "visits t (fst s') (new @ new') path ((b, isVirtual) # bs)"
      proof -
        have "b \<in> set (fst mid)" if isVirtual using addedD(1) [OF new(2)] that by simp
        then show ?thesis using Some new(4) seen' visits_mono [OF new'(4), of "fst s'" "new @ new'"] by auto
      qed
      ultimately show ?thesis using new(1) new'(1) by (intro exI [of _ "new @ new'"]) auto
    qed
  qed
qed simp

interpretation subobject: class_walk t "\<lambda>fuel c (path, s). subobject_visit t fuel c path s" for t
proof
  have bases: "walks_on t (\<lambda>c (path, s). subobject_visit t fuel c path s) (map fst bs) \<Longrightarrow>
      defined (subobject_bases t fuel bs path s)" for fuel bs path s
    by (induction bs arbitrary: s) (auto intro!: defined_bind split: option.splits)
  show "hierarchy_ok t \<Longrightarrow> walks_on t (\<lambda>c (path, s). subobject_visit t fuel c path s) (cl_baseClassNames c) \<Longrightarrow>
      defined (case s of (path, s) \<Rightarrow> subobject_visit t (Suc fuel) c path s)" for fuel c s
    by (auto intro!: bases walks_on_zip simp: direct_bases_def split: prod.splits)
qed

text \<open>A list closed under bases, with the virtual bases that are seen, has all subobjects.\<close>

lemma closed_complete:
  assumes "hierarchy_layout_ok t" "known t c" "closed t seen os" "([], c) \<in> set os"
    and "\<And>b. b \<in> set seen \<Longrightarrow> \<exists>r e. (r, e) \<in> set os \<and> resolve_root t c r = Some ((Some b, []), e)"
  shows "resolve_root t c p = Some (k, d) \<Longrightarrow> \<exists>q. (q, d) \<in> set os \<and> resolve_root t c q = Some (k, d)"
proof (induction p arbitrary: k d rule: rev_induct)
  case Nil
  with assms(4) show ?case by (intro exI [of _ "[]"]) auto
next
  case (snoc b p)
  obtain k' e v d' where step: "resolve_root t c p = Some (k', e)" "(b, v) \<in> set (direct_bases e)" "map_of t b = Some d'"
      "(k, d) = (enter_base k' b v, d')"
    using resolve_snocE [OF snoc.prems assms(1,2)] by blast
  from snoc.IH [OF step(1)] obtain q where q: "(q, e) \<in> set os" "resolve_root t c q = Some (k', e)" by blast
  from assms(3) q(1) have "visits t seen os q (direct_bases e)" by (auto simp: closed_def)
  with step(2,3) have visited: "if v then b \<in> set seen else (q @ [b], d') \<in> set os"
    by (auto simp: visits_def split: if_splits)
  show ?case
  proof (cases v)
    case True
    from assms(5) [of b] visited True obtain r e' where r: "(r, e') \<in> set os"
        "resolve_root t c r = Some ((Some b, []), e')" by auto
    have "e' = d'" using resolve_class [OF r(2)] step(3) by (simp add: id_class_def)
    with r step(4) True show ?thesis by (auto simp: enter_base_def)
  next
    case False
    from resolve_snoc [OF q(2) assms(1,2) step(2,3)] visited False step(4) show ?thesis by auto
  qed
qed

text \<open>The list of subobjects is in bijection with what the paths of the hierarchy lead to.\<close>

definition lists_subobjects :: "class_table \<Rightarrow> class_declaration \<Rightarrow> subobject_list \<Rightarrow> bool" where
  "lists_subobjects t c os \<longleftrightarrow>
     distinct (map (ident t c) os) \<and>
     (\<forall>(p, d) \<in> set os. \<exists>k. resolve_root t c p = Some (k, d)) \<and>
     (\<forall>p k d. resolve_root t c p = Some (k, d) \<longrightarrow> (\<exists>q. (q, d) \<in> set os \<and> resolve_root t c q = Some (k, d)))"

lemma subobjects_listed:
  assumes "hierarchy_layout_ok t" "map_of t n = Some c"
  shows "\<exists>os. subobjects t c = Some os \<and> lists_subobjects t c os"
proof -
  have ok: "hierarchy_ok t" "known t c" using assms by (auto simp: hierarchy_layout_ok_def known_def)
  obtain s where s: "subobject_visit t (depth_of t) c [] ([], []) = Some s"
    using subobject.walk_total [OF ok(1), of c "([], [], [])"] by (auto simp: defined_def)
  from subobject_visit_added(1) [OF this assms(1) ok(2), of "(None, [])"]
  have os: "added t c {(None, [])} [] (fst s) (snd s)" "closed t (fst s) (snd s)" "([], c) \<in> set (snd s)"
    by (auto simp: roots_in_def)
  have "\<exists>r e. (r, e) \<in> set (snd s) \<and> resolve_root t c r = Some ((Some b, []), e)" if "b \<in> set (fst s)" for b
    using addedD(4) [OF os(1) that] by simp
  from closed_complete [OF assms(1) ok(2) os(2,3) this]
  have complete: "resolve_root t c p = Some (k, d) \<Longrightarrow> \<exists>q. (q, d) \<in> set (snd s) \<and> resolve_root t c q = Some (k, d)" for p k d
    by blast
  have "\<exists>k. resolve_root t c p = Some (k, d)" if "(p, d) \<in> set (snd s)" for p d
    using addedD(3) [OF os(1) that] by blast
  with complete addedD(2) [OF os(1)] have "lists_subobjects t c (snd s)"
    unfolding lists_subobjects_def by blast
  with s show ?thesis by (simp add: subobjects_def)
qed

text \<open>
  C21: In a hierarchy without cycles, the list of the subobjects of a class exists, and it holds
  exactly one entry for each subobject that the paths of base names lead to: one for each virtual
  base, whatever number of paths lead to it, and one for each path behind it.
\<close>

theorem subobjects_exact:
  assumes "hierarchy_layout_ok t" "map_of t n = Some c"
  shows "\<exists>os. subobjects t c = Some os \<and> lists_subobjects t c os"
  using assms by (rule subobjects_listed)

theorem subobjects_exact_witness:
  "\<exists>D os. map_of diamond ''D'' = Some D \<and> subobjects diamond D = Some os \<and> lists_subobjects diamond D os"
proof -
  have "hierarchy_layout_ok diamond"
    using diamond_ok by (simp add: hierarchy_layout_ok_def table_ok_def) (simp add: diamond_def sample_class_def)
  moreover obtain D where D: "map_of diamond ''D'' = Some D" by (simp add: diamond_def sample_class_def)
  ultimately show ?thesis using subobjects_exact [of diamond "''D''" D] by blast
qed

end
