(* ===== verification/Object_Address.thy ===== *)
theory Object_Address
  imports Object_Layout
begin

text \<open>
  The layout of a class as a structure and the addresses of subobjects in it
  (\<open>src/CodeGeneratorLayout.cpp\<close>, \<open>emitClassTypesAndMetadata\<close>): the indices of the members, the
  constant offsets in the metadata and the instructions that compute the address of a base.

  An instruction has the operands of its text. A location is the list of the indices from the
  start of the object, so a location is an address inside of one object.
\<close>

subsection \<open>Virtual bases\<close>

fun layout_virtual_visit ::
    "class_table \<Rightarrow> nat \<Rightarrow> class_declaration \<Rightarrow> string list \<times> string list \<Rightarrow> (string list \<times> string list) option"
  and layout_virtual_bases ::
    "class_table \<Rightarrow> nat \<Rightarrow> (string \<times> bool) list \<Rightarrow> string list \<times> string list \<Rightarrow> (string list \<times> string list) option"
  where
  "layout_virtual_visit t 0 c s = None"
| "layout_virtual_visit t (Suc fuel) c s = layout_virtual_bases t fuel (direct_bases c) s"
| "layout_virtual_bases t fuel [] s = Some s"
| "layout_virtual_bases t fuel ((b, isVirtual) # bs) (seen, names) =
     (if isVirtual \<and> b \<in> set seen then layout_virtual_bases t fuel bs (seen, names)
      else
        (case map_of t b of
           None \<Rightarrow> layout_virtual_bases t fuel bs (if isVirtual then b # seen else seen, names)
         | Some base \<Rightarrow>
             Option.bind (layout_virtual_visit t fuel base (if isVirtual then b # seen else seen, names))
               (\<lambda>(seen, names). layout_virtual_bases t fuel bs (seen, if isVirtual then names @ [b] else names))))"

definition layoutVirtualBases :: "class_table \<Rightarrow> class_declaration \<Rightarrow> string list option" where
  "layoutVirtualBases t c = map_option snd (layout_virtual_visit t (depth_of t) c ([], []))"

text \<open>The order is that of the analyzer; the names that are seen differ in unknown classes only.\<close>

definition same_known :: "class_table \<Rightarrow> string list \<times> string list \<Rightarrow> string list \<times> string list \<Rightarrow> bool" where
  "same_known t s s' \<longleftrightarrow> snd s = snd s' \<and> (\<forall>b. map_of t b \<noteq> None \<longrightarrow> (b \<in> set (fst s) \<longleftrightarrow> b \<in> set (fst s')))"

lemma same_known_simps [simp]:
  "same_known t s s"
  "same_known t (x # seen, names) (x # seen', names') \<longleftrightarrow> same_known t (x # seen, names) (x # seen', names')"
  by (auto simp: same_known_def)

lemma layout_virtual_visit_same:
  "same_known t s s' \<Longrightarrow> rel_option (same_known t) (layout_virtual_visit t fuel c s) (virtual_visit t fuel c s')"
  "same_known t s s' \<Longrightarrow> rel_option (same_known t) (layout_virtual_bases t fuel bs s) (virtual_bases t fuel bs s')"
proof (induction t fuel c s and t fuel bs s arbitrary: s' and s' rule: layout_virtual_visit_layout_virtual_bases.induct)
  case (2 t fuel c s)
  then show ?case by (simp add: direct_bases_def)
next
  case (4 t fuel b isVirtual bs seen names)
  obtain seen' where s': "s' = (seen', names)" using 4(5) by (cases s') (simp add: same_known_def)
  show ?case
  proof (cases "map_of t b")
    case None
    then have "same_known t (b # seen, names) s'" using 4(5) by (auto simp: same_known_def)
    with None 4(1,2,5) s' show ?thesis by (auto split: if_splits)
  next
    case (Some base)
    then have b: "b \<in> set seen \<longleftrightarrow> b \<in> set seen'" using 4(5) s' by (simp add: same_known_def)
    show ?thesis
    proof (cases "isVirtual \<and> b \<in> set seen")
      case True
      with b Some 4(1,5) s' show ?thesis by auto
    next
      case False
      let ?enter = "\<lambda>seen. if isVirtual then b # seen else seen"
      have "same_known t (?enter seen, names) (?enter seen', names)" using 4(5) s' by (auto simp: same_known_def)
      from 4(3) [OF False Some this] have visit: "rel_option (same_known t)
          (layout_virtual_visit t fuel base (?enter seen, names)) (virtual_visit t fuel base (?enter seen', names))" .
      show ?thesis
      proof (cases "layout_virtual_visit t fuel base (?enter seen, names)")
        case None
        with visit have "virtual_visit t fuel base (?enter seen', names) = None" by simp
        with None Some False b s' show ?thesis by auto
      next
        case (Some r)
        obtain x y where r: "r = (x, y)" by (cases r)
        from visit Some r obtain x' where r': "virtual_visit t fuel base (?enter seen', names) = Some (x', y)"
            "same_known t (x, y) (x', y)" by (auto simp: option_rel_Some1 same_known_def)
        then have "same_known t (x, if isVirtual then y @ [b] else y) (x', if isVirtual then y @ [b] else y)"
          by (simp add: same_known_def)
        from 4(4) [OF False \<open>map_of t b = Some base\<close> Some r [symmetric] this] r' Some r \<open>map_of t b = Some base\<close> False b s'
        show ?thesis by auto
      qed
    qed
  qed
qed auto

lemma layoutVirtualBases_eq: "layoutVirtualBases t c = virtualBaseNames t c"
  using layout_virtual_visit_same(1) [of t "([], [])" "([], [])" "depth_of t" c]
  by (cases "layout_virtual_visit t (depth_of t) c ([], [])"; cases "virtual_visit t (depth_of t) c ([], [])")
    (auto simp: layoutVirtualBases_def virtualBaseNames_def same_known_def)

lemma layoutVirtualBases_known:
  assumes "hierarchy_layout_ok t" "map_of t n = Some c"
  obtains names where "layoutVirtualBases t c = Some names" "distinct names" "set names = virtual_ancestors t n"
proof -
  have ok: "hierarchy_ok t" "vectors_ok t" using assms(1) by (auto simp: hierarchy_layout_ok_def)
  obtain s where s: "virtual_visit t (depth_of t) c ([], []) = Some s"
    using virtual_base.walk_total [OF ok(1), of c "([], [])"] by (auto simp: defined_def)
  have "walk_ok t {} ([], [])" "below_all t {} n" by (simp_all add: walk_ok_def below_all_def)
  from virtual_visit_walked(1) [OF s ok assms(2) this] s that show thesis
    by (auto simp: layoutVirtualBases_eq virtualBaseNames_def walk_ok_def walked_def)
qed

subsection \<open>The structure of a class\<close>

definition llvmType :: "string \<Rightarrow> string" where
  "llvmType ty =
     (if ty = ''int'' then ''i64''
      else if ty = ''bool'' then ''i1''
      else if ty = ''float'' then ''double''
      else if ty = ''unsigned'' then ''i64''
      else if ty = ''String'' then ''ptr''
      else if ty = ''any'' then ''%CwhipArrayValue''
      else if ty = ''type'' then ''%CwhipString''
      else if ty = ''void'' then ''void''
      else ''ptr'')"

definition class_struct :: "string \<Rightarrow> string" where
  "class_struct name = ''%Class.'' @ name"

text \<open>The types of the members of \<open>%Class.\<close>\<open>name\<close>, and the definition of the type.\<close>

definition struct_members :: "class_table \<Rightarrow> class_declaration \<Rightarrow> string list option" where
  "struct_members t c =
     map_option (\<lambda>names. [''ptr'', ''ptr''] @ map class_struct (cl_baseClassNames c) @ map (\<lambda>_. ''ptr'') names @
         map (\<lambda>f. llvmType (fd_type f)) (cl_fields c) @ map class_struct names)
       (layoutVirtualBases t c)"

definition class_type_text :: "class_table \<Rightarrow> class_declaration \<Rightarrow> string option" where
  "class_type_text t c =
     map_option (\<lambda>members. class_struct (cl_name c) @ '' = type { '' @ join_with '', '' members @ '' }'' @ [newline])
       (struct_members t c)"

definition position :: "'a \<Rightarrow> 'a list \<Rightarrow> nat option" where
  "position x xs = (if x \<in> set xs then Some (length (takeWhile (\<lambda>y. y \<noteq> x) xs)) else None)"

definition virtualBasePointerIndex :: "class_table \<Rightarrow> class_declaration \<Rightarrow> string \<Rightarrow> nat option" where
  "virtualBasePointerIndex t c b =
     Option.bind (layoutVirtualBases t c) (\<lambda>names.
       map_option (\<lambda>i. length (cl_baseClassNames c) + 2 + i) (position b names))"

definition virtualBaseStorageIndex :: "class_table \<Rightarrow> class_declaration \<Rightarrow> string \<Rightarrow> nat option" where
  "virtualBaseStorageIndex t c b =
     Option.bind (layoutVirtualBases t c) (\<lambda>names.
       map_option (\<lambda>i. length (cl_baseClassNames c) + 2 + length names + length (cl_fields c) + i) (position b names))"

definition fieldIndex :: "class_table \<Rightarrow> class_declaration \<Rightarrow> nat \<Rightarrow> nat option" where
  "fieldIndex t c field =
     map_option (\<lambda>names. length (cl_baseClassNames c) + 2 + length names + field) (layoutVirtualBases t c)"

lemma position_Some:
  assumes "position x xs = Some i"
  shows "i < length xs \<and> xs ! i = x"
proof -
  have "x \<in> set xs" "i = length (takeWhile (\<lambda>y. y \<noteq> x) xs)" using assms by (auto simp: position_def split: if_splits)
  then show ?thesis by (induction xs arbitrary: i) auto
qed

lemma position_None [simp]: "position x xs = None \<longleftrightarrow> x \<notin> set xs"
  by (simp add: position_def)

lemma position_inject: "position x xs = Some i \<Longrightarrow> position y xs = Some i \<Longrightarrow> x = y"
  by (metis position_Some)

lemma position_known: "x \<in> set xs \<Longrightarrow> \<exists>i. position x xs = Some i"
  by (simp add: position_def)

text \<open>Each index leads to the member it is meant for.\<close>

lemma struct_members_layout:
  assumes "layoutVirtualBases t c = Some names" "struct_members t c = Some members"
  shows "position b (cl_baseClassNames c) = Some i \<Longrightarrow> i + 2 < length members \<and> members ! (i + 2) = class_struct b"
    and "virtualBasePointerIndex t c b = Some i \<Longrightarrow> i < length members \<and> members ! i = ''ptr''"
    and "virtualBaseStorageIndex t c b = Some i \<Longrightarrow> i < length members \<and> members ! i = class_struct b"
    and "fieldIndex t c k = Some i \<Longrightarrow> k < length (cl_fields c) \<Longrightarrow>
      i < length members \<and> members ! i = llvmType (fd_type (cl_fields c ! k))"
  using assms
  by (auto simp: struct_members_def virtualBasePointerIndex_def virtualBaseStorageIndex_def fieldIndex_def nth_append nth_Cons'
      dest!: position_Some)

subsection \<open>Constant offsets\<close>

text \<open>
  The address of a member in the metadata: the index of the virtual base in the object, if the
  path enters one, the class whose structure the indices are in, and the indices.
\<close>

record member_offset =
  mo_root :: "nat option"
  mo_segment :: class_declaration
  mo_indices :: "nat list"

fun offset_walk ::
    "class_table \<Rightarrow> class_declaration \<Rightarrow> class_declaration \<Rightarrow> string list \<Rightarrow> member_offset \<Rightarrow> member_offset option" where
  "offset_walk t owner c [] m = Some m"
| "offset_walk t owner c (b # path) m =
     Option.bind (position b (cl_baseClassNames c)) (\<lambda>baseIndex.
     Option.bind (map_of t b) (\<lambda>base.
       if cl_baseVirtual c ! baseIndex
       then Option.bind (virtualBaseStorageIndex t owner b) (\<lambda>storage.
         offset_walk t owner base path \<lparr>mo_root = Some storage, mo_segment = base, mo_indices = []\<rparr>)
       else offset_walk t owner base path (m\<lparr>mo_indices := mo_indices m @ [baseIndex + 2]\<rparr>)))"

definition subobjectFieldOffset ::
    "class_table \<Rightarrow> class_declaration \<Rightarrow> string list \<Rightarrow> nat \<Rightarrow> bool \<Rightarrow> member_offset option" where
  "subobjectFieldOffset t owner path field dynamicPointerSubfield =
     map_option (\<lambda>m. m\<lparr>mo_indices := mo_indices m @ [field] @ (if dynamicPointerSubfield then [2] else [])\<rparr>)
       (offset_walk t owner owner path \<lparr>mo_root = None, mo_segment = owner, mo_indices = []\<rparr>)"

definition offset_expression :: "string \<Rightarrow> nat list \<Rightarrow> string" where
  "offset_expression name indices =
     ''ptrtoint (ptr getelementptr ('' @ class_struct name @ '', ptr null, i32 0'' @
     concat (map (\<lambda>i. '', i32 '' @ to_string i) indices) @ '') to i64)''"

definition offset_text :: "class_declaration \<Rightarrow> member_offset \<Rightarrow> string" where
  "offset_text owner m =
     (case mo_root m of
        None \<Rightarrow> offset_expression (cl_name (mo_segment m)) (mo_indices m)
      | Some i \<Rightarrow> ''add (i64 '' @ offset_expression (cl_name owner) [i] @ '', i64 '' @
          offset_expression (cl_name (mo_segment m)) (mo_indices m) @ '')'')"

definition offset_location :: "member_offset \<Rightarrow> nat list" where
  "offset_location m = (case mo_root m of None \<Rightarrow> [] | Some i \<Rightarrow> [i]) @ mo_indices m"

text \<open>The location of a subobject, from what identifies it.\<close>

fun base_location :: "class_table \<Rightarrow> class_declaration \<Rightarrow> string list \<Rightarrow> nat list" where
  "base_location t c [] = []"
| "base_location t c (b # bs) =
     (the (position b (cl_baseClassNames c)) + 2) # base_location t (the (map_of t b)) bs"

definition location :: "class_table \<Rightarrow> class_declaration \<Rightarrow> subobject_id \<Rightarrow> nat list" where
  "location t owner k =
     (case fst k of
        None \<Rightarrow> base_location t owner (snd k)
      | Some b \<Rightarrow> the (virtualBaseStorageIndex t owner b) # base_location t (the (map_of t b)) (snd k))"

lemma base_location_snoc:
  "base_location t c (bs @ [b]) = base_location t c bs @
     [the (position b (cl_baseClassNames (if bs = [] then c else the (map_of t (last bs))))) + 2]"
  by (induction t c bs rule: base_location.induct) auto

lemma location_enter:
  "id_class t owner k = Some d \<Longrightarrow>
     location t owner (enter_base k b False) = location t owner k @ [the (position b (cl_baseClassNames d)) + 2]"
  "location t owner (enter_base k b True) = [the (virtualBaseStorageIndex t owner b)]"
  by (auto simp: location_def enter_base_def base_location_snoc id_class_def split: option.splits if_splits)

text \<open>What a step of a path needs.\<close>

lemma resolve_reach:
  "resolve t c k p = Some (k', d) \<Longrightarrow> map_of t n = Some c \<Longrightarrow>
     \<exists>m. map_of t m = Some d \<and> (n, m) \<in> (direct_base t)\<^sup>*"
proof (induction t c k p arbitrary: n rule: resolve.induct)
  case (2 t c k b path)
  then obtain v base where b: "map_of (direct_bases c) b = Some v" "map_of t b = Some base"
      "resolve t base (enter_base k b v) path = Some (k', d)" by (auto split: option.splits)
  have "(n, b) \<in> direct_base t"
    using map_of_SomeD [OF b(1)] 2(3) by (auto simp: direct_base_def direct_bases_def dest: set_zip_leftD)
  with 2(1) [OF b] b(2) show ?case by (blast intro: converse_rtrancl_into_rtrancl)
qed auto

lemma direct_bases_position:
  assumes "hierarchy_layout_ok t" "known t d" "(b, v) \<in> set (direct_bases d)"
  obtains i where "position b (cl_baseClassNames d) = Some i" "cl_baseVirtual d ! i = v"
proof -
  obtain i where i: "i < length (cl_baseClassNames d)" "cl_baseClassNames d ! i = b" "cl_baseVirtual d ! i = v"
    using assms(3) by (auto simp: direct_bases_def set_zip)
  then have "b \<in> set (cl_baseClassNames d)" by (metis nth_mem)
  then obtain j where j: "position b (cl_baseClassNames d) = Some j" using position_known by metis
  then have "j = i"
    using position_Some [OF j] i hierarchy_layout_ok_distinct [OF assms(1,2)] nth_eq_iff_index_eq by metis
  with i j that show thesis by simp
qed

lemma path_step:
  assumes "resolve_root t owner p = Some (k, d)" "hierarchy_layout_ok t" "known t owner" "(b, v) \<in> set (direct_bases d)"
    and "map_of t b = Some e"
  obtains i where "position b (cl_baseClassNames d) = Some i" "cl_baseVirtual d ! i = v"
    and "v \<Longrightarrow> \<exists>j. virtualBasePointerIndex t d b = Some j" "v \<Longrightarrow> \<exists>j. virtualBaseStorageIndex t owner b = Some j"
proof -
  obtain n where n: "map_of t n = Some owner" using assms(3) by (auto simp: known_def)
  obtain m where m: "map_of t m = Some d" "(n, m) \<in> (direct_base t)\<^sup>*" using resolve_reach [OF assms(1) n] by blast
  obtain i where i: "position b (cl_baseClassNames d) = Some i" "cl_baseVirtual d ! i = v"
    using direct_bases_position [OF assms(2) resolve_known [OF assms(1,3)] assms(4)] .
  have "b \<in> virtual_ancestors t m" "b \<in> virtual_ancestors t n" if v
    using m assms(4,5) that by (auto simp: virtual_ancestors_def virtual_edge_def direct_bases_def)
  moreover obtain ms ns where "layoutVirtualBases t d = Some ms" "set ms = virtual_ancestors t m"
      "layoutVirtualBases t owner = Some ns" "set ns = virtual_ancestors t n"
    using layoutVirtualBases_known [OF assms(2) m(1)] layoutVirtualBases_known [OF assms(2) n] by metis
  ultimately have "v \<Longrightarrow> \<exists>j. virtualBasePointerIndex t d b = Some j" "v \<Longrightarrow> \<exists>j. virtualBaseStorageIndex t owner b = Some j"
    using position_known [of b ms] position_known [of b ns]
    by (auto simp: virtualBasePointerIndex_def virtualBaseStorageIndex_def)
  with i that show thesis by blast
qed

lemma offset_walk_location:
  assumes "hierarchy_layout_ok t" "known t owner"
  shows "resolve_root t owner p = Some (k, d) \<Longrightarrow> resolve t d k q = Some (k', e) \<Longrightarrow>
    offset_location m = location t owner k \<Longrightarrow>
    \<exists>m'. offset_walk t owner d q m = Some m' \<and> offset_location m' = location t owner k'"
proof (induction q arbitrary: p k d m)
  case (Cons b q)
  obtain v base where b: "(b, v) \<in> set (direct_bases d)" "map_of t b = Some base"
      "resolve t base (enter_base k b v) q = Some (k', e)"
    using Cons.prems(2) by (auto split: option.splits dest: map_of_SomeD)
  obtain i where i: "position b (cl_baseClassNames d) = Some i" "cl_baseVirtual d ! i = v"
      "v \<Longrightarrow> \<exists>j. virtualBaseStorageIndex t owner b = Some j"
    using path_step [OF Cons.prems(1) assms b(1,2)] by metis
  note next_path = resolve_snoc [OF Cons.prems(1) assms b(1,2)]
  show ?case
  proof (cases v)
    case True
    with i(3) obtain j where j: "virtualBaseStorageIndex t owner b = Some j" by blast
    from Cons.IH [OF next_path b(3), of "\<lparr>mo_root = Some j, mo_segment = base, mo_indices = []\<rparr>"] True i b(2) j
    show ?thesis by (simp add: location_enter offset_location_def)
  next
    case False
    have "offset_location (m\<lparr>mo_indices := mo_indices m @ [i + 2]\<rparr>) = location t owner (enter_base k b v)"
      using Cons.prems(3) False i(1) location_enter(1) [OF resolve_class [OF Cons.prems(1)]]
      by (simp add: offset_location_def)
    from Cons.IH [OF next_path b(3) this] False i b(2) show ?thesis by simp
  qed
qed simp


lemma subobjectFieldOffset_location:
  assumes "hierarchy_layout_ok t" "known t owner" "resolve_root t owner p = Some (k, d)"
  shows "\<exists>m. subobjectFieldOffset t owner p field False = Some m \<and> offset_location m = location t owner k @ [field]"
proof -
  obtain m where "offset_walk t owner owner p \<lparr>mo_root = None, mo_segment = owner, mo_indices = []\<rparr> = Some m"
      "offset_location m = location t owner k"
    using offset_walk_location [OF assms(1,2) _ assms(3), of "[]" "\<lparr>mo_root = None, mo_segment = owner, mo_indices = []\<rparr>"]
    by (auto simp: location_def offset_location_def)
  then show ?thesis by (simp add: subobjectFieldOffset_def offset_location_def)
qed

subsection \<open>Different subobjects have different locations\<close>

lemma storage_index_inject:
  "virtualBaseStorageIndex t c a = Some i \<Longrightarrow> virtualBaseStorageIndex t c b = Some i \<Longrightarrow> a = b"
  by (auto simp: virtualBaseStorageIndex_def bind_eq_Some_conv dest: position_inject)

lemma storage_index_ge: "virtualBaseStorageIndex t c b = Some i \<Longrightarrow> length (cl_baseClassNames c) + 2 \<le> i"
  by (auto simp: virtualBaseStorageIndex_def bind_eq_Some_conv)

text \<open>The last step of a path to a subobject, as a case distinction.\<close>

lemma location_snocE:
  assumes "resolve_root t owner (p @ [b]) = Some (k, d)" "hierarchy_layout_ok t" "known t owner"
  obtains (embedded) k' e i where "resolve_root t owner p = Some (k', e)" "k = enter_base k' b False"
      "position b (cl_baseClassNames e) = Some i" "location t owner k = location t owner k' @ [i + 2]"
    | (virtual) i where "k = (Some b, [])" "virtualBaseStorageIndex t owner b = Some i" "location t owner k = [i]"
proof -
  obtain k' e v d' where e: "resolve_root t owner p = Some (k', e)" "(b, v) \<in> set (direct_bases e)" "map_of t b = Some d'"
      "(k, d) = (enter_base k' b v, d')"
    using resolve_snocE [OF assms] by blast
  obtain i where i: "position b (cl_baseClassNames e) = Some i" "v \<Longrightarrow> \<exists>j. virtualBaseStorageIndex t owner b = Some j"
    using path_step [OF e(1) assms(2,3) e(2,3)] by metis
  show thesis
  proof (cases v)
    case True
    with i(2) e(4) that(2) show thesis by (auto simp: location_enter enter_base_def location_def)
  next
    case False
    with i(1) e that(1) location_enter(1) [OF resolve_class [OF e(1)]] show thesis by simp
  qed
qed

lemma location_Nil:
  assumes "hierarchy_layout_ok t" "known t owner" "resolve_root t owner p = Some (k, d)" "location t owner k = []"
  shows "k = (None, []) \<and> d = owner"
proof (cases p rule: rev_cases)
  case (snoc q b)
  from location_snocE [OF assms(3) [unfolded snoc] assms(1,2)] assms(4) show ?thesis by cases auto
qed (use assms(3) in simp)

text \<open>A member of the object that is a base is none that is a virtual base.\<close>

lemma base_not_storage:
  assumes "hierarchy_layout_ok t" "known t owner" "resolve_root t owner p = Some (k, d)" "location t owner k @ [i + 2] = [j]"
    and "position b (cl_baseClassNames d) = Some i" "virtualBaseStorageIndex t owner c = Some j"
  shows False
  using location_Nil [OF assms(1-3)] assms(4) position_Some [OF assms(5)] storage_index_ge [OF assms(6)] by auto

lemma location_inject:
  assumes "hierarchy_layout_ok t" "known t owner"
  shows "resolve_root t owner p = Some (k, d) \<Longrightarrow> resolve_root t owner q = Some (l, e) \<Longrightarrow>
    location t owner k = location t owner l \<Longrightarrow> k = l"
proof (induction p arbitrary: k d q l e rule: rev_induct)
  case Nil
  then have "location t owner l = []" by (auto simp: location_def)
  with location_Nil [OF assms Nil(2)] Nil(1) show ?case by simp
next
  case (snoc b p)
  note prems = snoc.prems and IH = snoc.IH
  show ?case
  proof (cases q rule: rev_cases)
    case Nil
    then have "location t owner k = []" using prems by (auto simp: location_def)
    with location_Nil [OF assms prems(1)] Nil prems(2) show ?thesis by simp
  next
    case (snoc q' c)
    show ?thesis
    proof (rule location_snocE [OF prems(1) assms]; rule location_snocE [OF prems(2) [unfolded snoc] assms])
      fix k' d' i l' e' j
      assume k: "resolve_root t owner p = Some (k', d')" "k = enter_base k' b False"
          "position b (cl_baseClassNames d') = Some i" "location t owner k = location t owner k' @ [i + 2]"
        and l: "resolve_root t owner q' = Some (l', e')" "l = enter_base l' c False"
          "position c (cl_baseClassNames e') = Some j" "location t owner l = location t owner l' @ [j + 2]"
      from k(4) l(4) prems(3) have "k' = l'" "i = j" using IH [OF k(1) l(1)] by auto
      with resolve_class [OF k(1)] resolve_class [OF l(1)] k l show "k = l" by (auto dest: position_inject)
    next
      fix k' d' i j
      assume "resolve_root t owner p = Some (k', d')" "position b (cl_baseClassNames d') = Some i"
        "location t owner k = location t owner k' @ [i + 2]" "virtualBaseStorageIndex t owner c = Some j" "location t owner l = [j]"
      then show "k = l" using base_not_storage [OF assms] prems(3) by metis
    next
      fix l' e' i j
      assume "resolve_root t owner q' = Some (l', e')" "position c (cl_baseClassNames e') = Some i"
        "location t owner l = location t owner l' @ [i + 2]" "virtualBaseStorageIndex t owner b = Some j" "location t owner k = [j]"
      then show "k = l" using base_not_storage [OF assms] prems(3) by metis
    qed (use prems(3) in \<open>auto dest: storage_index_inject\<close>)
  qed
qed

end
