(* ===== verification/Object_Construction.thy ===== *)
theory Object_Construction
  imports Object_Address
begin

text \<open>
  The instructions that compute the address of a base (\<open>subobjectAddressSequence\<close>) and those that
  link the subobjects of a new object (\<open>src/CodeGenerator.cpp\<close>, the constructor call): each
  pointer to a virtual base, the metadata of each view and the link back to the object.

  The instructions run on registers and on the memory of one object. An address is a location;
  a symbol is a global constant. A fault is \<open>None\<close>.
\<close>

subsection \<open>Instructions\<close>

datatype ir_instruction =
    Gep string string string nat  \<comment> \<open>result, class, pointer, index\<close>
  | Load string string  \<comment> \<open>result, pointer\<close>
  | Store string string  \<comment> \<open>value, pointer\<close>
  | Same string string  \<comment> \<open>result, pointer: an offset of no bytes\<close>

fun instruction_text :: "ir_instruction \<Rightarrow> string" where
  "instruction_text (Gep r c p i) =
     ''  '' @ r @ '' = getelementptr inbounds '' @ class_struct c @ '', ptr '' @ p @ '', i32 0, i32 '' @ to_string i @ [newline]"
| "instruction_text (Load r p) = ''  '' @ r @ '' = load ptr, ptr '' @ p @ [newline]"
| "instruction_text (Store v p) = ''  store ptr '' @ v @ '', ptr '' @ p @ [newline]"
| "instruction_text (Same r p) = ''  '' @ r @ '' = getelementptr i8, ptr '' @ p @ '', i64 0'' @ [newline]"

datatype ir_value = Address "nat list" | Symbol string

type_synonym registers = "string \<rightharpoonup> ir_value"
type_synonym object_memory = "nat list \<rightharpoonup> ir_value"

definition operand :: "registers \<Rightarrow> string \<Rightarrow> ir_value option" where
  "operand R s = (if s \<noteq> [] \<and> hd s = CHR ''@'' then Some (Symbol s) else R s)"

definition address_of :: "registers \<Rightarrow> string \<Rightarrow> nat list option" where
  "address_of R s = (case operand R s of Some (Address l) \<Rightarrow> Some l | _ \<Rightarrow> None)"

fun run_instruction :: "ir_instruction \<Rightarrow> registers \<times> object_memory \<Rightarrow> (registers \<times> object_memory) option" where
  "run_instruction (Gep r c p i) (R, M) = map_option (\<lambda>l. (R(r \<mapsto> Address (l @ [i])), M)) (address_of R p)"
| "run_instruction (Load r p) (R, M) =
     Option.bind (address_of R p) (\<lambda>l. map_option (\<lambda>v. (R(r \<mapsto> v), M)) (M l))"
| "run_instruction (Store v p) (R, M) =
     Option.bind (address_of R p) (\<lambda>l. map_option (\<lambda>v. (R, M(l \<mapsto> v))) (operand R v))"
| "run_instruction (Same r p) (R, M) = map_option (\<lambda>l. (R(r \<mapsto> Address l), M)) (address_of R p)"

fun run_code :: "ir_instruction list \<Rightarrow> registers \<times> object_memory \<Rightarrow> (registers \<times> object_memory) option" where
  "run_code [] s = Some s"
| "run_code (i # is) s = Option.bind (run_instruction i s) (run_code is)"

lemma address_of_same: "R' s = R s \<Longrightarrow> address_of R' s = address_of R s"
  by (cases "s = []") (simp_all add: address_of_def operand_def)

lemma run_code_append: "run_code (xs @ ys) s = Option.bind (run_code xs s) (run_code ys)"
proof (induction xs arbitrary: s)
  case (Cons i xs)
  then show ?case by (cases "run_instruction i s") simp_all
qed simp

subsection \<open>The address of a base\<close>

fun address_steps ::
    "class_table \<Rightarrow> string \<Rightarrow> class_declaration \<Rightarrow> nat \<Rightarrow> string \<Rightarrow> string list \<Rightarrow> (ir_instruction list \<times> string) option" where
  "address_steps t temporaryPrefix c step address [] = Some ([], address)"
| "address_steps t temporaryPrefix c step address (b # path) =
     Option.bind (position b (cl_baseClassNames c)) (\<lambda>baseIndex.
       let result = ''%'' @ temporaryPrefix @ ''.addr.'' @ to_string step;
           slot = ''%'' @ temporaryPrefix @ ''.slot.'' @ to_string step
       in Option.bind
         (if cl_baseVirtual c ! baseIndex
          then map_option (\<lambda>i. [Gep slot (cl_name c) address i, Load result slot]) (virtualBasePointerIndex t c b)
          else Some [Gep result (cl_name c) address (baseIndex + 2)]) (\<lambda>code.
       Option.bind (map_of t b) (\<lambda>base.
         map_option (\<lambda>(rest, r). (code @ rest, r)) (address_steps t temporaryPrefix base (Suc step) result path))))"

definition subobjectAddressSequence ::
    "class_table \<Rightarrow> string \<Rightarrow> class_declaration \<Rightarrow> string list \<Rightarrow> string \<Rightarrow> (ir_instruction list \<times> string) option" where
  "subobjectAddressSequence t pointer owner path temporaryPrefix = address_steps t temporaryPrefix owner 0 pointer path"

text \<open>\<open>newTemporary\<close>: the number of the next temporary is passed along.\<close>

definition temporary :: "nat \<Rightarrow> string" where
  "temporary n = ''%t'' @ to_string n"

definition emitSubobjectAddress ::
    "class_table \<Rightarrow> nat \<Rightarrow> string \<Rightarrow> class_declaration \<Rightarrow> string list \<Rightarrow> (ir_instruction list \<times> string \<times> nat) option" where
  "emitSubobjectAddress t n pointer owner path =
     (if path = [] then Some ([], pointer, n)
      else map_option (\<lambda>(code, address). (code, address, Suc n))
        (subobjectAddressSequence t pointer owner path (drop 1 (temporary n))))"

subsection \<open>The links of a new object\<close>

definition viewMetadataSymbol :: "class_declaration \<Rightarrow> string list \<Rightarrow> string" where
  "viewMetadataSymbol owner path = ''@.cw.view.meta.'' @ cl_name owner @ ''.p'' @ join_with ''_'' path"

fun emit_each :: "(nat \<Rightarrow> 'a \<Rightarrow> (ir_instruction list \<times> nat) option) \<Rightarrow> nat \<Rightarrow> 'a list \<Rightarrow> (ir_instruction list \<times> nat) option" where
  "emit_each f n [] = Some ([], n)"
| "emit_each f n (x # xs) =
     Option.bind (f n x) (\<lambda>(code, n). map_option (\<lambda>(rest, n). (code @ rest, n)) (emit_each f n xs))"

definition link_virtual_base ::
    "class_table \<Rightarrow> class_declaration \<Rightarrow> string \<Rightarrow> class_declaration \<Rightarrow> string \<Rightarrow> nat \<Rightarrow> string \<Rightarrow> (ir_instruction list \<times> nat) option" where
  "link_virtual_base t owner object view viewAddress n baseName =
     Option.bind (virtualBaseStorageIndex t owner baseName) (\<lambda>storage.
     map_option (\<lambda>slot.
       ([Gep (temporary n) (cl_name owner) object storage,
         Gep (temporary (Suc n)) (cl_name view) viewAddress slot,
         Store (temporary n) (temporary (Suc n))], n + 2))
       (virtualBasePointerIndex t view baseName))"

definition link_view ::
    "class_table \<Rightarrow> class_declaration \<Rightarrow> string \<Rightarrow> nat \<Rightarrow> string list \<times> class_declaration \<Rightarrow> (ir_instruction list \<times> nat) option" where
  "link_view t owner object n view =
     Option.bind (emitSubobjectAddress t n object owner (fst view)) (\<lambda>(code, viewAddress, n).
     Option.bind (layoutVirtualBases t (snd view)) (\<lambda>names.
       map_option (\<lambda>(rest, n). (code @ rest, n))
         (emit_each (link_virtual_base t owner object (snd view) viewAddress) n names)))"

definition describe_view ::
    "class_table \<Rightarrow> class_declaration \<Rightarrow> string \<Rightarrow> nat \<Rightarrow> string list \<times> class_declaration \<Rightarrow> (ir_instruction list \<times> nat) option" where
  "describe_view t owner object n view =
     (if fst view = [] then Some ([], n)
      else map_option (\<lambda>(code, viewAddress, n).
          (code @
           [Gep (temporary n) (cl_name (snd view)) viewAddress 0,
            Store (viewMetadataSymbol owner (fst view)) (temporary n),
            Gep (temporary (Suc n)) (cl_name (snd view)) viewAddress 1,
            Store object (temporary (Suc n))], n + 2))
        (emitSubobjectAddress t n object owner (fst view)))"

definition link_object ::
    "class_table \<Rightarrow> class_declaration \<Rightarrow> string \<Rightarrow> nat \<Rightarrow> (ir_instruction list \<times> nat) option" where
  "link_object t owner object n =
     Option.bind (subobjects t owner) (\<lambda>views.
     Option.bind (emit_each (link_view t owner object) (Suc n) views) (\<lambda>(links, n').
     map_option (\<lambda>(descriptions, n'').
       ([Gep (temporary n) (cl_name owner) object 1, Store object (temporary n)] @ links @ descriptions, n''))
       (emit_each (describe_view t owner object) n' views)))"

text \<open>Registers that the code emitted from a number on does not assign.\<close>

definition settled :: "nat \<Rightarrow> string \<Rightarrow> bool" where
  "settled n s \<longleftrightarrow> (\<forall>m \<ge> n. s \<noteq> temporary m \<and> (\<forall>x. s \<noteq> temporary m @ CHR ''.'' # x))"

lemma settled_mono: "settled n s \<Longrightarrow> n \<le> m \<Longrightarrow> settled m s"
  by (simp add: settled_def)

lemma temporary_inject [simp]: "temporary m = temporary n \<longleftrightarrow> m = n"
  by (simp add: temporary_def to_string_inject)

lemma dot_digit: "\<not> is_digit (CHR ''.'')"
  by code_simp

lemma temporary_prefix: "temporary m @ CHR ''.'' # x \<noteq> temporary n"
proof
  assume "temporary m @ CHR ''.'' # x = temporary n"
  then have "to_string n = to_string m @ CHR ''.'' # x" by (simp add: temporary_def)
  then have "CHR ''.'' \<in> set (to_string n)" by simp
  then show False using to_string_digits dot_digit by blast
qed

lemma temporary_prefix_inject:
  assumes "temporary m @ CHR ''.'' # x = temporary n @ CHR ''.'' # y"
  shows "m = n"
proof -
  have "takeWhile is_digit (to_string k @ CHR ''.'' # z) = to_string k" for k z
    by (subst takeWhile_append2) (auto dest: to_string_digits simp: dot_digit)
  moreover have "to_string m @ CHR ''.'' # x = to_string n @ CHR ''.'' # y"
    using assms by (simp add: temporary_def)
  ultimately have "to_string m = to_string n" by metis
  then show ?thesis by (simp add: to_string_inject)
qed

lemma settled_temporary:
  assumes "m < n"
  shows "settled n (temporary m)" "settled n (temporary m @ CHR ''.'' # x)"
proof -
  show "settled n (temporary m)"
    using assms unfolding settled_def by (metis temporary_inject temporary_prefix leD)
  show "settled n (temporary m @ CHR ''.'' # x)"
    using assms unfolding settled_def by (metis temporary_prefix temporary_prefix_inject leD)
qed

lemma operand_temporary [simp]:
  "operand R (temporary n) = R (temporary n)" "operand R (CHR ''%'' # s) = R (CHR ''%'' # s)"
  by (simp_all add: operand_def temporary_def)

lemma address_of_temporary [simp]:
  "address_of R (temporary n) = (case R (temporary n) of Some (Address l) \<Rightarrow> Some l | _ \<Rightarrow> None)"
  by (simp add: address_of_def)

lemma operand_viewMetadataSymbol [simp]:
  "operand R (viewMetadataSymbol owner p) = Some (Symbol (viewMetadataSymbol owner p))"
  by (simp add: operand_def viewMetadataSymbol_def)

subsection \<open>The code computes the location\<close>

text \<open>The pointers to virtual bases along a path.\<close>

definition linked_along :: "class_table \<Rightarrow> class_declaration \<Rightarrow> object_memory \<Rightarrow> class_declaration \<Rightarrow> subobject_id \<Rightarrow> string list \<Rightarrow> bool" where
  "linked_along t owner M d k q \<longleftrightarrow>
     (\<forall>q1 b q2 k1 d1 j. q = q1 @ b # q2 \<longrightarrow> resolve t d k q1 = Some (k1, d1) \<longrightarrow> (b, True) \<in> set (direct_bases d1) \<longrightarrow>
        virtualBasePointerIndex t d1 b = Some j \<longrightarrow>
        M (location t owner k1 @ [j]) = Some (Address [the (virtualBaseStorageIndex t owner b)]))"

lemma linked_along_step:
  assumes "linked_along t owner M d k (b # q)"
  shows "(b, True) \<in> set (direct_bases d) \<Longrightarrow> virtualBasePointerIndex t d b = Some j \<Longrightarrow>
      M (location t owner k @ [j]) = Some (Address [the (virtualBaseStorageIndex t owner b)])"
    and "map_of (direct_bases d) b = Some v \<Longrightarrow> map_of t b = Some e \<Longrightarrow> linked_along t owner M e (enter_base k b v) q"
proof -
  show "(b, True) \<in> set (direct_bases d) \<Longrightarrow> virtualBasePointerIndex t d b = Some j \<Longrightarrow>
      M (location t owner k @ [j]) = Some (Address [the (virtualBaseStorageIndex t owner b)])"
    using assms [unfolded linked_along_def, rule_format, of "[]" b q k d j] by simp
  show "map_of (direct_bases d) b = Some v \<Longrightarrow> map_of t b = Some e \<Longrightarrow> linked_along t owner M e (enter_base k b v) q"
    unfolding linked_along_def
  proof (intro allI impI)
    fix q1 c q2 k1 d1 j
    assume "map_of (direct_bases d) b = Some v" "map_of t b = Some e" "q = q1 @ c # q2"
      "resolve t e (enter_base k b v) q1 = Some (k1, d1)" "(c, True) \<in> set (direct_bases d1)" "virtualBasePointerIndex t d1 c = Some j"
    then show "M (location t owner k1 @ [j]) = Some (Address [the (virtualBaseStorageIndex t owner c)])"
      using assms [unfolded linked_along_def, rule_format, of "b # q1" c q2 k1 d1 j] by simp
  qed
qed

definition inner_name :: "string \<Rightarrow> string \<Rightarrow> bool" where
  "inner_name temporaryPrefix s \<longleftrightarrow> (\<exists>x. s = (CHR ''%'' # temporaryPrefix) @ CHR ''.'' # x)"

lemma inner_name_simps [simp]:
  "inner_name p (CHR ''%'' # p @ CHR ''.'' # x)" by (auto simp: inner_name_def)

lemma address_steps_location:
  assumes "hierarchy_layout_ok t" "known t owner"
  shows "resolve_root t owner p = Some (k, d) \<Longrightarrow> resolve t d k q = Some (k', e) \<Longrightarrow>
    address_of R address = Some (location t owner k) \<Longrightarrow> linked_along t owner M d k q \<Longrightarrow>
    \<exists>code r R'. address_steps t x d step address q = Some (code, r) \<and> run_code code (R, M) = Some (R', M) \<and>
      address_of R' r = Some (location t owner k') \<and> (r = address \<or> inner_name x r) \<and> (\<forall>s. \<not> inner_name x s \<longrightarrow> R' s = R s)"
proof (induction q arbitrary: p k d address R step)
  case (Cons b q)
  obtain v base where b: "map_of (direct_bases d) b = Some v" "(b, v) \<in> set (direct_bases d)" "map_of t b = Some base"
      "resolve t base (enter_base k b v) q = Some (k', e)"
    using Cons.prems(2) by (auto split: option.splits dest: map_of_SomeD)
  obtain i where i: "position b (cl_baseClassNames d) = Some i" "cl_baseVirtual d ! i = v"
      "v \<Longrightarrow> \<exists>j. virtualBasePointerIndex t d b = Some j" "v \<Longrightarrow> \<exists>j. virtualBaseStorageIndex t owner b = Some j"
    using path_step [OF Cons.prems(1) assms b(2,3)] by metis
  note next_path = resolve_snoc [OF Cons.prems(1) assms b(2,3)]
  note linked = linked_along_step [OF Cons.prems(4)]
  let ?result = "''%'' @ x @ ''.addr.'' @ to_string step"
  let ?slot = "''%'' @ x @ ''.slot.'' @ to_string step"
  have names: "inner_name x ?result" "inner_name x ?slot" by (auto simp: inner_name_def)
  have result: "address_of (R'(?result \<mapsto> Address l)) ?result = Some l" for R' l by (simp add: address_of_def)
  show ?case
  proof (cases v)
    case True
    with i(3,4) obtain j storage where j: "virtualBasePointerIndex t d b = Some j" "virtualBaseStorageIndex t owner b = Some storage"
      by blast
    let ?R = "R(?slot \<mapsto> Address (location t owner k @ [j]), ?result \<mapsto> Address [storage])"
    have step: "run_code [Gep ?slot (cl_name d) address j, Load ?result ?slot] (R, M) = Some (?R, M)"
      using Cons.prems(3) linked(1) [OF _ j(1)] b(2) True j(2) by (simp add: address_of_def)
    have "address_of ?R ?result = Some (location t owner (enter_base k b v))"
      using True j(2) by (simp add: location_enter address_of_def)
    from Cons.IH [OF next_path b(4) this linked(2) [OF b(1,3)], of "Suc step"] obtain code r R' where rest:
        "address_steps t x base (Suc step) ?result q = Some (code, r)" "run_code code (?R, M) = Some (R', M)"
        "address_of R' r = Some (location t owner k')" "r = ?result \<or> inner_name x r" "\<forall>s. \<not> inner_name x s \<longrightarrow> R' s = ?R s"
      by blast
    have "address_steps t x d step address (b # q) =
        Some ([Gep ?slot (cl_name d) address j, Load ?result ?slot] @ code, r)"
      using rest(1) i(1,2) j(1) True b(3) by (simp add: Let_def)
    moreover have "run_code ([Gep ?slot (cl_name d) address j, Load ?result ?slot] @ code) (R, M) = Some (R', M)"
      using step rest(2) by (simp only: run_code_append bind.bind_lunit)
    moreover have "\<forall>s. \<not> inner_name x s \<longrightarrow> R' s = R s" using rest(5) names by (metis fun_upd_other)
    ultimately show ?thesis using rest(3,4) names by blast
  next
    case False
    let ?R = "R(?result \<mapsto> Address (location t owner k @ [i + 2]))"
    have step: "run_code [Gep ?result (cl_name d) address (i + 2)] (R, M) = Some (?R, M)"
      using Cons.prems(3) by simp
    have "address_of ?R ?result = Some (location t owner (enter_base k b v))"
      using False i(1) location_enter(1) [OF resolve_class [OF Cons.prems(1)]] by (simp add: address_of_def)
    from Cons.IH [OF next_path b(4) this linked(2) [OF b(1,3)], of "Suc step"] obtain code r R' where rest:
        "address_steps t x base (Suc step) ?result q = Some (code, r)" "run_code code (?R, M) = Some (R', M)"
        "address_of R' r = Some (location t owner k')" "r = ?result \<or> inner_name x r" "\<forall>s. \<not> inner_name x s \<longrightarrow> R' s = ?R s"
      by blast
    have "address_steps t x d step address (b # q) = Some ([Gep ?result (cl_name d) address (i + 2)] @ code, r)"
      using rest(1) i(1,2) False b(3) by (simp add: Let_def)
    moreover have "run_code ([Gep ?result (cl_name d) address (i + 2)] @ code) (R, M) = Some (R', M)"
      using step rest(2) by (simp only: run_code_append bind.bind_lunit)
    moreover have "\<forall>s. \<not> inner_name x s \<longrightarrow> R' s = R s" using rest(5) names by (metis fun_upd_other)
    ultimately show ?thesis using rest(3,4) names by blast
  qed
qed auto

subsection \<open>The links of an object\<close>

text \<open>Code emitted in a loop, with what holds of the memory when some of the elements are done.\<close>

definition code_runs :: "nat \<Rightarrow> (ir_instruction list \<times> nat) option \<Rightarrow> registers \<times> object_memory \<Rightarrow> (object_memory \<Rightarrow> bool) \<Rightarrow> bool" where
  "code_runs n emitted s Q \<longleftrightarrow>
     (\<exists>code n' R' M'. emitted = Some (code, n') \<and> n \<le> n' \<and> run_code code s = Some (R', M') \<and>
        (\<forall>x. settled n x \<longrightarrow> R' x = fst s x) \<and> Q M')"

lemma code_runs_weaken: "code_runs n emitted s Q \<Longrightarrow> (\<And>M. Q M \<Longrightarrow> Q' M) \<Longrightarrow> code_runs n emitted s Q'"
  unfolding code_runs_def by blast

lemma emit_each_runs:
  assumes "\<And>earlier x rest n R M. xs = earlier @ x # rest \<Longrightarrow> m \<le> n \<Longrightarrow> (\<forall>y. settled m y \<longrightarrow> R y = R0 y) \<Longrightarrow> Q earlier M \<Longrightarrow>
      code_runs n (f n x) (R, M) (Q (earlier @ [x]))"
  shows "Q [] M \<Longrightarrow> code_runs m (emit_each f m xs) (R0, M) (Q xs)"
proof -
  have "xs = earlier @ rest \<Longrightarrow> m \<le> n \<Longrightarrow> (\<forall>y. settled m y \<longrightarrow> R y = R0 y) \<Longrightarrow> Q earlier M \<Longrightarrow>
      code_runs n (emit_each f n rest) (R, M) (Q xs)" for earlier rest n R M
  proof (induction rest arbitrary: earlier n R M)
    case Nil
    then show ?case by (simp add: code_runs_def)
  next
    case (Cons x rest)
    from assms [OF Cons.prems] obtain code n' R' M' where f: "f n x = Some (code, n')" "n \<le> n'"
        "run_code code (R, M) = Some (R', M')" "\<forall>y. settled n y \<longrightarrow> R' y = R y" "Q (earlier @ [x]) M'"
      by (auto simp: code_runs_def)
    have "\<forall>y. settled m y \<longrightarrow> R' y = R0 y" using Cons.prems(3) f(4) settled_mono [OF _ Cons.prems(2)] by simp
    from Cons.IH [OF _ _ this f(5)] Cons.prems(1,2) f(2)
    have "code_runs n' (emit_each f n' rest) (R', M') (Q xs)" by simp
    then obtain code' n'' R'' M'' where rest: "emit_each f n' rest = Some (code', n'')" "n' \<le> n''"
        "run_code code' (R', M') = Some (R'', M'')" "\<forall>y. settled n' y \<longrightarrow> R'' y = R' y" "Q xs M''"
      by (auto simp: code_runs_def)
    have "emit_each f n (x # rest) = Some (code @ code', n'')" using f(1) rest(1) by simp
    moreover have "run_code (code @ code') (R, M) = Some (R'', M'')" using f(3) rest(3) by (simp add: run_code_append)
    moreover have "\<forall>y. settled n y \<longrightarrow> R'' y = R y" using f(4) rest(4) settled_mono [OF _ f(2)] by simp
    moreover have "n \<le> n''" using f(2) rest(2) by simp
    ultimately show ?case using rest(5) by (auto simp: code_runs_def)
  qed
  from this [of "[]" xs m R0 M] show "Q [] M \<Longrightarrow> code_runs m (emit_each f m xs) (R0, M) (Q xs)" by simp
qed

text \<open>The address of a view.\<close>

lemma inner_name_settled: "settled n s \<Longrightarrow> \<not> inner_name (drop 1 (temporary n)) s"
  unfolding settled_def inner_name_def temporary_def by auto

lemma emitSubobjectAddress_location:
  assumes "hierarchy_layout_ok t" "known t owner" "resolve_root t owner p = Some (k, d)" "address_of R object = Some []"
    and "linked_along t owner M owner (None, []) p" "settled n object"
  shows "\<exists>code r n' R'. emitSubobjectAddress t n object owner p = Some (code, r, n') \<and> n \<le> n' \<and> settled n' r \<and>
    run_code code (R, M) = Some (R', M) \<and> address_of R' r = Some (location t owner k) \<and> (\<forall>s. settled n s \<longrightarrow> R' s = R s)"
proof (cases "p = []")
  case True
  then show ?thesis using assms by (auto simp: emitSubobjectAddress_def location_def)
next
  case False
  have "address_of R object = Some (location t owner (None, []))" using assms(4) by (simp add: location_def)
  from address_steps_location [OF assms(1,2) _ assms(3) this assms(5), of "[]" "drop 1 (temporary n)" 0]
  obtain code r R' where code: "address_steps t (drop 1 (temporary n)) owner 0 object p = Some (code, r)"
      "run_code code (R, M) = Some (R', M)" "address_of R' r = Some (location t owner k)"
      "r = object \<or> inner_name (drop 1 (temporary n)) r" "\<forall>s. \<not> inner_name (drop 1 (temporary n)) s \<longrightarrow> R' s = R s"
    by auto
  have "settled (Suc n) r"
    using code(4)
  proof
    assume "inner_name (drop 1 (temporary n)) r"
    then obtain x where "r = temporary n @ CHR ''.'' # x" by (auto simp: inner_name_def temporary_def)
    then show ?thesis using settled_temporary(2) [of n "Suc n"] by simp
  qed (use settled_mono [OF assms(6), of "Suc n"] in simp)
  with code False inner_name_settled show ?thesis
    unfolding emitSubobjectAddress_def subobjectAddressSequence_def by auto
qed

text \<open>The pointers to the virtual bases of one view.\<close>

definition link_entry :: "class_table \<Rightarrow> class_declaration \<Rightarrow> subobject_id \<Rightarrow> class_declaration \<Rightarrow> string \<Rightarrow> nat list \<times> ir_value" where
  "link_entry t owner k d b =
     (location t owner k @ [the (virtualBasePointerIndex t d b)], Address [the (virtualBaseStorageIndex t owner b)])"

definition store_all :: "(nat list \<times> ir_value) list \<Rightarrow> object_memory \<Rightarrow> object_memory" where
  "store_all es M = fold (\<lambda>(l, v) M. M(l \<mapsto> v)) es M"

lemma store_all_simps [simp]: "store_all [] M = M" "store_all (es @ [(l, v)]) M = (store_all es M)(l \<mapsto> v)"
  by (simp_all add: store_all_def)

lemma link_virtual_bases_runs:
  assumes "address_of R object = Some []" "address_of R a = Some (location t owner k)" "settled n object" "settled n a"
    and "\<forall>b \<in> set names. (\<exists>i. virtualBaseStorageIndex t owner b = Some i) \<and> (\<exists>j. virtualBasePointerIndex t d b = Some j)"
  shows "code_runs n (emit_each (link_virtual_base t owner object d a) n names) (R, M)
    (\<lambda>M'. M' = store_all (map (link_entry t owner k d) names) M)"
proof (rule emit_each_runs [where Q = "\<lambda>earlier M'. M' = store_all (map (link_entry t owner k d) earlier) M"])
  fix earlier b rest n' R' M'
  assume names: "names = earlier @ b # rest" and n': "n \<le> n'" and R': "\<forall>y. settled n y \<longrightarrow> R' y = R y"
    and M': "M' = store_all (map (link_entry t owner k d) earlier) M"
  obtain i j where ij: "virtualBaseStorageIndex t owner b = Some i" "virtualBasePointerIndex t d b = Some j"
    using assms(5) names by auto
  have regs: "address_of R' object = Some []" "address_of R' a = Some (location t owner k)"
    using assms(1-4) R' address_of_same [of R' _ R] by auto
  have "a \<noteq> temporary n'" "object \<noteq> temporary n'" using assms(3,4) n' by (auto simp: settled_def)
  then have "address_of (R'(temporary n' \<mapsto> v)) a = Some (location t owner k)" for v
    using regs(2) address_of_same [of "R'(temporary n' \<mapsto> v)" a R'] by simp
  moreover have "settled n' x \<Longrightarrow> x \<noteq> temporary n' \<and> x \<noteq> temporary (Suc n')" for x by (auto simp: settled_def)
  ultimately show "code_runs n' (link_virtual_base t owner object d a n' b) (R', M')
      (\<lambda>M'. M' = store_all (map (link_entry t owner k d) (earlier @ [b])) M)"
    using regs(1) ij M' by (auto simp: code_runs_def link_virtual_base_def link_entry_def address_of_def)
qed simp

subsection \<open>The order of the views\<close>

text \<open>A view that is not the whole object comes after the view its path extends.\<close>

fun parents_first :: "string list set \<Rightarrow> subobject_list \<Rightarrow> bool" where
  "parents_first P [] \<longleftrightarrow> True"
| "parents_first P ((p, d) # os) \<longleftrightarrow> p \<noteq> [] \<and> butlast p \<in> P \<and> parents_first (insert p P) os"

lemma parents_first_append:
  "parents_first P (xs @ ys) \<longleftrightarrow> parents_first P xs \<and> parents_first (P \<union> fst ` set xs) ys"
  by (induction P xs rule: parents_first.induct) auto

lemma parents_first_mono: "parents_first P xs \<Longrightarrow> P \<subseteq> Q \<Longrightarrow> parents_first Q xs"
proof (induction P xs arbitrary: Q rule: parents_first.induct)
  case (2 P p d os)
  have "insert p P \<subseteq> insert p Q" using 2(3) by blast
  with 2(2) have "parents_first (insert p Q) os" by (simp add: 2(1))
  moreover have "p \<noteq> []" "butlast p \<in> Q" using 2(2,3) by auto
  ultimately show ?case by simp
qed simp

lemma subobject_visit_parents:
  "subobject_visit t fuel c path s = Some s' \<Longrightarrow>
     \<exists>new. snd s' = snd s @ (path, c) # new \<and> parents_first {path} new"
  "subobject_bases t fuel bs path s = Some s' \<Longrightarrow> \<exists>new. snd s' = snd s @ new \<and> parents_first {path} new"
proof (induction t fuel c path s and t fuel bs path s arbitrary: s' and s'
    rule: subobject_visit_subobject_bases.induct)
  case (4 t fuel b isVirtual bs path seen os)
  show ?case
  proof (cases "map_of t b = None \<or> isVirtual \<and> b \<in> set seen")
    case True
    with 4(1,2,5) show ?thesis by (auto split: option.splits)
  next
    case False
    then obtain base where base: "map_of t b = Some base" "\<not> (isVirtual \<and> b \<in> set seen)" by auto
    obtain mid where mid: "subobject_visit t fuel base (path @ [b]) (if isVirtual then b # seen else seen, os) = Some mid"
        "subobject_bases t fuel bs path mid = Some s'"
      using 4(5) base by (auto simp: bind_eq_Some_conv)
    obtain new where new: "snd mid = os @ (path @ [b], base) # new" "parents_first {path @ [b]} new"
      using 4(3) [OF base mid(1)] by auto
    obtain new' where new': "snd s' = snd mid @ new'" "parents_first {path} new'"
      using 4(4) [OF base mid] by auto
    have "parents_first (insert (path @ [b]) {path}) new" using new(2) by (rule parents_first_mono) simp
    then have "parents_first {path} ((path @ [b], base) # new)" by simp
    moreover have "parents_first ({path} \<union> fst ` set ((path @ [b], base) # new)) new'"
      using new'(2) by (rule parents_first_mono) simp
    ultimately have "parents_first {path} (((path @ [b], base) # new) @ new')" by (simp only: parents_first_append)
    with new(1) new'(1) show ?thesis by (intro exI [of _ "((path @ [b], base) # new) @ new'"]) simp
  qed
qed auto

lemma subobjects_order:
  assumes "subobjects t c = Some os" "os = xs @ (p, d) # ys"
  shows "p = [] \<and> xs = [] \<and> d = c \<or> p \<noteq> [] \<and> butlast p \<in> fst ` set xs"
proof -
  obtain s where "subobject_visit t (depth_of t) c [] ([], []) = Some s" "os = snd s"
    using assms(1) by (auto simp: subobjects_def)
  with subobject_visit_parents(1) [of t "depth_of t" c "[]" "([], [])" s] obtain new where
    new: "os = ([], c) # new" "parents_first {[]} new" by auto
  show ?thesis
  proof (cases xs)
    case Nil
    with new(1) assms(2) show ?thesis by simp
  next
    case (Cons x xs')
    with new(1) assms(2) have "new = xs' @ (p, d) # ys" "x = ([], c)" by simp_all
    with new(2) Cons show ?thesis by (auto simp: parents_first_append)
  qed
qed

text \<open>So all shorter paths are earlier a path.\<close>

lemma subobjects_prefixes:
  assumes "subobjects t c = Some os"
  shows "os = xs @ (p @ q, d) # ys \<Longrightarrow> q \<noteq> [] \<Longrightarrow> p \<in> fst ` set xs"
proof (induction q arbitrary: xs d ys rule: rev_induct)
  case (snoc b q)
  from subobjects_order [OF assms snoc.prems(1)] obtain e where e: "(p @ q, e) \<in> set xs"
    by (auto simp: butlast_append)
  show ?case
  proof (cases "q = []")
    case True
    with e show ?thesis by force
  next
    case False
    from split_list [OF e] obtain us vs where "xs = us @ (p @ q, e) # vs" by blast
    with snoc.IH [of us e "vs @ (p @ q @ [b], d) # ys"] snoc.prems(1) False show ?thesis by auto
  qed
qed simp

subsection \<open>Linked objects\<close>

definition links_ok :: "class_table \<Rightarrow> class_declaration \<Rightarrow> object_memory \<Rightarrow> subobject_id \<Rightarrow> class_declaration \<Rightarrow> bool" where
  "links_ok t owner M k d \<longleftrightarrow>
     (\<forall>b j. virtualBasePointerIndex t d b = Some j \<longrightarrow>
        M (location t owner k @ [j]) = Some (Address [the (virtualBaseStorageIndex t owner b)]))"

definition all_linked :: "class_table \<Rightarrow> class_declaration \<Rightarrow> subobject_list \<Rightarrow> object_memory \<Rightarrow> bool" where
  "all_linked t owner os M \<longleftrightarrow> (\<forall>(p, d) \<in> set os. \<forall>k. resolve_root t owner p = Some (k, d) \<longrightarrow> links_ok t owner M k d)"

lemma all_linkedD:
  "all_linked t owner os M \<Longrightarrow> (p, d) \<in> set os \<Longrightarrow> resolve_root t owner p = Some (k, d) \<Longrightarrow> links_ok t owner M k d"
  unfolding all_linked_def by blast

lemma all_linkedI:
  "(\<And>p d k. (p, d) \<in> set os \<Longrightarrow> resolve_root t owner p = Some (k, d) \<Longrightarrow> links_ok t owner M k d) \<Longrightarrow> all_linked t owner os M"
  unfolding all_linked_def by blast

lemma store_all_cases: "store_all es M l = M l \<or> (\<exists>v. (l, v) \<in> set es \<and> store_all es M l = Some v)"
proof (induction es rule: rev_induct)
  case (snoc e es)
  then show ?case by (cases e; cases "fst e = l") auto
qed simp

lemma store_all_mem: "(l, v) \<in> set es \<Longrightarrow> \<exists>w. (l, w) \<in> set es \<and> store_all es M l = Some w"
proof (induction es rule: rev_induct)
  case (snoc e es)
  then show ?case by (cases e; cases "fst e = l") auto
qed simp

lemma pointer_index_inject:
  "virtualBasePointerIndex t c a = Some i \<Longrightarrow> virtualBasePointerIndex t c b = Some i \<Longrightarrow> a = b"
  by (auto simp: virtualBasePointerIndex_def bind_eq_Some_conv dest: position_inject)

lemma pointer_index_ge: "virtualBasePointerIndex t c b = Some i \<Longrightarrow> 2 \<le> i"
  by (auto simp: virtualBasePointerIndex_def bind_eq_Some_conv)

lemma same_subobject:
  assumes "hierarchy_layout_ok t" "known t owner" "resolve_root t owner p = Some (k, d)" "resolve_root t owner q = Some (l, e)"
    and "location t owner k = location t owner l"
  shows "k = l" "d = e"
proof -
  show "k = l" using location_inject [OF assms] .
  with resolve_class [OF assms(3)] resolve_class [OF assms(4)] show "d = e" by simp
qed

text \<open>Writing the links of one view keeps those of another, and sets its own.\<close>

lemma link_entry_value:
  assumes "hierarchy_layout_ok t" "known t owner" "resolve_root t owner p = Some (k, d)" "resolve_root t owner q = Some (l, e)"
    and "\<forall>b \<in> set names. \<exists>j. virtualBasePointerIndex t d b = Some j"
    and "(location t owner l @ [j], v) \<in> set (map (link_entry t owner k d) names)" "virtualBasePointerIndex t e b = Some j"
  shows "v = Address [the (virtualBaseStorageIndex t owner b)]"
proof -
  obtain a where a: "a \<in> set names" "location t owner l @ [j] = location t owner k @ [the (virtualBasePointerIndex t d a)]"
      "v = Address [the (virtualBaseStorageIndex t owner a)]"
    using assms(6) by (auto simp: link_entry_def)
  with assms(5) obtain i where i: "virtualBasePointerIndex t d a = Some i" by blast
  from a(2) i have "location t owner k = location t owner l" "i = j" by simp_all
  with same_subobject(2) [OF assms(1-4)] i assms(7) have "a = b" by (auto dest: pointer_index_inject)
  with a(3) show ?thesis by simp
qed

lemma links_ok_kept:
  assumes "hierarchy_layout_ok t" "known t owner" "resolve_root t owner p = Some (k, d)" "resolve_root t owner q = Some (l, e)"
    and "\<forall>b \<in> set names. \<exists>j. virtualBasePointerIndex t d b = Some j" "links_ok t owner M l e"
  shows "links_ok t owner (store_all (map (link_entry t owner k d) names) M) l e"
  unfolding links_ok_def
proof (intro allI impI)
  fix b j
  assume j: "virtualBasePointerIndex t e b = Some j"
  show "store_all (map (link_entry t owner k d) names) M (location t owner l @ [j]) =
      Some (Address [the (virtualBaseStorageIndex t owner b)])"
    using store_all_cases [of "map (link_entry t owner k d) names" M "location t owner l @ [j]"]
      link_entry_value [OF assms(1-5) _ j] assms(6) j by (auto simp: links_ok_def)
qed

lemma links_ok_set:
  assumes "hierarchy_layout_ok t" "known t owner" "resolve_root t owner p = Some (k, d)" "layoutVirtualBases t d = Some names"
  shows "links_ok t owner (store_all (map (link_entry t owner k d) names) M) k d"
  unfolding links_ok_def
proof (intro allI impI)
  fix b j
  assume j: "virtualBasePointerIndex t d b = Some j"
  then have "b \<in> set names" using assms(4) by (auto simp: virtualBasePointerIndex_def position_def split: if_splits)
  then have "(location t owner k @ [j], Address [the (virtualBaseStorageIndex t owner b)]) \<in> set (map (link_entry t owner k d) names)"
    using j by (force simp: link_entry_def)
  from store_all_mem [OF this, of M] obtain w where w: "(location t owner k @ [j], w) \<in> set (map (link_entry t owner k d) names)"
      "store_all (map (link_entry t owner k d) names) M (location t owner k @ [j]) = Some w" by blast
  have "\<forall>b \<in> set names. \<exists>j. virtualBasePointerIndex t d b = Some j"
    using assms(4) position_known by (force simp: virtualBasePointerIndex_def)
  from link_entry_value [OF assms(1,2,3,3) this w(1) j] w(2)
  show "store_all (map (link_entry t owner k d) names) M (location t owner k @ [j]) =
      Some (Address [the (virtualBaseStorageIndex t owner b)])" by simp
qed

text \<open>The members with index 0 and 1 of the whole object are not written with the links.\<close>

lemma links_not_header:
  assumes "\<forall>b \<in> set names. \<exists>j. virtualBasePointerIndex t d b = Some j" "i < 2"
  shows "store_all (map (link_entry t owner k d) names) M (l @ [i]) = M (l @ [i])"
proof -
  have "(l @ [i], v) \<notin> set (map (link_entry t owner k d) names)" for v
    using assms pointer_index_ge by (force simp: link_entry_def)
  with store_all_cases [of "map (link_entry t owner k d) names" M "l @ [i]"] show ?thesis by blast
qed

text \<open>What the links of the views need of the list of the views.\<close>

lemma view_bases:
  assumes "hierarchy_layout_ok t" "known t owner" "resolve_root t owner p = Some (k, d)"
  obtains names where "layoutVirtualBases t d = Some names"
    "\<forall>b \<in> set names. (\<exists>i. virtualBaseStorageIndex t owner b = Some i) \<and> (\<exists>j. virtualBasePointerIndex t d b = Some j)"
proof -
  obtain n where n: "map_of t n = Some owner" using assms(2) by (auto simp: known_def)
  obtain m where m: "map_of t m = Some d" "(n, m) \<in> (direct_base t)\<^sup>*" using resolve_reach [OF assms(3) n] by blast
  obtain ms where ms: "layoutVirtualBases t d = Some ms" "set ms = virtual_ancestors t m"
    using layoutVirtualBases_known [OF assms(1) m(1)] by metis
  obtain ns where ns: "layoutVirtualBases t owner = Some ns" "set ns = virtual_ancestors t n"
    using layoutVirtualBases_known [OF assms(1) n] by metis
  have "virtual_ancestors t m \<subseteq> virtual_ancestors t n"
    using m(2) unfolding virtual_ancestors_def by (blast intro: rtrancl_trans)
  then have "b \<in> set ms \<Longrightarrow> (\<exists>i. virtualBaseStorageIndex t owner b = Some i) \<and> (\<exists>j. virtualBasePointerIndex t d b = Some j)" for b
    using ms ns position_known [of b ms] position_known [of b ns]
    by (auto simp: virtualBasePointerIndex_def virtualBaseStorageIndex_def)
  with ms(1) that show thesis by blast
qed

lemma linked_along_listed:
  assumes "hierarchy_layout_ok t" "known t owner" "subobjects t owner = Some os" "lists_subobjects t owner os"
    and "os = earlier @ (p, d) # rest" "all_linked t owner earlier M"
  shows "linked_along t owner M owner (None, []) p"
  unfolding linked_along_def
proof (intro allI impI)
  fix q1 b q2 k1 d1 j
  assume p: "p = q1 @ b # q2" "resolve_root t owner q1 = Some (k1, d1)" "virtualBasePointerIndex t d1 b = Some j"
  from subobjects_prefixes [OF assms(3), of earlier q1 "b # q2" d rest] assms(5) p(1)
  obtain e where e: "(q1, e) \<in> set earlier" by auto
  then have "(q1, e) \<in> set os" using assms(5) by simp
  with assms(4) have "\<exists>k. resolve_root t owner q1 = Some (k, e)" unfolding lists_subobjects_def by blast
  with p(2) have "e = d1" by simp
  with all_linkedD [OF assms(6)] e p(2,3)
  show "M (location t owner k1 @ [j]) = Some (Address [the (virtualBaseStorageIndex t owner b)])"
    by (auto simp: links_ok_def)
qed

definition headed :: "object_memory \<Rightarrow> object_memory \<Rightarrow> bool" where
  "headed M0 M \<longleftrightarrow> M [0] = M0 [0] \<and> M [1] = Some (Address [])"

lemma link_view_runs:
  assumes "hierarchy_layout_ok t" "known t owner" "subobjects t owner = Some os" "lists_subobjects t owner os"
    and "os = earlier @ (p, d) # rest" "address_of R object = Some []" "settled n object"
    and "headed M0 M" "all_linked t owner earlier M"
  shows "code_runs n (link_view t owner object n (p, d)) (R, M)
    (\<lambda>M'. headed M0 M' \<and> all_linked t owner (earlier @ [(p, d)]) M')"
proof -
  obtain k where k: "resolve_root t owner p = Some (k, d)" using assms(4,5) by (auto simp: lists_subobjects_def)
  obtain names where names: "layoutVirtualBases t d = Some names"
      "\<forall>b \<in> set names. (\<exists>i. virtualBaseStorageIndex t owner b = Some i) \<and> (\<exists>j. virtualBasePointerIndex t d b = Some j)"
    using view_bases [OF assms(1,2) k] .
  obtain code r n' R' where code: "emitSubobjectAddress t n object owner p = Some (code, r, n')" "n \<le> n'" "settled n' r"
      "run_code code (R, M) = Some (R', M)" "address_of R' r = Some (location t owner k)" "\<forall>s. settled n s \<longrightarrow> R' s = R s"
    using emitSubobjectAddress_location [OF assms(1,2) k assms(6) linked_along_listed [OF assms(1-5,9)] assms(7)] by blast
  have object: "address_of R' object = Some []" "settled n' object"
    using assms(6,7) code(2,6) address_of_same [of R' object R] settled_mono by auto
  let ?M = "store_all (map (link_entry t owner k d) names) M"
  from link_virtual_bases_runs [OF object(1) code(5) object(2) code(3) names(2), of M]
  obtain code' n'' R'' where links: "emit_each (link_virtual_base t owner object d r) n' names = Some (code', n'')" "n' \<le> n''"
      "run_code code' (R', M) = Some (R'', ?M)" "\<forall>s. settled n' s \<longrightarrow> R'' s = R' s"
    by (auto simp: code_runs_def)
  have pointers: "\<forall>b \<in> set names. \<exists>j. virtualBasePointerIndex t d b = Some j" using names(2) by blast
  have "headed M0 ?M"
    using assms(8) links_not_header [OF pointers, of _ owner k M "[]"] by (simp add: headed_def)
  moreover have "all_linked t owner (earlier @ [(p, d)]) ?M"
  proof (rule all_linkedI)
    fix q e l
    assume "(q, e) \<in> set (earlier @ [(p, d)])" and l: "resolve_root t owner q = Some (l, e)"
    then consider "(q, e) \<in> set earlier" | "q = p" "e = d" "l = k" using k by auto
    then show "links_ok t owner ?M l e"
      using links_ok_kept [OF assms(1,2) k l pointers] all_linkedD [OF assms(9) _ l] links_ok_set [OF assms(1,2) k names(1)]
      by cases auto
  qed
  moreover have "link_view t owner object n (p, d) = Some (code @ code', n'')"
    using code(1) names(1) links(1) by (simp add: link_view_def)
  moreover have "run_code (code @ code') (R, M) = Some (R'', ?M)" using code(4) links(3) by (simp add: run_code_append)
  moreover have "\<forall>s. settled n s \<longrightarrow> R'' s = R s" using code(6) links(4) settled_mono [OF _ code(2)] by simp
  moreover have "n \<le> n''" using code(2) links(2) by simp
  ultimately show ?thesis by (auto simp: code_runs_def)
qed

subsection \<open>The metadata and the link to the object\<close>

definition describes :: "class_table \<Rightarrow> class_declaration \<Rightarrow> object_memory \<Rightarrow> string list \<Rightarrow> subobject_id \<Rightarrow> bool" where
  "describes t owner M p k \<longleftrightarrow>
     (p \<noteq> [] \<longrightarrow> M (location t owner k @ [0]) = Some (Symbol (viewMetadataSymbol owner p))) \<and>
     M (location t owner k @ [1]) = Some (Address [])"

definition all_described :: "class_table \<Rightarrow> class_declaration \<Rightarrow> subobject_list \<Rightarrow> object_memory \<Rightarrow> bool" where
  "all_described t owner os M \<longleftrightarrow>
     (\<forall>(p, d) \<in> set os. \<forall>k. resolve_root t owner p = Some (k, d) \<longrightarrow> describes t owner M p k)"

lemma all_describedD:
  "all_described t owner os M \<Longrightarrow> (p, d) \<in> set os \<Longrightarrow> resolve_root t owner p = Some (k, d) \<Longrightarrow> describes t owner M p k"
  unfolding all_described_def by blast

lemma all_describedI:
  "(\<And>p d k. (p, d) \<in> set os \<Longrightarrow> resolve_root t owner p = Some (k, d) \<Longrightarrow> describes t owner M p k) \<Longrightarrow>
     all_described t owner os M"
  unfolding all_described_def by blast

lemma resolve_not_root:
  assumes "resolve_root t owner p = Some (k, d)" "p \<noteq> []" "hierarchy_layout_ok t" "known t owner"
  shows "location t owner k \<noteq> []"
proof (cases p rule: rev_cases)
  case (snoc q b)
  from location_snocE [OF assms(1) [unfolded snoc] assms(3,4)] show ?thesis by cases auto
qed (use assms(2) in simp)

lemma listed_path:
  assumes "lists_subobjects t owner os" "(p, d) \<in> set os" "(q, e) \<in> set os"
    and "resolve_root t owner p = Some (k, d)" "resolve_root t owner q = Some (k, e)"
  shows "p = q"
proof -
  have "inj_on (ident t owner) (set os)" using assms(1) by (simp add: lists_subobjects_def distinct_map)
  moreover have "ident t owner (p, d) = ident t owner (q, e)" using assms(4,5) by (simp add: ident_def)
  ultimately show ?thesis using assms(2,3) by (auto dest: inj_onD)
qed

definition described_memory :: "object_memory \<Rightarrow> nat list \<Rightarrow> string \<Rightarrow> object_memory" where
  "described_memory M l symbol = M(l @ [0] \<mapsto> Symbol symbol, l @ [1] \<mapsto> Address [])"

lemma described_memory_simps [simp]:
  "described_memory M l x (l @ [0]) = Some (Symbol x)" "described_memory M l x (l @ [1]) = Some (Address [])"
  "l' \<noteq> l \<Longrightarrow> described_memory M l x (l' @ [i]) = M (l' @ [i])"
  "2 \<le> i \<Longrightarrow> described_memory M l x (l' @ [i]) = M (l' @ [i])"
  by (auto simp: described_memory_def)

definition linked_object :: "class_table \<Rightarrow> class_declaration \<Rightarrow> subobject_list \<Rightarrow> object_memory \<Rightarrow> object_memory \<Rightarrow> bool" where
  "linked_object t owner os M0 M \<longleftrightarrow> headed M0 M \<and> all_linked t owner os M"

lemma describe_view_memory:
  assumes "hierarchy_layout_ok t" "known t owner" "subobjects t owner = Some os" "lists_subobjects t owner os"
    and "os = earlier @ (p, d) # rest" "resolve_root t owner p = Some (k, d)" "p \<noteq> []"
    and "linked_object t owner os M0 M" "all_described t owner earlier M"
  shows "linked_object t owner os M0 (described_memory M (location t owner k) (viewMetadataSymbol owner p))"
    and "all_described t owner (earlier @ [(p, d)]) (described_memory M (location t owner k) (viewMetadataSymbol owner p))"
proof -
  let ?M = "described_memory M (location t owner k) (viewMetadataSymbol owner p)"
  have root: "location t owner k \<noteq> []" using resolve_not_root [OF assms(6,7,1,2)] .
  have "headed M0 ?M"
    using assms(8) root described_memory_simps(3) [of "[]" "location t owner k"] by (simp add: linked_object_def headed_def)
  moreover have "all_linked t owner os ?M"
    using assms(8) pointer_index_ge unfolding linked_object_def all_linked_def links_ok_def by fastforce
  ultimately show "linked_object t owner os M0 ?M" by (simp add: linked_object_def)
  show "all_described t owner (earlier @ [(p, d)]) ?M"
  proof (rule all_describedI)
    fix q e l
    assume q: "(q, e) \<in> set (earlier @ [(p, d)])" and l: "resolve_root t owner q = Some (l, e)"
    show "describes t owner ?M q l"
    proof (cases "location t owner l = location t owner k")
      case True
      from same_subobject [OF assms(1,2) l assms(6) True] have "l = k" "e = d" .
      with listed_path [OF assms(4), of p d q e k] assms(5,6) q l have "q = p" by auto
      with \<open>l = k\<close> show ?thesis by (simp add: describes_def del: One_nat_def)
    next
      case False
      with l assms(6) have "(q, e) \<in> set earlier" using q by auto
      with all_describedD [OF assms(9) _ l] False show ?thesis by (simp add: describes_def)
    qed
  qed
qed

lemma describe_view_runs:
  assumes "hierarchy_layout_ok t" "known t owner" "subobjects t owner = Some os" "lists_subobjects t owner os"
    and "os = earlier @ (p, d) # rest" "address_of R object = Some []" "settled n object"
    and "linked_object t owner os M0 M" "all_described t owner earlier M"
  shows "code_runs n (describe_view t owner object n (p, d)) (R, M)
    (\<lambda>M'. linked_object t owner os M0 M' \<and> all_described t owner (earlier @ [(p, d)]) M')"
proof (cases "p = []")
  case True
  have "describes t owner M [] (None, [])"
    using assms(8) by (simp add: describes_def location_def linked_object_def headed_def)
  with True assms(9) have "all_described t owner (earlier @ [(p, d)]) M"
    by (auto simp: all_described_def)
  with True assms(8) show ?thesis by (simp add: code_runs_def describe_view_def)
next
  case False
  obtain k where k: "resolve_root t owner p = Some (k, d)" using assms(4,5) by (auto simp: lists_subobjects_def)
  have "all_linked t owner earlier M" using assms(5,8) by (auto simp: linked_object_def all_linked_def)
  from emitSubobjectAddress_location [OF assms(1,2) k assms(6) linked_along_listed [OF assms(1-5) this] assms(7)]
  obtain code r n' R' where code: "emitSubobjectAddress t n object owner p = Some (code, r, n')" "n \<le> n'" "settled n' r"
      "run_code code (R, M) = Some (R', M)" "address_of R' r = Some (location t owner k)" "\<forall>s. settled n s \<longrightarrow> R' s = R s"
    by blast
  let ?R1 = "R'(temporary n' \<mapsto> Address (location t owner k @ [0]))"
  let ?R2 = "?R1(temporary (Suc n') \<mapsto> Address (location t owner k @ [1]))"
  let ?M = "described_memory M (location t owner k) (viewMetadataSymbol owner p)"
  have object: "settled n' object" "address_of R' object = Some []"
    using assms(6,7) code(2,6) address_of_same [of R' object R] settled_mono by auto
  have names: "s \<noteq> temporary n'" "s \<noteq> temporary (Suc n')" if "settled n' s" for s
    using that by (auto simp: settled_def)
  have regs: "address_of ?R1 r = Some (location t owner k)" "address_of ?R2 object = Some []"
    using code(5) object address_of_same [of ?R1 r R'] address_of_same [of ?R2 object R'] names code(3) by auto
  have object': "operand ?R2 object = Some (Address [])"
    using regs(2) by (auto simp: address_of_def split: option.splits ir_value.splits)
  have "run_code [Gep (temporary n') (cl_name d) r 0, Store (viewMetadataSymbol owner p) (temporary n'),
      Gep (temporary (Suc n')) (cl_name d) r 1, Store object (temporary (Suc n'))] (R', M) = Some (?R2, ?M)"
    using code(5) regs(1) object' by (simp add: described_memory_def)
  then have "run_code (code @ [Gep (temporary n') (cl_name d) r 0, Store (viewMetadataSymbol owner p) (temporary n'),
      Gep (temporary (Suc n')) (cl_name d) r 1, Store object (temporary (Suc n'))]) (R, M) = Some (?R2, ?M)"
    using code(4) by (simp only: run_code_append bind.bind_lunit)
  moreover have "\<forall>s. settled n s \<longrightarrow> ?R2 s = R s" using code(2,6) names settled_mono by simp
  ultimately show ?thesis
    using code(1,2) False describe_view_memory [OF assms(1-5) k False assms(8,9)]
    by (simp add: code_runs_def describe_view_def)
qed

text \<open>
  After the code has run, each pointer to a virtual base leads to its one subobject, and each
  view has its metadata and leads back to the object.
\<close>

definition object_ready :: "class_table \<Rightarrow> class_declaration \<Rightarrow> object_memory \<Rightarrow> object_memory \<Rightarrow> bool" where
  "object_ready t owner M0 M \<longleftrightarrow>
     (\<exists>os. subobjects t owner = Some os \<and> lists_subobjects t owner os \<and>
        linked_object t owner os M0 M \<and> all_described t owner os M)"

lemma link_object_runs:
  assumes "hierarchy_layout_ok t" "known t owner" "address_of R object = Some []" "settled n object"
  shows "code_runs n (link_object t owner object n) (R, M) (object_ready t owner M)"
proof -
  obtain os where os: "subobjects t owner = Some os" "lists_subobjects t owner os"
    using subobjects_listed [OF assms(1)] assms(2) by (auto simp: known_def)
  let ?M0 = "M([1] \<mapsto> Address [])" and ?R0 = "R(temporary n \<mapsto> Address [1])"
  have object: "address_of ?R0 object = Some []" "settled (Suc n) object"
    using assms(3,4) address_of_same [of ?R0 object R] settled_mono [of n object "Suc n"] by (auto simp: settled_def)
  have start: "run_code [Gep (temporary n) (cl_name owner) object 1, Store object (temporary n)] (R, M) = Some (?R0, ?M0)"
    using assms(3) object(1) by (auto simp: address_of_def split: option.splits ir_value.splits)
  have "headed M ?M0" by (simp add: headed_def)
  have keep: "address_of R' object = Some []" if "\<forall>y. settled (Suc n) y \<longrightarrow> R' y = R1 y" "address_of R1 object = Some []" for R' R1
    using that object(2) address_of_same [of R' object R1] by simp
  have "code_runs (Suc n) (emit_each (link_view t owner object) (Suc n) os) (?R0, ?M0)
      (\<lambda>M'. headed M M' \<and> all_linked t owner os M')"
  proof (rule emit_each_runs [where Q = "\<lambda>earlier M'. headed M M' \<and> all_linked t owner earlier M'"])
    fix earlier x rest n' R' M'
    assume step: "os = earlier @ x # rest" "Suc n \<le> n'" "\<forall>y. settled (Suc n) y \<longrightarrow> R' y = ?R0 y"
      "headed M M' \<and> all_linked t owner earlier M'"
    from link_view_runs [OF assms(1,2) os, of earlier "fst x" "snd x" rest R' object n' M M'] step
      keep [OF step(3) object(1)] settled_mono [OF object(2) step(2)]
    show "code_runs n' (link_view t owner object n' x) (R', M') (\<lambda>M'. headed M M' \<and> all_linked t owner (earlier @ [x]) M')"
      by simp
  qed (use \<open>headed M ?M0\<close> in \<open>simp add: all_linked_def\<close>)
  then obtain links n1 R1 M1 where links: "emit_each (link_view t owner object) (Suc n) os = Some (links, n1)" "Suc n \<le> n1"
      "run_code links (?R0, ?M0) = Some (R1, M1)" "\<forall>y. settled (Suc n) y \<longrightarrow> R1 y = ?R0 y" "linked_object t owner os M M1"
    by (auto simp: code_runs_def linked_object_def)
  have object1: "address_of R1 object = Some []" "settled n1 object"
    using keep [OF links(4) object(1)] settled_mono [OF object(2) links(2)] by auto
  have "code_runs n1 (emit_each (describe_view t owner object) n1 os) (R1, M1)
      (\<lambda>M'. linked_object t owner os M M' \<and> all_described t owner os M')"
  proof (rule emit_each_runs [where Q = "\<lambda>earlier M'. linked_object t owner os M M' \<and> all_described t owner earlier M'"])
    fix earlier x rest n' R' M'
    assume step: "os = earlier @ x # rest" "n1 \<le> n'" "\<forall>y. settled n1 y \<longrightarrow> R' y = R1 y"
      "linked_object t owner os M M' \<and> all_described t owner earlier M'"
    from describe_view_runs [OF assms(1,2) os, of earlier "fst x" "snd x" rest R' object n' M M'] step
      object1 address_of_same [of R' object R1] settled_mono [OF object1(2) step(2)]
    show "code_runs n' (describe_view t owner object n' x) (R', M')
        (\<lambda>M'. linked_object t owner os M M' \<and> all_described t owner (earlier @ [x]) M')"
      by simp
  qed (use links(5) in \<open>simp add: all_described_def\<close>)
  then obtain code n2 R2 M2 where code: "emit_each (describe_view t owner object) n1 os = Some (code, n2)" "n1 \<le> n2"
      "run_code code (R1, M1) = Some (R2, M2)" "\<forall>y. settled n1 y \<longrightarrow> R2 y = R1 y"
      "linked_object t owner os M M2" "all_described t owner os M2"
    by (auto simp: code_runs_def)
  have "run_code ([Gep (temporary n) (cl_name owner) object 1, Store object (temporary n)] @ links @ code) (R, M) = Some (R2, M2)"
    using start links(3) code(3) by (simp only: run_code_append bind.bind_lunit)
  moreover have "R2 y = R y" if "settled n y" for y
  proof -
    have "settled (Suc n) y" "settled n1 y" using settled_mono [OF that] links(2) by simp_all
    moreover have "y \<noteq> temporary n" using that by (auto simp: settled_def)
    ultimately show ?thesis using code(4) links(4) by simp
  qed
  ultimately show ?thesis
    using os code links(1,2) by (auto simp: code_runs_def link_object_def object_ready_def)
qed

subsection \<open>Addresses in a linked object\<close>

lemma object_ready_linked_along:
  assumes "object_ready t owner M0 M" "resolve_root t owner p = Some (k, d)"
  shows "linked_along t owner M d k q"
  unfolding linked_along_def
proof (intro allI impI)
  fix q1 b q2 k1 d1 j
  assume q1: "resolve t d k q1 = Some (k1, d1)" and j: "virtualBasePointerIndex t d1 b = Some j"
  obtain os where os: "lists_subobjects t owner os" "linked_object t owner os M0 M"
    using assms(1) by (auto simp: object_ready_def)
  have "resolve_root t owner (p @ q1) = Some (k1, d1)" using assms(2) q1 by (simp add: resolve_append)
  with os(1) obtain q where q: "(q, d1) \<in> set os" "resolve_root t owner q = Some (k1, d1)"
    unfolding lists_subobjects_def by blast
  from all_linkedD [of t owner os M, OF _ q] os(2) j
  show "M (location t owner k1 @ [j]) = Some (Address [the (virtualBaseStorageIndex t owner b)])"
    by (simp add: linked_object_def links_ok_def)
qed

definition computes_address ::
    "class_table \<Rightarrow> class_declaration \<Rightarrow> object_memory \<Rightarrow> string list \<Rightarrow> string list \<Rightarrow> bool" where
  "computes_address t owner M p q \<longleftrightarrow>
     (\<forall>k d R pointer temporaryPrefix. resolve_root t owner p = Some (k, d) \<longrightarrow> resolve t d k q \<noteq> None \<longrightarrow>
        address_of R pointer = Some (location t owner k) \<longrightarrow>
        (\<exists>code r R' l. subobjectAddressSequence t pointer d q temporaryPrefix = Some (code, r) \<and>
           run_code code (R, M) = Some (R', M) \<and> address_of R' r = Some l \<and>
           (\<forall>field. \<exists>m. subobjectFieldOffset t owner (p @ q) field False = Some m \<and> offset_location m = l @ [field])))"

lemma object_ready_computes:
  assumes "hierarchy_layout_ok t" "known t owner" "object_ready t owner M0 M"
  shows "computes_address t owner M p q"
  unfolding computes_address_def
proof (intro allI impI)
  fix k d R pointer temporaryPrefix
  assume p: "resolve_root t owner p = Some (k, d)" "resolve t d k q \<noteq> None" "address_of R pointer = Some (location t owner k)"
  then obtain k' e where q: "resolve t d k q = Some (k', e)" by auto
  have "resolve_root t owner (p @ q) = Some (k', e)" using p(1) q by (simp add: resolve_append)
  note offset = subobjectFieldOffset_location [OF assms(1,2) this]
  from address_steps_location [OF assms(1,2) p(1) q p(3) object_ready_linked_along [OF assms(3) p(1)]]
  obtain code r R' where "address_steps t temporaryPrefix d 0 pointer q = Some (code, r)" "run_code code (R, M) = Some (R', M)"
      "address_of R' r = Some (location t owner k')" by blast
  with offset show "\<exists>code r R' l. subobjectAddressSequence t pointer d q temporaryPrefix = Some (code, r) \<and>
      run_code code (R, M) = Some (R', M) \<and> address_of R' r = Some l \<and>
      (\<forall>field. \<exists>m. subobjectFieldOffset t owner (p @ q) field False = Some m \<and> offset_location m = l @ [field])"
    unfolding subobjectAddressSequence_def by blast
qed

text \<open>
  C8: The code a constructor call emits to link a new object runs without a fault. In the
  object it leaves, the instructions for a path of base names, from any view of the object and
  through the pointers to virtual bases, compute the address that the constant offsets of the
  class metadata describe, which is what the collector traces.
\<close>

theorem constructed_object_addresses:
  assumes "hierarchy_layout_ok t" "map_of t n = Some owner" "R (temporary m) = Some (Address [])"
  shows "\<exists>code m' R' M'. link_object t owner (temporary m) (Suc m) = Some (code, m') \<and>
    run_code code (R, M) = Some (R', M') \<and> (\<forall>p q. computes_address t owner M' p q)"
proof -
  have owner: "known t owner" using assms(2) by (auto simp: known_def)
  have "address_of R (temporary m) = Some []" "settled (Suc m) (temporary m)"
    using assms(3) settled_temporary(1) [of m "Suc m"] by simp_all
  from link_object_runs [OF assms(1) owner this, of M]
  obtain code m' R' M' where code: "link_object t owner (temporary m) (Suc m) = Some (code, m')"
      "run_code code (R, M) = Some (R', M')" "object_ready t owner M M'"
    unfolding code_runs_def by blast
  with object_ready_computes [OF assms(1) owner code(3)] show ?thesis by blast
qed

lemma diamond_layout_ok: "hierarchy_layout_ok diamond"
  using diamond_ok by (simp add: hierarchy_layout_ok_def table_ok_def) (simp add: diamond_def sample_class_def)

theorem constructed_object_addresses_witness:
  "\<exists>D code R' M'. map_of diamond ''D'' = Some D \<and>
     run_code code (Map.empty(temporary 0 \<mapsto> Address []), Map.empty) = Some (R', M') \<and> computes_address diamond D M' [''C''] [''A'']"
proof -
  obtain D where D: "map_of diamond ''D'' = Some D" by (simp add: diamond_def sample_class_def)
  from constructed_object_addresses [OF diamond_layout_ok D, of "Map.empty(temporary 0 \<mapsto> Address [])" 0 Map.empty]
  obtain code R' M' where "run_code code (Map.empty(temporary 0 \<mapsto> Address []), Map.empty) = Some (R', M')"
      "\<forall>p q. computes_address diamond D M' p q" by auto
  with D show ?thesis by blast
qed

end
