(* ===== verification/Dispatch.thy ===== *)
theory Dispatch
  imports Object_Construction Class_Validity
begin

text \<open>
  Method dispatch (\<open>src/CodeGeneratorDispatch.cpp\<close>, \<open>emitClassMethods\<close> and
  \<open>emitClassTypesAndMetadata\<close> in \<open>src/CodeGeneratorModule.cpp\<close>): a class has a slot for each
  method and set of parameter types, and each view of an object has a table with a thunk for each
  slot of its class. A call loads the thunk from the table that the metadata in the view refers to. The
  thunk goes from the view to the object and from there to the subobject of the class that
  implements the method. The last part is about overrides that the checks and the dispatch see differently.
\<close>

subsection \<open>Slots\<close>

definition dispatched :: "method_declaration \<Rightarrow> bool" where
  "dispatched m \<longleftrightarrow> \<not> me_constructor m \<and> \<not> me_destructor m"

definition same_slot :: "method_declaration \<Rightarrow> method_declaration \<Rightarrow> bool" where
  "same_slot m n \<longleftrightarrow> me_name m = me_name n \<and> sameParameterTypes m n"

fun add_slot :: "method_declaration \<Rightarrow> method_declaration list \<Rightarrow> method_declaration list" where
  "add_slot m [] = [m]"
| "add_slot m (c # slots) = (if same_slot c m then m # slots else c # add_slot m slots)"

fun slot_visit :: "class_table \<Rightarrow> nat \<Rightarrow> class_declaration \<Rightarrow> method_declaration list \<Rightarrow> method_declaration list option"
  and slot_bases :: "class_table \<Rightarrow> nat \<Rightarrow> string list \<Rightarrow> method_declaration list \<Rightarrow> method_declaration list option"
  where
  "slot_visit t 0 c slots = None"
| "slot_visit t (Suc fuel) c slots =
     map_option (fold add_slot (filter dispatched (cl_methods c))) (slot_bases t fuel (cl_baseClassNames c) slots)"
| "slot_bases t fuel [] slots = Some slots"
| "slot_bases t fuel (b # bs) slots =
     (case map_of t b of
        None \<Rightarrow> slot_bases t fuel bs slots
      | Some base \<Rightarrow> Option.bind (slot_visit t fuel base slots) (slot_bases t fuel bs))"

definition methodSlots :: "class_table \<Rightarrow> class_declaration \<Rightarrow> method_declaration list option" where
  "methodSlots t c = slot_visit t (depth_of t) c []"

fun first_index :: "('a \<Rightarrow> bool) \<Rightarrow> 'a list \<Rightarrow> nat option" where
  "first_index P [] = None"
| "first_index P (x # xs) = (if P x then Some 0 else map_option Suc (first_index P xs))"

text \<open>\<open>None\<close> stands for the \<open>logic_error\<close>, too.\<close>

definition methodSlot :: "class_table \<Rightarrow> class_declaration \<Rightarrow> string \<Rightarrow> string \<Rightarrow> nat option" where
  "methodSlot t c name signature =
     Option.bind (methodSlots t c)
       (first_index (\<lambda>m. me_name m = name \<and> (signature = [] \<or> methodSignatureKey m = signature)))"

subsection \<open>Thunks\<close>

definition subobjectTag :: "string list \<Rightarrow> string" where
  "subobjectTag path = (if path = [] then ''root'' else ''p'' @ join_with ''_'' path)"

definition methodTableName :: "class_declaration \<Rightarrow> string list \<Rightarrow> string" where
  "methodTableName owner path =
     ''@.cw.method.table.'' @ cl_name owner @ (if path = [] then [] else ''.'' @ subobjectTag path)"

definition viewMetadataName :: "class_declaration \<Rightarrow> string list \<Rightarrow> string" where
  "viewMetadataName owner path =
     (if cl_builtin owner \<and> path = [] then ''@cwhip_exception_class_meta''
      else if cl_name owner = ''String'' \<and> path = [] then ''@cwhip_string_class_meta''
      else if path = [] then ''@.cw.class.meta.'' @ cl_name owner
      else ''@.cw.view.meta.'' @ cl_name owner @ ''.'' @ subobjectTag path)"

definition thunkName :: "class_declaration \<Rightarrow> string list \<Rightarrow> nat \<Rightarrow> string" where
  "thunkName owner path slotIndex =
     ''@cwhip.thunk.'' @ cl_name owner @ ''.'' @ subobjectTag path @ ''.'' @ to_string slotIndex"

definition methodSymbol :: "string \<Rightarrow> method_declaration \<Rightarrow> string" where
  "methodSymbol className m =
     ''@cwhip.'' @ className @ ''.'' @ me_name m @ (if me_destructor m then [] else mangleParameters (me_parameters m))"

text \<open>The classes that may implement a slot: the object, those on the path to the view, those below it.\<close>

fun path_candidates :: "class_table \<Rightarrow> string list \<Rightarrow> string list \<Rightarrow> (class_declaration \<times> string list) list option" where
  "path_candidates t path [] = Some []"
| "path_candidates t path (b # bs) =
     Option.bind (map_of t b) (\<lambda>c.
       map_option (\<lambda>cs. (c, path @ [b]) # cs) (path_candidates t (path @ [b]) bs))"

definition candidates ::
    "class_table \<Rightarrow> class_declaration \<Rightarrow> string list \<times> class_declaration \<Rightarrow> (class_declaration \<times> string list) list option" where
  "candidates t dynamicOwner view =
     Option.bind (path_candidates t [] (fst view)) (\<lambda>above.
     map_option (\<lambda>nested.
       (dynamicOwner, []) # above @
         filter (\<lambda>c. snd c \<noteq> []) (map (\<lambda>(path, c). (c, fst view @ path)) nested))
       (subobjects t (snd view)))"

definition implements_slot :: "method_declaration \<Rightarrow> method_declaration \<Rightarrow> bool" where
  "implements_slot slot m \<longleftrightarrow> me_name m = me_name slot \<and> sameParameterTypes m slot \<and> dispatched m"

fun find_implementation ::
    "method_declaration \<Rightarrow> (class_declaration \<times> string list) list \<Rightarrow> (method_declaration \<times> class_declaration \<times> string list) option" where
  "find_implementation slot [] = None"
| "find_implementation slot ((c, path) # cs) =
     (case List.find (implements_slot slot) (cl_methods c) of
        Some m \<Rightarrow> Some (m, c, path)
      | None \<Rightarrow> find_implementation slot cs)"

record thunk =
  th_name :: string
  th_code :: "ir_instruction list"
  th_target :: string

text \<open>\<open>Some None\<close>: no class implements the slot, and no thunk is emitted.\<close>

definition implementation ::
    "class_table \<Rightarrow> class_declaration \<Rightarrow> string list \<times> class_declaration \<Rightarrow> nat \<Rightarrow>
      (method_declaration \<times> class_declaration \<times> string list) option option" where
  "implementation t dynamicOwner view slotIndex =
     Option.bind (methodSlots t (snd view)) (\<lambda>slots.
       map_option (find_implementation (slots ! slotIndex)) (candidates t dynamicOwner view))"

definition emit_thunk ::
    "class_table \<Rightarrow> class_declaration \<Rightarrow> string list \<times> class_declaration \<Rightarrow> nat \<Rightarrow> thunk option option" where
  "emit_thunk t dynamicOwner view slotIndex =
     Option.bind (implementation t dynamicOwner view slotIndex) (\<lambda>found.
       case found of
         None \<Rightarrow> Some None
       | Some (m, c, path) \<Rightarrow>
           map_option (\<lambda>(code, address).
             Some \<lparr>th_name = thunkName dynamicOwner (fst view) slotIndex,
               th_code = [Gep ''%root.addr'' (cl_name (snd view)) ''%this'' 1, Load ''%root'' ''%root.addr''] @ code @
                 [Same ''%impl.this'' address],
               th_target = methodSymbol (cl_name c) m\<rparr>)
             (if path = [] then Some ([], ''%root'')
              else subobjectAddressSequence t ''%root'' dynamicOwner path ''impl''))"

text \<open>The table of a view in the metadata: the names of the methods and of their thunks.\<close>

definition method_table ::
    "class_table \<Rightarrow> class_declaration \<Rightarrow> string list \<times> class_declaration \<Rightarrow> (string \<times> string) list option" where
  "method_table t owner view =
     map_option (\<lambda>slots. map (\<lambda>i. (me_name (slots ! i), thunkName owner (fst view) i)) [0..<length slots])
       (methodSlots t (snd view))"

subsection \<open>The constants of a module and the code of a call\<close>

text \<open>\<open>None\<close> if one of the lists is.\<close>

fun collect_some :: "('a \<Rightarrow> 'b list option) \<Rightarrow> 'a list \<Rightarrow> 'b list option" where
  "collect_some f [] = Some []"
| "collect_some f (x # xs) = Option.bind (f x) (\<lambda>ys. map_option (\<lambda>zs. ys @ zs) (collect_some f xs))"

text \<open>
  Of the metadata of a view, its symbol and the field of its method table, which is null if the
  class of the view has no slots; each table with its symbol.
\<close>

definition view_metadata ::
    "class_table \<Rightarrow> class_declaration \<Rightarrow> string list \<times> class_declaration \<Rightarrow> (string \<times> string option) list option" where
  "view_metadata t owner view =
     map_option (\<lambda>slots. [(viewMetadataName owner (fst view),
         if slots = [] then None else Some (methodTableName owner (fst view)))])
       (methodSlots t (snd view))"

definition view_table ::
    "class_table \<Rightarrow> class_declaration \<Rightarrow> string list \<times> class_declaration \<Rightarrow> (string \<times> (string \<times> string) list) list option" where
  "view_table t owner view =
     map_option (\<lambda>table. if table = [] then [] else [(methodTableName owner (fst view), table)]) (method_table t owner view)"

definition view_thunks ::
    "class_table \<Rightarrow> class_declaration \<Rightarrow> string list \<times> class_declaration \<Rightarrow> thunk list option" where
  "view_thunks t owner view =
     Option.bind (methodSlots t (snd view)) (\<lambda>slots.
       collect_some (\<lambda>i. map_option (\<lambda>th. case th of None \<Rightarrow> [] | Some th \<Rightarrow> [th]) (emit_thunk t owner view i)) [0..<length slots])"

record module_constants =
  mc_metadata :: "(string \<times> string option) list"
  mc_tables :: "(string \<times> (string \<times> string) list) list"
  mc_thunks :: "thunk list"

definition of_views :: "class_table \<Rightarrow> (class_declaration \<Rightarrow> string list \<times> class_declaration \<Rightarrow> 'b list option) \<Rightarrow> class_declaration \<Rightarrow> 'b list option" where
  "of_views t f owner = Option.bind (subobjects t owner) (collect_some (f owner))"

definition emit_module :: "class_table \<Rightarrow> class_declaration list \<Rightarrow> module_constants option" where
  "emit_module t classes =
     (let described = filter (\<lambda>c. \<not> cl_builtin c) classes in
      Option.bind (collect_some (of_views t (view_metadata t)) described) (\<lambda>metadata.
      Option.bind (collect_some (of_views t (view_table t)) described) (\<lambda>tables.
      map_option (\<lambda>thunks. \<lparr>mc_metadata = metadata, mc_tables = tables, mc_thunks = thunks\<rparr>)
        (collect_some (of_views t (view_thunks t)) classes))))"

text \<open>The argument of the allocation of an object, which stores it in the first field.\<close>

definition classMetadataSymbol :: "class_table \<Rightarrow> string \<Rightarrow> string" where
  "classMetadataSymbol t className =
     (if className = ''String'' then ''@cwhip_string_class_meta''
      else if (case map_of t className of None \<Rightarrow> False | Some c \<Rightarrow> cl_builtin c) then ''@cwhip_exception_class_meta''
      else ''@.cw.class.meta.'' @ className)"

text \<open>A module that defines a symbol twice is refused.\<close>

definition symbols_distinct :: "module_constants \<Rightarrow> bool" where
  "symbols_distinct C \<longleftrightarrow> distinct (map fst (mc_metadata C)) \<and> distinct (map fst (mc_tables C)) \<and>
     distinct (map th_name (mc_thunks C))"

text \<open>
  The instructions before a call: loads, and addresses within the constants of the types
  \<open>%CwhipClassMeta\<close> (a field) and \<open>%CwhipMethodMeta\<close> (an entry, a field of an entry).
\<close>

datatype call_instruction =
    Load_pointer string string  \<comment> \<open>result, pointer\<close>
  | Class_field string string nat  \<comment> \<open>result, metadata, field\<close>
  | Method_entry string string nat  \<comment> \<open>result, table, index\<close>
  | Method_field string string nat  \<comment> \<open>result, entry, field\<close>

definition emitMethodCode ::
    "class_table \<Rightarrow> nat \<Rightarrow> string \<Rightarrow> class_declaration \<Rightarrow> string \<Rightarrow> string \<Rightarrow> (call_instruction list \<times> string \<times> nat) option" where
  "emitMethodCode t n receiver owner name signature =
     map_option (\<lambda>slot.
       let metadata = temporary n; tableAddress = temporary (n + 1); table = temporary (n + 2);
           entry = temporary (n + 3); functionAddress = temporary (n + 4); function = temporary (n + 5)
       in ([Load_pointer metadata receiver,
            Class_field tableAddress metadata 3,
            Load_pointer table tableAddress,
            Method_entry entry table slot,
            Method_field functionAddress entry 2,
            Load_pointer function functionAddress], function, n + 6))
       (methodSlot t owner name signature)"

text \<open>
  A pointer to a subobject, or to a constant or a function, with the indices of a place in it. A load through the
  address of a subobject reads its first field, the metadata.
\<close>

datatype pointer = Object_place "nat list" | Constant string "nat list"

fun pointer_of :: "ir_value \<Rightarrow> pointer" where
  "pointer_of (Address l) = Object_place l"
| "pointer_of (Symbol x) = Constant x []"

fun read_pointer :: "module_constants \<Rightarrow> object_memory \<Rightarrow> pointer \<Rightarrow> pointer option" where
  "read_pointer C M (Object_place l) = map_option pointer_of (M (l @ [0]))"
| "read_pointer C M (Constant x [field]) =
     (if field = 3 then Option.bind (map_of (mc_metadata C) x) (map_option (\<lambda>table. Constant table [])) else None)"
| "read_pointer C M (Constant x [index, field]) =
     (if field = 2 then
        Option.bind (map_of (mc_tables C) x) (\<lambda>entries.
          if index < length entries then Some (Constant (snd (entries ! index)) []) else None)
      else None)"
| "read_pointer C M (Constant x place) = None"

fun within :: "nat \<Rightarrow> pointer \<Rightarrow> pointer option" where
  "within i (Constant x place) = Some (Constant x (place @ [i]))"
| "within i (Object_place l) = None"

fun run_call_instruction ::
    "module_constants \<Rightarrow> object_memory \<Rightarrow> call_instruction \<Rightarrow> (string \<rightharpoonup> pointer) \<Rightarrow> (string \<rightharpoonup> pointer) option" where
  "run_call_instruction C M (Load_pointer r p) R = map_option (\<lambda>v. R(r \<mapsto> v)) (Option.bind (R p) (read_pointer C M))"
| "run_call_instruction C M (Class_field r p i) R = map_option (\<lambda>v. R(r \<mapsto> v)) (Option.bind (R p) (within i))"
| "run_call_instruction C M (Method_entry r p i) R = map_option (\<lambda>v. R(r \<mapsto> v)) (Option.bind (R p) (within i))"
| "run_call_instruction C M (Method_field r p i) R = map_option (\<lambda>v. R(r \<mapsto> v)) (Option.bind (R p) (within i))"

fun run_call :: "module_constants \<Rightarrow> object_memory \<Rightarrow> call_instruction list \<Rightarrow> (string \<rightharpoonup> pointer) \<Rightarrow> (string \<rightharpoonup> pointer) option" where
  "run_call C M [] R = Some R"
| "run_call C M (i # is) R = Option.bind (run_call_instruction C M i R) (run_call C M is)"

subsection \<open>The slots hold methods of the class and its ancestors\<close>

lemma add_slot_set: "set (add_slot m slots) \<subseteq> insert m (set slots)"
  by (induction m slots rule: add_slot.induct) auto

lemma fold_add_slot_set: "set (fold add_slot ms slots) \<subseteq> set ms \<union> set slots"
proof (induction ms arbitrary: slots)
  case (Cons m ms)
  with add_slot_set [of m slots] show ?case by fastforce
qed simp

definition method_below :: "class_table \<Rightarrow> class_declaration \<Rightarrow> method_declaration \<Rightarrow> bool" where
  "method_below t c m \<longleftrightarrow> dispatched m \<and> (\<exists>q k e. resolve_root t c q = Some (k, e) \<and> m \<in> set (cl_methods e))"

lemma method_below_base:
  assumes "hierarchy_layout_ok t" "known t c" "b \<in> set (cl_baseClassNames c)" "map_of t b = Some d" "method_below t d m"
  shows "method_below t c m"
proof -
  obtain q k e where q: "resolve_root t d q = Some (k, e)" "m \<in> set (cl_methods e)" "dispatched m"
    using assms(5) by (auto simp: method_below_def)
  from assms(3) have "b \<in> fst ` set (direct_bases c)"
    using direct_bases_names [OF assms(1,2)] by (metis list.set_map)
  then obtain v where "(b, v) \<in> set (direct_bases c)" by auto
  then have "map_of (direct_bases c) b = Some v" using direct_bases_map_of [OF assms(1,2)] by blast
  with assms(4) resolve_other_id [OF q(1), of "enter_base (None, []) b v"] obtain l where
    "resolve_root t c (b # q) = Some (l, e)" by auto
  with q(2,3) show ?thesis unfolding method_below_def by blast
qed

lemma slot_visit_methods:
  "slot_visit t fuel c slots = Some slots' \<Longrightarrow> hierarchy_layout_ok t \<Longrightarrow> known t c \<Longrightarrow> m \<in> set slots' \<Longrightarrow>
     m \<in> set slots \<or> method_below t c m"
  "slot_bases t fuel bs slots = Some slots' \<Longrightarrow> hierarchy_layout_ok t \<Longrightarrow> known t c \<Longrightarrow> set bs \<subseteq> set (cl_baseClassNames c) \<Longrightarrow>
     m \<in> set slots' \<Longrightarrow> m \<in> set slots \<or> method_below t c m"
proof (induction t fuel c slots and t fuel bs slots arbitrary: m slots' and m c slots' rule: slot_visit_slot_bases.induct)
  case (2 t fuel c slots)
  then obtain mid where mid: "slot_bases t fuel (cl_baseClassNames c) slots = Some mid"
      "slots' = fold add_slot (filter dispatched (cl_methods c)) mid" by auto
  with 2(5) fold_add_slot_set have "m \<in> set (filter dispatched (cl_methods c)) \<union> set mid" by blast
  then show ?case
  proof
    assume "m \<in> set (filter dispatched (cl_methods c))"
    then show ?thesis unfolding method_below_def by (intro disjI2 conjI exI [of _ "[]"]) auto
  next
    assume "m \<in> set mid"
    from 2(1) [OF mid(1) 2(3,4) _ this] show ?thesis by simp
  qed
next
  case (4 t fuel b bs slots)
  show ?case
  proof (cases "map_of t b")
    case None
    with 4 show ?thesis by auto
  next
    case (Some base)
    then obtain mid where mid: "slot_visit t fuel base slots = Some mid" "slot_bases t fuel bs mid = Some slots'"
      using 4(4) by (auto simp: bind_eq_Some_conv)
    have "known t base" using Some by (auto simp: known_def)
    from 4(3) [OF Some mid 4(5,6) _ 4(8)] 4(7) have "m \<in> set mid \<or> method_below t c m" by simp
    moreover have "m \<in> set mid \<Longrightarrow> m \<in> set slots \<or> method_below t base m"
      using 4(2) [OF Some mid(1) 4(5) \<open>known t base\<close>] .
    ultimately show ?thesis using method_below_base [OF 4(5,6) _ Some] 4(7) by auto
  qed
qed auto

lemma methodSlots_below:
  "methodSlots t c = Some slots \<Longrightarrow> hierarchy_layout_ok t \<Longrightarrow> known t c \<Longrightarrow> m \<in> set slots \<Longrightarrow> method_below t c m"
  using slot_visit_methods(1) [of t "depth_of t" c "[]" slots m] by (simp add: methodSlots_def)

interpretation slot: class_walk t "slot_visit t" for t
proof
  have "walks_on t (slot_visit t fuel) bs \<Longrightarrow> defined (slot_bases t fuel bs slots)" for fuel bs slots
    by (induction bs arbitrary: slots) (auto intro!: defined_bind split: option.splits)
  then show "hierarchy_ok t \<Longrightarrow> walks_on t (slot_visit t fuel) (cl_baseClassNames c) \<Longrightarrow>
      defined (slot_visit t (Suc fuel) c slots)" for fuel c slots by simp
qed

subsection \<open>Every slot is implemented\<close>

lemma path_candidates_valid:
  assumes "hierarchy_layout_ok t" "known t owner"
  shows "resolve_root t owner p = Some (k, d) \<Longrightarrow> resolve t d k q \<noteq> None \<Longrightarrow>
    \<exists>cs. path_candidates t p q = Some cs \<and> (\<forall>(c, path) \<in> set cs. \<exists>l. resolve_root t owner path = Some (l, c))"
proof (induction q arbitrary: p k d)
  case (Cons b q)
  then obtain v base where b: "map_of (direct_bases d) b = Some v" "map_of t b = Some base"
      "resolve t base (enter_base k b v) q \<noteq> None" by (auto split: option.splits)
  have path: "resolve_root t owner (p @ [b]) = Some (enter_base k b v, base)"
    using resolve_snoc [OF Cons.prems(1) assms _ b(2)] b(1) by (simp add: map_of_SomeD)
  from Cons.IH [OF path b(3)] b(2) path show ?case by auto
qed simp

lemma candidates_valid:
  assumes "hierarchy_layout_ok t" "known t owner" "resolve_root t owner p = Some (k, d)"
  obtains cs where "candidates t owner (p, d) = Some cs"
    "\<forall>(c, path) \<in> set cs. \<exists>l. resolve_root t owner path = Some (l, c)"
    "\<forall>q l e. resolve_root t d q = Some (l, e) \<longrightarrow> e \<in> fst ` set cs"
proof -
  have d: "known t d" using resolve_known [OF assms(3,2)] .
  then obtain n where n: "map_of t n = Some d" by (auto simp: known_def)
  obtain nested where nested: "subobjects t d = Some nested" "lists_subobjects t d nested"
    using subobjects_listed [OF assms(1) n] by blast
  obtain above where above: "path_candidates t [] p = Some above"
      "\<And>c path. (c, path) \<in> set above \<Longrightarrow> \<exists>l. resolve_root t owner path = Some (l, c)"
  proof -
    have "\<exists>cs. path_candidates t [] p = Some cs \<and> (\<forall>(c, path) \<in> set cs. \<exists>l. resolve_root t owner path = Some (l, c))"
      using path_candidates_valid [OF assms(1,2), of "[]" "(None, [])" owner p] assms(3) by simp
    then show thesis using that by blast
  qed
  let ?cs = "(owner, []) # above @ filter (\<lambda>c. snd c \<noteq> []) (map (\<lambda>(path, c). (c, p @ path)) nested)"
  have "candidates t owner (p, d) = Some ?cs" using nested(1) above(1) by (simp add: candidates_def)
  moreover have "\<exists>l. resolve_root t owner path = Some (l, c)" if "(c, path) \<in> set ?cs" for c path
  proof -
    from that consider "c = owner" "path = []" | "(c, path) \<in> set above" | q where "(q, c) \<in> set nested" "path = p @ q" by auto
    then show ?thesis
    proof cases
      case 3
      with nested(2) obtain l where "resolve_root t d q = Some (l, c)" unfolding lists_subobjects_def by blast
      with resolve_other_id [OF this, of k] assms(3) 3(2) show ?thesis by (auto simp: resolve_append)
    qed (use above(2) in auto)
  qed
  moreover have "e \<in> fst ` set ?cs" if "resolve_root t d q = Some (l, e)" for q l e
  proof -
    from that nested(2) obtain r where r: "(r, e) \<in> set nested" "resolve_root t d r = Some (l, e)"
      unfolding lists_subobjects_def by blast
    show ?thesis
    proof (cases "p @ r = []")
      case True
      with r(2) assms(3) show ?thesis by simp
    next
      case False
      then have "(e, p @ r) \<in> set ?cs" using r(1) by force
      then show ?thesis by force
    qed
  qed
  ultimately show thesis using that by blast
qed

lemma find_implementation_Some:
  "find_implementation slot cs = Some (m, c, path) \<Longrightarrow>
     (c, path) \<in> set cs \<and> m \<in> set (cl_methods c) \<and> implements_slot slot m"
  by (induction slot cs rule: find_implementation.induct) (auto split: option.splits simp: find_Some_iff)

lemma find_implementation_exists:
  "(c, path) \<in> set cs \<Longrightarrow> m \<in> set (cl_methods c) \<Longrightarrow> implements_slot slot m \<Longrightarrow> \<exists>r. find_implementation slot cs = Some r"
  by (induction slot cs rule: find_implementation.induct) (auto split: option.splits simp: find_None_iff)

lemma find_implementation_own:
  "m \<in> set (cl_methods c) \<Longrightarrow> implements_slot slot m \<Longrightarrow> \<exists>m'. find_implementation slot ((c, path) # cs) = Some (m', c, path)"
  by (auto split: option.splits simp: find_None_iff)

lemma implements_slot_refl: "dispatched m \<Longrightarrow> implements_slot m m"
  by (simp add: implements_slot_def sameParameterTypes_iff)

lemma implementation_exists:
  assumes "hierarchy_layout_ok t" "known t owner" "resolve_root t owner p = Some (k, d)" "methodSlots t d = Some slots" "i < length slots"
  obtains m c path l where "implementation t owner (p, d) i = Some (Some (m, c, path))" "m \<in> set (cl_methods c)"
    "implements_slot (slots ! i) m" "resolve_root t owner path = Some (l, c)"
proof -
  obtain cs where cs: "candidates t owner (p, d) = Some cs"
      "\<forall>(c, path) \<in> set cs. \<exists>l. resolve_root t owner path = Some (l, c)"
      "\<forall>q l e. resolve_root t d q = Some (l, e) \<longrightarrow> e \<in> fst ` set cs"
    by (rule candidates_valid [OF assms(1-3)])
  have "method_below t d (slots ! i)"
    using methodSlots_below [OF assms(4,1) resolve_known [OF assms(3,2)]] assms(5) by simp
  then obtain q l e where slot: "resolve_root t d q = Some (l, e)" "slots ! i \<in> set (cl_methods e)" "dispatched (slots ! i)"
    unfolding method_below_def by blast
  with cs(3) obtain path where "(e, path) \<in> set cs" by fastforce
  from find_implementation_exists [OF this slot(2) implements_slot_refl [OF slot(3)]]
  obtain m c path' where found: "find_implementation (slots ! i) cs = Some (m, c, path')" by (metis prod_cases3)
  with find_implementation_Some [OF found] cs(1,2) assms(4) that show thesis by (auto simp: implementation_def)
qed

subsection \<open>The thunk\<close>

lemma thunk_receiver:
  assumes "hierarchy_layout_ok t" "known t owner" "object_ready t owner M0 M" "resolve_root t owner p = Some (k, d)"
    and "implementation t owner (p, d) i = Some (Some (m, c, path))" "resolve_root t owner path = Some (l, c)"
    and "R ''%this'' = Some (Address (location t owner k))"
  shows "\<exists>th R'. emit_thunk t owner (p, d) i = Some (Some th) \<and> th_name th = thunkName owner p i \<and>
    th_target th = methodSymbol (cl_name c) m \<and> run_code (th_code th) (R, M) = Some (R', M) \<and>
    R' ''%impl.this'' = Some (Address (location t owner l))"
proof -
  obtain os where os: "lists_subobjects t owner os" "all_described t owner os M"
    using assms(3) by (auto simp: object_ready_def)
  then obtain q where "(q, d) \<in> set os" "resolve_root t owner q = Some (k, d)"
    using assms(4) unfolding lists_subobjects_def by blast
  from all_describedD [OF os(2) this] have link: "M (location t owner k @ [1]) = Some (Address [])"
    by (simp add: describes_def)
  let ?R = "R(''%root.addr'' \<mapsto> Address (location t owner k @ [1]), ''%root'' \<mapsto> Address [])"
  have start: "run_code [Gep ''%root.addr'' (cl_name d) ''%this'' 1, Load ''%root'' ''%root.addr''] (R, M) = Some (?R, M)"
    using assms(7) link by (simp add: address_of_def)
  have root: "address_of ?R ''%root'' = Some (location t owner (None, []))" by (simp add: address_of_def location_def)
  have address: "\<exists>code r R'. (if path = [] then Some ([], ''%root'')
      else subobjectAddressSequence t ''%root'' owner path ''impl'') = Some (code, r) \<and>
      run_code code (?R, M) = Some (R', M) \<and> address_of R' r = Some (location t owner l)"
  proof (cases "path = []")
    case True
    with assms(6) root show ?thesis by auto
  next
    case False
    have "linked_along t owner M owner (None, []) path" by (rule object_ready_linked_along [OF assms(3), of "[]"]) simp
    from address_steps_location [OF assms(1,2) _ assms(6) root this, of "[]" "''impl''" 0]
    show ?thesis using False unfolding subobjectAddressSequence_def by auto
  qed
  then obtain code r R' where code: "(if path = [] then Some ([], ''%root'')
      else subobjectAddressSequence t ''%root'' owner path ''impl'') = Some (code, r)"
      "run_code code (?R, M) = Some (R', M)" "address_of R' r = Some (location t owner l)" by blast
  have "run_code [Same ''%impl.this'' r] (R', M) = Some (R'(''%impl.this'' \<mapsto> Address (location t owner l)), M)"
    using code(3) by simp
  with start code(2) have "run_code ([Gep ''%root.addr'' (cl_name d) ''%this'' 1, Load ''%root'' ''%root.addr''] @ code @
      [Same ''%impl.this'' r]) (R, M) = Some (R'(''%impl.this'' \<mapsto> Address (location t owner l)), M)"
    by (simp only: run_code_append bind.bind_lunit)
  with code(1) assms(5) show ?thesis by (simp add: emit_thunk_def)
qed

text \<open>A method of the class of the object comes first.\<close>

lemma implementation_own:
  assumes "implementation t owner (p, d) i = Some (Some (m, c, path))" "methodSlots t d = Some slots"
    and "m' \<in> set (cl_methods owner)" "implements_slot (slots ! i) m'"
  shows "c = owner \<and> path = []"
proof -
  obtain cs where "find_implementation (slots ! i) ((owner, []) # cs) = Some (m, c, path)"
    using assms(1,2) by (auto simp: implementation_def candidates_def bind_eq_Some_conv)
  with find_implementation_own [OF assms(3,4), of "[]" cs] show ?thesis by auto
qed

lemma first_index_Some: "first_index P xs = Some i \<Longrightarrow> i < length xs \<and> P (xs ! i)"
  by (induction P xs arbitrary: i rule: first_index.induct) (auto split: if_splits)

subsection \<open>The call\<close>

lemma collect_some_mem:
  "collect_some f xs = Some ys \<Longrightarrow> x \<in> set xs \<Longrightarrow> \<exists>zs. f x = Some zs \<and> set zs \<subseteq> set ys"
proof (induction xs arbitrary: ys)
  case (Cons y xs)
  then obtain us vs where us: "f y = Some us" "collect_some f xs = Some vs" "ys = us @ vs" by (auto simp: bind_eq_Some_conv)
  show ?case
  proof (cases "x = y")
    case False
    with Cons.IH [OF us(2)] Cons.prems(2) us(3) show ?thesis by auto
  qed (use us in simp)
qed simp

lemma collect_some_defined: "(\<And>x. x \<in> set xs \<Longrightarrow> \<exists>ys. f x = Some ys) \<Longrightarrow> \<exists>ys. collect_some f xs = Some ys"
proof (induction xs)
  case (Cons x xs)
  have "\<exists>y. f x = Some y" "\<exists>ys. collect_some f xs = Some ys"
    using Cons.prems Cons.IH by simp_all
  then show ?case by auto
qed simp

lemma of_views_mem:
  assumes "collect_some (of_views t f) classes = Some xs" "owner \<in> set classes" "subobjects t owner = Some os" "view \<in> set os"
  shows "\<exists>ys. f owner view = Some ys \<and> set ys \<subseteq> set xs"
proof -
  from collect_some_mem [OF assms(1,2)] assms(3) obtain zs where
      "collect_some (f owner) os = Some zs" "set zs \<subseteq> set xs" by (auto simp: of_views_def)
  with collect_some_mem [OF _ assms(4)] show ?thesis by blast
qed

lemma methodSlots_defined: "hierarchy_layout_ok t \<Longrightarrow> \<exists>slots. methodSlots t c = Some slots"
  using slot.walk_total [of t c "[]"] by (auto simp: methodSlots_def defined_def hierarchy_layout_ok_def)

lemma emit_thunk_exists:
  assumes "hierarchy_layout_ok t" "known t owner" "resolve_root t owner p = Some (k, d)" "methodSlots t d = Some slots" "i < length slots"
  shows "\<exists>th. emit_thunk t owner (p, d) i = Some (Some th)"
proof -
  let ?R = "Map.empty(temporary 0 \<mapsto> Address [])"
  have object: "address_of ?R (temporary 0) = Some []" "settled 1 (temporary 0)"
    using settled_temporary(1) [of 0 1] by simp_all
  from link_object_runs [OF assms(1,2) object] obtain M where ready: "object_ready t owner Map.empty M"
    by (auto simp: code_runs_def)
  obtain m c path l where "implementation t owner (p, d) i = Some (Some (m, c, path))" "resolve_root t owner path = Some (l, c)"
    by (rule implementation_exists [OF assms])
  from thunk_receiver [where R = "Map.empty(''%this'' \<mapsto> Address (location t owner k))", OF assms(1,2) ready assms(3) this]
  show ?thesis by auto
qed

text \<open>The constants of every view of every class are emitted.\<close>

lemma emit_module_exists:
  assumes "hierarchy_layout_ok t" "\<forall>c \<in> set classes. known t c"
  shows "\<exists>C. emit_module t classes = Some C"
proof -
  have views: "\<exists>xs. collect_some (of_views t f) cs = Some xs"
    if "set cs \<subseteq> set classes"
      "\<And>owner p d k. known t owner \<Longrightarrow> resolve_root t owner p = Some (k, d) \<Longrightarrow> \<exists>ys. f owner (p, d) = Some ys"
    for cs and f :: "class_declaration \<Rightarrow> string list \<times> class_declaration \<Rightarrow> 'b list option"
  proof (rule collect_some_defined)
    fix c assume "c \<in> set cs"
    then have c: "known t c" using that(1) assms(2) by blast
    then obtain os where os: "subobjects t c = Some os" "lists_subobjects t c os"
      using subobjects_listed [OF assms(1)] by (auto simp: known_def)
    have "\<exists>ys. collect_some (f c) os = Some ys"
    proof (rule collect_some_defined)
      fix view assume view: "view \<in> set os"
      obtain p d where pd: "view = (p, d)" by fastforce
      with view os(2) obtain k where "resolve_root t c p = Some (k, d)" unfolding lists_subobjects_def by blast
      with that(2) [OF c] pd show "\<exists>ys. f c view = Some ys" by simp
    qed
    with os(1) show "\<exists>ys. of_views t f c = Some ys" by (simp add: of_views_def)
  qed
  let ?described = "filter (\<lambda>c. \<not> cl_builtin c) classes"
  note slots = methodSlots_defined [OF assms(1)]
  have "\<exists>ys. view_metadata t owner (p, d) = Some ys" "\<exists>ys. view_table t owner (p, d) = Some ys" for owner p d
    using slots [of d] by (auto simp: view_metadata_def view_table_def method_table_def)
  note defined = this
  have thunks: "\<exists>ys. view_thunks t owner (p, d) = Some ys"
    if "known t owner" "resolve_root t owner p = Some (k, d)" for owner p k d
  proof -
    obtain ss where ss: "methodSlots t d = Some ss" using slots by blast
    have "\<exists>ys. map_option (\<lambda>th. case th of None \<Rightarrow> [] | Some th \<Rightarrow> [th]) (emit_thunk t owner (p, d) i) = Some ys"
      if "i \<in> set [0..<length ss]" for i
      using emit_thunk_exists [OF assms(1) \<open>known t owner\<close> \<open>resolve_root t owner p = Some (k, d)\<close> ss, of i] that by auto
    then have "\<exists>ys. collect_some (\<lambda>i. map_option (\<lambda>th. case th of None \<Rightarrow> [] | Some th \<Rightarrow> [th]) (emit_thunk t owner (p, d) i))
        [0..<length ss] = Some ys" by (rule collect_some_defined)
    with ss show ?thesis by (simp add: view_thunks_def)
  qed
  from views [of ?described "view_metadata t"] views [of ?described "view_table t"] views [of classes "view_thunks t"] defined thunks
  obtain a b c where "collect_some (of_views t (view_metadata t)) ?described = Some a"
      "collect_some (of_views t (view_table t)) ?described = Some b"
      "collect_some (of_views t (view_thunks t)) classes = Some c" by (auto 4 4)
  then show ?thesis by (simp add: emit_module_def Let_def)
qed

lemma view_names: "p \<noteq> [] \<Longrightarrow> viewMetadataSymbol owner p = viewMetadataName owner p"
  by (simp add: viewMetadataSymbol_def viewMetadataName_def subobjectTag_def)

lemma classMetadataSymbol_view:
  assumes "hierarchy_layout_ok t" "map_of t n = Some owner" "\<not> cl_builtin owner"
  shows "classMetadataSymbol t (cl_name owner) = viewMetadataName owner []"
proof -
  have "cl_name owner = n" using assms table_ok_name unfolding hierarchy_layout_ok_def by blast
  with assms(2,3) show ?thesis by (simp add: classMetadataSymbol_def viewMetadataName_def)
qed

text \<open>The metadata that a view of a linked object has, given the one that the allocation sets.\<close>

lemma object_ready_metadata:
  assumes "object_ready t owner M0 M" "M0 [0] = Some (Symbol (viewMetadataName owner []))"
    and "resolve_root t owner p = Some (k, d)"
  obtains q os where "subobjects t owner = Some os" "(q, d) \<in> set os" "resolve_root t owner q = Some (k, d)"
    "M (location t owner k @ [0]) = Some (Symbol (viewMetadataName owner q))"
proof -
  obtain os where os: "subobjects t owner = Some os" "lists_subobjects t owner os" "all_described t owner os M" "headed M0 M"
    using assms(1) by (auto simp: object_ready_def linked_object_def)
  from assms(3) os(2) obtain q where q: "(q, d) \<in> set os" "resolve_root t owner q = Some (k, d)"
    unfolding lists_subobjects_def by blast
  have "M (location t owner k @ [0]) = Some (Symbol (viewMetadataName owner q))"
  proof (cases "q = []")
    case True
    with q(2) have "location t owner k = []" by (auto simp: location_def)
    with True assms(2) os(4) show ?thesis by (simp add: headed_def)
  next
    case False
    with all_describedD [OF os(3) q] show ?thesis by (simp add: describes_def view_names)
  qed
  with os(1) q that show thesis by blast
qed

text \<open>What the module holds for the view of an object.\<close>

lemma emit_module_view:
  assumes "emit_module t classes = Some C" "symbols_distinct C" "owner \<in> set classes" "\<not> cl_builtin owner"
    and "subobjects t owner = Some os" "(q, d) \<in> set os" "methodSlots t d = Some slots" "i < length slots"
    and "emit_thunk t owner (q, d) i = Some (Some th)"
  shows "map_of (mc_metadata C) (viewMetadataName owner q) = Some (Some (methodTableName owner q))"
    and "map_of (mc_tables C) (methodTableName owner q) =
      Some (map (\<lambda>i. (me_name (slots ! i), thunkName owner q i)) [0..<length slots])"
    and "th \<in> set (mc_thunks C)"
proof -
  let ?described = "filter (\<lambda>c. \<not> cl_builtin c) classes"
  have lists: "collect_some (of_views t (view_metadata t)) ?described = Some (mc_metadata C)"
      "collect_some (of_views t (view_table t)) ?described = Some (mc_tables C)"
      "collect_some (of_views t (view_thunks t)) classes = Some (mc_thunks C)"
    using assms(1) by (auto simp: emit_module_def Let_def bind_eq_Some_conv)
  have owner: "owner \<in> set ?described" using assms(3,4) by simp
  have "slots \<noteq> []" using assms(8) by auto
  then have "(viewMetadataName owner q, Some (methodTableName owner q)) \<in> set (mc_metadata C)"
    using of_views_mem [OF lists(1) owner assms(5,6)] assms(7) by (auto simp: view_metadata_def)
  with assms(2) show "map_of (mc_metadata C) (viewMetadataName owner q) = Some (Some (methodTableName owner q))"
    by (simp add: symbols_distinct_def)
  have "(methodTableName owner q, map (\<lambda>i. (me_name (slots ! i), thunkName owner q i)) [0..<length slots]) \<in> set (mc_tables C)"
    using of_views_mem [OF lists(2) owner assms(5,6)] assms(7) \<open>slots \<noteq> []\<close> by (auto simp: view_table_def method_table_def)
  with assms(2) show "map_of (mc_tables C) (methodTableName owner q) =
      Some (map (\<lambda>i. (me_name (slots ! i), thunkName owner q i)) [0..<length slots])"
    by (simp add: symbols_distinct_def)
  from of_views_mem [OF lists(3) assms(3,5,6)] obtain ths where ths: "view_thunks t owner (q, d) = Some ths" "set ths \<subseteq> set (mc_thunks C)"
    by blast
  then have "collect_some (\<lambda>i. map_option (\<lambda>th. case th of None \<Rightarrow> [] | Some th \<Rightarrow> [th]) (emit_thunk t owner (q, d) i))
      [0..<length slots] = Some ths" using assms(7) by (simp add: view_thunks_def)
  from collect_some_mem [OF this, of i] assms(8,9) ths(2) show "th \<in> set (mc_thunks C)" by auto
qed

text \<open>The instructions before the call load the thunk.\<close>

lemma emitMethodCode_runs:
  assumes "methodSlot t d name signature = Some i" "R receiver = Some (Object_place l)"
    and "M (l @ [0]) = Some (Symbol x)" "map_of (mc_metadata C) x = Some (Some y)"
    and "map_of (mc_tables C) y = Some entries" "i < length entries"
  shows "\<exists>code function R'. emitMethodCode t n receiver d name signature = Some (code, function, n + 6) \<and>
    run_call C M code R = Some R' \<and> R' function = Some (Constant (snd (entries ! i)) [])"
  using assms by (simp add: emitMethodCode_def Let_def)

text \<open>
  C3: For every call with a dispatch slot, through any view of any object a constructor call has
  linked. The module that emits the constants of all classes exists. If it defines no symbol
  twice, the instructions before the call read the metadata in the view, its table and the entry of the
  slot, and obtain the name of a thunk of the module, the only one of this name. It is the thunk of
  the view that is listed for the subobject, which may be on another path than the one of the call.
  The thunk calls a method of the name and the parameter types of the call, of a
  class of the object, and passes the address of the subobject of this class. It is the class of the object, if this declares
  such a method; otherwise it is the first of the candidates that does.
\<close>

theorem dispatch_reaches_implementation:
  assumes "hierarchy_layout_ok t" "map_of t n = Some owner" "\<not> cl_builtin owner"
    and "owner \<in> set classes" "\<forall>c \<in> set classes. known t c"
    and "link_object t owner (temporary j) (Suc j) = Some (code, j')" "R0 (temporary j) = Some (Address [])"
    and "M0 [0] = Some (Symbol (classMetadataSymbol t (cl_name owner)))" "run_code code (R0, M0) = Some (R1, M)"
    and "resolve_root t owner p = Some (k, d)" "methodSlot t d name signature = Some i"
    and "R receiver = Some (Object_place (location t owner k))"
  shows "\<exists>C. emit_module t classes = Some C \<and> (symbols_distinct C \<longrightarrow>
    (\<exists>call function R' th q m c path l R''.
      emitMethodCode t h receiver d name signature = Some (call, function, h + 6) \<and>
      run_call C M call R = Some R' \<and> R' function = Some (Constant (th_name th) []) \<and>
      th \<in> set (mc_thunks C) \<and> (\<forall>th' \<in> set (mc_thunks C). th_name th' = th_name th \<longrightarrow> th' = th) \<and>
      resolve_root t owner q = Some (k, d) \<and> emit_thunk t owner (q, d) i = Some (Some th) \<and>
      implementation t owner (q, d) i = Some (Some (m, c, path)) \<and> m \<in> set (cl_methods c) \<and>
      th_target th = methodSymbol (cl_name c) m \<and> me_name m = name \<and> (signature = [] \<or> methodSignatureKey m = signature) \<and>
      (list_ex (\<lambda>m'. same_slot m' m \<and> dispatched m') (cl_methods owner) \<longrightarrow> c = owner \<and> path = []) \<and>
      resolve_root t owner path = Some (l, c) \<and>
      run_code (th_code th) (Map.empty(''%this'' \<mapsto> Address (location t owner k)), M) = Some (R'', M) \<and>
      R'' ''%impl.this'' = Some (Address (location t owner l))))"
proof -
  have owner: "known t owner" using assms(2) by (auto simp: known_def)
  have object: "address_of R0 (temporary j) = Some []" "settled (Suc j) (temporary j)"
    using assms(7) settled_temporary(1) [of j "Suc j"] by simp_all
  from link_object_runs [OF assms(1) owner object, of M0] assms(6,9) have ready: "object_ready t owner M0 M"
    by (auto simp: code_runs_def)
  have "M0 [0] = Some (Symbol (viewMetadataName owner []))"
    using assms(8) classMetadataSymbol_view [OF assms(1-3)] by simp
  from object_ready_metadata [OF ready this assms(10)] obtain q os where
      os: "subobjects t owner = Some os" "(q, d) \<in> set os"
      and q: "resolve_root t owner q = Some (k, d)" "M (location t owner k @ [0]) = Some (Symbol (viewMetadataName owner q))" .
  obtain slots where slots: "methodSlots t d = Some slots"
      "first_index (\<lambda>m. me_name m = name \<and> (signature = [] \<or> methodSignatureKey m = signature)) slots = Some i"
    using assms(11) by (auto simp: methodSlot_def bind_eq_Some_conv)
  note slot = first_index_Some [OF slots(2)]
  obtain m c path l where found: "implementation t owner (q, d) i = Some (Some (m, c, path))" "m \<in> set (cl_methods c)"
      "implements_slot (slots ! i) m" "resolve_root t owner path = Some (l, c)"
    using implementation_exists [OF assms(1) owner q(1) slots(1)] slot by blast
  have "me_name m = name" "methodSignatureKey m = methodSignatureKey (slots ! i)"
    using found(3) slot by (auto simp: implements_slot_def methodSignatureKey_def mangleParameters_types sameParameterTypes_iff)
  moreover have "list_ex (\<lambda>m'. same_slot m' m \<and> dispatched m') (cl_methods owner) \<longrightarrow> c = owner \<and> path = []"
    using implementation_own [OF found(1) slots(1)] found(3)
    by (auto simp: list_ex_iff implements_slot_def same_slot_def sameParameterTypes_iff)
  moreover obtain th R'' where th: "emit_thunk t owner (q, d) i = Some (Some th)" "th_name th = thunkName owner q i"
      "th_target th = methodSymbol (cl_name c) m"
      "run_code (th_code th) (Map.empty(''%this'' \<mapsto> Address (location t owner k)), M) = Some (R'', M)"
      "R'' ''%impl.this'' = Some (Address (location t owner l))"
    using thunk_receiver [where R = "Map.empty(''%this'' \<mapsto> Address (location t owner k))", OF assms(1) owner ready q(1) found(1,4)]
    by auto
  moreover have "signature = [] \<or> methodSignatureKey m = signature" using slot calculation(2) by auto
  ultimately have implemented: "me_name m = name" "signature = [] \<or> methodSignatureKey m = signature"
      "list_ex (\<lambda>m'. same_slot m' m \<and> dispatched m') (cl_methods owner) \<longrightarrow> c = owner \<and> path = []" by blast+
  obtain C where C: "emit_module t classes = Some C" using emit_module_exists [OF assms(1,5)] by blast
  have "\<exists>call function R'. emitMethodCode t h receiver d name signature = Some (call, function, h + 6) \<and>
      run_call C M call R = Some R' \<and> R' function = Some (Constant (th_name th) [])"
    and "th \<in> set (mc_thunks C)" and "\<forall>th' \<in> set (mc_thunks C). th_name th' = th_name th \<longrightarrow> th' = th"
    if distinct: "symbols_distinct C"
  proof -
    note view = emit_module_view [OF C distinct assms(4,3) os slots(1) conjunct1 [OF slot] th(1)]
    from emitMethodCode_runs [where R = R and M = M and C = C and n = h, OF assms(11,12) q(2) view(1,2)] slot th(2)
    show "\<exists>call function R'. emitMethodCode t h receiver d name signature = Some (call, function, h + 6) \<and>
        run_call C M call R = Some R' \<and> R' function = Some (Constant (th_name th) [])" by auto
    show "th \<in> set (mc_thunks C)" by (rule view(3))
    with distinct show "\<forall>th' \<in> set (mc_thunks C). th_name th' = th_name th \<longrightarrow> th' = th"
      by (auto simp: symbols_distinct_def distinct_map dest: inj_onD)
  qed
  with C q(1) found(1,2,4) th(1,3-5) implemented show ?thesis by blast
qed

subsection \<open>Overrides that the checks and the dispatch see differently\<close>

lemma find_append: "List.find P (xs @ ys) = (case List.find P xs of None \<Rightarrow> List.find P ys | Some x \<Rightarrow> Some x)"
  by (induction xs) auto

lemma find_add_overload:
  "List.find (\<lambda>r. sameParameterTypes (snd r) m) (fold add_overload rs found) =
     List.find (\<lambda>r. sameParameterTypes (snd r) m) (found @ rs)"
proof (induction rs arbitrary: found)
  case (Cons r rs)
  have "sameParameterTypes (snd r) m \<Longrightarrow> sameParameterTypes (snd e) (snd r) \<Longrightarrow> sameParameterTypes (snd e) m" for e
    by (simp add: sameParameterTypes_iff)
  then have "List.find (\<lambda>r. sameParameterTypes (snd r) m) found \<noteq> None"
    if "list_ex (\<lambda>e. sameParameterTypes (snd e) (snd r)) found" "sameParameterTypes (snd r) m"
    using that unfolding find_None_iff list_ex_iff by blast
  then show ?case
    unfolding fold_simps(2) Cons.IH by (auto simp: add_overload_def find_append split: option.splits)
qed simp

text \<open>The search keeps what it has found.\<close>

lemma overload_visit_keeps:
  "overload_visit t name fuel c found = Some found' \<Longrightarrow> List.find (\<lambda>r. sameParameterTypes (snd r) m) found = Some r \<Longrightarrow>
     List.find (\<lambda>r. sameParameterTypes (snd r) m) found' = Some r"
  "overload_bases t name fuel bs found = Some found' \<Longrightarrow> List.find (\<lambda>r. sameParameterTypes (snd r) m) found = Some r \<Longrightarrow>
     List.find (\<lambda>r. sameParameterTypes (snd r) m) found' = Some r"
proof (induction t name fuel c found and t name fuel bs found arbitrary: found' and found' rule: overload_visit_overload_bases.induct)
  case (2 t name fuel c found)
  then show ?case by (simp add: find_add_overload find_append)
next
  case (4 t name fuel b bs found)
  then show ?case by (auto simp: bind_eq_Some_conv split: option.splits)
qed simp_all

lemma dispatched_refs:
  "List.find (\<lambda>r. sameParameterTypes (snd r) m)
     (filter (\<lambda>r. me_name (snd r) = me_name m \<and> \<not> me_constructor (snd r) \<and> \<not> me_destructor (snd r)) (method_refs c)) = Some r \<Longrightarrow>
   snd r \<in> set (cl_methods c) \<and> dispatched (snd r) \<and> same_slot (snd r) m"
proof -
  assume "List.find (\<lambda>r. sameParameterTypes (snd r) m)
     (filter (\<lambda>r. me_name (snd r) = me_name m \<and> \<not> me_constructor (snd r) \<and> \<not> me_destructor (snd r)) (method_refs c)) = Some r"
  from find_SomeD [OF this] have "r \<in> set (method_refs c)" "dispatched (snd r) \<and> same_slot (snd r) m"
    by (auto simp: dispatched_def same_slot_def)
  moreover have "snd ` set (method_refs c) \<subseteq> set (cl_methods c)"
    by (auto simp: method_refs_def in_set_enumerate_eq)
  ultimately show ?thesis by blast
qed

text \<open>The overload that is found in a base whose first base declares the method.\<close>

lemma first_base_overload:
  assumes "hierarchy_layout_ok t" "map_of t b1 = Some first" "cl_baseClassNames base = b1 # rest"
    and "\<not> list_ex (\<lambda>x. same_slot x m \<and> dispatched x) (cl_methods base)"
    and "m1 \<in> set (cl_methods first)" "dispatched m1" "same_slot m1 m"
  obtains overloads r where "findOverloads t base (me_name m) = Some overloads"
    "List.find (\<lambda>r. sameParameterTypes (snd r) m) overloads = Some r" "snd r \<in> set (cl_methods first)" "dispatched (snd r)" "same_slot (snd r) m"
proof -
  let ?P = "\<lambda>r. sameParameterTypes (snd r) m"
  let ?refs = "\<lambda>c. filter (\<lambda>r. me_name (snd r) = me_name m \<and> \<not> me_constructor (snd r) \<and> \<not> me_destructor (snd r)) (method_refs c)"
  have none: "List.find ?P (?refs base) = None"
  proof (cases "List.find ?P (?refs base)")
    case (Some r)
    from dispatched_refs [OF Some] assms(4) show ?thesis by (auto simp: list_ex_iff)
  qed simp
  obtain j where "(j, m1) \<in> set (enumerate 0 (cl_methods first))"
    using assms(5) unfolding in_set_conv_nth [of m1] by (auto simp: in_set_enumerate_eq)
  then have "((cl_name first, j), m1) \<in> set (method_refs first)" by (force simp: method_refs_def)
  then have "((cl_name first, j), m1) \<in> set (?refs first)" "?P ((cl_name first, j), m1)"
    using assms(6,7) by (simp_all add: dispatched_def same_slot_def)
  then have "List.find ?P (?refs first) \<noteq> None" unfolding find_None_iff by blast
  then obtain r where r: "List.find ?P (?refs first) = Some r" by auto
  obtain overloads where overloads: "findOverloads t base (me_name m) = Some overloads"
    using overload.walk_total [of t "me_name m" base "[]"] assms(1)
    by (auto simp: findOverloads_def defined_def hierarchy_layout_ok_def)
  let ?own = "fold add_overload (?refs base) []"
  have "depth_of t = Suc (length t)" by (simp add: depth_of_def)
  then obtain mid where mid: "overload_visit t (me_name m) (length t) first ?own = Some mid"
      "overload_bases t (me_name m) (length t) rest mid = Some overloads"
    using overloads assms(2,3) by (auto simp: findOverloads_def bind_eq_Some_conv)
  have "List.find ?P mid = Some r"
  proof (cases "length t")
    case (Suc fuel)
    have "List.find ?P (fold add_overload (?refs first) ?own) = Some r"
      using none r by (simp add: find_add_overload find_append)
    with overload_visit_keeps(2) mid(1) Suc show ?thesis by simp
  qed (use mid(1) in simp)
  from overload_visit_keeps(2) [OF mid(2) this] overloads dispatched_refs [OF r] that show thesis by blast
qed

text \<open>
  C39: Take a class \<open>owner\<close> with a base whose first base declares a method of the name and parameter types of
  \<open>m\<close>, with the same return type, while the base does not. The check of the override \<open>m\<close> passes. But
  in every view of the object with a slot for \<open>m\<close>, whatever return type the method of the slot has, and so also
  in that of a second base which returns another type, the thunk of the slot calls \<open>m\<close>.
\<close>

theorem override_of_second_base_unchecked:
  assumes "hierarchy_layout_ok (sc_classes scope)" "map_of (sc_classes scope) n = Some owner"
    and "map_of (sc_classes scope) b = Some base" "countEnumMembers (sc_classes scope) base (me_name m) = Some 0"
    and "cl_baseClassNames base = b1 # rest" "map_of (sc_classes scope) b1 = Some first"
    and "\<not> list_ex (\<lambda>x. same_slot x m \<and> dispatched x) (cl_methods base)"
    and "m1 \<in> set (cl_methods first)" "dispatched m1" "same_slot m1 m"
    and "\<forall>x \<in> set (cl_methods first). dispatched x \<and> same_slot x m \<longrightarrow> me_returnType x = me_returnType m"
    and "m \<in> set (cl_methods owner)" "dispatched m" "check_distinct_methods owner = Inr ()"
    and "resolve_root (sc_classes scope) owner p = Some (k, second)" "methodSlots (sc_classes scope) second = Some slots"
    and "i < length slots" "same_slot (slots ! i) m" "me_returnType (slots ! i) \<noteq> me_returnType m"
  shows "check_override scope owner m b = Inr () \<and>
    implementation (sc_classes scope) owner (p, second) i = Some (Some (m, owner, []))"
proof
  obtain overloads r where r: "findOverloads (sc_classes scope) base (me_name m) = Some overloads"
      "List.find (\<lambda>r. sameParameterTypes (snd r) m) overloads = Some r" "snd r \<in> set (cl_methods first)" "dispatched (snd r)"
      "same_slot (snd r) m"
    by (rule first_base_overload [OF assms(1,6,5,7-10)])
  with assms(11) have "me_returnType (snd r) = me_returnType m" by blast
  with r(1,2) assms(4) show "check_override scope owner m b = Inr ()"
    by (simp add: check_override_def findClass_known [OF assms(3)] need_def reject_at_def)
  have owner: "known (sc_classes scope) owner" using assms(2) by (auto simp: known_def)
  obtain m' c path l where found: "implementation (sc_classes scope) owner (p, second) i = Some (Some (m', c, path))"
      "m' \<in> set (cl_methods c)" "implements_slot (slots ! i) m'"
    by (rule implementation_exists [OF assms(1) owner assms(15-17)])
  have "implements_slot (slots ! i) m"
    using assms(13,18) by (simp add: implements_slot_def same_slot_def sameParameterTypes_iff)
  from implementation_own [OF found(1) assms(16,12) this] have own: "c = owner" "path = []" by blast+
  have "same_signature m' m"
    using found(3) assms(18) by (simp add: implements_slot_def same_slot_def same_signature_def sameParameterTypes_iff)
  moreover have "distinct (signatures owner)"
    using assms(14) by (simp add: check_distinct_methods_def flip: duplicate_signature split: option.splits)
  ultimately have "m' = m"
    using found(2) assms(12) own(1) by (auto simp: signatures_def same_signature_iff distinct_map dest: inj_onD)
  with found(1) own show "implementation (sc_classes scope) owner (p, second) i = Some (Some (m, owner, []))" by simp
qed

lemma path_candidates_snoc:
  "path_candidates t pre (p @ [b]) = Some cs \<Longrightarrow>
     \<exists>cs' c. path_candidates t pre p = Some cs' \<and> map_of t b = Some c \<and> cs = cs' @ [(c, pre @ p @ [b])]"
proof (induction p arbitrary: pre cs)
  case (Cons a p)
  then obtain y z where y: "map_of t a = Some y" "path_candidates t (pre @ [a]) (p @ [b]) = Some z" "cs = (y, pre @ [a]) # z"
    by (auto simp: bind_eq_Some_conv)
  from Cons.IH [OF y(2)] obtain cs' c where "path_candidates t (pre @ [a]) p = Some cs'" "map_of t b = Some c"
      "z = cs' @ [(c, (pre @ [a]) @ p @ [b])]" by blast
  with y show ?case by auto
qed (auto simp: bind_eq_Some_conv)

lemma path_candidates_classes:
  "path_candidates t pre p = Some cs \<Longrightarrow> fst ` set cs = {c. \<exists>b \<in> set p. map_of t b = Some c}"
  by (induction p arbitrary: pre cs) (fastforce simp: bind_eq_Some_conv image_iff)+

lemma find_implementation_skip:
  "(\<And>c path. (c, path) \<in> set cs \<Longrightarrow> \<not> list_ex (implements_slot slot) (cl_methods c)) \<Longrightarrow>
     find_implementation slot (cs @ ds) = find_implementation slot ds"
proof (induction slot cs rule: find_implementation.induct)
  case (2 slot c path cs)
  have "List.find (implements_slot slot) (cl_methods c) = None"
    using 2(2) [of c path] by (auto simp: find_None_iff list_ex_iff)
  moreover have "find_implementation slot (cs @ ds) = find_implementation slot ds"
    using calculation 2(2) by (intro 2(1)) (meson list.set_intros(2))+
  ultimately show ?case by simp
qed simp

text \<open>The class of a view runs its own method, if the object and the classes on the path to the view have none.\<close>

lemma implementation_view:
  assumes "hierarchy_layout_ok t" "known t owner" "resolve_root t owner p = Some (k, d)" "p \<noteq> []"
    and "methodSlots t d = Some slots" "m \<in> set (cl_methods d)" "implements_slot (slots ! i) m"
    and "\<forall>c \<in> insert owner {c. \<exists>b \<in> set (butlast p). map_of t b = Some c}. \<not> list_ex (implements_slot (slots ! i)) (cl_methods c)"
  shows "\<exists>m'. implementation t owner (p, d) i = Some (Some (m', d, p))"
proof -
  obtain q b where p: "p = q @ [b]" using assms(4) by (cases p rule: rev_cases) auto
  obtain cs where cs: "candidates t owner (p, d) = Some cs" by (rule candidates_valid [OF assms(1-3)])
  then obtain above nested where above: "path_candidates t [] p = Some above" "cs = (owner, []) # above @ nested"
    by (auto simp: candidates_def bind_eq_Some_conv)
  from path_candidates_snoc [OF above(1) [unfolded p]] obtain cs' c where
      cs': "path_candidates t [] q = Some cs'" "map_of t b = Some c" "above = cs' @ [(c, p)]" using p by auto
  from resolve_snocE [OF assms(3) [unfolded p] assms(1,2)] cs'(2) have c: "c = d" by (metis old.prod.inject option.inject)
  have "\<not> list_ex (implements_slot (slots ! i)) (cl_methods x)" if "(x, path) \<in> set ((owner, []) # cs')" for x path
  proof -
    have "x \<in> insert owner (fst ` set cs')" using that by force
    with assms(8) show ?thesis unfolding path_candidates_classes [OF cs'(1)] p butlast_snoc by blast
  qed
  note others = this
  have "find_implementation (slots ! i) (((owner, []) # cs') @ (d, p) # nested) = find_implementation (slots ! i) ((d, p) # nested)"
    by (rule find_implementation_skip) (rule others)
  then have "find_implementation (slots ! i) cs = find_implementation (slots ! i) ((d, p) # nested)"
    unfolding above(2) cs'(3) c by simp
  with find_implementation_own [OF assms(6,7), of p nested] cs assms(5) show ?thesis
    by (auto simp: implementation_def)
qed

text \<open>
  C40: Take a base of an object that is reached on two paths, \<open>p\<close> and one that ends in a base of a
  class \<open>e\<close>, which overrides a method of the base: the paths lead to one shared virtual base. If \<open>p\<close> is the path in the
  list of subobjects, for which the program has thunks, and neither the class of the object nor
  the classes on \<open>p\<close> declare the method, then a call of it through the view of the
  base runs the method of the base. In an object of class \<open>e\<close>, the same call runs the override.
\<close>

theorem shared_override_missed:
  assumes "hierarchy_layout_ok t" "map_of t n = Some owner" "subobjects t owner = Some os" "(p, d) \<in> set os" "p \<noteq> []"
    and "resolve_root t owner p = Some (k, d)" "resolve_root t owner (q @ [b]) = Some (k, d)"
    and "resolve_root t owner q = Some (l, e)"
    and "methodSlots t d = Some slots" "i < length slots"
    and "m \<in> set (cl_methods e)" "implements_slot (slots ! i) m" "m0 \<in> set (cl_methods d)" "implements_slot (slots ! i) m0"
    and "\<forall>c \<in> insert owner {c. \<exists>b \<in> set (butlast p). map_of t b = Some c}. \<not> list_ex (implements_slot (slots ! i)) (cl_methods c)"
  shows "(\<exists>m. implementation t owner (p, d) i = Some (Some (m, d, p))) \<and>
    (\<exists>m. implementation t e ([b], d) i = Some (Some (m, e, [])))"
proof
  have owner: "known t owner" using assms(2) by (auto simp: known_def)
  then have e: "known t e" using resolve_known [OF assms(8)] by blast
  show "\<exists>m. implementation t owner (p, d) i = Some (Some (m, d, p))"
    by (rule implementation_view [OF assms(1) owner assms(6,5,9,13-15)])
  from assms(7,8) have "resolve t e l [b] = Some (k, d)" by (simp add: resolve_append)
  from resolve_other_id [OF this, of "(None, [])"] obtain k' where view: "resolve_root t e [b] = Some (k', d)" by blast
  obtain m' c path l' where found: "implementation t e ([b], d) i = Some (Some (m', c, path))"
    by (rule implementation_exists [OF assms(1) e view assms(9,10)])
  with implementation_own [OF found assms(9,11,12)] show "\<exists>m. implementation t e ([b], d) i = Some (Some (m, e, []))" by blast
qed

subsection \<open>Examples\<close>

definition derived_entry :: "string \<Rightarrow> (string \<times> bool) list \<Rightarrow> method_declaration list \<Rightarrow> string \<times> class_declaration" where
  "derived_entry name bases ms =
     (name, (snd (class_entry name (map fst bases) [] ms))\<lparr>cl_baseVirtual := map snd bases\<rparr>)"

text \<open>A shared base with a method that one of the classes below it overrides.\<close>

definition shared_root :: class_table where
  "shared_root =
     [derived_entry ''Root'' [] [int_method ''int'' ''get''],
      derived_entry ''Left'' [(''Root'', True)] [],
      derived_entry ''Right'' [(''Root'', True)] [int_method ''int'' ''get''],
      derived_entry ''Both'' [(''Left'', False), (''Right'', False)] []]"

lemma shared_root_ok: "hierarchy_layout_ok shared_root"
proof -
  have "hierarchy_ok shared_root"
    by (rule hierarchy_okI [of _ "\<lambda>n. if n = ''Root'' then 0 else if n = ''Both'' then 2 else 1"])
      (auto simp: shared_root_def derived_entry_def class_entry_def)
  moreover have "vectors_ok shared_root" "table_ok shared_root"
    by (simp_all add: vectors_ok_def table_ok_def shared_root_def derived_entry_def class_entry_def)
  moreover have "\<forall>(n, c) \<in> set shared_root. distinct (cl_baseClassNames c)"
    by (simp add: shared_root_def derived_entry_def class_entry_def)
  ultimately show ?thesis by (simp add: hierarchy_layout_ok_def)
qed

abbreviation shared_class :: "string \<Rightarrow> class_declaration" where
  "shared_class name \<equiv> the (map_of shared_root name)"

lemma shared_module: "case emit_module shared_root (map snd shared_root) of None \<Rightarrow> False | Some C \<Rightarrow> symbols_distinct C"
  by code_simp

text \<open>
  A call of \<open>get\<close> through the view \<open>Root\<close> that an object of class \<open>Both\<close> has below \<open>Right\<close>: the view is
  listed below \<open>Left\<close>.
\<close>

theorem dispatch_reaches_implementation_witness:
  "\<exists>C M call function R' th m (c :: class_declaration). emit_module shared_root (map snd shared_root) = Some C \<and>
     emitMethodCode shared_root 7 ''%view'' (shared_class ''Root'') ''get'' [] = Some (call, function, 13) \<and>
     run_call C M call (Map.empty(''%view'' \<mapsto>
       Object_place (location shared_root (shared_class ''Both'') (Some ''Root'', [])))) = Some R' \<and>
     R' function = Some (Constant (th_name th) []) \<and> th \<in> set (mc_thunks C) \<and>
     m \<in> set (cl_methods c) \<and> th_target th = methodSymbol (cl_name c) m \<and> me_name m = ''get''"
proof -
  let ?owner = "shared_class ''Both''" and ?R = "Map.empty(temporary 0 \<mapsto> Address [])"
  let ?classes = "map snd shared_root" and ?M = "Map.empty([0] \<mapsto> Symbol (classMetadataSymbol shared_root (cl_name (shared_class ''Both''))))"
  have owner: "map_of shared_root ''Both'' = Some ?owner" "\<not> cl_builtin ?owner" "?owner \<in> set ?classes"
    by (simp_all add: shared_root_def derived_entry_def class_entry_def default_class_def)
  then have "known shared_root ?owner" unfolding known_def by blast
  with link_object_runs [OF shared_root_ok, of ?owner ?R "temporary 0" 1 ?M] settled_temporary(1) [of 0 1]
  obtain code j R1 M where code: "link_object shared_root ?owner (temporary 0) (Suc 0) = Some (code, j)"
      "run_code code (?R, ?M) = Some (R1, M)" by (auto simp: code_runs_def)
  have "distinct (map fst shared_root)" by (simp add: shared_root_def derived_entry_def)
  then have classes: "\<forall>c \<in> set ?classes. known shared_root c" by (auto simp: known_def)
  have view: "resolve_root shared_root ?owner [''Right'', ''Root''] = Some ((Some ''Root'', []), shared_class ''Root'')" by code_simp
  have slot: "methodSlot shared_root (shared_class ''Root'') ''get'' [] = Some 0" by code_simp
  let ?view = "Map.empty(''%view'' \<mapsto> Object_place (location shared_root ?owner (Some ''Root'', [])))"
  have receiver: "?R (temporary 0) = Some (Address [])"
      "?M [0] = Some (Symbol (classMetadataSymbol shared_root (cl_name ?owner)))"
      "?view ''%view'' = Some (Object_place (location shared_root ?owner (Some ''Root'', [])))" by simp_all
  from dispatch_reaches_implementation [where ?R0.0 = ?R and ?M0.0 = ?M and R = ?view and h = 7,
      OF shared_root_ok owner classes code(1) receiver(1,2) code(2) view slot receiver(3)]
  show ?thesis
  proof (elim exE conjE, goal_cases)
    case (1 C)
    then have "symbols_distinct C" using shared_module by simp
    note C = 1(1) and run = mp [OF 1(2) this]
    from run show ?case
    proof (elim exE conjE, goal_cases)
      case (1 call fn R' th q m c path l R'')
      with C have call: "emit_module shared_root ?classes = Some C \<and>
          emitMethodCode shared_root 7 ''%view'' (shared_class ''Root'') ''get'' [] = Some (call, fn, 13) \<and>
          run_call C M call ?view = Some R' \<and> R' fn = Some (Constant (th_name th) []) \<and> th \<in> set (mc_thunks C) \<and>
          m \<in> set (cl_methods c) \<and> th_target th = methodSymbol (cl_name c) m \<and> me_name m = ''get''" by simp
      show ?case
        by (rule exI [of _ C], rule exI [of _ M], rule exI [of _ call], rule exI [of _ fn], rule exI [of _ R'],
          rule exI [of _ th], rule exI [of _ m], rule exI [of _ c], rule call)
    qed
  qed
qed

lemma shared_root_accepted: "check_classes (scope_of shared_root) [] (map snd shared_root) = Inr ()"
  by code_simp

text \<open>
  \<open>Right\<close> overrides the method of \<open>Root\<close>, and the classes pass the checks. An object of class
  \<open>Both\<close> runs the method of \<open>Root\<close> for a call through the view \<open>Root\<close>.
\<close>

theorem shared_override_missed_witness:
  "(\<exists>m. implementation shared_root (shared_class ''Both'') ([''Left'', ''Root''], shared_class ''Root'') 0 =
       Some (Some (m, shared_class ''Root'', [''Left'', ''Root'']))) \<and>
   (\<exists>m. implementation shared_root (shared_class ''Right'') ([''Root''], shared_class ''Root'') 0 =
       Some (Some (m, shared_class ''Right'', []))) \<and>
   check_classes (scope_of shared_root) [] (map snd shared_root) = Inr ()"
proof -
  let ?m = "int_method ''int'' ''get''" and ?root = "(Some ''Root'', [])"
  note defs = shared_root_def derived_entry_def class_entry_def default_class_def
  have owner: "map_of shared_root ''Both'' = Some (shared_class ''Both'')" by (simp add: defs)
  have paths: "resolve_root shared_root (shared_class ''Both'') [''Left'', ''Root''] = Some (?root, shared_class ''Root'')"
      "resolve_root shared_root (shared_class ''Both'') ([''Right''] @ [''Root'']) = Some (?root, shared_class ''Root'')"
      "resolve_root shared_root (shared_class ''Both'') [''Right''] = Some ((None, [''Right'']), shared_class ''Right'')"
    by code_simp+
  have slots: "methodSlots shared_root (shared_class ''Root'') = Some [?m]" by code_simp
  have methods: "?m \<in> set (cl_methods (shared_class ''Right''))" "?m \<in> set (cl_methods (shared_class ''Root''))"
    by (simp_all add: defs)
  have slot: "implements_slot ([?m] ! 0) ?m" by code_simp
  have others: "\<forall>c \<in> insert (shared_class ''Both'') {c. \<exists>b \<in> set (butlast [''Left'', ''Root'']). map_of shared_root b = Some c}.
      \<not> list_ex (implements_slot ([?m] ! 0)) (cl_methods c)"
    by (auto simp: defs)
  have "subobjects shared_root (shared_class ''Both'') = Some [([], shared_class ''Both''), ([''Left''], shared_class ''Left''),
      ([''Left'', ''Root''], shared_class ''Root''), ([''Right''], shared_class ''Right'')]" by code_simp
  then obtain os where os: "subobjects shared_root (shared_class ''Both'') = Some os" "([''Left'', ''Root''], shared_class ''Root'') \<in> set os"
    by simp
  from shared_override_missed [OF shared_root_ok owner os _ paths slots _ methods(1) slot methods(2) slot others]
    shared_root_accepted show ?thesis by auto
qed

text \<open>The override of a method of the second base of a base.\<close>

theorem override_of_second_base_unchecked_witness:
  "check_override (scope_of two_bases) (the (map_of two_bases ''Derived'')) (int_method ''int'' ''get'') ''Both'' = Inr () \<and>
   implementation two_bases (the (map_of two_bases ''Derived'')) ([''Both'', ''Second''], the (map_of two_bases ''Second'')) 0 =
     Some (Some (int_method ''int'' ''get'', the (map_of two_bases ''Derived''), [])) \<and>
   methodSlots two_bases (the (map_of two_bases ''Second'')) = Some [int_method ''float'' ''get''] \<and>
   check_classes (scope_of two_bases) [] (map snd two_bases) = Inr ()"
proof -
  let ?c = "\<lambda>name. the (map_of two_bases name)" and ?m = "int_method ''int'' ''get''" and ?m2 = "int_method ''float'' ''get''"
  note defs = two_bases_def class_entry_def default_class_def int_method_def default_method_def
  have "hierarchy_ok two_bases"
    by (rule hierarchy_okI [of _ "\<lambda>n. if n = ''Derived'' then 2 else if n = ''Both'' then 1 else 0"]) (auto simp: defs)
  then have ok: "hierarchy_layout_ok (sc_classes (scope_of two_bases))"
    by (simp add: hierarchy_layout_ok_def vectors_ok_def table_ok_def defs)
  have classes: "map_of (sc_classes (scope_of two_bases)) ''Derived'' = Some (?c ''Derived'')"
      "map_of (sc_classes (scope_of two_bases)) ''Both'' = Some (?c ''Both'')"
      "map_of (sc_classes (scope_of two_bases)) ''First'' = Some (?c ''First'')" by (simp_all add: defs)
  have count: "countEnumMembers (sc_classes (scope_of two_bases)) (?c ''Both'') (me_name ?m) = Some 0" by code_simp
  have bases: "cl_baseClassNames (?c ''Both'') = ''First'' # [''Second'']" by (simp add: defs)
  have own: "\<not> list_ex (\<lambda>x. same_slot x ?m \<and> dispatched x) (cl_methods (?c ''Both''))" by (simp add: defs)
  have methods: "?m \<in> set (cl_methods (?c ''First''))" "?m \<in> set (cl_methods (?c ''Derived''))" by (simp_all add: defs)
  have slot: "dispatched ?m" "same_slot ?m ?m" "same_slot ([?m2] ! 0) ?m" by code_simp+
  have returns: "\<forall>x \<in> set (cl_methods (?c ''First'')). dispatched x \<and> same_slot x ?m \<longrightarrow> me_returnType x = me_returnType ?m"
    by (simp add: defs)
  have distinct: "check_distinct_methods (?c ''Derived'') = Inr ()" by code_simp
  have view: "resolve_root (sc_classes (scope_of two_bases)) (?c ''Derived'') [''Both'', ''Second''] =
      Some ((None, [''Both'', ''Second'']), ?c ''Second'')" by code_simp
  have slots: "methodSlots (sc_classes (scope_of two_bases)) (?c ''Second'') = Some [?m2]" by code_simp
  have other: "me_returnType ([?m2] ! 0) \<noteq> me_returnType ?m" by (simp add: defs)
  have "check_classes (scope_of two_bases) [] (map snd two_bases) = Inr ()" by code_simp
  with override_of_second_base_unchecked [OF ok classes(1,2) count bases classes(3) own methods(1) slot(1,2) returns methods(2)
      slot(1) distinct view slots _ slot(3) other] slots
  show ?thesis by simp
qed

text \<open>
  The names of two views of one object are equal, if a name of a class holds an underscore: both
  views get the same symbol, and the module defines it twice.
\<close>

definition underscored :: class_table where
  "underscored =
     [derived_entry ''B'' [] [], derived_entry ''A'' [(''B'', False)] [], derived_entry ''A_B'' [] [],
      derived_entry ''C'' [(''A'', False), (''A_B'', False)] []]"

lemma view_symbols_equal:
  "check_classes (scope_of underscored) [] (map snd underscored) = Inr () \<and>
   map_option (map fst) (subobjects underscored (the (map_of underscored ''C''))) =
     Some [[], [''A''], [''A'', ''B''], [''A_B'']] \<and>
   viewMetadataName (the (map_of underscored ''C'')) [''A'', ''B''] = viewMetadataName (the (map_of underscored ''C'')) [''A_B'']"
  by (intro conjI; code_simp)

end
