(* ===== verification/Finalizer.thy ===== *)
theory Finalizer
  imports Object_Construction
begin

text \<open>
  The destructors of an object (\<open>emitClassMethods\<close> in \<open>src/CodeGeneratorModule.cpp\<close>): the finalizer of
  a class calls a chain of destructors, first those of the class and its bases that are not
  virtual, then those of the virtual bases in the reverse of the order of construction.
\<close>

subsection \<open>The chain\<close>

type_synonym destructor_call = "class_declaration \<times> method_declaration \<times> string list"

fun collect_visit :: "class_table \<Rightarrow> nat \<Rightarrow> class_declaration \<Rightarrow> string list \<Rightarrow> destructor_call list option"
  and collect_bases :: "class_table \<Rightarrow> nat \<Rightarrow> (string \<times> bool) list \<Rightarrow> string list \<Rightarrow> destructor_call list option"
  where
  "collect_visit t 0 c path = None"
| "collect_visit t (Suc fuel) c path =
     map_option (\<lambda>rest. map (\<lambda>m. (c, m, path)) (filter me_destructor (cl_methods c)) @ rest)
       (collect_bases t fuel (rev (direct_bases c)) path)"
| "collect_bases t fuel [] path = Some []"
| "collect_bases t fuel ((b, isVirtual) # bs) path =
     (case map_of t b of
        None \<Rightarrow> collect_bases t fuel bs path
      | Some base \<Rightarrow>
          if isVirtual then collect_bases t fuel bs path
          else Option.bind (collect_visit t fuel base (path @ [b])) (\<lambda>calls.
            map_option (\<lambda>rest. calls @ rest) (collect_bases t fuel bs path)))"

definition collectNonVirtual :: "class_table \<Rightarrow> class_declaration \<Rightarrow> string list \<Rightarrow> destructor_call list option" where
  "collectNonVirtual t c path = collect_visit t (depth_of t) c path"

text \<open>The path to a virtual base: the first one found, with the virtual bases that are seen.\<close>

fun find_visit_virtual ::
    "class_table \<Rightarrow> string \<Rightarrow> nat \<Rightarrow> class_declaration \<Rightarrow> string list \<Rightarrow> string list \<Rightarrow> (string list option \<times> string list) option"
  and find_bases_virtual ::
    "class_table \<Rightarrow> string \<Rightarrow> nat \<Rightarrow> (string \<times> bool) list \<Rightarrow> string list \<Rightarrow> string list \<Rightarrow> (string list option \<times> string list) option"
  where
  "find_visit_virtual t target 0 c path seen = None"
| "find_visit_virtual t target (Suc fuel) c path seen = find_bases_virtual t target fuel (direct_bases c) path seen"
| "find_bases_virtual t target fuel [] path seen = Some (None, seen)"
| "find_bases_virtual t target fuel ((b, isVirtual) # bs) path seen =
     (case map_of t b of
        None \<Rightarrow> find_bases_virtual t target fuel bs path seen
      | Some base \<Rightarrow>
          if isVirtual \<and> b \<in> set seen then find_bases_virtual t target fuel bs path seen
          else if isVirtual \<and> b = target then Some (Some (path @ [b]), b # seen)
          else Option.bind (find_visit_virtual t target fuel base (path @ [b]) (if isVirtual then b # seen else seen))
            (\<lambda>(found, seen).
              if found \<noteq> None then Some (found, seen) else find_bases_virtual t target fuel bs path seen))"

text \<open>The path is empty if the target is not found.\<close>

definition virtualPath :: "class_table \<Rightarrow> class_declaration \<Rightarrow> string \<Rightarrow> string list option" where
  "virtualPath t owner target =
     map_option (\<lambda>(found, seen). case found of None \<Rightarrow> [] | Some path \<Rightarrow> path)
       (find_visit_virtual t target (depth_of t) owner [] [])"

fun collect_virtual :: "class_table \<Rightarrow> class_declaration \<Rightarrow> string list \<Rightarrow> destructor_call list option" where
  "collect_virtual t owner [] = Some []"
| "collect_virtual t owner (b # bs) =
     (case map_of t b of
        None \<Rightarrow> collect_virtual t owner bs
      | Some base \<Rightarrow>
          Option.bind (virtualPath t owner b) (\<lambda>path.
          Option.bind (collectNonVirtual t base path) (\<lambda>calls.
            map_option (\<lambda>rest. calls @ rest) (collect_virtual t owner bs))))"

definition destructorChain :: "class_table \<Rightarrow> class_declaration \<Rightarrow> destructor_call list option" where
  "destructorChain t owner =
     Option.bind (collectNonVirtual t owner []) (\<lambda>calls.
     Option.bind (layoutVirtualBases t owner) (\<lambda>names.
       map_option (\<lambda>rest. calls @ rest) (collect_virtual t owner (rev names))))"

text \<open>Whether the metadata of a class refers to a finalizer.\<close>

fun contains_visit :: "class_table \<Rightarrow> nat \<Rightarrow> class_declaration \<Rightarrow> bool option"
  and contains_bases :: "class_table \<Rightarrow> nat \<Rightarrow> string list \<Rightarrow> bool option"
  where
  "contains_visit t 0 c = None"
| "contains_visit t (Suc fuel) c =
     (if list_ex me_destructor (cl_methods c) then Some True else contains_bases t fuel (cl_baseClassNames c))"
| "contains_bases t fuel [] = Some False"
| "contains_bases t fuel (b # bs) =
     (case map_of t b of
        None \<Rightarrow> contains_bases t fuel bs
      | Some base \<Rightarrow> Option.bind (contains_visit t fuel base) (\<lambda>found.
          if found then Some True else contains_bases t fuel bs))"

definition containsDestructor :: "class_table \<Rightarrow> class_declaration \<Rightarrow> bool option" where
  "containsDestructor t c = contains_visit t (depth_of t) c"

subsection \<open>The walks return\<close>

interpretation collect: class_walk t "collect_visit t" for t
proof
  have "walks_on t (collect_visit t fuel) (map fst bs) \<Longrightarrow> defined (collect_bases t fuel bs path)" for fuel bs path
    by (induction bs) (auto intro!: defined_bind split: option.splits)
  moreover have "walks_on t (collect_visit t fuel) (cl_baseClassNames c) \<Longrightarrow>
      walks_on t (collect_visit t fuel) (map fst (rev (direct_bases c)))" for fuel c
    by (auto simp: walks_on_def direct_bases_def dest: set_zip_leftD)
  ultimately show "hierarchy_ok t \<Longrightarrow> walks_on t (collect_visit t fuel) (cl_baseClassNames c) \<Longrightarrow>
      defined (collect_visit t (Suc fuel) c s)" for fuel c s by simp
qed

interpretation find_virtual: class_walk t "\<lambda>fuel c (path, seen). find_visit_virtual t target fuel c path seen" for t target
proof
  have "walks_on t (\<lambda>c (path, seen). find_visit_virtual t target fuel c path seen) (map fst bs) \<Longrightarrow>
      defined (find_bases_virtual t target fuel bs path seen)" for fuel bs path seen
    by (induction bs arbitrary: seen) (auto intro!: defined_bind split: option.splits)
  then show "hierarchy_ok t \<Longrightarrow> walks_on t (\<lambda>c (path, seen). find_visit_virtual t target fuel c path seen) (cl_baseClassNames c) \<Longrightarrow>
      defined (case s of (path, seen) \<Rightarrow> find_visit_virtual t target (Suc fuel) c path seen)" for fuel c s
    using walks_on_zip [of t "\<lambda>c (path, seen). find_visit_virtual t target fuel c path seen" "cl_baseClassNames c" "cl_baseVirtual c"]
    by (cases s) (simp add: direct_bases_def)
qed

interpretation contains: class_walk t "\<lambda>fuel c (s :: unit). contains_visit t fuel c" for t
proof
  have "walks_on t (\<lambda>c (s :: unit). contains_visit t fuel c) bs \<Longrightarrow> defined (contains_bases t fuel bs)" for fuel bs
    by (induction bs) (auto intro!: defined_bind split: option.splits)
  then show "hierarchy_ok t \<Longrightarrow> walks_on t (\<lambda>c (s :: unit). contains_visit t fuel c) (cl_baseClassNames c) \<Longrightarrow>
      defined (contains_visit t (Suc fuel) c)" for fuel c by simp
qed

subsection \<open>The path to a virtual base\<close>

lemma find_virtual_found:
  "find_visit_virtual t target fuel c path seen = Some (Some p, seen') \<Longrightarrow> hierarchy_layout_ok t \<Longrightarrow> known t root \<Longrightarrow>
     resolve_root t root path = Some (k, c) \<Longrightarrow> \<exists>d. resolve_root t root p = Some ((Some target, []), d)"
  "find_bases_virtual t target fuel bs path seen = Some (Some p, seen') \<Longrightarrow> hierarchy_layout_ok t \<Longrightarrow> known t root \<Longrightarrow>
     resolve_root t root path = Some (k, c) \<Longrightarrow> set bs \<subseteq> set (direct_bases c) \<Longrightarrow>
     \<exists>d. resolve_root t root p = Some ((Some target, []), d)"
proof (induction t target fuel c path seen and t target fuel bs path seen arbitrary: k seen' and k c seen'
    rule: find_visit_virtual_find_bases_virtual.induct)
  case (4 t target fuel b isVirtual bs path seen)
  show ?case
  proof (cases "map_of t b")
    case None
    with 4 show ?thesis by auto
  next
    case (Some base)
    have path: "resolve_root t root (path @ [b]) = Some (enter_base k b isVirtual, base)"
      using resolve_snoc [OF 4(8,6,7) _ Some] 4(9) by simp
    show ?thesis
    proof (cases "isVirtual \<and> (b \<in> set seen \<or> b = target)")
      case True
      with 4(2) [OF Some] 4(5-9) Some path show ?thesis by (auto simp: enter_base_def split: if_splits)
    next
      case False
      then obtain found mid where mid: "find_visit_virtual t target fuel base (path @ [b]) (if isVirtual then b # seen else seen) = Some (found, mid)"
          "(if found \<noteq> None then Some (found, mid) else find_bases_virtual t target fuel bs path mid) = Some (Some p, seen')"
        using 4(5) Some by (auto simp: bind_eq_Some_conv split: if_splits)
      show ?thesis
      proof (cases found)
        case None
        with 4(4) [OF Some _ _ mid(1) refl] mid(2) False 4(6-9) show ?thesis by auto
      next
        case (Some p')
        with mid 4(3) [OF \<open>map_of t b = Some base\<close>, of seen'] False 4(6,7) path show ?thesis by auto
      qed
    qed
  qed
qed auto

text \<open>A search that finds nothing sees what the list of subobjects sees.\<close>

lemma find_virtual_None:
  "find_visit_virtual t target fuel c path seen = Some (None, seen') \<Longrightarrow> target \<notin> set seen \<Longrightarrow>
     target \<notin> set seen' \<and> (\<forall>os. \<exists>os'. subobject_visit t fuel c path (seen, os) = Some (seen', os'))"
  "find_bases_virtual t target fuel bs path seen = Some (None, seen') \<Longrightarrow> target \<notin> set seen \<Longrightarrow>
     target \<notin> set seen' \<and> (\<forall>os. \<exists>os'. subobject_bases t fuel bs path (seen, os) = Some (seen', os'))"
proof (induction t target fuel c path seen and t target fuel bs path seen arbitrary: seen' and seen'
    rule: find_visit_virtual_find_bases_virtual.induct)
  case (4 t target fuel b isVirtual bs path seen)
  show ?case
  proof (cases "map_of t b = None \<or> isVirtual \<and> b \<in> set seen")
    case True
    with 4(1,2,5,6) show ?thesis by (auto split: option.splits)
  next
    case False
    then obtain base where base: "map_of t b = Some base" "\<not> (isVirtual \<and> b \<in> set seen)" by auto
    let ?seen = "if isVirtual then b # seen else seen"
    from 4(5) base obtain mid where mid: "\<not> (isVirtual \<and> b = target)"
        "find_visit_virtual t target fuel base (path @ [b]) ?seen = Some (None, mid)"
        "find_bases_virtual t target fuel bs path mid = Some (None, seen')"
      by (auto simp: bind_eq_Some_conv split: if_splits)
    have "target \<notin> set ?seen" using mid(1) 4(6) by auto
    from 4(3) [OF base mid(1,2) this] have first: "target \<notin> set mid"
        "\<forall>os. \<exists>os'. subobject_visit t fuel base (path @ [b]) (?seen, os) = Some (mid, os')" by auto
    from 4(4) [OF base mid(1,2) refl _ mid(3) first(1)] have second: "target \<notin> set seen'"
        "\<forall>os. \<exists>os'. subobject_bases t fuel bs path (mid, os) = Some (seen', os')" by auto
    have "\<exists>os'. subobject_bases t fuel ((b, isVirtual) # bs) path (seen, os) = Some (seen', os')" for os
    proof -
      obtain os1 where "subobject_visit t fuel base (path @ [b]) (?seen, os) = Some (mid, os1)" using first(2) by blast
      moreover obtain os2 where "subobject_bases t fuel bs path (mid, os1) = Some (seen', os2)" using second(2) by blast
      ultimately show ?thesis using base by auto
    qed
    with second(1) show ?thesis by blast
  qed
qed auto

lemma subobjects_virtual_path:
  assumes "hierarchy_layout_ok t" "known t owner" "resolve_root t owner q = Some ((Some b, []), d)"
  shows "\<exists>path e. virtualPath t owner b = Some path \<and> resolve_root t owner path = Some ((Some b, []), e)"
proof -
  have ok: "hierarchy_ok t" using assms(1) by (simp add: hierarchy_layout_ok_def)
  obtain found seen where found: "find_visit_virtual t b (depth_of t) owner [] [] = Some (found, seen)"
    using find_virtual.walk_total [OF ok, of b owner "([], [])"] by (auto simp: defined_def)
  show ?thesis
  proof (cases found)
    case (Some path)
    with find_virtual_found(1) [OF found [unfolded Some] assms(1,2), of "(None, [])"] found show ?thesis
      by (simp add: virtualPath_def)
  next
    case None
    from find_virtual_None(1) [OF found [unfolded None]] obtain os where
      os: "b \<notin> set seen" "subobject_visit t (depth_of t) owner [] ([], []) = Some (seen, os)" by auto
    from subobject_visit_added(1) [OF os(2) assms(1,2), of "(None, [])"]
    have "added t owner {(None, [])} [] seen os" "closed t seen os" "([], owner) \<in> set os" by (auto simp: roots_in_def)
    moreover have "\<exists>r e. (r, e) \<in> set os \<and> resolve_root t owner r = Some ((Some a, []), e)" if "a \<in> set seen" for a
      using addedD(4) [OF \<open>added t owner {(None, [])} [] seen os\<close> that] by simp
    ultimately obtain r where r: "(r, d) \<in> set os" "resolve_root t owner r = Some ((Some b, []), d)"
      using closed_complete [OF assms(1,2) _ _ _ assms(3)] by blast
    from addedD(3) [OF \<open>added t owner {(None, [])} [] seen os\<close> r(1)] r(2) os(1) show ?thesis
      by (auto simp: under_def fresh_virtual_def)
  qed
qed

subsection \<open>The subobjects of the chain\<close>

definition destructor_calls :: "subobject_list \<Rightarrow> destructor_call list" where
  "destructor_calls views = concat (map (\<lambda>(p, c). map (\<lambda>m. (c, m, p)) (filter me_destructor (cl_methods c))) views)"

lemma destructor_calls_simps [simp]:
  "destructor_calls [] = []"
  "destructor_calls ((p, c) # views) = map (\<lambda>m. (c, m, p)) (filter me_destructor (cl_methods c)) @ destructor_calls views"
  "destructor_calls (xs @ ys) = destructor_calls xs @ destructor_calls ys"
  by (simp_all add: destructor_calls_def)

lemma destructor_calls_Nil:
  "destructor_calls views \<noteq> [] \<longleftrightarrow> (\<exists>(p, d) \<in> set views. list_ex me_destructor (cl_methods d))"
proof (induction views)
  case (Cons v views)
  then show ?case by (cases v) (auto simp: list_ex_iff filter_empty_conv)
qed simp

text \<open>The bases of a view that are not virtual come behind it, the others are in \<open>V\<close>.\<close>

fun bases_later :: "class_table \<Rightarrow> string list \<Rightarrow> subobject_list \<Rightarrow> bool" where
  "bases_later t V [] \<longleftrightarrow> True"
| "bases_later t V ((q, d) # ys) \<longleftrightarrow> visits t V ys q (direct_bases d) \<and> bases_later t V ys"

lemma bases_later_append: "bases_later t V xs \<Longrightarrow> bases_later t V ys \<Longrightarrow> bases_later t V (xs @ ys)"
  by (induction t V xs rule: bases_later.induct) (auto elim: visits_mono)

text \<open>All virtual bases of a class are in \<open>V\<close>.\<close>

definition virtuals_in :: "class_table \<Rightarrow> class_declaration \<Rightarrow> string list \<Rightarrow> bool" where
  "virtuals_in t c V \<longleftrightarrow>
     (\<forall>q k e b. resolve_root t c q = Some (k, e) \<longrightarrow> (b, True) \<in> set (direct_bases e) \<longrightarrow> map_of t b \<noteq> None \<longrightarrow> b \<in> set V)"

lemma virtuals_in_base:
  assumes "virtuals_in t c V" "map_of (direct_bases c) b = Some v" "map_of t b = Some d"
  shows "virtuals_in t d V"
  unfolding virtuals_in_def
proof (intro allI impI)
  fix q k e a
  assume q: "resolve_root t d q = Some (k, e)" and a: "(a, True) \<in> set (direct_bases e)" "map_of t a \<noteq> None"
  from resolve_other_id [OF q, of "enter_base (None, []) b v"] assms(2,3) obtain l where
    "resolve_root t c (b # q) = Some (l, e)" by auto
  with assms(1) a show "a \<in> set V" unfolding virtuals_in_def by blast
qed

lemma virtuals_in_ancestors:
  assumes "map_of t n = Some c" "virtual_ancestors t n \<subseteq> set V"
  shows "virtuals_in t c V"
  unfolding virtuals_in_def
proof (intro allI impI)
  fix q k e b
  assume q: "resolve_root t c q = Some (k, e)" and b: "(b, True) \<in> set (direct_bases e)" "map_of t b \<noteq> None"
  from resolve_reach [OF q assms(1)] obtain m where "map_of t m = Some e" "(n, m) \<in> (direct_base t)\<^sup>*" by blast
  with b have "b \<in> virtual_ancestors t n" by (auto simp: virtual_ancestors_def virtual_edge_def direct_bases_def)
  with assms(2) show "b \<in> set V" by blast
qed

lemma collect_visit_views:
  "collect_visit t fuel c path = Some calls \<Longrightarrow> hierarchy_layout_ok t \<Longrightarrow> known t root \<Longrightarrow>
     resolve_root t root path = Some (k, c) \<Longrightarrow> roots_in seen {k} \<Longrightarrow>
     \<exists>new. calls = destructor_calls ((path, c) # new) \<and> added t root {k} seen seen ((path, c) # new) \<and>
       (\<forall>V. virtuals_in t c V \<longrightarrow> bases_later t V ((path, c) # new))"
  "collect_bases t fuel bs path = Some calls \<Longrightarrow> hierarchy_layout_ok t \<Longrightarrow> known t root \<Longrightarrow>
     resolve_root t root path = Some (k, c) \<Longrightarrow> set bs \<subseteq> set (direct_bases c) \<Longrightarrow> distinct (map fst bs) \<Longrightarrow>
     roots_in seen {k} \<Longrightarrow>
     \<exists>new. calls = destructor_calls new \<and> added t root (embedded k bs) seen seen new \<and>
       (\<forall>V. virtuals_in t c V \<longrightarrow> bases_later t V new \<and> visits t V new path bs)"
proof (induction t fuel c path and t fuel bs path arbitrary: k calls and k c calls rule: collect_visit_collect_bases.induct)
  case (2 t fuel c path)
  have c: "known t c" using resolve_known [OF 2(5,4)] .
  obtain rest where rest: "collect_bases t fuel (rev (direct_bases c)) path = Some rest"
      "calls = map (\<lambda>m. (c, m, path)) (filter me_destructor (cl_methods c)) @ rest"
    using 2(2) by auto
  have "set (rev (direct_bases c)) \<subseteq> set (direct_bases c)" "distinct (map fst (rev (direct_bases c)))"
    using direct_bases_distinct [OF 2(3) c] by (simp_all add: rev_map [symmetric])
  from 2(1) [OF rest(1) 2(3,4,5) this 2(6)] obtain new where new: "rest = destructor_calls new"
      "added t root (embedded k (rev (direct_bases c))) seen seen new"
      "\<forall>V. virtuals_in t c V \<longrightarrow> bases_later t V new \<and> visits t V new path (rev (direct_bases c))"
    by blast
  have "added t root {k} seen seen ((path, c) # new)"
    using new(2) 2(5,6) by (intro added_Cons) (auto simp: embedded_def)
  moreover have "bases_later t V ((path, c) # new)" if "virtuals_in t c V" for V
    using new(3) that by (simp add: visits_def)
  ultimately show ?case using rest(2) new(1) by (intro exI [of _ new]) simp
next
  case (3 t fuel path)
  then show ?case by (intro exI [of _ "[]"]) auto
next
  case (4 t fuel b isVirtual bs path)
  note rest = 4(4) and walk = 4(5) and ok = 4(6,7,8)
  have bs: "set bs \<subseteq> set (direct_bases c)" "distinct (map fst bs)" "b \<notin> fst ` set bs" "(b, isVirtual) \<in> set (direct_bases c)"
    using 4(9,10) by auto
  note roots = 4(11)
  show ?case
  proof (cases "map_of t b")
    case None
    then have "collect_bases t fuel bs path = Some calls" using walk by simp
    from 4(1) [OF None this ok bs(1,2) roots] None show ?thesis by (fastforce intro: added_mono)
  next
    case (Some base)
    have edge: "map_of (direct_bases c) b = Some isVirtual"
      using direct_bases_map_of [OF ok(1) resolve_known [OF ok(3,2)]] bs(4) by blast
    show ?thesis
    proof (cases isVirtual)
      case True
      then have "collect_bases t fuel bs path = Some calls" using walk Some by simp
      from 4(2) [OF Some True this ok bs(1,2) roots] obtain new where new: "calls = destructor_calls new"
          "added t root (embedded k bs) seen seen new"
          "\<forall>V. virtuals_in t c V \<longrightarrow> bases_later t V new \<and> visits t V new path bs" by blast
      have "b \<in> set V" if "virtuals_in t c V" for V
        using that bs(4) True Some unfolding virtuals_in_def by (metis option.discI resolve.simps(1))
      with new True show ?thesis by (intro exI [of _ new]) simp
    next
      case False
      obtain calls1 calls2 where parts: "collect_visit t fuel base (path @ [b]) = Some calls1"
          "collect_bases t fuel bs path = Some calls2" "calls = calls1 @ calls2"
        using walk Some False by (auto simp: bind_eq_Some_conv)
      let ?k = "(fst k, snd k @ [b])"
      have path: "resolve_root t root (path @ [b]) = Some (?k, base)"
        using resolve_snoc [OF ok(3,1,2) bs(4) Some] False by (simp add: enter_base_def)
      have "roots_in seen {?k}" using roots by (auto simp: roots_in_def)
      from 4(3) [OF Some False parts(1) ok(1,2) path this] obtain new where new:
          "calls1 = destructor_calls ((path @ [b], base) # new)" "added t root {?k} seen seen ((path @ [b], base) # new)"
          "\<forall>V. virtuals_in t base V \<longrightarrow> bases_later t V ((path @ [b], base) # new)" by blast
      obtain new' where new': "calls2 = destructor_calls new'" "added t root (embedded k bs) seen seen new'"
          "\<forall>V. virtuals_in t c V \<longrightarrow> bases_later t V new' \<and> visits t V new' path bs"
        using rest [OF Some False parts(1,2) ok bs(1,2) roots] by blast
      have "added t root ({?k} \<union> embedded k bs) seen seen (((path @ [b], base) # new) @ new')"
        using added_append [OF new(2) new'(2) embedded_apart [OF bs(3)]] embedded_roots [OF roots] \<open>roots_in seen {?k}\<close> by blast
      moreover have "bases_later t V (((path @ [b], base) # new) @ new') \<and>
          visits t V (((path @ [b], base) # new) @ new') path ((b, isVirtual) # bs)" if V: "virtuals_in t c V" for V
      proof -
        have later: "bases_later t V ((path @ [b], base) # new)" using new(3) virtuals_in_base [OF V edge Some] by blast
        have "bases_later t V new'" "visits t V new' path bs" using new'(3) V by blast+
        moreover have "visits t V (((path @ [b], base) # new) @ new') path bs"
          by (rule visits_mono [OF \<open>visits t V new' path bs\<close>]) auto
        ultimately show ?thesis
          using bases_later_append [OF later, of new'] Some False by auto
      qed
      ultimately show ?thesis
        using parts(3) new(1) new'(1) False by (intro exI [of _ "((path @ [b], base) # new) @ new'"]) auto
    qed
  qed
qed auto

subsection \<open>Derived classes first\<close>

text \<open>Each base of a subobject comes behind it.\<close>

fun derived_first :: "class_table \<Rightarrow> class_declaration \<Rightarrow> subobject_list \<Rightarrow> bool" where
  "derived_first t owner [] \<longleftrightarrow> True"
| "derived_first t owner ((q, d) # ys) \<longleftrightarrow>
     (\<forall>k b v e. resolve_root t owner q = Some (k, d) \<longrightarrow> (b, v) \<in> set (direct_bases d) \<longrightarrow> map_of t b = Some e \<longrightarrow>
        (\<exists>p. (p, e) \<in> set ys \<and> resolve_root t owner p = Some (enter_base k b v, e))) \<and>
     derived_first t owner ys"

lemma derived_first_append:
  assumes "hierarchy_layout_ok t" "known t owner" "derived_first t owner rest"
    and "\<forall>b \<in> set V. \<forall>e. map_of t b = Some e \<longrightarrow> (\<exists>p. (p, e) \<in> set rest \<and> resolve_root t owner p = Some ((Some b, []), e))"
  shows "bases_later t V xs \<Longrightarrow> derived_first t owner (xs @ rest)"
proof (induction xs)
  case (Cons x xs)
  obtain q d where x: "x = (q, d)" by (cases x)
  have visited: "visits t V xs q (direct_bases d)" and rest: "derived_first t owner (xs @ rest)"
    using Cons x by simp_all
  have "\<exists>p. (p, e) \<in> set (xs @ rest) \<and> resolve_root t owner p = Some (enter_base k b v, e)"
    if q: "resolve_root t owner q = Some (k, d)" "(b, v) \<in> set (direct_bases d)" "map_of t b = Some e" for k b v e
  proof (cases v)
    case True
    with visited q(2,3) have "b \<in> set V" by (fastforce simp: visits_def)
    with assms(4) q(3) True show ?thesis by (auto simp: enter_base_def)
  next
    case False
    with visited q(2,3) have "(q @ [b], e) \<in> set xs" by (fastforce simp: visits_def)
    moreover have "resolve_root t owner (q @ [b]) = Some (enter_base k b v, e)"
      using resolve_snoc [OF q(1) assms(1,2) q(2,3)] .
    ultimately show ?thesis by auto
  qed
  with rest x show ?case by simp
qed (use assms in simp)

lemma derived_first_complete:
  assumes "hierarchy_layout_ok t" "known t owner" "derived_first t owner os" "([], owner) \<in> set os"
  shows "resolve_root t owner p = Some (k, d) \<Longrightarrow> \<exists>q. (q, d) \<in> set os \<and> resolve_root t owner q = Some (k, d)"
proof (induction p arbitrary: k d rule: rev_induct)
  case Nil
  with assms(4) show ?case by (intro exI [of _ "[]"]) auto
next
  case (snoc b p)
  obtain k' e v d' where step: "resolve_root t owner p = Some (k', e)" "(b, v) \<in> set (direct_bases e)" "map_of t b = Some d'"
      "(k, d) = (enter_base k' b v, d')"
    using resolve_snocE [OF snoc.prems assms(1,2)] by blast
  from snoc.IH [OF step(1)] obtain q where q: "(q, e) \<in> set os" "resolve_root t owner q = Some (k', e)" by blast
  from split_list [OF q(1)] obtain xs ys where "os = xs @ (q, e) # ys" by blast
  with assms(3) have "derived_first t owner ((q, e) # ys)" by (induction xs arbitrary: os) auto
  with q(2) step(2,3) obtain r where "(r, d') \<in> set ys" "resolve_root t owner r = Some (enter_base k' b v, d')" by fastforce
  with step(4) \<open>os = xs @ (q, e) # ys\<close> show ?case by auto
qed

subsection \<open>The whole chain\<close>

definition virtual_id :: "string \<Rightarrow> subobject_id" where
  "virtual_id b = (Some b, [])"

text \<open>Names of virtual bases, each one before the virtual bases of its class.\<close>

definition destruction_order :: "class_table \<Rightarrow> string list \<Rightarrow> bool" where
  "destruction_order t bs \<longleftrightarrow> (\<forall>us b ws. bs = us @ b # ws \<longrightarrow> virtual_ancestors t b \<subseteq> set ws)"

lemma destruction_order_Cons:
  "destruction_order t (b # bs) \<Longrightarrow> virtual_ancestors t b \<subseteq> set bs \<and> destruction_order t bs"
  unfolding destruction_order_def by (metis append_Cons append_Nil)

lemma construction_order_rev: "construction_order t names \<Longrightarrow> destruction_order t (rev names)"
  unfolding construction_order_def destruction_order_def
proof (intro allI impI)
  fix us b ws
  assume order: "\<forall>xs b ys. names = xs @ b # ys \<longrightarrow> virtual_ancestors t b \<subseteq> set xs" and "rev names = us @ b # ws"
  then have "names = rev ws @ b # rev us" by (metis append.assoc append_Cons append_Nil rev.simps(2) rev_append rev_rev_ident)
  with order have "virtual_ancestors t b \<subseteq> set (rev ws)" by blast
  then show "virtual_ancestors t b \<subseteq> set ws" by simp
qed

definition holds_bases :: "class_table \<Rightarrow> class_declaration \<Rightarrow> string list \<Rightarrow> subobject_list \<Rightarrow> bool" where
  "holds_bases t owner bs os \<longleftrightarrow>
     (\<forall>b \<in> set bs. \<forall>e. map_of t b = Some e \<longrightarrow> (\<exists>p. (p, e) \<in> set os \<and> resolve_root t owner p = Some (virtual_id b, e)))"

lemma collect_virtual_views:
  assumes "hierarchy_layout_ok t" "known t owner"
  shows "distinct bs \<Longrightarrow> set bs \<subseteq> set seen \<Longrightarrow> destruction_order t bs \<Longrightarrow>
    \<forall>b \<in> set bs. \<exists>q d. resolve_root t owner q = Some (virtual_id b, d) \<Longrightarrow>
    \<exists>new. collect_virtual t owner bs = Some (destructor_calls new) \<and> added t owner (virtual_id ` set bs) seen seen new \<and>
      derived_first t owner new \<and> holds_bases t owner bs new"
proof (induction bs)
  case Nil
  then show ?case by (intro exI [of _ "[]"]) (simp add: holds_bases_def)
next
  case (Cons b bs)
  have ok: "hierarchy_ok t" using assms(1) by (simp add: hierarchy_layout_ok_def)
  obtain q d where "resolve_root t owner q = Some (virtual_id b, d)" using Cons.prems(4) by auto
  with subobjects_virtual_path [OF assms, of q b d] obtain path c where
    path: "virtualPath t owner b = Some path" "resolve_root t owner path = Some (virtual_id b, c)"
    unfolding virtual_id_def by blast
  have c: "map_of t b = Some c" using resolve_class [OF path(2)] by (simp add: id_class_def virtual_id_def)
  obtain calls where calls: "collect_visit t (depth_of t) c path = Some calls"
    using collect.walk_total [OF ok, of c path] by (auto simp: defined_def)
  have roots: "roots_in seen {virtual_id b}" "roots_in seen (virtual_id ` set bs)"
    using Cons.prems(2) by (auto simp: roots_in_def virtual_id_def)
  from collect_visit_views(1) [OF calls assms path(2) roots(1)] obtain new where new:
      "calls = destructor_calls ((path, c) # new)" "added t owner {virtual_id b} seen seen ((path, c) # new)"
      "\<forall>V. virtuals_in t c V \<longrightarrow> bases_later t V ((path, c) # new)" by blast
  have order: "virtual_ancestors t b \<subseteq> set bs" "destruction_order t bs"
    using destruction_order_Cons [OF Cons.prems(3)] by blast+
  from Cons.IH [OF _ _ order(2)] Cons.prems obtain rest where rest:
      "collect_virtual t owner bs = Some (destructor_calls rest)" "added t owner (virtual_id ` set bs) seen seen rest"
      "derived_first t owner rest" "holds_bases t owner bs rest" by auto
  let ?new = "((path, c) # new) @ rest"
  have "collect_virtual t owner (b # bs) = Some (destructor_calls ?new)"
    using c path(1) calls new(1) rest(1) by (simp add: collectNonVirtual_def)
  moreover have "added t owner (virtual_id ` set (b # bs)) seen seen ?new"
  proof -
    have "apart {virtual_id b} (virtual_id ` set bs)"
      using Cons.prems(1) by (auto simp: apart_def under_def virtual_id_def)
    from added_append [OF new(2) rest(2) this roots] show ?thesis by simp
  qed
  moreover have "derived_first t owner ?new"
  proof (rule derived_first_append [OF assms rest(3)])
    show "\<forall>b \<in> set bs. \<forall>e. map_of t b = Some e \<longrightarrow> (\<exists>p. (p, e) \<in> set rest \<and> resolve_root t owner p = Some ((Some b, []), e))"
      using rest(4) by (simp add: holds_bases_def virtual_id_def)
    show "bases_later t bs ((path, c) # new)" using new(3) virtuals_in_ancestors [OF c order(1)] by blast
  qed
  moreover have "holds_bases t owner (b # bs) ?new"
    using rest(4) c path(2) by (auto simp: holds_bases_def)
  ultimately show ?case by blast
qed

lemma virtualBases_order:
  assumes "hierarchy_layout_ok t" "map_of t n = Some c"
  obtains names where "layoutVirtualBases t c = Some names" "distinct names" "set names = virtual_ancestors t n"
    "construction_order t names"
proof -
  have ok: "hierarchy_ok t" "vectors_ok t" using assms(1) by (auto simp: hierarchy_layout_ok_def)
  obtain s where s: "virtual_visit t (depth_of t) c ([], []) = Some s"
    using virtual_base.walk_total [OF ok(1), of c "([], [])"] by (auto simp: defined_def)
  have "walk_ok t {} ([], [])" "below_all t {} n" by (simp_all add: walk_ok_def below_all_def)
  from virtual_visit_walked(1) [OF s ok assms(2) this] s that show thesis
    by (auto simp: layoutVirtualBases_eq virtualBaseNames_def walk_ok_def walked_def)
qed

text \<open>A path leads to each virtual base.\<close>

lemma base_reached:
  assumes "hierarchy_layout_ok t" "map_of t n = Some c" "(n, m) \<in> (direct_base t)\<^sup>*" "map_of t m \<noteq> None"
  shows "\<exists>q k e. resolve_root t c q = Some (k, e) \<and> map_of t m = Some e"
  using assms(3,4)
proof (induction rule: rtrancl_induct)
  case base
  with assms(2) show ?case by (intro exI [of _ "[]"]) simp
next
  case (step y z)
  then have "map_of t y \<noteq> None" by (auto simp: direct_base_def)
  with step.IH obtain q k e where q: "resolve_root t c q = Some (k, e)" "map_of t y = Some e" by blast
  obtain d where d: "map_of t z = Some d" using step.prems by blast
  have c: "known t c" using assms(2) by (auto simp: known_def)
  have "z \<in> set (cl_baseClassNames e)" using step.hyps(2) q(2) by (auto simp: direct_base_def)
  then obtain v where "(z, v) \<in> set (direct_bases e)"
    using direct_bases_names [OF assms(1) resolve_known [OF q(1) c]] by (metis (no_types, lifting) in_set_zip list.set_map imageE prod.collapse)
  from resolve_snoc [OF q(1) assms(1) c this d] d show ?case by blast
qed

lemma virtual_ancestors_reached:
  assumes "hierarchy_layout_ok t" "map_of t n = Some c"
  shows "\<forall>b \<in> virtual_ancestors t n. \<exists>q d. resolve_root t c q = Some ((Some b, []), d)"
proof
  fix b
  assume "b \<in> virtual_ancestors t n"
  then obtain m where m: "map_of t b \<noteq> None" "(n, m) \<in> (direct_base t)\<^sup>*" "(m, b) \<in> virtual_edge t"
    by (auto simp: virtual_ancestors_def)
  then have "map_of t m \<noteq> None" by (auto simp: virtual_edge_def)
  from base_reached [OF assms m(2) this] obtain q k e where q: "resolve_root t c q = Some (k, e)" "map_of t m = Some e" by blast
  obtain d where d: "map_of t b = Some d" using m(1) by blast
  have "(b, True) \<in> set (direct_bases e)" using m(3) q(2) by (auto simp: virtual_edge_def direct_bases_def)
  moreover have "known t c" using assms(2) by (auto simp: known_def)
  ultimately have "resolve_root t c (q @ [b]) = Some (enter_base k b True, d)"
    using resolve_snoc [OF q(1) assms(1)] d by blast
  then show "\<exists>q d. resolve_root t c q = Some ((Some b, []), d)" by (auto simp: enter_base_def)
qed

lemma containsDestructor_iff:
  "contains_visit t fuel c = Some r \<Longrightarrow> hierarchy_layout_ok t \<Longrightarrow> known t c \<Longrightarrow>
     r \<longleftrightarrow> (\<exists>q k e. resolve_root t c q = Some (k, e) \<and> list_ex me_destructor (cl_methods e))"
  "contains_bases t fuel bs = Some r \<Longrightarrow> hierarchy_layout_ok t \<Longrightarrow>
     r \<longleftrightarrow> (\<exists>b \<in> set bs. \<exists>d q k e. map_of t b = Some d \<and> resolve_root t d q = Some (k, e) \<and> list_ex me_destructor (cl_methods e))"
proof (induction t fuel c and t fuel bs arbitrary: r and r rule: contains_visit_contains_bases.induct)
  case (2 t fuel c)
  show ?case
  proof (cases "list_ex me_destructor (cl_methods c)")
    case True
    then have "resolve_root t c [] = Some ((None, []), c)" "r" using 2(2) by simp_all
    with True show ?thesis by blast
  next
    case False
    then have "contains_bases t fuel (cl_baseClassNames c) = Some r" using 2(2) by simp
    note bases = 2(1) [OF False this 2(3)]
    have "(\<exists>b \<in> set (cl_baseClassNames c). \<exists>d q k e. map_of t b = Some d \<and> resolve_root t d q = Some (k, e) \<and> P e) \<longleftrightarrow>
        (\<exists>q k e. resolve_root t c q = Some (k, e) \<and> P e)" if "\<not> P c" for P
    proof
      assume "\<exists>b \<in> set (cl_baseClassNames c). \<exists>d q k e. map_of t b = Some d \<and> resolve_root t d q = Some (k, e) \<and> P e"
      then obtain b d q k e where b: "b \<in> set (cl_baseClassNames c)" "map_of t b = Some d" "resolve_root t d q = Some (k, e)" "P e"
        by blast
      then obtain v where "map_of (direct_bases c) b = Some v"
        using direct_bases_names [OF 2(3,4)] by (metis map_of_eq_None_iff list.set_map not_None_eq)
      with b resolve_other_id [OF b(3), of "enter_base (None, []) b v"]
      have "\<exists>l. resolve_root t c (b # q) = Some (l, e)" by auto
      with b(4) show "\<exists>q k e. resolve_root t c q = Some (k, e) \<and> P e" by blast
    next
      assume "\<exists>q k e. resolve_root t c q = Some (k, e) \<and> P e"
      then obtain q k e where q: "resolve_root t c q = Some (k, e)" "P e" by blast
      with that obtain b q' where "q = b # q'" by (cases q) auto
      with q(1) obtain v d where b: "map_of (direct_bases c) b = Some v" "map_of t b = Some d"
          "resolve t d (enter_base (None, []) b v) q' = Some (k, e)" by (auto split: option.splits)
      have "b \<in> set (cl_baseClassNames c)"
        using map_of_SomeD [OF b(1)] by (auto simp: direct_bases_def dest: set_zip_leftD)
      with b(2) q(2) resolve_other_id [OF b(3), of "(None, [])"]
      show "\<exists>b \<in> set (cl_baseClassNames c). \<exists>d q k e. map_of t b = Some d \<and> resolve_root t d q = Some (k, e) \<and> P e"
        by blast
    qed
    from this [of "\<lambda>e. list_ex me_destructor (cl_methods e)", OF False] bases show ?thesis by simp
  qed
next
  case (4 t fuel b bs)
  show ?case
  proof (cases "map_of t b")
    case None
    with 4 show ?thesis by auto
  next
    case (Some base)
    then obtain found where found: "contains_visit t fuel base = Some found" "if found then r else contains_bases t fuel bs = Some r"
      using 4(4) by (auto simp: bind_eq_Some_conv split: if_splits)
    have "known t base" using Some by (auto simp: known_def)
    note first = 4(2) [OF Some found(1) 4(5) this]
    show ?thesis
    proof (cases found)
      case True
      with first found(2) Some show ?thesis by auto
    next
      case False
      then have "contains_bases t fuel bs = Some r" using found(2) by simp
      note later = 4(3) [OF Some found(1) False this 4(5)]
      from False first have "\<not> (\<exists>q k e. resolve_root t base q = Some (k, e) \<and> list_ex me_destructor (cl_methods e))" by blast
      with later Some show ?thesis by auto
    qed
  qed
qed auto

text \<open>
  C12: The chain of destructors of a class exists and is that of a list with exactly one entry for
  each subobject of the object, virtual bases once, in which each subobject precedes its bases. The
  metadata refers to the finalizer of a class exactly if the chain is not empty, so if it is emitted.
\<close>

theorem destructorChain_exact:
  assumes "hierarchy_layout_ok t" "map_of t n = Some owner"
  shows "\<exists>views. destructorChain t owner = Some (destructor_calls views) \<and> lists_subobjects t owner views \<and>
    derived_first t owner views \<and> containsDestructor t owner = Some (destructor_calls views \<noteq> [])"
proof -
  have ok: "hierarchy_ok t" "vectors_ok t" and owner: "known t owner"
    using assms by (auto simp: hierarchy_layout_ok_def known_def)
  obtain names where names: "layoutVirtualBases t owner = Some names" "distinct names" "set names = virtual_ancestors t n"
      "construction_order t names"
    using virtualBases_order [OF assms] .
  obtain calls where calls: "collect_visit t (depth_of t) owner [] = Some calls"
    using collect.walk_total [OF ok(1), of owner "[]"] by (auto simp: defined_def)
  have root: "resolve_root t owner [] = Some ((None, []), owner)" "roots_in names {(None, [])}" by (simp_all add: roots_in_def)
  from collect_visit_views(1) [OF calls assms(1) owner root] obtain new where new:
      "calls = destructor_calls (([], owner) # new)" "added t owner {(None, [])} names names (([], owner) # new)"
      "\<forall>V. virtuals_in t owner V \<longrightarrow> bases_later t V (([], owner) # new)" by blast
  have reached: "\<forall>b \<in> set (rev names). \<exists>q d. resolve_root t owner q = Some (virtual_id b, d)"
    using virtual_ancestors_reached [OF assms] names(3) by (simp add: virtual_id_def)
  from collect_virtual_views [OF assms(1) owner, of "rev names" names] names construction_order_rev [OF names(4)] reached
  obtain rest where rest: "collect_virtual t owner (rev names) = Some (destructor_calls rest)"
      "added t owner (virtual_id ` set names) names names rest" "derived_first t owner rest" "holds_bases t owner (rev names) rest"
    by auto
  let ?views = "(([], owner) # new) @ rest"
  have chain: "destructorChain t owner = Some (destructor_calls ?views)"
    using calls new(1) names(1) rest(1) by (simp add: destructorChain_def collectNonVirtual_def)
  have first: "derived_first t owner ?views"
  proof (rule derived_first_append [OF assms(1) owner rest(3)])
    show "\<forall>b \<in> set names. \<forall>e. map_of t b = Some e \<longrightarrow> (\<exists>p. (p, e) \<in> set rest \<and> resolve_root t owner p = Some ((Some b, []), e))"
      using rest(4) by (simp add: holds_bases_def virtual_id_def)
    show "bases_later t names (([], owner) # new)" using new(3) virtuals_in_ancestors [OF assms(2)] names(3) by blast
  qed
  have "apart {(None, [])} (virtual_id ` set names)" "roots_in names (virtual_id ` set names)"
    by (auto simp: apart_def under_def virtual_id_def roots_in_def)
  with added_append [OF new(2) rest(2) _ root(2)] have added: "added t owner ({(None, [])} \<union> virtual_id ` set names) names names ?views"
    by blast
  have valid: "\<exists>k. resolve_root t owner p = Some (k, d)" if "(p, d) \<in> set ?views" for p d
    using addedD(3) [OF added that] by blast
  have complete: "resolve_root t owner p = Some (k, d) \<Longrightarrow> \<exists>q. (q, d) \<in> set ?views \<and> resolve_root t owner q = Some (k, d)" for p k d
    using derived_first_complete [OF assms(1) owner first] by auto
  have lists: "lists_subobjects t owner ?views"
    unfolding lists_subobjects_def using addedD(2) [OF added] valid complete by blast
  obtain r where r: "contains_visit t (depth_of t) owner = Some r"
    using contains.walk_total [OF ok(1), of owner] by (auto simp: defined_def)
  have "destructor_calls ?views \<noteq> [] \<longleftrightarrow> (\<exists>(p, d) \<in> set ?views. list_ex me_destructor (cl_methods d))"
    by (rule destructor_calls_Nil)
  also have "\<dots> \<longleftrightarrow> r"
    using containsDestructor_iff(1) [OF r assms(1) owner] valid complete by blast
  finally have "containsDestructor t owner = Some (destructor_calls ?views \<noteq> [])" using r by (simp add: containsDestructor_def)
  with chain first lists show ?thesis by blast
qed

theorem destructorChain_exact_witness:
  "\<exists>D views. map_of diamond ''D'' = Some D \<and> destructorChain diamond D = Some (destructor_calls views) \<and>
     lists_subobjects diamond D views \<and> derived_first diamond D views"
proof -
  obtain D where D: "map_of diamond ''D'' = Some D" by (simp add: diamond_def sample_class_def)
  from destructorChain_exact [OF diamond_layout_ok D] D show ?thesis by blast
qed

end
