(* ===== verification/Spec2Isabelle.thy ===== *)
theory Spec2Isabelle
  imports Lexed Ast_Dump Mangling Format_String Parser_Safety Package_Integrity
    Package_Resolver Control_Flow Overload_Choice Class_Validity Runtime_List
    Runtime_Split Runtime_Number Runtime_Machine Dispatch Finalizer
begin

text \<open>
  A verification library for the Cwhip compiler. The compiler reads a source file
  (\<open>src/Lexer.cpp\<close>), parses its tokens (\<open>src/Parser.cpp\<close>, \<open>src/ParserClass.cpp\<close>) into a
  syntax tree (\<open>src/Ast.cpp\<close>), finds the packages that are imported
  (\<open>src/PackageRegistry.cpp\<close>, \<open>src/PackageIntegrity.cpp\<close>), analyzes the program
  (\<open>src/Semantic*.cpp\<close>) and emits LLVM assembly (\<open>src/CodeGenerator*.cpp\<close>).

  \<^bold>\<open>Conventions.\<close> A C++ class or struct is a record with one field per member, an enum class a
  datatype. A function that throws returns a sum: \<open>Inl\<close> is the exception, with its location and
  message, and \<open>Inr\<close> the result. A member function that changes its object takes the record and
  returns the new one. Strings are lists of bytes (\<open>string\<close>), \<open>std::map\<close> is an association list
  sorted by its keys, \<open>std::set\<close> and \<open>std::unordered_set\<close>, of which only membership is used, are
  lists. Loops are recursive functions. The file system is an argument of the definitions that
  read it. Locations and sizes are natural numbers, since they count bytes of one source.

  \<^bold>\<open>The parts.\<close>
  \<^item> \<open>Prelude\<close>: results with errors, characters and searching in strings.
  \<^item> \<open>Tokens\<close>, \<open>Utf8\<close>, \<open>Lexer\<close>, \<open>Tokenizer\<close>: token types and keywords, the UTF-8 check of
    strings, the scanners for words, numbers, strings, comments and inline C, and the main loop
    of the lexer. \<open>Token_Stream\<close> and \<open>Lexed\<close> prove what a run of the lexer guarantees: it stays
    inside the source, token texts have the shape of their types, locations increase, newline
    tokens occur only outside of parentheses, words and escaped strings are read back.
  \<^item> \<open>Ast\<close>, \<open>Ast_Dump\<close>: the syntax tree, the copy of expressions and the dump.
  \<^item> \<open>Callback_Type\<close>, \<open>Mangling\<close>, with \<open>Prefix_Code\<close>: the texts of callback types and the
    mangled names of methods, and that they determine the types they are built from.
  \<^item> \<open>Format_String\<close>: format strings, their placeholders and the depth check of trees.
  \<^item> \<open>Parser_State\<close>, \<open>Parser_Expr\<close>, \<open>Parser_Stmt\<close>, \<open>Parser_Decl\<close>: the recursive-descent parser as
    state transformers over the position in the token list. The functions take fuel, a bound on
    the depth of calls; the entry points \<open>parseProgram\<close> and \<open>parseModule\<close> choose it from the number
    of tokens, and \<open>Parser_Safety\<close> proves that running out of fuel is never the outcome.
    \<open>Parser_Expr_Spec\<close>, \<open>Parser_Stmt_Spec\<close> and \<open>Parser_Decl_Spec\<close> hold the rules on which tokens
    an operation consumes and which trees it builds, \<open>Parser_Grammar\<close> the refinement of the
    grammar of binary operators.
  \<^item> \<open>Sha256\<close>, \<open>Sha256_Standard\<close>, \<open>Hash_Stream\<close>: the SHA-256 object, the standard FIPS 180-4, and
    the interface of incremental hash functions through which the object refines it.
    \<open>Package_Integrity\<close>: the digests of files and package trees.
  \<^item> \<open>Package_Version\<close>, \<open>Version_Order\<close>: versions and their comparison, and the order of
    Semantic Versioning it implements. \<open>Package_Toml\<close>: the readers of strings and arrays.
  \<^item> \<open>Package_Manifest\<close>, \<open>Package_Lock\<close>, \<open>Package_Resolver\<close>: manifests, the lock file with its
    search for cycles, and the resolver. The recursion over dependencies takes fuel; it is
    proved that one more than the number of packages is enough.
  \<^item> \<open>Control_Flow\<close>: which statements of \<open>src/SemanticAnalyzer.cpp\<close> may complete, against the
    executions of statements; the check is exact up to do loops, which it takes for loops that may not run.
  \<^item> \<open>Name_Resolution\<close>: the lookup of class names from namespaces and imports and the walks that
    replace names in types, expressions and statements.
  \<^item> \<open>Class_Table\<close>, \<open>Class_Methods\<close>, \<open>Class_Conversion\<close>: the queries of
    \<open>src/SemanticInheritance.cpp\<close> on the classes of the program: subclasses, access, members,
    overloads, virtual bases, assignability and overload resolution. Their recursions
    through the bases take fuel, one more than the number of classes. \<open>Class_Hierarchy\<close> states
    the contract of such a walk as a locale and proves that every query returns with this fuel when the
    inheritance has no cycle. \<open>Overload_Choice\<close> and \<open>Virtual_Bases\<close> hold what overload resolution
    selects and the order of virtual bases.
  \<^item> \<open>Class_Checks\<close>, \<open>Class_Validity\<close>: the checks of class declarations in
    \<open>SemanticAnalyzer::analyze\<close>, what they guarantee, and where they fail to.
  \<^item> \<open>Runtime_Values\<close>, \<open>Runtime_Map\<close>, \<open>Runtime_Buffer\<close>, \<open>Runtime_List\<close>: the values of
    \<open>src/RuntimeGc.c\<close>, dictionaries with their hash table, buffers and lists. A result is a value,
    an exception of the language, or a failure of the C code: an access outside of a block, an
    endless loop, \<open>abort\<close>. Words are 64 bits wide. What \<open>realloc\<close> leaves in new memory is an argument,
    and the theorems hold whatever it is.
  \<^item> \<open>Runtime_Text\<close>, \<open>Runtime_String\<close>, \<open>Runtime_Split\<close>, \<open>Runtime_Number\<close>: the UTF-8 check, the
    methods of strings and the conversion to integers; \<open>Runtime_String_Spec\<close> holds the
    operations on texts that they refine.
  \<^item> \<open>Runtime_Heap\<close>, \<open>Runtime_Marking\<close>, \<open>Runtime_Collect\<close>, \<open>Runtime_Alloc\<close>: the heap, the root frames
    and the collector of \<open>src/RuntimeGc.c\<close>. The tracing takes fuel, one more than the number of objects, which is
    proved to be enough. Finalizers are code of the compiled program and the addresses of new
    blocks come from \<open>calloc\<close>; both are arguments, with hypotheses \<open>well_behaved\<close> and \<open>allocator_ok\<close>. A finalizer
    may attach its object to one in use, so what a collection keeps as it was depends on the objects that
    the finalizers spare (\<open>finalizers_spare\<close>).
  \<^item> \<open>Runtime_Exception\<close>, \<open>Runtime_Thread\<close>: the frames of exception handlers, objects under
    construction and destruction, the global lock and the callbacks that native code holds.
    \<open>Runtime_Machine\<close>: the runtime as a transition system of threads and calls, and its invariant. The premises of
    its rules on the state before a call are the duties of the compiled code, among them that the
    receiver of a new callback is in a root slot (\<open>rooted\<close>).
  \<^item> \<open>Object_Layout\<close>, \<open>Object_Address\<close>, \<open>Object_Construction\<close>, \<open>Dispatch\<close>, \<open>Finalizer\<close>: of the code generator, the
    layout of objects with multiple and virtual inheritance (\<open>src/CodeGeneratorLayout.cpp\<close>), the
    links a constructor call writes, the dispatch of methods and the chain of destructors (\<open>src/CodeGeneratorDispatch.cpp\<close>,
    \<open>src/CodeGeneratorModule.cpp\<close>). The instructions emitted there are a datatype with their text and
    a semantics on the memory of one object, where an address is the list of indices of
    \<open>getelementptr\<close>. A path of base names identifies a subobject by the last virtual base on it and
    the names behind it; the list of subobjects is in bijection with these. Of the constants of a module, \<open>Dispatch\<close>
    has the symbols of the metadata of views, the method tables and the thunks, from which the code before a call loads the
    function; that no symbol is defined twice is a hypothesis, which names of classes with underscores can break.

  \<^bold>\<open>Not modelled.\<close> The source loader and the module registry, the registration of names and the
  analysis of method bodies in the semantic analyzer, the code generator for expressions and
  statements, whose output has the semantics of LLVM, the parts of the C runtime for floats, formatting, dynamic types, inline C,
  processes, threads and the operating system, the driver with its command line and search paths,
  and the native parts of the standard library.
\<close>

end
